(* ===== verification/Prelude.thy ===== *)
theory Prelude
  imports Main "HOL-Library.Char_ord"
begin

text \<open>
  Shared vocabulary of the development: texts as lists of Unicode scalar values, the JSON
  values that \<^verbatim>\<open>serde_json\<close> reads and writes, decimal and hexadecimal rendering, list
  lemmas, and the interface of the bounded duplicate-free logs the harness keeps (the
  notified-turn set of a child and the progress trail of a request).
\<close>

named_theorems store_defs "definitions of the delegation store operations"
named_theorems text_len "lengths of rendered texts"

section \<open>Texts\<close>

text \<open>A Rust \<^verbatim>\<open>str\<close> is a sequence of Unicode scalar values. Identifiers (session ids,
  turn ids, request ids) are texts too; \<^verbatim>\<open>lit\<close> embeds an ASCII literal.\<close>

type_synonym utext = "nat list"
type_synonym sid = utext
type_synonym turn_id = utext
type_synonym req_id = utext

definition lit :: "string \<Rightarrow> utext" where
  "lit s = map of_char s"

lemma lit_inject [simp]: "lit a = lit b \<longleftrightarrow> a = b"
  unfolding lit_def by (rule inj_map_eq_map) (simp add: inj_def)

lemma lit_length [simp, text_len]: "length (lit s) = length s"
  by (simp add: lit_def)

lemma lit_append: "lit (a @ b) = lit a @ lit b"
  by (simp add: lit_def)

lemma lit_eq_Nil [simp]: "lit s = [] \<longleftrightarrow> s = []"
  by (simp add: lit_def)

text \<open>\<^verbatim>\<open>char::is_whitespace\<close>: the Unicode White_Space property.\<close>

definition is_whitespace :: "nat \<Rightarrow> bool" where
  "is_whitespace c \<longleftrightarrow> (9 \<le> c \<and> c \<le> 13) \<or> c = 32 \<or> c = 133 \<or> c = 160 \<or> c = 5760
     \<or> (8192 \<le> c \<and> c \<le> 8202) \<or> c = 8232 \<or> c = 8233 \<or> c = 8239 \<or> c = 8287 \<or> c = 12288"

definition trim_start :: "utext \<Rightarrow> utext" where
  "trim_start t = dropWhile is_whitespace t"

definition trim_end :: "utext \<Rightarrow> utext" where
  "trim_end t = rev (dropWhile is_whitespace (rev t))"

definition trim :: "utext \<Rightarrow> utext" where
  "trim t = trim_end (trim_start t)"

lemma length_trim_start [simp]: "length (trim_start t) \<le> length t"
  by (simp add: trim_start_def length_dropWhile_le)

lemma length_trim_end [simp]: "length (trim_end t) \<le> length t"
  unfolding trim_end_def by (metis length_dropWhile_le length_rev)

lemma length_trim: "length (trim t) \<le> length t"
  unfolding trim_def by (meson le_trans length_trim_end length_trim_start)

lemma set_trim: "set (trim t) \<subseteq> set t"
  unfolding trim_def trim_end_def trim_start_def
  by (metis set_rev set_dropWhileD subsetI)

definition ascii_lower :: "nat \<Rightarrow> nat" where
  "ascii_lower c = (if 65 \<le> c \<and> c \<le> 90 then c + 32 else c)"

definition to_ascii_lowercase :: "utext \<Rightarrow> utext" where
  "to_ascii_lowercase t = map ascii_lower t"

section \<open>Rendering numbers\<close>

fun radix_digits :: "nat \<Rightarrow> nat \<Rightarrow> nat list" where
  "radix_digits b n =
     (if b < 2 \<or> n < b then [n] else radix_digits b (n div b) @ [n mod b])"

declare radix_digits.simps [simp del]

definition digit_char :: "nat \<Rightarrow> nat" where
  "digit_char d = (if d < 10 then 48 + d else 87 + d)"

text \<open>Rendering a number in decimal, and in lower-case hexadecimal.\<close>

definition dec :: "nat \<Rightarrow> utext" where
  "dec n = map digit_char (radix_digits 10 n)"

definition hex :: "nat \<Rightarrow> utext" where
  "hex n = map digit_char (radix_digits 16 n)"

lemma radix_digits_ne [simp]: "radix_digits b n \<noteq> []"
  by (subst radix_digits.simps) simp

lemma radix_digits_bound: "2 \<le> b \<Longrightarrow> d \<in> set (radix_digits b n) \<Longrightarrow> d < b"
proof (induction b n rule: radix_digits.induct)
  case (1 b n)
  show ?case
  proof (cases "n < b")
    case True
    then show ?thesis using "1.prems" by (simp add: radix_digits.simps [of b n])
  next
    case False
    then have "radix_digits b n = radix_digits b (n div b) @ [n mod b]"
      using "1.prems" by (subst radix_digits.simps) simp
    then show ?thesis using 1 False by auto
  qed
qed

definition radix_value :: "nat \<Rightarrow> nat list \<Rightarrow> nat" where
  "radix_value b ds = foldl (\<lambda>acc d. acc * b + d) 0 ds"

lemma radix_value_digits: "2 \<le> b \<Longrightarrow> radix_value b (radix_digits b n) = n"
proof (induction b n rule: radix_digits.induct)
  case (1 b n)
  show ?case
  proof (cases "n < b")
    case True
    then show ?thesis by (simp add: radix_digits.simps [of b n] radix_value_def)
  next
    case False
    then have "radix_digits b n = radix_digits b (n div b) @ [n mod b]"
      using "1.prems" by (subst radix_digits.simps) simp
    moreover have "radix_value b (radix_digits b (n div b)) = n div b"
      using 1 False by simp
    ultimately show ?thesis by (simp add: radix_value_def)
  qed
qed

lemma radix_digits_inject: "2 \<le> b \<Longrightarrow> radix_digits b m = radix_digits b n \<longleftrightarrow> m = n"
  by (metis radix_value_digits)

lemma digit_char_inject: "a < 16 \<Longrightarrow> b < 16 \<Longrightarrow> digit_char a = digit_char b \<longleftrightarrow> a = b"
  by (auto simp: digit_char_def split: if_splits)

lemma hex_inject [simp]: "hex m = hex n \<longleftrightarrow> m = n"
proof
  assume eq: "hex m = hex n"
  have inj: "inj_on digit_char {..<16}"
    by (rule inj_onI) (simp add: digit_char_inject)
  have "set (radix_digits 16 m) \<union> set (radix_digits 16 n) \<subseteq> {..<16}"
    using radix_digits_bound [of 16] by auto
  then have "radix_digits 16 m = radix_digits 16 n"
    using eq inj unfolding hex_def by (metis inj_on_map_eq_map inj_on_subset)
  then show "m = n" by (simp add: radix_digits_inject)
qed simp

lemma hex_chars: "c \<in> set (hex n) \<Longrightarrow> 48 \<le> c"
  unfolding hex_def digit_char_def by auto

lemma length_radix_mono: "2 \<le> b \<Longrightarrow> m \<le> n \<Longrightarrow> length (radix_digits b m) \<le> length (radix_digits b n)"
proof (induction b n arbitrary: m rule: radix_digits.induct)
  case (1 b n)
  show ?case
  proof (cases "m < b")
    case True
    then show ?thesis
      by (simp add: radix_digits.simps [of b m]) (simp add: Suc_le_eq)
  next
    case False
    then have nb: "\<not> n < b" and bb: "\<not> b < 2" using "1.prems" by simp_all
    have "length (radix_digits b (m div b)) \<le> length (radix_digits b (n div b))"
      using 1 nb bb by (simp add: div_le_mono)
    then show ?thesis using False nb bb by (simp add: radix_digits.simps [of b m] radix_digits.simps [of b n])
  qed
qed

lemma length_dec_mono: "m \<le> n \<Longrightarrow> length (dec m) \<le> length (dec n)"
  by (simp add: dec_def length_radix_mono)

lemma length_radix_upper: "2 \<le> b \<Longrightarrow> n < b ^ Suc k \<Longrightarrow> length (radix_digits b n) \<le> Suc k"
proof (induction k arbitrary: n)
  case 0
  then show ?case by (subst radix_digits.simps) simp
next
  case (Suc k)
  show ?case
  proof (cases "n < b")
    case True
    then show ?thesis by (subst radix_digits.simps) simp
  next
    case False
    have "n div b < b ^ Suc k"
      using Suc.prems by (simp add: less_mult_imp_div_less mult.commute)
    then have "length (radix_digits b (n div b)) \<le> Suc k" using Suc by simp
    then show ?thesis using False Suc.prems by (simp add: radix_digits.simps [of b n])
  qed
qed

section \<open>JSON values\<close>

text \<open>\<^verbatim>\<open>serde_json::Value\<close>; an integer number keeps its value, any other number keeps
  its rendering. Object members are in the order the object iterates.\<close>

datatype json =
    JNull
  | JBool bool
  | JInt int
  | JFloat utext
  | JStr utext
  | JArr "json list"
  | JObj "(utext \<times> json) list"

text \<open>\<^verbatim>\<open>Value::get\<close> with a key, and the \<^verbatim>\<open>as_str\<close> and \<^verbatim>\<open>as_bool\<close> of what it finds.\<close>

definition json_get :: "string \<Rightarrow> json \<Rightarrow> json option" where
  "json_get k j = (case j of JObj ms \<Rightarrow> map_of ms (lit k) | _ \<Rightarrow> None)"

definition json_str :: "string \<Rightarrow> json \<Rightarrow> utext option" where
  "json_str k j = (case json_get k j of Some (JStr t) \<Rightarrow> Some t | _ \<Rightarrow> None)"

definition json_bool :: "string \<Rightarrow> json \<Rightarrow> bool option" where
  "json_bool k j = (case json_get k j of Some (JBool b) \<Rightarrow> Some b | _ \<Rightarrow> None)"

section \<open>List operations of the Rust standard library\<close>

text \<open>\<^verbatim>\<open>let over = v.len().saturating_sub(cap); v.drain(..over)\<close>.\<close>

definition drop_oldest :: "nat \<Rightarrow> 'a list \<Rightarrow> 'a list" where
  "drop_oldest cap xs = drop (length xs - cap) xs"

lemma drop_oldest_length [simp]: "length (drop_oldest cap xs) = min cap (length xs)"
  by (simp add: drop_oldest_def)

lemma drop_oldest_id [simp]: "length xs \<le> cap \<Longrightarrow> drop_oldest cap xs = xs"
  by (simp add: drop_oldest_def)

lemma set_drop_oldest: "set (drop_oldest cap xs) \<subseteq> set xs"
  by (simp add: drop_oldest_def set_drop_subset)

lemma last_in_drop_oldest: "0 < cap \<Longrightarrow> x \<in> set (drop_oldest cap (xs @ [x]))"
  by (simp add: drop_oldest_def)

text \<open>\<^verbatim>\<open>iter_mut().find(p)\<close> followed by an update: only the first match changes.\<close>

fun update_first :: "('a \<Rightarrow> bool) \<Rightarrow> ('a \<Rightarrow> 'a) \<Rightarrow> 'a list \<Rightarrow> 'a list" where
  "update_first P f [] = []"
| "update_first P f (x # xs) = (if P x then f x # xs else x # update_first P f xs)"

lemma length_update_first [simp]: "length (update_first P f xs) = length xs"
  by (induction xs) auto

lemma map_update_first:
  assumes "\<And>x. P x \<Longrightarrow> g (f x) = g x"
  shows "map g (update_first P f xs) = map g xs"
  using assms by (induction xs) auto

lemma set_update_first:
  "y \<in> set (update_first P f xs) \<Longrightarrow> y \<in> set xs \<or> (\<exists>x \<in> set xs. P x \<and> y = f x)"
  by (induction xs) (auto split: if_splits)

lemma update_first_none: "\<forall>x \<in> set xs. \<not> P x \<Longrightarrow> update_first P f xs = xs"
  by (induction xs) auto

lemma map_filter_append: "List.map_filter f (xs @ ys) = List.map_filter f xs @ List.map_filter f ys"
  by (simp add: List.map_filter_def)

lemma mem_map_filter: "y \<in> set (List.map_filter f xs) \<longleftrightarrow> (\<exists>x \<in> set xs. f x = Some y)"
  by (induction xs) (auto simp: List.map_filter_simps split: option.splits)

text \<open>\<^verbatim>\<open>u32::saturating_add\<close>.\<close>

definition u32_saturating_add :: "nat \<Rightarrow> nat \<Rightarrow> nat" where
  "u32_saturating_add a b = min (a + b) (2 ^ 32 - 1)"

section \<open>Bounded duplicate-free logs\<close>

text \<open>The contract of a log that is appended to at most once per key and keeps only its newest
  \<^term>\<open>cap\<close> entries. Two parts of a delegation record promise it.\<close>

locale bounded_log =
  fixes key :: "'e \<Rightarrow> 'k"
    and cap :: nat
    and push :: "'e \<Rightarrow> 'e list \<Rightarrow> 'e list"
  assumes cap_pos: "0 < cap"
    and push_seen: "key e \<in> key ` set l \<Longrightarrow> push e l = l"
    and push_fresh: "key e \<notin> key ` set l \<Longrightarrow> push e l = drop_oldest cap (l @ [e])"
begin

definition log_ok :: "'e list \<Rightarrow> bool" where
  "log_ok l \<longleftrightarrow> distinct (map key l) \<and> length l \<le> cap"

lemma log_ok_Nil: "log_ok []"
  by (simp add: log_ok_def)

lemma push_ok: "log_ok l \<Longrightarrow> log_ok (push e l)"
proof (cases "key e \<in> key ` set l")
  case True
  then show "log_ok l \<Longrightarrow> ?thesis" by (simp add: push_seen)
next
  case False
  assume ok: "log_ok l"
  then have "distinct (map key (l @ [e]))" using False by (simp add: log_ok_def)
  then have "distinct (drop (length l + 1 - cap) (map key (l @ [e])))"
    by (rule distinct_drop)
  then have "distinct (map key (drop_oldest cap (l @ [e])))"
    by (simp only: drop_oldest_def drop_map length_append_singleton Suc_eq_plus1)
  then show ?thesis using False by (simp add: push_fresh log_ok_def)
qed

lemma push_remembers: "key e \<in> key ` set (push e l)"
proof (cases "key e \<in> key ` set l")
  case False
  then show ?thesis
    using last_in_drop_oldest [OF cap_pos, of e l] by (simp add: push_fresh)
qed (simp add: push_seen)

lemma push_idem: "push e (push e l) = push e l"
  by (rule push_seen) (rule push_remembers)

lemma push_subset: "set (push e l) \<subseteq> insert e (set l)"
proof (cases "key e \<in> key ` set l")
  case False
  then show ?thesis using set_drop_oldest [of cap "l @ [e]"] by (auto simp: push_fresh)
qed (auto simp: push_seen)

lemma push_keeps_all: "length l < cap \<Longrightarrow> set l \<subseteq> set (push e l)"
  by (cases "key e \<in> key ` set l") (auto simp: push_seen push_fresh)

lemma fold_push_ok: "log_ok l \<Longrightarrow> log_ok (fold push es l)"
  by (induction es arbitrary: l) (simp_all add: push_ok)

end

end
