(* ===== verification/Delegation_Store.thy ===== *)
theory Delegation_Store
  imports Prelude "HOL-Library.Monad_Syntax"
begin

text \<open>
  The durable delegation record of one child session
  (\<^verbatim>\<open>ccteam-harness/src/execution/delegation.rs\<close>): notify modes, request states, requests, the
  store with its notified-turn set and its claimed boundaries, the JSON shape of the file and
  the read, write and scan operations on it. The clock (\<^verbatim>\<open>chrono::Utc::now\<close>, the nanosecond
  counter) is an argument of the operations that read it.
\<close>

section \<open>Notify modes\<close>

datatype notify_mode = NFinal | NBrief | NOff

definition default_notify_mode :: notify_mode where
  "default_notify_mode = NBrief"

definition notify_as_str :: "notify_mode \<Rightarrow> utext" where
  "notify_as_str m = (case m of NFinal \<Rightarrow> lit ''final'' | NBrief \<Rightarrow> lit ''brief'' | NOff \<Rightarrow> lit ''off'')"

datatype notify_error =
    NotifyAllRemoved
  | InvalidNotifyMode utext
  | InvalidNotifyValue json

definition notify_parse_value :: "json \<Rightarrow> notify_error + notify_mode" where
  "notify_parse_value v = (case v of
       JBool b \<Rightarrow> (if b then Inr NFinal else Inr NOff)
     | JStr s \<Rightarrow>
         (let w = to_ascii_lowercase (trim s) in
          if w = lit ''final'' \<or> w = lit ''true'' then Inr NFinal
          else if w = lit ''brief'' then Inr NBrief
          else if w = lit ''off'' \<or> w = lit ''false'' \<or> w = lit ''none'' then Inr NOff
          else if w = lit ''all'' then Inl NotifyAllRemoved
          else Inl (InvalidNotifyMode w))
     | _ \<Rightarrow> Inl (InvalidNotifyValue v))"

lemma notify_parse_as_str: "notify_parse_value (JStr (notify_as_str m)) = Inr m"
  by (cases m) (simp_all add: notify_as_str_def notify_parse_value_def to_ascii_lowercase_def trim_def
      trim_end_def trim_start_def lit_def is_whitespace_def ascii_lower_def)

section \<open>Request states\<close>

datatype turn_routing = RInject | RQueue | RNotification

datatype turn_disposition = DStarted | DInjected | DQueued

datatype request_state =
    Accepted | Queued | Submitted | Executing | Answered | Failed | Interrupted | Undelivered

definition is_terminal :: "request_state \<Rightarrow> bool" where
  "is_terminal s \<longleftrightarrow> s \<in> {Answered, Failed, Interrupted, Undelivered}"

lemma is_terminal_simps [simp]:
  "\<not> is_terminal Accepted" "\<not> is_terminal Queued" "\<not> is_terminal Submitted"
  "\<not> is_terminal Executing" "is_terminal Answered" "is_terminal Failed"
  "is_terminal Interrupted" "is_terminal Undelivered"
  by (simp_all add: is_terminal_def)

definition state_as_str :: "request_state \<Rightarrow> utext" where
  "state_as_str s = (case s of
      Accepted \<Rightarrow> lit ''accepted'' | Queued \<Rightarrow> lit ''queued'' | Submitted \<Rightarrow> lit ''submitted''
    | Executing \<Rightarrow> lit ''executing'' | Answered \<Rightarrow> lit ''answered'' | Failed \<Rightarrow> lit ''failed''
    | Interrupted \<Rightarrow> lit ''interrupted'' | Undelivered \<Rightarrow> lit ''undelivered'')"

definition routing_as_str :: "turn_routing \<Rightarrow> utext" where
  "routing_as_str r = (case r of
      RInject \<Rightarrow> lit ''inject'' | RQueue \<Rightarrow> lit ''queue'' | RNotification \<Rightarrow> lit ''notification'')"

section \<open>Requests\<close>

record request_progress =
  pg_exec_turn_id :: turn_id
  pg_at :: utext

definition REQUEST_PROGRESS_HISTORY :: nat where
  "REQUEST_PROGRESS_HISTORY = 10"

record request =
  rq_id :: req_id
  rq_parent :: sid
  rq_notify :: notify_mode
  rq_title :: "utext option"
  rq_routing :: turn_routing
  rq_idem_key :: "utext option"
  rq_created_at :: utext
  rq_state :: request_state
  rq_queue_position :: "nat option"
  rq_turn_id :: "turn_id option"
  rq_answered_turn :: "turn_id option"
  rq_notified :: bool
  rq_progress :: "request_progress list"
  rq_bind_error :: "utext option"

definition mint_request_id :: "nat \<Rightarrow> nat \<Rightarrow> req_id" where
  "mint_request_id nanos sq = lit ''req-'' @ hex nanos @ lit ''-'' @ hex sq"

definition request_accepted ::
  "req_id \<Rightarrow> utext \<Rightarrow> sid \<Rightarrow> notify_mode \<Rightarrow> utext option \<Rightarrow> turn_routing \<Rightarrow> utext option \<Rightarrow> request" where
  "request_accepted rid now parent mode title routing idem =
     \<lparr> rq_id = rid, rq_parent = parent, rq_notify = mode, rq_title = title, rq_routing = routing,
       rq_idem_key = idem, rq_created_at = now, rq_state = Accepted, rq_queue_position = None,
       rq_turn_id = None, rq_answered_turn = None, rq_notified = False, rq_progress = [],
       rq_bind_error = None \<rparr>"

definition push_progress :: "request_progress \<Rightarrow> request_progress list \<Rightarrow> request_progress list" where
  "push_progress p ps =
     (if list_ex (\<lambda>seen. pg_exec_turn_id seen = pg_exec_turn_id p) ps then ps
      else drop_oldest REQUEST_PROGRESS_HISTORY (ps @ [p]))"

definition request_note_progress :: "turn_id \<Rightarrow> utext \<Rightarrow> request \<Rightarrow> request" where
  "request_note_progress t now r =
     r \<lparr> rq_progress := push_progress \<lparr> pg_exec_turn_id = t, pg_at = now \<rparr> (rq_progress r) \<rparr>"

definition outstanding_request :: "request \<Rightarrow> bool" where
  "outstanding_request r \<longleftrightarrow> \<not> is_terminal (rq_state r)"

definition bound_request :: "turn_id \<Rightarrow> request \<Rightarrow> bool" where
  "bound_request t r \<longleftrightarrow> outstanding_request r \<and> rq_turn_id r = Some t"

section \<open>The store of one child\<close>

definition DELEGATION_SCHEMA :: nat where
  "DELEGATION_SCHEMA = 2"

record delivering_boundary =
  dv_turn_key :: turn_id
  dv_exec_turn_id :: "turn_id option"
  dv_request_ids :: "req_id list"
  dv_attempt :: nat

record store =
  st_schema :: nat
  st_requests :: "request list"
  st_notified :: "turn_id list"
  st_delivering :: "delivering_boundary list"

definition RESOLVED_REQUEST_HISTORY :: nat where
  "RESOLVED_REQUEST_HISTORY = 20"

definition NOTIFIED_TURN_HISTORY :: nat where
  "NOTIFIED_TURN_HISTORY = 200"

definition default_store :: store where
  "default_store = \<lparr> st_schema = DELEGATION_SCHEMA, st_requests = [], st_notified = [],
     st_delivering = [] \<rparr>"

text \<open>\<^verbatim>\<open>retain\<close> with the mutable \<^verbatim>\<open>drop_count\<close>: the first so many terminal requests go.\<close>

fun retain_resolved :: "nat \<Rightarrow> request list \<Rightarrow> request list" where
  "retain_resolved d [] = []"
| "retain_resolved d (r # rs) =
     (if 0 < d \<and> is_terminal (rq_state r) then retain_resolved (d - 1) rs
      else r # retain_resolved d rs)"

definition prune :: "store \<Rightarrow> store" where
  "prune s =
     (let resolved = length (filter (\<lambda>r. is_terminal (rq_state r)) (st_requests s)) in
      if resolved \<le> RESOLVED_REQUEST_HISTORY then s
      else s \<lparr> st_requests :=
             retain_resolved (resolved - RESOLVED_REQUEST_HISTORY) (st_requests s) \<rparr>)"

definition accept :: "request \<Rightarrow> store \<Rightarrow> store" where
  "accept r s = prune (s \<lparr> st_requests := st_requests s @ [r] \<rparr>)"

definition get_request :: "req_id \<Rightarrow> store \<Rightarrow> request option" where
  "get_request i s = find (\<lambda>r. rq_id r = i) (st_requests s)"

text \<open>\<^verbatim>\<open>get_mut\<close>: an update through the reference it returns.\<close>

definition update_request :: "req_id \<Rightarrow> (request \<Rightarrow> request) \<Rightarrow> store \<Rightarrow> store" where
  "update_request i f s =
     s \<lparr> st_requests := update_first (\<lambda>r. rq_id r = i) f (st_requests s) \<rparr>"

definition outstanding :: "store \<Rightarrow> request list" where
  "outstanding s = filter (\<lambda>r. \<not> is_terminal (rq_state r)) (st_requests s)"

definition bound_to :: "turn_id \<Rightarrow> store \<Rightarrow> request list" where
  "bound_to t s =
     filter (\<lambda>r. \<not> is_terminal (rq_state r) \<and> rq_turn_id r = Some t) (st_requests s)"

definition note_progress :: "turn_id \<Rightarrow> utext \<Rightarrow> store \<Rightarrow> store \<times> nat" where
  "note_progress t now s =
     (s \<lparr> st_requests :=
          map (\<lambda>r. if is_terminal (rq_state r) \<or> rq_turn_id r \<noteq> Some t then r
                    else request_note_progress t now r) (st_requests s) \<rparr>,
      length (filter (\<lambda>r. \<not> (is_terminal (rq_state r) \<or> rq_turn_id r \<noteq> Some t)) (st_requests s)))"

definition rebind_continuation :: "turn_id \<Rightarrow> turn_id \<Rightarrow> store \<Rightarrow> store \<times> nat" where
  "rebind_continuation src dst s =
     (if src = dst then (s, 0)
      else (s \<lparr> st_requests :=
                 map (\<lambda>r. if is_terminal (rq_state r) \<or> rq_turn_id r \<noteq> Some src then r
                           else r \<lparr> rq_turn_id := Some dst \<rparr>) (st_requests s) \<rparr>,
            length (filter (\<lambda>r. \<not> (is_terminal (rq_state r) \<or> rq_turn_id r \<noteq> Some src))
                      (st_requests s))))"

definition latest_outstanding_for :: "sid \<Rightarrow> store \<Rightarrow> request option" where
  "latest_outstanding_for p s =
     find (\<lambda>r. \<not> is_terminal (rq_state r) \<and> rq_parent r = p) (rev (st_requests s))"

definition push_notified :: "turn_id \<Rightarrow> turn_id list \<Rightarrow> turn_id list" where
  "push_notified k ks =
     (if list_ex (\<lambda>seen. seen = k) ks then ks
      else drop_oldest NOTIFIED_TURN_HISTORY (ks @ [k]))"

definition record_notified :: "turn_id \<Rightarrow> store \<Rightarrow> store" where
  "record_notified k s = s \<lparr> st_notified := push_notified k (st_notified s) \<rparr>"

definition begin_delivery ::
  "turn_id \<Rightarrow> turn_id option \<Rightarrow> req_id list \<Rightarrow> store \<Rightarrow> store \<times> nat option" where
  "begin_delivery k exec ids s =
     (if list_ex (\<lambda>seen. seen = k) (st_notified s) then (s, None)
      else (case find (\<lambda>e. dv_turn_key e = k) (st_delivering s) of
          Some e \<Rightarrow>
            (let att = u32_saturating_add (dv_attempt e) 1 in
             (s \<lparr> st_delivering :=
                 update_first (\<lambda>e. dv_turn_key e = k)
                   (\<lambda>e. e \<lparr> dv_attempt := att, dv_request_ids := ids, dv_exec_turn_id := exec \<rparr>)
                   (st_delivering s) \<rparr>,
              Some att))
        | None \<Rightarrow>
            (s \<lparr> st_delivering := st_delivering s @
                 [\<lparr> dv_turn_key = k, dv_exec_turn_id = exec, dv_request_ids = ids,
                    dv_attempt = 1 \<rparr>] \<rparr>,
             Some 1)))"

definition abandon_delivery :: "turn_id \<Rightarrow> store \<Rightarrow> store" where
  "abandon_delivery k s =
     s \<lparr> st_delivering := filter (\<lambda>e. dv_turn_key e \<noteq> k) (st_delivering s) \<rparr>"

definition finish_delivery :: "turn_id \<Rightarrow> store \<Rightarrow> store" where
  "finish_delivery k s =
     record_notified k (s \<lparr> st_delivering := filter (\<lambda>e. dv_turn_key e \<noteq> k) (st_delivering s) \<rparr>)"

definition owed_deliveries :: "store \<Rightarrow> delivering_boundary list" where
  "owed_deliveries s = st_delivering s"

definition store_is_empty :: "store \<Rightarrow> bool" where
  "store_is_empty s \<longleftrightarrow> st_requests s = [] \<and> st_notified s = [] \<and> st_delivering s = []"

lemma default_store_fields [simp]:
  "st_requests default_store = []" "st_notified default_store = []"
  "st_delivering default_store = []" "st_schema default_store = DELEGATION_SCHEMA"
  by (simp_all add: default_store_def)

section \<open>The bounded logs\<close>

interpretation request_trail: bounded_log pg_exec_turn_id REQUEST_PROGRESS_HISTORY push_progress
  by unfold_locales
    (simp_all add: push_progress_def REQUEST_PROGRESS_HISTORY_def list_ex_iff image_iff, metis+)

interpretation notified_log: bounded_log "\<lambda>k :: turn_id. k" NOTIFIED_TURN_HISTORY push_notified
  by unfold_locales (auto simp: push_notified_def NOTIFIED_TURN_HISTORY_def list_ex_iff)

lemma push_notified_mem: "k \<in> set (push_notified k ks)"
  using notified_log.push_remembers [of k ks] by simp

lemma push_notified_cases:
  "x \<in> set (push_notified k ks) \<Longrightarrow> x = k \<or> x \<in> set ks"
  using notified_log.push_subset [of k ks] by auto

section \<open>Pruning\<close>

lemma retain_resolved_terminal:
  "filter (\<lambda>r. is_terminal (rq_state r)) (retain_resolved d rs)
   = drop d (filter (\<lambda>r. is_terminal (rq_state r)) rs)"
  by (induction d rs rule: retain_resolved.induct) (auto simp: drop_Cons')

lemma retain_resolved_outstanding:
  "filter (\<lambda>r. \<not> is_terminal (rq_state r)) (retain_resolved d rs)
   = filter (\<lambda>r. \<not> is_terminal (rq_state r)) rs"
  by (induction d rs rule: retain_resolved.induct) auto

lemma set_retain_resolved: "set (retain_resolved d rs) \<subseteq> set rs"
  by (induction d rs rule: retain_resolved.induct) auto

lemma distinct_retain_resolved:
  "distinct (map f rs) \<Longrightarrow> distinct (map f (retain_resolved d rs))"
proof (induction d rs rule: retain_resolved.induct)
  case (2 d r rs)
  moreover have "f ` set (retain_resolved d rs) \<subseteq> f ` set rs"
    using set_retain_resolved by (rule image_mono)
  ultimately show ?case by auto
qed simp

lemma prune_fields [simp]:
  "st_notified (prune s) = st_notified s" "st_delivering (prune s) = st_delivering s"
  "st_schema (prune s) = st_schema s"
  by (simp_all add: prune_def Let_def)

lemma set_prune: "set (st_requests (prune s)) \<subseteq> set (st_requests s)"
  unfolding prune_def Let_def using set_retain_resolved by auto

lemma outstanding_prune [simp]: "outstanding (prune s) = outstanding s"
  by (simp add: prune_def outstanding_def Let_def retain_resolved_outstanding)

lemma resolved_prune:
  "filter (\<lambda>r. is_terminal (rq_state r)) (st_requests (prune s))
   = drop_oldest RESOLVED_REQUEST_HISTORY (filter (\<lambda>r. is_terminal (rq_state r)) (st_requests s))"
  by (simp add: prune_def Let_def retain_resolved_terminal drop_oldest_def)

lemma outstanding_accept:
  "outstanding (accept r s) = outstanding s @ (if is_terminal (rq_state r) then [] else [r])"
  unfolding accept_def outstanding_prune by (simp add: outstanding_def)

lemma accept_fields [simp]:
  "st_notified (accept r s) = st_notified s" "st_delivering (accept r s) = st_delivering s"
  "st_schema (accept r s) = st_schema s"
  by (simp_all add: accept_def)

lemma set_accept: "set (st_requests (accept r s)) \<subseteq> insert r (set (st_requests s))"
  unfolding accept_def using set_prune by fastforce

section \<open>Well-formed stores\<close>

text \<open>Distinct request ids, bounded trails and dedup set, one claim per boundary, and numbers within
  their machine widths (\<^verbatim>\<open>usize\<close>, \<^verbatim>\<open>u32\<close>).\<close>

definition request_ok :: "request \<Rightarrow> bool" where
  "request_ok r \<longleftrightarrow> request_trail.log_ok (rq_progress r)
     \<and> (case rq_queue_position r of None \<Rightarrow> True | Some n \<Rightarrow> n < 2 ^ 64)"

definition store_wf :: "store \<Rightarrow> bool" where
  "store_wf s \<longleftrightarrow> st_schema s = DELEGATION_SCHEMA
     \<and> distinct (map rq_id (st_requests s))
     \<and> (\<forall>r \<in> set (st_requests s). request_ok r)
     \<and> notified_log.log_ok (st_notified s)
     \<and> distinct (map dv_turn_key (st_delivering s))
     \<and> (\<forall>e \<in> set (st_delivering s). dv_attempt e < 2 ^ 32)"

definition claimed_keys :: "store \<Rightarrow> turn_id set" where
  "claimed_keys s = dv_turn_key ` set (st_delivering s)"

lemma claimed_keys_requests [simp]:
  "claimed_keys (s \<lparr> st_requests := rs \<rparr>) = claimed_keys s"
  "claimed_keys (s \<lparr> st_notified := ns \<rparr>) = claimed_keys s"
  by (simp_all add: claimed_keys_def)

lemma store_wf_default: "store_wf default_store"
  by (simp add: store_wf_def default_store_def notified_log.log_ok_Nil)

lemma request_ok_accepted: "request_ok (request_accepted rid now p m t ro ik)"
  by (simp add: request_ok_def request_accepted_def request_trail.log_ok_Nil)

lemma request_note_progress_ok: "request_ok r \<Longrightarrow> request_ok (request_note_progress t now r)"
  by (simp add: request_ok_def request_note_progress_def request_trail.push_ok)

lemma request_note_progress_fields [simp]:
  "rq_id (request_note_progress t now r) = rq_id r"
  "rq_state (request_note_progress t now r) = rq_state r"
  "rq_turn_id (request_note_progress t now r) = rq_turn_id r"
  "rq_parent (request_note_progress t now r) = rq_parent r"
  "rq_notify (request_note_progress t now r) = rq_notify r"
  "rq_notified (request_note_progress t now r) = rq_notified r"
  by (simp_all add: request_note_progress_def)

lemma store_wf_requests:
  "store_wf s \<Longrightarrow> distinct (map rq_id rs) \<Longrightarrow> (\<And>r. r \<in> set rs \<Longrightarrow> request_ok r) \<Longrightarrow>
   store_wf (s \<lparr> st_requests := rs \<rparr>)"
  by (simp add: store_wf_def)

lemma store_wf_request_ok: "store_wf s \<Longrightarrow> r \<in> set (st_requests s) \<Longrightarrow> request_ok r"
  by (simp add: store_wf_def)

lemma store_wf_distinct: "store_wf s \<Longrightarrow> distinct (map rq_id (st_requests s))"
  by (simp add: store_wf_def)

lemma store_wf_map:
  assumes "store_wf s" "\<And>r. rq_id (f r) = rq_id r" "\<And>r. request_ok r \<Longrightarrow> request_ok (f r)"
  shows "store_wf (s \<lparr> st_requests := map f (st_requests s) \<rparr>)"
proof -
  have "rq_id \<circ> f = rq_id" using assms(2) by (simp add: fun_eq_iff)
  then show ?thesis using assms(1,3) by (auto simp: store_wf_def)
qed

lemma store_wf_filter:
  "store_wf s \<Longrightarrow> store_wf (s \<lparr> st_requests := filter P (st_requests s) \<rparr>)"
  by (auto simp: store_wf_def distinct_map_filter)

lemma store_wf_update_request:
  assumes "store_wf s" "\<And>r. rq_id (f r) = rq_id r" "\<And>r. request_ok r \<Longrightarrow> request_ok (f r)"
  shows "store_wf (update_request i f s)"
  unfolding update_request_def
proof (rule store_wf_requests [OF assms(1)])
  show "distinct (map rq_id (update_first (\<lambda>r. rq_id r = i) f (st_requests s)))"
    using assms(1,2) by (simp add: map_update_first store_wf_def)
  show "request_ok r" if "r \<in> set (update_first (\<lambda>r. rq_id r = i) f (st_requests s))" for r
    using set_update_first [OF that] assms(1,3) by (auto simp: store_wf_def)
qed

lemma store_wf_prune: "store_wf s \<Longrightarrow> store_wf (prune s)"
  unfolding prune_def Let_def
  using set_retain_resolved
  by (auto intro!: store_wf_requests distinct_retain_resolved simp: store_wf_distinct
      intro: store_wf_request_ok)

lemma store_wf_accept:
  assumes "store_wf s" "rq_id r \<notin> rq_id ` set (st_requests s)" "request_ok r"
  shows "store_wf (accept r s)"
  unfolding accept_def by (rule store_wf_prune) (use assms in \<open>auto simp: store_wf_def\<close>)

lemma store_wf_note_progress: "store_wf s \<Longrightarrow> store_wf (fst (note_progress t now s))"
  unfolding note_progress_def fst_conv
  by (rule store_wf_map) (auto simp: request_note_progress_ok)

lemma store_wf_rebind: "store_wf s \<Longrightarrow> store_wf (fst (rebind_continuation src dst s))"
  unfolding rebind_continuation_def
  by (auto intro!: store_wf_map simp: request_ok_def)

lemma store_wf_abandon: "store_wf s \<Longrightarrow> store_wf (abandon_delivery k s)"
  by (auto simp: store_wf_def abandon_delivery_def distinct_map_filter)

lemma store_wf_record: "store_wf s \<Longrightarrow> store_wf (record_notified k s)"
  by (auto simp: store_wf_def record_notified_def notified_log.push_ok)

lemma store_wf_finish: "store_wf s \<Longrightarrow> store_wf (finish_delivery k s)"
  unfolding finish_delivery_def
  by (rule store_wf_record) (auto simp: store_wf_def distinct_map_filter)

lemma u32_saturating_add_less: "u32_saturating_add a b < 2 ^ 32"
  by (simp add: u32_saturating_add_def min_def)

lemma store_wf_begin:
  assumes "store_wf s"
  shows "store_wf (fst (begin_delivery k exec ids s))"
proof -
  let ?f = "\<lambda>a e. e \<lparr> dv_attempt := a, dv_request_ids := ids, dv_exec_turn_id := exec \<rparr>"
  have keys: "map dv_turn_key (update_first (\<lambda>e. dv_turn_key e = k) (?f a) l) = map dv_turn_key l"
    for a l by (rule map_update_first) simp
  show ?thesis
  proof (cases "find (\<lambda>e. dv_turn_key e = k) (st_delivering s)")
    case None
    then have "k \<notin> dv_turn_key ` set (st_delivering s)" by (auto simp: find_None_iff)
    then show ?thesis using assms None
      by (auto simp: store_wf_def begin_delivery_def list_ex_iff)
  next
    case (Some e)
    let ?a = "u32_saturating_add (dv_attempt e) 1"
    have "dv_attempt d < 2 ^ 32"
      if "d \<in> set (update_first (\<lambda>e. dv_turn_key e = k) (?f ?a) (st_delivering s))" for d
      using set_update_first [OF that] assms u32_saturating_add_less
      by (auto simp: store_wf_def)
    then show ?thesis using Some assms
      by (simp add: store_wf_def begin_delivery_def Let_def keys)
  qed
qed

lemma begin_delivery_keys:
  assumes "begin_delivery k exec ids s = (s', Some n)"
  shows "claimed_keys s' = insert k (claimed_keys s)"
proof -
  let ?f = "\<lambda>a e. e \<lparr> dv_attempt := a, dv_request_ids := ids, dv_exec_turn_id := exec \<rparr>"
  have "map dv_turn_key (update_first (\<lambda>e. dv_turn_key e = k) (?f a) l) = map dv_turn_key l"
    for a l by (rule map_update_first) simp
  then have keys: "dv_turn_key ` set (update_first (\<lambda>e. dv_turn_key e = k) (?f a) l)
      = dv_turn_key ` set l" for a l
    by (metis (no_types) list.set_map)
  show ?thesis
  proof (cases "find (\<lambda>e. dv_turn_key e = k) (st_delivering s)")
    case None
    then show ?thesis using assms
      by (auto simp: begin_delivery_def claimed_keys_def split: if_splits)
  next
    case (Some e)
    then have "k \<in> dv_turn_key ` set (st_delivering s)" by (auto simp: find_Some_iff)
    moreover have "s' = s \<lparr> st_delivering := update_first (\<lambda>e. dv_turn_key e = k)
        (?f (u32_saturating_add (dv_attempt e) 1)) (st_delivering s) \<rparr>"
      using Some assms by (auto simp: begin_delivery_def Let_def split: if_splits)
    ultimately show ?thesis by (simp add: claimed_keys_def keys insert_absorb)
  qed
qed

lemma begin_delivery_fields:
  assumes "begin_delivery k exec ids s = (s', n)"
  shows "st_requests s' = st_requests s \<and> st_notified s' = st_notified s \<and> st_schema s' = st_schema s"
  using assms by (auto simp: begin_delivery_def Let_def split: if_splits option.splits)

lemma finish_delivery_keys: "claimed_keys (finish_delivery k s) = claimed_keys s - {k}"
  by (auto simp: claimed_keys_def finish_delivery_def record_notified_def)

lemma abandon_delivery_keys: "claimed_keys (abandon_delivery k s) = claimed_keys s - {k}"
  by (auto simp: claimed_keys_def abandon_delivery_def)

lemma record_notified_keys [simp]: "claimed_keys (record_notified k s) = claimed_keys s"
  by (simp add: record_notified_def)

lemma update_request_keys [simp]: "claimed_keys (update_request i f s) = claimed_keys s"
  by (simp add: update_request_def)

lemma accept_keys [simp]: "claimed_keys (accept r s) = claimed_keys s"
  by (simp add: claimed_keys_def)

lemma note_progress_keys [simp]: "claimed_keys (fst (note_progress t now s)) = claimed_keys s"
  by (simp add: note_progress_def)

lemma rebind_keys [simp]: "claimed_keys (fst (rebind_continuation src dst s)) = claimed_keys s"
  by (simp add: rebind_continuation_def)

lemmas store_wf_intros = store_wf_prune store_wf_accept store_wf_note_progress store_wf_rebind
  store_wf_abandon store_wf_record store_wf_finish store_wf_begin store_wf_filter store_wf_default

end
