(* ===== verification/Delegation_File.thy ===== *)
theory Delegation_File
  imports Delegation_Store
begin

text \<open>
  The file \<^verbatim>\<open>.ccteam/chat/<sid>/delegation.json\<close>: the JSON value the derived serializers of
  \<^verbatim>\<open>delegation.rs\<close> produce, the derived deserializers on JSON objects (unknown members ignored,
  a repeated member refused, \<^verbatim>\<open>default\<close>, \<^verbatim>\<open>skip\<close> and \<^verbatim>\<open>skip_serializing_if\<close> as annotated),
  and reading, durably writing, deleting and scanning such files. The rendering of a JSON value
  as bytes is the library's; a file here holds a JSON value, or text that is not one. The
  positional array form the derived code would also accept, which nothing writes, is left out.
\<close>

section \<open>Serialization\<close>

definition opt_member :: "string \<Rightarrow> ('a \<Rightarrow> json) \<Rightarrow> 'a option \<Rightarrow> (utext \<times> json) list" where
  "opt_member k f v = (case v of None \<Rightarrow> [] | Some x \<Rightarrow> [(lit k, f x)])"

definition progress_to_json :: "request_progress \<Rightarrow> json" where
  "progress_to_json p = JObj [(lit ''exec_turn_id'', JStr (pg_exec_turn_id p)), (lit ''at'', JStr (pg_at p))]"

definition request_to_json :: "request \<Rightarrow> json" where
  "request_to_json r = JObj (
     [(lit ''request_id'', JStr (rq_id r)),
      (lit ''parent_sid'', JStr (rq_parent r)),
      (lit ''notify'', JStr (notify_as_str (rq_notify r)))]
     @ opt_member ''title'' JStr (rq_title r)
     @ [(lit ''routing'', JStr (routing_as_str (rq_routing r)))]
     @ opt_member ''idempotency_key'' JStr (rq_idem_key r)
     @ [(lit ''created_at'', JStr (rq_created_at r)),
        (lit ''state'', JStr (state_as_str (rq_state r)))]
     @ opt_member ''queue_position'' (\<lambda>n. JInt (int n)) (rq_queue_position r)
     @ opt_member ''turn_id'' JStr (rq_turn_id r)
     @ opt_member ''answered_turn'' JStr (rq_answered_turn r)
     @ [(lit ''notified'', JBool (rq_notified r))]
     @ (if rq_progress r = [] then []
        else [(lit ''progress'', JArr (map progress_to_json (rq_progress r)))]))"

definition boundary_to_json :: "delivering_boundary \<Rightarrow> json" where
  "boundary_to_json e = JObj (
     [(lit ''turn_key'', JStr (dv_turn_key e))]
     @ opt_member ''exec_turn_id'' JStr (dv_exec_turn_id e)
     @ [(lit ''request_ids'', JArr (map JStr (dv_request_ids e))),
        (lit ''attempt'', JInt (int (dv_attempt e)))])"

definition store_to_json :: "store \<Rightarrow> json" where
  "store_to_json s = JObj
     [(lit ''schema'', JInt (int (st_schema s))),
      (lit ''requests'', JArr (map request_to_json (st_requests s))),
      (lit ''notified_turns'', JArr (map JStr (st_notified s))),
      (lit ''delivering'', JArr (map boundary_to_json (st_delivering s)))]"

section \<open>Deserialization\<close>

definition members :: "string list \<Rightarrow> json \<Rightarrow> (utext \<times> json) list option" where
  "members known j = (case j of
       JObj kvs \<Rightarrow> if distinct (filter (\<lambda>k. k \<in> set (map lit known)) (map fst kvs)) then Some kvs else None
     | _ \<Rightarrow> None)"

definition as_text :: "json \<Rightarrow> utext option" where
  "as_text j = (case j of JStr t \<Rightarrow> Some t | _ \<Rightarrow> None)"

definition as_bool :: "json \<Rightarrow> bool option" where
  "as_bool j = (case j of JBool b \<Rightarrow> Some b | _ \<Rightarrow> None)"

definition as_unsigned :: "nat \<Rightarrow> json \<Rightarrow> nat option" where
  "as_unsigned w j = (case j of
       JInt n \<Rightarrow> if 0 \<le> n \<and> n < 2 ^ w then Some (nat n) else None
     | _ \<Rightarrow> None)"

definition as_list :: "(json \<Rightarrow> 'a option) \<Rightarrow> json \<Rightarrow> 'a list option" where
  "as_list f j = (case j of JArr xs \<Rightarrow> those (map f xs) | _ \<Rightarrow> None)"

definition field :: "string \<Rightarrow> (json \<Rightarrow> 'a option) \<Rightarrow> (utext \<times> json) list \<Rightarrow> 'a option" where
  "field k f kvs = (case map_of kvs (lit k) of None \<Rightarrow> None | Some v \<Rightarrow> f v)"

definition field_default :: "string \<Rightarrow> 'a \<Rightarrow> (json \<Rightarrow> 'a option) \<Rightarrow> (utext \<times> json) list \<Rightarrow> 'a option" where
  "field_default k d f kvs = (case map_of kvs (lit k) of None \<Rightarrow> Some d | Some v \<Rightarrow> f v)"

definition field_opt :: "string \<Rightarrow> (json \<Rightarrow> 'a option) \<Rightarrow> (utext \<times> json) list \<Rightarrow> 'a option option" where
  "field_opt k f kvs = (case map_of kvs (lit k) of
       None \<Rightarrow> Some None
     | Some v \<Rightarrow> if v = JNull then Some None else map_option Some (f v))"

definition as_notify :: "json \<Rightarrow> notify_mode option" where
  "as_notify j = (case notify_parse_value j of Inr m \<Rightarrow> Some m | Inl _ \<Rightarrow> None)"

definition as_state :: "json \<Rightarrow> request_state option" where
  "as_state j = (case j of
       JStr t \<Rightarrow> find (\<lambda>s. state_as_str s = t)
         [Accepted, Queued, Submitted, Executing, Answered, Failed, Interrupted, Undelivered]
     | _ \<Rightarrow> None)"

definition as_routing :: "json \<Rightarrow> turn_routing option" where
  "as_routing j = (case j of
       JStr t \<Rightarrow> find (\<lambda>r. routing_as_str r = t) [RInject, RQueue, RNotification]
     | _ \<Rightarrow> None)"

definition progress_of_json :: "json \<Rightarrow> request_progress option" where
  "progress_of_json j = do {
     kvs \<leftarrow> members [''exec_turn_id'', ''at''] j;
     t \<leftarrow> field ''exec_turn_id'' as_text kvs;
     a \<leftarrow> field ''at'' as_text kvs;
     Some \<lparr> pg_exec_turn_id = t, pg_at = a \<rparr> }"

definition request_of_json :: "json \<Rightarrow> request option" where
  "request_of_json j = do {
     kvs \<leftarrow> members [''request_id'', ''parent_sid'', ''notify'', ''title'', ''routing'',
                    ''idempotency_key'', ''created_at'', ''state'', ''queue_position'', ''turn_id'',
                    ''answered_turn'', ''notified'', ''progress''] j;
     rid \<leftarrow> field ''request_id'' as_text kvs;
     parent \<leftarrow> field ''parent_sid'' as_text kvs;
     mode \<leftarrow> field ''notify'' as_notify kvs;
     title \<leftarrow> field_opt ''title'' as_text kvs;
     routing \<leftarrow> field ''routing'' as_routing kvs;
     idem \<leftarrow> field_opt ''idempotency_key'' as_text kvs;
     created \<leftarrow> field ''created_at'' as_text kvs;
     st \<leftarrow> field ''state'' as_state kvs;
     pos \<leftarrow> field_opt ''queue_position'' (as_unsigned 64) kvs;
     turn \<leftarrow> field_opt ''turn_id'' as_text kvs;
     answered \<leftarrow> field_opt ''answered_turn'' as_text kvs;
     told \<leftarrow> field_default ''notified'' False as_bool kvs;
     trail \<leftarrow> field_default ''progress'' [] (as_list progress_of_json) kvs;
     Some \<lparr> rq_id = rid, rq_parent = parent, rq_notify = mode, rq_title = title,
            rq_routing = routing, rq_idem_key = idem, rq_created_at = created, rq_state = st,
            rq_queue_position = pos, rq_turn_id = turn, rq_answered_turn = answered,
            rq_notified = told, rq_progress = trail, rq_bind_error = None \<rparr> }"

definition boundary_of_json :: "json \<Rightarrow> delivering_boundary option" where
  "boundary_of_json j = do {
     kvs \<leftarrow> members [''turn_key'', ''exec_turn_id'', ''request_ids'', ''attempt''] j;
     k \<leftarrow> field ''turn_key'' as_text kvs;
     exec \<leftarrow> field_opt ''exec_turn_id'' as_text kvs;
     ids \<leftarrow> field ''request_ids'' (as_list as_text) kvs;
     att \<leftarrow> field ''attempt'' (as_unsigned 32) kvs;
     Some \<lparr> dv_turn_key = k, dv_exec_turn_id = exec, dv_request_ids = ids, dv_attempt = att \<rparr> }"

definition store_of_json :: "json \<Rightarrow> store option" where
  "store_of_json j = do {
     kvs \<leftarrow> members [''schema'', ''requests'', ''notified_turns'', ''delivering''] j;
     sch \<leftarrow> field ''schema'' (as_unsigned 32) kvs;
     rs \<leftarrow> field ''requests'' (as_list request_of_json) kvs;
     ns \<leftarrow> field_default ''notified_turns'' [] (as_list as_text) kvs;
     ds \<leftarrow> field_default ''delivering'' [] (as_list boundary_of_json) kvs;
     Some \<lparr> st_schema = sch, st_requests = rs, st_notified = ns, st_delivering = ds \<rparr> }"

section \<open>Files\<close>

text \<open>What is at a path: nothing, bytes that are no JSON value (or no text at all), or a value.\<close>

datatype disk_file = NoFile | NotJson | JsonFile json

definition parse_delegation_requests :: "disk_file \<Rightarrow> store option" where
  "parse_delegation_requests f = (case f of
       JsonFile j \<Rightarrow> (case store_of_json j of
            Some s \<Rightarrow> if st_schema s = DELEGATION_SCHEMA then Some s else None
          | None \<Rightarrow> None)
     | _ \<Rightarrow> None)"

definition read_delegation_requests :: "disk_file \<Rightarrow> store option" where
  "read_delegation_requests f = (case f of NoFile \<Rightarrow> None | _ \<Rightarrow> parse_delegation_requests f)"

text \<open>The outcomes of the file-system calls a write makes, in order.\<close>

record fs_outcome =
  fs_remove_ok :: bool
  fs_mkdir_ok :: bool
  fs_create_ok :: bool
  fs_write_ok :: bool
  fs_sync_ok :: bool
  fs_rename_ok :: bool

definition fs_good :: fs_outcome where
  "fs_good = \<lparr> fs_remove_ok = True, fs_mkdir_ok = True, fs_create_ok = True, fs_write_ok = True,
     fs_sync_ok = True, fs_rename_ok = True \<rparr>"

text \<open>Every early return leaves the target as it was: only the rename changes it.\<close>

definition atomic_write_durable :: "fs_outcome \<Rightarrow> json \<Rightarrow> disk_file \<Rightarrow> disk_file \<times> bool" where
  "atomic_write_durable io j f =
     (if \<not> fs_create_ok io then (f, False)
      else if \<not> fs_write_ok io then (f, False)
      else if \<not> fs_sync_ok io then (f, False)
      else if \<not> fs_rename_ok io then (f, False)
      else (JsonFile j, True))"

datatype remove_result = Removed | NotFound | RemoveError

definition remove_file :: "fs_outcome \<Rightarrow> disk_file \<Rightarrow> disk_file \<times> remove_result" where
  "remove_file io f =
     (if f = NoFile then (NoFile, NotFound)
      else if fs_remove_ok io then (NoFile, Removed) else (f, RemoveError))"

definition persist_delegation_requests :: "fs_outcome \<Rightarrow> store \<Rightarrow> disk_file \<Rightarrow> disk_file \<times> bool" where
  "persist_delegation_requests io s f =
     (if store_is_empty s then
        (let (f', res) = remove_file io f in (f', res \<noteq> RemoveError))
      else if \<not> fs_mkdir_ok io then (f, False)
      else atomic_write_durable io (store_to_json s) f)"

definition delete_delegation_requests :: "fs_outcome \<Rightarrow> disk_file \<Rightarrow> disk_file" where
  "delete_delegation_requests io f = fst (remove_file io f)"

text \<open>The entries of the chat directory, each a name (none when it is not text) and the
  \<^verbatim>\<open>delegation.json\<close> under it; no list when the directory cannot be read.\<close>

definition scan_entry :: "utext option \<times> disk_file \<Rightarrow> (sid \<times> store) option" where
  "scan_entry e = (case fst e of
       None \<Rightarrow> None
     | Some child \<Rightarrow> map_option (Pair child) (read_delegation_requests (snd e)))"

definition scan_delegation_requests :: "(utext option \<times> disk_file) list option \<Rightarrow> (sid \<times> store) list" where
  "scan_delegation_requests dir = (case dir of
       None \<Rightarrow> []
     | Some entries \<Rightarrow> List.map_filter scan_entry entries)"

section \<open>Round trip\<close>

text \<open>What survives a write and a read: everything but \<^verbatim>\<open>bind_error\<close>.\<close>

definition forget_bind_error :: "request \<Rightarrow> request" where
  "forget_bind_error r = r \<lparr> rq_bind_error := None \<rparr>"

definition forget_bind_errors :: "store \<Rightarrow> store" where
  "forget_bind_errors s = s \<lparr> st_requests := map forget_bind_error (st_requests s) \<rparr>"

text \<open>The machine widths of the numbers a store holds.\<close>

definition store_widths :: "store \<Rightarrow> bool" where
  "store_widths s \<longleftrightarrow> st_schema s < 2 ^ 32
     \<and> list_all (\<lambda>r. case rq_queue_position r of None \<Rightarrow> True | Some n \<Rightarrow> n < 2 ^ 64) (st_requests s)
     \<and> list_all (\<lambda>e. dv_attempt e < 2 ^ 32) (st_delivering s)"

lemma those_map_Some: "(\<And>x. x \<in> set xs \<Longrightarrow> f (g x) = Some (h x)) \<Longrightarrow> those (map f (map g xs)) = Some (map h xs)"
  by (induction xs) auto

lemma as_list_JArr:
  "(\<And>x. x \<in> set xs \<Longrightarrow> f (g x) = Some (h x)) \<Longrightarrow> as_list f (JArr (map g xs)) = Some (map h xs)"
  unfolding as_list_def json.case by (rule those_map_Some)

lemma as_text_JStr [simp]: "as_text (JStr t) = Some t"
  by (simp add: as_text_def)

lemma as_bool_JBool [simp]: "as_bool (JBool b) = Some b"
  by (simp add: as_bool_def)

lemma as_unsigned_JInt [simp]: "n < 2 ^ w \<Longrightarrow> as_unsigned w (JInt (int n)) = Some n"
proof -
  assume "n < 2 ^ w"
  then have "int n < int (2 ^ w)" by (simp only: of_nat_less_iff)
  then show ?thesis by (simp add: as_unsigned_def)
qed

lemma as_texts [simp]: "as_list as_text (JArr (map JStr ts)) = Some ts"
  using as_list_JArr [of ts as_text JStr "\<lambda>t. t"] by simp

lemma as_notify_str [simp]: "as_notify (JStr (notify_as_str m)) = Some m"
  by (simp add: as_notify_def notify_parse_as_str)

lemma as_state_str [simp]: "as_state (JStr (state_as_str s)) = Some s"
  by (cases s) (simp_all add: as_state_def state_as_str_def)

lemma as_routing_str [simp]: "as_routing (JStr (routing_as_str r)) = Some r"
  by (cases r) (simp_all add: as_routing_def routing_as_str_def)

lemma progress_round_trip: "progress_of_json (progress_to_json p) = Some p"
  by (simp add: progress_of_json_def progress_to_json_def members_def field_def)

lemmas field_defs = members_def field_def field_default_def field_opt_def opt_member_def

lemma progress_list_round_trip [simp]:
  "as_list progress_of_json (JArr (map progress_to_json ps)) = Some ps"
  using as_list_JArr [of ps progress_of_json progress_to_json "\<lambda>p. p"]
  by (simp add: progress_round_trip)

lemma boundary_round_trip:
  "dv_attempt e < 2 ^ 32 \<Longrightarrow> boundary_of_json (boundary_to_json e) = Some e"
  by (cases "dv_exec_turn_id e") (simp_all add: boundary_of_json_def boundary_to_json_def field_defs)

lemma map_of_opt_member:
  "map_of (opt_member k f v) (lit k') = (if k' = k then map_option f v else None)"
  by (cases v) (auto simp: opt_member_def)

lemma map_add_apply: "(m ++ n) k = (case n k of None \<Rightarrow> m k | Some x \<Rightarrow> Some x)"
  by (simp add: map_add_def)

definition opt_name :: "string \<Rightarrow> 'a option \<Rightarrow> string list" where
  "opt_name k v = (if v = None then [] else [k])"

lemma opt_name_simps [simp]:
  "distinct (opt_name k v)" "x \<in> set (opt_name k v) \<longleftrightarrow> v \<noteq> None \<and> x = k"
  by (simp_all add: opt_name_def)

lemma fst_opt_member [simp]: "map fst (opt_member k f v) = map lit (opt_name k v)"
  by (cases v) (auto simp: opt_member_def opt_name_def)

lemma members_lit: "map fst kvs = map lit ks \<Longrightarrow> distinct ks \<Longrightarrow> members known (JObj kvs) = Some kvs"
  unfolding members_def by (simp add: distinct_map inj_on_def)

lemma members_request: "\<exists>kvs. request_to_json r = JObj kvs
   \<and> (\<forall>known. members known (request_to_json r) = Some kvs)"
proof -
  let ?ks = "[''request_id'', ''parent_sid'', ''notify''] @ opt_name ''title'' (rq_title r)
     @ [''routing''] @ opt_name ''idempotency_key'' (rq_idem_key r)
     @ [''created_at'', ''state''] @ opt_name ''queue_position'' (rq_queue_position r)
     @ opt_name ''turn_id'' (rq_turn_id r) @ opt_name ''answered_turn'' (rq_answered_turn r)
     @ [''notified''] @ (if rq_progress r = [] then [] else [''progress''])"
  obtain kvs where kvs: "request_to_json r = JObj kvs" by (simp add: request_to_json_def)
  have "map fst kvs = map lit ?ks" using kvs by (auto simp: request_to_json_def)
  moreover have "distinct ?ks" by auto
  ultimately show ?thesis using members_lit kvs by metis
qed

lemma field_opt_value:
  assumes "map_of kvs (lit k) = (case v of None \<Rightarrow> None | Some x \<Rightarrow> Some (g x))"
    and "\<And>x. v = Some x \<Longrightarrow> f (g x) = Some x" "\<And>x. g x \<noteq> JNull"
  shows "field_opt k f kvs = Some v"
  using assms by (cases v) (simp_all add: field_opt_def)

lemma request_round_trip:
  assumes "case rq_queue_position r of None \<Rightarrow> True | Some n \<Rightarrow> n < 2 ^ 64"
  shows "request_of_json (request_to_json r) = Some (forget_bind_error r)"
proof -
  obtain kvs where j: "request_to_json r = JObj kvs"
    and m: "\<And>known. members known (request_to_json r) = Some kvs"
    using members_request by metis
  have kvs: "kvs = (case request_to_json r of JObj l \<Rightarrow> l)" by (simp add: j)
  note look = kvs request_to_json_def map_of_opt_member map_add_apply
  have opts: "field_opt ''title'' as_text kvs = Some (rq_title r)"
    "field_opt ''idempotency_key'' as_text kvs = Some (rq_idem_key r)"
    "field_opt ''turn_id'' as_text kvs = Some (rq_turn_id r)"
    "field_opt ''answered_turn'' as_text kvs = Some (rq_answered_turn r)"
    by (intro field_opt_value [where g = JStr]; simp add: look split: option.splits)+
  have pos: "field_opt ''queue_position'' (as_unsigned 64) kvs = Some (rq_queue_position r)"
    by (rule field_opt_value [where g = "\<lambda>n. JInt (int n)"])
      (use assms in \<open>auto simp: look as_unsigned_JInt split: option.splits\<close>)
  have plain: "field ''request_id'' as_text kvs = Some (rq_id r)"
    "field ''parent_sid'' as_text kvs = Some (rq_parent r)"
    "field ''notify'' as_notify kvs = Some (rq_notify r)"
    "field ''routing'' as_routing kvs = Some (rq_routing r)"
    "field ''created_at'' as_text kvs = Some (rq_created_at r)"
    "field ''state'' as_state kvs = Some (rq_state r)"
    "field_default ''notified'' False as_bool kvs = Some (rq_notified r)"
    "field_default ''progress'' [] (as_list progress_of_json) kvs = Some (rq_progress r)"
    by (simp_all add: look field_def field_default_def)
  show ?thesis
    unfolding request_of_json_def m by (simp add: opts pos plain forget_bind_error_def)
qed

lemma store_round_trip:
  assumes "store_widths s"
  shows "store_of_json (store_to_json s) = Some (forget_bind_errors s)"
proof -
  have rs: "as_list request_of_json (JArr (map request_to_json (st_requests s)))
      = Some (map forget_bind_error (st_requests s))"
    by (rule as_list_JArr) (use assms in \<open>auto simp: store_widths_def list_all_iff intro: request_round_trip\<close>)
  have ds: "as_list boundary_of_json (JArr (map boundary_to_json (st_delivering s)))
      = Some (st_delivering s)"
    using as_list_JArr [of "st_delivering s" boundary_of_json boundary_to_json "\<lambda>e. e"] assms
    by (auto simp: store_widths_def list_all_iff boundary_round_trip)
  show ?thesis
    using assms rs ds
    by (simp add: store_of_json_def store_to_json_def members_def field_def field_default_def
        forget_bind_errors_def store_widths_def)
qed

lemma read_NoFile [simp]: "read_delegation_requests NoFile = None"
  by (simp add: read_delegation_requests_def)

lemma read_JsonFile:
  "store_widths s \<Longrightarrow> st_schema s = DELEGATION_SCHEMA \<Longrightarrow>
   read_delegation_requests (JsonFile (store_to_json s)) = Some (forget_bind_errors s)"
  by (simp add: read_delegation_requests_def parse_delegation_requests_def store_round_trip
      forget_bind_errors_def)

lemma persist_cases:
  "persist_delegation_requests io s f = (f', ok) \<Longrightarrow>
     (ok \<longrightarrow> f' = (if store_is_empty s then NoFile else JsonFile (store_to_json s)))
     \<and> (\<not> ok \<longrightarrow> f' = f)"
  by (auto simp: persist_delegation_requests_def remove_file_def atomic_write_durable_def
      split: if_splits)

lemma persist_good:
  "persist_delegation_requests fs_good s f =
     ((if store_is_empty s then NoFile else JsonFile (store_to_json s)), True)"
  by (simp add: persist_delegation_requests_def remove_file_def atomic_write_durable_def fs_good_def)

text \<open>A well-formed store fits its machine widths, so it survives a write and a read.\<close>

lemma store_wf_widths: "store_wf s \<Longrightarrow> store_widths s"
  by (auto simp: store_wf_def store_widths_def list_all_iff DELEGATION_SCHEMA_def request_ok_def)

lemma read_back:
  "store_wf s \<Longrightarrow> read_delegation_requests (JsonFile (store_to_json s)) = Some (forget_bind_errors s)"
  by (rule read_JsonFile) (auto simp: store_wf_widths store_wf_def)

lemma store_wf_forget: "store_wf s \<Longrightarrow> store_wf (forget_bind_errors s)"
  unfolding forget_bind_errors_def
  by (rule store_wf_map) (auto simp: forget_bind_error_def request_ok_def)

lemma forget_keys [simp]: "claimed_keys (forget_bind_errors s) = claimed_keys s"
  by (simp add: forget_bind_errors_def)

end
