(* ===== verification/Answer_Excerpt.thy ===== *)
theory Answer_Excerpt
  imports Delegation_Store
begin

text \<open>
  What a parent is shown of a child's answer (\<^verbatim>\<open>ccteam-im/src/delegation.rs\<close> and the row type of
  \<^verbatim>\<open>ccteam-harness/src/execution/turns_mirror.rs\<close>): the signal the pump sends, the bounded
  excerpt with its exact omitted-count marker, the completion text, the inline result and the
  fold of the rows of one execution turn into its answer. Lengths count Unicode scalar values,
  as the code's \<^verbatim>\<open>chars().count()\<close> does. The percentage of a context window, a rounded floating
  point quotient in the code, is a number of the status here.
\<close>

section \<open>Vendors, signals and turn rows\<close>

datatype vendor = Claude | Codex | Grok | Opencode | Kimi | Pi | Dsh

definition vendor_key :: "vendor \<Rightarrow> utext" where
  "vendor_key v = (case v of
      Claude \<Rightarrow> lit ''claude'' | Codex \<Rightarrow> lit ''codex'' | Grok \<Rightarrow> lit ''grok''
    | Opencode \<Rightarrow> lit ''opencode'' | Kimi \<Rightarrow> lit ''kimi'' | Pi \<Rightarrow> lit ''pi'' | Dsh \<Rightarrow> lit ''dsh'')"

datatype continuation = Settled | Pending | Replay

definition is_settled :: "continuation \<Rightarrow> bool" where
  "is_settled c \<longleftrightarrow> c = Settled"

record signal =
  sg_child :: sid
  sg_turn_id :: turn_id
  sg_exec :: "turn_id option"
  sg_tail :: utext
  sg_conclusion :: "utext option"
  sg_vendor :: vendor
  sg_host :: utext
  sg_boundary :: bool
  sg_continuation :: continuation
  sg_vendor_error :: bool
  sg_interim_notes :: nat
  sg_covered :: "turn_id list"
  sg_context_pct :: "nat option"
  sg_turn :: nat
  sg_error_kind :: "utext option"

definition signal_terminal :: "signal \<Rightarrow> bool" where
  "signal_terminal s \<longleftrightarrow> is_settled (sg_continuation s)"

datatype pulse =
    TurnOpened sid turn_id "turn_id option"
  | Signal signal

record turn_status =
  ts_context_pct :: "nat option"
  ts_turn :: nat

record turn_record =
  tr_turn_id :: turn_id
  tr_exec :: "turn_id option"
  tr_continues :: "turn_id option"
  tr_assistant :: utext
  tr_conclusion :: "utext option"
  tr_usage :: json
  tr_status :: "turn_status option"
  tr_outcome :: "utext option"
  tr_error_kind :: "utext option"
  tr_error :: "utext option"

definition tr_failed :: "turn_record \<Rightarrow> bool" where
  "tr_failed r \<longleftrightarrow> tr_outcome r = Some (lit ''failed'')"

definition context_pct :: "turn_status option \<Rightarrow> nat option" where
  "context_pct st = Option.bind st ts_context_pct"

definition CONTEXT_TAIL_TURNS :: nat where
  "CONTEXT_TAIL_TURNS = 50"

text \<open>The newest turn status among the last rows of the transcript, and its percentage.\<close>

definition latest_context_pct :: "turn_record list option \<Rightarrow> nat option" where
  "latest_context_pct rows = (case rows of
       None \<Rightarrow> None
     | Some all \<Rightarrow>
         (case List.map_filter tr_status (rev (drop (length all - CONTEXT_TAIL_TURNS) all)) of
            [] \<Rightarrow> None
          | st # _ \<Rightarrow> context_pct (Some st)))"

section \<open>Bounded text\<close>

record bounded_text =
  bt_text :: utext
  bt_truncated :: bool
  bt_total :: nat

text \<open>The sixteen rounds looking for a marker whose length agrees with the count it reports.\<close>

fun resolve_marker :: "nat \<Rightarrow> (nat \<Rightarrow> utext) \<Rightarrow> nat \<Rightarrow> nat \<Rightarrow> nat \<Rightarrow> utext \<times> nat" where
  "resolve_marker 0 marker tot mx keep =
     (let candidate = marker (tot - keep) in (candidate, mx - length candidate))"
| "resolve_marker (Suc n) marker tot mx keep =
     (let candidate = marker (tot - keep);
          next_keep = mx - length candidate in
      if next_keep = keep then (candidate, keep)
      else resolve_marker n marker tot mx next_keep)"

definition usize_saturating_mul :: "nat \<Rightarrow> nat \<Rightarrow> nat" where
  "usize_saturating_mul a b = min (a * b) (2 ^ 64 - 1)"

definition truncate_head_tail_with_marker :: "utext \<Rightarrow> nat \<Rightarrow> (nat \<Rightarrow> utext) \<Rightarrow> bounded_text" where
  "truncate_head_tail_with_marker t mx marker =
     (let tot = length t in
      if tot \<le> mx then \<lparr> bt_text = t, bt_truncated = False, bt_total = tot \<rparr>
      else
        (let (marker_text, keep) = resolve_marker 16 marker tot mx mx in
         if mx \<le> length marker_text then
           \<lparr> bt_text = take mx marker_text, bt_truncated = True, bt_total = tot \<rparr>
         else
           (let head_chars = usize_saturating_mul keep 70 div 100;
                tail_chars = keep - head_chars in
            \<lparr> bt_text = take head_chars t @ marker_text @ drop (tot - tail_chars) t,
              bt_truncated = True, bt_total = tot \<rparr>)))"

definition shown_conclusion :: "utext option \<Rightarrow> nat \<Rightarrow> utext option" where
  "shown_conclusion conclusion tot = (case conclusion of
       None \<Rightarrow> None
     | Some c \<Rightarrow> (let c = trim c in if c \<noteq> [] \<and> length c < tot then Some c else None))"

definition answer_excerpt :: "utext \<Rightarrow> utext option \<Rightarrow> nat \<Rightarrow> (nat \<Rightarrow> utext) \<Rightarrow> bounded_text" where
  "answer_excerpt answer conclusion mx marker =
     (let tot = length answer in
      if tot \<le> mx then \<lparr> bt_text = answer, bt_truncated = False, bt_total = tot \<rparr>
      else (case shown_conclusion conclusion tot of
          None \<Rightarrow> truncate_head_tail_with_marker answer mx marker
        | Some c \<Rightarrow>
            (let conclusion_chars = length c;
                 narration_chars = tot - conclusion_chars;
                 lead = marker narration_chars in
             if length lead + 1 + conclusion_chars \<le> mx then
               \<lparr> bt_text = lead @ [10] @ c, bt_truncated = True, bt_total = tot \<rparr>
             else
               (let cap = min mx (conclusion_chars - 1);
                    cut = truncate_head_tail_with_marker c cap
                            (\<lambda>omitted. marker (omitted + narration_chars)) in
                \<lparr> bt_text = bt_text cut, bt_truncated = True, bt_total = tot \<rparr>))))"

definition NOTIFICATION_ANSWER_MAX_CHARS :: nat where
  "NOTIFICATION_ANSWER_MAX_CHARS = 2000"

definition BRIEF_NOTIFICATION_ANSWER_MAX_CHARS :: nat where
  "BRIEF_NOTIFICATION_ANSWER_MAX_CHARS = 500"

definition notification_answer_max_chars :: "notify_mode \<Rightarrow> nat" where
  "notification_answer_max_chars m = (case m of
       NBrief \<Rightarrow> BRIEF_NOTIFICATION_ANSWER_MAX_CHARS | _ \<Rightarrow> NOTIFICATION_ANSWER_MAX_CHARS)"

definition INLINE_RESULT_MAX_CHARS :: nat where
  "INLINE_RESULT_MAX_CHARS = NOTIFICATION_ANSWER_MAX_CHARS"

definition AGENT_READ_MIN_MAX_CHARS :: nat where
  "AGENT_READ_MIN_MAX_CHARS = 100"

definition AGENT_READ_MAX_MAX_CHARS :: nat where
  "AGENT_READ_MAX_MAX_CHARS = 50000"

definition read_budget_for :: "nat \<Rightarrow> nat" where
  "read_budget_for tot = max AGENT_READ_MIN_MAX_CHARS (min tot AGENT_READ_MAX_MAX_CHARS)"

definition ellipsis :: utext where
  "ellipsis = [8230]"

definition full_answer_marker :: "nat \<Rightarrow> nat \<Rightarrow> sid \<Rightarrow> turn_id \<Rightarrow> utext" where
  "full_answer_marker omitted tot child turn =
     ellipsis @ lit ''[+'' @ dec omitted @ lit '' chars: agent_read{sid:'' @ child
       @ lit '',turn:'' @ turn @ lit '',max_chars:'' @ dec (read_budget_for tot) @ lit ''}]'' @ ellipsis"

definition final_dedup_key :: "turn_id \<Rightarrow> turn_id" where
  "final_dedup_key t = t @ lit ''#final''"

section \<open>Completion summaries\<close>

record answered_request =
  aq_id :: req_id
  aq_title :: "utext option"

text \<open>\<^verbatim>\<open>title.map(str::trim).filter(|t| !t.is_empty())\<close>.\<close>

definition shown_title :: "utext option \<Rightarrow> utext option" where
  "shown_title t = (case t of None \<Rightarrow> None | Some t \<Rightarrow> if trim t = [] then None else Some (trim t))"

definition quoted :: "utext \<Rightarrow> utext" where
  "quoted t = [171] @ t @ [187]"

definition request_label :: "answered_request \<Rightarrow> utext" where
  "request_label r = (case shown_title (aq_title r) of
       Some t \<Rightarrow> quoted t @ lit '' '' @ aq_id r
     | None \<Rightarrow> aq_id r)"

datatype delegation_outcome = ODone | OFailed "utext option" "utext option"

record summary =
  sm_sid :: sid
  sm_vendor :: utext
  sm_turn_id :: turn_id
  sm_turn :: nat
  sm_outcome :: delegation_outcome
  sm_context_pct :: "nat option"
  sm_cost_usd :: "utext option"
  sm_answer :: utext
  sm_conclusion :: "utext option"
  sm_requests :: "answered_request list"
  sm_remaining_queued :: nat

text \<open>The separator \<^verbatim>\<open> . \<close> with a middle dot.\<close>

definition mid_dot :: utext where
  "mid_dot = lit '' '' @ [183] @ lit '' ''"

fun join_with :: "utext \<Rightarrow> utext list \<Rightarrow> utext" where
  "join_with sep [] = []"
| "join_with sep [x] = x"
| "join_with sep (x # y # xs) = x @ sep @ join_with sep (y # xs)"

definition summary_outcome :: "summary \<Rightarrow> utext" where
  "summary_outcome s = (case sm_outcome s of
       ODone \<Rightarrow> sm_sid s @ lit '' done''
     | OFailed kind _ \<Rightarrow> sm_sid s @ lit '' FAILED ('' @
         (case kind of Some k \<Rightarrow> if k \<noteq> [] then k else lit ''vendor error''
          | None \<Rightarrow> lit ''vendor error'') @ lit '')'')"

definition summary_named :: "summary \<Rightarrow> utext" where
  "summary_named s = (case filter (\<lambda>r. aq_id r \<noteq> []) (sm_requests s) of
       [] \<Rightarrow> []
     | [one] \<Rightarrow>
         (case shown_title (aq_title one) of Some t \<Rightarrow> mid_dot @ quoted t | None \<Rightarrow> [])
           @ mid_dot @ aq_id one
     | many \<Rightarrow> mid_dot @ lit ''answers '' @ dec (length many) @ lit '' requests: ''
           @ join_with (lit '', '') (map request_label many))"

definition summary_header :: "summary \<Rightarrow> utext" where
  "summary_header s =
     (let vendor = (if sm_vendor s = [] then [] else mid_dot @ sm_vendor s);
          first = summary_outcome s @ vendor @ mid_dot @ lit ''turn '' @ dec (sm_turn s)
            @ (case sm_context_pct s of
                 Some pct \<Rightarrow> mid_dot @ lit ''ctx '' @ dec pct @ lit ''%'' @ (if 85 \<le> pct then [9888] else [])
               | None \<Rightarrow> []) in
      first @ summary_named s
        @ (if 0 < sm_remaining_queued s
           then mid_dot @ dec (sm_remaining_queued s) @ lit '' still queued'' else []))"

definition summary_excerpt :: "summary \<Rightarrow> nat \<Rightarrow> bounded_text" where
  "summary_excerpt s mx =
     (let answer = trim (sm_answer s) in
      answer_excerpt answer (sm_conclusion s) mx
        (\<lambda>omitted. full_answer_marker omitted (length answer) (sm_sid s) (sm_turn_id s)))"

definition notification_text :: "summary \<Rightarrow> nat \<Rightarrow> utext" where
  "notification_text s mx =
     (let first = summary_header s; answer = summary_excerpt s mx in
      if bt_text answer = [] then
        (case sm_outcome s of ODone \<Rightarrow> first @ [10] @ lit ''(no reply)'' | OFailed _ _ \<Rightarrow> first)
      else first @ [10] @ bt_text answer)"

text \<open>\<^verbatim>\<open>inline_result\<close>: the members in the order they are inserted.\<close>

definition inline_result :: "summary \<Rightarrow> (utext \<times> json) list" where
  "inline_result s =
     (let (status, kind, err) = (case sm_outcome s of
            ODone \<Rightarrow> (lit ''completed'', None, None)
          | OFailed k e \<Rightarrow> (lit ''failed'', k, e));
          answer = answer_excerpt (sm_answer s) (sm_conclusion s) INLINE_RESULT_MAX_CHARS
            (\<lambda>omitted. full_answer_marker omitted (length (sm_answer s)) (sm_sid s) (sm_turn_id s)) in
      [(lit ''sid'', JStr (sm_sid s)), (lit ''turn_id'', JStr (sm_turn_id s))]
      @ (case sm_requests s of
           r # _ \<Rightarrow> if aq_id r \<noteq> [] then [(lit ''request_id'', JStr (aq_id r))] else []
         | [] \<Rightarrow> [])
      @ [(lit ''turn'', JInt (int (sm_turn s))), (lit ''status'', JStr status)]
      @ (case sm_context_pct s of Some p \<Rightarrow> [(lit ''context_pct'', JInt (int p))] | None \<Rightarrow> [])
      @ [(lit ''result_text'', JStr (bt_text answer))]
      @ (case kind of Some k \<Rightarrow> if k \<noteq> [] then [(lit ''error_kind'', JStr k)] else [] | None \<Rightarrow> [])
      @ (case err of Some e \<Rightarrow> if e \<noteq> [] then [(lit ''error'', JStr e)] else [] | None \<Rightarrow> [])
      @ (case sm_cost_usd s of Some c \<Rightarrow> [(lit ''cost_usd'', JFloat c)] | None \<Rightarrow> []))"

section \<open>The answer of an execution turn\<close>

definition fold_turn_answer :: "utext list \<Rightarrow> utext option \<Rightarrow> utext \<times> utext option" where
  "fold_turn_answer parts conclusion =
     (let answer = (case parts of
            [single] \<Rightarrow> single
          | _ \<Rightarrow> join_with [10, 10] (filter (\<lambda>p. p \<noteq> []) (map trim parts)));
          candidate = (case conclusion of
            Some c \<Rightarrow> Some c
          | None \<Rightarrow> if 2 \<le> length parts then Some (trim (last parts)) else None) in
      (answer, case candidate of
         Some c \<Rightarrow> if c \<noteq> [] \<and> trim c \<noteq> trim answer then Some c else None
       | None \<Rightarrow> None))"

text \<open>The backward walk from the answered row: \<^verbatim>\<open>break\<close> ends it, \<^verbatim>\<open>continue\<close> steps over a row.\<close>

fun walk_back :: "turn_id \<Rightarrow> turn_record list \<Rightarrow> utext list" where
  "walk_back exec [] = []"
| "walk_back exec (row # rows) =
     (if tr_status row \<noteq> None \<or> tr_outcome row \<noteq> None then []
      else if trim (tr_assistant row) = [] then walk_back exec rows
      else if tr_exec row \<noteq> Some exec then []
      else tr_assistant row # walk_back exec rows)"

fun index_of :: "('a \<Rightarrow> bool) \<Rightarrow> 'a list \<Rightarrow> nat option" where
  "index_of P [] = None"
| "index_of P (x # xs) = (if P x then Some 0 else map_option Suc (index_of P xs))"

definition closing_row :: "turn_id \<Rightarrow> turn_record list \<Rightarrow> turn_record option" where
  "closing_row exec rows =
     find (\<lambda>row. tr_exec row = Some exec \<and> tr_status row \<noteq> None \<and> tr_outcome row = None)
       (takeWhile (\<lambda>row. trim (tr_assistant row) = []) rows)"

definition turn_answer_record :: "turn_record list \<Rightarrow> turn_record \<Rightarrow> turn_record" where
  "turn_answer_record rows answered =
     (case (if tr_failed answered then None else tr_exec answered) of
        None \<Rightarrow> answered
      | Some exec \<Rightarrow>
          (case index_of (\<lambda>row. tr_turn_id row = tr_turn_id answered) rows of
             None \<Rightarrow> answered
           | Some at \<Rightarrow>
               (let parts = rev (tr_assistant answered # walk_back exec (rev (take at rows)));
                    closing = closing_row exec (drop (at + 1) rows) in
                if length parts < 2 \<and> closing = None then answered
                else
                  (let vendor_conclusion =
                         (case Option.bind closing tr_conclusion of
                            Some c \<Rightarrow> Some c | None \<Rightarrow> tr_conclusion answered);
                       (assistant, conclusion) = fold_turn_answer parts vendor_conclusion in
                   answered \<lparr> tr_assistant := assistant, tr_conclusion := conclusion,
                     tr_status := (case tr_status answered of
                        Some st \<Rightarrow> Some st | None \<Rightarrow> Option.bind closing tr_status),
                     tr_usage := (if tr_usage answered = JNull
                        then (case closing of Some row \<Rightarrow> tr_usage row | None \<Rightarrow> JNull)
                        else tr_usage answered) \<rparr>))))"

section \<open>Excerpts fit, and count exactly\<close>

lemma resolve_marker_keep:
  "resolve_marker n marker tot mx k = (c, k') \<Longrightarrow> k' = mx - length c"
  by (induction n arbitrary: k) (auto simp: Let_def split: if_splits)

lemma truncate_fits: "length (bt_text (truncate_head_tail_with_marker t mx marker)) \<le> mx"
proof -
  obtain c k where r: "resolve_marker 16 marker (length t) mx mx = (c, k)" by fastforce
  have k: "k = mx - length c" using resolve_marker_keep [OF r] .
  have h: "usize_saturating_mul k 70 div 100 \<le> k"
  proof -
    have "usize_saturating_mul k 70 div 100 \<le> k * 70 div 100"
      unfolding usize_saturating_mul_def by (intro div_le_mono) simp
    also have "k * 70 div 100 \<le> k" by simp
    finally show ?thesis .
  qed
  show ?thesis
    unfolding truncate_head_tail_with_marker_def Let_def r prod.case
    using h k by (auto simp: min_def)
qed

lemma truncate_cut:
  "mx < length t \<Longrightarrow> bt_truncated (truncate_head_tail_with_marker t mx marker)"
  by (simp add: truncate_head_tail_with_marker_def Let_def split: prod.splits)

lemma answer_excerpt_fits_aux: "length (bt_text (answer_excerpt a c mx marker)) \<le> mx"
proof (cases "length a \<le> mx")
  case False
  then show ?thesis
    using truncate_fits [of _ "min mx _"] truncate_fits [of a mx marker]
    by (fastforce simp: answer_excerpt_def Let_def split: option.splits intro: le_trans)
qed (simp add: answer_excerpt_def)

text \<open>A marker whose length never shrinks as its count grows, and grows by less than fifteen
  characters in all, is resolved within the sixteen rounds.\<close>

lemma resolve_marker_fixed:
  assumes mono: "\<And>a b. a \<le> b \<Longrightarrow> length (marker a) \<le> length (marker b)"
    and lim: "length (marker tot) < L + n"
    and low: "L \<le> length (marker (tot - k))"
    and k: "mx - length (marker (tot - k)) \<le> k"
    and res: "resolve_marker n marker tot mx k = (c, k')" "0 < n"
  shows "c = marker (tot - k')"
  using lim low k res
proof (induction n arbitrary: L k)
  case (Suc n)
  let ?l = "length (marker (tot - k))"
  let ?nk = "mx - ?l"
  show ?case
  proof (cases "?nk = k")
    case True
    then have "c = marker (tot - k) \<and> k' = k" using Suc.prems(4) by (auto simp: Let_def)
    then show ?thesis by metis
  next
    case False
    then have lt: "?nk < k" using Suc.prems(3) by simp
    have r: "resolve_marker n marker tot mx ?nk = (c, k')"
      using Suc.prems(4) False by (simp add: Let_def)
    have ge: "?l \<le> length (marker (tot - ?nk))"
      using lt by (intro mono) simp
    have le: "mx - length (marker (tot - ?nk)) \<le> ?nk" using ge by (rule diff_le_mono2)
    have top: "length (marker (tot - ?nk)) \<le> length (marker tot)" by (rule mono) simp
    show ?thesis
    proof (cases "length (marker (tot - ?nk)) = ?l")
      case True
      then show ?thesis using r by (cases n) (auto simp: Let_def)
    next
      case False
      then have up: "Suc L \<le> length (marker (tot - ?nk))" using ge Suc.prems(2) by simp
      show ?thesis
      proof (cases n)
        case 0
        then show ?thesis using up top Suc.prems(1) by simp
      next
        case (Suc m)
        show ?thesis
          by (rule Suc.IH [OF _ up le r]) (use Suc.prems(1) Suc in simp_all)
      qed
    qed
  qed
qed simp

lemma full_answer_marker_length:
  "length (full_answer_marker n tot child turn) =
     length (full_answer_marker 0 tot child turn) + length (dec n) - 1"
  by (simp add: full_answer_marker_def ellipsis_def dec_def radix_digits.simps [of 10 0])

lemma length_dec_pos: "0 < length (dec n)"
  by (simp add: dec_def)

lemma full_answer_marker_mono:
  "a \<le> b \<Longrightarrow> length (full_answer_marker a tot child turn) \<le> length (full_answer_marker b tot child turn)"
  using length_dec_mono [of a b] length_dec_pos [of a]
  by (simp add: full_answer_marker_length [of a] full_answer_marker_length [of b])

lemma full_answer_marker_span:
  assumes "n < 10 ^ 15"
  shows "length (full_answer_marker n tot child turn) < length (full_answer_marker 0 tot child turn) + 15"
proof -
  have "length (dec n) \<le> 15"
    using length_radix_upper [of 10 n 14] assms by (simp add: dec_def)
  then show ?thesis by (simp add: full_answer_marker_length [of n])
qed

text \<open>What a head/tail cut keeps: a prefix and a suffix, and the number the marker reports is the
  number of characters it stands for.\<close>

lemma truncate_exact_aux:
  fixes t :: utext and marker :: "nat \<Rightarrow> utext"
  assumes mono: "\<And>a b. a \<le> b \<Longrightarrow> length (marker a) \<le> length (marker b)"
    and span: "length (marker (length t)) < length (marker 0) + 15"
    and long: "mx < length t" and room: "length (marker (length t)) < mx"
  shows "\<exists>h l. h + l < length t
    \<and> bt_text (truncate_head_tail_with_marker t mx marker)
        = take h t @ marker (length t - (h + l)) @ drop (length t - l) t
    \<and> h + length (marker (length t - (h + l))) + l = mx"
proof -
  obtain c k where r: "resolve_marker 16 marker (length t) mx mx = (c, k)" by fastforce
  have "c = marker (length t - k)"
    by (rule resolve_marker_fixed [where marker = marker and L = "length (marker 0)" and n = 16 and k = mx, OF mono _ _ _ r])
      (use span mono in simp_all)
  moreover have k: "k = mx - length c" using resolve_marker_keep [OF r] .
  moreover have "length (marker (length t - k)) < mx"
    using mono [of "length t - k" "length t"] room by simp
  ultimately have c: "c = marker (length t - k)" and k: "k + length c = mx" and room: "length c < mx"
    by auto
  define h where "h = usize_saturating_mul k 70 div 100"
  have "h \<le> k * 70 div 100"
    unfolding h_def usize_saturating_mul_def by (intro div_le_mono) simp
  then have h: "h \<le> k" by simp
  have "bt_text (truncate_head_tail_with_marker t mx marker) = take h t @ c @ drop (length t - (k - h)) t"
    using long room r by (simp add: truncate_head_tail_with_marker_def h_def Let_def)
  then show ?thesis
    using c k h long by (intro exI [of _ h] exI [of _ "k - h"]) simp
qed

section \<open>Completion keys and turn answers\<close>

lemma final_dedup_key_inject [simp]: "final_dedup_key a = final_dedup_key b \<longleftrightarrow> a = b"
  by (simp add: final_dedup_key_def)

lemma walk_back_rows:
  "p \<in> set (walk_back exec rows) \<Longrightarrow>
     \<exists>row \<in> set rows. tr_exec row = Some exec \<and> tr_assistant row = p \<and> trim p \<noteq> []
       \<and> tr_status row = None \<and> tr_outcome row = None"
  by (induction exec rows rule: walk_back.induct) (auto split: if_splits)

lemma turn_answer_unchanged:
  "tr_failed r \<or> tr_exec r = None \<Longrightarrow> turn_answer_record rows r = r"
  by (auto simp: turn_answer_record_def)

lemma turn_answer_keeps [simp]:
  "tr_turn_id (turn_answer_record rows r) = tr_turn_id r"
  "tr_exec (turn_answer_record rows r) = tr_exec r"
  "tr_outcome (turn_answer_record rows r) = tr_outcome r"
  "tr_error_kind (turn_answer_record rows r) = tr_error_kind r"
  by (auto simp: turn_answer_record_def Let_def split: option.splits prod.splits)

end
