(* ===== verification/Delegation_Gateway.thy ===== *)
theory Delegation_Gateway
  imports Delegation_File Answer_Excerpt
begin

text \<open>
  The gateway's side of delegation (\<^verbatim>\<open>ccteam-im/src/gateway.rs\<close>): the in-memory mirror of each
  child's record and every operation on it, from accepting a dispatch to telling the parents
  and recording that they were told. One definition per operation; what an operation meets
  outside (the outcome of each file-system call, the clock, the session table, whether a
  submission to a parent succeeded) is an argument. An operation that holds the child's claim
  from its first to its last effect is one function; the delivery of a boundary, which gives
  the claim up while it talks to the parents, is one function per claimed stretch.
\<close>

section \<open>State\<close>

record mirror =
  mr_generation :: nat
  mr_slug :: utext
  mr_dir :: utext
  mr_store :: store
  mr_request_waits :: "req_id \<Rightarrow> nat option"
  mr_read_waits :: "sid \<Rightarrow> nat option"
  mr_delivering_now :: "turn_id set"
  mr_suppressed :: "req_id set"
  mr_provisional :: "turn_id \<Rightarrow> signal option"

text \<open>Ledger rows and submissions to parents, in the order they are made.\<close>

datatype event =
    EvCompleted sid turn_id req_id
  | EvSubmitted sid turn_id sid "req_id list" bool
  | EvNotified sid turn_id req_id

record gateway =
  gw_delegations :: "sid \<Rightarrow> mirror option"
  gw_watch :: "sid set"
  gw_disk :: "utext \<times> sid \<Rightarrow> disk_file"
  gw_next_generation :: nat
  gw_trace :: "event list"

definition fresh_mirror :: "nat \<Rightarrow> utext \<Rightarrow> utext \<Rightarrow> store \<Rightarrow> mirror" where
  "fresh_mirror gen slug dir s =
     \<lparr> mr_generation = gen, mr_slug = slug, mr_dir = dir, mr_store = s,
       mr_request_waits = (\<lambda>_. None), mr_read_waits = (\<lambda>_. None), mr_delivering_now = {},
       mr_suppressed = {}, mr_provisional = (\<lambda>_. None) \<rparr>"

definition set_mirror :: "sid \<Rightarrow> mirror \<Rightarrow> gateway \<Rightarrow> gateway" where
  "set_mirror c m g = g \<lparr> gw_delegations := (gw_delegations g)(c := Some m) \<rparr>"

definition set_file :: "utext \<Rightarrow> sid \<Rightarrow> disk_file \<Rightarrow> gateway \<Rightarrow> gateway" where
  "set_file dir c f g = g \<lparr> gw_disk := (gw_disk g)((dir, c) := f) \<rparr>"

text \<open>\<^verbatim>\<open>wrapping_add(1).max(1)\<close> on \<^verbatim>\<open>u64\<close>: zero is never minted. The caller sees the new value.\<close>

definition next_live_generation :: "gateway \<Rightarrow> gateway \<times> nat" where
  "next_live_generation g =
     (let n = max ((gw_next_generation g + 1) mod 2 ^ 64) 1 in
      (g \<lparr> gw_next_generation := n \<rparr>, n))"

definition wait_claimed :: "nat \<Rightarrow> mirror \<Rightarrow> request \<Rightarrow> bool" where
  "wait_claimed now m r \<longleftrightarrow>
     (case mr_request_waits m (rq_id r) of Some limit \<Rightarrow> now \<le> limit | None \<Rightarrow> False)
     \<or> (case mr_read_waits m (rq_parent r) of Some limit \<Rightarrow> now \<le> limit | None \<Rightarrow> False)"

definition outstanding_count :: "mirror \<Rightarrow> nat" where
  "outstanding_count m = length (outstanding (mr_store m))"

section \<open>Writing the record\<close>

definition store_write :: "fs_outcome \<Rightarrow> utext \<Rightarrow> sid \<Rightarrow> store \<Rightarrow> gateway \<Rightarrow> gateway \<times> bool" where
  "store_write io dir c s g =
     (let (f, ok) = persist_delegation_requests io s (gw_disk g (dir, c)) in (set_file dir c f g, ok))"

definition store_remove :: "fs_outcome \<Rightarrow> utext \<Rightarrow> sid \<Rightarrow> gateway \<Rightarrow> gateway" where
  "store_remove io dir c g = set_file dir c (delete_delegation_requests io (gw_disk g (dir, c))) g"

definition persist_delegation_store :: "fs_outcome \<Rightarrow> sid \<Rightarrow> gateway \<Rightarrow> gateway \<times> bool" where
  "persist_delegation_store io c g = (case gw_delegations g c of
       None \<Rightarrow> (g, True)
     | Some m \<Rightarrow> store_write io (mr_dir m) c (mr_store m) g)"

definition restore_delegation_store :: "fs_outcome \<Rightarrow> utext \<Rightarrow> sid \<Rightarrow> store option \<Rightarrow> gateway \<Rightarrow> gateway" where
  "restore_delegation_store io dir c old g = (case old of
       Some s \<Rightarrow> fst (store_write io dir c s g)
     | None \<Rightarrow> store_remove io dir c g)"

definition abandon_delivery_shared :: "fs_outcome \<Rightarrow> sid \<Rightarrow> turn_id \<Rightarrow> gateway \<Rightarrow> gateway" where
  "abandon_delivery_shared io c k g =
     (let g' = (case gw_delegations g c of
           None \<Rightarrow> g
         | Some m \<Rightarrow> set_mirror c (m \<lparr> mr_store := abandon_delivery k (mr_store m),
                      mr_delivering_now := mr_delivering_now m - {k} \<rparr>) g) in
      fst (persist_delegation_store io c g'))"

section \<open>Accepting and binding a dispatch\<close>

datatype gateway_error =
    QueueDeadline
  | StorageWriteFailed utext
  | SessionGenerationConflict sid

record live_session =
  lv_generation :: nat
  lv_project :: utext

text \<open>The fence of the accept path: the session seen under the first lock against the one
  registered under the second.\<close>

definition session_matches :: "utext \<Rightarrow> live_session option \<Rightarrow> live_session option \<Rightarrow> bool" where
  "session_matches slug before after = (case (after, before) of
       (Some s, Some armed) \<Rightarrow> lv_generation s = lv_generation armed \<and> lv_project s = slug
     | (Some s, None) \<Rightarrow> lv_project s = slug
     | (None, _) \<Rightarrow> True)"

text \<open>What the accept path meets: the two timed lock acquisitions, the resolved project of the
  child (directory and slug), the session before and after the write, and the outcomes of the
  write and of the write that puts the old record back.\<close>

record accept_env =
  ae_lock1 :: bool
  ae_resolved :: "(utext \<times> utext) option"
  ae_before :: "live_session option"
  ae_io :: fs_outcome
  ae_lock2 :: bool
  ae_after :: "live_session option"
  ae_restore_io :: fs_outcome

definition install_store :: "sid \<Rightarrow> utext \<Rightarrow> utext \<Rightarrow> store \<Rightarrow> gateway \<Rightarrow> gateway" where
  "install_store c dir slug s g =
     (let (g, gen) = (case gw_delegations g c of Some _ \<Rightarrow> (g, 0) | None \<Rightarrow> next_live_generation g);
          m = (case gw_delegations g c of Some m \<Rightarrow> m | None \<Rightarrow> fresh_mirror gen slug dir default_store) in
      (set_mirror c (m \<lparr> mr_store := s \<rparr>) g) \<lparr> gw_watch := insert c (gw_watch g) \<rparr>)"

definition accept_delegation_request ::
  "accept_env \<Rightarrow> sid \<Rightarrow> request \<Rightarrow> gateway \<Rightarrow> gateway \<times> (gateway_error + req_id option)" where
  "accept_delegation_request env c r g =
     (if \<not> ae_lock1 env then (g, Inl QueueDeadline)
      else (case ae_resolved env of
          None \<Rightarrow> (g, Inr None)
        | Some (dir, slug) \<Rightarrow>
            (let old = read_delegation_requests (gw_disk g (dir, c));
                 s = accept r (case old of Some o' \<Rightarrow> o' | None \<Rightarrow> default_store);
                 (g1, ok) = store_write (ae_io env) dir c s g in
             if \<not> ok then (g1, Inl (StorageWriteFailed c))
             else if \<not> ae_lock2 env then
               (restore_delegation_store (ae_restore_io env) dir c old g1, Inl QueueDeadline)
             else if session_matches slug (ae_before env) (ae_after env) then
               (install_store c dir slug s g1, Inr (Some (rq_id r)))
             else
               (restore_delegation_store (ae_restore_io env) dir c old g1,
                Inl (SessionGenerationConflict c)))))"

record turn_receipt =
  rc_turn_id :: turn_id
  rc_disposition :: "turn_disposition option"
  rc_queue_position :: "nat option"
  rc_queued_behind_body :: bool

definition receipt_status :: "turn_receipt \<Rightarrow> utext" where
  "receipt_status rc =
     (if rc_queued_behind_body rc then lit ''queued''
      else (case rc_disposition rc of
          Some DStarted \<Rightarrow> lit ''started''
        | Some DInjected \<Rightarrow> lit ''injected''
        | Some DQueued \<Rightarrow> lit ''queued''
        | None \<Rightarrow> lit ''queued''))"

definition bound_state :: "turn_disposition option \<Rightarrow> request_state" where
  "bound_state d = (case d of
       Some DQueued \<Rightarrow> Queued
     | Some DInjected \<Rightarrow> Executing
     | Some DStarted \<Rightarrow> Submitted
     | None \<Rightarrow> Submitted)"

definition bind_request :: "turn_receipt \<Rightarrow> request \<Rightarrow> request" where
  "bind_request rc r = r \<lparr> rq_turn_id := Some (rc_turn_id rc),
     rq_queue_position := rc_queue_position rc, rq_state := bound_state (rc_disposition rc) \<rparr>"

definition bind_delegation_request ::
  "fs_outcome \<Rightarrow> utext \<Rightarrow> sid \<Rightarrow> req_id \<Rightarrow> turn_receipt \<Rightarrow> gateway \<Rightarrow> gateway \<times> (gateway_error + unit)" where
  "bind_delegation_request io failure c i rc g = (case gw_delegations g c of
       None \<Rightarrow> (g, Inl (StorageWriteFailed c))
     | Some m \<Rightarrow> (case get_request i (mr_store m) of
           None \<Rightarrow> (g, Inl (StorageWriteFailed i))
         | Some _ \<Rightarrow>
             (let m1 = m \<lparr> mr_store := update_request i (bind_request rc) (mr_store m) \<rparr>;
                  (g1, ok) = persist_delegation_store io c (set_mirror c m1 g) in
              if ok then (g1, Inr ())
              else (set_mirror c (m1 \<lparr> mr_store :=
                      update_request i (rq_bind_error_update (\<lambda>_. Some failure)) (mr_store m1) \<rparr>) g1,
                    Inl (StorageWriteFailed failure)))))"

text \<open>Dropping one request: its dispatch never went out, or it was withdrawn.\<close>

definition drop_delegation_request :: "fs_outcome \<Rightarrow> sid \<Rightarrow> req_id \<Rightarrow> gateway \<Rightarrow> gateway" where
  "drop_delegation_request io c i g = (case gw_delegations g c of
       None \<Rightarrow> g
     | Some m \<Rightarrow>
         (let s = mr_store m;
              s = s \<lparr> st_requests := filter (\<lambda>r. rq_id r \<noteq> i) (st_requests s) \<rparr>;
              m = m \<lparr> mr_store := s, mr_request_waits := (mr_request_waits m)(i := None),
                      mr_suppressed := mr_suppressed m - {i} \<rparr> in
          if store_is_empty s then
            store_remove io (mr_dir m) c
              (g \<lparr> gw_delegations := (gw_delegations g)(c := None), gw_watch := gw_watch g - {c} \<rparr>)
          else fst (persist_delegation_store io c (set_mirror c m g))))"

section \<open>Waiting for an answer inline\<close>

definition claim_request_wait :: "nat \<Rightarrow> sid \<Rightarrow> req_id \<Rightarrow> nat \<Rightarrow> gateway \<Rightarrow> gateway \<times> bool" where
  "claim_request_wait now c i seconds g = (case gw_delegations g c of
       None \<Rightarrow> (g, False)
     | Some m \<Rightarrow>
         (set_mirror c (m \<lparr> mr_request_waits := (mr_request_waits m)(i := Some (now + seconds)),
            mr_suppressed := mr_suppressed m - {i} \<rparr>) g, True))"

definition release_request_wait :: "sid \<Rightarrow> req_id \<Rightarrow> gateway \<Rightarrow> gateway \<times> bool" where
  "release_request_wait c i g = (case gw_delegations g c of
       None \<Rightarrow> (g, False)
     | Some m \<Rightarrow>
         (set_mirror c (m \<lparr> mr_request_waits := (mr_request_waits m)(i := None),
            mr_suppressed := mr_suppressed m - {i} \<rparr>) g, i \<in> mr_suppressed m))"

definition claim_read_wait :: "nat \<Rightarrow> sid \<Rightarrow> sid \<Rightarrow> nat \<Rightarrow> gateway \<Rightarrow> gateway \<times> bool" where
  "claim_read_wait now c p seconds g = (case gw_delegations g c of
       None \<Rightarrow> (g, False)
     | Some m \<Rightarrow>
         if list_ex (\<lambda>r. rq_parent r = p) (outstanding (mr_store m)) then
           (set_mirror c (m \<lparr> mr_read_waits := (mr_read_waits m)(p := Some (now + seconds)) \<rparr>) g, True)
         else (g, False))"

definition release_read_wait :: "sid \<Rightarrow> sid \<Rightarrow> gateway \<Rightarrow> gateway \<times> bool" where
  "release_read_wait c p g = (case gw_delegations g c of
       None \<Rightarrow> (g, False)
     | Some m \<Rightarrow>
         (let mine = map rq_id (filter (\<lambda>r. rq_parent r = p) (st_requests (mr_store m))) in
          (set_mirror c (m \<lparr> mr_read_waits := (mr_read_waits m)(p := None),
             mr_suppressed := mr_suppressed m - set mine \<rparr>) g,
           list_ex (\<lambda>i. i \<in> mr_suppressed m) mine)))"

definition delegation_notify_precedent :: "sid \<Rightarrow> sid \<Rightarrow> gateway \<Rightarrow> notify_mode option" where
  "delegation_notify_precedent c p g = (case gw_delegations g c of
       None \<Rightarrow> None
     | Some m \<Rightarrow> map_option rq_notify (latest_outstanding_for p (mr_store m)))"

section \<open>Turns opening and ending\<close>

definition rebind_delegation_continuation :: "sid \<Rightarrow> turn_id \<Rightarrow> turn_id \<Rightarrow> gateway \<Rightarrow> gateway \<times> bool" where
  "rebind_delegation_continuation c src dst g = (case gw_delegations g c of
       None \<Rightarrow> (g, False)
     | Some m \<Rightarrow>
         (let (s, moved) = rebind_continuation src dst (mr_store m) in
          (set_mirror c (m \<lparr> mr_store := s \<rparr>) g, 0 < moved)))"

definition note_delegation_progress :: "sid \<Rightarrow> turn_id \<Rightarrow> utext \<Rightarrow> gateway \<Rightarrow> gateway \<times> bool" where
  "note_delegation_progress c t now g = (case gw_delegations g c of
       None \<Rightarrow> (g, False)
     | Some m \<Rightarrow>
         (let (s, touched) = note_progress t now (mr_store m) in
          (set_mirror c (m \<lparr> mr_store := s \<rparr>) g, 0 < touched)))"

definition awaits_opening :: "turn_id \<Rightarrow> request \<Rightarrow> bool" where
  "awaits_opening t r \<longleftrightarrow> rq_turn_id r = Some t \<and> rq_state r \<in> {Queued, Submitted, Accepted}"

definition mark_delegation_requests_executing :: "sid \<Rightarrow> turn_id \<Rightarrow> gateway \<Rightarrow> gateway \<times> bool" where
  "mark_delegation_requests_executing c t g = (case gw_delegations g c of
       None \<Rightarrow> (g, False)
     | Some m \<Rightarrow>
         (let s = mr_store m in
          (set_mirror c (m \<lparr> mr_store := s \<lparr> st_requests :=
              map (\<lambda>r. if awaits_opening t r
                        then r \<lparr> rq_state := Executing, rq_queue_position := None \<rparr> else r)
                (st_requests s) \<rparr> \<rparr>) g,
           list_ex (awaits_opening t) (st_requests s))))"

text \<open>The \<^verbatim>\<open>TurnOpened\<close> pulse.\<close>

definition clear_provisional :: "sid \<Rightarrow> turn_id \<Rightarrow> gateway \<Rightarrow> gateway" where
  "clear_provisional c t g = (case gw_delegations g c of
       None \<Rightarrow> g
     | Some m \<Rightarrow> set_mirror c (m \<lparr> mr_provisional := (mr_provisional m)(t := None) \<rparr>) g)"

definition handle_turn_opened :: "fs_outcome \<Rightarrow> sid \<Rightarrow> turn_id \<Rightarrow> turn_id option \<Rightarrow> gateway \<Rightarrow> gateway" where
  "handle_turn_opened io c t continues g =
     (if c \<notin> gw_watch g then g
      else
        (let (g1, moved) = (case continues of
               Some src \<Rightarrow> rebind_delegation_continuation c src t (clear_provisional c src g)
             | None \<Rightarrow> (g, False));
             (g2, marked) = mark_delegation_requests_executing c t g1 in
         if moved \<or> marked then fst (persist_delegation_store io c g2) else g2))"

text \<open>A boundary that settles nothing: the trail is noted, a replay is held back. The result tells
  whether the grace timer was started.\<close>

definition deliver_held_boundary :: "fs_outcome \<Rightarrow> utext \<Rightarrow> signal \<Rightarrow> gateway \<Rightarrow> gateway \<times> bool" where
  "deliver_held_boundary io now sg g = (case sg_exec sg of
       None \<Rightarrow> (g, False)
     | Some t \<Rightarrow>
         (let c = sg_child sg;
              (g1, noted) = note_delegation_progress c t now g;
              (g2, held) = (if noted \<and> sg_continuation sg = Replay then
                 (case gw_delegations g1 c of
                    Some m \<Rightarrow> (set_mirror c (m \<lparr> mr_provisional := (mr_provisional m)(t \<mapsto> sg) \<rparr>) g1, True)
                  | None \<Rightarrow> (g1, False))
               else (g1, False)) in
          (if noted then fst (persist_delegation_store io c g2) else g2, held)))"

text \<open>The replay grace ran out: the held signal, settled, is what is delivered next.\<close>

definition settle_provisional_boundary :: "sid \<Rightarrow> turn_id \<Rightarrow> gateway \<Rightarrow> gateway \<times> signal option" where
  "settle_provisional_boundary c t g = (case gw_delegations g c of
       None \<Rightarrow> (g, None)
     | Some m \<Rightarrow>
         (set_mirror c (m \<lparr> mr_provisional := (mr_provisional m)(t := None) \<rparr>) g,
          map_option (\<lambda>sg. sg \<lparr> sg_continuation := Settled \<rparr>) (mr_provisional m t)))"

end
