(* ===== verification/Delegation_Delivery.thy ===== *)
theory Delegation_Delivery
  imports Delegation_Gateway
begin

text \<open>
  The two-phase delivery of one turn boundary (\<^verbatim>\<open>plan_delegation_delivery\<close>,
  \<^verbatim>\<open>deliver_delegation_signal_shared\<close> and the withdrawal and stop paths of
  \<^verbatim>\<open>ccteam-im/src/gateway.rs\<close>). Phase (a) plans: it claims the boundary in memory and on disk.
  Phase (b) tells the parents, with no lock held. Phase (c) commits: the boundary leaves the
  claims and joins the dedup set, and the requests it answered become terminal.
\<close>

section \<open>Planning\<close>

record delivery =
  dl_request :: request
  dl_notified :: bool

record parent_notification =
  pn_parent :: sid
  pn_request_ids :: "req_id list"
  pn_text :: utext

record delivery_plan =
  pl_signal :: signal
  pl_generation :: nat
  pl_key :: turn_id
  pl_slug :: utext
  pl_deliveries :: "delivery list"
  pl_notifications :: "parent_notification list"

text \<open>Pushing the parents not yet in the list, in order of first appearance.\<close>

fun first_parents :: "sid list \<Rightarrow> sid list \<Rightarrow> sid list" where
  "first_parents acc [] = acc"
| "first_parents acc (p # ps) = first_parents (if p \<in> set acc then acc else acc @ [p]) ps"

definition carried_requests :: "delivery list \<Rightarrow> sid \<Rightarrow> request list" where
  "carried_requests ds p =
     map dl_request (filter (\<lambda>d. dl_notified d \<and> rq_parent (dl_request d) = p) ds)"

definition excerpt_cap :: "request list \<Rightarrow> nat" where
  "excerpt_cap carried = (case map (\<lambda>r. notification_answer_max_chars (rq_notify r)) carried of
       [] \<Rightarrow> NOTIFICATION_ANSWER_MAX_CHARS
     | x # xs \<Rightarrow> fold max xs x)"

definition signal_summary :: "signal \<Rightarrow> request list \<Rightarrow> nat \<Rightarrow> summary" where
  "signal_summary sg carried remaining =
     \<lparr> sm_sid = sg_child sg, sm_vendor = vendor_key (sg_vendor sg), sm_turn_id = sg_turn_id sg,
       sm_turn = sg_turn sg,
       sm_outcome = (if sg_vendor_error sg then OFailed (sg_error_kind sg) None else ODone),
       sm_context_pct = sg_context_pct sg, sm_cost_usd = None, sm_answer = sg_tail sg,
       sm_conclusion = sg_conclusion sg,
       sm_requests = map (\<lambda>r. \<lparr> aq_id = rq_id r, aq_title = rq_title r \<rparr>) carried,
       sm_remaining_queued = remaining \<rparr>"

definition parent_notification_for ::
  "signal \<Rightarrow> nat \<Rightarrow> delivery list \<Rightarrow> sid \<Rightarrow> parent_notification" where
  "parent_notification_for sg remaining ds p =
     (let carried = carried_requests ds p in
      \<lparr> pn_parent = p, pn_request_ids = map rq_id carried,
        pn_text = notification_text (signal_summary sg carried remaining) (excerpt_cap carried) \<rparr>)"

definition plan_notifications :: "signal \<Rightarrow> nat \<Rightarrow> delivery list \<Rightarrow> parent_notification list" where
  "plan_notifications sg remaining ds =
     map (parent_notification_for sg remaining ds)
       (first_parents [] (map (\<lambda>d. rq_parent (dl_request d)) (filter dl_notified ds)))"

definition plan_delivery_of :: "nat \<Rightarrow> mirror \<Rightarrow> request \<Rightarrow> delivery" where
  "plan_delivery_of now m r =
     \<lparr> dl_request = r, dl_notified = (rq_notify r \<noteq> NOff \<and> \<not> wait_claimed now m r) \<rparr>"

definition resolved_by :: "signal \<Rightarrow> store \<Rightarrow> request list" where
  "resolved_by sg s = (case sg_exec sg of Some t \<Rightarrow> bound_to t s | None \<Rightarrow> [])"

definition plan_delegation_delivery ::
  "nat \<Rightarrow> signal \<Rightarrow> gateway \<Rightarrow> gateway \<times> delivery_plan option" where
  "plan_delegation_delivery now sg g =
     (if \<not> sg_boundary sg then (g, None)
      else (case gw_delegations g (sg_child sg) of
          None \<Rightarrow> (g, None)
        | Some m \<Rightarrow>
            (let key = final_dedup_key (sg_turn_id sg); s = mr_store m in
             if list_ex (\<lambda>t. t = key) (st_notified s) then (g, None)
             else
               (let resolved = resolved_by sg s in
                if resolved = [] then (g, None)
                else if key \<in> mr_delivering_now m then (g, None)
                else
                  (let remaining = length (filter
                         (\<lambda>r. \<not> list_ex (\<lambda>x. rq_id x = rq_id r) resolved) (outstanding s)) in
                   case begin_delivery key (sg_exec sg) (map rq_id resolved) s of
                     (_, None) \<Rightarrow> (g, None)
                   | (s', Some _) \<Rightarrow>
                       (let ds = map (plan_delivery_of now m) resolved;
                            m' = m \<lparr> mr_store := s',
                              mr_delivering_now := insert key (mr_delivering_now m),
                              mr_suppressed := mr_suppressed m
                                \<union> set (map rq_id (filter (wait_claimed now m) resolved)) \<rparr> in
                        (set_mirror (sg_child sg) m' g,
                         Some \<lparr> pl_signal = sg, pl_generation = mr_generation m, pl_key = key,
                           pl_slug = mr_slug m, pl_deliveries = ds,
                           pl_notifications = plan_notifications sg remaining ds \<rparr>)))))))"

text \<open>Phase (a) as the delivery runs it: the claim reaches the disk, or it is abandoned.\<close>

definition claim_boundary ::
  "nat \<Rightarrow> fs_outcome \<Rightarrow> fs_outcome \<Rightarrow> signal \<Rightarrow> gateway \<Rightarrow> gateway \<times> delivery_plan option" where
  "claim_boundary now io io' sg g =
     (case plan_delegation_delivery now sg g of
        (g1, None) \<Rightarrow> (g1, None)
      | (g1, Some plan) \<Rightarrow>
          (let (g2, ok) = persist_delegation_store io (sg_child sg) g1 in
           if ok then (g2, Some plan)
           else (abandon_delivery_shared io' (sg_child sg) (pl_key plan) g2, None)))"

section \<open>Telling the parents\<close>

text \<open>\<^verbatim>\<open>sub\<close> says whether the submission to a parent is accepted. The result is the trace it
  leaves and the requests of the parents that could not be told.\<close>

definition notify_parent ::
  "(sid \<Rightarrow> bool) \<Rightarrow> delivery_plan \<Rightarrow> parent_notification \<Rightarrow> event list \<times> req_id list" where
  "notify_parent sub plan n =
     (let c = sg_child (pl_signal plan); ok = sub (pn_parent n) in
      (EvSubmitted c (pl_key plan) (pn_parent n) (pn_request_ids n) ok
         # (if ok then map (\<lambda>d. EvNotified c (pl_key plan) (rq_id (dl_request d)))
              (filter (\<lambda>d. rq_id (dl_request d) \<in> set (pn_request_ids n)) (pl_deliveries plan))
            else []),
       if ok then [] else pn_request_ids n))"

definition notify_parents :: "(sid \<Rightarrow> bool) \<Rightarrow> delivery_plan \<Rightarrow> gateway \<Rightarrow> gateway \<times> req_id list" where
  "notify_parents sub plan g =
     (let completed = map (\<lambda>d. EvCompleted (sg_child (pl_signal plan)) (pl_key plan)
              (rq_id (dl_request d))) (pl_deliveries plan);
          told = map (notify_parent sub plan) (pl_notifications plan) in
      (g \<lparr> gw_trace := gw_trace g @ completed @ concat (map fst told) \<rparr>, concat (map snd told)))"

section \<open>Committing\<close>

definition plan_terminal_state :: "delivery_plan \<Rightarrow> request_state" where
  "plan_terminal_state plan = (if sg_vendor_error (pl_signal plan) then Failed else Answered)"

definition answer_request :: "delivery_plan \<Rightarrow> delivery \<Rightarrow> request \<Rightarrow> request" where
  "answer_request plan d r = r \<lparr> rq_state := plan_terminal_state plan, rq_queue_position := None,
     rq_answered_turn := Some (sg_turn_id (pl_signal plan)), rq_notified := dl_notified d \<rparr>"

definition commit_one :: "delivery_plan \<Rightarrow> req_id list \<Rightarrow> delivery \<Rightarrow> store \<Rightarrow> store" where
  "commit_one plan failed d s =
     (let i = rq_id (dl_request d) in
      if list_ex (\<lambda>f. f = i) failed
      then s \<lparr> st_requests := filter (\<lambda>r. rq_id r \<noteq> i) (st_requests s) \<rparr>
      else update_request i (answer_request plan d) s)"

definition commit_store :: "delivery_plan \<Rightarrow> req_id list \<Rightarrow> store \<Rightarrow> store" where
  "commit_store plan failed s =
     (let s = finish_delivery (pl_key plan) s;
          s = fold record_notified (sg_covered (pl_signal plan)) s in
      fold (commit_one plan failed) (pl_deliveries plan) s)"

definition commit_delivery :: "fs_outcome \<Rightarrow> delivery_plan \<Rightarrow> req_id list \<Rightarrow> gateway \<Rightarrow> gateway" where
  "commit_delivery io plan failed g =
     (let c = sg_child (pl_signal plan) in
      case gw_delegations g c of
        None \<Rightarrow> g
      | Some m \<Rightarrow>
          if mr_generation m \<noteq> pl_generation plan then g
          else
            (let m' = m \<lparr> mr_delivering_now := mr_delivering_now m - {pl_key plan},
                       mr_store := commit_store plan failed (mr_store m) \<rparr>;
                 g1 = set_mirror c m' g;
                 g2 = (if outstanding_count m' = 0
                       then g1 \<lparr> gw_watch := gw_watch g1 - {c} \<rparr> else g1) in
             fst (persist_delegation_store io c g2)))"

text \<open>One whole delivery with nothing in between, as the startup reconcile runs it.\<close>

record delivery_env =
  de_now :: nat
  de_clock :: utext
  de_claim_io :: fs_outcome
  de_abandon_io :: fs_outcome
  de_submit :: "sid \<Rightarrow> bool"
  de_commit_io :: fs_outcome

definition deliver_delegation_signal :: "delivery_env \<Rightarrow> signal \<Rightarrow> gateway \<Rightarrow> gateway" where
  "deliver_delegation_signal env sg g =
     (if \<not> signal_terminal sg then fst (deliver_held_boundary (de_claim_io env) (de_clock env) sg g)
      else (case claim_boundary (de_now env) (de_claim_io env) (de_abandon_io env) sg g of
          (g1, None) \<Rightarrow> g1
        | (g1, Some plan) \<Rightarrow>
            (let (g2, failed) = notify_parents (de_submit env) plan g1 in
             commit_delivery (de_commit_io env) plan failed g2)))"

text \<open>The \<^verbatim>\<open>Signal\<close> pulse: unwatched children and mid-turn narration are ignored.\<close>

definition handle_delegation_pulse :: "delivery_env \<Rightarrow> pulse \<Rightarrow> gateway \<Rightarrow> gateway" where
  "handle_delegation_pulse env p g = (case p of
       TurnOpened c t continues \<Rightarrow> handle_turn_opened (de_claim_io env) c t continues g
     | Signal sg \<Rightarrow>
         if sg_child sg \<notin> gw_watch g \<or> \<not> sg_boundary sg then g
         else deliver_delegation_signal env sg g)"

section \<open>Withdrawn and stopped tasks\<close>

text \<open>\<^verbatim>\<open>answer_withdrawn_requests\<close>: bind the withdrawn requests to a turn of their own.\<close>

definition withdraw_one :: "turn_id \<Rightarrow> req_id \<Rightarrow> store \<times> nat \<Rightarrow> store \<times> nat" where
  "withdraw_one t i sn = (case get_request i (fst sn) of
       None \<Rightarrow> sn
     | Some r \<Rightarrow> if is_terminal (rq_state r) then sn
         else (update_request i (\<lambda>r. r \<lparr> rq_turn_id := Some t, rq_state := Submitted \<rparr>) (fst sn),
               snd sn + 1))"

definition withdrawn_signal :: "sid \<Rightarrow> turn_id \<Rightarrow> utext \<Rightarrow> vendor \<Rightarrow> utext \<Rightarrow> nat \<Rightarrow> signal" where
  "withdrawn_signal c t err v host turn =
     \<lparr> sg_child = c, sg_turn_id = t, sg_exec = Some t,
       sg_tail = c @ lit '' could not be resumed after its old process ended: '' @ err
         @ lit ''. The task was withdrawn and did not run; send it again to retry.'',
       sg_conclusion = None, sg_vendor = v, sg_host = host, sg_boundary = True,
       sg_continuation = Settled, sg_vendor_error = True, sg_interim_notes = 0, sg_covered = [t],
       sg_context_pct = None, sg_turn = turn, sg_error_kind = Some (lit ''resume_failed'') \<rparr>"

definition answer_withdrawn_requests ::
  "fs_outcome \<Rightarrow> sid \<Rightarrow> turn_id \<Rightarrow> req_id list \<Rightarrow> utext \<Rightarrow> vendor \<Rightarrow> utext \<Rightarrow> nat \<Rightarrow> gateway
     \<Rightarrow> gateway \<times> signal option" where
  "answer_withdrawn_requests io c t ids err v host turn g =
     (if ids = [] then (g, None)
      else (case gw_delegations g c of
          None \<Rightarrow> (g, None)
        | Some m \<Rightarrow>
            (let (s, n) = fold (withdraw_one t) ids (mr_store m, 0);
                 g1 = set_mirror c (m \<lparr> mr_store := s \<rparr>) g in
             if n = 0 then (g1, None)
             else (fst (persist_delegation_store io c g1),
                   Some (withdrawn_signal c t err v host turn)))))"

text \<open>The queue files a stopped child leaves: the parked lines and the lines in flight by execution
  turn, ccteam's own queue by request.\<close>

record retained_lines =
  rt_parked :: "turn_id set"
  rt_in_flight :: "turn_id set"
  rt_pending :: "req_id set"
  rt_unattributed :: nat

datatype queue_file = PendingTurnsFile | DeferredInputFile

definition holding :: "retained_lines \<Rightarrow> request \<Rightarrow> queue_file option" where
  "holding held r =
     (if rq_id r \<in> rt_pending held then Some PendingTurnsFile
      else (case rq_turn_id r of
          None \<Rightarrow> None
        | Some t \<Rightarrow> if t \<in> rt_parked held \<or> t \<in> rt_in_flight held then Some DeferredInputFile else None))"

definition was_written :: "retained_lines \<Rightarrow> request \<Rightarrow> bool" where
  "was_written held r =
     (if rq_id r \<in> rt_pending held then False
      else if rq_state r = Accepted \<or> rq_state r = Queued then
        (case rq_turn_id r of None \<Rightarrow> False | Some t \<Rightarrow> t \<in> rt_in_flight held)
      else True)"

text \<open>The four fates of an outstanding request of a stopped child. The turn a stop cut is matched
  only when the request has one.\<close>

definition settle_stopped_request :: "retained_lines \<Rightarrow> turn_id option \<Rightarrow> request \<Rightarrow> request" where
  "settle_stopped_request held cut_turn r =
     (if is_terminal (rq_state r) then r
      else
        (let turn = (case rq_turn_id r of Some t \<Rightarrow> t | None \<Rightarrow> []) in
         if turn \<noteq> [] \<and> cut_turn = Some turn
         then r \<lparr> rq_state := Interrupted, rq_queue_position := None \<rparr>
         else if holding held r = None
         then r \<lparr> rq_state := (if was_written held r then Interrupted else Undelivered),
                 rq_queue_position := None \<rparr>
         else r))"

text \<open>The mirror changes at once; the write is handed back as the settlement to discharge.\<close>

definition settle_stopped_requests ::
  "sid \<Rightarrow> retained_lines \<Rightarrow> turn_id option \<Rightarrow> gateway \<Rightarrow> gateway \<times> (utext \<times> store) option" where
  "settle_stopped_requests c held cut_turn g = (case gw_delegations g c of
       None \<Rightarrow> (g, None)
     | Some m \<Rightarrow>
         (let s = (mr_store m) \<lparr> st_requests :=
                map (settle_stopped_request held cut_turn) (st_requests (mr_store m)) \<rparr> in
          (set_mirror c (m \<lparr> mr_store := s \<rparr>) g, Some (mr_dir m, s))))"

definition persist_settlement :: "fs_outcome \<Rightarrow> sid \<Rightarrow> (utext \<times> store) option \<Rightarrow> gateway \<Rightarrow> gateway \<times> bool" where
  "persist_settlement io c settlement g = (case settlement of
       None \<Rightarrow> (g, True)
     | Some (dir, s) \<Rightarrow> store_write io dir c s g)"

text \<open>\<^verbatim>\<open>stop_session_shared\<close>: the claim is held from the settling to its write.\<close>

definition stop_shared :: "fs_outcome \<Rightarrow> sid \<Rightarrow> retained_lines \<Rightarrow> turn_id option \<Rightarrow> gateway \<Rightarrow> gateway" where
  "stop_shared io c held cut_turn g =
     (let (g1, settlement) = settle_stopped_requests c held cut_turn g in
      fst (persist_settlement io c settlement g1))"

end
