(* ===== verification/Delegation_Restart.thy ===== *)
theory Delegation_Restart
  imports Delegation_Delivery
begin

text \<open>
  What a new daemon life, or the release of a child, does with the records on disk
  (\<^verbatim>\<open>repair_continuation_bindings\<close>, \<^verbatim>\<open>stranded_boundary_signals\<close>, the release path and
  \<^verbatim>\<open>reconcile_delegations\<close> of \<^verbatim>\<open>ccteam-im/src/gateway.rs\<close>): the binding of each outstanding
  request is rebuilt from the transcript, and each turn that answers one becomes one signal.
\<close>

section \<open>Repairing bindings from the transcript\<close>

text \<open>The set of turns recorded as continuing a turn (a duplicate-free list).\<close>

definition successor_of :: "turn_id \<Rightarrow> turn_record \<Rightarrow> turn_id option" where
  "successor_of src row = (case (tr_continues row, tr_exec row) of
       (Some f, Some t) \<Rightarrow> if f \<noteq> t \<and> f = src then Some t else None
     | _ \<Rightarrow> None)"

definition successors :: "turn_record list \<Rightarrow> turn_id \<Rightarrow> turn_id list" where
  "successors rows src = remdups (List.map_filter (successor_of src) rows)"

definition recorded_turns :: "turn_record list \<Rightarrow> turn_id set" where
  "recorded_turns rows = set (List.map_filter tr_exec rows)"

lemma successor_of_Some:
  "successor_of src row = Some t \<longleftrightarrow> tr_continues row = Some src \<and> tr_exec row = Some t \<and> src \<noteq> t"
  by (cases "tr_continues row"; cases "tr_exec row") (auto simp: successor_of_def)

lemma set_successors:
  "t \<in> set (successors rows src) \<longleftrightarrow>
     (\<exists>row \<in> set rows. tr_continues row = Some src \<and> tr_exec row = Some t \<and> src \<noteq> t)"
  unfolding successors_def by (simp add: mem_map_filter successor_of_Some)

lemma successors_recorded: "t \<in> set (successors rows src) \<Longrightarrow> t \<in> recorded_turns rows"
  unfolding recorded_turns_def by (auto simp: set_successors mem_map_filter)

datatype chain_end =
    ChainHead turn_id
  | ChainFork turn_id nat
  | ChainLoop turn_id

function walk_chain :: "turn_record list \<Rightarrow> turn_id list \<Rightarrow> turn_id \<Rightarrow> chain_end" where
  "walk_chain rows walked head =
     (case successors rows head of
        [] \<Rightarrow> ChainHead head
      | [nxt] \<Rightarrow> if nxt \<in> set walked then ChainLoop nxt else walk_chain rows (nxt # walked) nxt
      | many \<Rightarrow> ChainFork head (length many))"
  by pat_completeness auto

termination
proof (relation "measure (\<lambda>(rows, walked, _). card (recorded_turns rows - set walked))", goal_cases)
  case (2 rows walked head nxt l)
  have "nxt \<in> recorded_turns rows"
    using 2 by (intro successors_recorded [of nxt rows head]) simp
  then have "recorded_turns rows - set (nxt # walked) \<subset> recorded_turns rows - set walked"
    using 2 by auto
  then show ?case
    by (simp add: recorded_turns_def psubset_card_mono)
qed simp

declare walk_chain.simps [simp del]

definition fork_text :: "turn_id \<Rightarrow> nat \<Rightarrow> utext" where
  "fork_text head n = dec n @ lit '' recorded turns continue '' @ head
     @ lit ''; this daemon cannot say which one answers''"

definition loop_text :: "turn_id \<Rightarrow> turn_id \<Rightarrow> utext" where
  "loop_text bound nxt = lit ''the recorded turn chain from '' @ bound @ lit '' loops at '' @ nxt"

definition repair_request :: "turn_record list \<Rightarrow> request \<Rightarrow> request" where
  "repair_request rows r =
     (if is_terminal (rq_state r) then r
      else (case rq_turn_id r of
          None \<Rightarrow> r
        | Some bound \<Rightarrow>
            (case walk_chain rows [bound] bound of
               ChainFork head n \<Rightarrow> r \<lparr> rq_bind_error := Some (fork_text head n) \<rparr>
             | ChainLoop nxt \<Rightarrow> r \<lparr> rq_bind_error := Some (loop_text bound nxt) \<rparr>
             | ChainHead head \<Rightarrow> if head \<noteq> bound then r \<lparr> rq_turn_id := Some head \<rparr> else r)))"

definition repair_continuation_bindings :: "turn_record list \<Rightarrow> store \<Rightarrow> store" where
  "repair_continuation_bindings rows s =
     s \<lparr> st_requests := map (repair_request rows) (st_requests s) \<rparr>"

section \<open>Turns that answer an outstanding request\<close>

definition missed_turn :: "store \<Rightarrow> turn_record \<Rightarrow> bool" where
  "missed_turn s t \<longleftrightarrow> tr_outcome t \<noteq> Some (lit ''interrupted'')
     \<and> (tr_assistant t \<noteq> [] \<or> tr_status t \<noteq> None)
     \<and> \<not> list_ex (\<lambda>n. n = tr_turn_id t) (st_notified s)"

definition bound_turns :: "store \<Rightarrow> turn_id list" where
  "bound_turns s = List.map_filter rq_turn_id (filter (\<lambda>r. rq_bind_error r = None) (outstanding s))"

text \<open>Appending a row to its group, groups in order of first appearance.\<close>

fun add_to_group :: "turn_id \<Rightarrow> turn_record \<Rightarrow> (turn_id \<times> turn_record list) list
    \<Rightarrow> (turn_id \<times> turn_record list) list" where
  "add_to_group e t [] = [(e, [t])]"
| "add_to_group e t ((i, rows) # gs) =
     (if i = e then (i, rows @ [t]) # gs else (i, rows) # add_to_group e t gs)"

definition group_step :: "turn_id list \<Rightarrow> turn_record \<Rightarrow> (turn_id \<times> turn_record list) list
    \<Rightarrow> (turn_id \<times> turn_record list) list" where
  "group_step bound t gs = (case tr_exec t of
       Some e \<Rightarrow> if e \<in> set bound then add_to_group e t gs else gs
     | None \<Rightarrow> gs)"

definition turn_groups :: "turn_id list \<Rightarrow> turn_record list \<Rightarrow> (turn_id \<times> turn_record list) list" where
  "turn_groups bound rows = fold (group_step bound) rows []"

definition group_signal ::
  "sid \<Rightarrow> turn_record list \<Rightarrow> vendor \<Rightarrow> utext \<Rightarrow> turn_id \<times> turn_record list \<Rightarrow> signal" where
  "group_signal c all v host grp =
     (let e = fst grp; rows = snd grp;
          lst = last rows; answer = turn_answer_record all lst in
      \<lparr> sg_child = c, sg_turn_id = tr_turn_id lst, sg_exec = Some e, sg_tail = tr_assistant answer,
        sg_conclusion = tr_conclusion answer, sg_vendor = v, sg_host = host, sg_boundary = True,
        sg_continuation = Settled,
        sg_vendor_error = (tr_outcome lst = Some (lit ''failed'') \<or> tr_error_kind lst \<noteq> None
           \<or> tr_error lst \<noteq> None),
        sg_interim_notes = length rows - 1, sg_covered = map tr_turn_id rows,
        sg_context_pct = context_pct (tr_status answer),
        sg_turn = (case tr_status answer of Some st \<Rightarrow> ts_turn st | None \<Rightarrow> 0),
        sg_error_kind = tr_error_kind lst \<rparr>)"

definition stranded_boundary_signals ::
  "sid \<Rightarrow> store \<Rightarrow> turn_record list \<Rightarrow> vendor \<Rightarrow> utext \<Rightarrow> signal list" where
  "stranded_boundary_signals c s all v host =
     map (group_signal c all v host) (turn_groups (bound_turns s) (filter (missed_turn s) all))"

section \<open>Release and restart\<close>

text \<open>\<^verbatim>\<open>settle_stranded_delegations_shared\<close>: the mirror as the release leaves it, and the signals
  it delivers next. \<^verbatim>\<open>later\<close> is the mirror table when the claim is taken, which may have changed
  since the first lock.\<close>

definition stranded_first_lock :: "sid \<Rightarrow> gateway \<Rightarrow> gateway \<times> bool" where
  "stranded_first_lock c g = (case gw_delegations g c of
       None \<Rightarrow> (g, False)
     | Some m \<Rightarrow>
         (set_mirror c (m \<lparr> mr_provisional := (\<lambda>_. None) \<rparr>) g, outstanding_count m \<noteq> 0))"

definition stranded_second_lock ::
  "sid \<Rightarrow> turn_record list \<Rightarrow> vendor \<Rightarrow> utext \<Rightarrow> gateway \<Rightarrow> gateway \<times> signal list" where
  "stranded_second_lock c all v host g = (case gw_delegations g c of
       None \<Rightarrow> (g, [])
     | Some m \<Rightarrow>
         (let s = repair_continuation_bindings all (mr_store m) in
          (set_mirror c (m \<lparr> mr_store := s \<rparr>) g, stranded_boundary_signals c s all v host)))"

text \<open>What a restart finds outside the records: the projects, the chat directories of each, and
  for each child its transcript and the vendor and host of its metadata.\<close>

record restart_env =
  re_projects :: "(utext \<times> utext) list"
  re_children :: "utext \<Rightarrow> utext option list option"
  re_rows :: "utext \<Rightarrow> sid \<Rightarrow> turn_record list"
  re_meta :: "utext \<Rightarrow> sid \<Rightarrow> (vendor \<times> utext) option"

definition scan_project :: "restart_env \<Rightarrow> utext \<Rightarrow> gateway \<Rightarrow> (sid \<times> store) list" where
  "scan_project env dir g = scan_delegation_requests (map_option
     (map (\<lambda>name. (name, case name of Some c \<Rightarrow> gw_disk g (dir, c) | None \<Rightarrow> NoFile)))
     (re_children env dir))"

definition restart_entry ::
  "restart_env \<Rightarrow> utext \<Rightarrow> utext \<Rightarrow> sid \<times> store \<Rightarrow> (sid \<times> mirror) \<times> signal list" where
  "restart_entry env slug dir cs =
     (let c = fst cs;
          (v, host) = (case re_meta env dir c of Some vh \<Rightarrow> vh | None \<Rightarrow> (Claude, lit ''local''));
          all = re_rows env dir c;
          s = repair_continuation_bindings all (snd cs) in
      ((c, fresh_mirror 0 slug dir s), stranded_boundary_signals c s all v host))"

definition restart_seeds :: "restart_env \<Rightarrow> gateway \<Rightarrow> ((sid \<times> mirror) \<times> signal list) list" where
  "restart_seeds env g = concat (map
     (\<lambda>(slug, dir). map (restart_entry env slug dir) (scan_project env dir g)) (re_projects env))"

text \<open>\<^verbatim>\<open>entry(child).or_insert(mirror)\<close>: a live entry is never clobbered.\<close>

definition seed_mirror :: "sid \<times> mirror \<Rightarrow> gateway \<Rightarrow> gateway" where
  "seed_mirror cm g =
     (let g1 = g \<lparr> gw_watch := insert (fst cm) (gw_watch g) \<rparr> in
      case gw_delegations g1 (fst cm) of
        Some _ \<Rightarrow> g1
      | None \<Rightarrow> set_mirror (fst cm) (snd cm) g1)"

definition reconcile_seed :: "restart_env \<Rightarrow> gateway \<Rightarrow> gateway \<times> signal list" where
  "reconcile_seed env g =
     (let seeds = restart_seeds env g in
      (fold seed_mirror (map fst seeds) g, concat (map snd seeds)))"

definition reconcile_delegations :: "restart_env \<Rightarrow> (nat \<Rightarrow> delivery_env) \<Rightarrow> gateway \<Rightarrow> gateway" where
  "reconcile_delegations env denv g =
     (let (g1, pending) = reconcile_seed env g in
      fold (\<lambda>(n, sg) g. deliver_delegation_signal (denv n) sg g) (enumerate 0 pending) g1)"

text \<open>A daemon that dies keeps its disk and nothing else.\<close>

definition crash :: "gateway \<Rightarrow> gateway" where
  "crash g = g \<lparr> gw_delegations := (\<lambda>_. None), gw_watch := {} \<rparr>"

end
