(* ===== verification/Delegation_System.thy ===== *)
theory Delegation_System
  imports Delegation_Restart
begin

text \<open>
  The delegation operations composed into one system: a step relation that interleaves dispatches,
  bindings, turn pulses, waits, stops, releases, the three stretches of every delivery in
  flight, crashes and restarts, with every file-system call free to fail. Its invariants say
  that the records stay well formed and that a claimed boundary is never forgotten.
\<close>

section \<open>The step relation\<close>

record system =
  sy_gw :: gateway
  sy_claimed :: "delivery_plan list"
  sy_told :: "(delivery_plan \<times> req_id list) list"

definition plan_child :: "delivery_plan \<Rightarrow> sid" where
  "plan_child p = sg_child (pl_signal p)"

definition in_flight :: "system \<Rightarrow> delivery_plan list" where
  "in_flight sy = sy_claimed sy @ map fst (sy_told sy)"

text \<open>A child lives in one project for its whole life: \<^verbatim>\<open>project c\<close> is its directory and slug.\<close>

inductive step :: "(sid \<Rightarrow> utext \<times> utext) \<Rightarrow> system \<Rightarrow> system \<Rightarrow> bool" for project where
  accept: "ae_resolved env = None \<or> ae_resolved env = Some (project c) \<Longrightarrow>
    \<forall>s. read_delegation_requests (gw_disk (sy_gw sy) (fst (project c), c)) = Some s
      \<longrightarrow> rid \<notin> rq_id ` set (st_requests s) \<Longrightarrow>
    step project sy (sy \<lparr> sy_gw := fst (accept_delegation_request env c
      (request_accepted rid now p mode title routing idem) (sy_gw sy)) \<rparr>)"
| bind: "case rc_queue_position rc of None \<Rightarrow> True | Some n \<Rightarrow> n < 2 ^ 64 \<Longrightarrow>
    step project sy (sy \<lparr> sy_gw := fst (bind_delegation_request io failure c i rc (sy_gw sy)) \<rparr>)"
| drop: "step project sy (sy \<lparr> sy_gw := drop_delegation_request io c i (sy_gw sy) \<rparr>)"
| claim_wait: "step project sy (sy \<lparr> sy_gw := fst (claim_request_wait t c i secs (sy_gw sy)) \<rparr>)"
| release_wait: "step project sy (sy \<lparr> sy_gw := fst (release_request_wait c i (sy_gw sy)) \<rparr>)"
| claim_read: "step project sy (sy \<lparr> sy_gw := fst (claim_read_wait t c p secs (sy_gw sy)) \<rparr>)"
| release_read: "step project sy (sy \<lparr> sy_gw := fst (release_read_wait c p (sy_gw sy)) \<rparr>)"
| opened: "step project sy (sy \<lparr> sy_gw := handle_turn_opened io c tid continues (sy_gw sy) \<rparr>)"
| held: "step project sy (sy \<lparr> sy_gw := fst (deliver_held_boundary io clock sg (sy_gw sy)) \<rparr>)"
| grace: "step project sy (sy \<lparr> sy_gw := fst (settle_provisional_boundary c tid (sy_gw sy)) \<rparr>)"
| claim: "claim_boundary t io io' sg (sy_gw sy) = (g', planned) \<Longrightarrow>
    step project sy (sy \<lparr> sy_gw := g', sy_claimed := sy_claimed sy
      @ (case planned of Some p \<Rightarrow> [p] | None \<Rightarrow> []) \<rparr>)"
| tell: "sy_claimed sy = ps @ p # qs \<Longrightarrow> notify_parents sub p (sy_gw sy) = (g', failed) \<Longrightarrow>
    step project sy (sy \<lparr> sy_gw := g', sy_claimed := ps @ qs,
      sy_told := sy_told sy @ [(p, failed)] \<rparr>)"
| commit: "sy_told sy = ps @ (p, failed) # qs \<Longrightarrow>
    step project sy (sy \<lparr> sy_gw := commit_delivery io p failed (sy_gw sy), sy_told := ps @ qs \<rparr>)"
| withdraw: "step project sy (sy \<lparr> sy_gw :=
    fst (answer_withdrawn_requests io c tid ids err v host n (sy_gw sy)) \<rparr>)"
| stop: "step project sy (sy \<lparr> sy_gw := stop_shared io c kept cut_turn (sy_gw sy) \<rparr>)"
| stranded1: "step project sy (sy \<lparr> sy_gw := fst (stranded_first_lock c (sy_gw sy)) \<rparr>)"
| stranded2: "step project sy (sy \<lparr> sy_gw := fst (stranded_second_lock c all v host (sy_gw sy)) \<rparr>)"
| die: "step project sy (sy \<lparr> sy_gw := crash (sy_gw sy), sy_claimed := [], sy_told := [] \<rparr>)"
| reconcile: "\<forall>(slug, dir) \<in> set (re_projects env). \<forall>names c. re_children env dir = Some names
      \<longrightarrow> Some c \<in> set names \<longrightarrow> project c = (dir, slug) \<Longrightarrow>
    step project sy (sy \<lparr> sy_gw := fst (reconcile_seed env (sy_gw sy)) \<rparr>)"

text \<open>The daemon starts with an empty mirror over a disk whose readable records are well formed.\<close>

definition initial :: "system \<Rightarrow> bool" where
  "initial sy \<longleftrightarrow> gw_delegations (sy_gw sy) = (\<lambda>_. None) \<and> sy_claimed sy = [] \<and> sy_told sy = []
     \<and> (\<forall>dc s. read_delegation_requests (gw_disk (sy_gw sy) dc) = Some s \<longrightarrow> store_wf s)"

inductive reachable :: "(sid \<Rightarrow> utext \<times> utext) \<Rightarrow> system \<Rightarrow> bool" for project where
  start: "initial sy \<Longrightarrow> reachable project sy"
| next_step: "reachable project sy \<Longrightarrow> step project sy sy' \<Longrightarrow> reachable project sy'"

section \<open>The invariant of one child\<close>

text \<open>\<^verbatim>\<open>K\<close> holds the generation and key of each delivery in flight.\<close>

definition mirror_ok :: "utext \<Rightarrow> (nat \<times> turn_id) set \<Rightarrow> mirror \<Rightarrow> bool" where
  "mirror_ok dir K m \<longleftrightarrow> store_wf (mr_store m) \<and> mr_dir m = dir
     \<and> (\<forall>(gen, k) \<in> K. gen = mr_generation m \<and> k \<in> mr_delivering_now m
          \<and> k \<in> claimed_keys (mr_store m))"

definition file_ok :: "(nat \<times> turn_id) set \<Rightarrow> disk_file \<Rightarrow> bool" where
  "file_ok K f \<longleftrightarrow> (\<forall>s. read_delegation_requests f = Some s \<longrightarrow> store_wf s)
     \<and> (\<forall>(gen, k) \<in> K. \<exists>s. read_delegation_requests f = Some s \<and> k \<in> claimed_keys s)"

definition gw_ok :: "(sid \<Rightarrow> utext \<times> utext) \<Rightarrow> (sid \<Rightarrow> (nat \<times> turn_id) set) \<Rightarrow> gateway \<Rightarrow> bool" where
  "gw_ok project K g \<longleftrightarrow> (\<forall>c. file_ok (K c) (gw_disk g (fst (project c), c))
     \<and> (case gw_delegations g c of None \<Rightarrow> K c = {} | Some m \<Rightarrow> mirror_ok (fst (project c)) (K c) m))"

definition keys_in_flight :: "delivery_plan list \<Rightarrow> sid \<Rightarrow> (nat \<times> turn_id) set" where
  "keys_in_flight ps c = (\<lambda>p. (pl_generation p, pl_key p)) ` {p \<in> set ps. plan_child p = c}"

definition plan_ident :: "delivery_plan \<Rightarrow> sid \<times> turn_id" where
  "plan_ident p = (plan_child p, pl_key p)"

definition sys_ok :: "(sid \<Rightarrow> utext \<times> utext) \<Rightarrow> system \<Rightarrow> bool" where
  "sys_ok project sy \<longleftrightarrow> gw_ok project (keys_in_flight (in_flight sy)) (sy_gw sy)
     \<and> distinct (map plan_ident (in_flight sy))"

subsection \<open>Building blocks\<close>

lemma gw_okD:
  assumes "gw_ok project K g" "gw_delegations g c = Some m"
  shows "mirror_ok (fst (project c)) (K c) m"
  using assms unfolding gw_ok_def by (metis option.simps(5))

lemma gw_ok_file: "gw_ok project K g \<Longrightarrow> file_ok (K c) (gw_disk g (fst (project c), c))"
  by (simp add: gw_ok_def)

lemma gw_ok_none: "gw_ok project K g \<Longrightarrow> gw_delegations g c = None \<Longrightarrow> K c = {}"
  unfolding gw_ok_def by (metis option.simps(4))

lemma gw_ok_same:
  "gw_ok project K g \<Longrightarrow> gw_delegations g' = gw_delegations g \<Longrightarrow> gw_disk g' = gw_disk g
     \<Longrightarrow> gw_ok project K g'"
  by (simp add: gw_ok_def)

lemma gw_ok_mono:
  "gw_ok project K g \<Longrightarrow> (\<And>c. K' c \<subseteq> K c) \<Longrightarrow> gw_ok project K' g"
  unfolding gw_ok_def file_ok_def mirror_ok_def by (fastforce split: option.splits)

lemma gw_ok_set_mirror:
  "gw_ok project K g \<Longrightarrow> mirror_ok (fst (project c)) (K c) m \<Longrightarrow> gw_ok project K (set_mirror c m g)"
  unfolding gw_ok_def set_mirror_def by simp

text \<open>A mirror whose store changed and whose identity and claims did not.\<close>

lemma mirror_ok_update:
  assumes "mirror_ok dir K m" "store_wf (mr_store m')" "mr_dir m' = mr_dir m"
    "mr_generation m' = mr_generation m" "mr_delivering_now m' = mr_delivering_now m"
    "claimed_keys (mr_store m') = claimed_keys (mr_store m)"
  shows "mirror_ok dir K m'"
  using assms by (simp add: mirror_ok_def)

lemma mirror_ok_wf: "mirror_ok dir K m \<Longrightarrow> store_wf (mr_store m)"
  by (simp add: mirror_ok_def)

lemma file_ok_NoFile: "file_ok {} NoFile"
  by (simp add: file_ok_def)

lemma file_ok_write:
  assumes "store_wf s" "\<forall>(gen, k) \<in> K. k \<in> claimed_keys s"
  shows "file_ok K (JsonFile (store_to_json s))"
  using assms by (auto simp: file_ok_def read_back store_wf_forget)

lemma claimed_keys_empty: "store_is_empty s \<Longrightarrow> claimed_keys s = {}"
  by (simp add: store_is_empty_def claimed_keys_def)

lemma persist_file_ok:
  assumes "persist_delegation_requests io s f = (f', ok)" "file_ok K f" "store_wf s"
    "\<forall>(gen, k) \<in> K. k \<in> claimed_keys s"
  shows "file_ok K f'"
proof -
  have "K = {}" if "store_is_empty s"
    using assms(4) claimed_keys_empty [OF that] by fast
  then show ?thesis
    using persist_cases [OF assms(1)] assms(2-4) file_ok_write file_ok_NoFile
    by (cases ok) (auto split: if_splits)
qed

lemma gw_ok_set_file:
  "gw_ok project K g \<Longrightarrow> file_ok (K c) f \<Longrightarrow> gw_ok project K (set_file (fst (project c)) c f g)"
  unfolding gw_ok_def set_file_def by auto

lemma gw_ok_write:
  assumes "gw_ok project K g" "store_wf s" "\<forall>(gen, k) \<in> K c. k \<in> claimed_keys s"
  shows "gw_ok project K (fst (store_write io (fst (project c)) c s g))"
proof -
  obtain f ok where p: "persist_delegation_requests io s (gw_disk g (fst (project c), c)) = (f, ok)"
    by fastforce
  have "file_ok (K c) f" by (rule persist_file_ok [OF p gw_ok_file [OF assms(1)] assms(2,3)])
  then show ?thesis using assms(1) p by (simp add: store_write_def gw_ok_set_file)
qed

lemma gw_ok_persist:
  assumes "gw_ok project K g"
  shows "gw_ok project K (fst (persist_delegation_store io c g))"
proof (cases "gw_delegations g c")
  case (Some m)
  then have m: "mirror_ok (fst (project c)) (K c) m" using gw_okD assms by blast
  then show ?thesis
    using Some gw_ok_write [OF assms, of "mr_store m" c io]
    by (auto simp: persist_delegation_store_def mirror_ok_def)
qed (simp add: persist_delegation_store_def assms)

lemma gw_ok_update_mirror:
  assumes "gw_ok project K g" "gw_delegations g c = Some m" "store_wf (mr_store m')"
    "mr_dir m' = mr_dir m" "mr_generation m' = mr_generation m"
    "mr_delivering_now m' = mr_delivering_now m"
    "claimed_keys (mr_store m') = claimed_keys (mr_store m)"
  shows "gw_ok project K (set_mirror c m' g)"
  by (rule gw_ok_set_mirror [OF assms(1)], rule mirror_ok_update [OF gw_okD [OF assms(1,2)]])
    (use assms(3-) in simp_all)

lemma gw_ok_remove:
  assumes "gw_ok project K g" "K c = {}"
  shows "gw_ok project K (store_remove io (fst (project c)) c g)"
proof -
  have "file_ok (K c) (delete_delegation_requests io (gw_disk g (fst (project c), c)))"
    using gw_ok_file [OF assms(1), of c] assms(2)
    by (auto simp: delete_delegation_requests_def remove_file_def file_ok_def)
  then show ?thesis using assms(1) by (simp add: store_remove_def gw_ok_set_file)
qed

subsection \<open>Accepting, binding, dropping\<close>

lemma gw_ok_restore:
  assumes "gw_ok project K g1" "old = None \<Longrightarrow> K c = {}"
    "\<And>s. old = Some s \<Longrightarrow> store_wf s \<and> (\<forall>(gen, k) \<in> K c. k \<in> claimed_keys s)"
  shows "gw_ok project K (restore_delegation_store io (fst (project c)) c old g1)"
proof (cases old)
  case (Some s)
  then show ?thesis
    unfolding restore_delegation_store_def Some option.case
    using assms(1) assms(3) [OF Some] by (intro gw_ok_write) auto
next
  case None
  then show ?thesis
    unfolding restore_delegation_store_def None option.case
    using assms(1,2) None by (intro gw_ok_remove) auto
qed

lemma gw_ok_watch:
  "gw_ok project K g \<Longrightarrow> gw_ok project K (g \<lparr> gw_watch := w \<rparr>)"
  by (rule gw_ok_same) simp_all

lemma gw_ok_install:
  assumes "gw_ok project K g" "project c = (dir, slug)" "store_wf s"
    "\<forall>(gen, k) \<in> K c. k \<in> claimed_keys s"
  shows "gw_ok project K (install_store c dir slug s g)"
proof (cases "gw_delegations g c")
  case None
  obtain g0 gen where nx: "next_live_generation g = (g0, gen)" by fastforce
  have "gw_ok project K g0"
    using assms(1) by (rule gw_ok_same) (use nx in \<open>auto simp: next_live_generation_def Let_def\<close>)
  moreover have "gw_delegations g0 c = None"
    using nx None by (auto simp: next_live_generation_def Let_def)
  moreover have "mirror_ok (fst (project c)) (K c) (fresh_mirror gen slug dir default_store \<lparr> mr_store := s \<rparr>)"
    using assms(2,3) gw_ok_none [OF assms(1) None] by (simp add: mirror_ok_def fresh_mirror_def)
  ultimately show ?thesis
    using None nx unfolding install_store_def by (simp add: gw_ok_watch gw_ok_set_mirror)
next
  case (Some m)
  have "mirror_ok (fst (project c)) (K c) (m \<lparr> mr_store := s \<rparr>)"
    using gw_okD [OF assms(1) Some] assms(3,4) by (auto simp: mirror_ok_def)
  then show ?thesis
    using Some assms(1) unfolding install_store_def by (simp add: gw_ok_watch gw_ok_set_mirror)
qed

lemma gw_ok_accept:
  assumes ok: "gw_ok project K g"
    and res: "ae_resolved env = None \<or> ae_resolved env = Some (project c)"
    and fresh: "\<forall>s. read_delegation_requests (gw_disk g (fst (project c), c)) = Some s
      \<longrightarrow> rq_id r \<notin> rq_id ` set (st_requests s)"
    and r: "request_ok r"
  shows "gw_ok project K (fst (accept_delegation_request env c r g))"
proof (cases "ae_lock1 env \<and> ae_resolved env \<noteq> None")
  case False
  then show ?thesis
    using ok by (cases "ae_resolved env") (auto simp: accept_delegation_request_def)
next
  case True
  obtain dir slug where p: "project c = (dir, slug)" by fastforce
  let ?old = "read_delegation_requests (gw_disk g (dir, c))"
  let ?s = "accept r (case ?old of Some s \<Rightarrow> s | None \<Rightarrow> default_store)"
  have f: "file_ok (K c) (gw_disk g (dir, c))" using gw_ok_file [OF ok, of c] p by simp
  have old_wf: "store_wf s" if "?old = Some s" for s using f that by (simp add: file_ok_def)
  have old_keys: "\<forall>(gen, k) \<in> K c. k \<in> claimed_keys s" if "?old = Some s" for s
    using f that by (fastforce simp: file_ok_def)
  have old_none: "K c = {}" if "?old = None" using f that by (auto simp: file_ok_def)
  have s_wf: "store_wf ?s"
    using fresh p r old_wf by (cases ?old) (auto intro!: store_wf_accept store_wf_default)
  have s_keys: "\<forall>(gen, k) \<in> K c. k \<in> claimed_keys ?s"
    using old_keys old_none by (cases ?old) auto
  obtain g1 ok1 where w: "store_write (ae_io env) dir c ?s g = (g1, ok1)" by fastforce
  have g1: "gw_ok project K g1"
    using gw_ok_write [OF ok s_wf s_keys, of "ae_io env"] w p by simp
  have res: "gw_ok project K (restore_delegation_store io dir c ?old g1)" for io
    using gw_ok_restore [OF g1, of ?old c io] p old_wf old_keys old_none by auto
  show ?thesis
    using True assms(2) p w g1 res gw_ok_install [OF g1 p s_wf s_keys]
    by (auto simp: accept_delegation_request_def Let_def)
qed

lemma bind_request_ok:
  "case rc_queue_position rc of None \<Rightarrow> True | Some n \<Rightarrow> n < 2 ^ 64 \<Longrightarrow>
   request_ok r \<Longrightarrow> request_ok (bind_request rc r)"
  by (simp add: request_ok_def bind_request_def)

lemma gw_ok_bind:
  assumes ok: "gw_ok project K g"
    and rc: "case rc_queue_position rc of None \<Rightarrow> True | Some n \<Rightarrow> n < 2 ^ 64"
  shows "gw_ok project K (fst (bind_delegation_request io failure c i rc g))"
proof (cases "gw_delegations g c")
  case (Some m)
  let ?m1 = "m \<lparr> mr_store := update_request i (bind_request rc) (mr_store m) \<rparr>"
  let ?m2 = "?m1 \<lparr> mr_store :=
    update_request i (rq_bind_error_update (\<lambda>_. Some failure)) (mr_store ?m1) \<rparr>"
  have wf: "store_wf (mr_store m)" using gw_okD [OF ok Some] by (rule mirror_ok_wf)
  have wf1: "store_wf (mr_store ?m1)"
    using wf rc by (auto intro!: store_wf_update_request bind_request_ok simp: bind_request_def request_ok_def)
  have wf2: "store_wf (mr_store ?m2)"
    using wf1 by (auto intro!: store_wf_update_request simp: request_ok_def)
  have g1: "gw_ok project K (set_mirror c ?m1 g)"
    by (rule gw_ok_update_mirror [OF ok Some]) (use wf1 in simp_all)
  obtain g2 ok2 where p: "persist_delegation_store io c (set_mirror c ?m1 g) = (g2, ok2)" by fastforce
  have g2: "gw_ok project K g2" using gw_ok_persist [OF g1, of io c] p by simp
  have "gw_delegations g2 c = Some ?m1"
    using p by (auto simp: persist_delegation_store_def store_write_def set_file_def set_mirror_def
        split: option.splits prod.splits)
  then have "gw_ok project K (set_mirror c ?m2 g2)"
    by (rule gw_ok_update_mirror [OF g2]) (use wf2 in simp_all)
  then show ?thesis
    using Some ok g2 p by (auto simp: bind_delegation_request_def Let_def split: option.splits)
qed (simp add: bind_delegation_request_def ok)

lemma gw_ok_drop:
  assumes ok: "gw_ok project K g"
  shows "gw_ok project K (drop_delegation_request io c i g)"
proof (cases "gw_delegations g c")
  case (Some m)
  have m: "mirror_ok (fst (project c)) (K c) m" using gw_okD ok Some by blast
  define s where "s = mr_store m \<lparr> st_requests := filter (\<lambda>r. rq_id r \<noteq> i) (st_requests (mr_store m)) \<rparr>"
  define m1 where "m1 = m \<lparr> mr_store := s, mr_request_waits := (mr_request_waits m)(i := None),
                      mr_suppressed := mr_suppressed m - {i} \<rparr>"
  have keys: "claimed_keys s = claimed_keys (mr_store m)" by (simp add: s_def)
  have drop: "drop_delegation_request io c i g =
      (if store_is_empty s then store_remove io (mr_dir m) c
          (g \<lparr> gw_delegations := (gw_delegations g)(c := None), gw_watch := gw_watch g - {c} \<rparr>)
       else fst (persist_delegation_store io c (set_mirror c m1 g)))"
    using Some by (simp add: drop_delegation_request_def Let_def s_def m1_def)
  show ?thesis
  proof (cases "store_is_empty s")
    case True
    then have K: "K c = {}" using m keys claimed_keys_empty by (fastforce simp: mirror_ok_def)
    have "gw_ok project K (g \<lparr> gw_delegations := (gw_delegations g)(c := None), gw_watch := gw_watch g - {c} \<rparr>)"
      using ok K by (simp add: gw_ok_def)
    then show ?thesis
      using True drop m K gw_ok_remove by (auto simp: mirror_ok_def)
  next
    case False
    have "gw_ok project K (set_mirror c m1 g)"
      by (rule gw_ok_update_mirror [OF ok Some])
        (use m in \<open>auto simp: m1_def s_def mirror_ok_def intro: store_wf_filter\<close>)
    then show ?thesis using False drop gw_ok_persist by simp
  qed
qed (simp add: drop_delegation_request_def ok)

subsection \<open>Waits, openings and held boundaries\<close>

lemma gw_ok_waits:
  assumes "gw_ok project K g"
  shows "gw_ok project K (fst (claim_request_wait now c i secs g))"
    and "gw_ok project K (fst (release_request_wait c i g))"
    and "gw_ok project K (fst (claim_read_wait now c p secs g))"
    and "gw_ok project K (fst (release_read_wait c p g))"
    and "gw_ok project K (fst (settle_provisional_boundary c t g))"
    and "gw_ok project K (fst (stranded_first_lock c g))"
    and "gw_ok project K (clear_provisional c t g)"
  using assms mirror_ok_wf [OF gw_okD [OF assms]]
  by (auto simp: claim_request_wait_def release_request_wait_def claim_read_wait_def
      release_read_wait_def settle_provisional_boundary_def stranded_first_lock_def
      clear_provisional_def Let_def split: option.splits intro!: gw_ok_update_mirror)

lemma gw_ok_map_requests:
  assumes "gw_ok project K g" "gw_delegations g c = Some m"
    "\<And>r. rq_id (f r) = rq_id r" "\<And>r. request_ok r \<Longrightarrow> request_ok (f r)"
  shows "gw_ok project K (set_mirror c (m \<lparr> mr_store := mr_store m
           \<lparr> st_requests := map f (st_requests (mr_store m)) \<rparr> \<rparr>) g)"
  by (rule gw_ok_update_mirror [OF assms(1,2)])
    (use mirror_ok_wf [OF gw_okD [OF assms(1,2)]] assms(3,4) in \<open>simp_all add: store_wf_map\<close>)

lemma gw_ok_store_op:
  assumes "gw_ok project K g" "gw_delegations g c = Some m"
    "store_wf (mr_store m) \<Longrightarrow> store_wf s" "claimed_keys s = claimed_keys (mr_store m)"
  shows "gw_ok project K (set_mirror c (m \<lparr> mr_store := s \<rparr>) g)"
  by (rule gw_ok_update_mirror [OF assms(1,2)])
    (use mirror_ok_wf [OF gw_okD [OF assms(1,2)]] assms(3,4) in simp_all)

lemma gw_ok_rebind:
  assumes "gw_ok project K g"
  shows "gw_ok project K (fst (rebind_delegation_continuation c src dst g))"
proof (cases "gw_delegations g c")
  case (Some m)
  then have "gw_ok project K (set_mirror c (m \<lparr> mr_store := fst (rebind_continuation src dst (mr_store m)) \<rparr>) g)"
    by (rule gw_ok_store_op [OF assms]) (simp_all add: store_wf_rebind)
  then show ?thesis by (simp add: rebind_delegation_continuation_def Some split_beta)
qed (simp add: rebind_delegation_continuation_def assms)

lemma gw_ok_note:
  assumes "gw_ok project K g"
  shows "gw_ok project K (fst (note_delegation_progress c t now g))"
proof (cases "gw_delegations g c")
  case (Some m)
  then have "gw_ok project K (set_mirror c (m \<lparr> mr_store := fst (note_progress t now (mr_store m)) \<rparr>) g)"
    by (rule gw_ok_store_op [OF assms]) (simp_all add: store_wf_note_progress)
  then show ?thesis by (simp add: note_delegation_progress_def Some split_beta)
qed (simp add: note_delegation_progress_def assms)

lemma gw_ok_mark:
  "gw_ok project K g \<Longrightarrow> gw_ok project K (fst (mark_delegation_requests_executing c t g))"
  by (auto simp: mark_delegation_requests_executing_def Let_def split: option.splits
      intro!: gw_ok_map_requests) (auto simp: request_ok_def)

lemma gw_ok_opened:
  assumes "gw_ok project K g"
  shows "gw_ok project K (handle_turn_opened io c t continues g)"
proof -
  obtain g1 moved where 1: "(case continues of
      Some src \<Rightarrow> rebind_delegation_continuation c src t (clear_provisional c src g)
    | None \<Rightarrow> (g, False)) = (g1, moved)" by fastforce
  obtain g2 marked where 2: "mark_delegation_requests_executing c t g1 = (g2, marked)" by fastforce
  have "gw_ok project K g1"
  proof (cases continues)
    case (Some src)
    then show ?thesis
      using 1 gw_ok_rebind [OF gw_ok_waits(7) [OF assms], of c src t c src] by simp
  qed (use 1 assms in simp)
  then have "gw_ok project K g2" using gw_ok_mark [of project K g1 c t] 2 by simp
  then show ?thesis
    using 1 2 assms gw_ok_persist by (auto simp: handle_turn_opened_def)
qed

lemma gw_ok_held:
  assumes "gw_ok project K g"
  shows "gw_ok project K (fst (deliver_held_boundary io now sg g))"
proof (cases "sg_exec sg")
  case (Some t)
  let ?c = "sg_child sg"
  obtain g1 noted where 1: "note_delegation_progress ?c t now g = (g1, noted)" by fastforce
  then have g1: "gw_ok project K g1" using gw_ok_note [OF assms, of ?c t now] by simp
  have hold: "gw_ok project K (set_mirror ?c (m \<lparr> mr_provisional := pv \<rparr>) g1)"
    if "gw_delegations g1 ?c = Some m" for m pv
    by (rule gw_ok_update_mirror [OF g1 that])
      (use mirror_ok_wf [OF gw_okD [OF g1 that]] in simp_all)
  show ?thesis
    using Some 1 g1 hold
    by (auto simp: deliver_held_boundary_def Let_def split: option.splits intro!: gw_ok_persist)
qed (simp add: deliver_held_boundary_def assms)

subsection \<open>Withdrawals, stops, releases\<close>

lemma withdraw_one_wf:
  "store_wf (fst sn) \<Longrightarrow> store_wf (fst (withdraw_one t i sn))"
  "claimed_keys (fst (withdraw_one t i sn)) = claimed_keys (fst sn)"
  by (auto simp: withdraw_one_def request_ok_def split: option.splits intro!: store_wf_update_request)

lemma withdraw_fold:
  "(store_wf (fst sn) \<longrightarrow> store_wf (fst (fold (withdraw_one t) ids sn)))
   \<and> claimed_keys (fst (fold (withdraw_one t) ids sn)) = claimed_keys (fst sn)"
  by (induction ids arbitrary: sn) (simp_all add: withdraw_one_wf)

lemma gw_ok_withdraw:
  assumes "gw_ok project K g"
  shows "gw_ok project K (fst (answer_withdrawn_requests io c t ids err v host n g))"
proof (cases "gw_delegations g c")
  case (Some m)
  obtain s k where f: "fold (withdraw_one t) ids (mr_store m, 0) = (s, k)" by fastforce
  have "gw_ok project K (set_mirror c (m \<lparr> mr_store := s \<rparr>) g)"
    by (rule gw_ok_store_op [OF assms Some])
      (use withdraw_fold [of "(mr_store m, 0)" t ids] f in simp_all)
  then show ?thesis
    using Some f assms gw_ok_persist by (auto simp: answer_withdrawn_requests_def Let_def)
qed (auto simp: answer_withdrawn_requests_def assms)

lemma settle_stopped_request_fields [simp]:
  "rq_id (settle_stopped_request held cut_turn r) = rq_id r"
  "request_ok r \<Longrightarrow> request_ok (settle_stopped_request held cut_turn r)"
  by (simp_all add: settle_stopped_request_def request_ok_def Let_def)

lemma gw_ok_stop:
  assumes "gw_ok project K g"
  shows "gw_ok project K (stop_shared io c held cut_turn g)"
proof (cases "gw_delegations g c")
  case (Some m)
  let ?s = "mr_store m \<lparr> st_requests := map (settle_stopped_request held cut_turn) (st_requests (mr_store m)) \<rparr>"
  let ?g1 = "set_mirror c (m \<lparr> mr_store := ?s \<rparr>) g"
  have g1: "gw_ok project K ?g1" by (rule gw_ok_map_requests [OF assms Some]) simp_all
  have m: "mirror_ok (fst (project c)) (K c) (m \<lparr> mr_store := ?s \<rparr>)"
    using g1 by (rule gw_okD) (simp add: set_mirror_def)
  then have "gw_ok project K (fst (store_write io (fst (project c)) c ?s ?g1))"
    by (intro gw_ok_write [OF g1]) (auto simp: mirror_ok_def)
  then show ?thesis
    using Some m by (simp add: stop_shared_def settle_stopped_requests_def persist_settlement_def mirror_ok_def Let_def)
qed (simp add: stop_shared_def settle_stopped_requests_def persist_settlement_def assms)

lemma repair_request_fields [simp]:
  "rq_id (repair_request rows r) = rq_id r"
  "rq_state (repair_request rows r) = rq_state r"
  "rq_parent (repair_request rows r) = rq_parent r"
  "rq_progress (repair_request rows r) = rq_progress r"
  "rq_queue_position (repair_request rows r) = rq_queue_position r"
  by (simp_all add: repair_request_def split: option.splits chain_end.splits)

lemma store_wf_repair: "store_wf s \<Longrightarrow> store_wf (repair_continuation_bindings rows s)"
  unfolding repair_continuation_bindings_def by (rule store_wf_map) (auto simp: request_ok_def)

lemma repair_keys [simp]: "claimed_keys (repair_continuation_bindings rows s) = claimed_keys s"
  by (simp add: repair_continuation_bindings_def)

lemma gw_ok_stranded:
  assumes "gw_ok project K g"
  shows "gw_ok project K (fst (stranded_second_lock c all v host g))"
proof (cases "gw_delegations g c")
  case (Some m)
  have "gw_ok project K (set_mirror c (m \<lparr> mr_store := repair_continuation_bindings all (mr_store m) \<rparr>) g)"
    by (rule gw_ok_update_mirror [OF assms Some])
      (use mirror_ok_wf [OF gw_okD [OF assms Some]] store_wf_repair in simp_all)
  then show ?thesis using Some by (simp add: stranded_second_lock_def Let_def)
qed (simp add: stranded_second_lock_def assms)

subsection \<open>The three stretches of a delivery\<close>

lemma plan_delegation_delivery_Some:
  assumes "plan_delegation_delivery now sg g = (g', Some plan)"
  obtains m s' n where "gw_delegations g (sg_child sg) = Some m"
    "sg_boundary sg"
    "final_dedup_key (sg_turn_id sg) \<notin> set (st_notified (mr_store m))"
    "final_dedup_key (sg_turn_id sg) \<notin> mr_delivering_now m"
    "resolved_by sg (mr_store m) \<noteq> []"
    "begin_delivery (final_dedup_key (sg_turn_id sg)) (sg_exec sg)
       (map rq_id (resolved_by sg (mr_store m))) (mr_store m) = (s', Some n)"
    "g' = set_mirror (sg_child sg) (m \<lparr> mr_store := s',
       mr_delivering_now := insert (final_dedup_key (sg_turn_id sg)) (mr_delivering_now m),
       mr_suppressed := mr_suppressed m
         \<union> set (map rq_id (filter (wait_claimed now m) (resolved_by sg (mr_store m)))) \<rparr>) g"
    "pl_signal plan = sg" "pl_generation plan = mr_generation m"
    "pl_key plan = final_dedup_key (sg_turn_id sg)" "pl_slug plan = mr_slug m"
    "pl_deliveries plan = map (plan_delivery_of now m) (resolved_by sg (mr_store m))"
    "pl_notifications plan = plan_notifications sg
       (length (filter (\<lambda>r. \<not> list_ex (\<lambda>x. rq_id x = rq_id r) (resolved_by sg (mr_store m)))
          (outstanding (mr_store m)))) (pl_deliveries plan)"
  using assms unfolding plan_delegation_delivery_def
  by (auto simp: Let_def list_ex_iff split: if_splits option.splits prod.splits)

lemma plan_delegation_delivery_None:
  assumes "plan_delegation_delivery now sg g = (g', None)"
  shows "g' = g"
  using assms unfolding plan_delegation_delivery_def
  by (auto simp: Let_def split: if_splits option.splits prod.splits)

lemma gw_ok_plan:
  assumes ok: "gw_ok project K g" and plan: "plan_delegation_delivery now sg g = (g', Some p)"
  shows "gw_ok project K g'" "(pl_generation p, pl_key p) \<notin> K (plan_child p)"
    "\<exists>m. gw_delegations g' (plan_child p) = Some m \<and> mr_generation m = pl_generation p
       \<and> pl_key p \<in> mr_delivering_now m \<and> pl_key p \<in> claimed_keys (mr_store m)
       \<and> store_wf (mr_store m) \<and> mr_dir m = fst (project (plan_child p))"
proof -
  obtain m s' n where m: "gw_delegations g (sg_child sg) = Some m"
    and fresh: "final_dedup_key (sg_turn_id sg) \<notin> mr_delivering_now m"
    and bgn: "begin_delivery (final_dedup_key (sg_turn_id sg)) (sg_exec sg)
       (map rq_id (resolved_by sg (mr_store m))) (mr_store m) = (s', Some n)"
    and g': "g' = set_mirror (sg_child sg) (m \<lparr> mr_store := s',
       mr_delivering_now := insert (final_dedup_key (sg_turn_id sg)) (mr_delivering_now m),
       mr_suppressed := mr_suppressed m
         \<union> set (map rq_id (filter (wait_claimed now m) (resolved_by sg (mr_store m)))) \<rparr>) g"
    and p: "pl_signal p = sg" "pl_generation p = mr_generation m"
      "pl_key p = final_dedup_key (sg_turn_id sg)"
    using plan by (rule plan_delegation_delivery_Some)
  have mo: "mirror_ok (fst (project (sg_child sg))) (K (sg_child sg)) m" using gw_okD [OF ok m] .
  have wf: "store_wf s'" using store_wf_begin [of "mr_store m"] mirror_ok_wf [OF mo] bgn
    by (metis fst_conv)
  have keys: "claimed_keys s' = insert (final_dedup_key (sg_turn_id sg)) (claimed_keys (mr_store m))"
    using bgn by (rule begin_delivery_keys)
  show "gw_ok project K g'"
    unfolding g' using mo wf keys by (intro gw_ok_set_mirror [OF ok]) (auto simp: mirror_ok_def)
  show "(pl_generation p, pl_key p) \<notin> K (plan_child p)"
    using mo fresh p by (auto simp: mirror_ok_def plan_child_def)
  show "\<exists>m. gw_delegations g' (plan_child p) = Some m \<and> mr_generation m = pl_generation p
       \<and> pl_key p \<in> mr_delivering_now m \<and> pl_key p \<in> claimed_keys (mr_store m)
       \<and> store_wf (mr_store m) \<and> mr_dir m = fst (project (plan_child p))"
    using p wf keys mo by (simp add: g' set_mirror_def plan_child_def mirror_ok_def)
qed

text \<open>Adding a delivery whose claim is in the mirror and was written.\<close>

lemma gw_ok_add:
  assumes ok: "gw_ok project K g"
    and m: "gw_delegations g c = Some m" "mr_generation m = gen" "k \<in> mr_delivering_now m"
      "k \<in> claimed_keys (mr_store m)"
    and f: "read_delegation_requests (gw_disk g (fst (project c), c)) = Some s" "k \<in> claimed_keys s"
  shows "gw_ok project (K (c := insert (gen, k) (K c))) g"
  unfolding gw_ok_def
proof (intro allI)
  fix c'
  have old: "file_ok (K c') (gw_disk g (fst (project c'), c'))
      \<and> (case gw_delegations g c' of None \<Rightarrow> K c' = {} | Some m \<Rightarrow> mirror_ok (fst (project c')) (K c') m)"
    using ok by (simp add: gw_ok_def)
  show "file_ok ((K (c := insert (gen, k) (K c))) c') (gw_disk g (fst (project c'), c'))
      \<and> (case gw_delegations g c' of None \<Rightarrow> (K (c := insert (gen, k) (K c))) c' = {}
          | Some m \<Rightarrow> mirror_ok (fst (project c')) ((K (c := insert (gen, k) (K c))) c') m)"
  proof (cases "c' = c")
    case True
    then show ?thesis using old m f by (simp add: file_ok_def mirror_ok_def)
  next
    case False
    then have "(K (c := insert (gen, k) (K c))) c' = K c'" by simp
    then show ?thesis using old by (simp only:)
  qed
qed

lemma persist_ok_read:
  assumes "persist_delegation_store io c g = (g', True)" "gw_delegations g c = Some m"
    "store_wf (mr_store m)" "\<not> store_is_empty (mr_store m)"
  shows "read_delegation_requests (gw_disk g' (mr_dir m, c)) = Some (forget_bind_errors (mr_store m))"
    and "gw_delegations g' = gw_delegations g"
  using assms persist_cases [of io "mr_store m" "gw_disk g (mr_dir m, c)"]
  by (auto simp: persist_delegation_store_def store_write_def set_file_def read_back split: prod.splits)

lemma gw_ok_abandon:
  assumes ok: "gw_ok project K g"
    and fresh: "\<forall>(gen, k') \<in> K c. k' \<noteq> k"
  shows "gw_ok project K (abandon_delivery_shared io c k g)"
proof (cases "gw_delegations g c")
  case None
  then show ?thesis by (simp add: abandon_delivery_shared_def persist_delegation_store_def ok)
next
  case (Some m)
  have m: "mirror_ok (fst (project c)) (K c) m" using gw_okD [OF ok Some] .
  have "mirror_ok (fst (project c)) (K c) (m \<lparr> mr_store := abandon_delivery k (mr_store m),
      mr_delivering_now := mr_delivering_now m - {k} \<rparr>)"
    using m fresh by (fastforce simp: mirror_ok_def abandon_delivery_keys store_wf_abandon)
  then show ?thesis
    using Some ok by (simp add: abandon_delivery_shared_def gw_ok_persist gw_ok_set_mirror)
qed

lemma gw_ok_claim:
  assumes ok: "gw_ok project K g" and c: "claim_boundary now io io' sg g = (g', planned)"
  shows "case planned of None \<Rightarrow> gw_ok project K g'
    | Some p \<Rightarrow> (pl_generation p, pl_key p) \<notin> K (plan_child p)
        \<and> gw_ok project (K (plan_child p := insert (pl_generation p, pl_key p) (K (plan_child p)))) g'"
proof (cases "plan_delegation_delivery now sg g")
  case (Pair g1 pl)
  show ?thesis
  proof (cases pl)
    case None
    then show ?thesis
      using Pair c ok plan_delegation_delivery_None by (auto simp: claim_boundary_def)
  next
    case (Some p)
    note P = gw_ok_plan [OF ok Pair [unfolded Some]]
    obtain m where m: "gw_delegations g1 (plan_child p) = Some m" "mr_generation m = pl_generation p"
        "pl_key p \<in> mr_delivering_now m" "pl_key p \<in> claimed_keys (mr_store m)"
        "store_wf (mr_store m)" "mr_dir m = fst (project (plan_child p))"
      using P(3) by blast
    have child: "sg_child sg = plan_child p"
      using Pair Some by (auto simp: plan_child_def elim!: plan_delegation_delivery_Some)
    have ne: "\<not> store_is_empty (mr_store m)" using m(4) claimed_keys_empty by fastforce
    obtain g2 ok2 where w: "persist_delegation_store io (plan_child p) g1 = (g2, ok2)" by fastforce
    have g2: "gw_ok project K g2" using gw_ok_persist [OF P(1), of io "plan_child p"] w by simp
    show ?thesis
    proof (cases ok2)
      case True
      then have w': "persist_delegation_store io (plan_child p) g1 = (g2, True)" using w by simp
      note r = persist_ok_read [OF w' m(1,5) ne]
      have "gw_ok project (K (plan_child p := insert (pl_generation p, pl_key p) (K (plan_child p)))) g2"
        by (rule gw_ok_add [OF g2, of _ m _ _ "forget_bind_errors (mr_store m)"])
          (use m r in simp_all)
      then show ?thesis
        using True Pair Some c child w' P(2) by (auto simp: claim_boundary_def)
    next
      case False
      have "\<forall>(gen, k') \<in> K (plan_child p). k' \<noteq> pl_key p"
        using P(2) gw_okD [OF P(1) m(1)] m(2) by (auto simp: mirror_ok_def)
      then show ?thesis
        using False Pair Some c child w gw_ok_abandon [OF g2] by (auto simp: claim_boundary_def)
    qed
  qed
qed

lemma answer_request_ok: "request_ok r \<Longrightarrow> request_ok (answer_request plan d r)"
  by (simp add: request_ok_def answer_request_def)

lemma commit_one_wf:
  "store_wf s \<Longrightarrow> store_wf (commit_one plan failed d s)"
  "claimed_keys (commit_one plan failed d s) = claimed_keys s"
  by (auto simp: commit_one_def Let_def answer_request_def store_wf_filter request_ok_def
      intro!: store_wf_update_request)

lemma fold_commit_one:
  "(store_wf s \<longrightarrow> store_wf (fold (commit_one plan failed) ds s))
   \<and> claimed_keys (fold (commit_one plan failed) ds s) = claimed_keys s"
  by (induction ds arbitrary: s) (simp_all add: commit_one_wf)

lemma fold_record_notified:
  "(store_wf s \<longrightarrow> store_wf (fold record_notified ks s))
   \<and> claimed_keys (fold record_notified ks s) = claimed_keys s
   \<and> st_requests (fold record_notified ks s) = st_requests s
   \<and> st_delivering (fold record_notified ks s) = st_delivering s"
proof (induction ks arbitrary: s)
  case (Cons k ks)
  show ?case using Cons [of "record_notified k s"]
    by (simp add: store_wf_record) (simp add: record_notified_def)
qed simp

lemma commit_store_wf: "store_wf s \<Longrightarrow> store_wf (commit_store plan failed s)"
  by (simp add: commit_store_def fold_commit_one fold_record_notified store_wf_finish)

lemma commit_store_keys: "claimed_keys (commit_store plan failed s) = claimed_keys s - {pl_key plan}"
  by (simp add: commit_store_def fold_commit_one fold_record_notified finish_delivery_keys)

lemma gw_ok_commit:
  assumes ok: "gw_ok project K g" and p: "(pl_generation p, pl_key p) \<in> K (plan_child p)"
  shows "gw_ok project (K (plan_child p := K (plan_child p) - {(pl_generation p, pl_key p)}))
    (commit_delivery io p failed g)"
proof -
  let ?c = "plan_child p"
  let ?K = "K (?c := K ?c - {(pl_generation p, pl_key p)})"
  have "gw_delegations g ?c \<noteq> None" using p gw_ok_none [OF ok, of ?c] by auto
  then obtain m where m: "gw_delegations g ?c = Some m" by blast
  have mo: "mirror_ok (fst (project ?c)) (K ?c) m" using gw_okD [OF ok m] .
  then have gen: "mr_generation m = pl_generation p" using p by (auto simp: mirror_ok_def)
  let ?m = "m \<lparr> mr_delivering_now := mr_delivering_now m - {pl_key p},
     mr_store := commit_store p failed (mr_store m) \<rparr>"
  have ok': "gw_ok project ?K g" by (rule gw_ok_mono [OF ok]) auto
  have "mirror_ok (fst (project ?c)) (?K ?c) ?m"
    using mo gen by (fastforce simp: mirror_ok_def commit_store_wf commit_store_keys)
  then have 1: "gw_ok project ?K (set_mirror ?c ?m g)" by (rule gw_ok_set_mirror [OF ok'])
  then have "gw_ok project ?K (if outstanding_count ?m = 0
      then set_mirror ?c ?m g \<lparr> gw_watch := gw_watch (set_mirror ?c ?m g) - {?c} \<rparr>
      else set_mirror ?c ?m g)"
    using gw_ok_watch by simp
  then have "gw_ok project ?K (fst (persist_delegation_store io ?c (if outstanding_count ?m = 0
      then set_mirror ?c ?m g \<lparr> gw_watch := gw_watch (set_mirror ?c ?m g) - {?c} \<rparr>
      else set_mirror ?c ?m g)))"
    by (rule gw_ok_persist)
  then show ?thesis
    using m gen by (cases "outstanding_count ?m = 0") (simp_all add: commit_delivery_def plan_child_def Let_def)
qed

subsection \<open>Crashes and restarts\<close>

lemma gw_ok_crash: "gw_ok project K g \<Longrightarrow> gw_ok project (\<lambda>_. {}) (crash g)"
  by (auto simp: gw_ok_def crash_def file_ok_def)

lemma gw_ok_seed:
  assumes "gw_ok project K g" "mirror_ok (fst (project (fst cm))) {} (snd cm)"
  shows "gw_ok project K (seed_mirror cm g)"
proof (cases "gw_delegations g (fst cm)")
  case None
  then have "K (fst cm) = {}" using gw_ok_none assms(1) by blast
  then show ?thesis
    using None assms by (simp add: seed_mirror_def Let_def gw_ok_set_mirror gw_ok_watch)
qed (simp add: seed_mirror_def gw_ok_watch assms)

lemma gw_ok_seeds:
  "gw_ok project K g \<Longrightarrow> \<forall>cm \<in> set cms. mirror_ok (fst (project (fst cm))) {} (snd cm) \<Longrightarrow>
   gw_ok project K (fold seed_mirror cms g)"
  by (induction cms arbitrary: g) (simp_all add: gw_ok_seed)

lemma scan_project_read:
  assumes "(c, s) \<in> set (scan_project env dir g)"
  shows "read_delegation_requests (gw_disk g (dir, c)) = Some s"
    and "\<exists>names. re_children env dir = Some names \<and> Some c \<in> set names"
proof -
  obtain names where n: "re_children env dir = Some names"
    using assms by (cases "re_children env dir")
      (auto simp: scan_project_def scan_delegation_requests_def)
  then obtain e where "e \<in> set names"
    "scan_entry (e, case e of Some c \<Rightarrow> gw_disk g (dir, c) | None \<Rightarrow> NoFile) = Some (c, s)"
    using assms by (auto simp: scan_project_def scan_delegation_requests_def mem_map_filter)
  then have e: "e = Some c" "Some c \<in> set names"
    and r: "read_delegation_requests (gw_disk g (dir, c)) = Some s"
    by (auto simp: scan_entry_def split: option.splits)
  show "read_delegation_requests (gw_disk g (dir, c)) = Some s" by (rule r)
  show "\<exists>names. re_children env dir = Some names \<and> Some c \<in> set names" using n e by blast
qed

lemma gw_ok_reconcile:
  assumes ok: "gw_ok project K g"
    and env: "\<forall>(slug, dir) \<in> set (re_projects env). \<forall>names c. re_children env dir = Some names
      \<longrightarrow> Some c \<in> set names \<longrightarrow> project c = (dir, slug)"
  shows "gw_ok project K (fst (reconcile_seed env g))"
proof -
  have "mirror_ok (fst (project (fst cm))) {} (snd cm)" if cm: "cm \<in> set (map fst (restart_seeds env g))" for cm
  proof -
    obtain slug dir c s where e: "(slug, dir) \<in> set (re_projects env)"
      "(c, s) \<in> set (scan_project env dir g)" "cm = fst (restart_entry env slug dir (c, s))"
      using cm by (fastforce simp: restart_seeds_def)
    have p: "project c = (dir, slug)" using env e(1) scan_project_read(2) [OF e(2)] by fast
    then have "store_wf s"
      using gw_ok_file [OF ok, of c] scan_project_read(1) [OF e(2)] by (simp add: file_ok_def)
    then show ?thesis
      using e(3) p by (auto simp: restart_entry_def Let_def fresh_mirror_def mirror_ok_def store_wf_repair
          split: prod.splits)
  qed
  then show ?thesis
    unfolding reconcile_seed_def Let_def fst_conv by (intro gw_ok_seeds [OF ok]) auto
qed

section \<open>The invariant of the system\<close>

lemma keys_in_flight_append:
  "keys_in_flight (ps @ qs) c = keys_in_flight ps c \<union> keys_in_flight qs c"
  by (auto simp: keys_in_flight_def)

lemma keys_in_flight_single:
  "keys_in_flight [p] = (\<lambda>_. {}) (plan_child p := {(pl_generation p, pl_key p)})"
  by (auto simp: keys_in_flight_def fun_eq_iff)

lemma keys_in_flight_ident:
  "(gen, k) \<in> keys_in_flight ps c \<Longrightarrow> (c, k) \<in> plan_ident ` set ps"
  by (auto simp: keys_in_flight_def plan_ident_def)

lemma keys_in_flight_mset:
  "set ps = set qs \<Longrightarrow> keys_in_flight ps = keys_in_flight qs"
  by (simp add: keys_in_flight_def fun_eq_iff)

lemma mirror_ok_key:
  "mirror_ok dir K m \<Longrightarrow> (gen, k) \<in> K \<Longrightarrow>
     gen = mr_generation m \<and> k \<in> mr_delivering_now m \<and> k \<in> claimed_keys (mr_store m)"
  by (fastforce simp: mirror_ok_def)

lemma gw_ok_generation:
  assumes "gw_ok project K g" "(gen, k) \<in> K c" "(gen', k') \<in> K c"
  shows "gen = gen'"
proof (cases "gw_delegations g c")
  case None
  then show ?thesis using gw_ok_none [OF assms(1)] assms(2) by auto
next
  case (Some m)
  then show ?thesis using mirror_ok_key [OF gw_okD [OF assms(1)]] assms(2,3) by metis
qed

lemma sys_ok_gw:
  "sys_ok project sy \<Longrightarrow> gw_ok project (keys_in_flight (in_flight sy)) g' \<Longrightarrow>
   sys_ok project (sy \<lparr> sy_gw := g' \<rparr>)"
  by (simp add: sys_ok_def in_flight_def)

lemma sys_ok_claim:
  assumes ok: "sys_ok project sy"
    and c: "claim_boundary t io io' sg (sy_gw sy) = (g', planned)"
  shows "sys_ok project (sy \<lparr> sy_gw := g', sy_claimed := sy_claimed sy
      @ (case planned of Some p \<Rightarrow> [p] | None \<Rightarrow> []) \<rparr>)"
proof -
  note G = gw_ok_claim [OF conjunct1 [OF ok [unfolded sys_ok_def]] c]
  show ?thesis
  proof (cases planned)
    case None
    then show ?thesis using ok G by (simp add: sys_ok_def in_flight_def)
  next
    case (Some p)
    let ?ps = "sy_claimed sy @ p # map fst (sy_told sy)"
    have K: "keys_in_flight ?ps = (keys_in_flight (in_flight sy))
        (plan_child p := insert (pl_generation p, pl_key p) (keys_in_flight (in_flight sy) (plan_child p)))"
      by (auto simp: keys_in_flight_def in_flight_def fun_eq_iff)
    have g': "gw_ok project (keys_in_flight ?ps) g'" using G Some by (simp add: K)
    have old: "(pl_generation p, pl_key p) \<notin> keys_in_flight (in_flight sy) (plan_child p)"
      using G Some by simp
    have "plan_ident p \<notin> plan_ident ` set (in_flight sy)"
    proof
      assume "plan_ident p \<in> plan_ident ` set (in_flight sy)"
      then obtain q where q: "q \<in> set (in_flight sy)" "plan_child q = plan_child p" "pl_key q = pl_key p"
        by (auto simp: plan_ident_def)
      then have "(pl_generation q, pl_key p) \<in> keys_in_flight ?ps (plan_child p)"
        "(pl_generation p, pl_key p) \<in> keys_in_flight ?ps (plan_child p)"
        by (auto simp: keys_in_flight_def in_flight_def)
      then have "pl_generation q = pl_generation p" by (rule gw_ok_generation [OF g'])
      moreover have "(pl_generation q, pl_key q) \<in> keys_in_flight (in_flight sy) (plan_child q)"
        using q(1) by (simp add: keys_in_flight_def)
      ultimately show False using old q by simp
    qed
    then show ?thesis using ok g' Some by (auto simp: sys_ok_def in_flight_def)
  qed
qed

lemma sys_ok_commit:
  assumes ok: "sys_ok project sy" and t: "sy_told sy = ps @ (p, failed) # qs"
  shows "sys_ok project (sy \<lparr> sy_gw := commit_delivery io p failed (sy_gw sy), sy_told := ps @ qs \<rparr>)"
proof -
  let ?rest = "sy_claimed sy @ map fst ps @ map fst qs"
  have d: "distinct (map plan_ident ?rest)" "plan_ident p \<notin> plan_ident ` set ?rest"
    using ok t by (auto simp: sys_ok_def in_flight_def)
  have p: "(pl_generation p, pl_key p) \<in> keys_in_flight (in_flight sy) (plan_child p)"
    using t by (auto simp: keys_in_flight_def in_flight_def)
  have K: "keys_in_flight ?rest = (keys_in_flight (in_flight sy))
      (plan_child p := keys_in_flight (in_flight sy) (plan_child p) - {(pl_generation p, pl_key p)})"
  proof
    fix c
    have "keys_in_flight (in_flight sy) c = keys_in_flight ?rest c \<union> keys_in_flight [p] c"
      using t by (auto simp: keys_in_flight_def in_flight_def)
    moreover have "(pl_generation p, pl_key p) \<notin> keys_in_flight ?rest (plan_child p)"
      using d(2) keys_in_flight_ident by (fastforce simp: plan_ident_def)
    ultimately show "keys_in_flight ?rest c = ((keys_in_flight (in_flight sy))
        (plan_child p := keys_in_flight (in_flight sy) (plan_child p) - {(pl_generation p, pl_key p)})) c"
      by (auto simp: keys_in_flight_single)
  qed
  have "gw_ok project (keys_in_flight ?rest) (commit_delivery io p failed (sy_gw sy))"
    unfolding K by (rule gw_ok_commit [where K = "keys_in_flight (in_flight sy)", OF _ p]) (use ok in \<open>simp add: sys_ok_def\<close>)
  then show ?thesis using d(1) by (simp add: sys_ok_def in_flight_def)
qed

lemma sys_ok_tell:
  assumes ok: "sys_ok project sy" and c: "sy_claimed sy = ps @ p # qs"
    and n: "notify_parents sub p (sy_gw sy) = (g', failed)"
  shows "sys_ok project (sy \<lparr> sy_gw := g', sy_claimed := ps @ qs, sy_told := sy_told sy @ [(p, failed)] \<rparr>)"
proof -
  have K: "keys_in_flight (ps @ qs @ map fst (sy_told sy) @ [p]) = keys_in_flight (in_flight sy)"
    by (rule keys_in_flight_mset) (auto simp: in_flight_def c)
  have "gw_ok project (keys_in_flight (in_flight sy)) g'"
    by (rule gw_ok_same [of project _ "sy_gw sy"])
      (use ok n in \<open>auto simp: sys_ok_def notify_parents_def Let_def\<close>)
  then show ?thesis
    using ok c K by (auto simp: sys_ok_def in_flight_def)
qed

theorem sys_ok_step:
  assumes "step project sy sy'" "sys_ok project sy"
  shows "sys_ok project sy'"
proof -
  note G = conjunct1 [OF assms(2) [unfolded sys_ok_def]]
  show ?thesis using assms(1)
proof cases
  case (die)
  have "gw_ok project (keys_in_flight []) (crash (sy_gw sy))"
    using gw_ok_crash assms(2) unfolding sys_ok_def keys_in_flight_def by auto
  then show ?thesis using die by (simp add: sys_ok_def in_flight_def)
next
  case (accept env c rid now p mode title routing idem)
  then show ?thesis
    using assms(2) sys_ok_gw [OF assms(2)] gw_ok_accept request_ok_accepted
    by (simp add: sys_ok_def request_accepted_def)
qed (use assms(2) G in \<open>auto intro!: sys_ok_gw sys_ok_claim sys_ok_tell sys_ok_commit gw_ok_bind
    gw_ok_drop gw_ok_waits gw_ok_opened gw_ok_held gw_ok_withdraw gw_ok_stop gw_ok_stranded
    gw_ok_reconcile\<close>)
qed

lemma sys_ok_initial: "initial sy \<Longrightarrow> sys_ok project sy"
  by (auto simp: initial_def sys_ok_def gw_ok_def in_flight_def keys_in_flight_def file_ok_def)

theorem sys_ok_reachable: "reachable project sy \<Longrightarrow> sys_ok project sy"
  by (induction rule: reachable.induct) (auto intro: sys_ok_initial sys_ok_step)

end
