(* ===== verification/Delegation_Properties.thy ===== *)
theory Delegation_Properties
  imports Delegation_System "HOL-Library.Multiset"
begin

text \<open>
  The properties of the delegation components: lemmas on single operations first, then the
  claims, each with its witness. The witnesses run one dispatch of a parent \<^verbatim>\<open>s1\<close> to a child
  \<^verbatim>\<open>s2\<close> through the model.
\<close>

section \<open>Requests by identity\<close>

lemma get_request_update:
  assumes "\<And>r. rq_id (f r) = rq_id r"
  shows "get_request j (update_request i f s) =
    (if j = i then map_option f (get_request i s) else get_request j s)"
proof -
  have "find (\<lambda>r. rq_id r = j) (update_first (\<lambda>r. rq_id r = i) f rs) =
    (if j = i then map_option f (find (\<lambda>r. rq_id r = i) rs) else find (\<lambda>r. rq_id r = j) rs)" for rs
    using assms by (induction rs) auto
  then show ?thesis by (simp add: get_request_def update_request_def)
qed

lemma find_removed:
  "find (\<lambda>r. rq_id r = j) (filter (\<lambda>r. rq_id r \<noteq> i) rs) =
    (if j = i then None else find (\<lambda>r. rq_id r = j) rs)"
  by (induction rs) auto

lemma get_request_remove:
  "get_request j (s \<lparr> st_requests := filter (\<lambda>r. rq_id r \<noteq> i) (st_requests s) \<rparr>) =
    (if j = i then None else get_request j s)"
  unfolding get_request_def find_removed [symmetric] by simp

lemma get_request_fields:
  "get_request j (finish_delivery k s) = get_request j s"
  "get_request j (fold record_notified ks s) = get_request j s"
  by (simp_all add: get_request_def fold_record_notified finish_delivery_def record_notified_def)

lemma get_request_commit_one:
  "get_request j (commit_one plan failed d s) =
    (if j \<noteq> rq_id (dl_request d) then get_request j s
     else if j \<in> set failed then None else map_option (answer_request plan d) (get_request j s))"
  by (auto simp: commit_one_def Let_def list_ex_iff get_request_remove get_request_update answer_request_def)

lemma get_request_commit_other:
  "j \<notin> (\<lambda>d. rq_id (dl_request d)) ` set ds \<Longrightarrow>
     get_request j (fold (commit_one plan failed) ds s) = get_request j s"
  by (induction ds arbitrary: s) (simp_all add: get_request_commit_one)

lemma get_request_commit_one_of:
  "distinct (map (\<lambda>d. rq_id (dl_request d)) ds) \<Longrightarrow> d \<in> set ds \<Longrightarrow>
     get_request (rq_id (dl_request d)) (fold (commit_one plan failed) ds s) =
       (if rq_id (dl_request d) \<in> set failed then None
        else map_option (answer_request plan d) (get_request (rq_id (dl_request d)) s))"
proof (induction ds arbitrary: s)
  case (Cons x xs)
  show ?case
  proof (cases "d = x")
    case True
    then have "rq_id (dl_request d) \<notin> (\<lambda>d. rq_id (dl_request d)) ` set xs" using Cons.prems(1) by simp
    then show ?thesis using True by (simp add: get_request_commit_other get_request_commit_one)
  next
    case False
    then have "d \<in> set xs" using Cons.prems(2) by simp
    moreover have "rq_id (dl_request d) \<in> (\<lambda>d. rq_id (dl_request d)) ` set xs"
      using calculation by (rule imageI)
    then have "rq_id (dl_request d) \<noteq> rq_id (dl_request x)" using Cons.prems(1) by auto
    ultimately show ?thesis using Cons by (simp add: get_request_commit_one)
  qed
qed simp

text \<open>A key stays in the dedup set while fewer than the cap are recorded after it.\<close>

lemma push_notified_position:
  assumes "l = xs @ k # ys" "length ys + 1 < NOTIFIED_TURN_HISTORY"
  shows "\<exists>xs' ys'. push_notified e l = xs' @ k # ys' \<and> length ys' \<le> length ys + 1"
proof (cases "list_ex (\<lambda>seen. seen = e) l")
  case True
  then show ?thesis using assms(1) by (intro exI [of _ xs] exI [of _ ys]) (simp add: push_notified_def)
next
  case False
  let ?n = "length (l @ [e]) - NOTIFIED_TURN_HISTORY"
  have "?n \<le> length xs" using assms by simp
  then have "push_notified e l = drop ?n xs @ k # (ys @ [e])"
    using False assms(1) by (simp add: push_notified_def drop_oldest_def)
  then show ?thesis by (intro exI [of _ "drop ?n xs"] exI [of _ "ys @ [e]"]) simp
qed

lemma fold_record_keeps:
  "st_notified s = xs @ k # ys \<Longrightarrow> length ys + length ts < NOTIFIED_TURN_HISTORY \<Longrightarrow>
     k \<in> set (st_notified (fold record_notified ts s))"
proof (induction ts arbitrary: s xs ys)
  case (Cons t ts)
  obtain xs' ys' where "push_notified t (st_notified s) = xs' @ k # ys'" "length ys' \<le> length ys + 1"
    using push_notified_position [of "st_notified s" xs k ys t] Cons.prems by auto
  then show ?case
    using Cons.IH [of "record_notified t s" xs' ys'] Cons.prems(2) by (simp add: record_notified_def)
qed simp

lemma finish_then_record:
  assumes "k \<notin> set (st_notified s)" "length ts < NOTIFIED_TURN_HISTORY"
  shows "k \<in> set (st_notified (fold record_notified ts (finish_delivery k s)))"
proof -
  have "drop_oldest NOTIFIED_TURN_HISTORY (st_notified s @ [k])
      = drop (length (st_notified s) + 1 - NOTIFIED_TURN_HISTORY) (st_notified s) @ [k]"
    by (simp add: drop_oldest_def NOTIFIED_TURN_HISTORY_def)
  then have "st_notified (finish_delivery k s)
      = drop (length (st_notified s) + 1 - NOTIFIED_TURN_HISTORY) (st_notified s) @ k # []"
    using assms(1) by (simp add: finish_delivery_def record_notified_def push_notified_def list_ex_iff)
  then show ?thesis by (rule fold_record_keeps) (use assms(2) in simp)
qed

lemma notified_commit:
  "st_notified (fold (commit_one plan failed) ds s) = st_notified s"
  by (induction ds arbitrary: s) (simp_all add: commit_one_def Let_def update_request_def)

section \<open>Notifications per parent\<close>

lemma set_first_parents: "set (first_parents acc ps) = set acc \<union> set ps"
  by (induction acc ps rule: first_parents.induct) auto

lemma distinct_first_parents: "distinct acc \<Longrightarrow> distinct (first_parents acc ps)"
  by (induction acc ps rule: first_parents.induct) auto

lemma mset_filter_concat:
  "distinct ps \<Longrightarrow> mset (concat (map (\<lambda>p. filter (\<lambda>x. f x = p) xs) ps))
     = filter_mset (\<lambda>x. f x \<in> set ps) (mset xs)"
proof (induction ps)
  case (Cons p ps)
  have "filter_mset (\<lambda>x. f x \<in> set (p # ps)) (mset xs)
      = filter_mset (\<lambda>x. f x = p) (mset xs) + filter_mset (\<lambda>x. f x \<in> set ps) (mset xs)"
    using Cons.prems by (intro multiset_eqI) auto
  then show ?case using Cons by simp
qed simp

lemma notifications_partition_lemma:
  "distinct (map pn_parent (plan_notifications sg n ds))
   \<and> mset (concat (map pn_request_ids (plan_notifications sg n ds)))
      = mset (map (\<lambda>d. rq_id (dl_request d)) (filter dl_notified ds))
   \<and> list_all (\<lambda>x. pn_request_ids x \<noteq> []
        \<and> pn_request_ids x = map (\<lambda>d. rq_id (dl_request d))
            (filter (\<lambda>d. dl_notified d \<and> rq_parent (dl_request d) = pn_parent x) ds))
      (plan_notifications sg n ds)"
proof -
  let ?told = "filter dl_notified ds"
  let ?par = "\<lambda>d. rq_parent (dl_request d)"
  let ?ps = "first_parents [] (map ?par ?told)"
  let ?ids = "map (\<lambda>d. rq_id (dl_request d))"
  have ps: "set ?ps = ?par ` set ?told" "distinct ?ps"
    by (simp_all add: set_first_parents distinct_first_parents)
  have parents: "map pn_parent (plan_notifications sg n ds) = ?ps"
    by (simp add: plan_notifications_def parent_notification_for_def Let_def comp_def)
  have ids: "map pn_request_ids (plan_notifications sg n ds)
      = map (\<lambda>p. ?ids (filter (\<lambda>d. ?par d = p) ?told)) ?ps"
    by (simp add: plan_notifications_def parent_notification_for_def carried_requests_def Let_def comp_def conj_commute)
  have "concat (map pn_request_ids (plan_notifications sg n ds))
      = ?ids (concat (map (\<lambda>p. filter (\<lambda>d. ?par d = p) ?told) ?ps))"
    by (simp add: ids map_concat comp_def)
  also have "mset \<dots> = image_mset (\<lambda>d. rq_id (dl_request d))
      (filter_mset (\<lambda>d. ?par d \<in> set ?ps) (mset ?told))"
    unfolding mset_map mset_filter_concat [OF ps(2)] ..
  also have "filter_mset (\<lambda>d. ?par d \<in> set ?ps) (mset ?told) = mset ?told"
    unfolding ps(1) by (rule filter_mset_eq_conv [THEN iffD2]) (auto simp: filter_mset_eq_conv)
  finally have m: "mset (concat (map pn_request_ids (plan_notifications sg n ds))) = mset (?ids ?told)"
    by simp
  have "pn_request_ids x \<noteq> [] \<and> pn_request_ids x = ?ids (filter (\<lambda>d. dl_notified d \<and> ?par d = pn_parent x) ds)"
    if x: "x \<in> set (plan_notifications sg n ds)" for x
  proof -
    have "pn_parent x \<in> ?par ` set ?told" using x parents ps(1) by (metis image_eqI list.set_map)
    moreover have "pn_request_ids x = ?ids (filter (\<lambda>d. dl_notified d \<and> ?par d = pn_parent x) ds)"
      using x by (auto simp: plan_notifications_def parent_notification_for_def carried_requests_def Let_def comp_def)
    ultimately show ?thesis by (auto simp: filter_empty_conv)
  qed
  then have "list_all (\<lambda>x. pn_request_ids x \<noteq> [] \<and> pn_request_ids x
      = ?ids (filter (\<lambda>d. dl_notified d \<and> ?par d = pn_parent x) ds)) (plan_notifications sg n ds)"
    unfolding list_all_iff by blast
  then show ?thesis using m ps(2) unfolding parents by blast
qed

lemma carried_iff:
  assumes "d \<in> set ds" "\<And>e. e \<in> set ds \<Longrightarrow> rq_id (dl_request e) = rq_id (dl_request d) \<Longrightarrow> e = d"
  shows "(\<exists>x \<in> set (plan_notifications sg n ds). pn_parent x = rq_parent (dl_request d)
      \<and> rq_id (dl_request d) \<in> set (pn_request_ids x)) \<longleftrightarrow> dl_notified d"
    (is "?lhs \<longleftrightarrow> _")
proof
  assume ?lhs
  then obtain e where "e \<in> set ds" "dl_notified e" "rq_id (dl_request e) = rq_id (dl_request d)"
    by (auto simp: plan_notifications_def parent_notification_for_def carried_requests_def Let_def)
  then show "dl_notified d" using assms(2) by metis
next
  assume "dl_notified d"
  then show ?lhs
    using assms(1)
    by (auto simp: plan_notifications_def parent_notification_for_def carried_requests_def Let_def
        set_first_parents intro!: bexI [of _ d] imageI)
qed

section \<open>Groups of missed turns\<close>

lemma add_to_group_fst:
  "map fst (add_to_group e t gs) = (if e \<in> fst ` set gs then map fst gs else map fst gs @ [e])"
  by (induction e t gs rule: add_to_group.induct) auto

lemma add_to_group_map_of:
  "map_of (add_to_group e t gs) i =
     (if i = e then Some (case map_of gs e of None \<Rightarrow> [t] | Some rows \<Rightarrow> rows @ [t]) else map_of gs i)"
  by (induction e t gs rule: add_to_group.induct) auto

lemma turn_groups_snoc:
  "turn_groups bound (rows @ [t]) = group_step bound t (turn_groups bound rows)"
  by (simp add: turn_groups_def)

lemma turn_groups_spec:
  "distinct (map fst (turn_groups bound rows))
   \<and> (\<forall>e. map_of (turn_groups bound rows) e =
        (let mine = filter (\<lambda>t. tr_exec t = Some e) rows in
         if e \<in> set bound \<and> mine \<noteq> [] then Some mine else None))"
proof (induction rows rule: rev_induct)
  case (snoc t rows)
  show ?case
  proof (cases "tr_exec t")
    case (Some e)
    then show ?thesis using snoc
      by (auto simp: turn_groups_snoc group_step_def add_to_group_fst add_to_group_map_of Let_def)
  qed (use snoc in \<open>simp add: turn_groups_snoc group_step_def Let_def\<close>)
qed (simp add: turn_groups_def)

lemma filter_map_of:
  "distinct (map fst gs) \<Longrightarrow> map_of gs e = Some v \<Longrightarrow> filter (\<lambda>g. fst g = e) gs = [(e, v)]"
proof (induction gs)
  case (Cons g gs)
  show ?case
  proof (cases "fst g = e")
    case True
    then have "e \<notin> fst ` set gs" using Cons.prems(1) by auto
    then have "filter (\<lambda>g. fst g = e) gs = []" by (auto simp: filter_empty_conv)
    then show ?thesis using True Cons.prems(2) by (cases g) simp
  qed (use Cons in \<open>cases g; simp\<close>)
qed simp

section \<open>Continuation chains\<close>

text \<open>The recorded edges, as a relation that does not speak of the walk: a row of the turn \<^verbatim>\<open>b\<close> says
  that it continues \<^verbatim>\<open>a\<close>.\<close>

definition continues_to :: "turn_record list \<Rightarrow> (turn_id \<times> turn_id) set" where
  "continues_to rows = {(a, b). a \<noteq> b \<and> (\<exists>row \<in> set rows. tr_continues row = Some a \<and> tr_exec row = Some b)}"

lemma successors_edge: "t \<in> set (successors rows a) \<longleftrightarrow> (a, t) \<in> continues_to rows"
  by (auto simp: set_successors continues_to_def)

lemma no_successor: "successors rows h = [] \<longleftrightarrow> h \<notin> Domain (continues_to rows)"
  using successors_edge [of _ rows h] by (cases "successors rows h") auto

lemma distinct_successors: "distinct (successors rows a)"
  by (simp add: successors_def)

lemma two_successors:
  assumes "2 \<le> length (successors rows x)"
  shows "\<exists>t u. t \<noteq> u \<and> (x, t) \<in> continues_to rows \<and> (x, u) \<in> continues_to rows"
proof -
  obtain t u ts where s: "successors rows x = t # u # ts"
    using assms by (metis One_nat_def Suc_1 Suc_le_length_iff)
  then have "t \<noteq> u" using distinct_successors [of rows x] by auto
  then show ?thesis
    using s successors_edge [of t rows x] successors_edge [of u rows x] by auto
qed

lemma walk_chain_spec:
  assumes "\<forall>w \<in> set walked. (b, w) \<in> (continues_to rows)\<^sup>* \<and> (w, head) \<in> (continues_to rows)\<^sup>*"
    "head \<in> set walked"
  shows "case walk_chain rows walked head of
      ChainHead h \<Rightarrow> (b, h) \<in> (continues_to rows)\<^sup>* \<and> successors rows h = []
    | ChainFork h n \<Rightarrow> (b, h) \<in> (continues_to rows)\<^sup>* \<and> n = length (successors rows h) \<and> 2 \<le> n
    | ChainLoop x \<Rightarrow> (b, x) \<in> (continues_to rows)\<^sup>* \<and> (x, x) \<in> (continues_to rows)\<^sup>+"
  using assms
proof (induction rows walked head rule: walk_chain.induct)
  case (1 rows walked head)
  have bh: "(b, head) \<in> (continues_to rows)\<^sup>*" using 1(2,3) by blast
  show ?case
  proof (cases "successors rows head")
    case Nil
    then show ?thesis using bh by (simp add: walk_chain.simps [of rows walked head])
  next
    case (Cons nxt more)
    show ?thesis
    proof (cases more)
      case Nil
      then have s: "successors rows head = [nxt]" using Cons by simp
      then have edge: "(head, nxt) \<in> continues_to rows" by (simp flip: successors_edge)
      show ?thesis
      proof (cases "nxt \<in> set walked")
        case True
        then have "(nxt, nxt) \<in> (continues_to rows)\<^sup>+"
          using 1(2) edge by (meson rtrancl_into_trancl1)
        then show ?thesis using True s 1(2) by (simp add: walk_chain.simps [of rows walked head])
      next
        case False
        have "\<forall>w \<in> set (nxt # walked). (b, w) \<in> (continues_to rows)\<^sup>* \<and> (w, nxt) \<in> (continues_to rows)\<^sup>*"
          using 1(2) bh edge by (auto intro: rtrancl_into_rtrancl)
        then show ?thesis
          using 1(1) [OF Cons Nil False] False s
          by (simp add: walk_chain.simps [of rows walked head])
      qed
    next
      case (Cons y ys)
      then show ?thesis using \<open>successors rows head = nxt # more\<close> bh
        by (simp add: walk_chain.simps [of rows walked head])
    qed
  qed
qed

section \<open>A run used by the witnesses\<close>

text \<open>Parent \<^verbatim>\<open>s1\<close> dispatches to child \<^verbatim>\<open>s2\<close>; the task is bound to turn \<^verbatim>\<open>t1\<close>, which ends.\<close>

definition ex_project :: "sid \<Rightarrow> utext \<times> utext" where
  "ex_project c = (lit ''dir'', lit ''slug'')"

definition ex_env :: accept_env where
  "ex_env = \<lparr> ae_lock1 = True, ae_resolved = Some (lit ''dir'', lit ''slug''), ae_before = None,
     ae_io = fs_good, ae_lock2 = True, ae_after = None, ae_restore_io = fs_good \<rparr>"

definition ex_start :: gateway where
  "ex_start = \<lparr> gw_delegations = (\<lambda>_. None), gw_watch = {}, gw_disk = (\<lambda>_. NoFile),
     gw_next_generation = 0, gw_trace = [] \<rparr>"

definition ex_request :: request where
  "ex_request = request_accepted (lit ''r1'') (lit ''now'') (lit ''s1'') NFinal None RQueue None"

definition ex_accepted :: gateway where
  "ex_accepted = fst (accept_delegation_request ex_env (lit ''s2'') ex_request ex_start)"

definition ex_receipt :: turn_receipt where
  "ex_receipt = \<lparr> rc_turn_id = lit ''t1'', rc_disposition = Some DStarted,
     rc_queue_position = None, rc_queued_behind_body = False \<rparr>"

definition ex_bound :: gateway where
  "ex_bound = fst (bind_delegation_request fs_good (lit ''disk'') (lit ''s2'') (lit ''r1'')
     ex_receipt ex_accepted)"

definition ex_signal :: signal where
  "ex_signal = \<lparr> sg_child = lit ''s2'', sg_turn_id = lit ''row1'', sg_exec = Some (lit ''t1''),
     sg_tail = lit ''all done'', sg_conclusion = None, sg_vendor = Claude, sg_host = lit ''local'',
     sg_boundary = True, sg_continuation = Settled, sg_vendor_error = False, sg_interim_notes = 0,
     sg_covered = [lit ''row1''], sg_context_pct = None, sg_turn = 1, sg_error_kind = None \<rparr>"

definition ex_store :: store where
  "ex_store = default_store \<lparr> st_requests := [bind_request ex_receipt ex_request] \<rparr>"

definition ex_mirror :: mirror where
  "ex_mirror = fresh_mirror 1 (lit ''slug'') (lit ''dir'') ex_store"

definition ex_key :: turn_id where
  "ex_key = final_dedup_key (lit ''row1'')"

lemma ex_request_fields [simp]:
  "rq_id ex_request = lit ''r1''" "rq_parent ex_request = lit ''s1''" "rq_notify ex_request = NFinal"
  "rq_state ex_request = Accepted" "rq_turn_id ex_request = None" "rq_bind_error ex_request = None"
  "rq_progress ex_request = []" "rq_queue_position ex_request = None"
  by (simp_all add: ex_request_def request_accepted_def)

lemma ex_accept_prune: "accept ex_request default_store = default_store \<lparr> st_requests := [ex_request] \<rparr>"
  by (simp add: accept_def prune_def RESOLVED_REQUEST_HISTORY_def)

lemma ex_not_empty [simp]:
  "rs \<noteq> [] \<Longrightarrow> \<not> store_is_empty (s \<lparr> st_requests := rs \<rparr>)"
  by (simp add: store_is_empty_def)

lemma ex_accepted_eq:
  "accept_delegation_request ex_env (lit ''s2'') ex_request ex_start =
     (\<lparr> gw_delegations = [lit ''s2'' \<mapsto> fresh_mirror 1 (lit ''slug'') (lit ''dir'')
          (default_store \<lparr> st_requests := [ex_request] \<rparr>)],
        gw_watch = {lit ''s2''},
        gw_disk = (\<lambda>_. NoFile) ((lit ''dir'', lit ''s2'') :=
          JsonFile (store_to_json (default_store \<lparr> st_requests := [ex_request] \<rparr>))),
        gw_next_generation = 1, gw_trace = [] \<rparr>, Inr (Some (lit ''r1'')))"
  by (simp add: accept_delegation_request_def ex_env_def ex_start_def store_write_def persist_good
      set_file_def session_matches_def install_store_def next_live_generation_def set_mirror_def
      fresh_mirror_def ex_accept_prune Let_def)

lemma ex_bound_eq:
  "bind_delegation_request fs_good (lit ''disk'') (lit ''s2'') (lit ''r1'') ex_receipt ex_accepted =
     (\<lparr> gw_delegations = [lit ''s2'' \<mapsto> ex_mirror], gw_watch = {lit ''s2''},
        gw_disk = (\<lambda>_. NoFile) ((lit ''dir'', lit ''s2'') := JsonFile (store_to_json ex_store)),
        gw_next_generation = 1, gw_trace = [] \<rparr>, Inr ())"
proof -
  have u: "update_request (lit ''r1'') (bind_request ex_receipt) (default_store \<lparr> st_requests := [ex_request] \<rparr>)
      = ex_store"
    by (simp add: update_request_def ex_store_def)
  have ge: "get_request (lit ''r1'') (default_store \<lparr> st_requests := [ex_request] \<rparr>) = Some ex_request"
    by (simp add: get_request_def)
  have ne: "\<not> store_is_empty ex_store" by (simp add: ex_store_def)
  show ?thesis
    by (simp add: bind_delegation_request_def ex_accepted_def ex_accepted_eq fresh_mirror_def ge u
        persist_delegation_store_def store_write_def persist_good set_file_def set_mirror_def ne
        ex_mirror_def Let_def)
qed

lemma ex_resolved: "resolved_by ex_signal ex_store = [bind_request ex_receipt ex_request]"
  by (simp add: resolved_by_def ex_signal_def bound_to_def ex_store_def bind_request_def
      ex_receipt_def bound_state_def)

definition ex_claimed_store :: store where
  "ex_claimed_store = fst (begin_delivery ex_key (Some (lit ''t1'')) [lit ''r1''] ex_store)"

lemma ex_ids: "rq_id (bind_request ex_receipt ex_request) = lit ''r1''"
  by (simp add: bind_request_def)

lemma ex_begin: "begin_delivery ex_key (Some (lit ''t1'')) [lit ''r1''] ex_store = (ex_claimed_store, Some 1)"
  by (simp add: ex_claimed_store_def begin_delivery_def ex_store_def)

lemma ex_claimed_not_empty: "\<not> store_is_empty ex_claimed_store"
  by (simp add: ex_claimed_store_def begin_delivery_def ex_store_def store_is_empty_def)

definition ex_delivery :: delivery where
  "ex_delivery = \<lparr> dl_request = bind_request ex_receipt ex_request, dl_notified = True \<rparr>"

definition ex_plan :: delivery_plan where
  "ex_plan = \<lparr> pl_signal = ex_signal, pl_generation = 1, pl_key = ex_key, pl_slug = lit ''slug'',
     pl_deliveries = [ex_delivery],
     pl_notifications = plan_notifications ex_signal 0 [ex_delivery] \<rparr>"

definition ex_planned :: gateway where
  "ex_planned = \<lparr> gw_delegations = [lit ''s2'' \<mapsto> ex_mirror \<lparr> mr_store := ex_claimed_store,
        mr_delivering_now := {ex_key}, mr_suppressed := {} \<rparr>], gw_watch = {lit ''s2''},
     gw_disk = (\<lambda>_. NoFile) ((lit ''dir'', lit ''s2'') := JsonFile (store_to_json ex_store)),
     gw_next_generation = 1, gw_trace = [] \<rparr>"

lemma ex_wait: "\<not> wait_claimed 0 ex_mirror r"
  by (simp add: wait_claimed_def ex_mirror_def fresh_mirror_def)

lemma ex_plan_eq: "plan_delegation_delivery 0 ex_signal ex_bound = (ex_planned, Some ex_plan)"
proof -
  have s: "sg_child ex_signal = lit ''s2''" "sg_boundary ex_signal" "sg_turn_id ex_signal = lit ''row1''"
    "sg_exec ex_signal = Some (lit ''t1'')"
    by (simp_all add: ex_signal_def)
  have m: "mr_store ex_mirror = ex_store" "mr_delivering_now ex_mirror = {}" "mr_generation ex_mirror = 1"
    "mr_slug ex_mirror = lit ''slug''" "mr_suppressed ex_mirror = {}" "st_notified ex_store = []"
    by (simp_all add: ex_mirror_def fresh_mirror_def ex_store_def)
  have o: "outstanding ex_store = [bind_request ex_receipt ex_request]"
    by (simp add: outstanding_def ex_store_def bind_request_def ex_receipt_def bound_state_def)
  have d: "plan_delivery_of 0 ex_mirror (bind_request ex_receipt ex_request) = ex_delivery"
    by (simp add: plan_delivery_of_def ex_delivery_def ex_wait) (simp add: bind_request_def)
  show ?thesis
    unfolding plan_delegation_delivery_def ex_bound_def ex_bound_eq
    by (simp add: s m ex_resolved o ex_key_def [symmetric] ex_ids ex_begin ex_wait d set_mirror_def
        ex_planned_def ex_plan_def Let_def)
qed

definition ex_claimed :: gateway where
  "ex_claimed = ex_planned \<lparr> gw_disk := (gw_disk ex_planned)
     ((lit ''dir'', lit ''s2'') := JsonFile (store_to_json ex_claimed_store)) \<rparr>"

lemma ex_claim_eq: "claim_boundary 0 fs_good fs_good ex_signal ex_bound = (ex_claimed, Some ex_plan)"
  unfolding claim_boundary_def ex_plan_eq
  by (simp add: persist_delegation_store_def ex_planned_def ex_signal_def store_write_def persist_good
      set_file_def ex_claimed_not_empty ex_claimed_def ex_mirror_def fresh_mirror_def)

definition ex_system :: system where
  "ex_system = \<lparr> sy_gw = ex_claimed, sy_claimed = [ex_plan], sy_told = [] \<rparr>"

lemma ex_bound_reachable:
  "reachable ex_project \<lparr> sy_gw = ex_bound, sy_claimed = [], sy_told = [] \<rparr>"
proof -
  let ?s = "\<lparr> sy_gw = ex_start, sy_claimed = [], sy_told = [] \<rparr>"
  have "initial ?s" by (simp add: initial_def ex_start_def)
  then have "reachable ex_project ?s" by (rule reachable.start)
  moreover have "step ex_project ?s (?s \<lparr> sy_gw := fst (accept_delegation_request ex_env (lit ''s2'')
      (request_accepted (lit ''r1'') (lit ''now'') (lit ''s1'') NFinal None RQueue None) (sy_gw ?s)) \<rparr>)"
    by (rule step.accept) (simp_all add: ex_env_def ex_project_def ex_start_def)
  ultimately have "reachable ex_project (?s \<lparr> sy_gw := ex_accepted \<rparr>)"
    unfolding ex_accepted_def ex_request_def by (metis reachable.next_step system.select_convs(1))
  moreover have "step ex_project (?s \<lparr> sy_gw := ex_accepted \<rparr>) (?s \<lparr> sy_gw := ex_accepted \<rparr>
      \<lparr> sy_gw := fst (bind_delegation_request fs_good (lit ''disk'') (lit ''s2'') (lit ''r1'') ex_receipt
          (sy_gw (?s \<lparr> sy_gw := ex_accepted \<rparr>))) \<rparr>)"
    by (rule step.bind) (simp add: ex_receipt_def)
  ultimately show ?thesis
    using reachable.next_step by (fastforce simp: ex_bound_def)
qed

lemma ex_reachable: "reachable ex_project ex_system"
proof -
  let ?s = "\<lparr> sy_gw = ex_bound, sy_claimed = [], sy_told = [] \<rparr>"
  have "step ex_project ?s (?s \<lparr> sy_gw := ex_claimed, sy_claimed := sy_claimed ?s
          @ (case Some ex_plan of Some p \<Rightarrow> [p] | None \<Rightarrow> []) \<rparr>)"
    by (rule step.claim [where t = 0 and io = fs_good and io' = fs_good and sg = ex_signal])
      (simp add: ex_claim_eq)
  then show ?thesis
    using reachable.next_step [OF ex_bound_reachable] by (fastforce simp: ex_system_def)
qed

end
