(* ===== verification/Deferred_Stops.thy ===== *)
theory Deferred_Stops
  imports Delegation_Properties
begin

text \<open>
  The system of \<^verbatim>\<open>Delegation_System\<close> together with the stops that discharge their settlement in
  the background (\<^verbatim>\<open>stop_session_detached\<close>, \<^verbatim>\<open>flush_settlement_detached\<close>). Such a stop changes
  the mirror at once and leaves a task that writes the snapshot later, under the child's claim
  and without looking at the mirror again. The snapshots are part of the state here and may be
  written in any order, after any other steps, or be lost with the process.
\<close>

section \<open>Histories with writes outstanding\<close>

text \<open>\<^verbatim>\<open>hi_late\<close> holds the snapshots still to be written. \<^verbatim>\<open>hi_raced\<close> is a ghost: the children of
  which a delivery was claimed while such a write was outstanding, for as long as a delivery of
  theirs is in flight.\<close>

record late_history =
  hi_sy :: system
  hi_late :: "(sid \<times> utext \<times> store) list"
  hi_raced :: "sid set"

definition flying :: "system \<Rightarrow> sid set" where
  "flying sy = plan_child ` set (in_flight sy)"

definition raced_after :: "late_history \<Rightarrow> system \<Rightarrow> sid set" where
  "raced_after h sy' = flying sy' \<inter> (hi_raced h
     \<union> (fst ` set (hi_late h) \<inter> plan_child ` (set (sy_claimed sy') - set (sy_claimed (hi_sy h)))))"

inductive late_step :: "(sid \<Rightarrow> utext \<times> utext) \<Rightarrow> late_history \<Rightarrow> late_history \<Rightarrow> bool" for project where
  other: "step project (hi_sy h) sy' \<Longrightarrow>
    late_step project h (h \<lparr> hi_sy := sy', hi_raced := raced_after h sy' \<rparr>)"
| detached_stop: "settle_stopped_requests c kept cut_turn (sy_gw (hi_sy h)) = (g', settlement) \<Longrightarrow>
    late_step project h (h \<lparr> hi_sy := hi_sy h \<lparr> sy_gw := g' \<rparr>,
      hi_late := hi_late h @ (case settlement of Some w \<Rightarrow> [(c, w)] | None \<Rightarrow> []) \<rparr>)"
| late_write: "hi_late h = us @ (c, w) # vs \<Longrightarrow>
    persist_settlement io c (Some w) (sy_gw (hi_sy h)) = (g', written) \<Longrightarrow>
    late_step project h (h \<lparr> hi_sy := hi_sy h \<lparr> sy_gw := g' \<rparr>, hi_late := us @ vs \<rparr>)"
| lost_with_process: "late_step project h \<lparr> hi_sy = hi_sy h \<lparr> sy_gw := crash (sy_gw (hi_sy h)),
      sy_claimed := [], sy_told := [] \<rparr>, hi_late = [], hi_raced = {} \<rparr>"

inductive occurs :: "(sid \<Rightarrow> utext \<times> utext) \<Rightarrow> late_history \<Rightarrow> bool" for project where
  at_start: "initial sy \<Longrightarrow> occurs project \<lparr> hi_sy = sy, hi_late = [], hi_raced = {} \<rparr>"
| and_then: "occurs project h \<Longrightarrow> late_step project h h' \<Longrightarrow> occurs project h'"

text \<open>Without such stops the histories are those of \<^verbatim>\<open>reachable\<close>.\<close>

lemma reachable_occurs: "reachable project sy \<Longrightarrow> occurs project \<lparr> hi_sy = sy, hi_late = [], hi_raced = {} \<rparr>"
proof (induction rule: reachable.induct)
  case (next_step sy sy')
  then show ?case
    using occurs.and_then [OF next_step.IH late_step.other, of sy'] by (simp add: raced_after_def)
qed (rule occurs.at_start)

section \<open>The invariant\<close>

text \<open>The invariant of the system, for the deliveries of children that are not raced; and every
  snapshot still to be written holds the claims of all of them.\<close>

definition safe_keys :: "late_history \<Rightarrow> sid \<Rightarrow> (nat \<times> turn_id) set" where
  "safe_keys h c = (if c \<in> hi_raced h then {} else keys_in_flight (in_flight (hi_sy h)) c)"

definition safe_flight :: "late_history \<Rightarrow> delivery_plan list" where
  "safe_flight h = filter (\<lambda>p. plan_child p \<notin> hi_raced h) (in_flight (hi_sy h))"

definition late_ok :: "(sid \<Rightarrow> utext \<times> utext) \<Rightarrow> (sid \<Rightarrow> (nat \<times> turn_id) set)
    \<Rightarrow> sid \<times> utext \<times> store \<Rightarrow> bool" where
  "late_ok project K w \<longleftrightarrow> fst (snd w) = fst (project (fst w)) \<and> store_wf (snd (snd w))
     \<and> snd ` K (fst w) \<subseteq> claimed_keys (snd (snd w))"

definition hist_ok :: "(sid \<Rightarrow> utext \<times> utext) \<Rightarrow> late_history \<Rightarrow> bool" where
  "hist_ok project h \<longleftrightarrow> gw_ok project (safe_keys h) (sy_gw (hi_sy h))
     \<and> distinct (map plan_ident (safe_flight h))
     \<and> list_all (late_ok project (safe_keys h)) (hi_late h)"

lemma late_ok_mono: "late_ok project K w \<Longrightarrow> K' (fst w) \<subseteq> K (fst w) \<Longrightarrow> late_ok project K' w"
  by (auto simp: late_ok_def)

lemma keys_in_flight_empty: "keys_in_flight ps c = {} \<longleftrightarrow> c \<notin> plan_child ` set ps"
  by (auto simp: keys_in_flight_def)

lemma keys_in_flightI:
  "p \<in> set ps \<Longrightarrow> plan_child p = c \<Longrightarrow> pl_key p = k \<Longrightarrow> (pl_generation p, k) \<in> keys_in_flight ps c"
  by (auto simp: keys_in_flight_def)

text \<open>A step that leaves the deliveries in flight alone.\<close>

lemma raced_same:
  assumes "set (in_flight sy') = set (in_flight (hi_sy h))" "set (sy_claimed sy') \<subseteq> set (sy_claimed (hi_sy h))"
  shows "raced_after h sy' = flying (hi_sy h) \<inter> hi_raced h"
  using assms by (auto simp: raced_after_def flying_def)

lemma safe_keys_same:
  assumes "set (in_flight sy') = set (in_flight (hi_sy h))" "R = flying (hi_sy h) \<inter> hi_raced h"
  shows "safe_keys (h \<lparr> hi_sy := sy', hi_raced := R \<rparr>) = safe_keys h"
proof
  fix c
  have "keys_in_flight (in_flight sy') c = keys_in_flight (in_flight (hi_sy h)) c"
    using keys_in_flight_mset [OF assms(1)] by simp
  moreover have "c \<notin> flying (hi_sy h) \<Longrightarrow> keys_in_flight (in_flight (hi_sy h)) c = {}"
    by (simp add: keys_in_flight_empty flying_def)
  ultimately show "safe_keys (h \<lparr> hi_sy := sy', hi_raced := R \<rparr>) c = safe_keys h c"
    using assms(2) by (auto simp: safe_keys_def)
qed

lemma filter_raced:
  "set ps \<subseteq> set (in_flight sy) \<Longrightarrow>
   filter (\<lambda>p. plan_child p \<notin> flying sy \<inter> R) ps = filter (\<lambda>p. plan_child p \<notin> R) ps"
  by (rule filter_cong) (auto simp: flying_def)

lemma hist_ok_same:
  assumes ok: "hist_ok project h" and g: "gw_ok project (safe_keys h) (sy_gw sy')"
    and f: "mset (in_flight sy') = mset (in_flight (hi_sy h))"
      "set (sy_claimed sy') \<subseteq> set (sy_claimed (hi_sy h))"
  shows "hist_ok project (h \<lparr> hi_sy := sy', hi_raced := raced_after h sy' \<rparr>)"
proof -
  have s: "set (in_flight sy') = set (in_flight (hi_sy h))" using f(1) by (rule mset_eq_setD)
  note R = raced_same [OF s f(2)]
  have "mset (safe_flight (h \<lparr> hi_sy := sy', hi_raced := raced_after h sy' \<rparr>)) = mset (safe_flight h)"
    using f(1) s filter_raced [of "in_flight sy'" "hi_sy h" "hi_raced h"] by (simp add: safe_flight_def R)
  then have "mset (map plan_ident (safe_flight (h \<lparr> hi_sy := sy', hi_raced := raced_after h sy' \<rparr>)))
      = mset (map plan_ident (safe_flight h))"
    by simp
  then have "distinct (map plan_ident (safe_flight (h \<lparr> hi_sy := sy', hi_raced := raced_after h sy' \<rparr>)))"
    using ok mset_eq_imp_distinct_iff unfolding hist_ok_def by blast
  then show ?thesis
    using ok g safe_keys_same [OF s R] by (simp add: hist_ok_def)
qed

lemma hist_ok_gw:
  assumes "hist_ok project h" "gw_ok project (safe_keys h) g'" "hi_sy h = sy"
  shows "hist_ok project (h \<lparr> hi_sy := sy \<lparr> sy_gw := g' \<rparr>, hi_raced := raced_after h (sy \<lparr> sy_gw := g' \<rparr>) \<rparr>)"
  by (rule hist_ok_same [OF assms(1)]) (use assms(2,3) in \<open>simp_all add: in_flight_def\<close>)


text \<open>A claim: the new delivery is safe unless a write of its child is outstanding.\<close>

lemma hist_ok_claim:
  assumes ok: "hist_ok project h"
    and c: "claim_boundary t io io' sg (sy_gw (hi_sy h)) = (g', planned)"
    and sy': "sy' = hi_sy h \<lparr> sy_gw := g', sy_claimed := sy_claimed (hi_sy h)
      @ (case planned of Some p \<Rightarrow> [p] | None \<Rightarrow> []) \<rparr>"
  shows "hist_ok project (h \<lparr> hi_sy := sy', hi_raced := raced_after h sy' \<rparr>)"
proof -
  let ?h = "h \<lparr> hi_sy := sy', hi_raced := raced_after h sy' \<rparr>"
  note G = gw_ok_claim [OF conjunct1 [OF ok [unfolded hist_ok_def]] c]
  show ?thesis
  proof (cases planned)
    case None
    then show ?thesis using G sy' by (intro hist_ok_same [OF ok]) (auto simp: in_flight_def)
  next
    case (Some p)
    let ?c = "plan_child p" and ?k = "(pl_generation p, pl_key p)"
    have fl: "set (in_flight sy') = insert p (set (in_flight (hi_sy h)))"
      and cl: "set (sy_claimed sy') = insert p (set (sy_claimed (hi_sy h)))"
      using sy' Some by (auto simp: in_flight_def)
    have new: "?k \<notin> safe_keys h ?c" using G Some by simp
    have keep: "c' \<in> hi_raced ?h \<longleftrightarrow> c' \<in> flying (hi_sy h) \<inter> hi_raced h" if "c' \<noteq> ?c" for c'
      using that fl cl by (auto simp: raced_after_def flying_def)
    have old: "c' \<notin> flying (hi_sy h) \<Longrightarrow> keys_in_flight (in_flight (hi_sy h)) c' = {}" for c'
      by (simp add: keys_in_flight_empty flying_def)
    have kf: "keys_in_flight (in_flight sy') c' = (if c' = ?c
        then insert ?k (keys_in_flight (in_flight (hi_sy h)) c') else keys_in_flight (in_flight (hi_sy h)) c')" for c'
      using fl by (auto simp: keys_in_flight_def)
    have here: "?c \<in> hi_raced ?h" if "?c \<in> hi_raced h"
      using that fl by (simp add: raced_after_def flying_def)
    have sub: "safe_keys ?h c' \<subseteq> ((safe_keys h)(?c := insert ?k (safe_keys h ?c))) c'" for c'
      using keep [of c'] old [of c'] kf [of c'] here by (cases "c' = ?c") (auto simp: safe_keys_def)
    have g: "gw_ok project (safe_keys ?h) g'"
      by (rule gw_ok_mono [OF _ sub]) (use G Some in \<open>simp add: fun_upd_def\<close>)
    have late: "late_ok project (safe_keys ?h) w" if "w \<in> set (hi_late h)" for w
    proof -
      have w: "late_ok project (safe_keys h) w" using ok that by (simp add: hist_ok_def list_all_iff)
      show ?thesis
      proof (cases "fst w = ?c")
        case False
        then show ?thesis using sub [of "fst w"] by (intro late_ok_mono [OF w]) auto
      next
        case True
        have "p \<in> set (sy_claimed (hi_sy h)) \<Longrightarrow> ?c \<in> hi_raced h"
          using new by (auto simp: safe_keys_def keys_in_flight_def in_flight_def split: if_splits)
        moreover have "?c \<in> fst ` set (hi_late h)" using True that by force
        ultimately have "?c \<in> hi_raced ?h"
          using fl cl by (auto simp: raced_after_def flying_def)
        then have "safe_keys ?h (fst w) = {}" using True by (simp add: safe_keys_def)
        then show ?thesis using w by (simp add: late_ok_def)
      qed
    qed
    have ident: "plan_ident q \<noteq> plan_ident p"
      if q: "q \<in> set (in_flight (hi_sy h))" and nr: "?c \<notin> hi_raced ?h" for q
    proof
      assume e: "plan_ident q = plan_ident p"
      have nr': "?c \<notin> hi_raced h" using here nr by blast
      have "(pl_generation q, pl_key p) \<in> safe_keys ?h ?c" "?k \<in> safe_keys ?h ?c"
        using q e nr fl by (auto simp: safe_keys_def plan_ident_def intro: keys_in_flightI)
      then have "pl_generation q = pl_generation p" by (rule gw_ok_generation [OF g])
      moreover have "(pl_generation q, pl_key q) \<in> safe_keys h ?c"
        using q nr' e by (auto simp: safe_keys_def plan_ident_def intro: keys_in_flightI)
      ultimately show False using new e by (simp add: plan_ident_def)
    qed
    have part: "plan_child q \<notin> hi_raced ?h \<longleftrightarrow> plan_child q \<notin> hi_raced h \<and> (plan_child q \<noteq> ?c \<or> ?c \<notin> hi_raced ?h)"
      if q: "q \<in> set (in_flight (hi_sy h))" for q
    proof -
      have "plan_child q \<in> flying (hi_sy h)" using q by (simp add: flying_def)
      then show ?thesis using keep [of "plan_child q"] here by (cases "plan_child q = ?c") auto
    qed
    have fl2: "in_flight sy' = sy_claimed (hi_sy h) @ p # map fst (sy_told (hi_sy h))"
      using sy' Some by (simp add: in_flight_def)
    have d: "distinct (map plan_ident (filter (\<lambda>q. plan_child q \<notin> hi_raced ?h) (in_flight (hi_sy h))))"
    proof -
      have "filter (\<lambda>q. plan_child q \<notin> hi_raced ?h) (in_flight (hi_sy h))
          = filter (\<lambda>q. plan_child q \<noteq> ?c \<or> ?c \<notin> hi_raced ?h) (safe_flight h)"
        unfolding safe_flight_def filter_filter by (rule filter_cong [OF refl]) (use part in blast)
      then show ?thesis using ok by (simp add: hist_ok_def distinct_map_filter)
    qed
    have "mset (map plan_ident (safe_flight ?h)) = mset (map plan_ident
        ((if ?c \<in> hi_raced ?h then [] else [p]) @ filter (\<lambda>q. plan_child q \<notin> hi_raced ?h) (in_flight (hi_sy h))))"
      using fl2 by (simp add: safe_flight_def in_flight_def)
    moreover have "distinct (map plan_ident
        ((if ?c \<in> hi_raced ?h then [] else [p]) @ filter (\<lambda>q. plan_child q \<notin> hi_raced ?h) (in_flight (hi_sy h))))"
      using d ident by force
    ultimately have "distinct (map plan_ident (safe_flight ?h))"
      using mset_eq_imp_distinct_iff by blast
    then show ?thesis
      using g late sy' by (simp add: hist_ok_def list_all_iff)
  qed
qed


text \<open>A commit, of a safe delivery or of a raced one, whose claim nothing is promised about.\<close>

lemma gw_ok_commit_unclaimed:
  assumes ok: "gw_ok project K g" and K: "K (plan_child p) = {}"
  shows "gw_ok project K (commit_delivery io p failed g)"
proof (cases "gw_delegations g (plan_child p)")
  case None
  then show ?thesis using ok by (simp add: commit_delivery_def plan_child_def)
next
  case (Some m)
  let ?c = "plan_child p"
  let ?m = "m \<lparr> mr_delivering_now := mr_delivering_now m - {pl_key p},
     mr_store := commit_store p failed (mr_store m) \<rparr>"
  have "mirror_ok (fst (project ?c)) (K ?c) ?m"
    using gw_okD [OF ok Some] K by (simp add: mirror_ok_def commit_store_wf)
  then have "gw_ok project K (set_mirror ?c ?m g)" by (rule gw_ok_set_mirror [OF ok])
  then show ?thesis
    using ok Some by (auto simp: commit_delivery_def plan_child_def Let_def
        intro!: gw_ok_persist gw_ok_watch)
qed

lemma hist_ok_commit:
  assumes ok: "hist_ok project h" and t: "sy_told (hi_sy h) = ps @ (p, failed) # qs"
    and sy': "sy' = hi_sy h \<lparr> sy_gw := commit_delivery io p failed (sy_gw (hi_sy h)), sy_told := ps @ qs \<rparr>"
  shows "hist_ok project (h \<lparr> hi_sy := sy', hi_raced := raced_after h sy' \<rparr>)"
proof -
  let ?h = "h \<lparr> hi_sy := sy', hi_raced := raced_after h sy' \<rparr>"
  let ?c = "plan_child p" and ?k = "(pl_generation p, pl_key p)"
  have fl: "mset (in_flight (hi_sy h)) = add_mset p (mset (in_flight sy'))"
    using t sy' by (simp add: in_flight_def)
  then have fls: "set (in_flight (hi_sy h)) = insert p (set (in_flight sy'))"
    by (metis set_mset_add_mset_insert set_mset_mset)
  have R: "raced_after h sy' = flying sy' \<inter> hi_raced h" using sy' by (auto simp: raced_after_def)
  have kf: "keys_in_flight (in_flight (hi_sy h)) c = (if c = ?c
      then insert ?k (keys_in_flight (in_flight sy') c) else keys_in_flight (in_flight sy') c)" for c
    using fls by (auto simp: keys_in_flight_def)
  have none: "c \<notin> flying sy' \<Longrightarrow> keys_in_flight (in_flight sy') c = {}" for c
    by (simp add: keys_in_flight_empty flying_def)
  have safe: "mset (safe_flight h) = (if ?c \<in> hi_raced h then {#} else {#p#}) + mset (safe_flight ?h)"
    using arg_cong [OF fl, of "filter_mset (\<lambda>q. plan_child q \<notin> hi_raced h)"]
      filter_raced [OF subset_refl, of sy' "hi_raced h"]
    by (simp add: safe_flight_def R flip: mset_filter)
  then have "mset (map plan_ident (safe_flight h)) = mset (map plan_ident
      ((if ?c \<in> hi_raced h then [] else [p]) @ safe_flight ?h))"
    by simp
  then have d: "distinct (map plan_ident ((if ?c \<in> hi_raced h then [] else [p]) @ safe_flight ?h))"
    using ok mset_eq_imp_distinct_iff unfolding hist_ok_def by blast
  have gone: "?k \<notin> safe_keys ?h ?c" if "?c \<notin> hi_raced h"
  proof
    assume "?k \<in> safe_keys ?h ?c"
    then obtain q where "q \<in> set (safe_flight ?h)" "plan_ident q = plan_ident p"
      by (auto simp: safe_keys_def keys_in_flight_def safe_flight_def plan_ident_def split: if_splits)
    then show False using d that by (auto simp: image_iff)
  qed
  have K: "safe_keys ?h = (safe_keys h)(?c := safe_keys h ?c - {?k})"
  proof
    fix c
    show "safe_keys ?h c = ((safe_keys h)(?c := safe_keys h ?c - {?k})) c"
      using gone kf [of c] none [of c] by (cases "c = ?c") (auto simp: safe_keys_def R)
  qed
  have G: "gw_ok project (safe_keys h) (sy_gw (hi_sy h))" using ok by (simp add: hist_ok_def)
  have g: "gw_ok project (safe_keys ?h) (sy_gw sy')"
  proof (cases "?c \<in> hi_raced h")
    case True
    then have "safe_keys h ?c = {}" by (simp add: safe_keys_def)
    then show ?thesis
      unfolding K using gw_ok_commit_unclaimed [OF G, of p] sy' by (simp add: fun_upd_idem)
  next
    case False
    then have "?k \<in> safe_keys h ?c" using fls by (auto simp: safe_keys_def keys_in_flight_def)
    then show ?thesis unfolding K using gw_ok_commit [OF G] sy' by simp
  qed
  have "late_ok project (safe_keys ?h) w" if "w \<in> set (hi_late h)" for w
    by (rule late_ok_mono [of _ "safe_keys h"]) (use ok that in \<open>auto simp: hist_ok_def list_all_iff K\<close>)
  then have "list_all (late_ok project (safe_keys ?h)) (hi_late h)" by (simp add: list_all_iff)
  then show ?thesis using g d by (simp add: hist_ok_def)
qed

lemma hist_ok_other:
  assumes s: "step project (hi_sy h) sy'" and ok: "hist_ok project h"
  shows "hist_ok project (h \<lparr> hi_sy := sy', hi_raced := raced_after h sy' \<rparr>)"
proof -
  note G = conjunct1 [OF ok [unfolded hist_ok_def]]
  show ?thesis using s
  proof cases
    case (accept env c rid now p mode title routing idem)
    then show ?thesis
      using hist_ok_gw [OF ok] gw_ok_accept G request_ok_accepted by (simp add: request_accepted_def)
  next
    case (claim t io io' sg g' planned)
    then show ?thesis using hist_ok_claim [OF ok] by blast
  next
    case (commit ps p failed qs io)
    then show ?thesis using hist_ok_commit [OF ok] by blast
  next
    case (tell ps p qs sub g' failed)
    have "gw_ok project (safe_keys h) g'"
      by (rule gw_ok_same [OF G]) (use tell in \<open>auto simp: notify_parents_def Let_def\<close>)
    then show ?thesis using tell by (intro hist_ok_same [OF ok]) (auto simp: in_flight_def)
  next
    case die
    then have R: "raced_after h sy' = {}" by (simp add: raced_after_def flying_def in_flight_def)
    have "safe_keys (h \<lparr> hi_sy := sy', hi_raced := {} \<rparr>) = (\<lambda>_. {})"
      using die by (auto simp: safe_keys_def keys_in_flight_def in_flight_def)
    moreover have "gw_ok project (\<lambda>_. {}) (sy_gw sy')" "in_flight sy' = []"
      using die gw_ok_crash [OF G] by (simp_all add: in_flight_def)
    ultimately show ?thesis
      using ok unfolding R by (auto simp: hist_ok_def safe_flight_def list_all_iff late_ok_def)
  qed (use G in \<open>auto intro!: hist_ok_gw [OF ok] gw_ok_bind gw_ok_drop gw_ok_waits gw_ok_opened
      gw_ok_held gw_ok_withdraw gw_ok_stop gw_ok_stranded gw_ok_reconcile\<close>)
qed


text \<open>The two halves of a detached stop.\<close>

lemma hist_ok_detached:
  assumes ok: "hist_ok project h"
    and st: "settle_stopped_requests c kept cut_turn (sy_gw (hi_sy h)) = (g', settlement)"
  shows "hist_ok project (h \<lparr> hi_sy := hi_sy h \<lparr> sy_gw := g' \<rparr>,
      hi_late := hi_late h @ (case settlement of Some w \<Rightarrow> [(c, w)] | None \<Rightarrow> []) \<rparr>)"
proof (cases "gw_delegations (sy_gw (hi_sy h)) c")
  case None
  then show ?thesis
    using ok st by (auto simp: settle_stopped_requests_def hist_ok_def safe_keys_def safe_flight_def in_flight_def)
next
  case (Some m)
  let ?s = "mr_store m \<lparr> st_requests := map (settle_stopped_request kept cut_turn) (st_requests (mr_store m)) \<rparr>"
  have G: "gw_ok project (safe_keys h) (sy_gw (hi_sy h))" using ok by (simp add: hist_ok_def)
  have g': "g' = set_mirror c (m \<lparr> mr_store := ?s \<rparr>) (sy_gw (hi_sy h))" "settlement = Some (mr_dir m, ?s)"
    using st Some by (auto simp: settle_stopped_requests_def Let_def)
  have g: "gw_ok project (safe_keys h) g'"
    unfolding g'(1) by (rule gw_ok_map_requests [OF G Some]) simp_all
  have "mirror_ok (fst (project c)) (safe_keys h c) (m \<lparr> mr_store := ?s \<rparr>)"
    using g by (rule gw_okD) (simp add: g'(1) set_mirror_def)
  then have "late_ok project (safe_keys h) (c, mr_dir m, ?s)"
    by (auto simp: late_ok_def mirror_ok_def)
  moreover have "safe_keys (h \<lparr> hi_sy := hi_sy h \<lparr> sy_gw := g' \<rparr>, hi_late := l \<rparr>) = safe_keys h" for l
    by (simp add: safe_keys_def fun_eq_iff in_flight_def)
  ultimately show ?thesis
    using ok g g'(2) by (simp add: hist_ok_def safe_flight_def in_flight_def)
qed

lemma hist_ok_late_write:
  assumes ok: "hist_ok project h" and l: "hi_late h = us @ (c, w) # vs"
    and p: "persist_settlement io c (Some w) (sy_gw (hi_sy h)) = (g', written)"
  shows "hist_ok project (h \<lparr> hi_sy := hi_sy h \<lparr> sy_gw := g' \<rparr>, hi_late := us @ vs \<rparr>)"
proof -
  have "late_ok project (safe_keys h) (c, w)" and G: "gw_ok project (safe_keys h) (sy_gw (hi_sy h))"
    using ok l by (auto simp: hist_ok_def)
  then have w: "fst w = fst (project c)" "store_wf (snd w)" "\<forall>(gen, k) \<in> safe_keys h c. k \<in> claimed_keys (snd w)"
    by (force simp: late_ok_def)+
  have "gw_ok project (safe_keys h) g'"
    using gw_ok_write [OF G w(2,3), of io] p w(1) by (cases w) (simp add: persist_settlement_def)
  moreover have "safe_keys (h \<lparr> hi_sy := hi_sy h \<lparr> sy_gw := g' \<rparr>, hi_late := l \<rparr>) = safe_keys h" for l
    by (simp add: safe_keys_def fun_eq_iff in_flight_def)
  ultimately show ?thesis
    using ok l by (simp add: hist_ok_def safe_flight_def in_flight_def)
qed

theorem hist_ok_step: "late_step project h h' \<Longrightarrow> hist_ok project h \<Longrightarrow> hist_ok project h'"
proof (induction rule: late_step.cases)
  case (lost_with_process h)
  then have G: "gw_ok project (safe_keys h) (sy_gw (hi_sy h))" by (simp add: hist_ok_def)
  have "safe_keys \<lparr> hi_sy = hi_sy h \<lparr> sy_gw := crash (sy_gw (hi_sy h)), sy_claimed := [], sy_told := [] \<rparr>,
      hi_late = [], hi_raced = {} \<rparr> = (\<lambda>_. {})"
    by (simp add: safe_keys_def keys_in_flight_def in_flight_def fun_eq_iff)
  then show ?case using lost_with_process gw_ok_crash [OF G] by (simp add: hist_ok_def safe_flight_def in_flight_def)
qed (simp_all add: hist_ok_other hist_ok_detached hist_ok_late_write)

theorem hist_ok_occurs: "occurs project h \<Longrightarrow> hist_ok project h"
proof (induction rule: occurs.induct)
  case (at_start sy)
  have "safe_keys \<lparr> hi_sy = sy, hi_late = [], hi_raced = {} \<rparr> = keys_in_flight (in_flight sy)"
    by (simp add: safe_keys_def fun_eq_iff)
  then show ?case
    using sys_ok_initial [OF at_start] by (simp add: hist_ok_def sys_ok_def safe_flight_def)
qed (rule hist_ok_step)


lemma hist_ok_mirror_wf:
  "occurs project h \<Longrightarrow> gw_delegations (sy_gw (hi_sy h)) c = Some m \<Longrightarrow> store_wf (mr_store m)"
  using hist_ok_occurs mirror_ok_wf gw_okD unfolding hist_ok_def by blast

text \<open>An example: the claimed delivery of \<^verbatim>\<open>ex_system\<close>, then a detached stop of its child.\<close>

lemma ex_detached:
  "\<exists>h m. occurs ex_project h \<and> hi_late h \<noteq> [] \<and> in_flight (hi_sy h) = [ex_plan] \<and> hi_raced h = {}
     \<and> gw_delegations (sy_gw (hi_sy h)) (lit ''s2'') = Some m"
proof -
  let ?kept = "\<lparr> rt_parked = {}, rt_in_flight = {}, rt_pending = {}, rt_unattributed = 0 \<rparr>"
  obtain m where m: "gw_delegations (sy_gw ex_system) (lit ''s2'') = Some m"
    by (auto simp: ex_system_def ex_claimed_def ex_planned_def)
  obtain g' w where st: "settle_stopped_requests (lit ''s2'') ?kept None (sy_gw ex_system) = (g', Some w)"
    and g': "gw_delegations g' (lit ''s2'') \<noteq> None"
    using m by (auto simp: settle_stopped_requests_def Let_def set_mirror_def)
  let ?h = "\<lparr> hi_sy = ex_system, hi_late = [], hi_raced = {} \<rparr>"
  have "late_step ex_project ?h (?h \<lparr> hi_sy := hi_sy ?h \<lparr> sy_gw := g' \<rparr>,
      hi_late := hi_late ?h @ (case Some w of Some w \<Rightarrow> [(lit ''s2'', w)] | None \<Rightarrow> []) \<rparr>)"
    by (rule late_step.detached_stop [of _ ?kept None]) (simp add: st)
  then have "occurs ex_project \<lparr> hi_sy = ex_system \<lparr> sy_gw := g' \<rparr>, hi_late = [(lit ''s2'', w)], hi_raced = {} \<rparr>"
    using occurs.and_then [OF reachable_occurs [OF ex_reachable]] by fastforce
  moreover have "in_flight (ex_system \<lparr> sy_gw := g' \<rparr>) = [ex_plan]"
    by (simp add: in_flight_def ex_system_def)
  ultimately show ?thesis using g' by fastforce
qed

end
