(* ===== verification/Delegation_Claims.thy ===== *)
theory Delegation_Claims
  imports Deferred_Stops
begin

text \<open>
  What the delegation components promise, in every history of \<^verbatim>\<open>Deferred_Stops\<close>: claims survive any
  crash until they are committed, one boundary is delivered once at a time, a boundary resolves exactly
  the requests bound to it, and every parent is told about every request it is owed; with the one case
  in which it is told twice.
\<close>

section \<open>Deliveries in flight\<close>



text \<open>C9. At most one delivery of a boundary is in flight: in every history the deliveries in flight
  differ in their child or in their dedup key, although signals for one boundary may be
  delivered concurrently by the notifier, a release and a replay timer, except among those of
  one raced child. Where no detached stop is involved no child is raced, and the deliveries in
  flight differ without exception.\<close>

theorem one_delivery_per_boundary:
  "(reachable project sy \<longrightarrow> distinct (map plan_ident (in_flight sy)))
   \<and> (occurs project h \<longrightarrow>
        distinct (map plan_ident (filter (\<lambda>p. plan_child p \<notin> hi_raced h) (in_flight (hi_sy h)))))"
  using sys_ok_reachable hist_ok_occurs by (auto simp: sys_ok_def hist_ok_def safe_flight_def)

theorem one_delivery_per_boundary_witness:
  "\<exists>h. occurs ex_project h \<and> hi_late h \<noteq> [] \<and> in_flight (hi_sy h) = [ex_plan]
    \<and> distinct (map plan_ident (filter (\<lambda>p. plan_child p \<notin> hi_raced h) (in_flight (hi_sy h))))
    \<and> distinct (map plan_ident (in_flight ex_system)) \<and> in_flight ex_system = [ex_plan]"
proof -
  obtain h where h: "occurs ex_project h" "hi_late h \<noteq> []" "in_flight (hi_sy h) = [ex_plan]"
    using ex_detached by blast
  have "in_flight ex_system = [ex_plan]" by (simp add: in_flight_def ex_system_def)
  then show ?thesis
    using one_delivery_per_boundary [of ex_project ex_system h] ex_reachable h by blast
qed

text \<open>C22. Every record stays well formed, in memory and on disk, in every history, late writes of
  detached stops included: request ids are distinct, at most ten trail entries per request and
  two hundred dedup keys, all distinct, one claim per boundary, numbers within their widths. A
  record that reads at all reads well formed.\<close>

theorem records_stay_well_formed:
  assumes "occurs project h"
  shows "(gw_delegations (sy_gw (hi_sy h)) c = Some m \<longrightarrow> store_wf (mr_store m))
    \<and> (read_delegation_requests (gw_disk (sy_gw (hi_sy h)) (fst (project c), c)) = Some s \<longrightarrow> store_wf s)"
proof -
  have ok: "gw_ok project (safe_keys h) (sy_gw (hi_sy h))"
    using hist_ok_occurs [OF assms] by (simp add: hist_ok_def)
  show ?thesis
    using mirror_ok_wf [OF gw_okD [OF ok]] gw_ok_file [OF ok, of c] by (auto simp: file_ok_def)
qed

theorem records_stay_well_formed_witness:
  "\<exists>h m. occurs ex_project h \<and> hi_late h \<noteq> []
    \<and> gw_delegations (sy_gw (hi_sy h)) (lit ''s2'') = Some m \<and> store_wf (mr_store m)"
proof -
  obtain h m where "occurs ex_project h" "hi_late h \<noteq> []"
    "gw_delegations (sy_gw (hi_sy h)) (lit ''s2'') = Some m"
    using ex_detached by blast
  then show ?thesis using records_stay_well_formed [of ex_project h "lit ''s2''" m] by blast
qed

section \<open>Planning by identity\<close>

text \<open>C10. A boundary is planned only for the outstanding requests bound to the very execution turn
  that ended, all of them and in dispatch order; planning wakes nobody and resolves nothing:
  every request of the child is afterwards what it was before, only the boundary is claimed.
  A boundary already recorded, or already being delivered, is never planned again.\<close>

theorem plan_resolves_bound_requests:
  assumes "plan_delegation_delivery now sg g = (g', Some p)"
  shows "\<exists>m m' t. gw_delegations g (sg_child sg) = Some m \<and> gw_delegations g' (sg_child sg) = Some m'
    \<and> sg_exec sg = Some t \<and> map dl_request (pl_deliveries p) = bound_to t (mr_store m)
    \<and> st_requests (mr_store m') = st_requests (mr_store m)
    \<and> st_notified (mr_store m') = st_notified (mr_store m)
    \<and> pl_key p \<notin> set (st_notified (mr_store m)) \<and> pl_key p \<notin> mr_delivering_now m
    \<and> claimed_keys (mr_store m') = insert (pl_key p) (claimed_keys (mr_store m))
    \<and> gw_trace g' = gw_trace g"
  using assms
proof (rule plan_delegation_delivery_Some)
  fix m :: mirror and s' :: store and n
  assume m: "gw_delegations g (sg_child sg) = Some m"
    and res: "resolved_by sg (mr_store m) \<noteq> []"
    and bgn: "begin_delivery (final_dedup_key (sg_turn_id sg)) (sg_exec sg)
       (map rq_id (resolved_by sg (mr_store m))) (mr_store m) = (s', Some n)"
    and g': "g' = set_mirror (sg_child sg) (m \<lparr> mr_store := s',
       mr_delivering_now := insert (final_dedup_key (sg_turn_id sg)) (mr_delivering_now m),
       mr_suppressed := mr_suppressed m
         \<union> set (map rq_id (filter (wait_claimed now m) (resolved_by sg (mr_store m)))) \<rparr>) g"
    and k: "pl_key p = final_dedup_key (sg_turn_id sg)"
      "final_dedup_key (sg_turn_id sg) \<notin> set (st_notified (mr_store m))"
      "final_dedup_key (sg_turn_id sg) \<notin> mr_delivering_now m"
    and d: "pl_deliveries p = map (plan_delivery_of now m) (resolved_by sg (mr_store m))"
  obtain t where t: "sg_exec sg = Some t" using res by (auto simp: resolved_by_def split: option.splits)
  have "map dl_request (pl_deliveries p) = bound_to t (mr_store m)"
    using d t by (simp add: resolved_by_def plan_delivery_of_def comp_def)
  then show ?thesis
    using m g' k t begin_delivery_fields [OF bgn] begin_delivery_keys [OF bgn]
    by (simp add: set_mirror_def)
qed

theorem plan_resolves_bound_requests_witness:
  "\<exists>g g' p m t. plan_delegation_delivery 0 ex_signal g = (g', Some p)
    \<and> gw_delegations g (lit ''s2'') = Some m \<and> sg_exec ex_signal = Some t
    \<and> map dl_request (pl_deliveries p) = bound_to t (mr_store m) \<and> pl_deliveries p \<noteq> []"
proof -
  have "sg_child ex_signal = lit ''s2''" "pl_deliveries ex_plan \<noteq> []"
    by (simp_all add: ex_signal_def ex_plan_def)
  then show ?thesis
    using plan_resolves_bound_requests [OF ex_plan_eq] ex_plan_eq by (metis (no_types, lifting))
qed

text \<open>C11. The notifications of a plan partition the requests that are to be told: one notification
  per parent, in it exactly that parent's requests, no parent twice, no request lost or told
  twice.\<close>

theorem notifications_partition_requests:
  "distinct (map pn_parent (plan_notifications sg n ds))
   \<and> mset (concat (map pn_request_ids (plan_notifications sg n ds)))
      = mset (map (\<lambda>d. rq_id (dl_request d)) (filter dl_notified ds))
   \<and> list_all (\<lambda>x. pn_request_ids x \<noteq> []
        \<and> pn_request_ids x = map (\<lambda>d. rq_id (dl_request d))
            (filter (\<lambda>d. dl_notified d \<and> rq_parent (dl_request d) = pn_parent x) ds))
      (plan_notifications sg n ds)"
  by (rule notifications_partition_lemma)



text \<open>The exception is real: a claim that cannot be written gives the boundary back, but its
  request stays suppressed. When the wait runs out before the boundary is planned again, the
  parent is notified and its waiter is told as well.\<close>

theorem failed_claim_stays_suppressed:
  assumes plan: "plan_delegation_delivery now sg g = (g1, Some p)"
    and lost: "claim_boundary now io io' sg g = (g', None)"
    and m: "gw_delegations g (sg_child sg) = Some m"
    and d: "d \<in> set (pl_deliveries p)" "wait_claimed now m (dl_request d)"
  shows "\<exists>m'. gw_delegations g' (sg_child sg) = Some m' \<and> rq_id (dl_request d) \<in> mr_suppressed m'
    \<and> mr_delivering_now m' = mr_delivering_now m - {pl_key p}"
  using plan
proof (rule plan_delegation_delivery_Some)
  fix m0 :: mirror and s' :: store and n
  let ?c = "sg_child sg" and ?k = "final_dedup_key (sg_turn_id sg)"
  assume m0: "gw_delegations g ?c = Some m0"
    and g1: "g1 = set_mirror ?c (m0 \<lparr> mr_store := s',
       mr_delivering_now := insert ?k (mr_delivering_now m0),
       mr_suppressed := mr_suppressed m0
         \<union> set (map rq_id (filter (wait_claimed now m0) (resolved_by sg (mr_store m0)))) \<rparr>) g"
    and k: "pl_key p = ?k"
    and ds: "pl_deliveries p = map (plan_delivery_of now m0) (resolved_by sg (mr_store m0))"
  obtain g2 ok where w: "persist_delegation_store io ?c g1 = (g2, ok)" by fastforce
  have keep: "gw_delegations g2 = gw_delegations g1"
    using w by (auto simp: persist_delegation_store_def store_write_def set_file_def split: option.splits prod.splits)
  have g': "g' = abandon_delivery_shared io' ?c (pl_key p) g2"
    using lost plan w by (auto simp: claim_boundary_def split: if_splits)
  have "dl_request d \<in> set (resolved_by sg (mr_store m0))"
    using d(1) ds by (auto simp: plan_delivery_of_def)
  then have "rq_id (dl_request d) \<in> set (map rq_id (filter (wait_claimed now m0) (resolved_by sg (mr_store m0))))"
    using d(2) m m0 by auto
  then show ?thesis
    using m m0 g1 keep k unfolding g'
    by (auto simp: abandon_delivery_shared_def set_mirror_def persist_delegation_store_def store_write_def
        set_file_def split: option.splits prod.splits)
qed

end
