(* ===== verification/Record_Claims.thy ===== *)
theory Record_Claims
  imports Delegation_Claims
begin

text \<open>
  What the records promise: acceptance and pruning, identities, bindings, the commit of a
  delivery, the file, the rebuilding after a restart, the stop of a child, and two ways in which
  a record can lose what the mirror knew.
\<close>

section \<open>Requests\<close>

text \<open>Request ids minted in one process life are pairwise distinct, whatever the clock says, as
  long as fewer than 2 to the 64 are minted.\<close>

theorem request_ids_distinct:
  assumes "m < 2 ^ 64" "n < 2 ^ 64" "m \<noteq> n"
  shows "mint_request_id nanos (m mod 2 ^ 64) \<noteq> mint_request_id nanos' (n mod 2 ^ 64)"
proof
  assume "mint_request_id nanos (m mod 2 ^ 64) = mint_request_id nanos' (n mod 2 ^ 64)"
  then have "hex nanos @ 45 # hex (m mod 2 ^ 64) = hex nanos' @ 45 # hex (n mod 2 ^ 64)"
    by (simp add: mint_request_id_def lit_def)
  moreover have "45 \<notin> set (hex k)" for k using hex_chars [of 45 k] by auto
  ultimately have "hex (m mod 2 ^ 64) = hex (n mod 2 ^ 64)"
    by (metis append_Cons_eq_iff)
  then show False using assms by simp
qed

theorem request_ids_distinct_witness:
  "mint_request_id 7 (0 mod 2 ^ 64) \<noteq> mint_request_id 7 (1 mod 2 ^ 64)"
  by (rule request_ids_distinct) simp_all

text \<open>Accepting a dispatch appends it: every outstanding request of the child stays, in order, with
  the new one last, and of the resolved ones exactly the newest twenty remain.\<close>

theorem accept_keeps_outstanding:
  assumes "\<not> is_terminal (rq_state r)"
  shows "outstanding (accept r s) = outstanding s @ [r]
    \<and> filter (\<lambda>x. is_terminal (rq_state x)) (st_requests (accept r s))
        = drop_oldest 20 (filter (\<lambda>x. is_terminal (rq_state x)) (st_requests s))
    \<and> length (st_requests (accept r s)) \<le> length (outstanding s) + 21"
proof -
  have res: "filter (\<lambda>x. is_terminal (rq_state x)) (st_requests (accept r s))
        = drop_oldest 20 (filter (\<lambda>x. is_terminal (rq_state x)) (st_requests s))"
    unfolding accept_def resolved_prune using assms by (simp add: RESOLVED_REQUEST_HISTORY_def)
  have out: "outstanding (accept r s) = outstanding s @ [r]" using assms by (simp add: outstanding_accept)
  have "length (st_requests (accept r s)) = length (filter (\<lambda>x. is_terminal (rq_state x)) (st_requests (accept r s)))
      + length (outstanding (accept r s))"
    unfolding outstanding_def by (rule sum_length_filter_compl [symmetric])
  then show ?thesis using res out by simp
qed

theorem accept_keeps_outstanding_witness:
  "outstanding (accept ex_request default_store) = outstanding default_store @ [ex_request]"
  using accept_keeps_outstanding [of ex_request default_store] by simp

text \<open>A continuation moves exactly the outstanding requests bound to the turn it continues: those
  follow onto the new turn, and every other request, resolved ones included, is untouched.\<close>

theorem continuation_moves_its_own:
  assumes "src \<noteq> dst" "rebind_continuation src dst s = (s', n)"
  shows "n = length (bound_to src s) \<and> bound_to src s' = []
    \<and> map rq_id (st_requests s') = map rq_id (st_requests s)
    \<and> filter (\<lambda>r. \<not> bound_request dst r) (st_requests s')
        = filter (\<lambda>r. \<not> bound_request src r \<and> \<not> bound_request dst r) (st_requests s)
    \<and> length (bound_to dst s') = length (bound_to src s) + length (bound_to dst s)"
proof -
  let ?f = "\<lambda>r. if is_terminal (rq_state r) \<or> rq_turn_id r \<noteq> Some src then r else r \<lparr> rq_turn_id := Some dst \<rparr>"
  have s': "s' = s \<lparr> st_requests := map ?f (st_requests s) \<rparr>"
    and n: "n = length (filter (bound_request src) (st_requests s))"
    using assms by (auto simp: rebind_continuation_def bound_request_def [abs_def] outstanding_request_def)
  have ids: "rq_id (?f r) = rq_id r" for r by simp
  have moved: "filter (\<lambda>r. \<not> bound_request dst r) (map ?f rs)
      = filter (\<lambda>r. \<not> bound_request src r \<and> \<not> bound_request dst r) rs"
    and len: "length (filter (bound_request dst) (map ?f rs))
      = length (filter (bound_request src) rs) + length (filter (bound_request dst) rs)"
    and none: "filter (bound_request src) (map ?f rs) = []" for rs
    using assms(1) by (induction rs) (auto simp: bound_request_def outstanding_request_def)
  have bt: "bound_to t x = filter (bound_request t) (st_requests x)" for t x
    by (simp add: bound_to_def bound_request_def [abs_def] outstanding_request_def)
  show ?thesis
    unfolding s' bt using n moved [of "st_requests s"] len [of "st_requests s"] none [of "st_requests s"]
    by (simp add: ids comp_def)
qed

theorem continuation_moves_its_own_witness:
  "length (bound_to (lit ''t2'') (fst (rebind_continuation (lit ''t1'') (lit ''t2'') ex_store))) = 1"
proof -
  have b: "bound_to (lit ''t1'') ex_store = [bind_request ex_receipt ex_request]"
    "bound_to (lit ''t2'') ex_store = []"
    using ex_resolved by (simp_all add: resolved_by_def ex_signal_def bound_to_def ex_store_def
        bind_request_def ex_receipt_def)
  show ?thesis
    using continuation_moves_its_own [of "lit ''t1''" "lit ''t2''" ex_store
        "fst (rebind_continuation (lit ''t1'') (lit ''t2'') ex_store)"
        "snd (rebind_continuation (lit ''t1'') (lit ''t2'') ex_store)"] b by simp
qed

section \<open>The file\<close>

text \<open>C23. A durable write is all or nothing: when it reports success, reading the file gives back the
  store but for the binding errors, which are never persisted (an empty store leaves no file),
  and when it fails at any file-system call the file is what it was.\<close>

theorem persist_round_trip:
  assumes "store_wf s"
  shows "case persist_delegation_requests io s f of (f', ok) \<Rightarrow>
    read_delegation_requests f' =
      (if ok then (if store_is_empty s then None else Some (forget_bind_errors s))
       else read_delegation_requests f)"
proof -
  obtain f' ok where p: "persist_delegation_requests io s f = (f', ok)" by fastforce
  then show ?thesis using persist_cases [OF p] read_back [OF assms] by (cases ok) auto
qed

theorem persist_round_trip_witness:
  "read_delegation_requests (fst (persist_delegation_requests fs_good ex_store NotJson)) = Some (forget_bind_errors ex_store)"
proof -
  have "store_wf ex_store"
    by (simp add: ex_store_def store_wf_def request_ok_def bind_request_def ex_receipt_def
        request_trail.log_ok_Nil notified_log.log_ok_Nil)
  moreover have "\<not> store_is_empty ex_store" by (simp add: ex_store_def)
  ultimately show ?thesis
    using persist_round_trip [of ex_store, where io = fs_good and f = NotJson] by (simp add: persist_good)
qed

text \<open>Binding a dispatch to its execution turn is durable or visible: success means that the
  record on disk carries the turn, and a failed write leaves the binding in the mirror with an
  error, so that every live surface reports the request as unknown.\<close>

theorem bind_durable_or_visible:
  assumes "gw_delegations g c = Some m" "get_request i (mr_store m) = Some r" "store_wf (mr_store m)"
    "case rc_queue_position rc of None \<Rightarrow> True | Some n \<Rightarrow> n < 2 ^ 64"
    "bind_delegation_request io failure c i rc g = (g', res)"
  shows "case res of
      Inr _ \<Rightarrow> (\<exists>s. read_delegation_requests (gw_disk g' (mr_dir m, c)) = Some s
        \<and> get_request i s = Some (forget_bind_error (bind_request rc r)))
    | Inl _ \<Rightarrow> (\<exists>m'. gw_delegations g' c = Some m'
        \<and> get_request i (mr_store m') = Some (bind_request rc r \<lparr> rq_bind_error := Some failure \<rparr>))"
proof -
  let ?s1 = "update_request i (bind_request rc) (mr_store m)"
  let ?m1 = "m \<lparr> mr_store := ?s1 \<rparr>"
  have wf1: "store_wf ?s1"
    using assms(3,4) by (auto intro!: store_wf_update_request bind_request_ok simp: bind_request_def request_ok_def)
  have get1: "get_request i ?s1 = Some (bind_request rc r)"
    using assms(2) by (simp add: get_request_update bind_request_def)
  then have ne: "\<not> store_is_empty ?s1" by (auto simp: store_is_empty_def get_request_def)
  obtain g1 ok where p: "persist_delegation_store io c (set_mirror c ?m1 g) = (g1, ok)" by fastforce
  have m1: "gw_delegations (set_mirror c ?m1 g) c = Some ?m1" by (simp add: set_mirror_def)
  show ?thesis
  proof (cases ok)
    case True
    have p': "persist_delegation_store io c (set_mirror c ?m1 g) = (g1, True)" using p True by simp
    have "find (\<lambda>r. rq_id r = i) (map forget_bind_error rs)
        = map_option forget_bind_error (find (\<lambda>r. rq_id r = i) rs)" for rs
      by (induction rs) (simp_all add: forget_bind_error_def)
    then have "get_request i (forget_bind_errors ?s1) = Some (forget_bind_error (bind_request rc r))"
      using get1 by (simp add: get_request_def forget_bind_errors_def)
    then show ?thesis
      using assms(1,2,5) p True persist_ok_read(1) [OF p' m1] wf1 ne
      by (auto simp: bind_delegation_request_def Let_def)
  next
    case False
    have "get_request i (update_request i (rq_bind_error_update (\<lambda>_. Some failure)) ?s1)
        = Some (bind_request rc r \<lparr> rq_bind_error := Some failure \<rparr>)"
      using get1 by (simp add: get_request_update)
    then show ?thesis
      using assms(1,2,5) p False by (auto simp: bind_delegation_request_def Let_def set_mirror_def)
  qed
qed

theorem bind_durable_or_visible_witness:
  "\<exists>s. read_delegation_requests (gw_disk ex_bound (lit ''dir'', lit ''s2'')) = Some s
     \<and> get_request (lit ''r1'') s = Some (forget_bind_error (bind_request ex_receipt ex_request))"
proof -
  let ?m = "fresh_mirror 1 (lit ''slug'') (lit ''dir'') (default_store \<lparr> st_requests := [ex_request] \<rparr>)"
  have "gw_delegations ex_accepted (lit ''s2'') = Some ?m" by (simp add: ex_accepted_def ex_accepted_eq)
  moreover have "get_request (lit ''r1'') (mr_store ?m) = Some ex_request"
    by (simp add: fresh_mirror_def get_request_def)
  moreover have "store_wf (mr_store ?m)"
    by (simp add: fresh_mirror_def store_wf_def request_ok_def request_trail.log_ok_Nil notified_log.log_ok_Nil)
  moreover have "case rc_queue_position ex_receipt of None \<Rightarrow> True | Some n \<Rightarrow> n < 2 ^ 64"
    by (simp add: ex_receipt_def)
  moreover have "bind_delegation_request fs_good (lit ''disk'') (lit ''s2'') (lit ''r1'') ex_receipt ex_accepted
      = (ex_bound, Inr ())"
    by (simp add: ex_bound_def ex_bound_eq)
  moreover have "mr_dir ?m = lit ''dir''" by (simp add: fresh_mirror_def)
  ultimately show ?thesis
    using bind_durable_or_visible [of ex_accepted "lit ''s2''" ?m "lit ''r1''" ex_request ex_receipt
        fs_good "lit ''disk''" ex_bound "Inr ()"] by simp
qed

end
