(* ===== verification/Restart_Claims.thy ===== *)
theory Restart_Claims
  imports Record_Claims
begin

text \<open>
  What a delivery leaves behind, what a restart rebuilds from the transcript, what a stop decides,
  what an excerpt shows, and the two interleavings in which a record loses a fact the mirror
  held.
\<close>

section \<open>Committing a delivery\<close>

text \<open>C13. A commit resolves exactly the requests of its plan: each is answered (or failed) by the row
  of its boundary, or leaves when its parent could not be told; every other request is what it
  was. The boundary leaves the claims and is in the dedup set, unless the boundary folded two
  hundred rows or more.\<close>

theorem commit_resolves_its_requests:
  assumes "distinct (map (\<lambda>d. rq_id (dl_request d)) (pl_deliveries p))"
    "pl_key p \<notin> set (st_notified s)"
  shows "(\<forall>d \<in> set (pl_deliveries p). get_request (rq_id (dl_request d)) (commit_store p failed s) =
            (if rq_id (dl_request d) \<in> set failed then None
             else map_option (answer_request p d) (get_request (rq_id (dl_request d)) s)))
    \<and> (\<forall>j. j \<notin> (\<lambda>d. rq_id (dl_request d)) ` set (pl_deliveries p) \<longrightarrow>
            get_request j (commit_store p failed s) = get_request j s)
    \<and> claimed_keys (commit_store p failed s) = claimed_keys s - {pl_key p}
    \<and> (length (sg_covered (pl_signal p)) < 200 \<longrightarrow>
         pl_key p \<in> set (st_notified (commit_store p failed s)))"
proof -
  let ?s = "fold record_notified (sg_covered (pl_signal p)) (finish_delivery (pl_key p) s)"
  have c: "commit_store p failed s = fold (commit_one p failed) (pl_deliveries p) ?s"
    by (simp add: commit_store_def)
  have "pl_key p \<in> set (st_notified (commit_store p failed s))"
    if "length (sg_covered (pl_signal p)) < 200"
    unfolding c notified_commit
    by (rule finish_then_record [OF assms(2)]) (use that in \<open>simp add: NOTIFIED_TURN_HISTORY_def\<close>)
  moreover have "get_request j (commit_store p failed s) = get_request j s"
    if "j \<notin> (\<lambda>d. rq_id (dl_request d)) ` set (pl_deliveries p)" for j
    unfolding c using get_request_commit_other [OF that] by (simp add: get_request_fields)
  moreover have "get_request (rq_id (dl_request d)) (commit_store p failed s) =
      (if rq_id (dl_request d) \<in> set failed then None
       else map_option (answer_request p d) (get_request (rq_id (dl_request d)) s))"
    if "d \<in> set (pl_deliveries p)" for d
    unfolding c get_request_commit_one_of [OF assms(1) that] by (simp add: get_request_fields)
  ultimately show ?thesis using commit_store_keys by blast
qed

theorem commit_resolves_its_requests_witness:
  "\<exists>r. get_request (lit ''r1'') (commit_store ex_plan [] ex_claimed_store) = Some r
     \<and> rq_state r = Answered \<and> ex_key \<in> set (st_notified (commit_store ex_plan [] ex_claimed_store))"
proof -
  have d: "distinct (map (\<lambda>d. rq_id (dl_request d)) (pl_deliveries ex_plan))"
    "ex_delivery \<in> set (pl_deliveries ex_plan)" "rq_id (dl_request ex_delivery) = lit ''r1''"
    by (simp_all add: ex_plan_def ex_delivery_def ex_ids)
  have n: "pl_key ex_plan \<notin> set (st_notified ex_claimed_store)"
    by (simp add: ex_claimed_store_def begin_delivery_def ex_store_def)
  have g: "get_request (lit ''r1'') ex_claimed_store = Some (bind_request ex_receipt ex_request)"
    by (simp add: get_request_def ex_claimed_store_def begin_delivery_def ex_store_def ex_ids)
  have t: "plan_terminal_state ex_plan = Answered" "length (sg_covered (pl_signal ex_plan)) < 200"
    "pl_key ex_plan = ex_key"
    by (simp_all add: plan_terminal_state_def ex_plan_def ex_signal_def)
  from commit_resolves_its_requests [OF d(1) n, of "[]"] have
    "get_request (lit ''r1'') (commit_store ex_plan [] ex_claimed_store)
      = Some (answer_request ex_plan ex_delivery (bind_request ex_receipt ex_request))"
    "ex_key \<in> set (st_notified (commit_store ex_plan [] ex_claimed_store))"
    using d g t by auto
  then show ?thesis using t by (simp add: answer_request_def)
qed

section \<open>Restarting\<close>

text \<open>C15. Repairing a binding follows the recorded continuations of the bound turn to the end of their
  chain, through however many turns: the request ends up on a turn nothing continues. Only a
  fork or a loop on that chain leaves the binding, and then the request is marked.\<close>

theorem repair_follows_chain:
  assumes "\<not> is_terminal (rq_state r)" "rq_turn_id r = Some b"
  shows "(\<exists>h. rq_turn_id (repair_request rows r) = Some h \<and> (b, h) \<in> (continues_to rows)\<^sup>*
            \<and> h \<notin> Domain (continues_to rows) \<and> rq_bind_error (repair_request rows r) = rq_bind_error r)
    \<or> (rq_turn_id (repair_request rows r) = Some b \<and> rq_bind_error (repair_request rows r) \<noteq> None
        \<and> (\<exists>x. (b, x) \<in> (continues_to rows)\<^sup>*
             \<and> ((\<exists>t u. t \<noteq> u \<and> (x, t) \<in> continues_to rows \<and> (x, u) \<in> continues_to rows)
                 \<or> (x, x) \<in> (continues_to rows)\<^sup>+)))"
proof -
  have spec: "case walk_chain rows [b] b of
      ChainHead h \<Rightarrow> (b, h) \<in> (continues_to rows)\<^sup>* \<and> successors rows h = []
    | ChainFork h n \<Rightarrow> (b, h) \<in> (continues_to rows)\<^sup>* \<and> n = length (successors rows h) \<and> 2 \<le> n
    | ChainLoop x \<Rightarrow> (b, x) \<in> (continues_to rows)\<^sup>* \<and> (x, x) \<in> (continues_to rows)\<^sup>+"
    by (rule walk_chain_spec) simp_all
  show ?thesis
  proof (cases "walk_chain rows [b] b")
    case (ChainHead h)
    then have "(b, h) \<in> (continues_to rows)\<^sup>* \<and> h \<notin> Domain (continues_to rows)"
      using spec by (simp add: no_successor)
    moreover have "rq_turn_id (repair_request rows r) = Some h"
      "rq_bind_error (repair_request rows r) = rq_bind_error r"
      using assms ChainHead by (simp_all add: repair_request_def)
    ultimately show ?thesis by blast
  next
    case (ChainFork h n)
    then have "(b, h) \<in> (continues_to rows)\<^sup>*"
      "\<exists>t u. t \<noteq> u \<and> (h, t) \<in> continues_to rows \<and> (h, u) \<in> continues_to rows"
      using spec two_successors by simp_all
    then show ?thesis using assms ChainFork by (auto simp: repair_request_def)
  next
    case (ChainLoop x)
    then show ?thesis using assms spec by (auto simp: repair_request_def)
  qed
qed

definition ex_row :: "turn_id \<Rightarrow> turn_id \<Rightarrow> turn_id option \<Rightarrow> turn_record" where
  "ex_row row exec cont = \<lparr> tr_turn_id = row, tr_exec = Some exec, tr_continues = cont,
     tr_assistant = lit ''text'', tr_conclusion = None, tr_usage = JNull, tr_status = None,
     tr_outcome = None, tr_error_kind = None, tr_error = None \<rparr>"

theorem repair_follows_chain_witness:
  "let r = repair_request [ex_row (lit ''row1'') (lit ''t1'') None,
       ex_row (lit ''row2'') (lit ''t2'') (Some (lit ''t1''))] (bind_request ex_receipt ex_request)
   in (rq_bind_error r = None \<or> rq_turn_id r = Some (lit ''t1''))"
proof -
  let ?r = "bind_request ex_receipt ex_request"
  have "\<not> is_terminal (rq_state ?r)" "rq_turn_id ?r = Some (lit ''t1'')" "rq_bind_error ?r = None"
    by (simp_all add: bind_request_def ex_receipt_def bound_state_def)
  then show ?thesis
    using repair_follows_chain [of ?r "lit ''t1''" "[ex_row (lit ''row1'') (lit ''t1'') None,
       ex_row (lit ''row2'') (lit ''t2'') (Some (lit ''t1''))]"] by (auto simp: Let_def)
qed

text \<open>C14. A restart owes nobody silence: for every outstanding request with a provable binding whose
  turn has a row on disk that is not an interrupted one and was not told yet, exactly one settled
  boundary signal is produced for that turn; it carries the last such row, covers all of them,
  and resolves the request.\<close>

theorem restart_answers_bound_requests:
  assumes "r \<in> set (outstanding s)" "rq_bind_error r = None" "rq_turn_id r = Some e"
    "row \<in> set rows" "tr_exec row = Some e" "missed_turn s row"
  shows "\<exists>sg. filter (\<lambda>sg. sg_exec sg = Some e) (stranded_boundary_signals c s rows v host) = [sg]
    \<and> sg_child sg = c \<and> sg_boundary sg \<and> signal_terminal sg
    \<and> sg_turn_id sg = tr_turn_id (last (filter (\<lambda>t. tr_exec t = Some e) (filter (missed_turn s) rows)))
    \<and> tr_turn_id row \<in> set (sg_covered sg) \<and> r \<in> set (resolved_by sg s)"
proof -
  let ?b = "bound_turns s" and ?m = "filter (missed_turn s) rows"
  let ?mine = "filter (\<lambda>t. tr_exec t = Some e) ?m"
  have e: "e \<in> set ?b" using assms(1-3) by (auto simp: bound_turns_def mem_map_filter)
  have ne: "?mine \<noteq> []" using assms(4-6) by (auto simp: filter_empty_conv)
  have g: "distinct (map fst (turn_groups ?b ?m))" "map_of (turn_groups ?b ?m) e = Some ?mine"
    using turn_groups_spec [of ?b ?m] e ne by (auto simp: Let_def)
  have ex: "sg_exec (group_signal c rows v host grp) = Some (fst grp)" for grp
    by (simp add: group_signal_def Let_def)
  have "filter (\<lambda>sg. sg_exec sg = Some e) (stranded_boundary_signals c s rows v host)
      = map (group_signal c rows v host) (filter (\<lambda>grp. fst grp = e) (turn_groups ?b ?m))"
    unfolding stranded_boundary_signals_def filter_map by (simp add: comp_def ex)
  also have "\<dots> = [group_signal c rows v host (e, ?mine)]" using filter_map_of [OF g] by simp
  finally have one: "filter (\<lambda>sg. sg_exec sg = Some e) (stranded_boundary_signals c s rows v host)
      = [group_signal c rows v host (e, ?mine)]" .
  have "tr_turn_id row \<in> set (map tr_turn_id ?mine)" using assms(4-6) by auto
  moreover have "r \<in> set (bound_to e s)" using assms(1,3) by (auto simp: bound_to_def outstanding_def)
  ultimately show ?thesis
    by (intro exI [of _ "group_signal c rows v host (e, ?mine)"])
      (simp add: one, simp add: group_signal_def Let_def signal_terminal_def is_settled_def resolved_by_def)
qed

theorem restart_answers_bound_requests_witness:
  "\<exists>sg. filter (\<lambda>sg. sg_exec sg = Some (lit ''t1'')) (stranded_boundary_signals (lit ''s2'') ex_store
     [ex_row (lit ''row1'') (lit ''t1'') None] Claude (lit ''local'')) = [sg]
     \<and> bind_request ex_receipt ex_request \<in> set (resolved_by sg ex_store)"
proof -
  have "bind_request ex_receipt ex_request \<in> set (outstanding ex_store)"
    "rq_bind_error (bind_request ex_receipt ex_request) = None"
    "rq_turn_id (bind_request ex_receipt ex_request) = Some (lit ''t1'')"
    "missed_turn ex_store (ex_row (lit ''row1'') (lit ''t1'') None)"
    "tr_exec (ex_row (lit ''row1'') (lit ''t1'') None) = Some (lit ''t1'')"
    by (simp_all add: outstanding_def ex_store_def bind_request_def ex_receipt_def bound_state_def
        missed_turn_def ex_row_def)
  then show ?thesis
    using restart_answers_bound_requests [of "bind_request ex_receipt ex_request" ex_store "lit ''t1''"
        "ex_row (lit ''row1'') (lit ''t1'') None" "[ex_row (lit ''row1'') (lit ''t1'') None]"
        "lit ''s2''" Claude "lit ''local''"] by auto
qed

section \<open>Stopping\<close>

text \<open>A stop leaves a request outstanding only when a queue file provably still holds its line and
  the turn that was cut is not its own; it then leaves it exactly as it was. Requests of the cut
  turn become interrupted, and a request nothing holds becomes undelivered precisely when its
  bytes never left ccteam.\<close>

theorem stop_settles_what_nothing_holds:
  assumes "\<not> is_terminal (rq_state r)"
  shows "(\<not> is_terminal (rq_state (settle_stopped_request held cut_turn r)) \<longrightarrow>
            settle_stopped_request held cut_turn r = r \<and> holding held r \<noteq> None
            \<and> (rq_turn_id r = cut_turn \<longrightarrow> cut_turn = None \<or> cut_turn = Some []))
    \<and> (rq_turn_id r = cut_turn \<and> cut_turn \<notin> {None, Some []} \<longrightarrow>
            rq_state (settle_stopped_request held cut_turn r) = Interrupted)
    \<and> (rq_state (settle_stopped_request held cut_turn r) = Undelivered \<longrightarrow> \<not> was_written held r)
    \<and> (holding held r = None \<longrightarrow> is_terminal (rq_state (settle_stopped_request held cut_turn r)))"
proof -
  have "rq_state r \<noteq> Undelivered" using assms by auto
  then show ?thesis
    using assms by (cases "rq_turn_id r") (auto simp: settle_stopped_request_def Let_def)
qed

theorem stop_settles_what_nothing_holds_witness:
  "rq_state (settle_stopped_request \<lparr> rt_parked = {}, rt_in_flight = {}, rt_pending = {}, rt_unattributed = 0 \<rparr>
     (Some (lit ''t1'')) (bind_request ex_receipt ex_request)) = Interrupted"
  using stop_settles_what_nothing_holds [of "bind_request ex_receipt ex_request"
      "\<lparr> rt_parked = {}, rt_in_flight = {}, rt_pending = {}, rt_unattributed = 0 \<rparr>" "Some (lit ''t1'')"]
  by (simp add: bind_request_def ex_receipt_def bound_state_def)

section \<open>Excerpts\<close>

text \<open>No excerpt exceeds its cap, whatever the answer, its conclusion, the cap and the marker.\<close>

theorem excerpt_fits_cap:
  "length (bt_text (answer_excerpt answer conclusion mx marker)) \<le> mx"
  by (rule answer_excerpt_fits_aux)

text \<open>The head/tail cut counts exactly: for a text of fewer than ten to the fifteen characters and
  a cap its marker fits in, the sixteen rounds settle, the result is a prefix, the read recipe
  and a suffix filling the cap to the last character, and the number the recipe names is the
  number of characters left out.\<close>

theorem excerpt_counts_exactly:
  assumes "mx < length t" "length t < 10 ^ 15"
    "length (full_answer_marker (length t) tot child turn) < mx"
  shows "\<exists>h l. h + l < length t
    \<and> bt_text (truncate_head_tail_with_marker t mx (\<lambda>n. full_answer_marker n tot child turn))
        = take h t @ full_answer_marker (length t - (h + l)) tot child turn @ drop (length t - l) t
    \<and> h + length (full_answer_marker (length t - (h + l)) tot child turn) + l = mx"
  by (rule truncate_exact_aux)
    (use assms full_answer_marker_mono full_answer_marker_span in simp_all)

theorem excerpt_counts_exactly_witness:
  "\<exists>h l. bt_text (truncate_head_tail_with_marker (replicate 3000 97) 2000
        (\<lambda>n. full_answer_marker n 3000 (lit ''s2'') (lit ''row1'')))
      = take h (replicate 3000 97) @ full_answer_marker (3000 - (h + l)) 3000 (lit ''s2'') (lit ''row1'')
        @ drop (3000 - l) (replicate 3000 97)"
proof -
  have "length (dec n) \<le> 15" if "n < 10 ^ 15" for n
    using length_radix_upper [of 10 n 14] that by (simp add: dec_def)
  then have "length (dec 3000) \<le> 15" by simp
  then have "length (full_answer_marker 3000 3000 (lit ''s2'') (lit ''row1'')) < 2000"
    by (simp add: full_answer_marker_def ellipsis_def read_budget_for_def AGENT_READ_MIN_MAX_CHARS_def
        AGENT_READ_MAX_MAX_CHARS_def)
  then show ?thesis
    using excerpt_counts_exactly [of 2000 "replicate 3000 97" 3000 "lit ''s2''" "lit ''row1''"]
    by (auto simp del: take_replicate drop_replicate)
qed

end
