(* ===== verification/Lost_Updates.thy ===== *)
theory Lost_Updates
  imports Restart_Claims
begin

text \<open>
  Two interleavings of the gateway's own operations after which a delegation record has lost a
  fact: the accept path installs what it read from disk over a mirror that held more, and the
  deferred settlement of a stop writes a snapshot taken before a dispatch that was accepted in
  between.
\<close>

lemma find_retained:
  "find P rs = Some r \<Longrightarrow> \<not> is_terminal (rq_state r) \<Longrightarrow> find P (retain_resolved n rs) = Some r"
  by (induction n rs rule: retain_resolved.induct) (auto split: if_splits)

lemma find_append_Some: "find P xs = Some y \<Longrightarrow> find P (xs @ ys) = Some y"
  by (induction xs) auto

lemma get_request_accept_old:
  assumes "get_request i s = Some r" "\<not> is_terminal (rq_state r)"
  shows "get_request i (accept new s) = Some r"
proof -
  have "find (\<lambda>r. rq_id r = i) (st_requests s @ [new]) = Some r"
    using assms(1) unfolding get_request_def by (rule find_append_Some)
  then show ?thesis
    using find_retained assms(2) by (auto simp: get_request_def accept_def prune_def Let_def)
qed

lemma get_request_accept_new:
  assumes "\<not> is_terminal (rq_state new)"
  shows "get_request (rq_id new) (accept new s) \<noteq> None"
proof -
  have "new \<in> set (outstanding (accept new s))" using assms by (simp add: outstanding_accept)
  then show ?thesis by (auto simp: outstanding_def get_request_def find_None_iff)
qed

lemma accept_installs:
  assumes "accept_delegation_request env c r g = (g', Inr (Some x))" "ae_resolved env = Some (dir, slug)"
  shows "x = rq_id r \<and> (\<exists>m. gw_delegations g' c = Some m \<and> mr_store m =
      accept r (case read_delegation_requests (gw_disk g (dir, c)) of Some s \<Rightarrow> s | None \<Rightarrow> default_store))"
proof -
  obtain g1 ok where w: "store_write (ae_io env) dir c (accept r
      (case read_delegation_requests (gw_disk g (dir, c)) of Some s \<Rightarrow> s | None \<Rightarrow> default_store)) g = (g1, ok)"
    by fastforce
  then have "x = rq_id r \<and> g' = install_store c dir slug (accept r
      (case read_delegation_requests (gw_disk g (dir, c)) of Some s \<Rightarrow> s | None \<Rightarrow> default_store)) g1"
    using assms by (auto simp: accept_delegation_request_def Let_def split: if_splits)
  then show ?thesis by (auto simp: install_store_def Let_def set_mirror_def split: option.splits prod.splits)
qed

text \<open>C31. A binding whose write failed is kept by the mirror only until the next dispatch to the same
  child: the accept path reads the record from disk, where the binding never arrived, and puts
  it in place of the mirror's. The earlier request is then bound to no turn and no longer marked
  as unknown, so the end of its turn resolves nothing.\<close>

theorem accept_forgets_undurable_binding:
  assumes bind: "bind_delegation_request io failure c i rc g = (g1, Inl err)"
    and m: "gw_delegations g c = Some m" "mr_dir m = dir" "get_request i (mr_store m) = Some r"
    and disk: "read_delegation_requests (gw_disk g (dir, c)) = Some d" "get_request i d = Some r0"
      "\<not> is_terminal (rq_state r0)" "rq_turn_id r0 = None"
    and acc: "accept_delegation_request env c new g1 = (g2, Inr (Some x))" "ae_resolved env = Some (dir, slug)"
  shows "(\<exists>m1. gw_delegations g1 c = Some m1 \<and> get_request i (mr_store m1)
           = Some (bind_request rc r \<lparr> rq_bind_error := Some failure \<rparr>))
    \<and> (\<exists>m2. gw_delegations g2 c = Some m2 \<and> get_request i (mr_store m2) = Some r0
         \<and> r0 \<notin> set (bound_to (rc_turn_id rc) (mr_store m2)))"
proof -
  let ?m1 = "m \<lparr> mr_store := update_request i (bind_request rc) (mr_store m) \<rparr>"
  obtain gp ok where p: "persist_delegation_store io c (set_mirror c ?m1 g) = (gp, ok)" by fastforce
  have ok: "\<not> ok" and g1: "g1 = set_mirror c (?m1 \<lparr> mr_store :=
      update_request i (rq_bind_error_update (\<lambda>_. Some failure)) (mr_store ?m1) \<rparr>) gp"
    using bind m p by (auto simp: bind_delegation_request_def Let_def split: if_splits)
  have "gw_disk gp (dir, c) = gw_disk g (dir, c)"
    using p ok m persist_cases
    by (fastforce simp: persist_delegation_store_def set_mirror_def store_write_def set_file_def split: prod.splits)
  then have f: "gw_disk g1 (dir, c) = gw_disk g (dir, c)" by (simp add: g1 set_mirror_def)
  have "get_request i (update_request i (rq_bind_error_update (\<lambda>_. Some failure)) (mr_store ?m1))
      = Some (bind_request rc r \<lparr> rq_bind_error := Some failure \<rparr>)"
    using m by (simp add: get_request_update bind_request_def)
  then have 1: "\<exists>m1. gw_delegations g1 c = Some m1 \<and> get_request i (mr_store m1)
      = Some (bind_request rc r \<lparr> rq_bind_error := Some failure \<rparr>)"
    by (simp add: g1 set_mirror_def)
  obtain m2 where "gw_delegations g2 c = Some m2" "mr_store m2 = accept new d"
    using accept_installs [OF acc] f disk by auto
  then show ?thesis
    using 1 get_request_accept_old [OF disk(2,3)] disk(4) by (auto simp: bound_to_def)
qed

definition ex_request2 :: request where
  "ex_request2 = request_accepted (lit ''r2'') (lit ''now'') (lit ''s1'') NBrief None RQueue None"

definition fs_full :: fs_outcome where
  "fs_full = fs_good \<lparr> fs_write_ok := False \<rparr>"

lemma ex_request2_fields [simp]:
  "rq_id ex_request2 = lit ''r2''" "rq_state ex_request2 = Accepted"
  by (simp_all add: ex_request2_def request_accepted_def)

lemma ex_accepted_wf: "store_wf (default_store \<lparr> st_requests := [ex_request] \<rparr>)"
  by (simp add: store_wf_def request_ok_def request_trail.log_ok_Nil notified_log.log_ok_Nil)

lemma accept_succeeds:
  assumes "ae_resolved env = Some (dir, slug)" "ae_lock1 env" "ae_lock2 env" "ae_io env = fs_good"
    "ae_after env = None"
  shows "snd (accept_delegation_request env c r g) = Inr (Some (rq_id r))"
  using assms by (simp add: accept_delegation_request_def store_write_def persist_good
      session_matches_def Let_def)

theorem accept_forgets_undurable_binding_witness:
  "\<exists>g1 g2 err x m2 r0. bind_delegation_request fs_full (lit ''full'') (lit ''s2'') (lit ''r1'') ex_receipt ex_accepted
        = (g1, Inl err)
    \<and> accept_delegation_request ex_env (lit ''s2'') ex_request2 g1 = (g2, Inr (Some x))
    \<and> gw_delegations g2 (lit ''s2'') = Some m2 \<and> get_request (lit ''r1'') (mr_store m2) = Some r0
    \<and> r0 \<notin> set (bound_to (lit ''t1'') (mr_store m2))"
proof -
  let ?s = "default_store \<lparr> st_requests := [ex_request] \<rparr>"
  let ?m = "fresh_mirror 1 (lit ''slug'') (lit ''dir'') ?s"
  have m: "gw_delegations ex_accepted (lit ''s2'') = Some ?m" "mr_dir ?m = lit ''dir''"
    "get_request (lit ''r1'') (mr_store ?m) = Some ex_request"
    by (simp_all add: ex_accepted_def ex_accepted_eq fresh_mirror_def get_request_def)
  have d: "read_delegation_requests (gw_disk ex_accepted (lit ''dir'', lit ''s2'')) = Some (forget_bind_errors ?s)"
    using read_back [OF ex_accepted_wf] by (simp add: ex_accepted_def ex_accepted_eq)
  have r: "get_request (lit ''r1'') (forget_bind_errors ?s) = Some (forget_bind_error ex_request)"
    by (simp add: get_request_def forget_bind_errors_def forget_bind_error_def)
  obtain g1 res where b: "bind_delegation_request fs_full (lit ''full'') (lit ''s2'') (lit ''r1'') ex_receipt ex_accepted
      = (g1, res)" by fastforce
  have "persist_delegation_requests fs_full (update_request (lit ''r1'') (bind_request ex_receipt) ?s) f = (f, False)" for f
    by (simp add: persist_delegation_requests_def update_request_def fs_full_def fs_good_def atomic_write_durable_def)
  then have "\<exists>err. res = Inl err"
    using b m by (auto simp: bind_delegation_request_def persist_delegation_store_def set_mirror_def
        store_write_def fresh_mirror_def Let_def)
  then obtain err where b': "bind_delegation_request fs_full (lit ''full'') (lit ''s2'') (lit ''r1'') ex_receipt ex_accepted
      = (g1, Inl err)" using b by blast
  obtain g2 where a: "accept_delegation_request ex_env (lit ''s2'') ex_request2 g1 = (g2, Inr (Some (lit ''r2'')))"
    using accept_succeeds [of ex_env "lit ''dir''" "lit ''slug''" "lit ''s2''" ex_request2 g1]
    by (metis (no_types, lifting) ex_env_def ex_request2_fields(1) accept_env.select_convs prod.collapse)
  have "ae_resolved ex_env = Some (lit ''dir'', lit ''slug'')" by (simp add: ex_env_def)
  from accept_forgets_undurable_binding [OF b' m d r _ _ a this] b' a show ?thesis
    by (fastforce simp: forget_bind_error_def ex_receipt_def)
qed

text \<open>A stop that discharges its settlement in the background can erase a dispatch: when a request
  is accepted between the settling and the deferred write, the write puts the earlier snapshot
  back, so the mirror holds the request while no reading of the file finds it, and a restart
  never learns of it.\<close>

theorem deferred_settlement_erases_dispatch:
  assumes settle: "settle_stopped_requests c held cut_turn g = (g1, st)"
    and m: "gw_delegations g c = Some m" "mr_dir m = dir" "store_wf (mr_store m)"
      "rq_id r \<notin> rq_id ` set (st_requests (mr_store m))"
    and acc: "accept_delegation_request env c r g1 = (g2, Inr (Some x))" "ae_resolved env = Some (dir, slug)"
      "\<not> is_terminal (rq_state r)"
    and flush: "persist_settlement io c st g2 = (g3, True)"
  shows "(\<exists>m3. gw_delegations g3 c = Some m3 \<and> get_request (rq_id r) (mr_store m3) \<noteq> None)
    \<and> (\<forall>s. read_delegation_requests (gw_disk g3 (dir, c)) = Some s \<longrightarrow> get_request (rq_id r) s = None)"
proof -
  let ?s = "mr_store m \<lparr> st_requests := map (settle_stopped_request held cut_turn) (st_requests (mr_store m)) \<rparr>"
  have st: "st = Some (dir, ?s)" using settle m by (auto simp: settle_stopped_requests_def Let_def)
  have wf: "store_wf ?s" by (rule store_wf_map [OF m(3)]) simp_all
  obtain f where p: "persist_delegation_requests io ?s (gw_disk g2 (dir, c)) = (f, True)"
    and g3: "g3 = set_file dir c f g2"
    using flush st by (auto simp: persist_settlement_def store_write_def split: prod.splits)
  have "get_request (rq_id r) s = None" if "read_delegation_requests f = Some s" for s
  proof -
    have "s = forget_bind_errors ?s"
      using persist_cases [OF p] read_back [OF wf] that by (auto split: if_splits)
    then have "rq_id ` set (st_requests s) = rq_id ` set (st_requests (mr_store m))"
      by (simp add: forget_bind_errors_def forget_bind_error_def image_image)
    then have "rq_id r \<notin> rq_id ` set (st_requests s)" using m(4) by simp
    then show ?thesis by (auto simp: get_request_def find_None_iff image_iff)
  qed
  moreover obtain m2 where "gw_delegations g2 c = Some m2" "get_request (rq_id r) (mr_store m2) \<noteq> None"
    using accept_installs [OF acc(1,2)] get_request_accept_new [OF acc(3)] by metis
  ultimately show ?thesis by (auto simp: g3 set_file_def)
qed

theorem deferred_settlement_erases_dispatch_witness:
  "\<exists>g1 st g2 x g3. settle_stopped_requests (lit ''s2'')
       \<lparr> rt_parked = {}, rt_in_flight = {}, rt_pending = {}, rt_unattributed = 0 \<rparr> None ex_accepted = (g1, st)
    \<and> accept_delegation_request ex_env (lit ''s2'') ex_request2 g1 = (g2, Inr (Some x))
    \<and> persist_settlement fs_good (lit ''s2'') st g2 = (g3, True)
    \<and> (\<forall>s. read_delegation_requests (gw_disk g3 (lit ''dir'', lit ''s2'')) \<noteq> Some s
         \<or> get_request (lit ''r2'') s = None)"
proof -
  let ?s = "default_store \<lparr> st_requests := [ex_request] \<rparr>"
  let ?m = "fresh_mirror 1 (lit ''slug'') (lit ''dir'') ?s"
  let ?h = "\<lparr> rt_parked = {}, rt_in_flight = {}, rt_pending = {}, rt_unattributed = 0 \<rparr>"
  have m: "gw_delegations ex_accepted (lit ''s2'') = Some ?m" "mr_dir ?m = lit ''dir''"
    "store_wf (mr_store ?m)" "rq_id ex_request2 \<notin> rq_id ` set (st_requests (mr_store ?m))"
    using ex_accepted_wf by (simp_all add: ex_accepted_def ex_accepted_eq fresh_mirror_def)
  obtain g1 st where s: "settle_stopped_requests (lit ''s2'') ?h None ex_accepted = (g1, st)" by fastforce
  obtain g2 where a: "accept_delegation_request ex_env (lit ''s2'') ex_request2 g1 = (g2, Inr (Some (lit ''r2'')))"
    using accept_succeeds [of ex_env "lit ''dir''" "lit ''slug''" "lit ''s2''" ex_request2 g1]
    by (metis (no_types, lifting) ex_env_def ex_request2_fields(1) accept_env.select_convs prod.collapse)
  have "snd (persist_settlement fs_good (lit ''s2'') st g2)"
    by (simp add: persist_settlement_def store_write_def persist_good split: option.splits prod.splits)
  then obtain g3 where f: "persist_settlement fs_good (lit ''s2'') st g2 = (g3, True)"
    by (metis (full_types) prod.collapse)
  have e: "ae_resolved ex_env = Some (lit ''dir'', lit ''slug'')" by (simp add: ex_env_def)
  show ?thesis
    using deferred_settlement_erases_dispatch [OF s m a e _ f] s a f by auto
qed

end
