(* ===== verification/Channel_Text.thy ===== *)
theory Channel_Text
  imports Prelude
begin

text \<open>
  Texts between a chat channel and the gateway: fanning a long reply into messages that fit the
  channel (\<^verbatim>\<open>ccteam-im/src/sanitize.rs\<close>) and reading the first mention of an incoming message
  (\<^verbatim>\<open>ccteam-im/src/router.rs\<close>). The splitter's cuts, byte offsets of character boundaries in the
  code, are counts of characters here; the mention parser slices at computed byte offsets, so its
  offsets are kept as bytes and a slice that hits no boundary is a panic.
\<close>

section \<open>Fitting a channel\<close>

definition len_utf16 :: "nat \<Rightarrow> nat" where
  "len_utf16 c = (if c < 65536 then 1 else 2)"

definition utf16_len :: "utext \<Rightarrow> nat" where
  "utf16_len s = sum_list (map len_utf16 s)"

definition FENCE_REOPEN_MARGIN :: nat where
  "FENCE_REOPEN_MARGIN = 24"

text \<open>The scan of \<^verbatim>\<open>pick_cut\<close>: the last cut that fits, and the last paragraph, line and blank cut in the
  second half of the budget; 0 means none.\<close>

record cut_scan =
  cs_units :: nat
  cs_hard :: nat
  cs_para :: nat
  cs_line :: nat
  cs_ws :: nat

definition mark_cut :: "nat \<Rightarrow> nat \<Rightarrow> nat option \<Rightarrow> nat \<Rightarrow> cut_scan \<Rightarrow> cut_scan" where
  "mark_cut budget e prev c st =
     (let st1 = st \<lparr> cs_units := cs_units st + len_utf16 c, cs_hard := e \<rparr> in
      if budget div 2 \<le> cs_units st1
      then if c = 10
        then (if prev = Some 10 then st1 \<lparr> cs_line := e, cs_para := e \<rparr> else st1 \<lparr> cs_line := e \<rparr>)
        else if is_whitespace c then st1 \<lparr> cs_ws := e \<rparr> else st1
      else st1)"

fun scan_cuts :: "nat \<Rightarrow> nat \<Rightarrow> nat option \<Rightarrow> utext \<Rightarrow> cut_scan \<Rightarrow> cut_scan" where
  "scan_cuts budget i prev [] st = st"
| "scan_cuts budget i prev (c # cs) st =
     (if budget < cs_units st + len_utf16 c then st
      else scan_cuts budget (i + 1) (Some c) cs (mark_cut budget (i + 1) prev c st))"

definition no_cut :: cut_scan where
  "no_cut = \<lparr> cs_units = 0, cs_hard = 0, cs_para = 0, cs_line = 0, cs_ws = 0 \<rparr>"

definition pick_cut :: "utext \<Rightarrow> nat \<Rightarrow> nat" where
  "pick_cut s budget =
     (let st = scan_cuts budget 0 None s no_cut;
          at = (if 0 < cs_para st then cs_para st else if 0 < cs_line st then cs_line st
                else if 0 < cs_ws st then cs_ws st else cs_hard st) in
      if at = 0 then min 1 (length s) else at)"

function (sequential) raw_split :: "utext \<Rightarrow> nat \<Rightarrow> utext list" where
  "raw_split [] budget = []"
| "raw_split (c # cs) budget =
     (if utf16_len (c # cs) \<le> budget then [c # cs]
      else take (pick_cut (c # cs) budget) (c # cs)
        # raw_split (drop (pick_cut (c # cs) budget) (c # cs)) budget)"
  by pat_completeness auto

lemma pick_cut_pos: "s \<noteq> [] \<Longrightarrow> 0 < pick_cut s budget"
  by (cases s) (simp_all add: pick_cut_def Let_def)

termination raw_split
  by (relation "measure (\<lambda>(s, budget). length s)") (simp_all add: pick_cut_pos)

definition fence :: utext where
  "fence = [96, 96, 96]"

text \<open>\<^verbatim>\<open>str::lines\<close>: pieces between line ends, a last empty one dropped, a carriage return at an end
  removed.\<close>

fun split_lines :: "utext \<Rightarrow> utext \<Rightarrow> utext list" where
  "split_lines acc [] = (if acc = [] then [] else [acc])"
| "split_lines acc (c # cs) =
     (if c = 10 then (if acc \<noteq> [] \<and> last acc = 13 then butlast acc else acc) # split_lines [] cs
      else split_lines (acc @ [c]) cs)"

definition lines_of :: "utext \<Rightarrow> utext list" where
  "lines_of s = split_lines [] s"

definition strip_fence :: "utext \<Rightarrow> utext option" where
  "strip_fence l = (if take 3 l = fence then Some (drop 3 l) else None)"

definition fence_step :: "bool \<times> utext \<Rightarrow> utext \<Rightarrow> bool \<times> utext" where
  "fence_step st l = (case strip_fence (trim_start l) of
       Some rest \<Rightarrow> if fst st then (False, []) else (True, trim rest)
     | None \<Rightarrow> st)"

definition fence_state :: "utext \<Rightarrow> bool \<times> utext" where
  "fence_state s = foldl fence_step (False, []) (lines_of s)"

fun balance_fences :: "utext option \<Rightarrow> utext list \<Rightarrow> utext list" where
  "balance_fences carry [] = []"
| "balance_fences carry (p # ps) =
     (let s = (case carry of Some info \<Rightarrow> fence @ info @ [10] | None \<Rightarrow> []) @ p;
          (open_fence, info) = fence_state s in
      if open_fence
      then (s @ (if s \<noteq> [] \<and> last s = 10 then [] else [10]) @ fence) # balance_fences (Some info) ps
      else s # balance_fences None ps)"

fun has_fence :: "utext \<Rightarrow> bool" where
  "has_fence [] = False"
| "has_fence (c # cs) = (take 3 (c # cs) = fence \<or> has_fence cs)"

definition split_for_channel :: "utext \<Rightarrow> nat \<Rightarrow> utext list" where
  "split_for_channel s max_units0 =
     (let max_units = max max_units0 1 in
      if utf16_len s \<le> max_units then [s]
      else (let fenced = has_fence s;
                budget = (if fenced then max (max_units - FENCE_REOPEN_MARGIN) 1 else max_units);
                raw = raw_split s budget in
            if fenced then balance_fences None raw else raw))"

subsection \<open>The cuts\<close>

lemma utf16_len_simps [simp]:
  "utf16_len [] = 0" "utf16_len (c # cs) = len_utf16 c + utf16_len cs"
  "utf16_len (xs @ ys) = utf16_len xs + utf16_len ys"
  by (simp_all add: utf16_len_def)

lemma len_utf16_pos [simp]: "0 < len_utf16 c"
  by (simp add: len_utf16_def)

lemma utf16_len_take: "m \<le> n \<Longrightarrow> utf16_len (take m s) \<le> utf16_len (take n s)"
proof -
  assume "m \<le> n"
  then have "take n s = take m s @ take (n - m) (drop m s)" by (metis le_add_diff_inverse take_add)
  then show ?thesis by simp
qed

text \<open>Every cut the scan records leaves a prefix within the budget.\<close>

definition scan_inv :: "nat \<Rightarrow> utext \<Rightarrow> nat \<Rightarrow> cut_scan \<Rightarrow> bool" where
  "scan_inv budget s i st \<longleftrightarrow> cs_hard st = i \<and> cs_units st = utf16_len (take i s) \<and> cs_units st \<le> budget
     \<and> cs_para st \<le> i \<and> cs_line st \<le> i \<and> cs_ws st \<le> i"

lemma mark_cut_inv:
  assumes "scan_inv budget s i st" "take (i + 1) s = take i s @ [c]" "\<not> budget < cs_units st + len_utf16 c"
  shows "scan_inv budget s (i + 1) (mark_cut budget (i + 1) prev c st)"
  using assms by (auto simp: scan_inv_def mark_cut_def Let_def)

lemma scan_cuts_inv:
  "scan_inv budget s i st \<Longrightarrow> drop i s = cs \<Longrightarrow> i \<le> length s \<Longrightarrow>
     \<exists>j. scan_inv budget s j (scan_cuts budget i prev cs st) \<and> j \<le> length s"
proof (induction cs arbitrary: i prev st)
  case Nil
  then show ?case by auto
next
  case (Cons c cs)
  have l: "i < length s" using Cons.prems(2) by (metis drop_all leI list.distinct(1))
  have c: "s ! i = c" and d: "drop (i + 1) s = cs"
    using Cons.prems(2) Cons_nth_drop_Suc [OF l] by simp_all
  have t: "take (i + 1) s = take i s @ [c]" using take_Suc_conv_app_nth [OF l] c by simp
  show ?case
  proof (cases "budget < cs_units st + len_utf16 c")
    case True
    then show ?thesis using Cons.prems by auto
  next
    case False
    have "i + 1 \<le> length s" using l by simp
    from Cons.IH [OF mark_cut_inv [OF Cons.prems(1) t False] d this, of "Some c"]
    show ?thesis using False by simp
  qed
qed

lemma pick_cut_fits:
  assumes "s \<noteq> []"
  shows "pick_cut s budget \<le> length s
    \<and> (utf16_len (take (pick_cut s budget) s) \<le> budget \<or> pick_cut s budget = 1)"
proof -
  obtain j where j: "scan_inv budget s j (scan_cuts budget 0 None s no_cut)" "j \<le> length s"
    using scan_cuts_inv [of budget s 0 no_cut s None] by (auto simp: scan_inv_def no_cut_def)
  let ?st = "scan_cuts budget 0 None s no_cut"
  let ?at = "if 0 < cs_para ?st then cs_para ?st else if 0 < cs_line ?st then cs_line ?st
    else if 0 < cs_ws ?st then cs_ws ?st else cs_hard ?st"
  have at: "?at \<le> j" using j(1) by (auto simp: scan_inv_def)
  have fit: "utf16_len (take ?at s) \<le> budget"
    using utf16_len_take [OF at, of s] j(1) unfolding scan_inv_def by linarith
  have p: "pick_cut s budget = (if ?at = 0 then min 1 (length s) else ?at)" by (simp add: pick_cut_def Let_def)
  have "Suc 0 \<le> length s" using assms by (cases s) auto
  then show ?thesis using at fit j(2) unfolding p by (cases "?at = 0") (auto simp: min_def)
qed

lemma raw_split_spec:
  "concat (raw_split s budget) = s
   \<and> list_all (\<lambda>p. p \<noteq> [] \<and> (utf16_len p \<le> budget \<or> length p = 1)) (raw_split s budget)"
proof (induction s budget rule: raw_split.induct)
  case (2 c cs budget)
  let ?s = "c # cs" and ?k = "pick_cut (c # cs) budget"
  show ?case
  proof (cases "utf16_len ?s \<le> budget")
    case False
    have k: "0 < ?k" "?k \<le> length ?s" "utf16_len (take ?k ?s) \<le> budget \<or> ?k = 1"
      using pick_cut_pos [of ?s budget] pick_cut_fits [of ?s budget] by simp_all
    have "raw_split ?s budget = take ?k ?s # raw_split (drop ?k ?s) budget"
      using False by (simp only: raw_split.simps if_False)
    then show ?thesis
      using "2.IH" [OF False] k by (auto simp del: raw_split.simps utf16_len_simps take_Cons' drop_Cons')
  qed simp
qed simp

section \<open>Mentions\<close>

text \<open>UTF-8 lengths, and slicing at a byte offset: \<^verbatim>\<open>None\<close> when the offset is no boundary.\<close>

definition len_utf8 :: "nat \<Rightarrow> nat" where
  "len_utf8 c = (if c < 128 then 1 else if c < 2048 then 2 else if c < 65536 then 3 else 4)"

definition byte_len :: "utext \<Rightarrow> nat" where
  "byte_len s = sum_list (map len_utf8 s)"

fun slice_from :: "utext \<Rightarrow> nat \<Rightarrow> utext option" where
  "slice_from s 0 = Some s"
| "slice_from [] (Suc n) = None"
| "slice_from (c # cs) (Suc n) = (if len_utf8 c \<le> Suc n then slice_from cs (Suc n - len_utf8 c) else None)"

fun slice_to :: "utext \<Rightarrow> nat \<Rightarrow> utext option" where
  "slice_to s 0 = Some []"
| "slice_to [] (Suc n) = None"
| "slice_to (c # cs) (Suc n) =
     (if len_utf8 c \<le> Suc n then map_option (\<lambda>r. c # r) (slice_to cs (Suc n - len_utf8 c)) else None)"

definition handle_char :: "nat \<Rightarrow> bool" where
  "handle_char c \<longleftrightarrow> (48 \<le> c \<and> c \<le> 57) \<or> (65 \<le> c \<and> c \<le> 90) \<or> (97 \<le> c \<and> c \<le> 122) \<or> c = 95 \<or> c = 45"

fun scan_mention :: "nat \<Rightarrow> nat option \<Rightarrow> utext \<Rightarrow> utext \<Rightarrow> nat option \<times> utext" where
  "scan_mention i start handle [] = (start, handle)"
| "scan_mention i start handle (c # cs) =
     (if c = 64 then scan_mention (i + len_utf8 c) (Some i) handle cs
      else if start \<noteq> None
        then if handle_char c then scan_mention (i + len_utf8 c) start (handle @ [c]) cs else (start, handle)
        else scan_mention (i + len_utf8 c) start handle cs)"

datatype 'a panicking = Returns 'a | Panics

definition parse_first_mention :: "utext \<Rightarrow> (utext \<times> utext) option panicking" where
  "parse_first_mention s = (case scan_mention 0 None [] s of
       (None, _) \<Rightarrow> Returns None
     | (Some start, handle) \<Rightarrow>
         if handle = [] then Returns None
         else (let e = start + 1 + byte_len handle in
           case slice_to s start of
             None \<Rightarrow> Panics
           | Some before \<Rightarrow>
               if e < byte_len s
               then (case slice_from s e of
                   None \<Rightarrow> Panics
                 | Some after \<Rightarrow> Returns (Some (handle, trim (before @ after))))
               else Returns (Some (handle, trim before))))"

lemma len_utf8_pos [simp]: "0 < len_utf8 c"
  by (simp add: len_utf8_def)

lemma byte_len_simps [simp]:
  "byte_len [] = 0" "byte_len (c # cs) = len_utf8 c + byte_len cs" "byte_len (xs @ ys) = byte_len xs + byte_len ys"
  by (simp_all add: byte_len_def)

lemma byte_len_zero [simp]: "byte_len s = 0 \<longleftrightarrow> s = []"
  using len_utf8_pos by (cases s) (auto simp del: len_utf8_pos simp: len_utf8_def)

lemma slice_from_step: "slice_from (c # cs) (len_utf8 c + n) = slice_from cs n"
proof -
  obtain m where "len_utf8 c = Suc m" using gr0_implies_Suc [OF len_utf8_pos] by blast
  then show ?thesis by simp
qed

lemma slice_from_split [simp]: "slice_from (xs @ ys) (byte_len xs + n) = slice_from ys n"
  by (induction xs) (simp_all add: add.assoc slice_from_step)

lemma slice_to_step: "slice_to (c # cs) (len_utf8 c + n) = map_option (\<lambda>r. c # r) (slice_to cs n)"
proof -
  obtain m where "len_utf8 c = Suc m" using gr0_implies_Suc [OF len_utf8_pos] by blast
  then show ?thesis by simp
qed

lemma slice_to_split [simp]: "slice_to (xs @ ys) (byte_len xs) = Some xs"
  by (induction xs) (simp_all add: slice_to_step)

lemma handle_char_ascii: "handle_char c \<Longrightarrow> len_utf8 c = 1 \<and> c \<noteq> 64"
  by (auto simp: handle_char_def len_utf8_def)

lemma scan_before:
  "64 \<notin> set pre \<Longrightarrow> scan_mention i None [] (pre @ s) = scan_mention (i + byte_len pre) None [] s"
  by (induction pre arbitrary: i) (auto simp: add.assoc)

lemma scan_handle:
  "list_all handle_char h \<Longrightarrow>
     scan_mention i (Some st) acc (h @ s) = scan_mention (i + length h) (Some st) (acc @ h) s"
  by (induction h arbitrary: i acc) (auto dest: handle_char_ascii)

lemma handle_bytes: "list_all handle_char h \<Longrightarrow> byte_len h = length h"
  by (induction h) (auto dest: handle_char_ascii)

lemma scan_stop:
  "post = [] \<or> (\<not> handle_char (hd post) \<and> hd post \<noteq> 64) \<Longrightarrow> scan_mention i (Some st) acc post = (Some st, acc)"
  by (cases post) auto

section \<open>Properties\<close>

text \<open>C30. A reply without code fences is split without losing or changing a character: the messages
  concatenated are the reply, none is empty, and each fits the channel unless it is one single
  character wider than the channel allows.\<close>

theorem plain_split_lossless_and_fits:
  assumes "\<not> has_fence s" "s \<noteq> []"
  shows "concat (split_for_channel s limit) = s
    \<and> list_all (\<lambda>p. p \<noteq> [] \<and> (utf16_len p \<le> max limit 1 \<or> length p = 1)) (split_for_channel s limit)"
  using assms raw_split_spec [of s "max limit 1"] by (simp add: split_for_channel_def Let_def)

text \<open>The first mention of a message is its first at sign followed by the longest run of handle
  characters: that run is the handle, and the rest is the message without it, trimmed, provided the
  run is not followed by another at sign.\<close>

theorem mention_is_first_handle:
  assumes "64 \<notin> set pre" "list_all handle_char h" "h \<noteq> []"
    "post = [] \<or> (\<not> handle_char (hd post) \<and> hd post \<noteq> 64)"
  shows "parse_first_mention (pre @ 64 # h @ post) = Returns (Some (h, trim (pre @ post)))"
proof -
  let ?s = "pre @ 64 # h @ post"
  have one: "len_utf8 64 = 1" by (simp add: len_utf8_def)
  have scan: "scan_mention 0 None [] ?s = (Some (byte_len pre), h)"
    using scan_before [OF assms(1), of 0] scan_handle [OF assms(2)] scan_stop [OF assms(4)] by simp
  have all': "?s = (pre @ 64 # h) @ post" by simp
  have len: "byte_len (pre @ 64 # h) = byte_len pre + 1 + byte_len h" by (simp add: one)
  have after: "slice_from ?s (byte_len pre + 1 + byte_len h) = Some post"
    using slice_from_split [of "pre @ 64 # h" post 0] unfolding len all' by simp
  have before: "slice_to ?s (byte_len pre) = Some pre" by (rule slice_to_split)
  show ?thesis
  proof (cases "post = []")
    case True
    then show ?thesis using assms(3) scan before by (simp add: parse_first_mention_def Let_def one)
  next
    case False
    then have "byte_len pre + 1 + byte_len h < byte_len ?s"
      using byte_len_zero [of post] by (simp add: one del: byte_len_zero)
    then show ?thesis using assms(3) scan before after by (simp add: parse_first_mention_def Let_def)
  qed
qed

text \<open>A mention run into another one panics: the handle collected is both runs joined, its length is
  counted from the second at sign, and when a character of more bytes than the first run follows, the
  slice ends inside it.\<close>

theorem joined_mentions_panic:
  assumes "list_all handle_char h1" "h1 \<noteq> []" "list_all handle_char h2" "\<not> handle_char c" "c \<noteq> 64"
    "length h1 < len_utf8 c"
  shows "parse_first_mention (64 # h1 @ 64 # h2 @ c # post) = Panics"
proof -
  let ?s = "64 # h1 @ 64 # h2 @ c # post"
  have one: "len_utf8 64 = 1" by (simp add: len_utf8_def)
  have n: "byte_len h1 = length h1" "byte_len h2 = length h2" using assms(1,3) handle_bytes by simp_all
  have scan: "scan_mention 0 None [] ?s = (Some (1 + length h1), h1 @ h2)"
    using scan_handle [OF assms(1)] scan_handle [OF assms(3)] assms(4,5) by (simp add: one)
  have before: "slice_to ?s (1 + length h1) = Some (64 # h1)"
    using slice_to_split [of "64 # h1" "64 # h2 @ c # post"] by (simp add: one n)
  have "slice_from ?s (byte_len (64 # h1 @ 64 # h2) + length h1) = slice_from (c # post) (length h1)"
    using slice_from_split [of "64 # h1 @ 64 # h2" "c # post" "length h1"] by simp
  moreover have "slice_from (c # post) (length h1) = None"
    using assms(2,6) by (cases "length h1") auto
  ultimately have after: "slice_from ?s (1 + length h1 + 1 + byte_len (h1 @ h2)) = None"
    by (simp add: one n add.commute add.left_commute)
  have "1 + length h1 + 1 + byte_len (h1 @ h2) < byte_len ?s" using assms(6) by (simp add: one n)
  then show ?thesis using scan before after assms(2) by (simp add: parse_first_mention_def Let_def)
qed

section \<open>Witnesses\<close>

lemma plain_split_lossless_and_fits_witness:
  "concat (split_for_channel [104, 105, 32, 121, 111, 117] 4) = [104, 105, 32, 121, 111, 117]
   \<and> split_for_channel [104, 105, 32, 121, 111, 117] 4 = [[104, 105, 32], [121, 111, 117]]"
  using plain_split_lossless_and_fits [of "[104, 105, 32, 121, 111, 117]" 4]
  by (simp add: fence_def split_for_channel_def pick_cut_def no_cut_def mark_cut_def len_utf16_def
      is_whitespace_def Let_def)

lemma mention_is_first_handle_witness:
  "parse_first_mention (lit ''hi @bot_1 go'') = Returns (Some (lit ''bot_1'', lit ''hi  go''))"
proof -
  have "parse_first_mention (lit ''hi '' @ 64 # lit ''bot_1'' @ lit '' go'')
      = Returns (Some (lit ''bot_1'', trim (lit ''hi '' @ lit '' go'')))"
    by (rule mention_is_first_handle) (simp_all add: lit_def handle_char_def)
  then show ?thesis by (simp add: lit_def trim_def trim_start_def trim_end_def is_whitespace_def)
qed

lemma joined_mentions_panic_witness: "parse_first_mention [64, 97, 64, 98, 20013] = Panics"
  using joined_mentions_panic [of "[97]" "[98]" 20013 "[]"] by (simp add: handle_char_def len_utf8_def)

end
