(* ===== verification/Scheduled.thy ===== *)
theory Scheduled
  imports Delegation_File Channel_Text "HOL-Library.List_Lexorder" "HOL-Library.Product_Lexorder"
begin

text \<open>
  Messages scheduled for later: the rows and their files (\<^verbatim>\<open>ccteam-im/src/scheduled.rs\<close>) and the
  gateway's operations on them (\<^verbatim>\<open>gateway.rs\<close>: create, cancel, firing what is due, collecting failed
  rows, loading at startup, the wakeable timer and the \<^verbatim>\<open>/inbox\<close> command). Instants are integers in
  nanoseconds. The calendar and the local time zone (\<^verbatim>\<open>chrono\<close>) are parameters, as is the outcome of
  submitting a turn. Each operation returns the events it emits, log warnings included.
\<close>

section \<open>Rows\<close>

definition one_hour :: int where
  "one_hour = 3600 * 1000000000"

definition MAX_HORIZON :: int where
  "MAX_HORIZON = 7 * 24 * one_hour"

definition MAX_CATCH_UP_AGE :: int where
  "MAX_CATCH_UP_AGE = 24 * one_hour"

definition FAILED_RETENTION :: int where
  "FAILED_RETENTION = 24 * one_hour"

definition MAX_PENDING_PER_SID :: nat where
  "MAX_PENDING_PER_SID = 20"

definition MAX_PENDING_VISIBLE :: nat where
  "MAX_PENDING_VISIBLE = 100"

datatype scheduled_status = Pending | FailedRow

record scheduled_item =
  si_id :: utext
  si_sid :: sid
  si_project :: utext
  si_text :: utext
  si_send_at :: int
  si_created_at :: int
  si_created_by :: utext
  si_status :: scheduled_status
  si_fail_reason :: "utext option"
  si_failed_at :: "int option"
  si_reply_channel :: "utext option"
  si_reply_chat_id :: "utext option"

definition failed_expired :: "int \<Rightarrow> scheduled_item \<Rightarrow> bool" where
  "failed_expired now i \<longleftrightarrow> si_status i = FailedRow
     \<and> (case si_failed_at i of None \<Rightarrow> False | Some f \<Rightarrow> FAILED_RETENTION \<le> now - f)"

definition scheduled_order :: "scheduled_item \<Rightarrow> int \<times> utext" where
  "scheduled_order i = (si_send_at i, si_id i)"

text \<open>\<^verbatim>\<open>split_whitespace\<close>, and the preview of a body: at most 80 scalar values.\<close>

fun split_words :: "utext \<Rightarrow> utext \<Rightarrow> utext list" where
  "split_words w [] = (if w = [] then [] else [rev w])"
| "split_words w (c # cs) = (if is_whitespace c
     then (if w = [] then split_words [] cs else rev w # split_words [] cs)
     else split_words (c # w) cs)"

definition split_whitespace :: "utext \<Rightarrow> utext list" where
  "split_whitespace t = split_words [] t"

fun join_sp :: "utext list \<Rightarrow> utext" where
  "join_sp [] = []"
| "join_sp [w] = w"
| "join_sp (w # ws) = w @ 32 # join_sp ws"

definition preview :: "utext \<Rightarrow> utext" where
  "preview t = take 80 (join_sp (split_whitespace t))"

section \<open>The file of one session\<close>

definition status_as_str :: "scheduled_status \<Rightarrow> utext" where
  "status_as_str s = (case s of Pending \<Rightarrow> lit ''pending'' | FailedRow \<Rightarrow> lit ''failed'')"

definition as_status :: "json \<Rightarrow> scheduled_status option" where
  "as_status j = (case j of JStr t \<Rightarrow> find (\<lambda>s. status_as_str s = t) [Pending, FailedRow] | _ \<Rightarrow> None)"

definition item_to_json :: "(int \<Rightarrow> utext) \<Rightarrow> scheduled_item \<Rightarrow> json" where
  "item_to_json shw i = JObj ([
       (lit ''id'', JStr (si_id i)),
       (lit ''sid'', JStr (si_sid i)),
       (lit ''project'', JStr (si_project i)),
       (lit ''text'', JStr (si_text i)),
       (lit ''send_at'', JStr (shw (si_send_at i))),
       (lit ''created_at'', JStr (shw (si_created_at i))),
       (lit ''created_by'', JStr (si_created_by i)),
       (lit ''status'', JStr (status_as_str (si_status i)))]
     @ opt_member ''fail_reason'' JStr (si_fail_reason i)
     @ opt_member ''failed_at'' (\<lambda>t. JStr (shw t)) (si_failed_at i)
     @ opt_member ''reply_channel'' JStr (si_reply_channel i)
     @ opt_member ''reply_chat_id'' JStr (si_reply_chat_id i))"

definition as_time :: "(utext \<Rightarrow> int option) \<Rightarrow> json \<Rightarrow> int option" where
  "as_time rd j = (case j of JStr t \<Rightarrow> rd t | _ \<Rightarrow> None)"

definition item_of_json :: "(utext \<Rightarrow> int option) \<Rightarrow> json \<Rightarrow> scheduled_item option" where
  "item_of_json rd j = do {
     kvs \<leftarrow> members [''id'', ''sid'', ''project'', ''text'', ''send_at'', ''created_at'', ''created_by'', ''status'',
        ''fail_reason'', ''failed_at'', ''reply_channel'', ''reply_chat_id''] j;
     i \<leftarrow> field ''id'' as_text kvs;
     s \<leftarrow> field ''sid'' as_text kvs;
     p \<leftarrow> field ''project'' as_text kvs;
     t \<leftarrow> field ''text'' as_text kvs;
     at \<leftarrow> field ''send_at'' (as_time rd) kvs;
     ca \<leftarrow> field ''created_at'' (as_time rd) kvs;
     cb \<leftarrow> field ''created_by'' as_text kvs;
     st \<leftarrow> field ''status'' as_status kvs;
     fr \<leftarrow> field_opt ''fail_reason'' as_text kvs;
     fa \<leftarrow> field_opt ''failed_at'' (as_time rd) kvs;
     rc \<leftarrow> field_opt ''reply_channel'' as_text kvs;
     ri \<leftarrow> field_opt ''reply_chat_id'' as_text kvs;
     Some \<lparr> si_id = i, si_sid = s, si_project = p, si_text = t, si_send_at = at, si_created_at = ca,
       si_created_by = cb, si_status = st, si_fail_reason = fr, si_failed_at = fa,
       si_reply_channel = rc, si_reply_chat_id = ri \<rparr> }"

definition scheduled_file :: "(int \<Rightarrow> utext) \<Rightarrow> scheduled_item list \<Rightarrow> json" where
  "scheduled_file shw items = JObj [(lit ''items'', JArr (map (item_to_json shw) items))]"

text \<open>\<^verbatim>\<open>read_scheduled\<close>: a missing file is an empty queue, anything unreadable an error.\<close>

definition read_scheduled :: "(utext \<Rightarrow> int option) \<Rightarrow> disk_file \<Rightarrow> scheduled_item list option" where
  "read_scheduled rd f = (case f of
       NoFile \<Rightarrow> Some []
     | NotJson \<Rightarrow> None
     | JsonFile j \<Rightarrow> do {
         kvs \<leftarrow> members [''items''] j;
         items \<leftarrow> field_default ''items'' [] (as_list (item_of_json rd)) kvs;
         Some (sort_key scheduled_order items) })"

text \<open>The files of all sessions, under their project directory and session id, and the counter.\<close>

record sched_disk =
  sd_counter :: "utext option"
  sd_files :: "utext \<times> sid \<Rightarrow> disk_file"

definition write_scheduled ::
  "fs_outcome \<Rightarrow> (int \<Rightarrow> utext) \<Rightarrow> utext \<Rightarrow> sid \<Rightarrow> scheduled_item list \<Rightarrow> sched_disk \<Rightarrow> sched_disk \<times> bool" where
  "write_scheduled io shw dir s items d =
     (if \<not> fs_mkdir_ok io then (d, False)
      else let (f', ok) = atomic_write_durable io (scheduled_file shw items) (sd_files d (dir, s))
           in (d \<lparr> sd_files := (sd_files d)((dir, s) := f') \<rparr>, ok))"

text \<open>The directories a startup scan finds: the registered projects in the order of their slugs, each with
  its directory and the names of the session directories, none when they cannot be listed.\<close>

type_synonym chat_listing = "(utext \<times> utext \<times> sid list option) list"

fun scan_session_rows :: "(utext \<Rightarrow> int option) \<Rightarrow> sched_disk \<Rightarrow> utext \<Rightarrow> utext \<Rightarrow> sid \<Rightarrow> (utext \<times> scheduled_item) list" where
  "scan_session_rows rd d slug dir s = (case read_scheduled rd (sd_files d (dir, s)) of
       None \<Rightarrow> []
     | Some items \<Rightarrow> map (\<lambda>i. (dir, i \<lparr> si_sid := s, si_project := slug \<rparr>)) items)"

fun scan_project_rows :: "(utext \<Rightarrow> int option) \<Rightarrow> sched_disk \<Rightarrow> utext \<times> utext \<times> sid list option \<Rightarrow> (utext \<times> scheduled_item) list" where
  "scan_project_rows rd d (slug, dir, names) = (case names of
       None \<Rightarrow> []
     | Some sids \<Rightarrow> concat (map (scan_session_rows rd d slug dir) sids))"

definition scan_scheduled :: "(utext \<Rightarrow> int option) \<Rightarrow> sched_disk \<Rightarrow> chat_listing \<Rightarrow> (utext \<times> scheduled_item) list" where
  "scan_scheduled rd d listing =
     sort_key (\<lambda>p. scheduled_order (snd p)) (concat (map (scan_project_rows rd d) listing))"

section \<open>Times a user may write\<close>

datatype schedule_time_error = InvalidFormat | Past | TooFar | AmbiguousLocalTime | NonexistentLocalTime

datatype local_result = Single int | Ambiguous int int | NoLocal

text \<open>What the code takes from \<^verbatim>\<open>chrono\<close>: the range of instants, the local date, a later date, the two
  parsers of wall times (naive times are nanoseconds of their day or of the epoch), and the instants
  a wall time names in the local time zone.\<close>

record calendar =
  in_range :: "int \<Rightarrow> bool"
  local_date :: "int \<Rightarrow> int"
  add_days :: "int \<Rightarrow> nat \<Rightarrow> int option"
  parse_hm :: "utext \<Rightarrow> int option"
  parse_date_hm :: "utext \<Rightarrow> int option"
  from_local :: "int \<Rightarrow> local_result"

text \<open>\<^verbatim>\<open>strip_suffix\<close> of one character, and \<^verbatim>\<open>str::parse::<i64>\<close> of ASCII digits.\<close>

definition strip_last :: "nat \<Rightarrow> utext \<Rightarrow> utext option" where
  "strip_last c t = (if t \<noteq> [] \<and> List.last t = c then Some (butlast t) else None)"

definition is_digit :: "nat \<Rightarrow> bool" where
  "is_digit c \<longleftrightarrow> 48 \<le> c \<and> c \<le> 57"

definition digits_value :: "utext \<Rightarrow> nat" where
  "digits_value t = radix_value 10 (map (\<lambda>c. c - 48) t)"

text \<open>\<^verbatim>\<open>Duration::try_minutes\<close> and \<^verbatim>\<open>try_hours\<close>: a duration is at most \<^verbatim>\<open>i64::MAX\<close> milliseconds.\<close>

definition try_seconds :: "nat \<Rightarrow> int option" where
  "try_seconds s = (if s * 1000 \<le> 2 ^ 63 - 1 then Some (int s * 1000000000) else None)"

definition parse_relative :: "utext \<Rightarrow> schedule_time_error + int option" where
  "parse_relative raw = (case raw of
       [] \<Rightarrow> Inr None
     | c # rest \<Rightarrow> if c \<noteq> 43 then Inr None
         else (case (case strip_last 109 rest of
                       Some digits \<Rightarrow> Some (digits, 60)
                     | None \<Rightarrow> map_option (\<lambda>digits. (digits, 3600)) (strip_last 104 rest)) of
             None \<Rightarrow> Inl InvalidFormat
           | Some (digits, unit) \<Rightarrow>
               if digits = [] \<or> \<not> list_all is_digit digits then Inl InvalidFormat
               else if 2 ^ 63 \<le> digits_value digits then Inl InvalidFormat
               else (case try_seconds (digits_value digits * unit) of
                   None \<Rightarrow> Inl InvalidFormat
                 | Some d \<Rightarrow> Inr (Some d))))"

definition TODAY :: utext where
  "TODAY = [20170, 22825]"

definition TOMORROW :: utext where
  "TOMORROW = [26126, 22825]"

definition strip_prefix :: "utext \<Rightarrow> utext \<Rightarrow> utext option" where
  "strip_prefix p t = (if take (length p) t = p then Some (drop (length p) t) else None)"

text \<open>\<^verbatim>\<open>as_bytes().get(i) == Some(&b)\<close> for an ASCII byte, which only ever starts a character.\<close>

definition byte_is :: "nat \<Rightarrow> nat \<Rightarrow> utext \<Rightarrow> bool" where
  "byte_is i b t = (case slice_from t i of Some (c # _) \<Rightarrow> c = b | _ \<Rightarrow> False)"

definition wall_time :: "calendar \<Rightarrow> utext \<Rightarrow> int \<Rightarrow> schedule_time_error + int" where
  "wall_time cal raw now =
     (let (day_offset, rest, has_day_prefix) =
        (case strip_prefix TODAY raw of
            Some rest \<Rightarrow> (0, trim rest, True)
          | None \<Rightarrow> (case strip_prefix TOMORROW raw of
                Some rest \<Rightarrow> (1, trim rest, True)
              | None \<Rightarrow> (0, raw, False)))
      in if byte_len rest = 5 \<and> byte_is 2 58 rest
         then (case parse_hm cal rest of
             None \<Rightarrow> Inl InvalidFormat
           | Some time \<Rightarrow> (case add_days cal (local_date cal now) day_offset of
                 None \<Rightarrow> Inl InvalidFormat
               | Some date \<Rightarrow> Inr (date * (24 * one_hour) + time)))
         else if \<not> has_day_prefix
         then (case parse_date_hm cal rest of None \<Rightarrow> Inl InvalidFormat | Some naive \<Rightarrow> Inr naive)
         else Inl InvalidFormat)"

definition local_instant :: "calendar \<Rightarrow> int \<Rightarrow> schedule_time_error + int" where
  "local_instant cal naive = (case from_local cal naive of
       Single v \<Rightarrow> Inr v
     | Ambiguous _ _ \<Rightarrow> Inl AmbiguousLocalTime
     | NoLocal \<Rightarrow> Inl NonexistentLocalTime)"

definition send_target :: "calendar \<Rightarrow> utext \<Rightarrow> int \<Rightarrow> schedule_time_error + int" where
  "send_target cal raw now = (case parse_relative raw of
       Inl e \<Rightarrow> Inl e
     | Inr (Some d) \<Rightarrow> (if in_range cal (now + d) then Inr (now + d) else Inl InvalidFormat)
     | Inr None \<Rightarrow> (case wall_time cal raw now of
           Inl e \<Rightarrow> Inl e
         | Inr naive \<Rightarrow> local_instant cal naive))"

definition parse_send_time_at :: "calendar \<Rightarrow> utext \<Rightarrow> int \<Rightarrow> schedule_time_error + int" where
  "parse_send_time_at cal input now =
     (let raw = trim input
      in if raw = [] then Inl InvalidFormat
         else case send_target cal raw now of
             Inl e \<Rightarrow> Inl e
           | Inr target \<Rightarrow> if target \<le> now then Inl Past
               else if MAX_HORIZON < target - now then Inl TooFar
               else Inr target)"

text \<open>The arguments of \<^verbatim>\<open>/inbox <time> <text>\<close>.\<close>

definition take_word :: "utext \<Rightarrow> (utext \<times> utext) option" where
  "take_word v =
     (let value = trim_start v; word = takeWhile (\<lambda>c. \<not> is_whitespace c) value
      in if word = [] then None
         else Some (word, trim_start (dropWhile (\<lambda>c. \<not> is_whitespace c) value)))"

datatype inbox_error = Usage | EmptyBody

definition parse_inbox_create_args :: "utext \<Rightarrow> inbox_error + utext \<times> utext" where
  "parse_inbox_create_args rest = (case take_word rest of
       None \<Rightarrow> Inl Usage
     | Some (first, after_first) \<Rightarrow>
         let needs_second = first = TODAY \<or> first = TOMORROW
               \<or> (byte_len first = 10 \<and> byte_is 4 45 first \<and> byte_is 7 45 first)
         in (case (if needs_second
                   then map_option (\<lambda>(second, body). (first @ 32 # second, body)) (take_word after_first)
                   else Some (first, after_first)) of
               None \<Rightarrow> Inl Usage
             | Some (w, body) \<Rightarrow> if trim body = [] then Inl EmptyBody else Inr (w, body)))"

end
