(* ===== verification/Scheduled_Gateway.thy ===== *)
theory Scheduled_Gateway
  imports Scheduled
begin

text \<open>
  The gateway's operations on scheduled messages (\<^verbatim>\<open>ccteam-im/src/gateway.rs\<close>). The rows of all sessions
  are in memory under their ids, each session's rows are one file that every change rewrites, and a
  counter file names the last id given out. An operation acts on memory and disk together; the
  outcome of every write, of every submission and every reading of the clock is an argument.
\<close>

section \<open>State\<close>

text \<open>A \<^verbatim>\<open>BTreeMap\<close>: an association list in the order of its keys.\<close>

fun bt_insert :: "utext \<Rightarrow> 'v \<Rightarrow> (utext \<times> 'v) list \<Rightarrow> (utext \<times> 'v) list" where
  "bt_insert k v [] = [(k, v)]"
| "bt_insert k v ((k', v') # m) =
     (if k < k' then (k, v) # (k', v') # m
      else if k = k' then (k, v) # m
      else (k', v') # bt_insert k v m)"

definition bt_remove :: "utext \<Rightarrow> (utext \<times> 'v) list \<Rightarrow> (utext \<times> 'v) list" where
  "bt_remove k m = filter (\<lambda>p. fst p \<noteq> k) m"

record scheduled_entry =
  se_dir :: utext
  se_item :: scheduled_item

text \<open>\<^verbatim>\<open>sg_counter_path\<close> and \<^verbatim>\<open>sg_paths\<close> say whether persistence is enabled; \<^verbatim>\<open>sg_bound\<close> lists the threads
  of a conversation bound to a session.\<close>

record sched_gateway =
  sg_next :: nat
  sg_items :: "(utext \<times> scheduled_entry) list"
  sg_firing :: "utext set"
  sg_counter_path :: bool
  sg_paths :: bool
  sg_bound :: "utext \<Rightarrow> utext \<Rightarrow> sid \<Rightarrow> utext list"

type_synonym sched_state = "sched_gateway \<times> sched_disk"

record chat_key =
  ck_channel :: utext
  ck_chat :: utext
  ck_user :: utext
  ck_thread :: "utext option"

definition new_chat :: "utext \<Rightarrow> utext \<Rightarrow> utext \<Rightarrow> chat_key" where
  "new_chat channel chat user = \<lparr> ck_channel = channel, ck_chat = chat, ck_user = user, ck_thread = None \<rparr>"

definition web_api_chat :: chat_key where
  "web_api_chat = new_chat (lit ''web'') (lit ''web-api'') (lit ''web-api'')"

definition with_bound_thread :: "sched_gateway \<Rightarrow> chat_key \<Rightarrow> sid \<Rightarrow> chat_key" where
  "with_bound_thread g target s =
     (if ck_thread target \<noteq> None then target
      else case sg_bound g (ck_channel target) (ck_chat target) s of
          [] \<Rightarrow> target
        | ts \<Rightarrow> target \<lparr> ck_thread := (if List.last ts = [] then None else Some (List.last ts)) \<rparr>)"

datatype sched_event =
    Progress utext scheduled_item "utext option"
  | Changed scheduled_item
  | Wake
  | Submit chat_key scheduled_item
  | FailedNotice chat_key utext
  | Warned string utext

text \<open>The progress row of an event: \<^verbatim>\<open>build_scheduled_event\<close>; the body appears only as a preview.\<close>

definition build_scheduled_event ::
  "utext \<Rightarrow> utext \<Rightarrow> utext \<Rightarrow> sid \<Rightarrow> utext \<Rightarrow> utext option \<Rightarrow> utext option \<Rightarrow> json" where
  "build_scheduled_event ts event i s send_at pre reason = JObj ([
       (lit ''event'', JStr event),
       (lit ''id'', JStr i),
       (lit ''sid'', JStr s),
       (lit ''send_at'', JStr send_at),
       (lit ''ts'', JStr ts)]
     @ (case pre of None \<Rightarrow> [] | Some p \<Rightarrow> if p = [] then [] else [(lit ''preview'', JStr (take 80 p))])
     @ (case reason of None \<Rightarrow> [] | Some r \<Rightarrow> if r = [] then [] else [(lit ''reason'', JStr (take 256 r))]))"

definition progress_row :: "(int \<Rightarrow> utext) \<Rightarrow> utext \<Rightarrow> utext \<Rightarrow> scheduled_item \<Rightarrow> utext option \<Rightarrow> json" where
  "progress_row shw ts event i reason =
     (let p = preview (si_text i)
      in build_scheduled_event ts event (si_id i) (si_sid i) (shw (si_send_at i))
           (if p \<noteq> [] then Some p else None) reason)"

definition emit_scheduled_progress :: "sched_gateway \<Rightarrow> scheduled_item \<Rightarrow> utext \<Rightarrow> utext option \<Rightarrow> sched_event list" where
  "emit_scheduled_progress g i event reason = (if sg_paths g then [Progress event i reason] else [])"

definition SCHEDULED_ENQUEUED :: utext where "SCHEDULED_ENQUEUED = lit ''scheduled_enqueued''"
definition SCHEDULED_CANCELLED :: utext where "SCHEDULED_CANCELLED = lit ''scheduled_cancelled''"
definition SCHEDULED_FIRED :: utext where "SCHEDULED_FIRED = lit ''scheduled_fired''"
definition SCHEDULED_FAILED :: utext where "SCHEDULED_FAILED = lit ''scheduled_failed''"

section \<open>Persistence\<close>

definition atomic_write_ok :: "fs_outcome \<Rightarrow> bool" where
  "atomic_write_ok io \<longleftrightarrow> fs_create_ok io \<and> fs_write_ok io \<and> fs_sync_ok io \<and> fs_rename_ok io"

definition persist_next_scheduled :: "fs_outcome \<Rightarrow> sched_state \<Rightarrow> sched_disk \<times> bool" where
  "persist_next_scheduled io st = (case st of (g, d) \<Rightarrow>
     (if \<not> sg_counter_path g then (d, True)
      else if \<not> fs_mkdir_ok io then (d, False)
      else if atomic_write_ok io then (d \<lparr> sd_counter := Some (dec (sg_next g)) \<rparr>, True)
      else (d, False)))"

definition entries_of :: "sched_gateway \<Rightarrow> scheduled_entry list" where
  "entries_of g = map snd (sg_items g)"

definition items_of_sid :: "sched_gateway \<Rightarrow> sid \<Rightarrow> scheduled_item list" where
  "items_of_sid g s =
     sort_key scheduled_order (map se_item (filter (\<lambda>e. si_sid (se_item e) = s) (entries_of g)))"

definition persist_scheduled_sid :: "fs_outcome \<Rightarrow> (int \<Rightarrow> utext) \<Rightarrow> utext \<Rightarrow> sid \<Rightarrow> sched_state \<Rightarrow> sched_state \<times> bool" where
  "persist_scheduled_sid io shw dir s st = (case st of (g, d) \<Rightarrow>
     (let (d', ok) = write_scheduled io shw dir s (items_of_sid g s) d in ((g, d'), ok)))"

definition put_item :: "scheduled_entry \<Rightarrow> sched_gateway \<Rightarrow> sched_gateway" where
  "put_item e g = g \<lparr> sg_items := bt_insert (si_id (se_item e)) e (sg_items g) \<rparr>"

definition drop_item :: "utext \<Rightarrow> sched_gateway \<Rightarrow> sched_gateway" where
  "drop_item i g = g \<lparr> sg_items := bt_remove i (sg_items g) \<rparr>"

section \<open>Creating and cancelling\<close>

datatype sched_error =
    EmptyText
  | NotFuture
  | BeyondHorizon
  | UnknownProject
  | UnknownSession
  | SessionFull nat
  | ChatFull nat
  | WriteFailed
  | UnknownMessage utext

text \<open>The live sessions with their projects, the projects with their directories, and what the metadata
  of a session that is not live says.\<close>

record session_dirs =
  live_project :: "sid \<Rightarrow> utext option"
  project_dir :: "utext \<Rightarrow> utext option"
  meta_of :: "sid \<Rightarrow> (utext \<times> utext) option"

definition scheduled_target :: "session_dirs \<Rightarrow> sid \<Rightarrow> sched_error + utext \<times> utext" where
  "scheduled_target sd s = (case live_project sd s of
       Some p \<Rightarrow> (case project_dir sd p of Some dir \<Rightarrow> Inr (p, dir) | None \<Rightarrow> Inl UnknownProject)
     | None \<Rightarrow> (case meta_of sd s of Some (slug, dir) \<Rightarrow> Inr (slug, dir) | None \<Rightarrow> Inl UnknownSession))"

definition is_pending :: "scheduled_entry \<Rightarrow> bool" where
  "is_pending e \<longleftrightarrow> si_status (se_item e) = Pending"

definition scheduled_pending_count_in_projects :: "sched_gateway \<Rightarrow> utext set option \<Rightarrow> nat" where
  "scheduled_pending_count_in_projects g visible =
     length (filter (\<lambda>e. is_pending e
        \<and> (case visible of None \<Rightarrow> True | Some ps \<Rightarrow> si_project (se_item e) \<in> ps)) (entries_of g))"

definition sid_pending :: "sched_gateway \<Rightarrow> sid \<Rightarrow> nat" where
  "sid_pending g s = length (filter (\<lambda>e. si_sid (se_item e) = s \<and> is_pending e) (entries_of g))"

record create_args =
  ca_sid :: sid
  ca_text :: utext
  ca_send_at :: int
  ca_by :: utext
  ca_reply_channel :: "utext option"
  ca_reply_chat :: "utext option"

definition new_item :: "create_args \<Rightarrow> utext \<Rightarrow> nat \<Rightarrow> int \<Rightarrow> scheduled_item" where
  "new_item a project n now = \<lparr> si_id = lit ''d'' @ dec n, si_sid = ca_sid a, si_project = project,
     si_text = ca_text a, si_send_at = ca_send_at a, si_created_at = now, si_created_by = ca_by a,
     si_status = Pending, si_fail_reason = None, si_failed_at = None,
     si_reply_channel = ca_reply_channel a, si_reply_chat_id = ca_reply_chat a \<rparr>"

text \<open>The counter is written before the row; a row that could not be written is taken back.\<close>

definition create_scheduled_message_inner ::
  "session_dirs \<Rightarrow> (int \<Rightarrow> utext) \<Rightarrow> fs_outcome \<Rightarrow> fs_outcome \<Rightarrow> int \<Rightarrow> create_args \<Rightarrow> nat \<Rightarrow> sched_state
     \<Rightarrow> sched_state \<times> (sched_error + scheduled_item) \<times> sched_event list" where
  "create_scheduled_message_inner sd shw io_counter io_row now a visible_pending st = (case st of (g, d) \<Rightarrow>
     (if trim (ca_text a) = [] then (st, Inl EmptyText, [])
      else if ca_send_at a \<le> now then (st, Inl NotFuture, [])
      else if MAX_HORIZON < ca_send_at a - now then (st, Inl BeyondHorizon, [])
      else case scheduled_target sd (ca_sid a) of
          Inl e \<Rightarrow> (st, Inl e, [])
        | Inr (project, dir) \<Rightarrow>
            (if MAX_PENDING_PER_SID \<le> sid_pending g (ca_sid a)
             then (st, Inl (SessionFull (sid_pending g (ca_sid a))), [])
             else if MAX_PENDING_VISIBLE \<le> visible_pending then (st, Inl (ChatFull visible_pending), [])
             else
               let g1 = g \<lparr> sg_next := (sg_next g + 1) mod 2 ^ 64 \<rparr>;
                   (d1, counted) = persist_next_scheduled io_counter (g1, d)
               in if \<not> counted then ((g1, d1), Inl WriteFailed, [])
                  else
                    let item = new_item a project (sg_next g1) now;
                        g2 = put_item \<lparr> se_dir = dir, se_item = item \<rparr> g1;
                        (st3, ok) = persist_scheduled_sid io_row shw dir (ca_sid a) (g2, d1)
                    in if \<not> ok then ((drop_item (si_id item) (fst st3), snd st3), Inl WriteFailed, [])
                       else (st3, Inr item, emit_scheduled_progress g2 item SCHEDULED_ENQUEUED None
                               @ [Changed item, Wake]))))"

definition create_scheduled_message ::
  "session_dirs \<Rightarrow> (int \<Rightarrow> utext) \<Rightarrow> fs_outcome \<Rightarrow> fs_outcome \<Rightarrow> int \<Rightarrow> sid \<Rightarrow> utext \<Rightarrow> int \<Rightarrow> utext \<Rightarrow> utext set option
     \<Rightarrow> sched_state \<Rightarrow> sched_state \<times> (sched_error + scheduled_item) \<times> sched_event list" where
  "create_scheduled_message sd shw io_counter io_row now s body send_at by_owner visible st =
     create_scheduled_message_inner sd shw io_counter io_row now
       \<lparr> ca_sid = s, ca_text = body, ca_send_at = send_at, ca_by = by_owner,
         ca_reply_channel = None, ca_reply_chat = None \<rparr>
       (scheduled_pending_count_in_projects (fst st) visible) st"

definition cancel_scheduled_message ::
  "(int \<Rightarrow> utext) \<Rightarrow> fs_outcome \<Rightarrow> sid \<Rightarrow> utext \<Rightarrow> sched_state
     \<Rightarrow> sched_state \<times> (sched_error + scheduled_item) \<times> sched_event list" where
  "cancel_scheduled_message shw io s i st = (case st of (g, d) \<Rightarrow>
     (case map_of (sg_items g) i of
        None \<Rightarrow> (st, Inl (UnknownMessage i), [])
      | Some e \<Rightarrow>
          if si_sid (se_item e) \<noteq> s then (st, Inl (UnknownMessage i), [])
          else
            let (st1, ok) = persist_scheduled_sid io shw (se_dir e) s (drop_item i g, d)
            in if \<not> ok
               then ((fst st1 \<lparr> sg_items := bt_insert i e (sg_items (fst st1)) \<rparr>, snd st1), Inl WriteFailed, [])
               else (st1, Inr (se_item e), emit_scheduled_progress g (se_item e) SCHEDULED_CANCELLED None
                      @ [Changed (se_item e), Wake])))"

section \<open>Collecting failed rows\<close>

fun gc_one :: "(int \<Rightarrow> utext) \<Rightarrow> (utext \<Rightarrow> fs_outcome) \<Rightarrow> utext \<times> scheduled_entry
    \<Rightarrow> sched_state \<times> sched_event list \<Rightarrow> sched_state \<times> sched_event list" where
  "gc_one shw io (i, e) ((g, d), evs) =
     (let (st1, ok) = persist_scheduled_sid (io i) shw (se_dir e) (si_sid (se_item e)) (drop_item i g, d)
      in if \<not> ok
         then ((fst st1 \<lparr> sg_items := bt_insert i e (sg_items (fst st1)) \<rparr>, snd st1),
               evs @ [Warned ''persist scheduled failed-item GC failed'' i])
         else (st1, evs @ [Changed (se_item e)]))"

definition expired_rows :: "int \<Rightarrow> sched_gateway \<Rightarrow> (utext \<times> scheduled_entry) list" where
  "expired_rows now g = filter (\<lambda>p. failed_expired now (se_item (snd p))) (sg_items g)"

definition gc_failed_scheduled ::
  "(int \<Rightarrow> utext) \<Rightarrow> (utext \<Rightarrow> fs_outcome) \<Rightarrow> int \<Rightarrow> sched_state \<Rightarrow> sched_state \<times> sched_event list" where
  "gc_failed_scheduled shw io now st = fold (gc_one shw io) (expired_rows now (fst st)) (st, [])"

definition scheduled_items_for_sid ::
  "session_dirs \<Rightarrow> (int \<Rightarrow> utext) \<Rightarrow> (utext \<Rightarrow> fs_outcome) \<Rightarrow> int \<Rightarrow> sid \<Rightarrow> sched_state
     \<Rightarrow> sched_state \<times> (sched_error + scheduled_item list) \<times> sched_event list" where
  "scheduled_items_for_sid sd shw io now s st = (case scheduled_target sd s of
       Inl e \<Rightarrow> (st, Inl e, [])
     | Inr _ \<Rightarrow> (let (st1, evs) = gc_failed_scheduled shw io now st
                in (st1, Inr (items_of_sid (fst st1) s), evs)))"

section \<open>Firing\<close>

text \<open>What submitting the turn of a row came to; a panic is contained.\<close>

datatype submit_result = Turn | QueuedTurn | Directive

datatype attempt = Submitted "utext + submit_result" | Panicked

definition submit_outcome :: "attempt \<Rightarrow> (utext + unit) option" where
  "submit_outcome a = (case a of
       Panicked \<Rightarrow> None
     | Submitted (Inl reason) \<Rightarrow> Some (Inl reason)
     | Submitted (Inr Turn) \<Rightarrow> Some (Inr ())
     | Submitted (Inr QueuedTurn) \<Rightarrow> Some (Inr ())
     | Submitted (Inr Directive) \<Rightarrow> Some (Inl (lit ''scheduled body was parsed as a directive'')))"

record fire_env =
  fe_attempt :: attempt
  fe_clock :: int
  fe_io :: fs_outcome

definition next_scheduled_at :: "sched_gateway \<Rightarrow> int option" where
  "next_scheduled_at g =
     (case List.map_filter (\<lambda>e. case si_status (se_item e) of
           Pending \<Rightarrow> Some (si_send_at (se_item e))
         | FailedRow \<Rightarrow> map_option (\<lambda>f. f + FAILED_RETENTION) (si_failed_at (se_item e))) (entries_of g) of
        [] \<Rightarrow> None
      | t # ts \<Rightarrow> Some (fold min ts t))"

definition submit_chat :: "scheduled_item \<Rightarrow> chat_key" where
  "submit_chat i = (case (si_reply_channel i, si_reply_chat_id i) of
       (Some channel, Some chat) \<Rightarrow> new_chat channel chat chat
     | _ \<Rightarrow> web_api_chat)"

definition complete_scheduled_fire ::
  "(int \<Rightarrow> utext) \<Rightarrow> fs_outcome \<Rightarrow> scheduled_entry \<Rightarrow> sched_state \<Rightarrow> sched_state \<times> sched_event list" where
  "complete_scheduled_fire shw io e st = (case st of (g, d) \<Rightarrow>
     (let i = se_item e;
          (st1, ok) = persist_scheduled_sid io shw (se_dir e) (si_sid i) (drop_item (si_id i) g, d)
      in (st1, (if ok then [] else [Warned ''persist fired scheduled removal failed'' (si_id i)])
            @ emit_scheduled_progress g i SCHEDULED_FIRED None @ [Changed i])))"

text \<open>The text of the notice: \<^verbatim>\<open>"{} failed to send to {}: {} (kept in /inbox for 24h)"\<close> after an alarm clock.\<close>

definition failed_notice_text :: "scheduled_item \<Rightarrow> utext \<Rightarrow> utext" where
  "failed_notice_text i reason = 9200 # lit '' '' @ si_id i @ lit '' failed to send to '' @ si_sid i @ lit '': ''
     @ reason @ lit '' (kept in /inbox for 24h)''"

definition failure_notice :: "sched_gateway \<Rightarrow> scheduled_item \<Rightarrow> utext \<Rightarrow> sched_event list" where
  "failure_notice g i reason = (case (si_reply_channel i, si_reply_chat_id i) of
       (Some channel, Some chat) \<Rightarrow>
         [FailedNotice (with_bound_thread g (new_chat channel chat chat) (si_sid i)) (failed_notice_text i reason)]
     | _ \<Rightarrow> [])"

definition mark_failed :: "int \<Rightarrow> utext \<Rightarrow> scheduled_entry \<Rightarrow> scheduled_entry" where
  "mark_failed clock reason e = e \<lparr> se_item := (se_item e) \<lparr> si_status := FailedRow,
     si_fail_reason := Some reason, si_failed_at := Some clock \<rparr> \<rparr>"

definition fail_scheduled ::
  "(int \<Rightarrow> utext) \<Rightarrow> fs_outcome \<Rightarrow> int \<Rightarrow> utext \<Rightarrow> utext \<Rightarrow> sched_state \<Rightarrow> sched_state \<times> sched_event list" where
  "fail_scheduled shw io clock i reason st = (case st of (g, d) \<Rightarrow>
     (case map_of (sg_items g) i of
        None \<Rightarrow> (st, [])
      | Some e \<Rightarrow>
          let e' = mark_failed clock reason e;
              g1 = g \<lparr> sg_items := bt_insert i e' (sg_items g) \<rparr>;
              (st1, ok) = persist_scheduled_sid io shw (se_dir e') (si_sid (se_item e')) (g1, d)
          in (st1, (if ok then [] else [Warned ''persist scheduled failure failed'' i])
                @ emit_scheduled_progress g (se_item e') SCHEDULED_FAILED (Some reason)
                @ [Changed (se_item e')] @ failure_notice g (se_item e') reason)))"

definition due_entries :: "int \<Rightarrow> sched_gateway \<Rightarrow> scheduled_entry list" where
  "due_entries now g = sort_key (\<lambda>e. scheduled_order (se_item e))
     (filter (\<lambda>e. is_pending e \<and> si_send_at (se_item e) \<le> now \<and> si_id (se_item e) \<notin> sg_firing g) (entries_of g))"

definition too_late :: "int \<Rightarrow> scheduled_entry \<Rightarrow> bool" where
  "too_late now e \<longleftrightarrow> MAX_CATCH_UP_AGE < now - si_send_at (se_item e)"

text \<open>The part of firing a row up to and including its submission, and its bookkeeping.\<close>

definition begin_fire :: "scheduled_entry \<Rightarrow> sched_state \<Rightarrow> sched_state \<times> sched_event list" where
  "begin_fire e st = (case st of (g, d) \<Rightarrow>
     ((g \<lparr> sg_firing := insert (si_id (se_item e)) (sg_firing g) \<rparr>, d),
      [Submit (submit_chat (se_item e)) (se_item e)]))"

definition end_fire :: "(int \<Rightarrow> utext) \<Rightarrow> fire_env \<Rightarrow> scheduled_entry \<Rightarrow> sched_state \<Rightarrow> sched_state \<times> sched_event list" where
  "end_fire shw env e st =
     (let (st1, evs) = (case submit_outcome (fe_attempt env) of
           Some (Inr _) \<Rightarrow> complete_scheduled_fire shw (fe_io env) e st
         | Some (Inl reason) \<Rightarrow> fail_scheduled shw (fe_io env) (fe_clock env) (si_id (se_item e)) reason st
         | None \<Rightarrow> fail_scheduled shw (fe_io env) (fe_clock env) (si_id (se_item e)) (lit ''panicked while firing'') st)
      in ((fst st1 \<lparr> sg_firing := sg_firing (fst st1) - {si_id (se_item e)} \<rparr>, snd st1), evs))"

definition fire_one ::
  "(int \<Rightarrow> utext) \<Rightarrow> (utext \<Rightarrow> fire_env) \<Rightarrow> int \<Rightarrow> scheduled_entry
     \<Rightarrow> sched_state \<times> sched_event list \<Rightarrow> sched_state \<times> sched_event list" where
  "fire_one shw env now e acc = (case acc of (st, evs) \<Rightarrow>
     (let i = si_id (se_item e)
      in if too_late now e
         then (let (st1, evs1) = fail_scheduled shw (fe_io (env i)) (fe_clock (env i)) i
                     (lit ''catch-up is older than 24 hours'') st
               in (st1, evs @ evs1))
         else (let (st1, evs1) = begin_fire e st; (st2, evs2) = end_fire shw (env i) e st1
               in (st2, evs @ evs1 @ evs2))))"

definition fire_due_scheduled ::
  "(int \<Rightarrow> utext) \<Rightarrow> (utext \<Rightarrow> fire_env) \<Rightarrow> int \<Rightarrow> sched_state \<Rightarrow> sched_state \<times> sched_event list" where
  "fire_due_scheduled shw env now st = fold (fire_one shw env now) (due_entries now (fst st)) (st, [])"

text \<open>One round of the timer's loop: what it does under the lock and when it wants to be woken.\<close>

definition scheduler_round ::
  "(int \<Rightarrow> utext) \<Rightarrow> (utext \<Rightarrow> fs_outcome) \<Rightarrow> (utext \<Rightarrow> fire_env) \<Rightarrow> int \<Rightarrow> sched_state
     \<Rightarrow> sched_state \<times> sched_event list \<times> int option" where
  "scheduler_round shw io env now st =
     (let (st1, evs1) = gc_failed_scheduled shw io now st;
          (st2, evs2) = (case next_scheduled_at (fst st1) of
              Some at \<Rightarrow> if at \<le> now then fire_due_scheduled shw env now st1 else (st1, [])
            | None \<Rightarrow> (st1, []))
      in (st2, evs1 @ evs2, next_scheduled_at (fst st2)))"

definition catch_up_scheduled ::
  "(int \<Rightarrow> utext) \<Rightarrow> (utext \<Rightarrow> fs_outcome) \<Rightarrow> (utext \<Rightarrow> fire_env) \<Rightarrow> int \<Rightarrow> sched_state \<Rightarrow> sched_state \<times> sched_event list" where
  "catch_up_scheduled shw io env now st =
     (let (st1, evs1) = gc_failed_scheduled shw io now st;
          (st2, evs2) = fire_due_scheduled shw env now st1
      in (st2, evs1 @ evs2))"

section \<open>Startup\<close>

text \<open>\<^verbatim>\<open>str::parse::<u64>\<close>.\<close>

definition parse_u64 :: "utext \<Rightarrow> nat option" where
  "parse_u64 t =
     (let ds = (case t of c # r \<Rightarrow> if c = 43 then r else t | [] \<Rightarrow> [])
      in if ds \<noteq> [] \<and> list_all is_digit ds \<and> digits_value ds < 2 ^ 64 then Some (digits_value ds) else None)"

definition id_number :: "utext \<Rightarrow> nat option" where
  "id_number i = (case strip_prefix (lit ''d'') i of None \<Rightarrow> None | Some n \<Rightarrow> parse_u64 n)"

definition load_row :: "utext \<times> scheduled_item \<Rightarrow> sched_gateway \<Rightarrow> sched_gateway" where
  "load_row p g =
     (let g1 = (case id_number (si_id (snd p)) of None \<Rightarrow> g | Some n \<Rightarrow> g \<lparr> sg_next := max (sg_next g) n \<rparr>)
      in put_item \<lparr> se_dir = fst p, se_item = snd p \<rparr> g1)"

definition read_counter :: "sched_gateway \<Rightarrow> sched_disk \<Rightarrow> nat" where
  "read_counter g d =
     (if sg_counter_path g
      then (case sd_counter d of
          None \<Rightarrow> sg_next g
        | Some raw \<Rightarrow> (case parse_u64 (trim raw) of None \<Rightarrow> sg_next g | Some n \<Rightarrow> n))
      else sg_next g)"

definition load_scheduled_state ::
  "(int \<Rightarrow> utext) \<Rightarrow> (utext \<Rightarrow> int option) \<Rightarrow> fs_outcome \<Rightarrow> (utext \<Rightarrow> fs_outcome) \<Rightarrow> chat_listing \<Rightarrow> int
     \<Rightarrow> sched_state \<Rightarrow> sched_state \<times> sched_event list" where
  "load_scheduled_state shw rd io_counter io listing now st = (case st of (g, d) \<Rightarrow>
     (let g1 = g \<lparr> sg_next := read_counter g d, sg_items := [] \<rparr>;
          g2 = fold load_row (scan_scheduled rd d listing) g1;
          (d1, ok) = persist_next_scheduled io_counter (g2, d);
          (st3, evs) = gc_failed_scheduled shw io now (g2, d1)
      in (st3, (if ok then [] else [Warned ''failed to repair scheduled-message counter'' []]) @ evs)))"

section \<open>The inbox command\<close>

datatype inbox_reply = Listed "scheduled_item list" | CancelledRow utext | ScheduledAt scheduled_item

datatype inbox_failure =
    CancelUsage
  | NotYours utext
  | NoSession
  | BadArgs inbox_error
  | BadTime schedule_time_error
  | GatewayError sched_error

record inbox_env =
  ie_dirs :: session_dirs
  ie_calendar :: calendar
  ie_access :: "scheduled_entry \<Rightarrow> bool"
  ie_current :: "sid option"
  ie_owner :: utext
  ie_channel :: utext
  ie_chat :: utext
  ie_show :: "int \<Rightarrow> utext"
  ie_gc_io :: "utext \<Rightarrow> fs_outcome"
  ie_io_counter :: fs_outcome
  ie_io_row :: fs_outcome
  ie_gc_clock :: int
  ie_local_clock :: int
  ie_clock :: int

definition inbox_listing :: "inbox_env \<Rightarrow> sched_gateway \<Rightarrow> scheduled_item list" where
  "inbox_listing en g = sort_key scheduled_order (map se_item (filter (ie_access en) (entries_of g)))"

definition inbox_cancel :: "inbox_env \<Rightarrow> utext \<Rightarrow> sched_state \<Rightarrow> sched_state \<times> (inbox_failure + inbox_reply) \<times> sched_event list" where
  "inbox_cancel en args st = (case split_whitespace args of
       [i] \<Rightarrow> (case map_of (sg_items (fst st)) i of
           None \<Rightarrow> (st, Inl (NotYours i), [])
         | Some e \<Rightarrow> if \<not> ie_access en e then (st, Inl (NotYours i), [])
             else (case cancel_scheduled_message (ie_show en) (ie_io_row en) (si_sid (se_item e)) i st of
                 (st1, Inl err, evs) \<Rightarrow> (st1, Inl (GatewayError err), evs)
               | (st1, Inr _, evs) \<Rightarrow> (st1, Inr (CancelledRow i), evs)))
     | _ \<Rightarrow> (st, Inl CancelUsage, []))"

definition inbox_create :: "inbox_env \<Rightarrow> utext \<Rightarrow> sched_state \<Rightarrow> sched_state \<times> (inbox_failure + inbox_reply) \<times> sched_event list" where
  "inbox_create en rest st = (case parse_inbox_create_args rest of
       Inl e \<Rightarrow> (st, Inl (BadArgs e), [])
     | Inr (w, body) \<Rightarrow> (case parse_send_time_at (ie_calendar en) w (ie_local_clock en) of
           Inl e \<Rightarrow> (st, Inl (BadTime e), [])
         | Inr at \<Rightarrow> (case ie_current en of
               None \<Rightarrow> (st, Inl NoSession, [])
             | Some s \<Rightarrow>
                 (case create_scheduled_message_inner (ie_dirs en) (ie_show en) (ie_io_counter en) (ie_io_row en)
                     (ie_clock en)
                     \<lparr> ca_sid = s, ca_text = body, ca_send_at = at, ca_by = ie_owner en,
                       ca_reply_channel = Some (ie_channel en), ca_reply_chat = Some (ie_chat en) \<rparr>
                     (length (filter (\<lambda>e. is_pending e \<and> ie_access en e) (entries_of (fst st)))) st of
                   (st1, Inl err, evs) \<Rightarrow> (st1, Inl (GatewayError err), evs)
                 | (st1, Inr i, evs) \<Rightarrow> (st1, Inr (ScheduledAt i), evs)))))"

definition handle_inbox_command :: "inbox_env \<Rightarrow> utext \<Rightarrow> sched_state \<Rightarrow> sched_state \<times> (inbox_failure + inbox_reply) \<times> sched_event list" where
  "handle_inbox_command en trimmed st =
     (let (st1, evs) = gc_failed_scheduled (ie_show en) (ie_gc_io en) (ie_gc_clock en) st;
          rest = trim (case strip_prefix (lit ''/inbox'') trimmed of None \<Rightarrow> [] | Some r \<Rightarrow> r)
      in if rest = [] then (st1, Inr (Listed (inbox_listing en (fst st1))), evs)
         else
           let (st2, reply, evs2) =
             (if rest = lit ''cancel'' \<or> strip_prefix (lit ''cancel '') rest \<noteq> None
              then inbox_cancel en (drop 6 rest) st1
              else inbox_create en rest st1)
           in (st2, reply, evs @ evs2))"

section \<open>Numbers written and read\<close>

lemma digit_list: "c \<in> set (dec n) \<Longrightarrow> is_digit c \<and> \<not> is_whitespace c \<and> c \<noteq> 43"
proof -
  assume "c \<in> set (dec n)"
  then obtain x where "x < 10" "c = 48 + x"
    using radix_digits_bound [of 10 _ n] by (auto simp: dec_def digit_char_def)
  then show ?thesis by (simp add: is_digit_def is_whitespace_def)
qed

lemma digits_value_dec [simp]: "digits_value (dec n) = n"
proof -
  have "map (\<lambda>c. c - 48) (dec n) = radix_digits 10 n"
    unfolding dec_def map_map
    by (rule map_idI) (use radix_digits_bound [of 10 _ n] in \<open>auto simp: digit_char_def\<close>)
  then show ?thesis by (simp add: digits_value_def radix_value_digits)
qed

lemma trim_dec [simp]: "trim (dec n) = dec n"
proof -
  have "dropWhile is_whitespace t = t" if "\<And>c. c \<in> set t \<Longrightarrow> \<not> is_whitespace c" for t
    using that by (cases t) auto
  from this [of "dec n"] this [of "rev (dec n)"] show ?thesis
    by (simp add: trim_def trim_start_def trim_end_def digit_list)
qed

lemma parse_u64_dec: "n < 2 ^ 64 \<Longrightarrow> parse_u64 (dec n) = Some n"
proof -
  assume n: "n < 2 ^ 64"
  obtain c r where c: "dec n = c # r" by (cases "dec n") (simp_all add: dec_def)
  then have "c \<noteq> 43" using digit_list [of c n] by simp
  moreover have "list_all is_digit (dec n)" using digit_list by (simp add: list_all_iff)
  moreover have "digits_value (c # r) = n" using digits_value_dec [of n] by (simp add: c)
  ultimately show ?thesis using n by (simp add: parse_u64_def c Let_def)
qed

end
