(* ===== verification/Pending_Interactions.thy ===== *)
theory Pending_Interactions
  imports Scheduled_Gateway "HOL-Library.Multiset"
begin

text \<open>
  The registry of choices a session is waiting for (\<^verbatim>\<open>ccteam-im/src/pending.rs\<close>) with the prompt and
  selection types of \<^verbatim>\<open>ccteam-harness/src/adapter.rs\<close>. The registry is a hash map: its order of
  iteration is not specified, so the operations that search it take the order of that call as an
  argument, and what is proved holds for every order.
\<close>

section \<open>Prompts and selections\<close>

record choice_option =
  co_id :: utext
  co_label :: utext

record choice_prompt =
  cp_token :: utext
  cp_title :: utext
  cp_options :: "choice_option list"
  cp_multi :: bool

record choice_selection =
  cs_token :: utext
  cs_ids :: "utext list"
  cs_free_text :: "utext option"

record directive =
  dr_name :: utext
  dr_args :: utext
  dr_choice :: "choice_selection option"

text \<open>Who waits for the answer: an adapter whose directive is replayed with the choice, or a task
  blocked on the receiving end of a oneshot channel, named by a number here.\<close>

datatype interaction_origin =
    DirectiveOrigin sid directive
  | External nat

record pending_interaction =
  pi_prompt :: choice_prompt
  pi_origin :: interaction_origin
  pi_expires_at :: nat
  pi_sid :: "sid option"

type_synonym registry = "(utext \<times> pending_interaction) list"
type_synonym hash_order = "registry \<Rightarrow> registry"

definition iteration :: "hash_order \<Rightarrow> bool" where
  "iteration ord \<longleftrightarrow> (\<forall>m. mset (ord m) = mset m)"

definition registry_ok :: "registry \<Rightarrow> bool" where
  "registry_ok m \<longleftrightarrow> distinct (map fst m)"

section \<open>Operations\<close>

definition remove_key :: "utext \<Rightarrow> registry \<Rightarrow> registry" where
  "remove_key k m = filter (\<lambda>e. fst e \<noteq> k) m"

definition register :: "utext \<Rightarrow> choice_prompt \<Rightarrow> interaction_origin \<Rightarrow> nat \<Rightarrow> registry \<Rightarrow> registry \<times> pending_interaction option" where
  "register k prompt orig expires m =
     ((k, \<lparr> pi_prompt = prompt, pi_origin = orig, pi_expires_at = expires, pi_sid = None \<rparr>) # remove_key k m,
      map_of m k)"

definition tag_sid :: "utext \<Rightarrow> sid \<Rightarrow> registry \<Rightarrow> registry" where
  "tag_sid k s m = map (\<lambda>e. if fst e = k then (fst e, (snd e) \<lparr> pi_sid := Some s \<rparr>) else e) m"

definition pending_for_sid :: "hash_order \<Rightarrow> sid \<Rightarrow> registry \<Rightarrow> pending_interaction option" where
  "pending_for_sid ord s m = find (\<lambda>p. pi_sid p = Some s) (map snd (ord m))"

definition prompt_for :: "utext \<Rightarrow> registry \<Rightarrow> choice_prompt option" where
  "prompt_for k m = map_option pi_prompt (map_of m k)"

definition has_pending :: "utext \<Rightarrow> registry \<Rightarrow> bool" where
  "has_pending k m \<longleftrightarrow> map_of m k \<noteq> None"

definition take_matching :: "utext \<Rightarrow> utext \<Rightarrow> registry \<Rightarrow> registry \<times> pending_interaction option" where
  "take_matching k token m =
     (case map_of m k of
        Some p \<Rightarrow> if cp_token (pi_prompt p) = token then (remove_key k m, Some p) else (m, None)
      | None \<Rightarrow> (m, None))"

definition take_pending :: "utext \<Rightarrow> registry \<Rightarrow> registry \<times> pending_interaction option" where
  "take_pending k m = (remove_key k m, map_of m k)"

definition take_where :: "(pending_interaction \<Rightarrow> bool) \<Rightarrow> hash_order \<Rightarrow> registry \<Rightarrow> registry \<times> pending_interaction option" where
  "take_where P ord m =
     (case find (\<lambda>e. P (snd e)) (ord m) of
        Some e \<Rightarrow> (remove_key (fst e) m, map_of m (fst e))
      | None \<Rightarrow> (m, None))"

definition take_by_token :: "hash_order \<Rightarrow> utext \<Rightarrow> registry \<Rightarrow> registry \<times> pending_interaction option" where
  "take_by_token ord token m = take_where (\<lambda>p. cp_token (pi_prompt p) = token) ord m"

definition prompt_by_token :: "hash_order \<Rightarrow> utext \<Rightarrow> registry \<Rightarrow> choice_prompt option" where
  "prompt_by_token ord token m =
     map_option pi_prompt (find (\<lambda>p. cp_token (pi_prompt p) = token) (map snd (ord m)))"

definition take_free_text_for_sid :: "hash_order \<Rightarrow> sid \<Rightarrow> registry \<Rightarrow> registry \<times> pending_interaction option" where
  "take_free_text_for_sid ord s m =
     take_where (\<lambda>p. pi_sid p = Some s \<and> cp_options (pi_prompt p) = []) ord m"

text \<open>\<^verbatim>\<open>keys.into_iter().filter_map(|key| self.map.remove(&key))\<close>.\<close>

fun remove_keys :: "utext list \<Rightarrow> registry \<Rightarrow> registry \<times> pending_interaction list" where
  "remove_keys [] m = (m, [])"
| "remove_keys (k # ks) m =
     (let (m', ps) = remove_keys ks (remove_key k m)
      in (m', case map_of m k of Some p \<Rightarrow> p # ps | None \<Rightarrow> ps))"

definition drain_where :: "(pending_interaction \<Rightarrow> bool) \<Rightarrow> hash_order \<Rightarrow> registry \<Rightarrow> registry \<times> pending_interaction list" where
  "drain_where P ord m = remove_keys (map fst (filter (\<lambda>e. P (snd e)) (ord m))) m"

definition drain_sid :: "hash_order \<Rightarrow> sid \<Rightarrow> registry \<Rightarrow> registry \<times> pending_interaction list" where
  "drain_sid ord s m = drain_where (\<lambda>p. pi_sid p = Some s) ord m"

definition drain_expired :: "hash_order \<Rightarrow> nat \<Rightarrow> registry \<Rightarrow> registry \<times> pending_interaction list" where
  "drain_expired ord now m = drain_where (\<lambda>p. pi_expires_at p \<le> now) ord m"

definition pending_len :: "registry \<Rightarrow> nat" where
  "pending_len m = length m"

definition pending_is_empty :: "registry \<Rightarrow> bool" where
  "pending_is_empty m \<longleftrightarrow> m = []"

section \<open>What the operations do to the registered prompts\<close>

lemma iteration_id: "iteration id"
  by (simp add: iteration_def)

lemma set_iteration: "iteration ord \<Longrightarrow> set (ord m) = set m"
  by (metis iteration_def mset_eq_setD)

lemma map_of_remove_key [simp]: "map_of (remove_key k m) j = (if j = k then None else map_of m j)"
  by (induction m) (auto simp: remove_key_def)

lemma remove_key_ok: "registry_ok m \<Longrightarrow> registry_ok (remove_key k m)"
  by (induction m) (auto simp: registry_ok_def remove_key_def)

lemma map_of_entry: "registry_ok m \<Longrightarrow> (k, p) \<in> set m \<longleftrightarrow> map_of m k = Some p"
  by (simp add: registry_ok_def)

lemma register_ok: "registry_ok m \<Longrightarrow> registry_ok (fst (register k prompt orig expires m))"
  using remove_key_ok [of m k] by (auto simp: registry_ok_def register_def remove_key_def)

lemma map_of_tag_sid:
  "map_of (tag_sid k s m) j = map_option (\<lambda>p. if j = k then p \<lparr> pi_sid := Some s \<rparr> else p) (map_of m j)"
  by (induction m) (auto simp: tag_sid_def)

lemma fst_tag_sid: "map fst (tag_sid k s m) = map fst m"
  by (simp add: tag_sid_def)

lemma tag_sid_ok: "registry_ok m \<Longrightarrow> registry_ok (tag_sid k s m)"
  by (simp add: registry_ok_def fst_tag_sid)

text \<open>Taking removes one registered prompt with the property, and finds one if there is one.\<close>

lemma take_whereE:
  assumes "registry_ok m" "iteration ord" "take_where P ord m = (m', r)"
  obtains (taken) k p where "map_of m k = Some p" "P p" "r = Some p" "m' = remove_key k m"
    | (absent) "r = None" "m' = m" "\<And>k p. map_of m k = Some p \<Longrightarrow> \<not> P p"
proof (cases "find (\<lambda>e. P (snd e)) (ord m)")
  case None
  have "\<not> P p" if "map_of m k = Some p" for k p
    using None map_of_SomeD [OF that] set_iteration [OF assms(2), of m] by (auto simp: find_None_iff)
  moreover have "r = None" "m' = m" using None assms(3) by (simp_all add: take_where_def)
  ultimately show thesis by (intro absent) blast+
next
  case (Some e)
  then obtain i where "i < length (ord m)" and pe: "P (snd e)" and i: "e = ord m ! i"
    unfolding find_Some_iff by blast
  then have "e \<in> set (ord m)" by simp
  then have "(fst e, snd e) \<in> set m" using set_iteration [OF assms(2)] by simp
  then have "map_of m (fst e) = Some (snd e)" using map_of_entry [OF assms(1)] by blast
  moreover have "r = map_of m (fst e)" "m' = remove_key (fst e) m" using Some assms(3) by (simp_all add: take_where_def)
  ultimately show thesis using pe by (intro taken [of "fst e" "snd e"]) simp_all
qed

lemma take_by_tokenE:
  assumes "registry_ok m" "iteration ord" "take_by_token ord token m = (m', r)"
  obtains (taken) k p where "map_of m k = Some p" "cp_token (pi_prompt p) = token" "r = Some p" "m' = remove_key k m"
    | (absent) "r = None" "m' = m" "\<And>k p. map_of m k = Some p \<Longrightarrow> cp_token (pi_prompt p) \<noteq> token"
  using take_whereE [OF assms(1,2) assms(3) [unfolded take_by_token_def]] by metis

lemma map_of_remove_keys: "map_of (fst (remove_keys ks m)) j = (if j \<in> set ks then None else map_of m j)"
  by (induction ks m rule: remove_keys.induct) (auto simp: split_beta)

lemma remove_keys_ok: "registry_ok m \<Longrightarrow> registry_ok (fst (remove_keys ks m))"
  by (induction ks m rule: remove_keys.induct) (auto simp: split_beta remove_key_ok)

lemma set_removed: "distinct ks \<Longrightarrow> set (snd (remove_keys ks m)) = {p. \<exists>k \<in> set ks. map_of m k = Some p}"
proof (induction ks m rule: remove_keys.induct)
  case (2 k ks m)
  then have "{p. \<exists>j \<in> set ks. map_of (remove_key k m) j = Some p} = {p. \<exists>j \<in> set ks. map_of m j = Some p}" by auto
  then show ?case using 2 by (auto simp: split_beta split: option.splits)
qed simp

text \<open>Draining removes exactly the prompts with the property, and returns them.\<close>

lemma drain_where:
  assumes "registry_ok m" "iteration ord" "drain_where P ord m = (m', ps)"
  shows "map_of m' j = (case map_of m j of Some p \<Rightarrow> if P p then None else Some p | None \<Rightarrow> None)"
    and "set ps = {p. \<exists>k. map_of m k = Some p \<and> P p}"
    and "registry_ok m'"
proof -
  let ?ks = "map fst (filter (\<lambda>e. P (snd e)) (ord m))"
  have "mset (map fst (ord m)) = mset (map fst m)" using assms(2) by (simp add: iteration_def)
  then have "distinct (map fst (ord m))" using assms(1) by (metis mset_eq_imp_distinct_iff registry_ok_def)
  then have dk: "distinct ?ks" by (rule distinct_map_filter)
  have mem: "k \<in> set ?ks \<longleftrightarrow> (\<exists>p. map_of m k = Some p \<and> P p)" for k
    using set_iteration [OF assms(2), of m] map_of_entry [OF assms(1)] by (force simp: image_iff)
  show "map_of m' j = (case map_of m j of Some p \<Rightarrow> if P p then None else Some p | None \<Rightarrow> None)"
    using assms(3) map_of_remove_keys [of ?ks m j] mem [of j] by (auto simp: drain_where_def split: option.splits)
  show "set ps = {p. \<exists>k. map_of m k = Some p \<and> P p}"
  proof -
    have "{p. \<exists>k \<in> set ?ks. map_of m k = Some p} = {p. \<exists>k. map_of m k = Some p \<and> P p}"
      unfolding mem Bex_def by auto
    then show ?thesis using assms(3) set_removed [OF dk, of m] by (simp add: drain_where_def)
  qed
  show "registry_ok m'" using assms(1,3) remove_keys_ok by (metis drain_where_def fst_conv)
qed

lemmas drain_expired = drain_where [where P = "\<lambda>p. pi_expires_at p \<le> now" for now, folded drain_expired_def]
lemmas drain_sid = drain_where [where P = "\<lambda>p. pi_sid p = Some s" for s, folded drain_sid_def]

lemma pending_for_sid_Some:
  "registry_ok m \<Longrightarrow> iteration ord \<Longrightarrow>
    (pending_for_sid ord s m = None \<longleftrightarrow> (\<forall>k p. map_of m k = Some p \<longrightarrow> pi_sid p \<noteq> Some s))"
  using map_of_entry [of m] set_iteration [of ord m] by (fastforce simp: pending_for_sid_def find_None_iff)

end
