(* ===== verification/Hitl.thy ===== *)
theory Hitl
  imports Pending_Interactions
begin

text \<open>
  What a user is asked before a tool runs (\<^verbatim>\<open>ccteam-im/src/hitl.rs\<close>, the approval parts of
  \<^verbatim>\<open>ccteam-im/src/mcp/dispatch.rs\<close>, \<^verbatim>\<open>ccteam-harness/src/execution/pi_rpc\<close> and
  \<^verbatim>\<open>claude_stream_json/bridge.rs\<close>): the preview of the call, its risk, the prompts and their tokens,
  and how each of the asking sides turns the answer into its protocol's reply.
\<close>

section \<open>Time limit\<close>

definition PERMISSION_PROMPT_TIMEOUT_SECS_DEFAULT :: nat where
  "PERMISSION_PROMPT_TIMEOUT_SECS_DEFAULT = 120"

definition permission_prompt_timeout_secs_from :: "utext option \<Rightarrow> nat" where
  "permission_prompt_timeout_secs_from raw =
     (case Option.bind raw parse_u64 of
        Some n \<Rightarrow> if 1 \<le> n then n else PERMISSION_PROMPT_TIMEOUT_SECS_DEFAULT
      | None \<Rightarrow> PERMISSION_PROMPT_TIMEOUT_SECS_DEFAULT)"

lemma permission_prompt_lasts: "1 \<le> permission_prompt_timeout_secs_from raw"
  by (simp add: permission_prompt_timeout_secs_from_def PERMISSION_PROMPT_TIMEOUT_SECS_DEFAULT_def split: option.splits)

section \<open>The preview of a tool call\<close>

definition CONTENT_PREVIEW_MAX :: nat where "CONTENT_PREVIEW_MAX = 200"
definition SNIPPET_MAX :: nat where "SNIPPET_MAX = 100"
definition COMMAND_MAX :: nat where "COMMAND_MAX = 200"
definition GENERIC_DIGEST_MAX :: nat where "GENERIC_DIGEST_MAX = 200"
definition GENERIC_VALUE_MAX :: nat where "GENERIC_VALUE_MAX = 60"

definition truncate_chars :: "utext \<Rightarrow> nat \<Rightarrow> utext" where
  "truncate_chars s limit = (if limit < length s then take limit s @ ([8230]) else s)"

definition str_or :: "string \<Rightarrow> string \<Rightarrow> json \<Rightarrow> utext" where
  "str_or d k j = (case json_str k j of Some t \<Rightarrow> t | None \<Rightarrow> lit d)"

definition summarize_write :: "json \<Rightarrow> utext" where
  "summarize_write inp =
     (let path = str_or ''(no file_path)'' ''file_path'' inp; content = str_or '''' ''content'' inp
      in if content = [] then (lit ''Write '') @ path
         else (lit ''Write '') @ path @ ([10] @ lit ''  + '') @ truncate_chars content CONTENT_PREVIEW_MAX)"

definition old_and_new :: "json \<Rightarrow> utext" where
  "old_and_new j =
     ([10] @ lit ''  - '') @ truncate_chars (str_or '''' ''old_string'' j) SNIPPET_MAX
     @ ([10] @ lit ''  + '') @ truncate_chars (str_or '''' ''new_string'' j) SNIPPET_MAX"

definition summarize_edit :: "json \<Rightarrow> utext" where
  "summarize_edit inp = (lit ''Edit '') @ str_or ''(no file_path)'' ''file_path'' inp @ old_and_new inp"

definition summarize_multi_edit :: "json \<Rightarrow> utext" where
  "summarize_multi_edit inp =
     (let path = str_or ''(no file_path)'' ''file_path'' inp
      in case json_get ''edits'' inp of
           Some (JArr (e # es)) \<Rightarrow>
             (lit ''MultiEdit '') @ path
             @ (if 0 < length es
                then (lit '' (+'') @ dec (length es) @ (lit '' more edit'') @ (if length es = 1 then [] else (lit ''s'')) @ (lit '')'')
                else [])
             @ old_and_new e
         | _ \<Rightarrow> (lit ''MultiEdit '') @ path)"

definition summarize_bash :: "utext \<Rightarrow> json \<Rightarrow> utext" where
  "summarize_bash tool inp =
     tool @ (lit '' '') @ truncate_chars (str_or ''(no command)'' ''command'' inp) COMMAND_MAX"

definition plural :: "nat \<Rightarrow> utext" where
  "plural n = (if n = 1 then [] else (lit ''s''))"

fun compact_value :: "json \<Rightarrow> utext" where
  "compact_value (JStr s) = truncate_chars s GENERIC_VALUE_MAX"
| "compact_value JNull = (lit ''null'')"
| "compact_value (JBool b) = (if b then (lit ''true'') else (lit ''false''))"
| "compact_value (JInt i) = (if i < 0 then (lit ''-'') @ dec (nat (- i)) else dec (nat i))"
| "compact_value (JFloat t) = t"
| "compact_value (JArr a) = (lit ''['') @ dec (length a) @ (lit '' item'') @ plural (length a) @ (lit '']'')"
| "compact_value (JObj ms) = (lit ''{'') @ dec (length ms) @ (lit '' key'') @ plural (length ms) @ (lit ''}'')"

text \<open>The loop over the members stops once the pieces reach the limit; \<^verbatim>\<open>parts.join(", ")\<close>.\<close>

fun digest_parts :: "nat \<Rightarrow> (utext \<times> json) list \<Rightarrow> utext list" where
  "digest_parts tot [] = []"
| "digest_parts tot ((key, v) # ms) =
     (let piece = key @ (lit '': '') @ compact_value v; tot' = tot + length piece
      in piece # (if GENERIC_DIGEST_MAX \<le> tot' then [] else digest_parts tot' ms))"

fun join_comma :: "utext list \<Rightarrow> utext" where
  "join_comma [] = []"
| "join_comma [p] = p"
| "join_comma (p # ps) = p @ (lit '', '') @ join_comma ps"

definition summarize_generic :: "utext \<Rightarrow> json \<Rightarrow> utext" where
  "summarize_generic tool inp =
     (case inp of
        JObj (m # ms) \<Rightarrow> tool @ (lit '' '') @ truncate_chars (join_comma (digest_parts 0 (m # ms))) GENERIC_DIGEST_MAX
      | _ \<Rightarrow> tool)"

definition summarize_tool_input :: "utext \<Rightarrow> json \<Rightarrow> utext" where
  "summarize_tool_input tool inp =
     (if tool = (lit ''Write'') then summarize_write inp
      else if tool = (lit ''Edit'') then summarize_edit inp
      else if tool = (lit ''MultiEdit'') then summarize_multi_edit inp
      else if tool \<in> {(lit ''Bash''), (lit ''KillShell''), (lit ''KillBash'')} then summarize_bash tool inp
      else summarize_generic tool inp)"

lemma truncate_chars_bound: "length (truncate_chars s limit) \<le> limit + 1"
  by (simp add: truncate_chars_def)

lemma truncate_chars_short: "length s \<le> limit \<Longrightarrow> truncate_chars s limit = s"
  by (simp add: truncate_chars_def)

section \<open>Risk\<close>

datatype approval_risk = Low | Medium | High | UnknownRisk

fun contains_text :: "utext \<Rightarrow> utext \<Rightarrow> bool" where
  "contains_text p t \<longleftrightarrow> take (length p) t = p \<or> (case t of [] \<Rightarrow> False | _ # r \<Rightarrow> contains_text p r)"

declare contains_text.simps [simp del]

definition DESTRUCTIVE_SUBSTRINGS :: "utext list" where
  "DESTRUCTIVE_SUBSTRINGS =
     [(lit ''rm -rf''), (lit ''rm -fr''), (lit ''rm -r -f''), (lit ''rm -f -r''), (lit ''sudo rm''), (lit ''mkfs''), (lit ''dd if=''), (lit ''dd of=''),
      (lit ''git push --force''), (lit ''git push -f''), (lit ''git reset --hard''), (lit ''chmod -r 777''), (lit ''drop table''),
      (lit ''drop database''), (lit ''truncate table''), (lit ''shutdown''), (lit ''reboot''), (lit '':(){ :|:& };:''), (lit ''curl | sh''),
      (lit ''curl | bash''), (lit ''wget | sh''), (lit ''wget | bash''), (lit ''> /dev/sd'')]"

text \<open>\<^verbatim>\<open>str::to_lowercase\<close> follows the Unicode tables of the standard library and is an argument.\<close>

definition is_destructive_command :: "(utext \<Rightarrow> utext) \<Rightarrow> utext \<Rightarrow> bool" where
  "is_destructive_command lower command =
     (let l = lower command in list_ex (\<lambda>p. contains_text p l) DESTRUCTIVE_SUBSTRINGS)"

definition LOW_RISK_TOOLS :: "utext list" where
  "LOW_RISK_TOOLS =
     [(lit ''Read''), (lit ''Glob''), (lit ''Grep''), (lit ''LS''), (lit ''NotebookRead''), (lit ''TodoRead''), (lit ''WebSearch''), (lit ''WebFetch''), (lit ''BashOutput''),
      (lit ''read''), (lit ''grep''), (lit ''find''), (lit ''ls''), (lit ''ccteam_status''), (lit ''ccteam_grok_claude_codex_kimi''), (lit ''ccteam_agent_read'')]"

definition MEDIUM_RISK_TOOLS :: "utext list" where
  "MEDIUM_RISK_TOOLS =
     [(lit ''Write''), (lit ''Edit''), (lit ''MultiEdit''), (lit ''NotebookEdit''), (lit ''TodoWrite''), (lit ''write''), (lit ''edit''),
      (lit ''ccteam_chat_send_file''), (lit ''ccteam_agent''), (lit ''ccteam_agent_stop'')]"

definition classify_tool_risk :: "(utext \<Rightarrow> utext) \<Rightarrow> utext \<Rightarrow> json \<Rightarrow> approval_risk" where
  "classify_tool_risk lower tool inp =
     (if tool \<in> set LOW_RISK_TOOLS then Low
      else if tool \<in> set MEDIUM_RISK_TOOLS then Medium
      else if tool \<in> {(lit ''Bash''), (lit ''KillShell''), (lit ''KillBash''), (lit ''bash'')}
      then (if is_destructive_command lower (str_or '''' ''command'' inp) then High else Medium)
      else UnknownRisk)"

definition risk_badge :: "approval_risk \<Rightarrow> utext" where
  "risk_badge r = (case r of Low \<Rightarrow> ([128994]) | Medium \<Rightarrow> ([128993]) | High \<Rightarrow> ([128308]) | UnknownRisk \<Rightarrow> ([9898]))"

text \<open>The tools a Pi session runs without asking.\<close>

definition auto_allows_tool :: "utext \<Rightarrow> bool" where
  "auto_allows_tool tool \<longleftrightarrow>
     tool \<in> {(lit ''read''), (lit ''grep''), (lit ''find''), (lit ''ls''), (lit ''ccteam_status''), (lit ''ccteam_grok_claude_codex_kimi''), (lit ''ccteam_agent_read'')}"

section \<open>Prompts\<close>

definition mint_prompt_token :: "nat \<Rightarrow> nat \<Rightarrow> utext" where
  "mint_prompt_token prefix nanos = prefix # hex ((nanos mod 2 ^ 64) mod 2 ^ 40)"

definition option_of :: "utext \<Rightarrow> utext \<Rightarrow> choice_option" where
  "option_of i l = \<lparr> co_id = i, co_label = l \<rparr>"

definition approve_deny :: "choice_option list" where
  "approve_deny = [option_of (lit ''allow'') ([9989] @ lit '' Approve''), option_of (lit ''deny'') ([9940] @ lit '' Deny'')]"

record hitl_context =
  hc_channel :: utext
  hc_chat_id :: utext
  hc_thread_ts :: "utext option"
  hc_role :: utext
  hc_progress_path :: "utext option"
  hc_slug :: utext

definition permission_title :: "(utext \<Rightarrow> utext) \<Rightarrow> utext \<Rightarrow> utext \<Rightarrow> json \<Rightarrow> utext" where
  "permission_title lower desc tool inp =
     risk_badge (classify_tool_risk lower tool inp) @ (lit '' '') @ desc @ (lit '' wants to run: '')
     @ summarize_tool_input tool inp"

definition permission_prompt :: "(utext \<Rightarrow> utext) \<Rightarrow> utext \<Rightarrow> utext \<Rightarrow> json \<Rightarrow> nat \<Rightarrow> choice_prompt" where
  "permission_prompt lower desc tool inp nanos =
     \<lparr> cp_token = mint_prompt_token 112 nanos, cp_title = permission_title lower desc tool inp,
       cp_options = approve_deny, cp_multi = False \<rparr>"

text \<open>How the session is named: by the in-process resolver, and by the terminal hook's handler.\<close>

definition resolver_desc :: "sid \<Rightarrow> utext \<Rightarrow> utext" where
  "resolver_desc s role = (if role = [] then (lit ''session '') @ s else (lit ''session '') @ s @ (lit '' ('') @ role @ (lit '')''))"

definition hook_desc :: "sid option \<Rightarrow> utext \<Rightarrow> utext" where
  "hook_desc s role =
     (case s of
        Some s \<Rightarrow> resolver_desc s role
      | None \<Rightarrow> if role = [] then (lit ''session'') else (lit ''session ('') @ role @ (lit '')''))"

definition question_prompt :: "utext \<Rightarrow> utext list \<Rightarrow> bool \<Rightarrow> nat \<Rightarrow> choice_prompt" where
  "question_prompt question opts multi nanos =
     \<lparr> cp_token = mint_prompt_token 104 nanos, cp_title = question,
       cp_options = map (\<lambda>x. option_of x x) opts, cp_multi = multi \<rparr>"

datatype pi_dialog_kind =
    SelectDialog "utext list"
  | ConfirmDialog utext
  | InputDialog "utext option"
  | EditorDialog "utext option"

record pi_dialog_request =
  pd_request_id :: utext
  pd_title :: utext
  pd_kind :: pi_dialog_kind

definition dialog_prompt :: "utext \<Rightarrow> pi_dialog_request \<Rightarrow> choice_prompt" where
  "dialog_prompt token r =
     \<lparr> cp_token = token, cp_title = pd_title r,
       cp_options = (case pd_kind r of
           SelectDialog opts \<Rightarrow> map (\<lambda>x. option_of x x) opts
         | ConfirmDialog _ \<Rightarrow> [option_of (lit ''true'') ([9989] @ lit '' Confirm''), option_of (lit ''false'') ([9940] @ lit '' Cancel'')]
         | InputDialog _ \<Rightarrow> []
         | EditorDialog _ \<Rightarrow> []),
       cp_multi = False \<rparr>"

text \<open>The resolver adds the dialog's message, placeholder or text to the title.\<close>

definition shown_dialog :: "nat \<Rightarrow> pi_dialog_request \<Rightarrow> choice_prompt" where
  "shown_dialog nanos r =
     (let p = dialog_prompt (mint_prompt_token 100 nanos) r
      in case pd_kind r of
           ConfirmDialog m \<Rightarrow> if m \<noteq> [] then p \<lparr> cp_title := cp_title p @ ([10]) @ m \<rparr> else p
         | InputDialog (Some h) \<Rightarrow>
             if h \<noteq> [] then p \<lparr> cp_title := cp_title p @ ([10] @ lit ''Reply with text ('') @ h @ (lit '')'') \<rparr> else p
         | EditorDialog (Some t) \<Rightarrow>
             if t \<noteq> [] then p \<lparr> cp_title := cp_title p @ ([10] @ lit ''Reply with edited text:'' @ [10]) @ t \<rparr> else p
         | _ \<Rightarrow> p)"

record message_option =
  mo_data :: utext
  mo_label :: utext
  mo_id :: utext

definition to_message_options :: "choice_prompt \<Rightarrow> message_option list" where
  "to_message_options p =
     map (\<lambda>(i, opt). \<lparr> mo_data = cp_token p @ (lit '':'') @ dec i, mo_label = co_label opt, mo_id = co_id opt \<rparr>)
       (enumerate 0 (cp_options p))"

definition render_choice_text :: "choice_prompt \<Rightarrow> utext" where
  "render_choice_text p =
     cp_title p @ concat (map (\<lambda>(i, opt). ([10]) @ dec (i + 1) @ (lit '') '') @ co_label opt) (enumerate 0 (cp_options p)))"

section \<open>Reading a reply\<close>

fun split_once :: "nat \<Rightarrow> utext \<Rightarrow> (utext \<times> utext) option" where
  "split_once c [] = None"
| "split_once c (x # xs) =
     (if x = c then Some ([], xs) else map_option (\<lambda>(a, b). (x # a, b)) (split_once c xs))"

definition split_callback :: "utext \<Rightarrow> (utext \<times> nat) option" where
  "split_callback data =
     (case split_once 58 data of
        None \<Rightarrow> None
      | Some (token, idx) \<Rightarrow> map_option (\<lambda>i. (token, i)) (parse_u64 idx))"

definition numeric_choice :: "utext \<Rightarrow> nat option" where
  "numeric_choice t =
     (let s = trim t
      in if s = [] then None
         else case parse_u64 s of Some n \<Rightarrow> if 1 \<le> n then Some n else None | None \<Rightarrow> None)"

definition pending_key :: "chat_key \<Rightarrow> sid \<Rightarrow> utext" where
  "pending_key c s = ck_channel c @ [1] @ ck_chat c @ [1] @ ck_user c @ [1] @ s"

definition nth_option :: "nat \<Rightarrow> choice_prompt \<Rightarrow> choice_option option" where
  "nth_option i p = (if i < length (cp_options p) then Some (cp_options p ! i) else None)"

section \<open>Replies of the asking sides\<close>

datatype external_choice_answer = Selected choice_selection | TimedOut | Unavailable

datatype permission_answer = Allow | Deny | Timeout | NoChannel

definition selects :: "choice_selection \<Rightarrow> utext \<Rightarrow> bool" where
  "selects s i \<longleftrightarrow> (case cs_ids s of x # _ \<Rightarrow> x = i | [] \<Rightarrow> False)"

definition permission_answer_of :: "external_choice_answer \<Rightarrow> permission_answer" where
  "permission_answer_of a =
     (case a of
        Selected s \<Rightarrow> if selects s (lit ''allow'') then Allow else Deny
      | TimedOut \<Rightarrow> Timeout
      | Unavailable \<Rightarrow> NoChannel)"

record approval_decision =
  ad_allow :: bool
  ad_message :: utext

definition allow_decision :: approval_decision where
  "allow_decision = \<lparr> ad_allow = True, ad_message = [] \<rparr>"

definition deny_decision :: "utext \<Rightarrow> approval_decision" where
  "deny_decision m = \<lparr> ad_allow = False, ad_message = m \<rparr>"

text \<open>The resolver of the stream-json protocol; no context means the session is not tracked.\<close>

definition can_use_tool_decision :: "hitl_context option \<Rightarrow> external_choice_answer \<Rightarrow> approval_decision" where
  "can_use_tool_decision ctx a =
     (case ctx of
        None \<Rightarrow> deny_decision (lit ''HITL approval unavailable: session not tracked by the gateway (denied)'')
      | Some _ \<Rightarrow>
          (case permission_answer_of a of
             Allow \<Rightarrow> allow_decision
           | Deny \<Rightarrow> deny_decision ([29992, 25143, 26410, 25209, 20934, 35813, 24037, 20855, 35843, 29992, 12290] @ lit ''Tool call not approved by the user.'')
           | Timeout \<Rightarrow> deny_decision ([23457, 25209, 36229, 26102, 65288, 26410, 22312, 26102, 38480, 20869, 21709, 24212, 65289, 65292, 24050, 25298, 32477, 12290] @ lit ''Approval timed out '' @ [8212] @ lit '' denied.'')
           | NoChannel \<Rightarrow> deny_decision (lit ''HITL approval channel unavailable '' @ [8212] @ lit '' denied.'')))"

text \<open>The line the stream-json adapter writes back.\<close>

definition can_use_tool_response :: "utext \<Rightarrow> bool \<Rightarrow> json \<Rightarrow> utext \<Rightarrow> json" where
  "can_use_tool_response req_id allow inp deny_message =
     JObj [((lit ''type''), JStr (lit ''control_response'')),
           ((lit ''response''), JObj [((lit ''subtype''), JStr (lit ''success'')), ((lit ''request_id''), JStr req_id),
              ((lit ''response''), if allow then JObj [((lit ''behavior''), JStr (lit ''allow'')), ((lit ''updatedInput''), inp)]
                           else JObj [((lit ''behavior''), JStr (lit ''deny'')), ((lit ''message''), JStr deny_message)])])]"

datatype pi_approval_decision = PiAllow | PiDeny utext

definition pi_decision :: "hitl_context option \<Rightarrow> utext \<Rightarrow> external_choice_answer \<Rightarrow> pi_approval_decision" where
  "pi_decision ctx tool a =
     (if tool = [] then PiDeny (lit ''Pi approval request omitted its tool identity'')
      else case ctx of
        None \<Rightarrow> PiDeny (lit ''HITL approval unavailable: session not tracked by the gateway'')
      | Some _ \<Rightarrow>
          (case permission_answer_of a of
             Allow \<Rightarrow> PiAllow
           | Deny \<Rightarrow> PiDeny (lit ''Tool call not approved by the user'')
           | Timeout \<Rightarrow> PiDeny (lit ''Approval timed out'')
           | NoChannel \<Rightarrow> PiDeny (lit ''HITL approval channel unavailable'')))"

text \<open>The reply of the terminal hook's handler to \<^verbatim>\<open>permission/ask\<close> and to \<^verbatim>\<open>interaction/ask\<close>.\<close>

definition rpc_result :: "json \<Rightarrow> json \<Rightarrow> json" where
  "rpc_result i r = JObj [((lit ''jsonrpc''), JStr (lit ''2.0'')), ((lit ''id''), i), ((lit ''result''), r)]"

definition rpc_error :: "json \<Rightarrow> utext \<Rightarrow> json" where
  "rpc_error i m =
     JObj [((lit ''jsonrpc''), JStr (lit ''2.0'')), ((lit ''id''), i),
           ((lit ''error''), JObj [((lit ''code''), JInt (- 32000)), ((lit ''message''), JStr m)])]"

definition permission_ask_reply :: "json \<Rightarrow> external_choice_answer \<Rightarrow> json" where
  "permission_ask_reply i a =
     (case a of
        Selected s \<Rightarrow> rpc_result i (JObj [((lit ''behavior''), JStr (if selects s (lit ''allow'') then (lit ''allow'') else (lit ''deny'')))])
      | TimedOut \<Rightarrow> rpc_result i (JObj [((lit ''timeout''), JBool True)])
      | Unavailable \<Rightarrow> rpc_error i (lit ''permission/ask: gateway sink closed''))"

definition picked_label :: "choice_prompt \<Rightarrow> choice_selection \<Rightarrow> utext" where
  "picked_label p s =
     (case cs_ids s of
        x # _ \<Rightarrow> (case find (\<lambda>opt. co_id opt = x) (cp_options p) of Some opt \<Rightarrow> co_label opt | None \<Rightarrow> x)
      | [] \<Rightarrow> (case cs_free_text s of Some t \<Rightarrow> t | None \<Rightarrow> []))"

definition interaction_ask_reply :: "json \<Rightarrow> choice_prompt \<Rightarrow> external_choice_answer \<Rightarrow> json" where
  "interaction_ask_reply i p a =
     (case a of
        Selected s \<Rightarrow> rpc_result i (JObj [((lit ''answers''), JObj [(cp_title p, JStr (picked_label p s))])])
      | TimedOut \<Rightarrow> rpc_result i (JObj [((lit ''timeout''), JBool True)])
      | Unavailable \<Rightarrow> rpc_error i (lit ''interaction/ask: gateway sink closed''))"

datatype pi_dialog_response = DialogValue utext | DialogConfirmed bool | DialogCancelled

definition dialog_response :: "hitl_context option \<Rightarrow> pi_dialog_kind \<Rightarrow> external_choice_answer \<Rightarrow> pi_dialog_response" where
  "dialog_response ctx kind a =
     (case (ctx, a) of
        (Some _, Selected s) \<Rightarrow>
          (case kind of
             ConfirmDialog _ \<Rightarrow> DialogConfirmed (selects s (lit ''true''))
           | SelectDialog _ \<Rightarrow> (case cs_ids s of x # _ \<Rightarrow> DialogValue x | [] \<Rightarrow> DialogCancelled)
           | _ \<Rightarrow> (case cs_free_text s of
                      Some t \<Rightarrow> DialogValue t
                    | None \<Rightarrow> (case cs_ids s of x # _ \<Rightarrow> DialogValue x | [] \<Rightarrow> DialogCancelled)))
      | _ \<Rightarrow> DialogCancelled)"

text \<open>A Pi session asks through a confirmation dialog with a marked title: whether it is confirmed.
  \<^verbatim>\<open>serde_json::from_str\<close> is an argument; \<^verbatim>\<open>None\<close> for the resolver means that none is wired, and a
  request that outlives its own time limit or its session is denied by the caller.\<close>

definition MAX_PERMISSION_ENVELOPE_BYTES :: nat where
  "MAX_PERMISSION_ENVELOPE_BYTES = 64 * 1024"

definition PERMISSION_DIALOG_TITLE :: utext where
  "PERMISSION_DIALOG_TITLE = (lit ''__ccteam_permission_v1__'')"

datatype pi_outcome = PiResolved pi_approval_decision | PiOutlived | PiSessionClosed

definition pi_outcome_decision :: "pi_outcome \<Rightarrow> pi_approval_decision" where
  "pi_outcome_decision r =
     (case r of
        PiResolved d \<Rightarrow> d
      | PiOutlived \<Rightarrow> PiDeny (lit ''approval timed out'')
      | PiSessionClosed \<Rightarrow> PiDeny (lit ''session closed''))"

definition resolve_permission_request ::
    "(utext \<Rightarrow> json option) \<Rightarrow> (utext \<Rightarrow> json \<Rightarrow> pi_outcome) option \<Rightarrow> utext \<Rightarrow> bool" where
  "resolve_permission_request parse resolver message =
     (if MAX_PERMISSION_ENVELOPE_BYTES < byte_len message then False
      else let envelope = (case parse message of Some j \<Rightarrow> j | None \<Rightarrow> JNull);
               tool = str_or '''' ''toolName'' envelope;
               inp = (case json_get ''input'' envelope of Some j \<Rightarrow> j | None \<Rightarrow> JNull)
           in if str_or '''' ''toolCallId'' envelope = [] \<or> tool = [] then False
              else if auto_allows_tool tool then True
              else (case resolver of
                      Some r \<Rightarrow> pi_outcome_decision (r tool inp) = PiAllow
                    | None \<Rightarrow> False))"

section \<open>The tool-use request of the stream-json protocol\<close>

record can_use_tool_req =
  cr_request_id :: utext
  cr_tool_name :: utext
  cr_input :: json
  cr_tool_use_id :: "utext option"

definition parse_can_use_tool :: "utext \<Rightarrow> json \<Rightarrow> can_use_tool_req option" where
  "parse_can_use_tool req_id r =
     (if json_str ''subtype'' r \<noteq> Some (lit ''can_use_tool'') then None
      else Some \<lparr> cr_request_id = req_id,
                  cr_tool_name = str_or '''' ''tool_name'' r,
                  cr_input = (case json_get ''input'' r of Some j \<Rightarrow> j | None \<Rightarrow> JNull),
                  cr_tool_use_id = json_str ''tool_use_id'' r \<rparr>)"

text \<open>One reply per request; without a resolver the tool is denied.\<close>

definition hitl_dispatch :: "(can_use_tool_req \<Rightarrow> approval_decision) option \<Rightarrow> utext \<Rightarrow> json \<Rightarrow> json option" where
  "hitl_dispatch resolver req_id r =
     (case parse_can_use_tool req_id r of
        None \<Rightarrow> None
      | Some q \<Rightarrow>
          (let d = (case resolver of
                      Some f \<Rightarrow> f q
                    | None \<Rightarrow> deny_decision (lit ''HITL approval is unavailable (no resolver wired) '' @ [8212] @ lit '' denied''))
           in Some (can_use_tool_response (cr_request_id q) (ad_allow d) (cr_input q) (ad_message d))))"

end
