(* ===== verification/Hitl_Gateway.thy ===== *)
theory Hitl_Gateway
  imports Hitl
begin

text \<open>
  Asking and answering: the handlers of \<^verbatim>\<open>ccteam-im/src/gateway.rs\<close> that resolve a choice (a button,
  a number, a text, the web), \<^verbatim>\<open>ask_external_choice\<close> of \<^verbatim>\<open>hitl.rs\<close> cut at its points of suspension,
  and the same code in \<^verbatim>\<open>execute_permission_ask\<close> and \<^verbatim>\<open>execute_interaction_ask\<close> of
  \<^verbatim>\<open>mcp/dispatch.rs\<close>. The state is the registry and the oneshot channels between the two sides.
\<close>

section \<open>State\<close>

text \<open>A oneshot channel: nothing sent yet, a selection sent, or one of its ends dropped without.\<close>

datatype oneshot = Open | Sent choice_selection | Closed

datatype ask_request =
    StreamPermission sid utext utext json
  | PiPermission sid utext utext json
  | HookPermission "sid option" utext utext json
  | PiDialog sid pi_dialog_request
  | HookQuestion utext "utext list" bool

text \<open>Where a task that asks stands: about to send the prompt, waiting until a deadline, about to take
  its prompt back, answered, or dropped by its caller.\<close>

datatype ask_stage =
    Rendering
  | Awaiting nat
  | Forgetting external_choice_answer
  | Returned external_choice_answer
  | Abandoned

record ask =
  ak_request :: ask_request
  ak_prompt :: choice_prompt
  ak_expires :: nat
  ak_ttl :: nat
  ak_stage :: ask_stage

record choices =
  ch_reg :: registry
  ch_chan :: "nat \<Rightarrow> oneshot"
  ch_next :: nat
  ch_asks :: "nat \<Rightarrow> ask option"

text \<open>Dropping a registered interaction drops its sender.\<close>

definition drop_pending :: "pending_interaction \<Rightarrow> choices \<Rightarrow> choices" where
  "drop_pending p st =
     (case pi_origin p of
        External c \<Rightarrow> if ch_chan st c = Open then st \<lparr> ch_chan := (ch_chan st)(c := Closed) \<rparr> else st
      | DirectiveOrigin _ _ \<Rightarrow> st)"

definition drop_opt :: "pending_interaction option \<Rightarrow> choices \<Rightarrow> choices" where
  "drop_opt r st = (case r of Some p \<Rightarrow> drop_pending p st | None \<Rightarrow> st)"

definition lapse :: "hash_order \<Rightarrow> nat \<Rightarrow> choices \<Rightarrow> choices" where
  "lapse ord now st =
     (let (m, ps) = drain_expired ord now (ch_reg st) in fold drop_pending ps (st \<lparr> ch_reg := m \<rparr>))"

section \<open>Resolving\<close>

text \<open>What an answer leads to: receipts, a selection handed to the task that waits on a channel, or the
  directive replayed with the choice.\<close>

datatype choice_outcome =
    Replies "utext list"
  | Delivered nat choice_selection
  | Replayed chat_key sid directive

definition apply_pending :: "chat_key \<Rightarrow> pending_interaction \<Rightarrow> choice_selection \<Rightarrow> choices \<Rightarrow> choices \<times> choice_outcome" where
  "apply_pending chat p sel st =
     (case pi_origin p of
        DirectiveOrigin s d \<Rightarrow> (st, Replayed chat s (d \<lparr> dr_choice := Some sel \<rparr>))
      | External c \<Rightarrow>
          (if ch_chan st c = Open then st \<lparr> ch_chan := (ch_chan st)(c := Sent sel) \<rparr> else st, Delivered c sel))"

definition resolve_selection :: "hash_order \<Rightarrow> hash_order \<Rightarrow> nat \<Rightarrow> chat_key \<Rightarrow> utext \<Rightarrow> choices \<Rightarrow> choices \<times> choice_outcome" where
  "resolve_selection ord ord' now chat data st =
     (case split_callback data of
        None \<Rightarrow> (st, Replies [(lit ''invalid selection'')])
      | Some (token, idx) \<Rightarrow>
          (let st1 = lapse ord now st;
               (m, taken) = take_by_token ord' token (ch_reg st1);
               st2 = st1 \<lparr> ch_reg := m \<rparr>
           in case taken of
                None \<Rightarrow> (st2, Replies [(lit ''this choice has expired'')])
              | Some p \<Rightarrow>
                  (case nth_option idx (pi_prompt p) of
                     None \<Rightarrow> (drop_pending p st2, Replies [(lit ''invalid choice'')])
                   | Some opt \<Rightarrow>
                       apply_pending chat p \<lparr> cs_token = token, cs_ids = [co_id opt], cs_free_text = None \<rparr> st2)))"

definition resolve_numeric :: "hash_order \<Rightarrow> nat \<Rightarrow> chat_key \<Rightarrow> sid option \<Rightarrow> nat \<Rightarrow> choices \<Rightarrow> choices \<times> choice_outcome" where
  "resolve_numeric ord now chat cur n st =
     (case cur of
        None \<Rightarrow> (st, Replies [(lit ''no choice to answer'')])
      | Some s \<Rightarrow>
          (let key = pending_key chat s; st1 = lapse ord now st
           in case prompt_for key (ch_reg st1) of
                None \<Rightarrow> (st1, Replies [(lit ''no choice to answer'')])
              | Some prompt \<Rightarrow>
                  if n = 0 then (st1, Replies [(lit ''invalid choice'')])
                  else (case nth_option (n - 1) prompt of
                     None \<Rightarrow> (st1, Replies [(lit ''please reply 1'' @ [8211]) @ dec (length (cp_options prompt))])
                   | Some opt \<Rightarrow>
                       (case take_pending key (ch_reg st1) of
                          (m, Some p) \<Rightarrow>
                            apply_pending chat p
                              \<lparr> cs_token = cp_token prompt, cs_ids = [co_id opt], cs_free_text = None \<rparr>
                              (st1 \<lparr> ch_reg := m \<rparr>)
                        | (m, None) \<Rightarrow> (st1, Replies [])))))"

definition resolve_free_text :: "hash_order \<Rightarrow> hash_order \<Rightarrow> nat \<Rightarrow> chat_key \<Rightarrow> sid option \<Rightarrow> utext \<Rightarrow> choices \<Rightarrow> choices \<times> choice_outcome option" where
  "resolve_free_text ord ord' now chat cur txt st =
     (case cur of
        None \<Rightarrow> (st, None)
      | Some s \<Rightarrow>
          (let st1 = lapse ord now st; (m, taken) = take_free_text_for_sid ord' s (ch_reg st1)
           in case taken of
                None \<Rightarrow> (st1 \<lparr> ch_reg := m \<rparr>, None)
              | Some p \<Rightarrow>
                  (let (st2, r) = apply_pending chat p
                         \<lparr> cs_token = cp_token (pi_prompt p), cs_ids = [], cs_free_text = Some txt \<rparr>
                         (st1 \<lparr> ch_reg := m \<rparr>)
                   in (st2, Some r))))"

definition has_pending_for_current :: "hash_order \<Rightarrow> nat \<Rightarrow> chat_key \<Rightarrow> sid option \<Rightarrow> choices \<Rightarrow> choices \<times> bool" where
  "has_pending_for_current ord now chat cur st =
     (case cur of
        None \<Rightarrow> (st, False)
      | Some s \<Rightarrow> (let st1 = lapse ord now st in (st1, has_pending (pending_key chat s) (ch_reg st1))))"

text \<open>The part of \<^verbatim>\<open>handle_message\<close> that looks for an answer in a message without a button: \<^verbatim>\<open>None\<close> when
  the message goes on to the commands and the agent.\<close>

definition answer_in_text :: "(nat \<Rightarrow> hash_order) \<Rightarrow> nat \<Rightarrow> chat_key \<Rightarrow> sid option \<Rightarrow> utext \<Rightarrow> choices \<Rightarrow> choices \<times> choice_outcome option" where
  "answer_in_text ords now chat cur txt st =
     (case resolve_free_text (ords 0) (ords 1) now chat cur txt st of
        (st1, Some r) \<Rightarrow> (st1, Some r)
      | (st1, None) \<Rightarrow>
          (case numeric_choice txt of
             None \<Rightarrow> (st1, None)
           | Some n \<Rightarrow>
               (case has_pending_for_current (ords 2) now chat cur st1 of
                  (st2, False) \<Rightarrow> (st2, None)
                | (st2, True) \<Rightarrow>
                    (let (st3, r) = resolve_numeric (ords 3) now chat cur n st2 in (st3, Some r)))))"

datatype web_error = UnknownOrExpired | InvalidOption

definition resolve_web_selection :: "hash_order \<Rightarrow> hash_order \<Rightarrow> nat \<Rightarrow> utext \<Rightarrow> utext \<Rightarrow> choices \<Rightarrow> choices \<times> (web_error + choice_outcome)" where
  "resolve_web_selection ord ord' now token option_id st =
     (let st1 = lapse ord now st; (m, taken) = take_by_token ord' token (ch_reg st1); st2 = st1 \<lparr> ch_reg := m \<rparr>
      in case taken of
           None \<Rightarrow> (st2, Inl UnknownOrExpired)
         | Some p \<Rightarrow>
             (let opts = cp_options (pi_prompt p)
              in if opts \<noteq> [] \<and> \<not> list_ex (\<lambda>opt. co_id opt = option_id) opts
                 then (drop_pending p st2, Inl InvalidOption)
                 else let (st3, r) = apply_pending web_api_chat p
                            \<lparr> cs_token = token, cs_ids = (if opts \<noteq> [] then [option_id] else []),
                              cs_free_text = (if opts = [] then Some option_id else None) \<rparr> st2
                      in (st3, Inr r)))"

text \<open>\<^verbatim>\<open>register\<close> with its returned entry dropped, and an adapter's choice offered to the chat.\<close>

definition register_dropping :: "utext \<Rightarrow> choice_prompt \<Rightarrow> interaction_origin \<Rightarrow> nat \<Rightarrow> choices \<Rightarrow> choices" where
  "register_dropping key prompt orig expires st =
     (let (m, evicted) = register key prompt orig expires (ch_reg st) in drop_opt evicted (st \<lparr> ch_reg := m \<rparr>))"

definition offer_choice :: "chat_key \<Rightarrow> sid \<Rightarrow> choice_prompt \<Rightarrow> directive \<Rightarrow> nat \<Rightarrow> choices \<Rightarrow> choices" where
  "offer_choice chat s prompt original expires st =
     register_dropping (pending_key chat s) prompt (DirectiveOrigin s original) expires st"

definition cancel_sid :: "hash_order \<Rightarrow> sid \<Rightarrow> choices \<Rightarrow> choices" where
  "cancel_sid ord s st =
     (let (m, ps) = drain_sid ord s (ch_reg st) in fold drop_pending ps (st \<lparr> ch_reg := m \<rparr>))"

section \<open>Asking\<close>

definition request_prompt :: "(utext \<Rightarrow> utext) \<Rightarrow> nat \<Rightarrow> ask_request \<Rightarrow> choice_prompt" where
  "request_prompt lower nanos r =
     (case r of
        StreamPermission s role tool inp \<Rightarrow> permission_prompt lower (resolver_desc s role) tool inp nanos
      | PiPermission s role tool inp \<Rightarrow> permission_prompt lower (resolver_desc s role) tool inp nanos
      | HookPermission s role tool inp \<Rightarrow> permission_prompt lower (hook_desc s role) tool inp nanos
      | PiDialog s d \<Rightarrow> shown_dialog nanos d
      | HookQuestion q opts multi \<Rightarrow> question_prompt q opts multi nanos)"

definition request_tag :: "ask_request \<Rightarrow> sid option" where
  "request_tag r =
     (case r of
        StreamPermission s _ _ _ \<Rightarrow> Some s
      | PiPermission s _ _ _ \<Rightarrow> Some s
      | HookPermission s _ _ _ \<Rightarrow> s
      | PiDialog s _ \<Rightarrow> Some s
      | HookQuestion _ _ _ \<Rightarrow> None)"

definition INTERACTION_ASK_TIMEOUT_SECS :: nat where
  "INTERACTION_ASK_TIMEOUT_SECS = 600"

definition request_ttl_secs :: "utext option \<Rightarrow> ask_request \<Rightarrow> nat" where
  "request_ttl_secs env r =
     (case r of HookQuestion _ _ _ \<Rightarrow> INTERACTION_ASK_TIMEOUT_SECS | _ \<Rightarrow> permission_prompt_timeout_secs_from env)"

text \<open>First part: a channel is made, the prompt registered under its token and tagged.\<close>

definition ask_register :: "ask_request \<Rightarrow> choice_prompt \<Rightarrow> nat \<Rightarrow> nat \<Rightarrow> choices \<Rightarrow> choices" where
  "ask_register r prompt ttl now st =
     (let c = ch_next st;
          st1 = register_dropping (cp_token prompt) prompt (External c) (now + ttl)
                  (st \<lparr> ch_next := Suc c, ch_chan := (ch_chan st)(c := Open) \<rparr>);
          st2 = (case request_tag r of
                   Some s \<Rightarrow> st1 \<lparr> ch_reg := tag_sid (cp_token prompt) s (ch_reg st1) \<rparr>
                 | None \<Rightarrow> st1)
      in st2 \<lparr> ch_asks := (ch_asks st2)(c \<mapsto> \<lparr> ak_request = r, ak_prompt = prompt, ak_expires = now + ttl,
                                             ak_ttl = ttl, ak_stage = Rendering \<rparr>) \<rparr>)"

definition set_stage :: "nat \<Rightarrow> ask_stage \<Rightarrow> choices \<Rightarrow> choices" where
  "set_stage c g st =
     (case ch_asks st c of
        Some a \<Rightarrow> st \<lparr> ch_asks := (ch_asks st)(c \<mapsto> a \<lparr> ak_stage := g \<rparr>) \<rparr>
      | None \<Rightarrow> st)"

text \<open>Second part: the prompt is sent to the chat, or the sink is closed.\<close>

definition ask_render :: "bool \<Rightarrow> nat \<Rightarrow> nat \<Rightarrow> choices \<Rightarrow> choices" where
  "ask_render sink_ok now c st =
     (case ch_asks st c of
        Some a \<Rightarrow>
          (case ak_stage a of
             Rendering \<Rightarrow> if sink_ok then set_stage c (Awaiting (now + ak_ttl a)) st
                          else set_stage c (Forgetting Unavailable) st
           | _ \<Rightarrow> st)
      | None \<Rightarrow> st)"

text \<open>Third part: \<^verbatim>\<open>tokio::time::timeout(ttl, answer)\<close> is polled; the receiver goes with it.\<close>

definition close_chan :: "nat \<Rightarrow> choices \<Rightarrow> choices" where
  "close_chan c st = (if ch_chan st c = Open then st \<lparr> ch_chan := (ch_chan st)(c := Closed) \<rparr> else st)"

definition ask_poll :: "nat \<Rightarrow> nat \<Rightarrow> choices \<Rightarrow> choices" where
  "ask_poll now c st =
     (case ch_asks st c of
        Some a \<Rightarrow>
          (case ak_stage a of
             Awaiting deadline \<Rightarrow>
               (case ch_chan st c of
                  Sent sel \<Rightarrow> set_stage c (Returned (Selected sel)) st
                | Closed \<Rightarrow> set_stage c (Forgetting TimedOut) st
                | Open \<Rightarrow> if deadline \<le> now then set_stage c (Forgetting TimedOut) (close_chan c st) else st)
           | _ \<Rightarrow> st)
      | None \<Rightarrow> st)"

text \<open>Last part: the prompt is taken back.\<close>

definition ask_forget :: "hash_order \<Rightarrow> nat \<Rightarrow> choices \<Rightarrow> choices" where
  "ask_forget ord c st =
     (case ch_asks st c of
        Some a \<Rightarrow>
          (case ak_stage a of
             Forgetting ans \<Rightarrow>
               (let (m, taken) = take_by_token ord (cp_token (ak_prompt a)) (ch_reg st)
                in close_chan c (set_stage c (Returned ans) (drop_opt taken (st \<lparr> ch_reg := m \<rparr>))))
           | _ \<Rightarrow> st)
      | None \<Rightarrow> st)"

text \<open>The caller drops the whole task, as a Pi session does after its own time limit.\<close>

definition ask_abandon :: "nat \<Rightarrow> choices \<Rightarrow> choices" where
  "ask_abandon c st =
     (case ch_asks st c of
        Some a \<Rightarrow>
          (case ak_stage a of
             Returned _ \<Rightarrow> st
           | _ \<Rightarrow> set_stage c Abandoned (close_chan c st))
      | None \<Rightarrow> st)"

text \<open>Whether the reply of the asking side lets the tool run.\<close>

definition reply_allows :: "hitl_context option \<Rightarrow> ask_request \<Rightarrow> external_choice_answer \<Rightarrow> bool" where
  "reply_allows ctx r a =
     (case r of
        StreamPermission _ _ _ _ \<Rightarrow> ad_allow (can_use_tool_decision ctx a)
      | PiPermission _ _ tool _ \<Rightarrow> pi_decision ctx tool a = PiAllow
      | HookPermission _ _ _ _ \<Rightarrow>
          permission_ask_reply JNull a = rpc_result JNull (JObj [((lit ''behavior''), JStr (lit ''allow''))])
      | _ \<Rightarrow> False)"

end
