(* ===== verification/Hitl_System.thy ===== *)
theory Hitl_System
  imports Hitl_Gateway
begin

text \<open>
  Asking and answering as one system: any number of tasks ask, users click, type and use the web,
  adapters offer choices, sessions are torn down, and time passes, in any order. The trace holds what
  users did and what came of it. The invariant \<^verbatim>\<open>hitl_inv\<close> ties every answer to the input that gave it.
\<close>

section \<open>Taking a registered prompt\<close>

text \<open>The contract of the operations that take one prompt out of the registry.\<close>

locale taker =
  fixes take_one :: "registry \<Rightarrow> registry \<times> pending_interaction option"
    and wanted :: "utext \<Rightarrow> pending_interaction \<Rightarrow> bool"
  assumes take_some: "registry_ok m \<Longrightarrow> take_one m = (m', Some p)
      \<Longrightarrow> \<exists>k. map_of m k = Some p \<and> wanted k p \<and> m' = remove_key k m"
    and take_none: "registry_ok m \<Longrightarrow> take_one m = (m', None)
      \<Longrightarrow> m' = m \<and> (\<forall>k p. map_of m k = Some p \<longrightarrow> \<not> wanted k p)"
begin

lemma taken_ok: "registry_ok m \<Longrightarrow> take_one m = (m', r) \<Longrightarrow> registry_ok m'"
  by (cases r) (auto dest: take_some take_none intro: remove_key_ok)

lemma taken_subset: "registry_ok m \<Longrightarrow> take_one m = (m', r) \<Longrightarrow> map_of m' k = Some p \<Longrightarrow> map_of m k = Some p"
proof (cases r)
  case None
  then show "registry_ok m \<Longrightarrow> take_one m = (m', r) \<Longrightarrow> map_of m' k = Some p \<Longrightarrow> ?thesis" using take_none by blast
next
  case (Some x)
  assume "registry_ok m" "take_one m = (m', r)" "map_of m' k = Some p"
  then show ?thesis using take_some [of m m' x] Some by (auto split: if_splits)
qed

lemma taken_gone:
  assumes "registry_ok m" "take_one m = (m', Some p)" "\<And>k k'. map_of m k = Some p \<Longrightarrow> map_of m k' = Some p \<Longrightarrow> k = k'"
  shows "map_of m' k \<noteq> Some p"
proof
  assume "map_of m' k = Some p"
  moreover obtain j where j: "map_of m j = Some p" "m' = remove_key j m" using take_some [OF assms(1,2)] by blast
  ultimately have "map_of m k = Some p" "k \<noteq> j" by (auto split: if_splits)
  then show False using assms(3) j(1) by blast
qed

end

lemma remove_absent_key: "map_of m k = None \<Longrightarrow> remove_key k m = m"
  by (induction m) (auto simp: remove_key_def split: if_splits)

interpretation pending_key_taker: taker "take_pending k" "\<lambda>j _. j = k"
  by unfold_locales (auto simp: take_pending_def remove_absent_key)

interpretation matching_taker: taker "take_matching k token" "\<lambda>j p. j = k \<and> cp_token (pi_prompt p) = token"
  by unfold_locales (auto simp: take_matching_def split: option.splits if_splits)

lemma search_taker: "iteration ord \<Longrightarrow> taker (take_where P ord) (\<lambda>_. P)"
  by unfold_locales (auto elim: take_whereE)

lemma token_taker: "iteration ord \<Longrightarrow> taker (take_by_token ord token) (\<lambda>_ p. cp_token (pi_prompt p) = token)"
  using search_taker [of ord "\<lambda>p. cp_token (pi_prompt p) = token"] by (simp add: take_by_token_def [abs_def])

lemma free_text_taker:
  "iteration ord \<Longrightarrow> taker (take_free_text_for_sid ord s) (\<lambda>_ p. pi_sid p = Some s \<and> cp_options (pi_prompt p) = [])"
  using search_taker [of ord "\<lambda>p. pi_sid p = Some s \<and> cp_options (pi_prompt p) = []"]
  by (simp add: take_free_text_for_sid_def [abs_def])

section \<open>Steps\<close>

datatype user_input =
    Click chat_key utext
  | Typed chat_key utext
  | WebPick utext utext

datatype hitl_event = Input nat user_input choice_outcome

definition no_choices :: choices where
  "no_choices = \<lparr> ch_reg = [], ch_chan = (\<lambda>_. Closed), ch_next = 0, ch_asks = (\<lambda>_. None) \<rparr>"

inductive hitl_reach :: "(utext \<Rightarrow> utext) \<Rightarrow> nat \<Rightarrow> choices \<Rightarrow> hitl_event list \<Rightarrow> bool" for lower where
  started: "hitl_reach lower now no_choices []"
| passed: "hitl_reach lower now st tr \<Longrightarrow> now \<le> now' \<Longrightarrow> hitl_reach lower now' st tr"
| asked: "hitl_reach lower now st tr
    \<Longrightarrow> hitl_reach lower now (ask_register r (request_prompt lower nanos r) ttl now st) tr"
| rendered: "hitl_reach lower now st tr \<Longrightarrow> hitl_reach lower now (ask_render sink_ok now c st) tr"
| polled: "hitl_reach lower now st tr \<Longrightarrow> hitl_reach lower now (ask_poll now c st) tr"
| forgot: "hitl_reach lower now st tr \<Longrightarrow> iteration ord \<Longrightarrow> hitl_reach lower now (ask_forget ord c st) tr"
| abandoned: "hitl_reach lower now st tr \<Longrightarrow> hitl_reach lower now (ask_abandon c st) tr"
| offered: "hitl_reach lower now st tr \<Longrightarrow> hitl_reach lower now (offer_choice chat s prompt d expires st) tr"
| cancelled: "hitl_reach lower now st tr \<Longrightarrow> iteration ord \<Longrightarrow> hitl_reach lower now (cancel_sid ord s st) tr"
| clicked: "hitl_reach lower now st tr \<Longrightarrow> iteration ord \<Longrightarrow> iteration ord'
    \<Longrightarrow> resolve_selection ord ord' now chat data st = (st', r)
    \<Longrightarrow> hitl_reach lower now st' (tr @ [Input now (Click chat data) r])"
| typed: "hitl_reach lower now st tr \<Longrightarrow> (\<And>i. iteration (ords i))
    \<Longrightarrow> answer_in_text ords now chat cur txt st = (st', Some r)
    \<Longrightarrow> hitl_reach lower now st' (tr @ [Input now (Typed chat txt) r])"
| typed_on: "hitl_reach lower now st tr \<Longrightarrow> (\<And>i. iteration (ords i))
    \<Longrightarrow> answer_in_text ords now chat cur txt st = (st', None) \<Longrightarrow> hitl_reach lower now st' tr"
| picked: "hitl_reach lower now st tr \<Longrightarrow> iteration ord \<Longrightarrow> iteration ord'
    \<Longrightarrow> resolve_web_selection ord ord' now token opt st = (st', Inr r)
    \<Longrightarrow> hitl_reach lower now st' (tr @ [Input now (WebPick token opt) r])"
| refused: "hitl_reach lower now st tr \<Longrightarrow> iteration ord \<Longrightarrow> iteration ord'
    \<Longrightarrow> resolve_web_selection ord ord' now token opt st = (st', Inl e) \<Longrightarrow> hitl_reach lower now st' tr"

section \<open>The invariant\<close>

text \<open>What reached a channel, and which input chooses which selection of a prompt.\<close>

fun delivery_of :: "nat \<Rightarrow> hitl_event \<Rightarrow> (nat \<times> user_input \<times> choice_selection) option" where
  "delivery_of c (Input t inp (Delivered c' sel)) = (if c' = c then Some (t, inp, sel) else None)"
| "delivery_of c _ = None"

definition deliveries :: "nat \<Rightarrow> hitl_event list \<Rightarrow> (nat \<times> user_input \<times> choice_selection) list" where
  "deliveries c tr = List.map_filter (delivery_of c) tr"

definition selection :: "utext \<Rightarrow> utext list \<Rightarrow> utext option \<Rightarrow> choice_selection" where
  "selection token ids txt = \<lparr> cs_token = token, cs_ids = ids, cs_free_text = txt \<rparr>"

fun chooses :: "user_input \<Rightarrow> choice_prompt \<Rightarrow> choice_selection \<Rightarrow> bool" where
  "chooses (Click chat data) p sel \<longleftrightarrow>
     (\<exists>i opt. split_callback data = Some (cp_token p, i) \<and> nth_option i p = Some opt
        \<and> sel = selection (cp_token p) [co_id opt] None)"
| "chooses (Typed chat txt) p sel \<longleftrightarrow> cp_options p = [] \<and> sel = selection (cp_token p) [] (Some txt)"
| "chooses (WebPick token i) p sel \<longleftrightarrow>
     token = cp_token p \<and>
     (if cp_options p = [] then sel = selection token [] (Some i)
      else i \<in> co_id ` set (cp_options p) \<and> sel = selection token [i] None)"

definition registered :: "choices \<Rightarrow> nat \<Rightarrow> utext \<Rightarrow> choice_prompt \<Rightarrow> nat \<Rightarrow> bool" where
  "registered st c k q e \<longleftrightarrow>
     (\<exists>p. map_of (ch_reg st) k = Some p \<and> pi_origin p = External c \<and> pi_prompt p = q \<and> pi_expires_at p = e)"

definition unheard :: "ask \<Rightarrow> bool" where
  "unheard a \<longleftrightarrow> ak_stage a \<in> {Abandoned, Forgetting Unavailable, Returned Unavailable}"

definition stage_ok :: "nat \<Rightarrow> choices \<Rightarrow> hitl_event list \<Rightarrow> nat \<Rightarrow> ask \<Rightarrow> bool" where
  "stage_ok now st tr c a \<longleftrightarrow>
     (\<forall>d. ak_stage a = Awaiting d \<longrightarrow> ak_expires a \<le> d)
   \<and> (\<forall>sel. ak_stage a \<noteq> Forgetting (Selected sel))
   \<and> (\<forall>sel. ak_stage a = Returned (Selected sel) \<longrightarrow> ch_chan st c = Sent sel)
   \<and> (ak_stage a \<in> {Forgetting TimedOut, Returned TimedOut} \<longrightarrow>
        deliveries c tr = [] \<and> ch_chan st c = Closed \<and> (\<forall>k q e. registered st c k q e \<longrightarrow> e \<le> now))"

definition ask_ok :: "(utext \<Rightarrow> utext) \<Rightarrow> nat \<Rightarrow> choices \<Rightarrow> hitl_event list \<Rightarrow> nat \<Rightarrow> ask \<Rightarrow> bool" where
  "ask_ok lower now st tr c a \<longleftrightarrow>
     (\<exists>nanos. ak_prompt a = request_prompt lower nanos (ak_request a))
   \<and> (\<forall>k q e. registered st c k q e \<longrightarrow>
        k = cp_token q \<and> q = ak_prompt a \<and> e = ak_expires a \<and> deliveries c tr = []
        \<and> (ch_chan st c = Open \<or> ch_chan st c = Closed \<and> (unheard a \<or> e \<le> now)))
   \<and> (deliveries c tr = [] \<or>
        (\<exists>t inp sel. deliveries c tr = [(t, inp, sel)] \<and> chooses inp (ak_prompt a) sel
           \<and> t < ak_expires a \<and> ak_expires a \<le> t + ak_ttl a \<and> (ch_chan st c = Sent sel \<or> unheard a)))
   \<and> (\<forall>sel. ch_chan st c = Sent sel \<longrightarrow> (\<exists>t inp. deliveries c tr = [(t, inp, sel)]))
   \<and> ak_expires a \<le> now + ak_ttl a
   \<and> stage_ok now st tr c a"

definition chan_ok :: "(utext \<Rightarrow> utext) \<Rightarrow> nat \<Rightarrow> choices \<Rightarrow> hitl_event list \<Rightarrow> nat \<Rightarrow> bool" where
  "chan_ok lower now st tr c \<longleftrightarrow>
     (case ch_asks st c of
        Some a \<Rightarrow> c < ch_next st \<and> ask_ok lower now st tr c a
      | None \<Rightarrow> deliveries c tr = [] \<and> (\<forall>k q e. \<not> registered st c k q e))"

definition hitl_inv :: "(utext \<Rightarrow> utext) \<Rightarrow> nat \<Rightarrow> choices \<Rightarrow> hitl_event list \<Rightarrow> bool" where
  "hitl_inv lower now st tr \<longleftrightarrow> registry_ok (ch_reg st) \<and> (\<forall>c. chan_ok lower now st tr c)"

lemma deliveries_append [simp]: "deliveries c (tr @ [e]) = deliveries c tr @ (case delivery_of c e of Some d \<Rightarrow> [d] | None \<Rightarrow> [])"
  by (simp add: deliveries_def map_filter_append List.map_filter_simps split: option.splits)

lemma deliveries_Nil [simp]: "deliveries c [] = []"
  by (simp add: deliveries_def List.map_filter_simps)

section \<open>What a step leaves alone\<close>

text \<open>A step that only removes prompts, and may close the channel of a prompt it removed.\<close>

definition unmoved :: "choices \<Rightarrow> choices \<Rightarrow> nat \<Rightarrow> bool" where
  "unmoved st st' c \<longleftrightarrow>
     ch_asks st' c = ch_asks st c \<and> ch_next st \<le> ch_next st'
   \<and> (\<forall>k q e. registered st' c k q e \<longrightarrow> registered st c k q e)
   \<and> (ch_chan st' c = ch_chan st c \<or>
      ch_chan st c = Open \<and> ch_chan st' c = Closed \<and> (\<forall>k q e. \<not> registered st' c k q e))"

lemma chan_ok_unmoved:
  assumes u: "unmoved st st' c" and ok: "chan_ok lower now st tr c"
  shows "chan_ok lower now st' tr c"
proof (cases "ch_asks st c")
  case None
  then show ?thesis using assms by (auto simp: unmoved_def chan_ok_def)
next
  case (Some a)
  then have a: "c < ch_next st'" "ask_ok lower now st tr c a" and s': "ch_asks st' c = Some a"
    using assms by (auto simp: unmoved_def chan_ok_def)
  show ?thesis
  proof (cases "ch_chan st' c = ch_chan st c")
    case True
    then have "ask_ok lower now st' tr c a"
      using a(2) u unfolding ask_ok_def stage_ok_def unmoved_def True by blast
    then show ?thesis using a(1) s' by (simp add: chan_ok_def)
  next
    case False
    then have "ch_chan st c = Open" and cl: "ch_chan st' c = Closed" and "\<And>k q e. \<not> registered st' c k q e"
      using u by (auto simp: unmoved_def)
    then have "ask_ok lower now st' tr c a"
      using a(2) unfolding ask_ok_def stage_ok_def cl by auto
    then show ?thesis using a(1) s' by (simp add: chan_ok_def)
  qed
qed

lemma unmoved_refl: "unmoved st st c"
  by (simp add: unmoved_def)

lemma unmoved_trans: "unmoved st st1 c \<Longrightarrow> unmoved st1 st2 c \<Longrightarrow> unmoved st st2 c"
  unfolding unmoved_def by (smt (verit) order_trans)

text \<open>In a state with the invariant a channel is registered under one key at most.\<close>

lemma registered_ask:
  assumes "hitl_inv lower now st tr" "registered st c k q e"
  obtains a nanos where "ch_asks st c = Some a" "ask_ok lower now st tr c a" "k = cp_token q" "q = ak_prompt a"
    "e = ak_expires a" "q = request_prompt lower nanos (ak_request a)"
proof -
  have "chan_ok lower now st tr c" using assms(1) by (simp add: hitl_inv_def)
  then obtain a where a: "ch_asks st c = Some a" "ask_ok lower now st tr c a"
    using assms(2) by (auto simp: chan_ok_def split: option.splits)
  moreover have "k = cp_token q \<and> q = ak_prompt a \<and> e = ak_expires a"
    using a(2) assms(2) by (simp add: ask_ok_def)
  ultimately show thesis using that unfolding ask_ok_def by metis
qed

lemma registered_key:
  assumes "hitl_inv lower now st tr" "registered st c k q e" "registered st c k' q' e'"
  shows "k = k' \<and> q = q' \<and> e = e'"
  by (rule registered_ask [OF assms(1,2)], rule registered_ask [OF assms(1,3)]) simp

lemma chan_ok_cong: "deliveries c tr' = deliveries c tr \<Longrightarrow> chan_ok lower now st tr' c = chan_ok lower now st tr c"
  by (simp add: chan_ok_def ask_ok_def stage_ok_def split: option.splits)

lemma inv_step:
  assumes "hitl_inv lower now st tr" "registry_ok (ch_reg st')" "chan_ok lower now st' tr' c"
    and "\<And>c'. c' \<noteq> c \<Longrightarrow> unmoved st st' c'" "\<And>c'. c' \<noteq> c \<Longrightarrow> deliveries c' tr' = deliveries c' tr"
  shows "hitl_inv lower now st' tr'"
proof -
  have "chan_ok lower now st' tr' c'" if "c' \<noteq> c" for c'
    using chan_ok_unmoved [OF assms(4) [OF that]] assms(1) chan_ok_cong [OF assms(5) [OF that]]
    by (simp add: hitl_inv_def)
  then show ?thesis using assms(2,3) unfolding hitl_inv_def by metis
qed

lemma inv_unmoved:
  assumes "hitl_inv lower now st tr" "registry_ok (ch_reg st')" "\<And>c. unmoved st st' c"
    and "\<And>c. deliveries c tr' = deliveries c tr"
  shows "hitl_inv lower now st' tr'"
  by (rule inv_step [OF assms(1,2) _ assms(3,4)])
    (use chan_ok_unmoved [OF assms(3)] assms(1) chan_ok_cong [OF assms(4)] in \<open>simp add: hitl_inv_def\<close>)

lemma fold_drop:
  "ch_reg (fold drop_pending ps st) = ch_reg st \<and> ch_asks (fold drop_pending ps st) = ch_asks st
   \<and> ch_next (fold drop_pending ps st) = ch_next st
   \<and> ch_chan (fold drop_pending ps st) c
      = (if ch_chan st c = Open \<and> (\<exists>p \<in> set ps. pi_origin p = External c) then Closed else ch_chan st c)"
  by (induction ps arbitrary: st) (auto simp: drop_pending_def split: interaction_origin.splits)

lemma drop_opt_fields:
  "ch_reg (drop_opt r st) = ch_reg st" "ch_asks (drop_opt r st) = ch_asks st" "ch_next (drop_opt r st) = ch_next st"
  "ch_chan (drop_opt r st) c
    = (if ch_chan st c = Open \<and> (\<exists>p. r = Some p \<and> pi_origin p = External c) then Closed else ch_chan st c)"
  using fold_drop [of "case r of Some p \<Rightarrow> [p] | None \<Rightarrow> []" st c] by (auto simp: drop_opt_def split: option.splits)

lemma registeredI: "map_of (ch_reg st) k = Some p \<Longrightarrow> pi_origin p = External c \<Longrightarrow> registered st c k (pi_prompt p) (pi_expires_at p)"
  by (auto simp: registered_def)

lemma external_key:
  assumes "hitl_inv lower now st tr" "map_of (ch_reg st) k = Some p" "pi_origin p = External c"
    and "map_of (ch_reg st) k' = Some p'" "pi_origin p' = External c"
  shows "k = k'"
  using registered_key [OF assms(1) registeredI [OF assms(2,3)] registeredI [OF assms(4,5)]] by simp

lemma drained_unmoved:
  assumes inv: "hitl_inv lower now st tr" and it: "iteration ord" and d: "drain_where P ord (ch_reg st) = (m, ps)"
  shows "unmoved st (fold drop_pending ps (st \<lparr> ch_reg := m \<rparr>)) c" (is "unmoved st ?st c")
    and "registry_ok m" and "\<And>k p. map_of m k = Some p \<Longrightarrow> \<not> P p"
proof -
  have ok: "registry_ok (ch_reg st)" using inv by (simp add: hitl_inv_def)
  note dr = drain_where [OF ok it d]
  have sub: "map_of m k = Some p \<Longrightarrow> map_of (ch_reg st) k = Some p \<and> \<not> P p" for k p
    by (auto simp: dr(1) split: option.splits if_splits)
  show "registry_ok m" by (rule dr(3))
  show "\<not> P p" if "map_of m k = Some p" for k p using sub [OF that] by simp
  note f = fold_drop [of ps "st \<lparr> ch_reg := m \<rparr>" c]
  have cl: False if h: "p \<in> set ps" "pi_origin p = External c" "map_of m k = Some p'" "pi_origin p' = External c" for p k p'
  proof -
    obtain j where j: "map_of (ch_reg st) j = Some p" "P p" using h(1) by (auto simp: dr(2))
    have "j = k" by (rule external_key [OF inv j(1) h(2)]) (use sub [OF h(3)] h(4) in auto)
    then show False using sub [OF h(3)] j by simp
  qed
  show "unmoved st ?st c"
    unfolding unmoved_def registered_def using f sub cl by (auto split: if_splits)
qed

lemma lapse_unmoved:
  assumes "hitl_inv lower now st tr" "iteration ord"
  shows "hitl_inv lower now (lapse ord now st) tr" "\<And>k p. map_of (ch_reg (lapse ord now st)) k = Some p \<Longrightarrow> now < pi_expires_at p"
proof -
  obtain m ps where d: "drain_expired ord now (ch_reg st) = (m, ps)" by (cases "drain_expired ord now (ch_reg st)")
  note dw = drained_unmoved [OF assms d [unfolded drain_expired_def]]
  have l: "lapse ord now st = fold drop_pending ps (st \<lparr> ch_reg := m \<rparr>)" by (simp add: lapse_def d)
  have r: "ch_reg (lapse ord now st) = m" by (simp add: l fold_drop)
  show "hitl_inv lower now (lapse ord now st) tr"
    by (rule inv_unmoved [OF assms(1)]) (use dw r in \<open>simp_all add: l\<close>)
  show "now < pi_expires_at p" if "map_of (ch_reg (lapse ord now st)) k = Some p" for k p
  proof -
    have "\<not> pi_expires_at p \<le> now" by (rule dw(3)) (use that in \<open>simp add: r\<close>)
    then show ?thesis by simp
  qed
qed

context taker begin

lemma taken_unmoved:
  assumes inv: "hitl_inv lower now st tr" and t: "take_one (ch_reg st) = (m, r)"
  shows "unmoved st (drop_opt r (st \<lparr> ch_reg := m \<rparr>)) c"
proof -
  have ok: "registry_ok (ch_reg st)" using inv by (simp add: hitl_inv_def)
  have sub: "map_of m k = Some p \<Longrightarrow> map_of (ch_reg st) k = Some p" for k p by (rule taken_subset [OF ok t])
  have cl: False if h: "r = Some p" "pi_origin p = External c" "map_of m k = Some p'" "pi_origin p' = External c" for k p p'
  proof -
    obtain j where j: "map_of (ch_reg st) j = Some p" "m = remove_key j (ch_reg st)"
      using take_some [OF ok t [unfolded h(1)]] by blast
    have "j = k" by (rule external_key [OF inv j(1) h(2) sub [OF h(3)] h(4)])
    then show False using j(2) h(3) by simp
  qed
  show ?thesis unfolding unmoved_def registered_def using sub cl by (auto simp: drop_opt_fields split: if_splits; blast)
qed

lemma taken_inv:
  assumes "hitl_inv lower now st tr" "take_one (ch_reg st) = (m, r)"
  shows "hitl_inv lower now (drop_opt r (st \<lparr> ch_reg := m \<rparr>)) tr"
  using taken_ok [OF _ assms(2)] assms(1) taken_unmoved [OF assms]
  by (intro inv_unmoved [OF assms(1)]) (auto simp: drop_opt_fields hitl_inv_def)

end

section \<open>Answering\<close>

lemma inv_applied:
  assumes inv: "hitl_inv lower now st tr" and m: "map_of (ch_reg st) k = Some p" and fresh: "now < pi_expires_at p"
    and ap: "apply_pending chat p sel (st \<lparr> ch_reg := remove_key k (ch_reg st) \<rparr>) = (st', r)"
    and ch: "\<And>c. pi_origin p = External c \<Longrightarrow> chooses inp (pi_prompt p) sel"
  shows "hitl_inv lower now st' (tr @ [Input now inp r])"
proof -
  let ?m = "remove_key k (ch_reg st)"
  have ok: "registry_ok ?m" using inv by (simp add: hitl_inv_def remove_key_ok)
  have sub: "registered (st \<lparr> ch_reg := ?m \<rparr>) c' j q e \<Longrightarrow> registered st c' j q e \<and> j \<noteq> k" for c' j q e
    by (auto simp: registered_def split: if_splits)
  show ?thesis
  proof (cases "pi_origin p")
    case (DirectiveOrigin s d)
    then have "st' = st \<lparr> ch_reg := ?m \<rparr>" "r = Replayed chat s (d \<lparr> dr_choice := Some sel \<rparr>)"
      using ap by (auto simp: apply_pending_def)
    then show ?thesis using ok sub by (intro inv_unmoved [OF inv]) (auto simp: unmoved_def)
  next
    case (External c)
    have r: "r = Delivered c sel" and st': "ch_reg st' = ?m" "ch_asks st' = ch_asks st" "ch_next st' = ch_next st"
      "\<And>c'. ch_chan st' c' = (if c' = c \<and> ch_chan st c = Open then Sent sel else ch_chan st c')"
      using ap by (auto simp: apply_pending_def External split: if_splits)
    have reg: "registered st c k (pi_prompt p) (pi_expires_at p)" by (rule registeredI [OF m External])
    have co: "chan_ok lower now st tr c" using inv by (simp add: hitl_inv_def)
    then obtain a where a: "ch_asks st c = Some a" "c < ch_next st" and aok: "ask_ok lower now st tr c a"
      using reg by (auto simp: chan_ok_def split: option.splits)
    have q: "pi_prompt p = ak_prompt a" "pi_expires_at p = ak_expires a" "deliveries c tr = []"
      "ch_chan st c = Open \<or> ch_chan st c = Closed \<and> unheard a"
    proof -
      have "pi_prompt p = ak_prompt a \<and> pi_expires_at p = ak_expires a \<and> deliveries c tr = []
          \<and> (ch_chan st c = Open \<or> ch_chan st c = Closed \<and> (unheard a \<or> pi_expires_at p \<le> now))"
        using aok reg unfolding ask_ok_def by blast
      then show "pi_prompt p = ak_prompt a" "pi_expires_at p = ak_expires a" "deliveries c tr = []"
        "ch_chan st c = Open \<or> ch_chan st c = Closed \<and> unheard a" using fresh by auto
    qed
    have req: "registered st' c' j x e = registered (st \<lparr> ch_reg := ?m \<rparr>) c' j x e" for c' j x e
      by (simp add: registered_def st'(1))
    have gone: "\<not> registered st' c j x e" for j x e
    proof
      assume "registered st' c j x e"
      then have j: "registered st c j x e" "j \<noteq> k" using sub [of c j x e] unfolding req by simp_all
      then show False using registered_key [OF inv j(1) reg] by simp
    qed
    have dl: "deliveries c (tr @ [Input now inp r]) = [(now, inp, sel)]" by (simp add: r q(3))
    have sok: "stage_ok now st tr c a" using aok by (simp add: ask_ok_def)
    have "ak_stage a \<notin> {Forgetting TimedOut, Returned TimedOut}"
    proof
      assume "ak_stage a \<in> {Forgetting TimedOut, Returned TimedOut}"
      then have "\<forall>k q e. registered st c k q e \<longrightarrow> e \<le> now" using sok unfolding stage_ok_def by blast
      then show False using reg fresh by (meson not_le)
    qed
    moreover have "ak_stage a \<noteq> Returned (Selected x)" for x
      using sok q(4) by (auto simp: stage_ok_def)
    ultimately have so: "stage_ok now st' (tr @ [Input now inp r]) c a"
      using sok by (simp add: stage_ok_def)
    have "ask_ok lower now st' (tr @ [Input now inp r]) c a"
      unfolding ask_ok_def dl using aok so gone q fresh ch [OF External] st'(4) [of c]
      by (auto simp: ask_ok_def)
    then have "chan_ok lower now st' (tr @ [Input now inp r]) c" by (simp add: chan_ok_def st' a)
    moreover have "unmoved st st' c'" if "c' \<noteq> c" for c'
      using that sub [of c'] by (simp add: unmoved_def st' req)
    ultimately show ?thesis
      by (intro inv_step [OF inv, where c = c]) (auto simp: st' ok r)
  qed
qed

lemma token_plain:
  assumes "iteration ord" "hitl_inv lower now st tr" "take_by_token ord token (ch_reg st) = (m, Some p)"
  shows "\<exists>k. map_of (ch_reg st) k = Some p \<and> cp_token (pi_prompt p) = token \<and> m = remove_key k (ch_reg st)"
  using taker.take_some [OF token_taker [OF assms(1)] _ assms(3)] assms(2) by (auto simp: hitl_inv_def)

lemma inv_replied:
  assumes "hitl_inv lower now st tr" "\<And>c sel. r \<noteq> Delivered c sel"
  shows "hitl_inv lower now st (tr @ [Input now inp r])"
proof -
  have "delivery_of c (Input now inp r) = None" for c
  proof (cases r)
    case (Delivered c' sel)
    then show ?thesis using assms(2) by blast
  qed simp_all
  then have "deliveries c (tr @ [Input now inp r]) = deliveries c tr" for c by simp
  then show ?thesis using assms(1) by (intro inv_unmoved [OF assms(1)]) (auto simp: hitl_inv_def unmoved_refl)
qed

lemma inv_clicked:
  assumes inv: "hitl_inv lower now st tr" and it: "iteration ord" "iteration ord'"
    and s: "resolve_selection ord ord' now chat data st = (st', r)"
  shows "hitl_inv lower now st' (tr @ [Input now (Click chat data) r])"
proof (cases "split_callback data")
  case None
  then show ?thesis using s inv_replied [OF inv] by (auto simp: resolve_selection_def)
next
  case (Some d)
  obtain token idx where d: "d = (token, idx)" by (cases d)
  let ?l = "lapse ord now st"
  note l = lapse_unmoved [OF inv it(1)]
  obtain m taken where t: "take_by_token ord' token (ch_reg ?l) = (m, taken)" by (cases "take_by_token ord' token (ch_reg ?l)")
  note tk = taker.taken_inv [OF token_taker [OF it(2)] l(1) t]
  have idle: "hitl_inv lower now st'' (tr @ [Input now (Click chat data) (Replies x)])"
    if "st'' = drop_opt taken (?l \<lparr> ch_reg := m \<rparr>)" for st'' x
    unfolding that by (rule inv_replied [OF tk]) simp
  show ?thesis
  proof (cases taken)
    case None
    then show ?thesis using s Some by (auto simp: resolve_selection_def d t intro!: idle simp: drop_opt_def)
  next
    case (Some p)
    obtain k where k: "map_of (ch_reg ?l) k = Some p" "cp_token (pi_prompt p) = token" "m = remove_key k (ch_reg ?l)"
      using token_plain [OF it(2) l(1)] t Some by blast
    show ?thesis
    proof (cases "nth_option idx (pi_prompt p)")
      case None
      then show ?thesis using s Some \<open>split_callback data = Some d\<close>
        by (auto simp: resolve_selection_def d t intro!: idle simp: drop_opt_def)
    next
      case o: (Some opt)
      have "apply_pending chat p (selection token [co_id opt] None) (?l \<lparr> ch_reg := remove_key k (ch_reg ?l) \<rparr>) = (st', r)"
        using s Some o \<open>split_callback data = Some d\<close> by (simp add: resolve_selection_def d t k(3) selection_def Let_def)
      then show ?thesis
        by (rule inv_applied [OF l(1) k(1) l(2) [OF k(1)]])
          (use o k(2) d \<open>split_callback data = Some d\<close> in auto)
    qed
  qed
qed

text \<open>A prompt that a task registered is keyed by its token, which never looks like the key of a
  choice offered by an adapter.\<close>

lemma hex_plain: "1 \<notin> set (hex n)" "58 \<notin> set (hex n)"
proof -
  have "digit_char d \<noteq> 58 \<and> digit_char d \<noteq> 1" if "d \<in> set (radix_digits 16 n)" for d
    using radix_digits_bound [OF _ that] by (auto simp: digit_char_def)
  then show "1 \<notin> set (hex n)" "58 \<notin> set (hex n)" by (force simp: hex_def)+
qed

lemma request_token: "\<exists>x. cp_token (request_prompt lower nanos r) = mint_prompt_token x nanos \<and> x \<in> {112, 104, 100}"
  by (cases r) (auto simp: request_prompt_def permission_prompt_def question_prompt_def shown_dialog_def dialog_prompt_def Let_def
      split: pi_dialog_kind.splits option.splits)

lemma external_not_offered:
  assumes inv: "hitl_inv lower now st tr" and r: "registered st c (pending_key chat s) q e"
  shows False
proof -
  have "\<exists>(a :: ask) nanos. pending_key chat s = cp_token q \<and> q = request_prompt lower nanos (ak_request a)"
    by (rule registered_ask [OF inv r]) blast
  then obtain a :: ask and nanos where "pending_key chat s = cp_token q" "q = request_prompt lower nanos (ak_request a)" by blast
  then obtain x where "pending_key chat s = mint_prompt_token x nanos" "x \<in> {112, 104, 100}"
    using request_token [of lower nanos "ak_request a"] by auto
  then have "1 \<notin> set (pending_key chat s)" using hex_plain(1) by (auto simp: mint_prompt_token_def)
  then show False by (simp add: pending_key_def)
qed

lemma inv_free_text:
  assumes inv: "hitl_inv lower now st tr" and it: "iteration ord" "iteration ord'"
    and s: "resolve_free_text ord ord' now chat cur txt st = (st', r)"
  shows "case r of None \<Rightarrow> hitl_inv lower now st' tr | Some x \<Rightarrow> hitl_inv lower now st' (tr @ [Input now (Typed chat txt) x])"
proof (cases cur)
  case None
  then show ?thesis using s inv by (auto simp: resolve_free_text_def)
next
  case (Some sid)
  let ?l = "lapse ord now st"
  note l = lapse_unmoved [OF inv it(1)]
  obtain m taken where t: "take_free_text_for_sid ord' sid (ch_reg ?l) = (m, taken)"
    by (cases "take_free_text_for_sid ord' sid (ch_reg ?l)")
  note tk = taker.taken_inv [OF free_text_taker [OF it(2)] l(1) t]
  show ?thesis
  proof (cases taken)
    case None
    then show ?thesis using s tk by (auto simp: resolve_free_text_def Some t Let_def drop_opt_def)
  next
    case (Some p)
    have "registry_ok (ch_reg ?l)" using l(1) by (simp add: hitl_inv_def)
    then obtain k where k: "map_of (ch_reg ?l) k = Some p" "cp_options (pi_prompt p) = []" "m = remove_key k (ch_reg ?l)"
      using taker.take_some [OF free_text_taker [OF it(2)] _ t [unfolded Some]] by blast
    obtain r' where r': "r = Some r'" "apply_pending chat p (selection (cp_token (pi_prompt p)) [] (Some txt))
        (?l \<lparr> ch_reg := remove_key k (ch_reg ?l) \<rparr>) = (st', r')"
      using s Some by (auto simp: resolve_free_text_def \<open>cur = Some sid\<close> t k(3) selection_def Let_def split: prod.splits)
    have "hitl_inv lower now st' (tr @ [Input now (Typed chat txt) r'])"
      by (rule inv_applied [OF l(1) k(1) l(2) [OF k(1)] r'(2)]) (simp add: k(2))
    then show ?thesis by (simp add: r'(1))
  qed
qed

lemma inv_numeric:
  assumes inv: "hitl_inv lower now st tr" and it: "iteration ord"
    and s: "resolve_numeric ord now chat cur n st = (st', r)"
  shows "hitl_inv lower now st' (tr @ [Input now (Typed chat txt) r])"
proof (cases cur)
  case None
  then show ?thesis using s inv_replied [OF inv] by (auto simp: resolve_numeric_def)
next
  case (Some sid)
  let ?l = "lapse ord now st" and ?k = "pending_key chat sid"
  note l = lapse_unmoved [OF inv it]
  show ?thesis
  proof (cases "map_of (ch_reg ?l) ?k")
    case None
    then show ?thesis using s inv_replied [OF l(1)] by (auto simp: resolve_numeric_def Some prompt_for_def Let_def)
  next
    case p: (Some p)
    show ?thesis
    proof (cases "n = 0 \<or> nth_option (n - 1) (pi_prompt p) = None")
      case True
      then show ?thesis using s p inv_replied [OF l(1)]
        by (auto simp: resolve_numeric_def Some prompt_for_def Let_def split: if_splits)
    next
      case False
      then obtain opt where o: "nth_option (n - 1) (pi_prompt p) = Some opt" "n \<noteq> 0" by auto
      have "apply_pending chat p (selection (cp_token (pi_prompt p)) [co_id opt] None)
          (?l \<lparr> ch_reg := remove_key ?k (ch_reg ?l) \<rparr>) = (st', r)"
        using s p o by (simp add: resolve_numeric_def Some prompt_for_def Let_def take_pending_def selection_def)
      then show ?thesis
        by (rule inv_applied [OF l(1) p l(2) [OF p]]) (metis external_not_offered l(1) p registeredI)
    qed
  qed
qed

lemma inv_typed:
  assumes inv: "hitl_inv lower now st tr" and it: "\<And>i. iteration (ords i)"
    and s: "answer_in_text ords now chat cur txt st = (st', r)"
  shows "case r of None \<Rightarrow> hitl_inv lower now st' tr | Some x \<Rightarrow> hitl_inv lower now st' (tr @ [Input now (Typed chat txt) x])"
proof -
  obtain st1 r1 where f: "resolve_free_text (ords 0) (ords 1) now chat cur txt st = (st1, r1)"
    by (cases "resolve_free_text (ords 0) (ords 1) now chat cur txt st")
  note i1 = inv_free_text [OF inv it it f]
  show ?thesis
  proof (cases "r1 = None \<and> numeric_choice txt \<noteq> None")
    case False
    then show ?thesis using s f i1 by (auto simp: answer_in_text_def split: option.splits)
  next
    case True
    then obtain n where n: "numeric_choice txt = Some n" and i1': "hitl_inv lower now st1 tr" using i1 by auto
    obtain st2 b where h: "has_pending_for_current (ords 2) now chat cur st1 = (st2, b)"
      by (cases "has_pending_for_current (ords 2) now chat cur st1")
    have i2: "hitl_inv lower now st2 tr"
      using h i1' lapse_unmoved(1) [OF i1' it] by (auto simp: has_pending_for_current_def Let_def split: option.splits)
    obtain st3 r3 where m: "resolve_numeric (ords 3) now chat cur n st2 = (st3, r3)"
      by (cases "resolve_numeric (ords 3) now chat cur n st2")
    show ?thesis
      using s f True n h m i2 inv_numeric [OF i2 it m] by (cases b) (auto simp: answer_in_text_def)
  qed
qed

lemma inv_picked:
  assumes inv: "hitl_inv lower now st tr" and it: "iteration ord" "iteration ord'"
    and s: "resolve_web_selection ord ord' now token i st = (st', r)"
  shows "case r of Inl _ \<Rightarrow> hitl_inv lower now st' tr | Inr x \<Rightarrow> hitl_inv lower now st' (tr @ [Input now (WebPick token i) x])"
proof -
  let ?l = "lapse ord now st"
  note l = lapse_unmoved [OF inv it(1)]
  obtain m taken where t: "take_by_token ord' token (ch_reg ?l) = (m, taken)" by (cases "take_by_token ord' token (ch_reg ?l)")
  note tk = taker.taken_inv [OF token_taker [OF it(2)] l(1) t]
  show ?thesis
  proof (cases taken)
    case None
    then show ?thesis using s tk by (auto simp: resolve_web_selection_def t drop_opt_def Let_def)
  next
    case (Some p)
    obtain k where k: "map_of (ch_reg ?l) k = Some p" "cp_token (pi_prompt p) = token" "m = remove_key k (ch_reg ?l)"
      using token_plain [OF it(2) l(1)] t Some by blast
    let ?os = "cp_options (pi_prompt p)"
    show ?thesis
    proof (cases "?os \<noteq> [] \<and> \<not> list_ex (\<lambda>opt. co_id opt = i) ?os")
      case True
      then show ?thesis using s tk Some by (auto simp: resolve_web_selection_def t drop_opt_def Let_def)
    next
      case False
      then obtain r' where r': "r = Inr r'" "apply_pending web_api_chat p
          (selection token (if ?os \<noteq> [] then [i] else []) (if ?os = [] then Some i else None))
          (?l \<lparr> ch_reg := remove_key k (ch_reg ?l) \<rparr>) = (st', r')"
        using s Some by (auto simp: resolve_web_selection_def t k(3) selection_def Let_def split: prod.splits if_splits)
      have "hitl_inv lower now st' (tr @ [Input now (WebPick token i) r'])"
        by (rule inv_applied [OF l(1) k(1) l(2) [OF k(1)] r'(2)]) (use False in \<open>auto simp: k(2) list_ex_iff\<close>)
      then show ?thesis by (simp add: r'(1))
    qed
  qed
qed

section \<open>Asking\<close>

lemma register_dropping_fields:
  fixes st key prompt orig expires
  defines "st' \<equiv> register_dropping key prompt orig expires st"
  shows "registry_ok (ch_reg st) \<Longrightarrow> registry_ok (ch_reg st')" "ch_asks st' = ch_asks st" "ch_next st' = ch_next st"
    "map_of (ch_reg st') j = (if j = key then Some \<lparr> pi_prompt = prompt, pi_origin = orig, pi_expires_at = expires, pi_sid = None \<rparr>
                              else map_of (ch_reg st) j)"
    "ch_chan st' c = (if ch_chan st c = Open \<and> (\<exists>p. map_of (ch_reg st) key = Some p \<and> pi_origin p = External c)
                      then Closed else ch_chan st c)"
  using register_ok [of "ch_reg st" key prompt orig expires]
  by (auto simp: st'_def register_dropping_def register_def drop_opt_fields)

lemma inv_registered:
  assumes inv: "hitl_inv lower now st tr"
    and st': "st' = register_dropping key prompt orig expires st" and o: "orig \<noteq> External c"
  shows "unmoved st st' c"
proof -
  note f = register_dropping_fields [where st = st and key = key and prompt = prompt and orig = orig and expires = expires, folded st']
  have sub: "registered st' c k q e \<Longrightarrow> k \<noteq> key \<and> registered st c k q e" for k q e
    using o by (auto simp: registered_def f(4) split: if_splits)
  have "\<not> registered st' c k q e" if "map_of (ch_reg st) key = Some p" "pi_origin p = External c" for k q e p
    using registered_key [OF inv registeredI [OF that]] sub by blast
  then show ?thesis using sub by (auto simp: unmoved_def f(2,3,5))
qed

lemma inv_offered: "hitl_inv lower now st tr \<Longrightarrow> hitl_inv lower now (offer_choice chat s prompt d expires st) tr"
  unfolding offer_choice_def
  by (rule inv_unmoved [where st = st]) (auto simp: hitl_inv_def intro: register_dropping_fields(1) inv_registered)

lemma registered_tag: "registered (st \<lparr> ch_reg := tag_sid k s (ch_reg st) \<rparr>) = registered st"
proof (intro ext)
  fix c j q e
  show "registered (st \<lparr> ch_reg := tag_sid k s (ch_reg st) \<rparr>) c j q e = registered st c j q e"
    by (cases "map_of (ch_reg st) j") (auto simp: registered_def map_of_tag_sid)
qed

lemma inv_asked:
  assumes inv: "hitl_inv lower now st tr"
  shows "hitl_inv lower now (ask_register r (request_prompt lower nanos r) ttl now st) tr" (is "hitl_inv lower now ?st' tr")
proof -
  let ?c = "ch_next st" and ?q = "request_prompt lower nanos r"
  let ?k = "cp_token ?q" and ?e = "now + ttl"
  let ?st0 = "st \<lparr> ch_next := Suc ?c, ch_chan := (ch_chan st)(?c := Open) \<rparr>"
  let ?st1 = "register_dropping ?k ?q (External ?c) ?e ?st0"
  have new: "chan_ok lower now st tr ?c" using inv by (simp add: hitl_inv_def)
  then have none: "ch_asks st ?c = None" by (auto simp: chan_ok_def split: option.splits)
  then have unreg: "deliveries ?c tr = []" "\<not> registered st ?c k q e" for k q e using new by (auto simp: chan_ok_def)
  have ok: "registry_ok (ch_reg st)" using inv by (simp add: hitl_inv_def)
  have "unmoved st ?st0 c" if "c \<noteq> ?c" for c using that by (simp add: unmoved_def registered_def)
  moreover have "chan_ok lower now ?st0 tr ?c" using none unreg by (simp add: chan_ok_def registered_def)
  ultimately have inv0: "hitl_inv lower now ?st0 tr" using ok by (intro inv_step [OF inv, where c = ?c]) auto
  note f = register_dropping_fields [where st = ?st0 and key = ?k and prompt = ?q and orig = "External ?c" and expires = ?e]
  define st2 where "st2 = (case request_tag r of Some s \<Rightarrow> ?st1 \<lparr> ch_reg := tag_sid ?k s (ch_reg ?st1) \<rparr> | None \<Rightarrow> ?st1)"
  have f2: "ch_asks st2 = ch_asks ?st1" "ch_next st2 = ch_next ?st1" "ch_chan st2 = ch_chan ?st1" "registry_ok (ch_reg st2)"
    "registered st2 = registered ?st1"
    using f(1) ok by (auto simp: st2_def tag_sid_ok registered_tag split: option.splits)
  define a where "a = \<lparr> ak_request = r, ak_prompt = ?q, ak_expires = ?e, ak_ttl = ttl, ak_stage = Rendering \<rparr>"
  have s': "?st' = st2 \<lparr> ch_asks := (ch_asks st2)(?c \<mapsto> a) \<rparr>" by (simp only: ask_register_def Let_def st2_def a_def)
  have reg': "registered ?st' = registered ?st1" using f2(5) by (simp add: s' registered_def fun_eq_iff)
  have rc: "registered ?st1 ?c k q e \<longleftrightarrow> k = ?k \<and> q = ?q \<and> e = ?e" for k q e
    using unreg(2) f(4) by (auto simp: registered_def)
  have "ch_chan ?st1 ?c = Open"
  proof -
    have "\<not> (\<exists>p. map_of (ch_reg ?st0) ?k = Some p \<and> pi_origin p = External ?c)" using unreg(2) by (auto simp: registered_def)
    then show ?thesis unfolding f(5) by simp
  qed
  then have "ask_ok lower now ?st' tr ?c a"
    unfolding ask_ok_def stage_ok_def reg' rc using unreg(1) f2(3) by (auto simp: a_def s')
  then have "chan_ok lower now ?st' tr ?c" using f2(2) f(3) by (simp add: chan_ok_def s')
  moreover have "unmoved ?st0 ?st' c" if "c \<noteq> ?c" for c
  proof -
    have "unmoved ?st0 ?st1 c" by (rule inv_registered [OF inv0 refl]) (use that in simp)
    then show ?thesis using that f2 reg' by (simp add: unmoved_def s')
  qed
  ultimately show ?thesis using f2(4) by (intro inv_step [OF inv0, where c = ?c]) (auto simp: s')
qed

text \<open>A step of one asking task.\<close>

definition staged :: "nat \<Rightarrow> ask_stage \<Rightarrow> choices \<Rightarrow> choices \<Rightarrow> bool" where
  "staged c g st st' \<longleftrightarrow>
     ch_reg st' = ch_reg st \<and> ch_next st' = ch_next st
   \<and> (ch_asks st c = None \<longrightarrow> ch_asks st' = ch_asks st)
   \<and> (\<forall>a. ch_asks st c = Some a \<longrightarrow> ch_asks st' = (ch_asks st)(c \<mapsto> a \<lparr> ak_stage := g \<rparr>))
   \<and> (\<forall>c'. c' \<noteq> c \<longrightarrow> ch_chan st' c' = ch_chan st c')"

lemma staged_set [simp]: "staged c g st (set_stage c g st)" "staged c g st (set_stage c g (close_chan c st))"
  "staged c g st (close_chan c (set_stage c g st))"
  by (auto simp: staged_def set_stage_def close_chan_def split: option.splits)

lemma chan_set: "ch_chan (set_stage c g st) = ch_chan st" "ch_reg (set_stage c g st) = ch_reg st"
  "ch_chan (close_chan c st) c' = (if c' = c \<and> ch_chan st c = Open then Closed else ch_chan st c')"
  by (auto simp: set_stage_def close_chan_def split: option.splits)

lemma inv_staged:
  assumes inv: "hitl_inv lower now st tr" and a: "ch_asks st c = Some a" and s: "staged c g st st'"
    and ok: "ask_ok lower now st tr c a \<Longrightarrow> ask_ok lower now st' tr c (a \<lparr> ak_stage := g \<rparr>)"
  shows "hitl_inv lower now st' tr"
proof (rule inv_step [OF inv, where c = c])
  have co: "chan_ok lower now st tr c" using inv by (simp add: hitl_inv_def)
  then show "chan_ok lower now st' tr c" using a s ok by (auto simp: chan_ok_def staged_def)
  show "registry_ok (ch_reg st')" using inv s by (simp add: hitl_inv_def staged_def)
  show "unmoved st st' c'" if "c' \<noteq> c" for c'
    using that s a by (auto simp: unmoved_def staged_def registered_def)
qed simp

lemma staged_registered: "staged c g st st' \<Longrightarrow> registered st' = registered st"
  by (simp add: staged_def registered_def fun_eq_iff)

lemma inv_rendered: "hitl_inv lower now st tr \<Longrightarrow> hitl_inv lower now (ask_render ok now c st) tr"
proof (cases "ch_asks st c")
  case (Some a)
  assume inv: "hitl_inv lower now st tr"
  show ?thesis
  proof (cases "ak_stage a = Rendering")
    case True
    have ok': "ask_ok lower now (set_stage c g st) tr c (a \<lparr> ak_stage := g \<rparr>)"
      if "ask_ok lower now st tr c a" "g = Awaiting (now + ak_ttl a) \<or> g = Forgetting Unavailable" for g
      using that(1) True that(2)
      by (auto simp: ask_ok_def stage_ok_def unheard_def staged_registered [OF staged_set(1)] chan_set)
    have "hitl_inv lower now (set_stage c g st) tr" if "g = Awaiting (now + ak_ttl a) \<or> g = Forgetting Unavailable" for g
      by (rule inv_staged [OF inv Some staged_set(1)]) (use ok' that in blast)
    then show ?thesis using Some True by (simp add: ask_render_def)
  next
    case False
    then show ?thesis using Some inv by (auto simp: ask_render_def split: ask_stage.splits)
  qed
qed (simp add: ask_render_def)

lemma inv_polled: "hitl_inv lower now st tr \<Longrightarrow> hitl_inv lower now (ask_poll now c st) tr"
proof (cases "ch_asks st c")
  case (Some a)
  assume inv: "hitl_inv lower now st tr"
  show ?thesis
  proof (cases "ak_stage a")
    case (Awaiting d)
    have quiet: "\<not> unheard a" using Awaiting by (simp add: unheard_def)
    show ?thesis
    proof (cases "ch_chan st c")
      case (Sent sel)
      have "hitl_inv lower now (set_stage c (Returned (Selected sel)) st) tr"
        by (rule inv_staged [OF inv Some staged_set(1)])
          (auto simp: ask_ok_def stage_ok_def unheard_def staged_registered [OF staged_set(1)] chan_set Sent)
      then show ?thesis using Some Awaiting Sent by (simp add: ask_poll_def)
    next
      case Closed
      have "hitl_inv lower now (set_stage c (Forgetting TimedOut) st) tr"
        by (rule inv_staged [OF inv Some staged_set(1)])
          (use quiet in \<open>auto simp: ask_ok_def stage_ok_def unheard_def staged_registered [OF staged_set(1)] chan_set Closed\<close>)
      then show ?thesis using Some Awaiting Closed by (simp add: ask_poll_def)
    next
      case Open
      have "ask_ok lower now (set_stage c (Forgetting TimedOut) (close_chan c st)) tr c (a \<lparr> ak_stage := Forgetting TimedOut \<rparr>)"
        if "ask_ok lower now st tr c a" "d \<le> now"
      proof -
        have "ak_expires a \<le> now" using that Awaiting by (auto simp: ask_ok_def stage_ok_def)
        then show ?thesis using that(1) quiet
          by (auto simp: ask_ok_def stage_ok_def unheard_def staged_registered [OF staged_set(2)] chan_set Open)
      qed
      then have "d \<le> now \<Longrightarrow> hitl_inv lower now (set_stage c (Forgetting TimedOut) (close_chan c st)) tr"
        by (intro inv_staged [OF inv Some staged_set(2)])
      then show ?thesis using Some Awaiting Open inv by (simp add: ask_poll_def)
    qed
  qed (use Some inv in \<open>simp_all add: ask_poll_def\<close>)
qed (simp add: ask_poll_def)

lemma inv_forgot:
  assumes inv: "hitl_inv lower now st tr" and it: "iteration ord"
  shows "hitl_inv lower now (ask_forget ord c st) tr"
proof (cases "ch_asks st c")
  case (Some a)
  show ?thesis
  proof (cases "ak_stage a")
    case (Forgetting ans)
    obtain m taken where t: "take_by_token ord (cp_token (ak_prompt a)) (ch_reg st) = (m, taken)"
      by (cases "take_by_token ord (cp_token (ak_prompt a)) (ch_reg st)")
    let ?st = "drop_opt taken (st \<lparr> ch_reg := m \<rparr>)"
    have inv1: "hitl_inv lower now ?st tr" by (rule taker.taken_inv [OF token_taker [OF it] inv t])
    have a: "ch_asks ?st c = Some a" using Some by (simp add: drop_opt_fields)
    have ans: "ask_ok lower now ?st tr c a \<Longrightarrow> ans = TimedOut \<or> ans = Unavailable"
      using Forgetting by (cases ans) (auto simp: ask_ok_def stage_ok_def)
    have "hitl_inv lower now (close_chan c (set_stage c (Returned ans) ?st)) tr"
    proof (rule inv_staged [OF inv1 a staged_set(3)])
      assume ok: "ask_ok lower now ?st tr c a"
      show "ask_ok lower now (close_chan c (set_stage c (Returned ans) ?st)) tr c (a \<lparr> ak_stage := Returned ans \<rparr>)"
      proof (cases "ans = TimedOut")
        case True
        then have "ch_chan ?st c = Closed" using ok Forgetting by (simp add: ask_ok_def stage_ok_def)
        then show ?thesis using ok Forgetting True
          by (simp add: ask_ok_def stage_ok_def unheard_def staged_registered [OF staged_set(3)] chan_set)
      next
        case False
        then show ?thesis using ok ans [OF ok] Forgetting
          by (auto simp: ask_ok_def stage_ok_def unheard_def staged_registered [OF staged_set(3)] chan_set)
      qed
    qed
    then show ?thesis using Some Forgetting t by (simp add: ask_forget_def)
  qed (use Some inv in \<open>simp_all add: ask_forget_def\<close>)
qed (use inv in \<open>simp add: ask_forget_def\<close>)

lemma inv_abandoned: "hitl_inv lower now st tr \<Longrightarrow> hitl_inv lower now (ask_abandon c st) tr"
proof (cases "ch_asks st c")
  case (Some a)
  assume inv: "hitl_inv lower now st tr"
  have "ask_ok lower now st tr c a
      \<Longrightarrow> ask_ok lower now (set_stage c Abandoned (close_chan c st)) tr c (a \<lparr> ak_stage := Abandoned \<rparr>)"
    by (auto simp: ask_ok_def stage_ok_def unheard_def staged_registered [OF staged_set(2)] chan_set)
  then have "hitl_inv lower now (set_stage c Abandoned (close_chan c st)) tr"
    by (rule inv_staged [OF inv Some staged_set(2)])
  then show ?thesis using Some inv by (auto simp: ask_abandon_def split: ask_stage.splits)
qed (simp add: ask_abandon_def)

lemma cancel_unmoved:
  assumes "hitl_inv lower now st tr" "iteration ord"
  shows "hitl_inv lower now (cancel_sid ord s st) tr" "unmoved st (cancel_sid ord s st) c"
    "\<And>k p. map_of (ch_reg (cancel_sid ord s st)) k = Some p \<Longrightarrow> pi_sid p \<noteq> Some s"
proof -
  obtain m ps where d: "drain_sid ord s (ch_reg st) = (m, ps)" by (cases "drain_sid ord s (ch_reg st)")
  note dw = drained_unmoved [OF assms d [unfolded drain_sid_def]]
  have l: "cancel_sid ord s st = fold drop_pending ps (st \<lparr> ch_reg := m \<rparr>)" by (simp add: cancel_sid_def d)
  show "unmoved st (cancel_sid ord s st) c" using dw(1) by (simp add: l)
  show "hitl_inv lower now (cancel_sid ord s st) tr"
    by (rule inv_unmoved [OF assms(1)]) (use dw(1,2) in \<open>simp_all add: l fold_drop\<close>)
  show "pi_sid p \<noteq> Some s" if "map_of (ch_reg (cancel_sid ord s st)) k = Some p" for k p
    using dw(3) [of k p] that by (simp add: l fold_drop)
qed

lemma ask_ok_later:
  assumes "ask_ok lower now st tr c a" "now \<le> now'"
  shows "ask_ok lower now' st tr c a"
proof -
  have "stage_ok now' st tr c a" using assms unfolding ask_ok_def stage_ok_def by (meson order_trans)
  moreover have "unheard a \<or> e \<le> now \<Longrightarrow> unheard a \<or> e \<le> now'" for e using assms(2) by auto
  moreover have "ak_expires a \<le> now' + ak_ttl a" using assms unfolding ask_ok_def by linarith
  ultimately show ?thesis using assms(1) unfolding ask_ok_def by blast
qed

lemma inv_passed: "hitl_inv lower now st tr \<Longrightarrow> now \<le> now' \<Longrightarrow> hitl_inv lower now' st tr"
proof -
  have "chan_ok lower now st tr c \<Longrightarrow> now \<le> now' \<Longrightarrow> chan_ok lower now' st tr c" for c
    by (cases "ch_asks st c") (auto simp: chan_ok_def intro: ask_ok_later)
  then show "hitl_inv lower now st tr \<Longrightarrow> now \<le> now' \<Longrightarrow> ?thesis" by (simp add: hitl_inv_def)
qed

theorem hitl_reach_inv: "hitl_reach lower now st tr \<Longrightarrow> hitl_inv lower now st tr"
proof (induction rule: hitl_reach.induct)
  case (started now)
  show ?case by (simp add: hitl_inv_def no_choices_def chan_ok_def registered_def registry_ok_def)
next
  case (typed now st tr ords chat cur x st' r)
  then show ?case using inv_typed by fastforce
next
  case (typed_on now st tr ords chat cur x st')
  then show ?case using inv_typed by fastforce
next
  case (picked now st tr ord ord' token i st' r)
  then show ?case using inv_picked by fastforce
next
  case (refused now st tr ord ord' token i st' e)
  then show ?case using inv_picked by fastforce
qed (simp_all add: inv_passed inv_asked inv_rendered inv_polled inv_forgot inv_abandoned inv_offered cancel_unmoved(1) inv_clicked)

section \<open>Open channels are registered\<close>

definition holds :: "choices \<Rightarrow> utext \<Rightarrow> sid option \<Rightarrow> nat \<Rightarrow> bool" where
  "holds st k s c \<longleftrightarrow> (\<exists>p. map_of (ch_reg st) k = Some p \<and> pi_origin p = External c \<and> pi_sid p = s)"

definition open_held :: "choices \<Rightarrow> bool" where
  "open_held st \<longleftrightarrow>
     (\<forall>c. ch_chan st c = Open \<longrightarrow>
        (\<exists>k a. ch_asks st c = Some a \<and> holds st k (request_tag (ak_request a)) c))"

lemma open_held_step:
  assumes "open_held st"
    and "\<And>c. ch_chan st' c = Open \<Longrightarrow> ch_chan st c = Open"
    and "\<And>c. ch_chan st' c = Open \<Longrightarrow> map_option ak_request (ch_asks st' c) = map_option ak_request (ch_asks st c)"
    and "\<And>c k s. ch_chan st' c = Open \<Longrightarrow> holds st k s c \<Longrightarrow> holds st' k s c"
  shows "open_held st'"
  unfolding open_held_def
proof (intro allI impI)
  fix c assume o: "ch_chan st' c = Open"
  obtain k a where a: "ch_asks st c = Some a" "holds st k (request_tag (ak_request a)) c"
    using assms(1) assms(2) [OF o] unfolding open_held_def by blast
  then obtain a' where "ch_asks st' c = Some a'" "ak_request a' = ak_request a"
    using assms(3) [OF o] by (cases "ch_asks st' c") auto
  then show "\<exists>k a. ch_asks st' c = Some a \<and> holds st' k (request_tag (ak_request a)) c"
    using assms(4) [OF o a(2)] by metis
qed

lemma held_drained:
  assumes ok: "registry_ok (ch_reg st)" and h: "open_held st" and it: "iteration ord"
    and d: "drain_where P ord (ch_reg st) = (m, ps)"
  shows "open_held (fold drop_pending ps (st \<lparr> ch_reg := m \<rparr>))" (is "open_held ?st")
proof (rule open_held_step [OF h])
  note dr = drain_where [OF ok it d]
  fix c k s
  note f = fold_drop [of ps "st \<lparr> ch_reg := m \<rparr>"]
  assume o: "ch_chan ?st c = Open"
  then have o': "ch_chan st c = Open" "\<And>p. p \<in> set ps \<Longrightarrow> pi_origin p \<noteq> External c" using f [of c] by (auto split: if_splits)
  show "ch_chan st c = Open" by (rule o'(1))
  show "map_option ak_request (ch_asks ?st c) = map_option ak_request (ch_asks st c)" using f [of c] by simp
  assume "holds st k s c"
  then obtain p where p: "map_of (ch_reg st) k = Some p" "pi_origin p = External c" "pi_sid p = s" by (auto simp: holds_def)
  then have "\<not> P p" using o'(2) dr(2) by blast
  then have "map_of m k = Some p" by (simp add: dr(1) p(1))
  then show "holds ?st k s c" using p f [of c] by (auto simp: holds_def)
qed

lemma held_lapse: "registry_ok (ch_reg st) \<Longrightarrow> open_held st \<Longrightarrow> iteration ord \<Longrightarrow> open_held (lapse ord now st)"
  using held_drained [where P = "\<lambda>p. pi_expires_at p \<le> now", folded drain_expired_def]
  by (auto simp: lapse_def split: prod.splits)

lemma held_cancel: "registry_ok (ch_reg st) \<Longrightarrow> open_held st \<Longrightarrow> iteration ord \<Longrightarrow> open_held (cancel_sid ord s st)"
  using held_drained [where P = "\<lambda>p. pi_sid p = Some s", folded drain_sid_def]
  by (auto simp: cancel_sid_def split: prod.splits)

lemma held_removed:
  assumes h: "open_held st" and m: "map_of (ch_reg st) k = Some p"
    and st': "ch_reg st' = remove_key k (ch_reg st)" "ch_asks st' = ch_asks st"
    and o: "\<And>c. ch_chan st' c = Open \<Longrightarrow> ch_chan st c = Open \<and> pi_origin p \<noteq> External c"
  shows "open_held st'"
  by (rule open_held_step [OF h]) (use o m st' in \<open>auto simp: holds_def\<close>)

lemma held_dropped:
  assumes h: "open_held st" and m: "map_of (ch_reg st) k = Some p"
  shows "open_held (drop_pending p (st \<lparr> ch_reg := remove_key k (ch_reg st) \<rparr>))"
  by (rule held_removed [OF h m]) (auto simp: drop_pending_def split: interaction_origin.splits if_splits)

lemma held_applied:
  assumes h: "open_held st" and m: "map_of (ch_reg st) k = Some p"
    and ap: "apply_pending chat p sel (st \<lparr> ch_reg := remove_key k (ch_reg st) \<rparr>) = (st', r)"
  shows "open_held st'"
  by (rule held_removed [OF h m]) (use ap in \<open>auto simp: apply_pending_def split: interaction_origin.splits if_splits\<close>)

context taker begin

lemma held_taken:
  assumes "registry_ok (ch_reg st)" "open_held st" "take_one (ch_reg st) = (m, r)"
  shows "open_held (drop_opt r (st \<lparr> ch_reg := m \<rparr>))"
proof (cases r)
  case None
  then show ?thesis using take_none [OF assms(1)] assms(2,3) by (simp add: drop_opt_def)
next
  case (Some p)
  then obtain k where "map_of (ch_reg st) k = Some p" "m = remove_key k (ch_reg st)"
    using take_some [OF assms(1)] assms(3) by blast
  then show ?thesis using held_dropped [OF assms(2)] Some by (simp add: drop_opt_def)
qed

end

lemma held_registered:
  assumes h: "open_held st" and key: "\<And>c. ch_chan st c = Open \<Longrightarrow> ch_chan (register_dropping key q orig e st) c = Open
      \<Longrightarrow> \<not> (\<exists>p. map_of (ch_reg st) key = Some p \<and> pi_origin p = External c)"
  shows "open_held (register_dropping key q orig e st)"
proof (rule open_held_step [OF h])
  note f = register_dropping_fields [where st = st and key = key and prompt = q and orig = orig and expires = e]
  fix c k s
  assume o: "ch_chan (register_dropping key q orig e st) c = Open"
  then show o': "ch_chan st c = Open" by (auto simp: f(5) split: if_splits)
  show "map_option ak_request (ch_asks (register_dropping key q orig e st) c) = map_option ak_request (ch_asks st c)"
    by (simp add: f(2))
  assume "holds st k s c"
  then show "holds (register_dropping key q orig e st) k s c" using key [OF o' o] by (auto simp: holds_def f(4))
qed

lemma evicted_closes:
  "ch_chan (register_dropping key q orig e st) c = Open \<Longrightarrow>
     \<not> (\<exists>p. map_of (ch_reg st) key = Some p \<and> pi_origin p = External c)"
  using register_dropping_fields(5) [where st = st and key = key and prompt = q and orig = orig and expires = e and c = c]
  by (auto split: if_splits)

lemma held_offered: "open_held st \<Longrightarrow> open_held (offer_choice chat s q d e st)"
  unfolding offer_choice_def by (rule held_registered) (auto dest: evicted_closes)

text \<open>Every step keeps open channels registered.\<close>

lemma held_asked:
  assumes inv: "hitl_inv lower now st tr" and h: "open_held st"
  shows "open_held (ask_register r q ttl now st)" (is "open_held ?st'")
proof -
  let ?c = "ch_next st" and ?k = "cp_token q"
  let ?st0 = "st \<lparr> ch_next := Suc ?c, ch_chan := (ch_chan st)(?c := Open) \<rparr>"
  let ?st1 = "register_dropping ?k q (External ?c) (now + ttl) ?st0"
  note f = register_dropping_fields [where st = ?st0 and key = ?k and prompt = q and orig = "External ?c" and expires = "now + ttl"]
  have fields: "ch_chan ?st' = ch_chan ?st1"
    "ch_asks ?st' = (ch_asks st)(?c \<mapsto> \<lparr> ak_request = r, ak_prompt = q, ak_expires = now + ttl, ak_ttl = ttl, ak_stage = Rendering \<rparr>)"
    using f(2) by (simp_all add: ask_register_def Let_def split: option.splits)
  have reg: "map_of (ch_reg ?st') j = (if j = ?k
      then Some \<lparr> pi_prompt = q, pi_origin = External ?c, pi_expires_at = now + ttl, pi_sid = request_tag r \<rparr>
      else map_of (ch_reg st) j)" for j
    by (cases "request_tag r") (simp_all add: ask_register_def Let_def f(4) map_of_tag_sid option.map_ident)
  show ?thesis
    unfolding open_held_def
  proof (intro allI impI)
    fix c assume o: "ch_chan ?st' c = Open"
    show "\<exists>k a. ch_asks ?st' c = Some a \<and> holds ?st' k (request_tag (ak_request a)) c"
    proof (cases "c = ?c")
      case True
      then show ?thesis using reg [of ?k] by (auto simp: fields(2) holds_def intro!: exI [of _ ?k])
    next
      case False
      have o1: "ch_chan ?st1 c = Open" using o fields(1) by simp
      then have "ch_chan st c = Open" using False by (simp add: f(5) split: if_splits)
      then obtain k a where a: "ch_asks st c = Some a" "holds st k (request_tag (ak_request a)) c"
        using h unfolding open_held_def by blast
      moreover have "k \<noteq> ?k" using evicted_closes [OF o1] a(2) by (auto simp: holds_def)
      ultimately show ?thesis using False reg [of k] by (auto simp: fields(2) holds_def intro!: exI [of _ k])
    qed
  qed
qed

lemma held_staged:
  assumes h: "open_held st" and s: "staged c g st st'" and o: "ch_chan st' c = Open \<Longrightarrow> ch_chan st c = Open"
  shows "open_held st'"
proof -
  have oo: "ch_chan st' c' = Open \<Longrightarrow> ch_chan st c' = Open" for c'
    using s o by (cases "c' = c") (auto simp: staged_def)
  have "map_option ak_request (ch_asks st' c') = map_option ak_request (ch_asks st c')" for c'
    using s by (cases "ch_asks st c") (auto simp: staged_def)
  then show ?thesis
    using oo s by (intro open_held_step [OF h]) (auto simp: staged_def holds_def)
qed

lemma held_set: "open_held st \<Longrightarrow> open_held (set_stage c g st)"
  by (rule held_staged [OF _ staged_set(1)]) (simp_all add: chan_set)

lemma held_set_closed: "open_held st \<Longrightarrow> open_held (set_stage c g (close_chan c st))"
  by (rule held_staged [OF _ staged_set(2)]) (simp_all add: chan_set split: if_splits)

lemma held_rendered: "open_held st \<Longrightarrow> open_held (ask_render ok now c st)"
  by (auto simp: ask_render_def held_set split: option.splits ask_stage.splits)

lemma held_polled: "open_held st \<Longrightarrow> open_held (ask_poll now c st)"
  by (auto simp: ask_poll_def held_set held_set_closed split: option.splits ask_stage.splits oneshot.splits)

lemma held_abandoned: "open_held st \<Longrightarrow> open_held (ask_abandon c st)"
  by (auto simp: ask_abandon_def held_set_closed split: option.splits ask_stage.splits)

lemma held_forgot:
  assumes h: "open_held st" and ok: "registry_ok (ch_reg st)" and it: "iteration ord"
  shows "open_held (ask_forget ord c st)"
proof (cases "ch_asks st c")
  case (Some a)
  obtain m taken where t: "take_by_token ord (cp_token (ak_prompt a)) (ch_reg st) = (m, taken)"
    by (cases "take_by_token ord (cp_token (ak_prompt a)) (ch_reg st)")
  have "open_held (drop_opt taken (st \<lparr> ch_reg := m \<rparr>))" by (rule taker.held_taken [OF token_taker [OF it] ok h t])
  then have "open_held (close_chan c (set_stage c g (drop_opt taken (st \<lparr> ch_reg := m \<rparr>))))" for g
    by (rule held_staged [OF _ staged_set(3)]) (auto simp: chan_set split: if_splits)
  then show ?thesis using Some h t by (auto simp: ask_forget_def split: ask_stage.splits)
qed (use h in \<open>simp add: ask_forget_def\<close>)

text \<open>An answered prompt: after the sweep, one prompt is taken and dropped or handed its selection.\<close>

lemma held_answered:
  assumes "registry_ok (ch_reg st)" "open_held st" "iteration ord" "taker take_one wanted"
    and l: "registry_ok (ch_reg (lapse ord now st))" and t: "take_one (ch_reg (lapse ord now st)) = (m, taken)"
  shows "open_held (drop_opt taken (lapse ord now st \<lparr> ch_reg := m \<rparr>))"
    and "taken = Some p \<Longrightarrow> apply_pending chat p sel (lapse ord now st \<lparr> ch_reg := m \<rparr>) = (st', r) \<Longrightarrow> open_held st'"
proof -
  have h: "open_held (lapse ord now st)" by (rule held_lapse [OF assms(1-3)])
  show "open_held (drop_opt taken (lapse ord now st \<lparr> ch_reg := m \<rparr>))" by (rule taker.held_taken [OF assms(4) l h t])
  assume "taken = Some p" and ap: "apply_pending chat p sel (lapse ord now st \<lparr> ch_reg := m \<rparr>) = (st', r)"
  then obtain k where "map_of (ch_reg (lapse ord now st)) k = Some p" "m = remove_key k (ch_reg (lapse ord now st))"
    using taker.take_some [OF assms(4) l] t by blast
  then show "open_held st'" using held_applied [OF h] ap by simp
qed

lemma lapse_ok: "registry_ok (ch_reg st) \<Longrightarrow> iteration ord \<Longrightarrow> registry_ok (ch_reg (lapse ord now st))"
  using drain_where(3) [where P = "\<lambda>p. pi_expires_at p \<le> now", folded drain_expired_def]
  by (auto simp: lapse_def fold_drop split: prod.splits)

lemma held_clicked:
  assumes "registry_ok (ch_reg st)" "open_held st" "iteration ord" "iteration ord'"
    and s: "resolve_selection ord ord' now chat data st = (st', r)"
  shows "open_held st'"
proof (cases "split_callback data")
  case None
  then show ?thesis using s assms(2) by (simp add: resolve_selection_def)
next
  case (Some d)
  obtain m taken where t: "take_by_token ord' (fst d) (ch_reg (lapse ord now st)) = (m, taken)"
    by (cases "take_by_token ord' (fst d) (ch_reg (lapse ord now st))")
  note ha = held_answered [OF assms(1-3) token_taker [OF assms(4)] lapse_ok [OF assms(1,3)] t]
  show ?thesis
  proof (cases taken)
    case None
    then show ?thesis using s t ha(1) Some by (auto simp: resolve_selection_def Let_def drop_opt_def split: prod.splits)
  next
    case p: (Some p)
    show ?thesis using s t ha(1) ha(2) [OF p] Some p
      by (cases "nth_option (snd d) (pi_prompt p)") (auto simp: resolve_selection_def Let_def drop_opt_def split: prod.splits)
  qed
qed

lemma held_picked:
  assumes "registry_ok (ch_reg st)" "open_held st" "iteration ord" "iteration ord'"
    and s: "resolve_web_selection ord ord' now token i st = (st', r)"
  shows "open_held st'"
proof -
  obtain m taken where t: "take_by_token ord' token (ch_reg (lapse ord now st)) = (m, taken)"
    by (cases "take_by_token ord' token (ch_reg (lapse ord now st))")
  note ha = held_answered [OF assms(1-3) token_taker [OF assms(4)] lapse_ok [OF assms(1,3)] t]
  show ?thesis
  proof (cases taken)
    case None
    then show ?thesis using s t ha(1) by (auto simp: resolve_web_selection_def Let_def drop_opt_def)
  next
    case p: (Some p)
    show ?thesis using s t ha(1) ha(2) [OF p] p
      by (auto simp: resolve_web_selection_def Let_def drop_opt_def split: prod.splits if_splits)
  qed
qed

lemma held_typed:
  assumes ok: "registry_ok (ch_reg st)" and h: "open_held st" and it: "\<And>i. iteration (ords i)"
    and s: "answer_in_text ords now chat cur x st = (st', r)"
  shows "open_held st'"
proof (cases cur)
  case None
  then show ?thesis using s h
    by (auto simp: answer_in_text_def resolve_free_text_def has_pending_for_current_def split: option.splits)
next
  case (Some sid)
  let ?l = "lapse (ords 0) now st"
  obtain m taken where t: "take_free_text_for_sid (ords 1) sid (ch_reg ?l) = (m, taken)"
    by (cases "take_free_text_for_sid (ords 1) sid (ch_reg ?l)")
  note tk = free_text_taker [OF it]
  note ha = held_answered [OF ok h it tk lapse_ok [OF ok it] t]
  show ?thesis
  proof (cases taken)
    case p: (Some p)
    then show ?thesis using s t ha(2) [OF p]
      by (auto simp: answer_in_text_def resolve_free_text_def Some Let_def simp del: One_nat_def split: prod.splits)
  next
    case None
    let ?s1 = "?l \<lparr> ch_reg := m \<rparr>"
    have f: "resolve_free_text (ords 0) (ords 1) now chat cur x st = (?s1, None)"
      by (simp add: resolve_free_text_def Some t None Let_def del: One_nat_def)
    have h1: "open_held ?s1" "registry_ok (ch_reg ?s1)"
      using ha(1) None taker.taken_ok [OF tk lapse_ok [OF ok it] t] by (simp_all add: drop_opt_def)
    let ?s2 = "lapse (ords 2) now ?s1"
    have h2: "open_held ?s2" "registry_ok (ch_reg ?s2)" using held_lapse lapse_ok h1 it by blast+
    let ?s3 = "lapse (ords 3) now ?s2" and ?k = "pending_key chat sid"
    obtain m3 t3 where t3: "take_pending ?k (ch_reg ?s3) = (m3, t3)" by (cases "take_pending ?k (ch_reg ?s3)")
    have t3': "t3 = map_of (ch_reg ?s3) ?k" using t3 by (simp add: take_pending_def)
    note ha3 = held_answered [OF h2(2,1) it pending_key_taker.taker_axioms lapse_ok [OF h2(2) it] t3]
    have num: "open_held st3" if "resolve_numeric (ords 3) now chat cur n ?s2 = (st3, r3)" for n st3 r3
      using that ha3(2) held_lapse [OF h2(2,1) it] t3 t3'
      by (auto simp: resolve_numeric_def Some Let_def prompt_for_def split: option.splits if_splits)
    show ?thesis
      using s f h1 h2 num
      by (auto simp: answer_in_text_def has_pending_for_current_def Some Let_def simp del: One_nat_def split: option.splits bool.splits prod.splits)
  qed
qed

theorem hitl_reach_held: "hitl_reach lower now st tr \<Longrightarrow> open_held st"
proof (induction rule: hitl_reach.induct)
  case (started now)
  show ?case by (simp add: open_held_def no_choices_def)
next
  case (asked now st tr r nanos ttl)
  then show ?case using held_asked hitl_reach_inv by blast
next
  case (forgot now st tr ord c)
  then show ?case using held_forgot hitl_reach_inv by (auto simp: hitl_inv_def)
next
  case (cancelled now st tr ord s)
  then show ?case using held_cancel hitl_reach_inv by (auto simp: hitl_inv_def)
next
  case (clicked now st tr ord ord' chat data st' r)
  then show ?case using held_clicked hitl_reach_inv unfolding hitl_inv_def by blast
next
  case (typed now st tr ords chat cur x st' r)
  then show ?case using held_typed hitl_reach_inv unfolding hitl_inv_def by blast
next
  case (typed_on now st tr ords chat cur x st')
  then show ?case using held_typed hitl_reach_inv unfolding hitl_inv_def by blast
next
  case (picked now st tr ord ord' token i st' r)
  then show ?case using held_picked hitl_reach_inv unfolding hitl_inv_def by blast
next
  case (refused now st tr ord ord' token i st' e)
  then show ?case using held_picked hitl_reach_inv unfolding hitl_inv_def by blast
qed (simp_all add: held_rendered held_polled held_abandoned held_offered)

end
