(* ===== verification/Hitl_Claims.thy ===== *)
theory Hitl_Claims
  imports Hitl_System
begin

text \<open>
  What the approvals guarantee: a tool runs only on the user's word, given once for that very prompt
  and in time; what was accepted is what the task gets; every task ends; a button chooses its option.
\<close>

section \<open>No approval without the user\<close>

lemma reach_ask:
  assumes "hitl_reach lower now st tr" "ch_asks st c = Some a"
  shows "ask_ok lower now st tr c a" "c < ch_next st"
  using hitl_reach_inv [OF assms(1)] assms(2) unfolding hitl_inv_def chan_ok_def
  by (metis option.simps(5))+

lemma selection_fields [simp]:
  "cs_ids (selection t ids txt) = ids" "cs_token (selection t ids txt) = t" "cs_free_text (selection t ids txt) = txt"
  by (simp_all add: selection_def)

lemma reply_allows_selected:
  assumes "reply_allows ctx r a"
  shows "\<exists>s. a = Selected s \<and> selects s (lit ''allow'')"
    and "\<exists>lower desc tool inp. \<forall>nanos. cp_options (request_prompt lower nanos r) = approve_deny"
proof -
  have "permission_answer_of a = Allow"
    using assms by (auto simp: reply_allows_def can_use_tool_decision_def pi_decision_def permission_ask_reply_def
        permission_answer_of_def deny_decision_def rpc_result_def rpc_error_def
        split: ask_request.splits option.splits permission_answer.splits external_choice_answer.splits if_splits)
  then show "\<exists>s. a = Selected s \<and> selects s (lit ''allow'')"
    by (auto simp: permission_answer_of_def split: external_choice_answer.splits if_splits)
  show "\<exists>lower desc tool inp. \<forall>nanos. cp_options (request_prompt lower nanos r) = approve_deny"
    using assms by (auto simp: reply_allows_def request_prompt_def permission_prompt_def split: ask_request.splits)
qed

lemma allowed_options: "reply_allows ctx r a \<Longrightarrow> cp_options (request_prompt lower nanos r) = approve_deny"
  by (auto simp: reply_allows_def request_prompt_def permission_prompt_def split: ask_request.splits)

definition approves :: "user_input \<Rightarrow> utext \<Rightarrow> bool" where
  "approves inp token \<longleftrightarrow>
     (case inp of
        Click chat data \<Rightarrow> split_callback data = Some (token, 0)
      | WebPick t i \<Rightarrow> t = token \<and> i = (lit ''allow'')
      | Typed chat txt \<Rightarrow> False)"

lemma chooses_allow:
  assumes "chooses inp p sel" "selects sel (lit ''allow'')" "cp_options p = approve_deny"
  shows "approves inp (cp_token p)"
proof (cases inp)
  case (Click chat data)
  then obtain i opt where i: "split_callback data = Some (cp_token p, i)" "nth_option i p = Some opt" "co_id opt = (lit ''allow'')"
    using assms by (auto simp: selects_def)
  then have "i = 0" using assms(3)
    by (cases i) (auto simp: nth_option_def approve_deny_def option_of_def less_Suc_eq split: if_splits)
  then show ?thesis using i by (simp add: approves_def Click)
next
  case (WebPick t i)
  then show ?thesis using assms by (auto simp: approves_def selects_def approve_deny_def)
qed (use assms in \<open>simp_all add: approve_deny_def\<close>)

text \<open>C2. A tool runs only if the user approved it: the trace holds exactly one answer to the task's
  prompt, a click on its first button or the web's choice of allow for its token, made while the prompt
  stood, and that answer is what the task was told.\<close>

theorem approval_needs_the_users_choice:
  assumes "hitl_reach lower now st tr" "ch_asks st c = Some a" "ak_stage a = Returned ans"
    and "reply_allows ctx (ak_request a) ans"
  shows "\<exists>t inp sel. deliveries c tr = [(t, inp, sel)] \<and> ans = Selected sel
    \<and> approves inp (cp_token (ak_prompt a)) \<and> t < ak_expires a \<and> ak_expires a \<le> t + ak_ttl a"
proof -
  note ok = reach_ask [OF assms(1,2)]
  obtain sel where s: "ans = Selected sel" "selects sel (lit ''allow'')" using reply_allows_selected(1) [OF assms(4)] by blast
  then have "ch_chan st c = Sent sel" using ok(1) assms(3) by (simp add: ask_ok_def stage_ok_def)
  then obtain t inp where d: "deliveries c tr = [(t, inp, sel)]" using ok(1) unfolding ask_ok_def by blast
  then have ch: "chooses inp (ak_prompt a) sel" "t < ak_expires a" "ak_expires a \<le> t + ak_ttl a"
    using ok(1) by (auto simp: ask_ok_def)
  have "cp_options (ak_prompt a) = approve_deny" using ok(1) allowed_options [OF assms(4)] by (auto simp: ask_ok_def)
  then have "approves inp (cp_token (ak_prompt a))" by (rule chooses_allow [OF ch(1) s(2)])
  then show ?thesis using d ch s(1) by blast
qed

text \<open>C3. A choice the gateway accepted is the task's answer: it is never told a time-out nor anything
  else, whenever it next looks, unless its caller has left or its prompt could not be shown.\<close>

theorem accepted_choice_is_the_answer:
  assumes "hitl_reach lower now st tr" "ch_asks st c = Some a" "(t, inp, sel) \<in> set (deliveries c tr)"
  shows "ak_stage a \<in> {Rendering, Returned (Selected sel), Abandoned, Forgetting Unavailable, Returned Unavailable}
    \<or> (\<exists>d. ak_stage a = Awaiting d
         \<and> (\<forall>now'. ch_asks (ask_poll now' c st) c = Some (a \<lparr> ak_stage := Returned (Selected sel) \<rparr>)))"
proof -
  note ok = reach_ask(1) [OF assms(1,2)]
  have so: "stage_ok now st tr c a" using ok by (simp add: ask_ok_def)
  have d: "deliveries c tr = [(t, inp, sel)]" and ch: "ch_chan st c = Sent sel \<or> unheard a"
    using ok assms(3) unfolding ask_ok_def by (metis empty_iff list.set(1) set_ConsD prod.inject)+
  show ?thesis
  proof (cases "ak_stage a")
    case (Awaiting x)
    then have "ch_chan st c = Sent sel" using ch by (simp add: unheard_def)
    then show ?thesis using Awaiting assms(2) by (simp add: ask_poll_def set_stage_def)
  next
    case (Forgetting ans)
    then show ?thesis using so d by (cases ans) (auto simp: stage_ok_def)
  next
    case (Returned ans)
    then show ?thesis using so d ch by (cases ans) (auto simp: stage_ok_def unheard_def)
  qed simp_all
qed

section \<open>Every task ends\<close>

lemma poll_ends:
  assumes a: "ch_asks st c = Some a" "ak_stage a = Awaiting d" and o: "ch_chan st c \<noteq> Open \<or> d \<le> now'"
  shows "\<exists>ans. map_option ak_stage (ch_asks (ask_forget ord c (ask_poll now' c st)) c) = Some (Returned ans)
    \<and> (ans = TimedOut \<or> (\<exists>sel. ans = Selected sel \<and> ch_chan st c = Sent sel))"
proof (cases "ch_chan st c")
  case (Sent sel)
  then show ?thesis using a by (simp add: ask_poll_def ask_forget_def set_stage_def)
next
  case Open
  then have d: "d \<le> now'" using o by simp
  let ?st = "ask_poll now' c st"
  have "map_option ak_stage (ch_asks ?st c) = Some (Forgetting TimedOut)"
    using a d Open by (simp add: ask_poll_def set_stage_def close_chan_def)
  then show ?thesis
    by (auto simp: ask_forget_def close_chan_def set_stage_def drop_opt_fields split: prod.splits)
next
  case Closed
  let ?st = "ask_poll now' c st"
  have "map_option ak_stage (ch_asks ?st c) = Some (Forgetting TimedOut)"
    using a Closed by (simp add: ask_poll_def set_stage_def)
  then show ?thesis
    by (auto simp: ask_forget_def close_chan_def set_stage_def drop_opt_fields split: prod.splits)
qed

text \<open>C20. A task whose deadline has come, or whose session has been torn down, is answered as soon as it
  looks: with a selection already sent, and otherwise with the time-out that its caller turns into a
  refusal.\<close>

theorem asks_end_by_deadline_or_teardown:
  assumes "hitl_reach lower now st tr" "iteration ord" "ch_asks st c = Some a" "ak_stage a = Awaiting d"
    and "(d \<le> now' \<and> st1 = st) \<or> (request_tag (ak_request a) = Some s \<and> st1 = cancel_sid ord s st)"
  shows "\<exists>ans. map_option ak_stage (ch_asks (ask_forget ord' c (ask_poll now' c st1)) c) = Some (Returned ans)
    \<and> (ans = TimedOut \<or> (\<exists>sel. ans = Selected sel \<and> ch_chan st c = Sent sel))"
proof (cases "d \<le> now' \<and> st1 = st")
  case True
  then show ?thesis using poll_ends [OF assms(3,4)] by blast
next
  case False
  then have s: "request_tag (ak_request a) = Some s" "st1 = cancel_sid ord s st" using assms(5) by auto
  note inv = hitl_reach_inv [OF assms(1)]
  note cu = cancel_unmoved [OF inv assms(2)]
  have a1: "ch_asks st1 c = Some a" using cu(2) assms(3) by (simp add: unmoved_def s(2))
  have "open_held st1" unfolding s(2)
    using held_cancel hitl_reach_held [OF assms(1)] inv assms(2) unfolding hitl_inv_def by blast
  then have "ch_chan st1 c \<noteq> Open"
    using cu(3) a1 s(1) by (auto simp: open_held_def holds_def s(2))
  then obtain ans where ans: "map_option ak_stage (ch_asks (ask_forget ord' c (ask_poll now' c st1)) c) = Some (Returned ans)"
      "ans = TimedOut \<or> (\<exists>sel. ans = Selected sel \<and> ch_chan st1 c = Sent sel)"
    using poll_ends [OF a1 assms(4)] by blast
  have "ch_chan st1 c = Sent sel \<Longrightarrow> ch_chan st c = Sent sel" for sel
    using cu(2) [of s c] by (auto simp: unmoved_def s(2))
  then show ?thesis using ans by blast
qed

section \<open>A button chooses its option\<close>

lemma lapse_keeps:
  assumes "registry_ok (ch_reg st)" "iteration ord" "map_of (ch_reg st) k = Some p" "now < pi_expires_at p"
  shows "map_of (ch_reg (lapse ord now st)) k = Some p"
proof -
  obtain m ps where d: "drain_expired ord now (ch_reg st) = (m, ps)" by (cases "drain_expired ord now (ch_reg st)")
  have "map_of m k = Some p"
    using drain_where(1) [OF assms(1,2) d [unfolded drain_expired_def], of k] assms(3,4) by simp
  then show ?thesis by (simp add: lapse_def d fold_drop)
qed

text \<open>What a click or a pick on a standing prompt does when no other prompt has its token.\<close>

definition sole_token :: "choices \<Rightarrow> nat \<Rightarrow> utext \<Rightarrow> bool" where
  "sole_token st c token \<longleftrightarrow>
     (\<forall>k p. map_of (ch_reg st) k = Some p \<longrightarrow> cp_token (pi_prompt p) = token \<longrightarrow> pi_origin p = External c)"

lemma standing_taken:
  assumes inv: "hitl_inv lower now st tr" and it: "iteration ord" "iteration ord'"
    and r: "registered st c k q e" "now < e" and sole: "sole_token st c (cp_token q)"
  obtains m p where "take_by_token ord' (cp_token q) (ch_reg (lapse ord now st)) = (m, Some p)"
    "pi_origin p = External c" "pi_prompt p = q"
proof -
  have ok: "registry_ok (ch_reg st)" using inv by (simp add: hitl_inv_def)
  obtain p where p: "map_of (ch_reg st) k = Some p" "pi_origin p = External c" "pi_prompt p = q" "pi_expires_at p = e"
    using r(1) by (auto simp: registered_def)
  have p1: "map_of (ch_reg (lapse ord now st)) k = Some p" using lapse_keeps [OF ok it(1) p(1)] p(4) r(2) by simp
  obtain m t where t: "take_by_token ord' (cp_token q) (ch_reg (lapse ord now st)) = (m, t)"
    by (cases "take_by_token ord' (cp_token q) (ch_reg (lapse ord now st))")
  note tk = token_taker [OF it(2)] and l = lapse_ok [OF ok it(1)]
  have "t \<noteq> None"
  proof
    assume n: "t = None"
    show False using taker.take_none [OF tk l t [unfolded n]] p1 p(3) by blast
  qed
  then obtain p' where p': "t = Some p'" by blast
  obtain j where j: "map_of (ch_reg (lapse ord now st)) j = Some p'" "cp_token (pi_prompt p') = cp_token q"
    using taker.take_some [OF tk l t [unfolded p']] by blast
  have j0: "map_of (ch_reg st) j = Some p'"
  proof -
    obtain m ps where d: "drain_expired ord now (ch_reg st) = (m, ps)" by (cases "drain_expired ord now (ch_reg st)")
    have "map_of m j = Some p'" using j(1) by (simp add: lapse_def d fold_drop)
    then show ?thesis using drain_where(1) [OF ok it(1) d [unfolded drain_expired_def], of j]
      by (auto split: option.splits if_splits)
  qed
  then have o: "pi_origin p' = External c" using sole j(2) by (simp add: sole_token_def)
  moreover have "j = k" by (rule external_key [OF inv j0 o p(1,2)])
  ultimately show thesis using that t p' p j0 by auto
qed

lemma split_once_plain: "c \<notin> set a \<Longrightarrow> split_once c (a @ c # b) = Some (a, b)"
  by (induction a) auto

lemma button_data:
  assumes "58 \<notin> set (cp_token p)" "i < length (cp_options p)" "i < 2 ^ 64"
  shows "split_callback (mo_data (to_message_options p ! i)) = Some (cp_token p, i)"
proof -
  have "mo_data (to_message_options p ! i) = cp_token p @ 58 # dec i"
    using assms(2) by (simp add: to_message_options_def nth_enumerate_eq lit_def)
  then show ?thesis using split_once_plain [OF assms(1)] parse_u64_dec [OF assms(3)] by (simp add: split_callback_def)
qed

lemma request_token_plain: "58 \<notin> set (cp_token (request_prompt lower nanos r))"
  using request_token [of lower nanos r] hex_plain(2) by (auto simp: mint_prompt_token_def)

text \<open>C21. The data of a prompt's button leads back to that prompt and that option: a click on it in time
  hands the option's id to the task that asked, unless another prompt carries the same token.\<close>

theorem button_selects_its_option:
  assumes "hitl_reach lower now st tr" "iteration ord" "iteration ord'"
    and "ch_asks st c = Some a" "registered st c k (ak_prompt a) e" "now < e"
    and "sole_token st c (cp_token (ak_prompt a))"
    and "i < length (cp_options (ak_prompt a))" "i < 2 ^ 64"
  shows "snd (resolve_selection ord ord' now chat (mo_data (to_message_options (ak_prompt a) ! i)) st)
    = Delivered c (selection (cp_token (ak_prompt a)) [co_id (cp_options (ak_prompt a) ! i)] None)"
proof -
  note ok = reach_ask(1) [OF assms(1,4)]
  have plain: "58 \<notin> set (cp_token (ak_prompt a))" using ok request_token_plain by (auto simp: ask_ok_def)
  obtain m p where p: "take_by_token ord' (cp_token (ak_prompt a)) (ch_reg (lapse ord now st)) = (m, Some p)"
    "pi_origin p = External c" "pi_prompt p = ak_prompt a"
    by (rule standing_taken [OF hitl_reach_inv [OF assms(1)] assms(2,3,5,6,7)])
  show ?thesis
    unfolding resolve_selection_def button_data [OF plain assms(8,9)]
    using p assms(8) by (simp add: Let_def nth_option_def apply_pending_def selection_def)
qed

text \<open>The web is told that its choice was accepted although the task it was for has gone, so the tool
  does not run: \<^verbatim>\<open>resolve_web_selection\<close> answers \<^verbatim>\<open>Ok\<close> and the selection is dropped.\<close>

theorem web_approval_may_reach_nobody:
  assumes "hitl_reach lower now st tr" "iteration ord" "iteration ord'"
    and "ch_asks st c = Some a" "ak_stage a = Abandoned" "registered st c k (ak_prompt a) e" "now < e"
    and "sole_token st c (cp_token (ak_prompt a))" "opt \<in> set (cp_options (ak_prompt a))"
    and "resolve_web_selection ord ord' now (cp_token (ak_prompt a)) (co_id opt) st = (st', r)"
  shows "r = Inr (Delivered c (selection (cp_token (ak_prompt a)) [co_id opt] None))
    \<and> ch_asks st' c = Some a \<and> (\<forall>now'. ch_asks (ask_poll now' c st') c = Some a)"
proof -
  note inv = hitl_reach_inv [OF assms(1)]
  obtain m p where p: "take_by_token ord' (cp_token (ak_prompt a)) (ch_reg (lapse ord now st)) = (m, Some p)"
    "pi_origin p = External c" "pi_prompt p = ak_prompt a"
    by (rule standing_taken [OF inv assms(2,3,6,7,8)])
  have as: "ch_asks (lapse ord now st) c = Some a"
    using assms(4) by (auto simp: lapse_def fold_drop split: prod.splits)
  have mem: "list_ex (\<lambda>x. co_id x = co_id opt) (cp_options (ak_prompt a))" "cp_options (ak_prompt a) \<noteq> []"
    using assms(9) by (auto simp: list_ex_iff)
  have r: "r = Inr (Delivered c (selection (cp_token (ak_prompt a)) [co_id opt] None))" and as': "ch_asks st' c = Some a"
    using assms(10) p as mem by (auto simp: resolve_web_selection_def Let_def apply_pending_def selection_def split: if_splits)
  then show ?thesis using assms(5) by (simp add: ask_poll_def)
qed

section \<open>Tokens, previews and risk\<close>

text \<open>Every minted token keeps the contract of \<^verbatim>\<open>ChoicePrompt\<close>: at most 16 ASCII bytes, no colon.\<close>

lemma minted_tokens_keep_the_contract:
  assumes "prefix \<in> {112, 104, 100}"
  shows "length (mint_prompt_token prefix nanos) \<le> 11" "58 \<notin> set (mint_prompt_token prefix nanos)"
    "\<forall>c \<in> set (mint_prompt_token prefix nanos). c < 128"
proof -
  let ?n = "(nanos mod 2 ^ 64) mod (2 :: nat) ^ 40"
  have "?n < 16 ^ Suc 9" by (rule less_le_trans [of _ "2 ^ 40"]) simp_all
  then have "length (radix_digits 16 ?n) \<le> Suc 9" by (intro length_radix_upper) simp_all
  then show "length (mint_prompt_token prefix nanos) \<le> 11" unfolding mint_prompt_token_def hex_def by simp
  show "58 \<notin> set (mint_prompt_token prefix nanos)" using assms hex_plain(2) by (auto simp: mint_prompt_token_def)
  have "digit_char d < 128" if "d \<in> set (radix_digits 16 ?n)" for d
    using radix_digits_bound [OF _ that] by (simp add: digit_char_def)
  then show "\<forall>c \<in> set (mint_prompt_token prefix nanos). c < 128"
    using assms unfolding mint_prompt_token_def hex_def by auto
qed

lemma generic_preview_is_bounded: "length (summarize_generic tool inp) \<le> length tool + 202"
proof -
  have "length (truncate_chars t GENERIC_DIGEST_MAX) \<le> 201" for t
    using truncate_chars_bound [of t GENERIC_DIGEST_MAX] by (simp add: GENERIC_DIGEST_MAX_def)
  then show ?thesis by (auto simp: summarize_generic_def split: json.splits list.splits)
qed

lemma auto_allowed_is_low_risk: "auto_allows_tool tool \<Longrightarrow> classify_tool_risk lower tool inp = Low"
  by (auto simp: auto_allows_tool_def classify_tool_risk_def LOW_RISK_TOOLS_def)

text \<open>A Pi tool call is confirmed only for a read-only tool or by an approval in time.\<close>

lemma pi_confirms_only_allowed_calls:
  assumes "resolve_permission_request parse resolver message"
  shows "\<exists>tool inp. tool \<noteq> [] \<and> byte_len message \<le> 64 * 1024 \<and>
    (classify_tool_risk lower tool inp = Low \<or> (\<exists>r. resolver = Some r \<and> r tool inp = PiResolved PiAllow))"
proof -
  define envelope where "envelope = (case parse message of Some j \<Rightarrow> j | None \<Rightarrow> JNull)"
  define tool where "tool = str_or '''' ''toolName'' envelope"
  define inp where "inp = (case json_get ''input'' envelope of Some j \<Rightarrow> j | None \<Rightarrow> JNull)"
  have "tool \<noteq> []" "byte_len message \<le> 64 * 1024"
    "auto_allows_tool tool \<or> (\<exists>r. resolver = Some r \<and> pi_outcome_decision (r tool inp) = PiAllow)"
    using assms unfolding resolve_permission_request_def Let_def envelope_def [symmetric] tool_def [symmetric] inp_def [symmetric]
    by (auto simp: MAX_PERMISSION_ENVELOPE_BYTES_def split: if_splits option.splits)
  moreover have "pi_outcome_decision x = PiAllow \<Longrightarrow> x = PiResolved PiAllow" for x
    by (cases x) (simp_all add: pi_outcome_decision_def)
  ultimately show ?thesis using auto_allowed_is_low_risk by metis
qed

text \<open>A script fetched from an address and piped to a shell is not among the destructive commands,
  although pipe-to-shell installers are meant to be.\<close>

lemma piped_installer_is_medium:
  "classify_tool_risk to_ascii_lowercase (lit ''Bash'') (JObj [((lit ''command''), JStr (lit ''curl https://x.io/i | sh''))]) = Medium"
  "classify_tool_risk to_ascii_lowercase (lit ''Bash'') (JObj [((lit ''command''), JStr (lit ''curl | sh''))]) = High"
  by code_simp+

section \<open>Witnesses\<close>

definition ex_request :: ask_request where
  "ex_request = StreamPermission (lit ''s1'') [] (lit ''Bash'') (JObj [((lit ''command''), JStr (lit ''ls''))])"

definition ex_prompt :: choice_prompt where
  "ex_prompt = request_prompt to_ascii_lowercase 1 ex_request"

definition ex_chat :: chat_key where
  "ex_chat = new_chat (lit ''tg'') (lit ''1'') (lit ''1'')"

definition ex_asked :: choices where
  "ex_asked = ask_render True 0 0 (ask_register ex_request ex_prompt 120 0 no_choices)"

definition ex_ask :: "ask_stage \<Rightarrow> ask" where
  "ex_ask g = \<lparr> ak_request = ex_request, ak_prompt = ex_prompt, ak_expires = 120, ak_ttl = 120, ak_stage = g \<rparr>"

definition ex_pending :: pending_interaction where
  "ex_pending = \<lparr> pi_prompt = ex_prompt, pi_origin = External 0, pi_expires_at = 120, pi_sid = Some (lit ''s1'') \<rparr>"

lemma ex_token: "cp_token ex_prompt = (lit ''p1'')"
proof -
  have "mint_prompt_token 112 1 = (lit ''p1'')"
    by (simp add: mint_prompt_token_def hex_def radix_digits.simps [of 16 "Suc 0"] digit_char_def lit_def)
  then show ?thesis by (simp add: ex_prompt_def request_prompt_def ex_request_def permission_prompt_def)
qed

lemma ex_options: "cp_options ex_prompt = approve_deny"
  by (simp add: ex_prompt_def request_prompt_def ex_request_def permission_prompt_def)

lemma ex_asked_eq:
  "ex_asked = \<lparr> ch_reg = [((lit ''p1''), ex_pending)], ch_chan = (\<lambda>_. Closed)(0 := Open), ch_next = 1,
               ch_asks = [0 \<mapsto> ex_ask (Awaiting 120)] \<rparr>"
proof -
  let ?st0 = "no_choices \<lparr> ch_next := Suc 0, ch_chan := (\<lambda>_. Closed)(0 := Open) \<rparr>"
  let ?p = "\<lparr> pi_prompt = ex_prompt, pi_origin = External 0, pi_expires_at = 120, pi_sid = None \<rparr>"
  have tag: "request_tag ex_request = Some (lit ''s1'')" by (simp add: ex_request_def request_tag_def)
  have n: "ch_next no_choices = 0" "ch_chan no_choices = (\<lambda>_. Closed)" "ch_reg no_choices = []" "ch_asks no_choices = (\<lambda>_. None)"
    by (simp_all add: no_choices_def)
  have r: "register_dropping (lit ''p1'') ex_prompt (External 0) 120 ?st0 = ?st0 \<lparr> ch_reg := [((lit ''p1''), ?p)] \<rparr>"
    by (simp add: register_dropping_def register_def n remove_key_def drop_opt_def)
  have t: "tag_sid (lit ''p1'') (lit ''s1'') [((lit ''p1''), ?p)] = [((lit ''p1''), ex_pending)]" by (simp add: tag_sid_def ex_pending_def)
  have "ask_register ex_request ex_prompt 120 0 no_choices
      = ?st0 \<lparr> ch_reg := [((lit ''p1''), ex_pending)], ch_asks := [0 \<mapsto> ex_ask Rendering] \<rparr>"
    unfolding ask_register_def Let_def tag n ex_token option.case add_0 r by (simp add: t n ex_ask_def)
  then show ?thesis
    by (simp add: ex_asked_def ask_render_def set_stage_def ex_ask_def no_choices_def)
qed

lemma ex_reach: "hitl_reach to_ascii_lowercase 5 ex_asked []"
proof -
  have "hitl_reach to_ascii_lowercase 0 ex_asked []"
    unfolding ex_asked_def ex_prompt_def by (intro rendered asked started)
  then show ?thesis by (rule passed) simp
qed

lemma ex_registered: "registered ex_asked 0 (lit ''p1'') ex_prompt 120" "sole_token ex_asked 0 (cp_token ex_prompt)"
  by (auto simp: registered_def sole_token_def ex_asked_eq ex_pending_def)

definition ex_selection :: choice_selection where
  "ex_selection = selection (lit ''p1'') [(lit ''allow'')] None"

definition ex_clicked :: choices where
  "ex_clicked = \<lparr> ch_reg = [], ch_chan = (\<lambda>_. Closed)(0 := Sent ex_selection), ch_next = 1,
                 ch_asks = [0 \<mapsto> ex_ask (Awaiting 120)] \<rparr>"

lemma ex_click: "resolve_selection id id 5 ex_chat (lit ''p1:0'') ex_asked = (ex_clicked, Delivered 0 ex_selection)"
proof -
  have c: "split_callback (lit ''p1:0'') = Some ((lit ''p1''), 0)"
    using split_once_plain [of 58 "(lit ''p1'')" "dec 0"] parse_u64_dec [of 0]
    by (simp add: split_callback_def lit_def dec_def radix_digits.simps [of 10 0] digit_char_def)
  have "lapse id 5 ex_asked = ex_asked"
    by (simp add: lapse_def drain_expired_def drain_where_def ex_asked_eq ex_pending_def)
  then show ?thesis
    by (simp add: resolve_selection_def c take_by_token_def take_where_def ex_asked_eq ex_pending_def ex_token remove_key_def
        nth_option_def ex_options approve_deny_def option_of_def apply_pending_def ex_clicked_def ex_selection_def selection_def)
qed

definition ex_told :: choices where
  "ex_told = ask_poll 6 0 ex_clicked"

lemma ex_told_ask: "ch_asks ex_told 0 = Some (ex_ask (Returned (Selected ex_selection)))"
  by (simp add: ex_told_def ask_poll_def ex_clicked_def set_stage_def ex_ask_def)

lemma ex_reach_clicked: "hitl_reach to_ascii_lowercase 6 ex_clicked [Input 5 (Click ex_chat (lit ''p1:0'')) (Delivered 0 ex_selection)]"
  using passed [OF clicked [OF ex_reach iteration_id iteration_id ex_click], of 6] by simp

lemma ex_reach_told: "hitl_reach to_ascii_lowercase 6 ex_told [Input 5 (Click ex_chat (lit ''p1:0'')) (Delivered 0 ex_selection)]"
  unfolding ex_told_def by (rule polled [OF ex_reach_clicked])

definition ex_context :: hitl_context where
  "ex_context = \<lparr> hc_channel = (lit ''tg''), hc_chat_id = (lit ''1''), hc_thread_ts = None, hc_role = [],
                 hc_progress_path = None, hc_slug = (lit ''demo'') \<rparr>"

theorem approval_needs_the_users_choice_witness:
  "\<exists>t inp sel. deliveries 0 [Input 5 (Click ex_chat (lit ''p1:0'')) (Delivered 0 ex_selection)] = [(t, inp, sel)]
     \<and> approves inp (lit ''p1'') \<and> t < 120"
proof -
  have "reply_allows (Some ex_context) ex_request (Selected ex_selection)"
    by (simp add: reply_allows_def ex_request_def can_use_tool_decision_def permission_answer_of_def selects_def
        ex_selection_def allow_decision_def)
  then show ?thesis
    using approval_needs_the_users_choice [OF ex_reach_told ex_told_ask, of "Selected ex_selection" "Some ex_context"]
    by (auto simp: ex_ask_def ex_token)
qed

theorem accepted_choice_is_the_answer_witness:
  "ch_asks (ask_poll 500 0 ex_clicked) 0 = Some (ex_ask (Returned (Selected ex_selection)))"
proof -
  have a: "ch_asks ex_clicked 0 = Some (ex_ask (Awaiting 120))" by (simp add: ex_clicked_def)
  have "(5, Click ex_chat (lit ''p1:0''), ex_selection)
      \<in> set (deliveries 0 [Input 5 (Click ex_chat (lit ''p1:0'')) (Delivered 0 ex_selection)])"
    by (simp add: deliveries_def List.map_filter_simps)
  from accepted_choice_is_the_answer [OF ex_reach_clicked a this] show ?thesis
    by (auto simp: ex_ask_def)
qed

theorem asks_end_by_deadline_or_teardown_witness:
  "\<exists>ans. map_option ak_stage (ch_asks (ask_forget id 0 (ask_poll 6 0 (cancel_sid id (lit ''s1'') ex_asked))) 0) = Some (Returned ans)"
proof -
  have a: "ch_asks ex_asked 0 = Some (ex_ask (Awaiting 120))" by (simp add: ex_asked_eq)
  have g: "ak_stage (ex_ask (Awaiting 120)) = Awaiting 120" "request_tag (ak_request (ex_ask (Awaiting 120))) = Some (lit ''s1'')"
    by (simp_all add: ex_ask_def ex_request_def request_tag_def)
  show ?thesis
    using asks_end_by_deadline_or_teardown [OF ex_reach iteration_id a g(1), of 6 "cancel_sid id (lit ''s1'') ex_asked" "(lit ''s1'')" id] g(2)
    by blast
qed

theorem button_selects_its_option_witness:
  "snd (resolve_selection id id 5 ex_chat (mo_data (to_message_options ex_prompt ! 1)) ex_asked)
    = Delivered 0 (selection (lit ''p1'') [(lit ''deny'')] None)"
proof -
  have a: "ch_asks ex_asked 0 = Some (ex_ask (Awaiting 120))" by (simp add: ex_asked_eq)
  have e: "ak_prompt (ex_ask (Awaiting 120)) = ex_prompt" by (simp add: ex_ask_def)
  have "1 < length (cp_options ex_prompt)" "(1 :: nat) < 2 ^ 64" "co_id (cp_options ex_prompt ! 1) = (lit ''deny'')"
    by (simp_all add: ex_options approve_deny_def option_of_def)
  then show ?thesis
    using button_selects_its_option [OF ex_reach iteration_id iteration_id a, unfolded e, OF ex_registered(1) _ ex_registered(2)]
    by (simp add: ex_token)
qed

definition ex_left :: choices where
  "ex_left = ask_abandon 0 ex_asked"

theorem web_approval_may_reach_nobody_witness:
  "snd (resolve_web_selection id id 5 (lit ''p1'') (lit ''allow'') ex_left) = Inr (Delivered 0 ex_selection)"
proof -
  have r: "hitl_reach to_ascii_lowercase 5 ex_left []" unfolding ex_left_def by (rule abandoned [OF ex_reach])
  have left: "ex_left = \<lparr> ch_reg = [((lit ''p1''), ex_pending)], ch_chan = (\<lambda>_. Closed), ch_next = 1, ch_asks = [0 \<mapsto> ex_ask Abandoned] \<rparr>"
    by (simp add: ex_left_def ask_abandon_def ex_asked_eq ex_ask_def close_chan_def set_stage_def fun_eq_iff)
  have a: "ch_asks ex_left 0 = Some (ex_ask Abandoned)" "ak_stage (ex_ask Abandoned) = Abandoned" "ak_prompt (ex_ask Abandoned) = ex_prompt"
    by (simp_all add: left ex_ask_def)
  have reg: "registered ex_left 0 (lit ''p1'') ex_prompt 120" "sole_token ex_left 0 (cp_token ex_prompt)"
    by (auto simp: registered_def sole_token_def left ex_pending_def)
  obtain st' r' where w: "resolve_web_selection id id 5 (cp_token ex_prompt) (co_id (option_of (lit ''allow'') ([9989] @ lit '' Approve''))) ex_left = (st', r')"
    by (cases "resolve_web_selection id id 5 (cp_token ex_prompt) (co_id (option_of (lit ''allow'') ([9989] @ lit '' Approve''))) ex_left")
  have "option_of (lit ''allow'') ([9989] @ lit '' Approve'') \<in> set (cp_options ex_prompt)" by (simp add: ex_options approve_deny_def)
  then show ?thesis
    using web_approval_may_reach_nobody [OF r iteration_id iteration_id a(1,2), unfolded a(3), OF reg(1) _ reg(2) _ w] w
    by (simp add: ex_token ex_selection_def option_of_def)
qed

end
