(* ===== verification/Scheduled_Spec.thy ===== *)
theory Scheduled_Spec
  imports Scheduled_Gateway
begin

text \<open>
  What scheduling promises, as an abstract machine: a set of rows in memory, the rows kept on disk
  under each session, a counter that only grows, and the ids whose sending was cut short. Its labels
  say what the outside sees. A start takes the rows on disk into memory, all of them or all but those
  of the sessions it could not read. The invariants of the machine are proved here; that the gateway's
  operations refine it is proved in \<^verbatim>\<open>Scheduled_Refinement\<close>.
\<close>

section \<open>The machine\<close>

record box =
  bx_rows :: "scheduled_item set"
  bx_kept :: "sid \<Rightarrow> scheduled_item set"
  bx_counter :: nat
  bx_firing :: "utext set"

datatype label =
    Created scheduled_item
  | Cancelled utext
  | Sent int scheduled_item
  | Reported scheduled_item
  | Lost utext
  | Cut
  | Restarted
  | Unread "sid set"

definition of_sid :: "sid \<Rightarrow> scheduled_item set \<Rightarrow> scheduled_item set" where
  "of_sid s rows = {i \<in> rows. si_sid i = s}"

definition pending_of :: "sid \<Rightarrow> scheduled_item set \<Rightarrow> scheduled_item set" where
  "pending_of s rows = {i \<in> rows. si_sid i = s \<and> si_status i = Pending}"

text \<open>New rows in memory, and the file of one session rewritten from them.\<close>

definition keep :: "sid \<Rightarrow> scheduled_item set \<Rightarrow> box \<Rightarrow> box" where
  "keep s rows b = b \<lparr> bx_rows := rows, bx_kept := (bx_kept b)(s := of_sid s rows) \<rparr>"

definition row_id :: "nat \<Rightarrow> utext" where
  "row_id n = lit ''d'' @ dec n"

definition failed_copy :: "scheduled_item \<Rightarrow> scheduled_item \<Rightarrow> bool" where
  "failed_copy i j \<longleftrightarrow> (\<exists>r t. j = i \<lparr> si_status := FailedRow, si_fail_reason := Some r, si_failed_at := Some t \<rparr>)"

definition sendable :: "int \<Rightarrow> scheduled_item \<Rightarrow> box \<Rightarrow> bool" where
  "sendable now i b \<longleftrightarrow> i \<in> bx_rows b \<and> si_status i = Pending \<and> si_id i \<notin> bx_firing b
     \<and> si_send_at i \<le> now \<and> now - si_send_at i \<le> MAX_CATCH_UP_AGE"

inductive box_step :: "box \<Rightarrow> label list \<Rightarrow> box \<Rightarrow> bool" where
  count: "bx_counter b \<le> n \<Longrightarrow> box_step b [] (b \<lparr> bx_counter := n \<rparr>)"
| create: "si_status i = Pending \<Longrightarrow> si_id i = row_id n \<Longrightarrow> bx_counter b < n
    \<Longrightarrow> card (pending_of (si_sid i) (bx_rows b)) < MAX_PENDING_PER_SID
    \<Longrightarrow> box_step b [Created i] (keep (si_sid i) (insert i (bx_rows b)) (b \<lparr> bx_counter := n \<rparr>))"
| cancel: "i \<in> bx_rows b \<Longrightarrow> box_step b [Cancelled (si_id i)] (keep (si_sid i) (bx_rows b - {i}) b)"
| collect: "i \<in> bx_rows b \<Longrightarrow> si_status i = FailedRow
    \<Longrightarrow> box_step b [Reported i] (keep (si_sid i) (bx_rows b - {i}) b)"
| collect_lost: "i \<in> bx_rows b \<Longrightarrow> si_status i = FailedRow \<Longrightarrow> box_step b [Lost (si_id i)] b"
| deliver: "sendable now i b \<Longrightarrow> box_step b [Sent now i] (keep (si_sid i) (bx_rows b - {i}) b)"
| deliver_lost: "sendable now i b
    \<Longrightarrow> box_step b [Sent now i, Lost (si_id i)] (b \<lparr> bx_rows := bx_rows b - {i} \<rparr>)"
| refuse: "sendable now i b \<Longrightarrow> failed_copy i j
    \<Longrightarrow> box_step b [Sent now i, Reported j] (keep (si_sid i) (insert j (bx_rows b - {i})) b)"
| refuse_lost: "sendable now i b \<Longrightarrow> failed_copy i j
    \<Longrightarrow> box_step b [Sent now i, Lost (si_id i), Reported j] (b \<lparr> bx_rows := insert j (bx_rows b - {i}) \<rparr>)"
| expire: "i \<in> bx_rows b \<Longrightarrow> si_status i = Pending \<Longrightarrow> failed_copy i j
    \<Longrightarrow> box_step b [Reported j] (keep (si_sid i) (insert j (bx_rows b - {i})) b)"
| expire_lost: "i \<in> bx_rows b \<Longrightarrow> si_status i = Pending \<Longrightarrow> failed_copy i j
    \<Longrightarrow> box_step b [Lost (si_id i), Reported j] (b \<lparr> bx_rows := insert j (bx_rows b - {i}) \<rparr>)"
| die: "sendable now i b
    \<Longrightarrow> box_step b [Sent now i, Cut] (b \<lparr> bx_firing := insert (si_id i) (bx_firing b) \<rparr>)"
| restart: "box_step b [Restarted] (b \<lparr> bx_rows := (\<Union>s. bx_kept b s), bx_firing := {} \<rparr>)"
| restart_partly: "box_step b [Restarted, Unread S] (b \<lparr> bx_rows := (\<Union>s \<in> - S. bx_kept b s), bx_firing := {} \<rparr>)"

definition empty_box :: box where
  "empty_box = \<lparr> bx_rows = {}, bx_kept = (\<lambda>_. {}), bx_counter = 0, bx_firing = {} \<rparr>"

inductive box_reach :: "box \<Rightarrow> label list \<Rightarrow> bool" where
  box_start: "box_reach empty_box []"
| box_more: "box_reach b tr \<Longrightarrow> box_step b ls b' \<Longrightarrow> box_reach b' (tr @ ls)"

section \<open>What a trace says\<close>

definition created_ids :: "label list \<Rightarrow> utext list" where
  "created_ids tr = List.map_filter (\<lambda>l. case l of Created i \<Rightarrow> Some (si_id i) | _ \<Rightarrow> None) tr"

definition sent_ids :: "label list \<Rightarrow> utext list" where
  "sent_ids tr = List.map_filter (\<lambda>l. case l of Sent _ i \<Rightarrow> Some (si_id i) | _ \<Rightarrow> None) tr"

text \<open>The labels since the last start of the daemon.\<close>

definition this_life :: "label list \<Rightarrow> label list" where
  "this_life tr = rev (takeWhile (\<lambda>l. l \<noteq> Restarted) (rev tr))"

text \<open>No write was lost and no sending cut short.\<close>

definition undisturbed :: "label list \<Rightarrow> bool" where
  "undisturbed tr \<longleftrightarrow> list_all (\<lambda>l. case l of Lost _ \<Rightarrow> False | Cut \<Rightarrow> False | _ \<Rightarrow> True) tr"

text \<open>Every start read the files of all sessions.\<close>

definition all_read :: "label list \<Rightarrow> bool" where
  "all_read tr \<longleftrightarrow> list_all (\<lambda>l. case l of Unread _ \<Rightarrow> False | _ \<Rightarrow> True) tr"

definition accounted :: "scheduled_item set \<Rightarrow> label list \<Rightarrow> scheduled_item \<Rightarrow> bool" where
  "accounted rows tr i \<longleftrightarrow> si_id i \<in> si_id ` rows \<or> si_id i \<in> set (sent_ids tr)
     \<or> Cancelled (si_id i) \<in> set tr \<or> (\<exists>j. Reported j \<in> set tr \<and> si_id j = si_id i)"

text \<open>A row whose session some start could not read: it lies in that session's file, or the first creation since
  has rewritten the file without it.\<close>

definition unread_before :: "label list \<Rightarrow> scheduled_item \<Rightarrow> bool" where
  "unread_before tr i \<longleftrightarrow> (\<exists>S. Unread S \<in> set tr \<and> si_sid i \<in> S)"

definition overwritten :: "label list \<Rightarrow> scheduled_item \<Rightarrow> bool" where
  "overwritten tr i \<longleftrightarrow> (\<exists>us vs S j. tr = us @ Unread S # vs \<and> si_sid i \<in> S \<and> Created j \<in> set vs \<and> si_sid j = si_sid i)"

lemma all_read_simps [simp]:
  "all_read []" "all_read (xs @ ys) \<longleftrightarrow> all_read xs \<and> all_read ys"
  "all_read (l # ls) \<longleftrightarrow> (case l of Unread _ \<Rightarrow> False | _ \<Rightarrow> True) \<and> all_read ls"
  by (simp_all add: all_read_def)

lemma unread_before_more: "unread_before (tr @ ls) i \<longleftrightarrow> unread_before tr i \<or> unread_before ls i"
  by (auto simp: unread_before_def)

lemma overwritten_more:
  assumes "overwritten tr i"
  shows "overwritten (tr @ ls) i"
proof -
  obtain us vs S j where "tr = us @ Unread S # vs" "si_sid i \<in> S" "Created j \<in> set vs" "si_sid j = si_sid i"
    using assms unfolding overwritten_def by blast
  then show ?thesis unfolding overwritten_def
    by (intro exI [of _ us] exI [of _ "vs @ ls"] exI [of _ S] exI [of _ j]) simp
qed

lemma overwritten_now:
  assumes "unread_before tr i" "Created j \<in> set ls" "si_sid j = si_sid i"
  shows "overwritten (tr @ ls) i"
proof -
  obtain S where "Unread S \<in> set tr" "si_sid i \<in> S" using assms(1) by (auto simp: unread_before_def)
  moreover from this obtain us vs where "tr = us @ Unread S # vs" using split_list by metis
  ultimately show ?thesis using assms(2,3) unfolding overwritten_def
    by (intro exI [of _ us] exI [of _ "vs @ ls"] exI [of _ S] exI [of _ j]) simp
qed

lemma not_overwritten: "all_read tr \<Longrightarrow> \<not> unread_before tr i \<and> \<not> overwritten tr i"
  by (auto simp: all_read_def unread_before_def overwritten_def list_all_iff split: label.splits)

lemma created_ids_simps [simp]:
  "created_ids [] = []" "created_ids (xs @ ys) = created_ids xs @ created_ids ys"
  "created_ids (l # ls) = (case l of Created i \<Rightarrow> si_id i # created_ids ls | _ \<Rightarrow> created_ids ls)"
  by (simp_all add: created_ids_def map_filter_append List.map_filter_simps split: label.splits)

lemma sent_ids_simps [simp]:
  "sent_ids [] = []" "sent_ids (xs @ ys) = sent_ids xs @ sent_ids ys"
  "sent_ids (l # ls) = (case l of Sent _ i \<Rightarrow> si_id i # sent_ids ls | _ \<Rightarrow> sent_ids ls)"
  by (simp_all add: sent_ids_def map_filter_append List.map_filter_simps split: label.splits)

lemma this_life_snoc [simp]:
  "this_life [] = []"
  "this_life (tr @ [l]) = (if l = Restarted then [] else this_life tr @ [l])"
  by (simp_all add: this_life_def)

lemma this_life_more: "Restarted \<notin> set ls \<Longrightarrow> this_life (tr @ ls) = this_life tr @ ls"
proof (induction ls rule: rev_induct)
  case (snoc l ls)
  then have "l \<noteq> Restarted" "this_life (tr @ ls) = this_life tr @ ls" by auto
  then show ?case using this_life_snoc(2) [of "tr @ ls" l] by (simp only: append.assoc if_False)
qed simp

lemma undisturbed_simps [simp]:
  "undisturbed []" "undisturbed (xs @ ys) \<longleftrightarrow> undisturbed xs \<and> undisturbed ys"
  "undisturbed (l # ls) \<longleftrightarrow> (case l of Lost _ \<Rightarrow> False | Cut \<Rightarrow> False | _ \<Rightarrow> True) \<and> undisturbed ls"
  by (simp_all add: undisturbed_def)

lemma set_sent_ids: "x \<in> set (sent_ids tr) \<longleftrightarrow> (\<exists>now i. Sent now i \<in> set tr \<and> si_id i = x)"
  by (induction tr) (auto split: label.splits)

lemma set_created_ids: "x \<in> set (created_ids tr) \<longleftrightarrow> (\<exists>i. Created i \<in> set tr \<and> si_id i = x)"
  by (induction tr) (auto split: label.splits)

section \<open>Invariant\<close>

definition disk_rows :: "box \<Rightarrow> scheduled_item set" where
  "disk_rows b = (\<Union>s. bx_kept b s)"

text \<open>Rows are known by their ids, in memory and on disk, belong to one session, and were created; no
  created id is above the counter.\<close>

definition rows_ok :: "box \<Rightarrow> label list \<Rightarrow> bool" where
  "rows_ok b tr \<longleftrightarrow> inj_on si_id (bx_rows b) \<and> inj_on si_id (disk_rows b)
     \<and> (\<forall>s. \<forall>i \<in> bx_kept b s. si_sid i = s)
     \<and> (\<forall>i \<in> bx_rows b. \<forall>j \<in> disk_rows b. si_id i = si_id j \<longrightarrow> si_sid i = si_sid j)
     \<and> (\<forall>i \<in> bx_rows b \<union> disk_rows b. si_id i \<in> set (created_ids tr))
     \<and> (\<forall>i. Created i \<in> set tr \<longrightarrow> (\<exists>n \<le> bx_counter b. si_id i = row_id n))"

text \<open>Every row in memory is on disk too, or what is on disk is the pending row it failed from.\<close>

definition durable :: "box \<Rightarrow> bool" where
  "durable b \<longleftrightarrow> (\<forall>i \<in> bx_rows b. \<exists>j \<in> bx_kept b (si_sid i). si_id j = si_id i
     \<and> (j = i \<or> si_status j = Pending \<and> si_status i = FailedRow))"


lemma keep_simps [simp]:
  "bx_rows (keep s rows b) = rows" "bx_counter (keep s rows b) = bx_counter b"
  "bx_firing (keep s rows b) = bx_firing b"
  "bx_kept (keep s rows b) = (bx_kept b)(s := of_sid s rows)"
  by (simp_all add: keep_def)

lemma failed_copy_simps:
  "failed_copy i j \<Longrightarrow> si_id j = si_id i \<and> si_sid j = si_sid i \<and> si_status j = FailedRow"
  by (auto simp: failed_copy_def)

lemma row_id_inject [simp]: "row_id m = row_id n \<longleftrightarrow> m = n"
proof -
  have "inj_on digit_char {..<16}" by (rule inj_onI) (simp add: digit_char_inject)
  moreover have "set (radix_digits 10 m) \<union> set (radix_digits 10 n) \<subseteq> {..<16}"
    using radix_digits_bound [of 10] by fastforce
  ultimately have "dec m = dec n \<longleftrightarrow> radix_digits 10 m = radix_digits 10 n"
    unfolding dec_def by (metis inj_on_map_eq_map inj_on_subset)
  then show ?thesis by (simp add: row_id_def radix_digits_inject)
qed

text \<open>The rows on disk after one session's file is rewritten from rows \<open>R\<close>: those of \<open>R\<close>, and what the other
  sessions' files held.\<close>

lemma disk_keep: "disk_rows (keep s R b) = of_sid s R \<union> {j. \<exists>s'. s' \<noteq> s \<and> j \<in> bx_kept b s'}"
  by (auto simp: disk_rows_def split: if_splits)

lemma disk_same [simp]:
  "disk_rows (b \<lparr> bx_rows := R \<rparr>) = disk_rows b" "disk_rows (b \<lparr> bx_counter := n \<rparr>) = disk_rows b"
  "disk_rows (b \<lparr> bx_firing := f \<rparr>) = disk_rows b"
  "disk_rows (b \<lparr> bx_rows := R, bx_firing := f \<rparr>) = disk_rows b"
  by (simp_all add: disk_rows_def)

text \<open>New rows \<open>R\<close> that carry only ids of old rows or of the row just created keep the rows well formed.\<close>

lemma rows_ok_keep:
  assumes ok: "rows_ok b tr" and inj: "inj_on si_id R"
    and old: "\<And>i. i \<in> R \<Longrightarrow> (\<exists>k \<in> bx_rows b. si_id k = si_id i \<and> si_sid k = si_sid i)
       \<or> (si_id i \<notin> set (created_ids tr) \<and> si_id i \<in> set (created_ids ls))"
    and new: "\<And>i. Created i \<in> set ls \<Longrightarrow> \<exists>n \<le> m. si_id i = row_id n" and m: "bx_counter b \<le> m"
  shows "rows_ok (keep s R (b \<lparr> bx_counter := m \<rparr>)) (tr @ ls)"
proof -
  have disk: "j \<in> disk_rows (keep s R (b \<lparr> bx_counter := m \<rparr>)) \<Longrightarrow>
      (j \<in> R \<and> si_sid j = s) \<or> (j \<in> disk_rows b \<and> si_sid j \<noteq> s)" for j
    using ok by (auto simp: disk_keep of_sid_def rows_ok_def disk_rows_def)
  have cross: "si_sid i = si_sid j" if h: "i \<in> R" "j \<in> disk_rows b" "si_id i = si_id j" for i j
  proof -
    have "si_id j \<in> set (created_ids tr)" using ok h by (auto simp: rows_ok_def)
    then obtain k where "k \<in> bx_rows b" "si_id k = si_id i" "si_sid k = si_sid i"
      using old [OF h(1)] h(3) by auto
    then show ?thesis using ok h by (auto simp: rows_ok_def)
  qed
  have rid: "k \<in> bx_rows b \<union> disk_rows b \<Longrightarrow> si_id k \<in> set (created_ids tr)" for k
    using ok by (simp add: rows_ok_def)
  have ids: "si_id i \<in> set (created_ids (tr @ ls))" if "i \<in> R" for i
    using old [OF that] rid unfolding created_ids_simps set_append by (metis UnCI)
  have injd: "inj_on si_id (disk_rows (keep s R (b \<lparr> bx_counter := m \<rparr>)))"
  proof (rule inj_onI)
    fix i j assume a: "i \<in> disk_rows (keep s R (b \<lparr> bx_counter := m \<rparr>))"
      "j \<in> disk_rows (keep s R (b \<lparr> bx_counter := m \<rparr>))" "si_id i = si_id j"
    have no: False if h: "k \<in> R" "si_sid k = s" "l \<in> disk_rows b" "si_sid l \<noteq> s" "si_id k = si_id l" for k l
      using cross [OF h(1,3,5)] h(2,4) by simp
    have dd: "inj_on si_id (disk_rows b)" using ok by (simp add: rows_ok_def)
    consider "i \<in> R" "j \<in> R" | "i \<in> disk_rows b" "j \<in> disk_rows b"
      using disk [OF a(1)] disk [OF a(2)] no [of i j] no [of j i] a(3) by auto
    then show "i = j"
      by cases (rule inj_onD [OF inj a(3)] inj_onD [OF dd a(3)]; assumption)+
  qed
  have c: "\<exists>n \<le> m. si_id i = row_id n" if "Created i \<in> set (tr @ ls)" for i
    using that new ok m by (auto simp: rows_ok_def)
  show ?thesis
    unfolding rows_ok_def
  proof (intro conjI)
    show "\<forall>i\<in>bx_rows (keep s R (b\<lparr>bx_counter := m\<rparr>)). \<forall>j\<in>disk_rows (keep s R (b\<lparr>bx_counter := m\<rparr>)).
        si_id i = si_id j \<longrightarrow> si_sid i = si_sid j"
    proof (intro ballI impI)
      fix i j assume h: "i \<in> bx_rows (keep s R (b\<lparr>bx_counter := m\<rparr>))"
        "j \<in> disk_rows (keep s R (b\<lparr>bx_counter := m\<rparr>))" "si_id i = si_id j"
      then have i: "i \<in> R" by simp
      show "si_sid i = si_sid j"
        using disk [OF h(2)] cross [OF i _ h(3)] inj_onD [OF inj h(3) i] by auto
    qed
    show "\<forall>i\<in>bx_rows (keep s R (b\<lparr>bx_counter := m\<rparr>)) \<union> disk_rows (keep s R (b\<lparr>bx_counter := m\<rparr>)).
        si_id i \<in> set (created_ids (tr @ ls))"
    proof
      fix i assume "i \<in> bx_rows (keep s R (b\<lparr>bx_counter := m\<rparr>)) \<union> disk_rows (keep s R (b\<lparr>bx_counter := m\<rparr>))"
      then have "i \<in> R \<or> i \<in> disk_rows b" using disk [of i] by auto
      then show "si_id i \<in> set (created_ids (tr @ ls))" using ids rid by auto
    qed
    show "\<forall>s'. \<forall>i\<in>bx_kept (keep s R (b\<lparr>bx_counter := m\<rparr>)) s'. si_sid i = s'"
      using ok by (auto simp: rows_ok_def of_sid_def)
  qed (use inj injd c in auto)
qed

lemma rows_ok_rows:
  assumes ok: "rows_ok b tr" and inj: "inj_on si_id R"
    and old: "\<And>i. i \<in> R \<Longrightarrow> \<exists>k \<in> bx_rows b. si_id k = si_id i \<and> si_sid k = si_sid i"
    and ls: "created_ids ls = []"
  shows "rows_ok (b \<lparr> bx_rows := R \<rparr>) (tr @ ls)"
proof -
  have rid: "k \<in> bx_rows b \<union> disk_rows b \<Longrightarrow> si_id k \<in> set (created_ids tr)" for k
    using ok by (simp add: rows_ok_def)
  have "si_id i \<in> set (created_ids tr)" if "i \<in> R" for i
    using old [OF that] rid by (metis UnCI)
  moreover have "si_sid i = si_sid j" if "i \<in> R" "j \<in> disk_rows b" "si_id i = si_id j" for i j
    using old [OF that(1)] that ok unfolding rows_ok_def by metis
  moreover have "Created i \<notin> set ls" for i using ls set_created_ids [of "si_id i" ls] by auto
  ultimately show ?thesis using ok inj ls by (auto simp: rows_ok_def)
qed

lemma rows_ok_more: "rows_ok b tr \<Longrightarrow> created_ids ls = [] \<Longrightarrow> rows_ok b (tr @ ls)"
  using rows_ok_rows [of b tr "bx_rows b" ls] by (auto simp: rows_ok_def)

lemma rows_ok_firing: "rows_ok (b \<lparr> bx_firing := f \<rparr>) tr = rows_ok b tr"
  by (simp add: rows_ok_def)

lemma replaced_inj:
  "inj_on si_id R \<Longrightarrow> i \<in> R \<Longrightarrow> si_id j = si_id i \<Longrightarrow> inj_on si_id (insert j (R - {i}))"
  by (auto simp: inj_on_def)

lemma removed_inj: "inj_on si_id R \<Longrightarrow> inj_on si_id (R - {i})"
  by (auto simp: inj_on_def)

lemma no_creation: "created_ids ls = [] \<Longrightarrow> Created i \<notin> set ls"
  using set_created_ids [of "si_id i" ls] by auto

lemma rows_ok_keep_old:
  assumes ok: "rows_ok b tr" and inj: "inj_on si_id R"
    and old: "\<And>i. i \<in> R \<Longrightarrow> \<exists>k \<in> bx_rows b. si_id k = si_id i \<and> si_sid k = si_sid i"
    and ls: "created_ids ls = []"
  shows "rows_ok (keep s R b) (tr @ ls)"
proof -
  have "keep s R b = keep s R (b \<lparr> bx_counter := bx_counter b \<rparr>)" by (simp add: keep_def)
  then show ?thesis
    using rows_ok_keep [OF ok inj, where m = "bx_counter b" and ls = ls and s = s] old no_creation [OF ls] by simp
qed

lemma replaced_old:
  "k \<in> insert j (R - {i}) \<Longrightarrow> i \<in> R \<Longrightarrow> failed_copy i j \<Longrightarrow> \<exists>k' \<in> R. si_id k' = si_id k \<and> si_sid k' = si_sid k"
  using failed_copy_simps [of i j] by auto

lemma rows_ok_restart:
  assumes ok: "rows_ok b tr" and R: "R \<subseteq> disk_rows b" and ls: "created_ids ls = []"
  shows "rows_ok (b \<lparr> bx_rows := R, bx_firing := {} \<rparr>) (tr @ ls)"
proof -
  have inj: "inj_on si_id (disk_rows b)" using ok by (simp add: rows_ok_def)
  have "si_sid i = si_sid j" if "i \<in> R" "j \<in> disk_rows b" "si_id i = si_id j" for i j
    using inj_onD [OF inj that(3)] R that by auto
  then have cross: "\<forall>i \<in> R. \<forall>j \<in> disk_rows b. si_id i = si_id j \<longrightarrow> si_sid i = si_sid j" by blast
  have ids: "\<forall>i \<in> R \<union> disk_rows b. si_id i \<in> set (created_ids tr)" using ok R unfolding rows_ok_def by blast
  have new: "Created i \<in> set (tr @ ls) \<longleftrightarrow> Created i \<in> set tr" for i using no_creation [OF ls] by simp
  have cids: "created_ids (tr @ ls) = created_ids tr" using ls by simp
  show ?thesis
    unfolding rows_ok_def new cids disk_same
  proof (intro conjI)
    show "inj_on si_id (bx_rows (b \<lparr> bx_rows := R, bx_firing := {} \<rparr>))" using inj_on_subset [OF inj R] by simp
  qed (use ok cross ids in \<open>simp_all add: rows_ok_def\<close>)
qed

lemma rows_ok_step:
  assumes ok: "rows_ok b tr" and st: "box_step b ls b'"
  shows "rows_ok b' (tr @ ls)"
proof -
  have inj: "inj_on si_id (bx_rows b)" using ok by (simp add: rows_ok_def)
  have rm: "created_ids ls = [] \<Longrightarrow> rows_ok (keep s (bx_rows b - {i}) b) (tr @ ls)" for s i ls
    by (rule rows_ok_keep_old [OF ok removed_inj [OF inj]]) auto
  have rp: "created_ids ls = [] \<Longrightarrow> i \<in> bx_rows b \<Longrightarrow> failed_copy i j
      \<Longrightarrow> rows_ok (keep s (insert j (bx_rows b - {i})) b) (tr @ ls)" for s i j ls
    by (rule rows_ok_keep_old [OF ok replaced_inj [OF inj]])
      (use failed_copy_simps replaced_old in blast)+
  have rm': "created_ids ls = [] \<Longrightarrow> rows_ok (b \<lparr> bx_rows := bx_rows b - {i} \<rparr>) (tr @ ls)" for i ls
    by (rule rows_ok_rows [OF ok removed_inj [OF inj]]) auto
  have rp': "created_ids ls = [] \<Longrightarrow> i \<in> bx_rows b \<Longrightarrow> failed_copy i j
      \<Longrightarrow> rows_ok (b \<lparr> bx_rows := insert j (bx_rows b - {i}) \<rparr>) (tr @ ls)" for i j ls
    by (rule rows_ok_rows [OF ok replaced_inj [OF inj]])
      (use failed_copy_simps replaced_old in blast)+
  show ?thesis using st
  proof cases
    case (count n)
    then show ?thesis using ok by (auto simp: rows_ok_def)
  next
    case (create i n)
    have fresh: "row_id n \<notin> set (created_ids tr)"
    proof
      assume "row_id n \<in> set (created_ids tr)"
      then obtain k where "Created k \<in> set tr" "si_id k = row_id n" by (auto simp: set_created_ids)
      then show False using ok create(5) by (auto simp: rows_ok_def)
    qed
    have rid: "k \<in> bx_rows b \<Longrightarrow> si_id k \<in> set (created_ids tr)" for k using ok by (simp add: rows_ok_def)
    have "inj_on si_id (insert i (bx_rows b))"
      using inj fresh rid create(4) by (auto simp: inj_on_insert)
    then show ?thesis
      unfolding create(1,2)
      by (rule rows_ok_keep [OF ok]) (use fresh create(4,5) in auto)
  next
    case restart
    show ?thesis unfolding restart by (rule rows_ok_restart [OF ok]) (auto simp: disk_rows_def)
  next
    case (restart_partly S)
    show ?thesis unfolding restart_partly by (rule rows_ok_restart [OF ok]) (auto simp: disk_rows_def)
  qed (use rm rp rm' rp' rows_ok_more [OF ok] in \<open>auto simp: sendable_def rows_ok_firing\<close>)
qed

lemma rows_finite:
  assumes "rows_ok b tr"
  shows "finite (bx_rows b)" "finite (disk_rows b)" "finite (bx_kept b s)"
proof -
  have "finite R" if h: "R \<subseteq> bx_rows b \<union> disk_rows b" "inj_on si_id R" for R
  proof -
    have "si_id ` R \<subseteq> set (created_ids tr)" using assms h(1) by (auto simp: rows_ok_def)
    then have "finite (si_id ` R)" by (rule finite_subset) simp
    then show ?thesis using h(2) by (rule finite_imageD)
  qed
  then show "finite (bx_rows b)" and d: "finite (disk_rows b)" using assms by (auto simp: rows_ok_def)
  have "bx_kept b s \<subseteq> disk_rows b" by (auto simp: disk_rows_def)
  then show "finite (bx_kept b s)" by (rule finite_subset) (rule d)
qed

text \<open>The kinds of step, as far as rows and files are concerned.\<close>

lemma box_step_cases:
  assumes "box_step b ls b'"
  obtains (same) "bx_rows b' = bx_rows b" "bx_kept b' = bx_kept b" "created_ids ls = []" "Restarted \<notin> set ls"
  | (kept) s R where "bx_rows b' = R" "bx_kept b' = (bx_kept b)(s := of_sid s R)" "Restarted \<notin> set ls"
      "\<And>k. k \<in> bx_rows b \<Longrightarrow> si_sid k \<noteq> s \<Longrightarrow> k \<in> R"
      "\<And>k. k \<in> R \<Longrightarrow> k \<in> bx_rows b \<or> si_sid k = s \<and> (si_status k = Pending \<longrightarrow> Created k \<in> set ls)"
  | (lost) i R where "bx_rows b' = R" "bx_kept b' = bx_kept b" "Lost (si_id i) \<in> set ls" "i \<in> bx_rows b"
      "si_status i = Pending" "created_ids ls = []" "Restarted \<notin> set ls"
      "R = bx_rows b - {i} \<or> (\<exists>j. failed_copy i j \<and> R = insert j (bx_rows b - {i}))"
  | (again) "bx_rows b' \<subseteq> disk_rows b" "bx_kept b' = bx_kept b" "ls = [Restarted] \<or> (\<exists>S. ls = [Restarted, Unread S])"
proof -
  have upd: thesis if "s = si_sid i" "R = bx_rows b - {i}" "b' = keep s R b" "Restarted \<notin> set ls" for s R i
    by (rule kept [of R s]) (use that in auto)
  have rep: thesis if "s = si_sid i" "failed_copy i j" "R = insert j (bx_rows b - {i})" "b' = keep s R b"
      "Restarted \<notin> set ls" for s R i j
    by (rule kept [of R s]) (use that failed_copy_simps [of i j] in auto)
  show thesis
    using assms
  proof cases
    case (create i n)
    show thesis by (rule kept [of "insert i (bx_rows b)" "si_sid i"]) (use create in auto)
  next
    case restart
    then show thesis using again by (simp add: disk_rows_def)
  next
    case (restart_partly S)
    then show thesis using again by (auto simp: disk_rows_def)
  next
    case (deliver_lost now i)
    then show thesis using lost [of "bx_rows b - {i}" i] by (simp add: sendable_def)
  next
    case (refuse_lost now i j)
    then show thesis using lost [of "insert j (bx_rows b - {i})" i] by (auto simp: sendable_def)
  next
    case (expire_lost i j)
    then show thesis using lost [of "insert j (bx_rows b - {i})" i] by auto
  qed (use upd rep same in \<open>auto\<close>)
qed

lemma durable_step:
  assumes ok: "rows_ok b tr" and d: "durable b" and st: "box_step b ls b'"
  shows "durable b'"
  using st
proof (cases rule: box_step_cases)
  case (kept s R)
  show ?thesis
    unfolding durable_def
  proof
    fix i assume "i \<in> bx_rows b'"
    then have i: "i \<in> R" using kept(1) by simp
    show "\<exists>j \<in> bx_kept b' (si_sid i). si_id j = si_id i
        \<and> (j = i \<or> si_status j = Pending \<and> si_status i = FailedRow)"
      using i kept(2) kept(5) [OF i] d by (cases "si_sid i = s") (auto simp: durable_def of_sid_def)
  qed
next
  case (lost i R)
  then obtain k where k: "k \<in> bx_kept b (si_sid i)" "si_id k = si_id i" "k = i"
    using d by (auto simp: durable_def)
  show ?thesis
    using lost(8)
  proof
    assume "R = bx_rows b - {i}"
    then show ?thesis using d lost(1,2) by (auto simp: durable_def)
  next
    assume "\<exists>j. failed_copy i j \<and> R = insert j (bx_rows b - {i})"
    then obtain j where j: "failed_copy i j" "R = insert j (bx_rows b - {i})" by blast
    have "\<exists>k' \<in> bx_kept b (si_sid j). si_id k' = si_id j \<and> (k' = j \<or> si_status k' = Pending \<and> si_status j = FailedRow)"
      using k lost(5) failed_copy_simps [OF j(1)] by auto
    then show ?thesis using d lost(1,2) j(2) by (auto simp: durable_def)
  qed
next
  case again
  show ?thesis
    unfolding durable_def
  proof
    fix i assume "i \<in> bx_rows b'"
    then obtain s where "i \<in> bx_kept b s" using again(1) by (auto simp: disk_rows_def)
    then show "\<exists>j \<in> bx_kept b' (si_sid i). si_id j = si_id i \<and> (j = i \<or> si_status j = Pending \<and> si_status i = FailedRow)"
      using ok again(2) by (auto simp: rows_ok_def)
  qed
qed (use d in \<open>auto simp: durable_def\<close>)

text \<open>Pending rows are exactly as they were created.\<close>

definition as_created :: "box \<Rightarrow> label list \<Rightarrow> bool" where
  "as_created b tr \<longleftrightarrow> (\<forall>i \<in> bx_rows b \<union> disk_rows b. si_status i = Pending \<longrightarrow> Created i \<in> set tr)"

lemma as_created_step:
  assumes a: "as_created b tr" and st: "box_step b ls b'"
  shows "as_created b' (tr @ ls)"
  using st
proof (cases rule: box_step_cases)
  case (kept s R)
  have "disk_rows b' \<subseteq> R \<union> disk_rows b" using kept(2) by (auto simp: disk_rows_def of_sid_def split: if_splits)
  then show ?thesis using a kept(1,5) unfolding as_created_def set_append by blast
next
  case (lost i R)
  then have "disk_rows b' = disk_rows b" by (simp add: disk_rows_def)
  then show ?thesis using a lost(1,8) failed_copy_simps [of i] by (auto simp: as_created_def)
qed (use a in \<open>auto simp: as_created_def disk_rows_def\<close>)

section \<open>Sending\<close>

text \<open>Only a row that may be sent is sent, once in a step, and it leaves the pending rows or is remembered as
  cut short.\<close>

lemma sent_in_step:
  assumes "box_step b ls b'" "Sent now i \<in> set ls"
  shows "sendable now i b \<and> sent_ids ls = [si_id i] \<and> created_ids ls = [] \<and> Restarted \<notin> set ls
    \<and> (\<forall>x. Cancelled x \<notin> set ls)"
  using assms by cases auto

lemma restarted_step: "box_step b ls b' \<Longrightarrow> Restarted \<in> set ls \<Longrightarrow> ls = [Restarted] \<or> (\<exists>S. ls = [Restarted, Unread S])"
  by (cases rule: box_step.cases, assumption) auto

lemma pending_after:
  assumes ok: "rows_ok b tr" and st: "box_step b ls b'" and r: "Restarted \<notin> set ls"
    and k: "k \<in> bx_rows b'" "si_status k = Pending" "si_id k \<notin> bx_firing b'"
  shows "si_id k \<notin> set (sent_ids ls)
    \<and> ((k \<in> bx_rows b \<and> si_id k \<notin> bx_firing b) \<or> Created k \<in> set ls)"
proof -
  have inj: "inj_on si_id (bx_rows b)" using ok by (simp add: rows_ok_def)
  have other: "si_id k \<noteq> si_id i" if "k \<in> bx_rows b - {i}" "i \<in> bx_rows b" for i
    using that inj by (auto simp: inj_on_def)
  show ?thesis
    using st r k by cases (auto simp: sendable_def other failed_copy_def)
qed

definition sent_once :: "box \<Rightarrow> label list \<Rightarrow> bool" where
  "sent_once b tr \<longleftrightarrow> distinct (sent_ids (this_life tr)) \<and> set (sent_ids tr) \<subseteq> set (created_ids tr)
     \<and> (\<forall>i \<in> bx_rows b. si_status i = Pending \<longrightarrow> si_id i \<notin> bx_firing b \<longrightarrow> si_id i \<notin> set (sent_ids (this_life tr)))"

lemma this_life_sent: "set (sent_ids (this_life tr)) \<subseteq> set (sent_ids tr)"
proof -
  have "set (this_life tr) \<subseteq> set tr"
    unfolding this_life_def using set_takeWhileD [of _ "\<lambda>l. l \<noteq> Restarted" "rev tr"] by auto
  then show ?thesis unfolding set_sent_ids subset_iff by blast
qed

lemma fresh_creation:
  assumes ok: "rows_ok b tr" and st: "box_step b ls b'" and c: "Created i \<in> set ls"
  shows "si_id i \<notin> set (created_ids tr)"
proof
  assume "si_id i \<in> set (created_ids tr)"
  then obtain k where k: "Created k \<in> set tr" "si_id k = si_id i" by (auto simp: set_created_ids)
  obtain n where "si_id i = row_id n" "bx_counter b < n" using st c by cases auto
  then show False using ok k by (auto simp: rows_ok_def)
qed

lemma sent_once_step:
  assumes ok: "rows_ok b tr" and o: "sent_once b tr" and st: "box_step b ls b'"
  shows "sent_once b' (tr @ ls)"
proof (cases "Restarted \<in> set ls")
  case True
  with st have l: "ls = [Restarted] \<or> (\<exists>S. ls = [Restarted, Unread S])" by (rule restarted_step)
  have "this_life (tr @ [Restarted, Unread S]) = [Unread S]" for S
    using this_life_snoc(2) [of "tr @ [Restarted]" "Unread S"] by simp
  then show ?thesis using o l by (auto simp: sent_once_def)
next
  case False
  have life: "this_life (tr @ ls) = this_life tr @ ls" using False by (rule this_life_more)
  have ids: "si_id i \<in> set (created_ids tr)" if "i \<in> bx_rows b" for i using ok that by (simp add: rows_ok_def)
  have new: "sent_ids ls = [] \<or> (\<exists>now i. sendable now i b \<and> sent_ids ls = [si_id i])"
  proof (cases "sent_ids ls")
    case (Cons x xs)
    then obtain now i where "Sent now i \<in> set ls" using set_sent_ids [of x ls] by auto
    then show ?thesis using sent_in_step [OF st] by blast
  qed simp
  have "si_id k \<notin> set (sent_ids (this_life tr))" if h: "k \<in> bx_rows b'" "si_status k = Pending" "si_id k \<notin> bx_firing b'" for k
    using pending_after [OF ok st False h]
  proof (elim conjE disjE)
    assume "Created k \<in> set ls"
    then have "si_id k \<notin> set (created_ids tr)" by (rule fresh_creation [OF ok st])
    then show ?thesis using o this_life_sent [of tr] by (auto simp: sent_once_def)
  qed (use o h in \<open>auto simp: sent_once_def\<close>)
  moreover have "si_id k \<notin> set (sent_ids ls)" if h: "k \<in> bx_rows b'" "si_status k = Pending" "si_id k \<notin> bx_firing b'" for k
    using pending_after [OF ok st False h] by blast
  ultimately show ?thesis
    using new o ids by (auto simp: sent_once_def life sendable_def)
qed

text \<open>While no write was lost and no sending cut short nothing is sent twice at all; while every start read all
  files too, memory and disk agree.\<close>

definition settled :: "box \<Rightarrow> label list \<Rightarrow> bool" where
  "settled b tr \<longleftrightarrow> (undisturbed tr \<longrightarrow> bx_firing b = {} \<and> distinct (sent_ids tr)
       \<and> (\<forall>i \<in> bx_rows b \<union> disk_rows b. si_status i = Pending \<longrightarrow> si_id i \<notin> set (sent_ids tr)))
     \<and> (undisturbed tr \<longrightarrow> all_read tr \<longrightarrow> (\<forall>s. bx_kept b s = of_sid s (bx_rows b)))"

lemma undisturbed_step:
  assumes st: "box_step b ls b'" and u: "undisturbed ls" and f: "bx_firing b = {}"
  shows "bx_firing b' = {}"
    and "all_read ls \<Longrightarrow> (\<And>s. bx_kept b s = of_sid s (bx_rows b)) \<Longrightarrow> bx_kept b' s' = of_sid s' (bx_rows b')"
proof -
  show "bx_firing b' = {}" using st u f by cases auto
  assume k: "\<And>s. bx_kept b s = of_sid s (bx_rows b)" and a: "all_read ls"
  have "(\<Union>s. of_sid s (bx_rows b)) = bx_rows b" by (auto simp: of_sid_def)
  with st u a show "bx_kept b' s' = of_sid s' (bx_rows b')"
    by cases (auto simp: k of_sid_def failed_copy_def)
qed

text \<open>A row on disk after a step that sent something was not what it sent.\<close>

lemma disk_after:
  assumes ok: "rows_ok b tr" and st: "box_step b ls b'" and u: "undisturbed ls" and k: "k \<in> disk_rows b'"
  shows "k \<in> bx_rows b' \<or> k \<in> disk_rows b \<and> si_id k \<notin> set (sent_ids ls)"
proof -
  have other: "si_id k \<noteq> si_id i" if "i \<in> bx_rows b" "s' \<noteq> si_sid i" "k \<in> bx_kept b s'" for i s'
  proof
    assume "si_id k = si_id i"
    moreover have "k \<in> disk_rows b" using that by (auto simp: disk_rows_def)
    ultimately have "si_sid i = si_sid k" using ok that(1) by (auto simp: rows_ok_def)
    then show False using ok that by (auto simp: rows_ok_def)
  qed
  have kept: "k \<in> R \<or> (\<exists>s'. s' \<noteq> s \<and> k \<in> bx_kept b s')" if "b' = keep s R b0" "bx_kept b0 = bx_kept b" for s R b0
    using k that by (auto simp: disk_keep of_sid_def)
  have disk: "k \<in> bx_kept b s' \<Longrightarrow> k \<in> disk_rows b" for s' by (auto simp: disk_rows_def)
  show ?thesis
    using st u
  proof cases
    case (deliver now i)
    then show ?thesis using kept [of "si_sid i" "bx_rows b - {i}" b] other disk by (auto simp: sendable_def)
  next
    case (refuse now i j)
    then show ?thesis using kept [of "si_sid i" "insert j (bx_rows b - {i})" b] other disk by (auto simp: sendable_def)
  qed (use k in \<open>auto simp: disk_keep of_sid_def disk_rows_def\<close>)
qed

lemma settled_step:
  assumes ok: "rows_ok b tr" and o: "sent_once b tr" and s: "settled b tr" and st: "box_step b ls b'"
  shows "settled b' (tr @ ls)"
proof -
  have "bx_kept b' s' = of_sid s' (bx_rows b')" if "undisturbed (tr @ ls)" "all_read (tr @ ls)" for s'
    using undisturbed_step(2) [OF st] that s by (auto simp: settled_def)
  moreover have "bx_firing b' = {} \<and> distinct (sent_ids (tr @ ls))
      \<and> (\<forall>i \<in> bx_rows b' \<union> disk_rows b'. si_status i = Pending \<longrightarrow> si_id i \<notin> set (sent_ids (tr @ ls)))"
    if u: "undisturbed (tr @ ls)"
  proof -
    have f: "bx_firing b = {}" and d: "distinct (sent_ids tr)"
      and p: "\<forall>i \<in> bx_rows b \<union> disk_rows b. si_status i = Pending \<longrightarrow> si_id i \<notin> set (sent_ids tr)"
      using s u by (simp_all add: settled_def)
    have u': "undisturbed ls" using u by simp
    note us = undisturbed_step(1) [OF st u' f]
    show ?thesis
    proof (cases "Restarted \<in> set ls")
      case True
      with st have l: "ls = [Restarted] \<or> (\<exists>S. ls = [Restarted, Unread S])" by (rule restarted_step)
      have "bx_rows b' \<subseteq> disk_rows b" "disk_rows b' = disk_rows b"
        using st True by (cases rule: box_step_cases; auto simp: disk_rows_def)+
      moreover have "sent_ids (tr @ ls) = sent_ids tr" using l by auto
      ultimately show ?thesis using us d p by auto
    next
      case False
      have new: "sent_ids ls = [] \<or> (\<exists>now i. sendable now i b \<and> sent_ids ls = [si_id i])"
      proof (cases "sent_ids ls")
        case (Cons x xs)
        then obtain now i where "Sent now i \<in> set ls" using set_sent_ids [of x ls] by auto
        then show ?thesis using sent_in_step [OF st] by blast
      qed simp
      have mem: "si_id i \<notin> set (sent_ids (tr @ ls))" if h: "i \<in> bx_rows b'" "si_status i = Pending" for i
      proof -
        have nf: "si_id i \<notin> bx_firing b'" using us by simp
        note pa = pending_after [OF ok st False h nf]
        have "si_id i \<notin> set (sent_ids tr)"
          using pa
        proof (elim conjE disjE)
          assume "Created i \<in> set ls"
          then have "si_id i \<notin> set (created_ids tr)" by (rule fresh_creation [OF ok st])
          then show ?thesis using o by (auto simp: sent_once_def)
        qed (use p h in auto)
        then show ?thesis using pa by simp
      qed
      have "si_id i \<notin> set (sent_ids (tr @ ls))" if h: "i \<in> disk_rows b'" "si_status i = Pending" for i
        using disk_after [OF ok st u' h(1)] mem h(2) p by auto
      then show ?thesis using us new d p mem by (auto simp: sendable_def)
    qed
  qed
  ultimately show ?thesis by (simp add: settled_def)
qed

section \<open>Cancelled, accounted, bounded\<close>

definition gone :: "utext \<Rightarrow> box \<Rightarrow> bool" where
  "gone x b \<longleftrightarrow> x \<notin> si_id ` (bx_rows b \<union> disk_rows b)"

definition cancelled_gone :: "box \<Rightarrow> label list \<Rightarrow> bool" where
  "cancelled_gone b tr \<longleftrightarrow> (\<forall>x. Cancelled x \<in> set tr \<longrightarrow> gone x b \<and> x \<in> set (created_ids tr))
     \<and> (\<forall>us vs x. tr = us @ vs \<longrightarrow> Cancelled x \<in> set us \<longrightarrow> x \<notin> set (sent_ids vs))"

lemma gone_stays:
  assumes st: "box_step b ls b'" and g: "gone x b" and n: "x \<notin> set (created_ids ls)"
  shows "gone x b'"
  using st
proof (cases rule: box_step_cases)
  case (kept s R)
  have "x \<notin> si_id ` R"
  proof
    assume "x \<in> si_id ` R"
    then obtain k where k: "k \<in> R" "si_id k = x" by blast
    show False
      using st
    proof cases
      case (create i m)
      then show ?thesis using k kept(1) g n by (auto simp: gone_def)
    qed (use k kept(1) g in \<open>auto simp: gone_def failed_copy_def sendable_def disk_rows_def\<close>)
  qed
  moreover have "disk_rows b' \<subseteq> R \<union> disk_rows b"
    using kept(2) by (auto simp: disk_rows_def of_sid_def split: if_splits)
  ultimately show ?thesis using g kept(1) by (auto simp: gone_def)
next
  case (lost i R)
  then have "disk_rows b' = disk_rows b" by (simp add: disk_rows_def)
  moreover have "si_id ` R \<subseteq> si_id ` bx_rows b"
    using lost(4,8) by (auto dest!: failed_copy_simps)
  ultimately show ?thesis using lost(1) g by (auto simp: gone_def)
qed (use g in \<open>auto simp: gone_def disk_rows_def\<close>)

lemma cancel_step:
  assumes ok: "rows_ok b tr" and st: "box_step b ls b'" and c: "Cancelled x \<in> set ls"
  shows "gone x b' \<and> x \<in> set (created_ids tr) \<and> sent_ids ls = []"
proof -
  obtain i where i: "i \<in> bx_rows b" "x = si_id i" "b' = keep (si_sid i) (bx_rows b - {i}) b" "ls = [Cancelled x]"
    using st c by cases auto
  have one: "j = i" if "j \<in> bx_rows b" "si_id j = si_id i" for j
    using ok i(1) that by (auto simp: rows_ok_def inj_on_def)
  have two: "si_id j \<noteq> si_id i" if "s' \<noteq> si_sid i" "j \<in> bx_kept b s'" for j s'
  proof
    assume "si_id j = si_id i"
    moreover have "j \<in> disk_rows b" using that by (auto simp: disk_rows_def)
    ultimately have "si_sid i = si_sid j" using ok i(1) by (auto simp: rows_ok_def)
    then show False using ok that by (auto simp: rows_ok_def)
  qed
  have "x \<notin> si_id ` (bx_rows b - {i})" using one by (auto simp: i(2) image_iff eq_commute [of "si_id i"])
  moreover have "x \<notin> si_id ` {j. \<exists>s'. s' \<noteq> si_sid i \<and> j \<in> bx_kept b s'}"
    using two by (auto simp: i(2) image_iff eq_commute [of "si_id i"])
  ultimately have "gone x b'"
    unfolding gone_def i(3) disk_keep keep_simps of_sid_def by blast
  then show ?thesis using ok i by (auto simp: rows_ok_def)
qed

lemma cancelled_gone_step:
  assumes ok: "rows_ok b tr" and c: "cancelled_gone b tr" and st: "box_step b ls b'"
  shows "cancelled_gone b' (tr @ ls)"
proof -
  have still: "gone x b'" if x: "Cancelled x \<in> set tr" for x
  proof (rule gone_stays [OF st])
    show "gone x b" using c x by (simp add: cancelled_gone_def)
    show "x \<notin> set (created_ids ls)"
    proof
      assume "x \<in> set (created_ids ls)"
      then obtain i where "Created i \<in> set ls" "si_id i = x" by (auto simp: set_created_ids)
      then show False using fresh_creation [OF ok st] c x by (auto simp: cancelled_gone_def)
    qed
  qed
  have "x \<notin> set (sent_ids vs)" if e: "tr @ ls = us @ vs" and x: "Cancelled x \<in> set us" for us vs x
  proof -
    have old: "x \<notin> set (sent_ids ls)" if "Cancelled x \<in> set tr"
    proof
      assume "x \<in> set (sent_ids ls)"
      then obtain now i where "Sent now i \<in> set ls" "si_id i = x" by (auto simp: set_sent_ids)
      then show False using sent_in_step [OF st] c that by (auto simp: cancelled_gone_def gone_def sendable_def)
    qed
    from e consider ws where "us = tr @ ws" "ls = ws @ vs" | ws where "tr = us @ ws" "vs = ws @ ls"
      by (auto simp: append_eq_append_conv2)
    then show ?thesis
    proof cases
      case 1
      then show ?thesis using x old cancel_step [OF ok st, of x] by auto
    next
      case 2
      have "x \<notin> set (sent_ids ws)" using c 2(1) x by (auto simp: cancelled_gone_def)
      then show ?thesis using 2 x old by simp
    qed
  qed
  then show ?thesis
    using still cancel_step [OF ok st] c by (auto simp: cancelled_gone_def)
qed

text \<open>What becomes of a created row: it is accounted for; or the daemon has not read its session since some start,
  its file still holds it and memory holds nothing of that session; or that file was rewritten since.\<close>

definition aside :: "box \<Rightarrow> label list \<Rightarrow> scheduled_item \<Rightarrow> bool" where
  "aside b tr i \<longleftrightarrow> unread_before tr i \<and> si_id i \<in> si_id ` bx_kept b (si_sid i) \<and> of_sid (si_sid i) (bx_rows b) = {}"

definition tracked :: "box \<Rightarrow> label list \<Rightarrow> scheduled_item \<Rightarrow> bool" where
  "tracked b tr i \<longleftrightarrow> accounted (bx_rows b) tr i \<or> aside b tr i \<or> overwritten tr i"

text \<open>A row in memory belongs to the session it was created for.\<close>

definition created_apart :: "box \<Rightarrow> label list \<Rightarrow> bool" where
  "created_apart b tr \<longleftrightarrow> (\<forall>i k. Created i \<in> set tr \<longrightarrow> k \<in> bx_rows b \<union> disk_rows b \<longrightarrow> si_id k = si_id i \<longrightarrow> si_sid k = si_sid i)"

lemma created_apart_step:
  assumes ok: "rows_ok b tr" and a: "created_apart b tr" and st: "box_step b ls b'"
  shows "created_apart b' (tr @ ls)"
proof -
  have rid: "k \<in> bx_rows b \<union> disk_rows b \<Longrightarrow> si_id k \<in> set (created_ids tr)" for k using ok by (simp add: rows_ok_def)
  have fresh: "si_id i \<notin> set (created_ids tr)" if "Created i \<in> set ls" for i by (rule fresh_creation [OF ok st that])
  have only: "i = j" if "Created i \<in> set ls" "Created j \<in> set ls" for i j using st that by cases auto
  have from_old: "Created k \<in> set ls \<or> (\<exists>k0 \<in> bx_rows b \<union> disk_rows b. si_id k0 = si_id k \<and> si_sid k0 = si_sid k)"
    if "k \<in> bx_rows b' \<union> disk_rows b'" for k
  proof -
    have mem: "Created m \<in> set ls \<or> (\<exists>k0 \<in> bx_rows b \<union> disk_rows b. si_id k0 = si_id m \<and> si_sid k0 = si_sid m)"
      if m: "m \<in> bx_rows b'" for m
      using st
    proof cases
      case (refuse now i j)
      then show ?thesis using replaced_old [of m j "bx_rows b" i] m by (auto simp: sendable_def)
    next
      case (refuse_lost now i j)
      then show ?thesis using replaced_old [of m j "bx_rows b" i] m by (auto simp: sendable_def)
    next
      case (expire i j)
      then show ?thesis using replaced_old [of m j "bx_rows b" i] m by auto
    next
      case (expire_lost i j)
      then show ?thesis using replaced_old [of m j "bx_rows b" i] m by auto
    qed (use m in \<open>auto simp: disk_rows_def\<close>)
    have "disk_rows b' \<subseteq> bx_rows b' \<union> disk_rows b"
      using st by (cases rule: box_step_cases) (auto simp: disk_rows_def of_sid_def split: if_splits)
    then show ?thesis using mem [of k] that by auto
  qed
  have old: "Created i \<in> set tr \<Longrightarrow> si_id i \<in> set (created_ids tr)" for i by (auto simp: set_created_ids)
  show ?thesis
    unfolding created_apart_def
  proof (intro allI impI)
    fix i k assume h: "Created i \<in> set (tr @ ls)" "k \<in> bx_rows b' \<union> disk_rows b'" "si_id k = si_id i"
    from from_old [OF h(2)] show "si_sid k = si_sid i"
    proof
      assume k: "Created k \<in> set ls"
      then have "Created i \<in> set ls" using h(1,3) fresh [OF k] old [of i] by auto
      then show ?thesis using only k by blast
    next
      assume "\<exists>k0 \<in> bx_rows b \<union> disk_rows b. si_id k0 = si_id k \<and> si_sid k0 = si_sid k"
      then obtain k0 where k0: "k0 \<in> bx_rows b \<union> disk_rows b" "si_id k0 = si_id k" "si_sid k0 = si_sid k" by blast
      then have "Created i \<in> set tr" using h(1,3) rid [OF k0(1)] fresh [of i] by auto
      then show ?thesis using a k0 h(3) unfolding created_apart_def by metis
    qed
  qed
qed

lemma accounted_row: "k \<in> rows \<Longrightarrow> si_id k = si_id i \<Longrightarrow> accounted rows tr i"
  unfolding accounted_def by (metis imageI)

lemma still_accounted:
  assumes st: "box_step b ls b'" and r: "Restarted \<notin> set ls" and k: "k \<in> bx_rows b" "si_id k = si_id i"
  shows "tracked b' (tr @ ls) i"
proof -
  have x: "si_id i \<in> si_id ` bx_rows b" using k by (metis imageI)
  have "si_id i \<in> si_id ` bx_rows b' \<or> si_id i \<in> set (sent_ids ls) \<or> Cancelled (si_id i) \<in> set ls
      \<or> (\<exists>j. Reported j \<in> set ls \<and> si_id j = si_id i)"
    using st
  proof cases
  qed (use x r in \<open>auto dest!: failed_copy_simps\<close>)
  then have "accounted (bx_rows b') (tr @ ls) i" unfolding accounted_def sent_ids_simps set_append by blast
  then show ?thesis by (simp add: tracked_def)
qed

lemma tracked_step:
  assumes ok: "rows_ok b tr" and d: "durable b" and st: "box_step b ls b'"
    and t: "tracked b tr i" and c: "Created i \<in> set tr" and one: "created_apart b tr"
  shows "tracked b' (tr @ ls) i"
proof -
  consider "accounted (bx_rows b) tr i" | "aside b tr i" | "overwritten tr i" using t by (auto simp: tracked_def)
  then show ?thesis
  proof cases
    case 1
    then consider (mem) k where "k \<in> bx_rows b" "si_id k = si_id i" | (past) "accounted {} tr i" by (auto simp: accounted_def)
    then show ?thesis
    proof cases
      case past
      then show ?thesis by (auto simp: tracked_def accounted_def)
    next
      case (mem k)
      have sid: "si_sid k = si_sid i" using one mem c unfolding created_apart_def by blast
      obtain j where j: "j \<in> bx_kept b (si_sid i)" "si_id j = si_id i" using d mem sid by (auto simp: durable_def)
      show ?thesis
        using st
      proof cases
        case restart
        then have "j \<in> bx_rows b'" using j by auto
        then show ?thesis unfolding tracked_def by (intro disjI1) (rule accounted_row [OF _ j(2)])
      next
        case (restart_partly S)
        show ?thesis
        proof (cases "si_sid i \<in> S")
          case True
          have "of_sid (si_sid i) (bx_rows b') = {}" using restart_partly True ok by (auto simp: of_sid_def rows_ok_def)
          moreover have "si_id i \<in> si_id ` bx_kept b' (si_sid i)" using restart_partly j by (auto intro: rev_image_eqI)
          ultimately have "aside b' (tr @ ls) i" using restart_partly True by (auto simp: aside_def unread_before_def)
          then show ?thesis by (simp add: tracked_def)
        next
          case False
          then have "j \<in> bx_rows b'" using restart_partly j by auto
          then show ?thesis unfolding tracked_def by (intro disjI1) (rule accounted_row [OF _ j(2)])
        qed
      qed (rule still_accounted [OF st _ mem]; simp)+
    qed
  next
    case 2
    then have u: "unread_before tr i" and f: "si_id i \<in> si_id ` bx_kept b (si_sid i)" and n: "of_sid (si_sid i) (bx_rows b) = {}"
      by (simp_all add: aside_def)
    have no: False if "k \<in> bx_rows b" "si_sid i = si_sid k" for k using n that by (auto simp: of_sid_def)
    have u': "unread_before (tr @ ls) i" using u by (simp add: unread_before_more)
    show ?thesis
      using st
    proof cases
      case (create j n)
      show ?thesis
      proof (cases "si_sid j = si_sid i")
        case True
        then have "overwritten (tr @ ls) i" using overwritten_now [OF u, of j ls] create by simp
        then show ?thesis by (simp add: tracked_def)
      next
        case False
        then have "aside b' (tr @ ls) i" using create u' f n by (auto simp: aside_def of_sid_def)
        then show ?thesis by (simp add: tracked_def)
      qed
    next
      case restart
      obtain j where j: "j \<in> bx_kept b (si_sid i)" "si_id j = si_id i" using f by auto
      then have "j \<in> bx_rows b'" using restart by auto
      then show ?thesis unfolding tracked_def by (intro disjI1) (rule accounted_row [OF _ j(2)])
    next
      case (restart_partly S)
      show ?thesis
      proof (cases "si_sid i \<in> S")
        case True
        have "of_sid (si_sid i) (bx_rows b') = {}" using restart_partly True ok by (auto simp: of_sid_def rows_ok_def)
        then show ?thesis using restart_partly u' f by (simp add: tracked_def aside_def)
      next
        case False
        obtain j where j: "j \<in> bx_kept b (si_sid i)" "si_id j = si_id i" using f by auto
        then have "j \<in> bx_rows b'" using restart_partly False by auto
        then show ?thesis unfolding tracked_def by (intro disjI1) (rule accounted_row [OF _ j(2)])
      qed
    qed (use u' f n in \<open>auto simp: tracked_def aside_def of_sid_def sendable_def dest: no dest!: failed_copy_simps\<close>)
  next
    case 3
    then show ?thesis using overwritten_more by (simp add: tracked_def)
  qed
qed

lemma created_tracked:
  assumes st: "box_step b ls b'" and c: "Created i \<in> set ls"
  shows "tracked b' (tr @ ls) i"
proof -
  have "i \<in> bx_rows b'" using st c by cases auto
  then show ?thesis by (simp add: tracked_def accounted_def)
qed

definition within_cap :: "box \<Rightarrow> bool" where
  "within_cap b \<longleftrightarrow> (\<forall>s. card (pending_of s (bx_rows b)) \<le> MAX_PENDING_PER_SID
     \<and> card (pending_of s (bx_kept b s)) \<le> MAX_PENDING_PER_SID)"

lemma pending_of_sid [simp]: "pending_of s (of_sid s R) = pending_of s R"
  by (auto simp: pending_of_def of_sid_def)

lemma pending_of_sub:
  assumes "finite R" "\<And>k. k \<in> R' \<Longrightarrow> si_status k = Pending \<Longrightarrow> k \<in> R" "card (pending_of s R) \<le> n"
  shows "card (pending_of s R') \<le> n"
proof -
  have "pending_of s R' \<subseteq> pending_of s R" "finite (pending_of s R)" using assms(1,2) by (auto simp: pending_of_def)
  then have "card (pending_of s R') \<le> card (pending_of s R)" by (intro card_mono)
  then show ?thesis using assms(3) by simp
qed

lemma within_cap_step:
  assumes ok: "rows_ok b tr" and w: "within_cap b" and st: "box_step b ls b'"
  shows "within_cap b'"
proof -
  note fin = rows_finite [OF ok]
  have sub: "card (pending_of s R) \<le> MAX_PENDING_PER_SID"
    if "\<And>k. k \<in> R \<Longrightarrow> si_status k = Pending \<Longrightarrow> k \<in> bx_rows b" for s R
    by (rule pending_of_sub [OF fin(1) that]) (use w in \<open>simp_all add: within_cap_def\<close>)
  have rows: "card (pending_of s (bx_rows b')) \<le> MAX_PENDING_PER_SID" for s
    using st
  proof cases
    case (create i n)
    have "pending_of s (insert i (bx_rows b)) = (if s = si_sid i then insert i (pending_of s (bx_rows b)) else pending_of s (bx_rows b))"
      using create(3) by (auto simp: pending_of_def)
    moreover have "finite (pending_of s (bx_rows b))" using fin(1) by (simp add: pending_of_def)
    ultimately show ?thesis using create(2,6) w by (auto simp: within_cap_def card_insert_if)
  next
    case restart
    have "pending_of s (\<Union>s. bx_kept b s) = pending_of s (bx_kept b s)"
      using ok by (auto simp: rows_ok_def pending_of_def)
    then show ?thesis using restart w by (simp add: within_cap_def)
  next
    case (restart_partly S)
    have "pending_of s (\<Union>s \<in> - S. bx_kept b s) \<subseteq> pending_of s (bx_kept b s)"
      using ok by (auto simp: rows_ok_def pending_of_def)
    moreover have "finite (pending_of s (bx_kept b s))" using fin(3) [of s] by (simp add: pending_of_def)
    ultimately have "card (pending_of s (\<Union>s \<in> - S. bx_kept b s)) \<le> card (pending_of s (bx_kept b s))" by (intro card_mono)
    also have "\<dots> \<le> MAX_PENDING_PER_SID" using w by (simp add: within_cap_def)
    finally show ?thesis using restart_partly by simp
  qed (auto simp: failed_copy_def intro!: sub)
  have "bx_kept b' s = bx_kept b s \<or> bx_kept b' s = of_sid s (bx_rows b')" for s
    using st by cases auto
  then show ?thesis using rows w unfolding within_cap_def by (metis pending_of_sid)
qed

section \<open>Reachable boxes\<close>

definition box_ok :: "box \<Rightarrow> label list \<Rightarrow> bool" where
  "box_ok b tr \<longleftrightarrow> rows_ok b tr \<and> durable b \<and> as_created b tr \<and> sent_once b tr \<and> settled b tr
     \<and> cancelled_gone b tr \<and> created_apart b tr \<and> (\<forall>i. Created i \<in> set tr \<longrightarrow> tracked b tr i) \<and> within_cap b
     \<and> distinct (created_ids tr)
     \<and> (\<forall>now i. Sent now i \<in> set tr \<longrightarrow> Created i \<in> set tr \<and> si_send_at i \<le> now
          \<and> now \<le> si_send_at i + MAX_CATCH_UP_AGE)"

lemma box_ok_step:
  assumes ok: "box_ok b tr" and st: "box_step b ls b'"
  shows "box_ok b' (tr @ ls)"
proof -
  have r: "rows_ok b tr" using ok by (simp add: box_ok_def)
  have "distinct (created_ids (tr @ ls))"
  proof -
    have "created_ids ls = [] \<or> (\<exists>i. Created i \<in> set ls \<and> created_ids ls = [si_id i])" using st by cases auto
    then show ?thesis using ok fresh_creation [OF r st] by (auto simp: box_ok_def)
  qed
  moreover have "Created i \<in> set (tr @ ls) \<and> si_send_at i \<le> now \<and> now \<le> si_send_at i + MAX_CATCH_UP_AGE"
    if "Sent now i \<in> set (tr @ ls)" for now i
  proof (cases "Sent now i \<in> set tr")
    case True
    then show ?thesis using ok by (auto simp: box_ok_def)
  next
    case False
    then have "sendable now i b" using that sent_in_step [OF st] by auto
    then show ?thesis using ok by (auto simp: box_ok_def sendable_def as_created_def)
  qed
  moreover have "tracked b' (tr @ ls) i" if "Created i \<in> set (tr @ ls)" for i
    using tracked_step [OF r _ st, of i] created_tracked [OF st, of i tr] that ok by (auto simp: box_ok_def)
  moreover have "cancelled_gone b' (tr @ ls)" using cancelled_gone_step [OF r _ st] ok by (simp add: box_ok_def)
  ultimately show ?thesis
    using ok rows_ok_step [OF r st] durable_step [OF r _ st] as_created_step [OF _ st] sent_once_step [OF r _ st]
      settled_step [OF r _ _ st] created_apart_step [OF r _ st] within_cap_step [OF r _ st]
    unfolding box_ok_def by blast
qed

lemma empty_box_ok: "box_ok empty_box []"
  by (simp add: box_ok_def empty_box_def rows_ok_def durable_def as_created_def sent_once_def settled_def
      cancelled_gone_def created_apart_def within_cap_def disk_rows_def pending_of_def of_sid_def)

lemma box_reach_ok: "box_reach b tr \<Longrightarrow> box_ok b tr"
  by (induction rule: box_reach.induct) (simp_all add: empty_box_ok box_ok_step)

end
