(* ===== verification/Scheduled_Refinement.thy ===== *)
theory Scheduled_Refinement
  imports Scheduled_Spec
begin

text \<open>
  The gateway's operations on scheduled messages refine the abstract box: every operation, whichever of
  its file-system calls fail and whatever becomes of the submitted turns, is a sequence of steps of the
  box, from the state's box to the new state's box, with the labels the operation's events stand for. Also
  here: the round trip of a session's file.
\<close>

section \<open>Files\<close>

lemma as_status_round [simp]: "as_status (JStr (status_as_str s)) = Some s"
  by (cases s) (simp_all add: as_status_def status_as_str_def)

lemma members_item: "\<exists>kvs. item_to_json shw i = JObj kvs
   \<and> (\<forall>known. members known (item_to_json shw i) = Some kvs)"
proof -
  let ?ks = "[''id'', ''sid'', ''project'', ''text'', ''send_at'', ''created_at'', ''created_by'', ''status'']
     @ opt_name ''fail_reason'' (si_fail_reason i) @ opt_name ''failed_at'' (si_failed_at i)
     @ opt_name ''reply_channel'' (si_reply_channel i) @ opt_name ''reply_chat_id'' (si_reply_chat_id i)"
  obtain kvs where kvs: "item_to_json shw i = JObj kvs" by (simp add: item_to_json_def)
  have "map fst kvs = map lit ?ks" using kvs by (auto simp: item_to_json_def)
  moreover have "distinct ?ks" by auto
  ultimately show ?thesis using members_lit kvs by metis
qed

lemma item_round_trip:
  assumes c: "\<And>t. rd (shw t) = Some t"
  shows "item_of_json rd (item_to_json shw i) = Some i"
proof -
  obtain kvs where j: "item_to_json shw i = JObj kvs"
    and m: "\<And>known. members known (item_to_json shw i) = Some kvs"
    using members_item by metis
  have kvs: "kvs = (case item_to_json shw i of JObj l \<Rightarrow> l)" by (simp add: j)
  note look = kvs item_to_json_def map_of_opt_member map_add_apply
  have tm: "as_time rd (JStr (shw t)) = Some t" for t by (simp add: as_time_def c)
  have plain: "field ''id'' as_text kvs = Some (si_id i)"
    "field ''sid'' as_text kvs = Some (si_sid i)"
    "field ''project'' as_text kvs = Some (si_project i)"
    "field ''text'' as_text kvs = Some (si_text i)"
    "field ''send_at'' (as_time rd) kvs = Some (si_send_at i)"
    "field ''created_at'' (as_time rd) kvs = Some (si_created_at i)"
    "field ''created_by'' as_text kvs = Some (si_created_by i)"
    "field ''status'' as_status kvs = Some (si_status i)"
    by (simp_all add: look field_def tm)
  have opts: "field_opt ''fail_reason'' as_text kvs = Some (si_fail_reason i)"
    "field_opt ''reply_channel'' as_text kvs = Some (si_reply_channel i)"
    "field_opt ''reply_chat_id'' as_text kvs = Some (si_reply_chat_id i)"
    by (intro field_opt_value [where g = JStr]; simp add: look split: option.splits)+
  have at: "field_opt ''failed_at'' (as_time rd) kvs = Some (si_failed_at i)"
    by (rule field_opt_value [where g = "\<lambda>t. JStr (shw t)"])
      (auto simp: look tm split: option.splits)
  show ?thesis
    unfolding item_of_json_def m by (simp add: plain opts at)
qed

lemma read_scheduled_file:
  assumes c: "\<And>t. rd (shw t) = Some t"
  shows "read_scheduled rd (JsonFile (scheduled_file shw items)) = Some (sort_key scheduled_order items)"
proof -
  have "as_list (item_of_json rd) (JArr (map (item_to_json shw) items)) = Some (map id items)"
    by (rule as_list_JArr) (simp add: item_round_trip [of rd shw, OF c])
  then show ?thesis
    by (simp add: read_scheduled_def scheduled_file_def members_def field_default_def)
qed

section \<open>Ordered maps\<close>

abbreviation ordered :: "(utext \<times> 'v) list \<Rightarrow> bool" where
  "ordered m \<equiv> sorted_wrt (<) (map fst m)"

lemma set_bt_insert: "ordered m \<Longrightarrow> set (bt_insert k v m) = insert (k, v) {p \<in> set m. fst p \<noteq> k}"
proof (induction m)
  case (Cons p m)
  then show ?case by (cases p) force
qed simp

lemma keys_bt_insert: "fst ` set (bt_insert k v m) = insert k (fst ` set m)"
proof (induction m)
  case (Cons p m)
  then show ?case by (cases p) (simp add: insert_commute)
qed simp

lemma ordered_bt_insert: "ordered m \<Longrightarrow> ordered (bt_insert k v m)"
proof (induction m)
  case (Cons p m)
  obtain a b where p: "p = (a, b)" by (cases p)
  consider "k < a" | "k = a" | "a < k" by (rule linorder_cases)
  then show ?case
  proof cases
    case 1
    then show ?thesis using Cons.prems by (auto simp: p intro: less_trans)
  next
    case 3
    then have "\<not> k < a" "k \<noteq> a" by auto
    then show ?thesis using Cons 3 by (simp add: p keys_bt_insert)
  qed (use Cons.prems in \<open>simp add: p\<close>)
qed simp

lemma ordered_bt_remove: "ordered m \<Longrightarrow> ordered (bt_remove k m)"
  by (induction m) (auto simp: bt_remove_def)

lemma set_bt_remove: "set (bt_remove k m) = {p \<in> set m. fst p \<noteq> k}"
  by (auto simp: bt_remove_def)

lemma ordered_map_of: "ordered m \<Longrightarrow> map_of m k = Some v \<longleftrightarrow> (k, v) \<in> set m"
proof -
  assume "ordered m"
  then have "distinct (map fst m)" by (simp add: strict_sorted_iff)
  then show ?thesis by simp
qed

section \<open>The box of a state\<close>

text \<open>Each session has one project and one directory, \<^term>\<open>home\<close>; times survive writing and reading.\<close>

definition rows_in :: "sched_gateway \<Rightarrow> scheduled_item set" where
  "rows_in g = se_item ` set (entries_of g)"

definition kept_in :: "(utext \<Rightarrow> int option) \<Rightarrow> (sid \<Rightarrow> utext \<times> utext) \<Rightarrow> sched_disk \<Rightarrow> sid \<Rightarrow> scheduled_item set" where
  "kept_in rd home d s = set (the (read_scheduled rd (sd_files d (snd (home s), s))))"

definition counter_value :: "sched_disk \<Rightarrow> nat" where
  "counter_value d = (case sd_counter d of None \<Rightarrow> 0 | Some raw \<Rightarrow> (case parse_u64 (trim raw) of None \<Rightarrow> 0 | Some n \<Rightarrow> n))"

definition box_of :: "(utext \<Rightarrow> int option) \<Rightarrow> (sid \<Rightarrow> utext \<times> utext) \<Rightarrow> sched_state \<Rightarrow> box" where
  "box_of rd home st = \<lparr> bx_rows = rows_in (fst st), bx_kept = kept_in rd home (snd st),
     bx_counter = counter_value (snd st), bx_firing = sg_firing (fst st) \<rparr>"

definition sched_ok :: "(sid \<Rightarrow> utext \<times> utext) \<Rightarrow> sched_gateway \<Rightarrow> bool" where
  "sched_ok home g \<longleftrightarrow> ordered (sg_items g) \<and> sg_counter_path g
     \<and> (\<forall>p \<in> set (sg_items g). fst p = si_id (se_item (snd p))
          \<and> (si_project (se_item (snd p)), se_dir (snd p)) = home (si_sid (se_item (snd p))))"

definition disk_ok :: "(utext \<Rightarrow> int option) \<Rightarrow> (sid \<Rightarrow> utext \<times> utext) \<Rightarrow> sched_disk \<Rightarrow> bool" where
  "disk_ok rd home d \<longleftrightarrow>
     (\<forall>s. \<exists>l. read_scheduled rd (sd_files d (snd (home s), s)) = Some l
        \<and> (\<forall>i \<in> set l. si_sid i = s \<and> si_project i = fst (home s)))
     \<and> (sd_counter d = None \<or> (\<exists>c < 2 ^ 64. sd_counter d = Some (dec c)))"

definition st_ok :: "(utext \<Rightarrow> int option) \<Rightarrow> (sid \<Rightarrow> utext \<times> utext) \<Rightarrow> sched_state \<Rightarrow> bool" where
  "st_ok rd home st \<longleftrightarrow> sched_ok home (fst st) \<and> disk_ok rd home (snd st) \<and> counter_value (snd st) \<le> sg_next (fst st)"

lemma rows_in_iff: "i \<in> rows_in g \<longleftrightarrow> (\<exists>p \<in> set (sg_items g). se_item (snd p) = i)"
  by (auto simp: rows_in_def entries_of_def image_iff)

lemma gw_entry:
  assumes "sched_ok home g" "e \<in> set (entries_of g)"
  shows "map_of (sg_items g) (si_id (se_item e)) = Some e" "se_dir e = snd (home (si_sid (se_item e)))"
    "si_project (se_item e) = fst (home (si_sid (se_item e)))"
proof -
  obtain p where p: "p \<in> set (sg_items g)" "snd p = e" using assms(2) by (auto simp: entries_of_def)
  then have h: "fst p = si_id (se_item e)" "(si_project (se_item e), se_dir e) = home (si_sid (se_item e))"
    using assms(1) by (auto simp: sched_ok_def)
  have "p = (fst p, e)" using p(2) by (cases p) simp
  then show "map_of (sg_items g) (si_id (se_item e)) = Some e"
    using assms(1) p h by (simp add: sched_ok_def ordered_map_of)
  show "se_dir e = snd (home (si_sid (se_item e)))" "si_project (se_item e) = fst (home (si_sid (se_item e)))"
    using h(2) [symmetric] by simp_all
qed

lemma entry_known:
  assumes "sched_ok home g" "map_of (sg_items g) x = Some e"
  shows "e \<in> set (entries_of g)" "si_id (se_item e) = x"
  using assms map_of_SomeD [OF assms(2)] by (force simp: sched_ok_def entries_of_def)+

lemma gw_same_id:
  assumes "sched_ok home g" "e \<in> set (entries_of g)" "e' \<in> set (entries_of g)" "si_id (se_item e) = si_id (se_item e')"
  shows "e = e'"
proof -
  have "map_of (sg_items g) (si_id (se_item e)) = Some e'"
    unfolding assms(4) by (rule gw_entry(1) [OF assms(1,3)])
  then show ?thesis using gw_entry(1) [OF assms(1,2)] by simp
qed

lemma entries_not: "sched_ok home g
  \<Longrightarrow> snd ` {p \<in> set (sg_items g). fst p \<noteq> x} = {e \<in> set (entries_of g). si_id (se_item e) \<noteq> x}"
proof -
  assume "sched_ok home g"
  then have "{p \<in> set (sg_items g). fst p \<noteq> x} = {p \<in> set (sg_items g). si_id (se_item (snd p)) \<noteq> x}"
    by (auto simp: sched_ok_def)
  then show ?thesis by (auto simp: entries_of_def)
qed

lemma entries_drop: "sched_ok home g \<Longrightarrow> set (entries_of (drop_item x g)) = {e \<in> set (entries_of g). si_id (se_item e) \<noteq> x}"
  using entries_not [of home g x] by (simp add: drop_item_def entries_of_def set_bt_remove)

lemma entries_put:
  "sched_ok home g \<Longrightarrow> set (entries_of (put_item e g)) = insert e {e' \<in> set (entries_of g). si_id (se_item e') \<noteq> si_id (se_item e)}"
  using entries_not [of home g "si_id (se_item e)"]
  by (simp add: put_item_def entries_of_def set_bt_insert sched_ok_def)

lemma sched_ok_drop: "sched_ok home g \<Longrightarrow> sched_ok home (drop_item x g)"
  by (simp add: sched_ok_def drop_item_def ordered_bt_remove set_bt_remove)

lemma sched_ok_put:
  "sched_ok home g \<Longrightarrow> (si_project (se_item e), se_dir e) = home (si_sid (se_item e)) \<Longrightarrow> sched_ok home (put_item e g)"
  by (simp add: sched_ok_def put_item_def ordered_bt_insert set_bt_insert)

lemma put_back:
  assumes g: "sched_ok home g" and e: "e \<in> set (entries_of g)"
  shows "set (entries_of (put_item e (drop_item (si_id (se_item e)) g))) = set (entries_of g)"
  using entries_put [OF sched_ok_drop [OF g], of e] entries_drop [OF g] gw_same_id [OF g _ e] e by auto

lemma rows_drop:
  assumes g: "sched_ok home g" and e: "e \<in> set (entries_of g)"
  shows "rows_in (drop_item (si_id (se_item e)) g) = rows_in g - {se_item e}"
proof -
  have "{e' \<in> set (entries_of g). si_id (se_item e') \<noteq> si_id (se_item e)} = set (entries_of g) - {e}"
    using gw_same_id [OF g _ e] by auto
  moreover have "se_item e' = se_item e \<longleftrightarrow> e' = e" if "e' \<in> set (entries_of g)" for e'
    using gw_same_id [OF g that e] by auto
  ultimately show ?thesis unfolding rows_in_def entries_drop [OF g] by auto
qed

lemma rows_put:
  assumes g: "sched_ok home g" and e: "e \<in> set (entries_of g)" and j: "si_id (se_item e') = si_id (se_item e)"
  shows "rows_in (put_item e' g) = insert (se_item e') (rows_in g - {se_item e})"
  using rows_drop [OF g e] by (simp add: rows_in_def entries_put [OF g] entries_drop [OF g] j)

text \<open>Writing the file of a session.\<close>

lemma persist_box:
  assumes c: "\<And>t. rd (shw t) = Some t" and d: "disk_ok rd home d" and g: "sched_ok home g"
    and dir: "dir = snd (home s)" and p: "persist_scheduled_sid io shw dir s (g, d) = (st', ok)"
  shows "fst st' = g" "disk_ok rd home (snd st')" "counter_value (snd st') = counter_value d"
    "ok \<Longrightarrow> kept_in rd home (snd st') = (kept_in rd home d)(s := of_sid s (rows_in g))"
    "\<not> ok \<Longrightarrow> snd st' = d"
proof -
  have items: "set (items_of_sid g s) = of_sid s (rows_in g)"
    by (auto simp: items_of_sid_def of_sid_def rows_in_def)
  have proj: "si_project i = fst (home s)" if "i \<in> of_sid s (rows_in g)" for i
    using that gw_entry(3) [OF g] by (auto simp: of_sid_def rows_in_def)
  let ?f = "JsonFile (scheduled_file shw (items_of_sid g s))"
  have rdf: "read_scheduled rd ?f = Some (sort_key scheduled_order (items_of_sid g s))"
    by (rule read_scheduled_file) (rule c)
  consider "\<not> ok" "st' = (g, d)" | "\<not> ok" "st' = (g, d \<lparr> sd_files := (sd_files d)((dir, s) := sd_files d (dir, s)) \<rparr>)"
    | "ok" "st' = (g, d \<lparr> sd_files := (sd_files d)((dir, s) := ?f) \<rparr>)"
    using p by (cases "fs_mkdir_ok io"; cases "atomic_write_ok io")
      (auto simp: persist_scheduled_sid_def write_scheduled_def atomic_write_durable_def atomic_write_ok_def
        split: if_splits)
  then have "fst st' = g \<and> disk_ok rd home (snd st') \<and> counter_value (snd st') = counter_value d
     \<and> (if ok then kept_in rd home (snd st') = (kept_in rd home d)(s := of_sid s (rows_in g)) else snd st' = d)"
  proof cases
    case 3
    have "\<exists>l. read_scheduled rd (sd_files (snd st') (snd (home s'), s')) = Some l
        \<and> (\<forall>i \<in> set l. si_sid i = s' \<and> si_project i = fst (home s'))" for s'
      using d proj rdf items by (cases "s' = s") (auto simp: 3 dir disk_ok_def of_sid_def)
    then have "disk_ok rd home (snd st')" using d by (simp add: disk_ok_def 3)
    moreover have "kept_in rd home (snd st') = (kept_in rd home d)(s := of_sid s (rows_in g))"
    proof
      fix s'
      show "kept_in rd home (snd st') s' = ((kept_in rd home d)(s := of_sid s (rows_in g))) s'"
        using rdf items by (cases "s' = s") (simp_all add: kept_in_def 3 dir)
    qed
    ultimately show ?thesis by (simp add: 3 counter_value_def)
  qed (simp_all add: d counter_value_def)
  then show "fst st' = g" "disk_ok rd home (snd st')" "counter_value (snd st') = counter_value d"
    "ok \<Longrightarrow> kept_in rd home (snd st') = (kept_in rd home d)(s := of_sid s (rows_in g))"
    "\<not> ok \<Longrightarrow> snd st' = d" by auto
qed

section \<open>Operations as runs of the box\<close>

inductive box_run :: "box \<Rightarrow> label list \<Rightarrow> box \<Rightarrow> bool" where
  run_stop: "box_run b [] b"
| run_more: "box_run b ls b1 \<Longrightarrow> box_step b1 ls' b2 \<Longrightarrow> box_run b (ls @ ls') b2"

lemma box_run_one: "box_step b ls b' \<Longrightarrow> box_run b ls b'"
  using run_more [OF run_stop] by simp

lemma box_run_trans: "box_run b2 ls' b3 \<Longrightarrow> box_run b1 ls b2 \<Longrightarrow> box_run b1 (ls @ ls') b3"
proof (induction rule: box_run.induct)
  case (run_more b l1 b1' l2 b2')
  then show ?case using box_run.run_more [of b1 "ls @ l1" b1' l2 b2'] by simp
qed simp

lemma box_reach_run: "box_run b ls b' \<Longrightarrow> box_reach b tr \<Longrightarrow> box_reach b' (tr @ ls)"
proof (induction rule: box_run.induct)
  case (run_more b ls b1 ls' b2)
  then show ?case using box_more [of b1 "tr @ ls" ls' b2] by simp
qed simp

text \<open>What an event says to the outside, for a pass that runs at \<open>now\<close>.\<close>

fun label_of :: "int \<Rightarrow> sched_event \<Rightarrow> label list" where
  "label_of now (Submit _ i) = [Sent now i]"
| "label_of now (Warned _ x) = (if x = [] then [] else [Lost x])"
| "label_of now (Changed i) = (if si_status i = FailedRow then [Reported i] else [])"
| "label_of now _ = []"

definition labels_of :: "int \<Rightarrow> sched_event list \<Rightarrow> label list" where
  "labels_of now evs = concat (map (label_of now) evs)"

lemma labels_of_simps [simp]:
  "labels_of now [] = []" "labels_of now (ev # evs) = label_of now ev @ labels_of now evs"
  "labels_of now (xs @ ys) = labels_of now xs @ labels_of now ys"
  "labels_of now (emit_scheduled_progress g i e r) = []"
  by (simp_all add: labels_of_def emit_scheduled_progress_def)

text \<open>Collecting failed rows and firing due ones are passes over a list of jobs known by their keys: doing one
  job leaves the others ready.\<close>

locale pass =
  fixes job :: "'x \<Rightarrow> 's \<times> 'e list \<Rightarrow> 's \<times> 'e list"
    and key :: "'x \<Rightarrow> 'k"
    and ready :: "'s \<Rightarrow> 'x \<Rightarrow> bool"
    and ok :: "'s \<Rightarrow> bool"
    and run :: "'s \<Rightarrow> 'e list \<Rightarrow> 's \<Rightarrow> bool"
  assumes run_refl: "run s [] s"
    and run_comp: "run s as t \<Longrightarrow> run t bs u \<Longrightarrow> run s (as @ bs) u"
    and job_runs: "ok s \<Longrightarrow> ready s x \<Longrightarrow> job x (s, es) = (s', es')
      \<Longrightarrow> \<exists>new. es' = es @ new \<and> ok s' \<and> run s new s' \<and> (\<forall>y. key y \<noteq> key x \<longrightarrow> ready s y \<longrightarrow> ready s' y)"
begin

lemma pass_runs:
  assumes "ok s" "\<And>x. x \<in> set xs \<Longrightarrow> ready s x" "distinct (map key xs)" "fold job xs (s, es) = (s', es')"
  shows "\<exists>new. es' = es @ new \<and> ok s' \<and> run s new s'
    \<and> (\<forall>y. key y \<notin> key ` set xs \<longrightarrow> ready s y \<longrightarrow> ready s' y)"
  using assms
proof (induction xs arbitrary: s es)
  case Nil
  then show ?case using run_refl by simp
next
  case (Cons x xs)
  obtain s1 es1 where j: "job x (s, es) = (s1, es1)" by (cases "job x (s, es)")
  obtain n1 where n1: "es1 = es @ n1" "ok s1" "run s n1 s1" "\<forall>y. key y \<noteq> key x \<longrightarrow> ready s y \<longrightarrow> ready s1 y"
    using job_runs [OF Cons.prems(1) _ j] Cons.prems(2) by auto
  have rest: "fold job xs (s1, es1) = (s', es')" using Cons.prems(4) j by simp
  have "ready s1 y" if "y \<in> set xs" for y
  proof -
    have "key y \<noteq> key x" using Cons.prems(3) that by (metis distinct.simps(2) image_eqI list.map(2) list.set_map)
    then show ?thesis using n1(4) Cons.prems(2) that by simp
  qed
  then obtain n2 where n2: "es' = es1 @ n2" "ok s'" "run s1 n2 s'"
      "\<forall>y. key y \<notin> key ` set xs \<longrightarrow> ready s1 y \<longrightarrow> ready s' y"
    using Cons.IH [OF n1(2) _ _ rest] Cons.prems(3) by auto
  show ?case
    by (rule exI [of _ "n1 @ n2"]) (use n1 n2 run_comp in auto)
qed

end

definition codec_ok :: "(int \<Rightarrow> utext) \<Rightarrow> (utext \<Rightarrow> int option) \<Rightarrow> bool" where
  "codec_ok shw rd \<longleftrightarrow> (\<forall>t. rd (shw t) = Some t)"

definition sim_ok :: "(int \<Rightarrow> utext) \<Rightarrow> (utext \<Rightarrow> int option) \<Rightarrow> (sid \<Rightarrow> utext \<times> utext) \<Rightarrow> sched_state \<Rightarrow> bool" where
  "sim_ok shw rd home st \<longleftrightarrow> codec_ok shw rd \<and> st_ok rd home st \<and> [] \<notin> si_id ` rows_in (fst st)"

definition runs :: "(utext \<Rightarrow> int option) \<Rightarrow> (sid \<Rightarrow> utext \<times> utext) \<Rightarrow> int \<Rightarrow> sched_state \<Rightarrow> sched_event list \<Rightarrow> sched_state \<Rightarrow> bool" where
  "runs rd home now st evs st' \<longleftrightarrow> box_run (box_of rd home st) (labels_of now evs) (box_of rd home st')"

lemma runs_trans: "runs rd home now s as t \<Longrightarrow> runs rd home now t bs u \<Longrightarrow> runs rd home now s (as @ bs) u"
  by (auto simp: runs_def intro: box_run_trans)

text \<open>Rows changed to \<open>g'\<close>, and the file of session \<open>s\<close> rewritten or left as it was.\<close>

lemma persist_sim:
  assumes ok: "sim_ok shw rd home (g, d)" and g: "sched_ok home g'" "sg_next g \<le> sg_next g'" "[] \<notin> si_id ` rows_in g'"
    and p: "persist_scheduled_sid io shw (snd (home s)) s (g', d) = (st', ok)"
  shows "sim_ok shw rd home st'" "fst st' = g'"
    "box_of rd home st' = (if ok then keep s (rows_in g') (box_of rd home (g, d) \<lparr> bx_firing := sg_firing g' \<rparr>)
        else box_of rd home (g, d) \<lparr> bx_rows := rows_in g', bx_firing := sg_firing g' \<rparr>)"
proof -
  have c: "\<And>t. rd (shw t) = Some t" and d: "disk_ok rd home d" "counter_value d \<le> sg_next g"
    using ok by (auto simp: sim_ok_def codec_ok_def st_ok_def)
  note pb = persist_box [of rd shw, OF c d(1) g(1) refl p]
  show "sim_ok shw rd home st'"
    using ok g pb(1,2,3) d(2) by (simp add: sim_ok_def st_ok_def)
  show "fst st' = g'" by (rule pb(1))
  show "box_of rd home st' = (if ok then keep s (rows_in g') (box_of rd home (g, d) \<lparr> bx_firing := sg_firing g' \<rparr>)
        else box_of rd home (g, d) \<lparr> bx_rows := rows_in g', bx_firing := sg_firing g' \<rparr>)"
    using pb by (auto simp: box_of_def keep_def)
qed

lemma drop_fields [simp]:
  "sg_next (drop_item x g) = sg_next g" "sg_firing (drop_item x g) = sg_firing g"
  "sg_next (put_item e g) = sg_next g" "sg_firing (put_item e g) = sg_firing g"
  "sg_paths (drop_item x g) = sg_paths g"
  by (simp_all add: drop_item_def put_item_def)

lemma box_of_rows: "box_of rd home (g, d) \<lparr> bx_rows := rows_in g', bx_firing := sg_firing g \<rparr>
    = box_of rd home (g, d) \<lparr> bx_rows := rows_in g' \<rparr>"
  by (simp add: box_of_def)

lemma box_of_firing [simp]:
  "box_of rd home (g, d) \<lparr> bx_firing := sg_firing g \<rparr> = box_of rd home (g, d)"
  by (simp add: box_of_def)

lemma box_fields [simp]:
  "bx_rows (box_of rd home st) = rows_in (fst st)" "bx_firing (box_of rd home st) = sg_firing (fst st)"
  "bx_counter (box_of rd home st) = counter_value (snd st)" "bx_kept (box_of rd home st) = kept_in rd home (snd st)"
  by (simp_all add: box_of_def)

lemma sim_entry:
  assumes "sim_ok shw rd home (g, d)" "(x, e) \<in> set (sg_items g)"
  shows "sched_ok home g" "e \<in> set (entries_of g)" "si_id (se_item e) = x" "se_item e \<in> rows_in g" "x \<noteq> []"
    "se_dir e = snd (home (si_sid (se_item e)))"
proof -
  show g: "sched_ok home g" using assms(1) by (simp add: sim_ok_def st_ok_def)
  show e: "e \<in> set (entries_of g)" using assms(2) by (force simp: entries_of_def)
  show x: "si_id (se_item e) = x" using g assms(2) by (force simp: sched_ok_def)
  show r: "se_item e \<in> rows_in g" using e by (simp add: rows_in_def)
  have "si_id (se_item e) \<in> si_id ` rows_in g" using r by (rule imageI)
  then show "x \<noteq> []" using assms(1) unfolding x sim_ok_def fst_conv by metis
  show "se_dir e = snd (home (si_sid (se_item e)))" by (rule gw_entry(2) [OF g e])
qed

lemma put_again:
  assumes g: "sched_ok home g" and e: "e \<in> set (entries_of g)"
  shows "sched_ok home (put_item e (drop_item (si_id (se_item e)) g))"
    "rows_in (put_item e (drop_item (si_id (se_item e)) g)) = rows_in g"
  using sched_ok_put [OF sched_ok_drop [OF g]] gw_entry(2,3) [OF g e] put_back [OF g e] by (simp_all add: rows_in_def)

lemma items_drop: "p \<in> set (sg_items g) \<Longrightarrow> fst p \<noteq> x \<Longrightarrow> p \<in> set (sg_items (drop_item x g))"
  by (simp add: drop_item_def set_bt_remove)

lemma items_put:
  "sched_ok home g \<Longrightarrow> p \<in> set (sg_items g) \<Longrightarrow> fst p \<noteq> si_id (se_item e) \<Longrightarrow> p \<in> set (sg_items (put_item e g))"
  by (simp add: put_item_def set_bt_insert sched_ok_def)

definition collectable :: "sched_state \<Rightarrow> utext \<times> scheduled_entry \<Rightarrow> bool" where
  "collectable st p \<longleftrightarrow> p \<in> set (sg_items (fst st)) \<and> si_status (se_item (snd p)) = FailedRow"

lemma gc_one_runs:
  assumes ok: "sim_ok shw rd home st" and r: "collectable st p" and j: "gc_one shw io p (st, evs) = (st', evs')"
  shows "\<exists>new. evs' = evs @ new \<and> sim_ok shw rd home st' \<and> runs rd home now st new st'
    \<and> (\<forall>q. fst q \<noteq> fst p \<longrightarrow> collectable st q \<longrightarrow> collectable st' q)"
proof -
  obtain g d x e where st: "st = (g, d)" and p: "p = (x, e)" by (cases st, cases p) auto
  have ok': "sim_ok shw rd home (g, d)" using ok st by simp
  have xe: "(x, e) \<in> set (sg_items g)" and fd: "si_status (se_item e) = FailedRow"
    using r by (auto simp: collectable_def st p)
  note se = sim_entry [OF ok' xe]
  obtain st1 good where w: "persist_scheduled_sid (io x) shw (se_dir e) (si_sid (se_item e)) (drop_item x g, d) = (st1, good)"
    by (cases "persist_scheduled_sid (io x) shw (se_dir e) (si_sid (se_item e)) (drop_item x g, d)")
  have rows: "rows_in (drop_item x g) = rows_in g - {se_item e}" using rows_drop [OF se(1,2)] se(3) by simp
  have "[] \<notin> si_id ` rows_in (drop_item x g)" using ok' rows by (auto simp: sim_ok_def)
  note ps = persist_sim [OF ok' sched_ok_drop [OF se(1)] _ this w [unfolded se(6)], simplified]
  show ?thesis
  proof (cases good)
    case True
    have "box_of rd home st1 = keep (si_sid (se_item e)) (rows_in g - {se_item e}) (box_of rd home (g, d))"
      using ps(3) True rows by simp
    then have "runs rd home now st [Changed (se_item e)] st1"
      using box_run_one [OF collect [of "se_item e" "box_of rd home (g, d)"]] se(4) fd by (simp add: runs_def st)
    then show ?thesis
      using j w ps True items_drop [of _ g x] by (auto simp: st p collectable_def)
  next
    case False
    let ?g = "put_item e (drop_item x g)"
    have pb: "sched_ok home ?g" "rows_in ?g = rows_in g" using put_again [OF se(1,2)] se(3) by simp_all
    have d1: "snd st1 = d"
      using w False by (auto simp: persist_scheduled_sid_def write_scheduled_def atomic_write_durable_def Let_def split: if_splits)
    have st': "st' = (?g, d)" "evs' = evs @ [Warned ''persist scheduled failed-item GC failed'' x]"
      using j w ps(2) False d1 se(3) by (auto simp: st p put_item_def Let_def)
    have "sim_ok shw rd home st'" using ok' pb by (simp add: st' sim_ok_def st_ok_def)
    moreover have "box_of rd home st' = box_of rd home (g, d)" by (simp add: st' box_of_def pb)
    then have "runs rd home now st [Warned ''persist scheduled failed-item GC failed'' x] st'"
      using box_run_one [OF collect_lost [of "se_item e" "box_of rd home (g, d)"]] se(3,4,5) fd
      by (simp add: runs_def st)
    moreover have "collectable st' q" if "fst q \<noteq> fst p" "collectable st q" for q
      using that items_put [OF sched_ok_drop [OF se(1)], of q x e] items_drop [of q g x] se(3)
      by (auto simp: collectable_def st p st')
    ultimately show ?thesis using st'(2) by blast
  qed
qed

interpretation gc: pass "gc_one shw io" fst collectable "sim_ok shw rd home" "runs rd home now"
  for shw io rd home now
proof
  fix s show "runs rd home now s [] s" by (simp add: runs_def run_stop)
next
  fix s as t bs u
  show "runs rd home now s as t \<Longrightarrow> runs rd home now t bs u \<Longrightarrow> runs rd home now s (as @ bs) u" by (rule runs_trans)
qed (rule gc_one_runs)

lemma gc_runs:
  assumes ok: "sim_ok shw rd home st" and j: "gc_failed_scheduled shw io now st = (st', evs)"
  shows "sim_ok shw rd home st' \<and> runs rd home now st evs st'"
proof -
  have o: "sorted_wrt (<) (map fst (sg_items (fst st)))" using ok by (simp add: sim_ok_def st_ok_def sched_ok_def)
  then have "distinct (map fst (expired_rows now (fst st)))"
    unfolding expired_rows_def by (intro distinct_map_filter) (simp add: strict_sorted_iff)
  moreover have "collectable st p" if "p \<in> set (expired_rows now (fst st))" for p
    using that by (auto simp: expired_rows_def collectable_def failed_expired_def)
  ultimately show ?thesis
    using gc.pass_runs [OF ok, of "expired_rows now (fst st)" io "[]" st' evs] j
    unfolding gc_failed_scheduled_def by auto
qed

lemma firing_irrelevant [simp]:
  "rows_in (g \<lparr> sg_firing := f \<rparr>) = rows_in g" "entries_of (g \<lparr> sg_firing := f \<rparr>) = entries_of g"
  "sched_ok home (g \<lparr> sg_firing := f \<rparr>) = sched_ok home g"
  "sim_ok shw rd home (g \<lparr> sg_firing := f \<rparr>, d) = sim_ok shw rd home (g, d)"
  "box_of rd home (g \<lparr> sg_firing := f \<rparr>, d) = box_of rd home (g, d) \<lparr> bx_firing := f \<rparr>"
  "drop_item x (g \<lparr> sg_firing := f \<rparr>) = drop_item x g \<lparr> sg_firing := f \<rparr>"
  "put_item e (g \<lparr> sg_firing := f \<rparr>) = put_item e g \<lparr> sg_firing := f \<rparr>"
  by (simp_all add: rows_in_def entries_of_def sched_ok_def sim_ok_def st_ok_def box_of_def drop_item_def put_item_def)

lemma keep_firing [simp]: "keep s R b \<lparr> bx_firing := f \<rparr> = keep s R (b \<lparr> bx_firing := f \<rparr>)"
  by (simp add: keep_def)

lemma known_entry:
  assumes "sim_ok shw rd home (g, d)" "e \<in> set (entries_of g)"
  shows "sched_ok home g" "(si_id (se_item e), e) \<in> set (sg_items g)" "se_item e \<in> rows_in g" "si_id (se_item e) \<noteq> []"
    "se_dir e = snd (home (si_sid (se_item e)))" "si_project (se_item e) = fst (home (si_sid (se_item e)))"
proof -
  show g: "sched_ok home g" using assms(1) by (simp add: sim_ok_def st_ok_def)
  show m: "(si_id (se_item e), e) \<in> set (sg_items g)"
    using gw_entry(1) [OF g assms(2)] by (rule map_of_SomeD)
  show "se_item e \<in> rows_in g" "si_id (se_item e) \<noteq> []" "se_dir e = snd (home (si_sid (se_item e)))"
    using sim_entry [OF assms(1) m] by auto
  show "si_project (se_item e) = fst (home (si_sid (se_item e)))" by (rule gw_entry(3) [OF g assms(2)])
qed

lemma no_empty_id:
  assumes "sim_ok shw rd home (g, d)" "R \<subseteq> insert j (rows_in g)" "si_id j \<noteq> []"
  shows "[] \<notin> si_id ` R"
proof
  assume "[] \<in> si_id ` R"
  then obtain k where k: "k \<in> R" "si_id k = []" by force
  then have "k \<in> rows_in g" using assms(2,3) by auto
  then have "[] \<in> si_id ` rows_in g" using k(2) by force
  then show False using assms(1) by (simp add: sim_ok_def)
qed

lemma complete_sim:
  assumes ok: "sim_ok shw rd home (g, d)" and e: "e \<in> set (entries_of g)" "is_pending e"
    and j: "complete_scheduled_fire shw io e (g, d) = (st', evs)"
  shows "\<exists>good. sim_ok shw rd home st' \<and> fst st' = drop_item (si_id (se_item e)) g
    \<and> box_of rd home st' = (if good then keep (si_sid (se_item e)) (rows_in g - {se_item e}) (box_of rd home (g, d))
         else box_of rd home (g, d) \<lparr> bx_rows := rows_in g - {se_item e} \<rparr>)
    \<and> labels_of now evs = (if good then [] else [Lost (si_id (se_item e))])"
proof -
  note ke = known_entry [OF ok e(1)]
  let ?x = "si_id (se_item e)"
  obtain st1 good where w: "persist_scheduled_sid io shw (se_dir e) (si_sid (se_item e)) (drop_item ?x g, d) = (st1, good)"
    by (cases "persist_scheduled_sid io shw (se_dir e) (si_sid (se_item e)) (drop_item ?x g, d)")
  have rows: "rows_in (drop_item ?x g) = rows_in g - {se_item e}" by (rule rows_drop [OF ke(1) e(1)])
  have "[] \<notin> si_id ` rows_in (drop_item ?x g)"
    by (rule no_empty_id [OF ok, of _ "se_item e"]) (use rows ke(4) in auto)
  note ps = persist_sim [OF ok sched_ok_drop [OF ke(1)] _ this w [unfolded ke(5)], simplified]
  have st': "st' = st1" and evs: "labels_of now evs = (if good then [] else [Lost ?x])"
    using j w ke(4) e(2) by (auto simp: complete_scheduled_fire_def is_pending_def Let_def)
  show ?thesis
    by (rule exI [of _ good]) (use ps rows evs in \<open>simp add: st' box_of_rows\<close>)
qed

lemma mark_failed_copy: "failed_copy (se_item e) (se_item (mark_failed c r e))"
  by (auto simp: failed_copy_def mark_failed_def)

lemma mark_failed_simps [simp]:
  "si_id (se_item (mark_failed c r e)) = si_id (se_item e)" "si_sid (se_item (mark_failed c r e)) = si_sid (se_item e)"
  "si_project (se_item (mark_failed c r e)) = si_project (se_item e)" "se_dir (mark_failed c r e) = se_dir e"
  "si_status (se_item (mark_failed c r e)) = FailedRow"
  by (simp_all add: mark_failed_def)

lemma fail_sim:
  assumes ok: "sim_ok shw rd home (g, d)" and e: "e \<in> set (entries_of g)"
    and j: "fail_scheduled shw io clock (si_id (se_item e)) reason (g, d) = (st', evs)"
  shows "\<exists>good j. failed_copy (se_item e) j \<and> sim_ok shw rd home st'
    \<and> fst st' = put_item (mark_failed clock reason e) g
    \<and> box_of rd home st' = (if good then keep (si_sid (se_item e)) (insert j (rows_in g - {se_item e})) (box_of rd home (g, d))
         else box_of rd home (g, d) \<lparr> bx_rows := insert j (rows_in g - {se_item e}) \<rparr>)
    \<and> labels_of now evs = (if good then [Reported j] else [Lost (si_id (se_item e)), Reported j])"
proof -
  note ke = known_entry [OF ok e]
  let ?x = "si_id (se_item e)" and ?e = "mark_failed clock reason e"
  have m: "map_of (sg_items g) ?x = Some e" by (rule gw_entry(1) [OF ke(1) e])
  obtain st1 good where w: "persist_scheduled_sid io shw (se_dir e) (si_sid (se_item e)) (put_item ?e g, d) = (st1, good)"
    by (cases "persist_scheduled_sid io shw (se_dir e) (si_sid (se_item e)) (put_item ?e g, d)")
  have rows: "rows_in (put_item ?e g) = insert (se_item ?e) (rows_in g - {se_item e})"
    by (rule rows_put [OF ke(1) e]) simp
  have "[] \<notin> si_id ` rows_in (put_item ?e g)"
    by (rule no_empty_id [OF ok, of _ "se_item ?e"]) (use rows ke(4) in auto)
  note ps = persist_sim [OF ok sched_ok_put [OF ke(1)] _ this w [unfolded ke(5)], simplified]
  have h: "home (si_sid (se_item e)) = (si_project (se_item e), se_dir e)" using ke(5,6) by simp
  have st': "st' = st1"
    and evs: "labels_of now evs = (if good then [Reported (se_item ?e)] else [Lost ?x, Reported (se_item ?e)])"
    using j w ke(4) m
    by (auto simp: fail_scheduled_def Let_def put_item_def failure_notice_def split: option.splits)
  show ?thesis
    by (rule exI [of _ good], rule exI [of _ "se_item ?e"])
      (use ps rows evs h mark_failed_copy in \<open>simp add: st' box_of_rows\<close>)
qed

definition firable :: "int \<Rightarrow> sched_state \<Rightarrow> scheduled_entry \<Rightarrow> bool" where
  "firable now st e \<longleftrightarrow> e \<in> set (entries_of (fst st)) \<and> is_pending e \<and> si_send_at (se_item e) \<le> now
     \<and> si_id (se_item e) \<notin> sg_firing (fst st)"

definition entry_id :: "scheduled_entry \<Rightarrow> utext" where
  "entry_id e = si_id (se_item e)"

text \<open>What remains ready when the rows of one entry changed.\<close>

lemma still_firable:
  assumes g: "sched_ok home g" and n: "entry_id y \<noteq> entry_id e" and f: "firable now (g, d) y"
  shows "firable now (drop_item (entry_id e) g, d') y" "firable now (put_item (mark_failed c r e) g, d') y"
  using f n by (auto simp: firable_def entry_id_def entries_drop [OF g] entries_put [OF g])

lemma fail_runs:
  assumes ok: "sim_ok shw rd home (g, d)" and r: "firable now (g, d) e"
    and j: "fail_scheduled shw io clock (si_id (se_item e)) reason (g, d) = (st', evs)"
  shows "sim_ok shw rd home st' \<and> runs rd home now (g, d) evs st'
    \<and> (\<forall>y. entry_id y \<noteq> entry_id e \<longrightarrow> firable now (g, d) y \<longrightarrow> firable now st' y)"
proof -
  have e: "e \<in> set (entries_of g)" "si_status (se_item e) = Pending" using r by (auto simp: firable_def is_pending_def)
  obtain good k where fs: "failed_copy (se_item e) k" "sim_ok shw rd home st'"
      "fst st' = put_item (mark_failed clock reason e) g"
      "box_of rd home st' = (if good then keep (si_sid (se_item e)) (insert k (rows_in g - {se_item e})) (box_of rd home (g, d))
         else box_of rd home (g, d) \<lparr> bx_rows := insert k (rows_in g - {se_item e}) \<rparr>)"
      "labels_of now evs = (if good then [Reported k] else [Lost (si_id (se_item e)), Reported k])"
    using fail_sim [OF ok e(1) j, of now] by blast
  note ke = known_entry [OF ok e(1)]
  have "runs rd home now (g, d) evs st'"
    using box_run_one [OF expire [of "se_item e" "box_of rd home (g, d)" k]]
      box_run_one [OF expire_lost [of "se_item e" "box_of rd home (g, d)" k]] fs ke(3) e(2)
    by (simp add: runs_def)
  moreover have "st' = (put_item (mark_failed clock reason e) g, snd st')" using fs(3) by (cases st') simp
  ultimately show ?thesis using fs(2) still_firable(2) [OF ke(1)] by metis
qed

lemma unfire:
  assumes f: "fst st = g' \<lparr> sg_firing := insert x (sg_firing g') \<rparr>" and x: "x \<notin> sg_firing g'"
    and ok: "sim_ok shw rd home st" and st2: "st2 = (fst st \<lparr> sg_firing := sg_firing (fst st) - {x} \<rparr>, snd st)"
  shows "st2 = (g', snd st)" "sim_ok shw rd home st2" "box_of rd home st2 = box_of rd home st \<lparr> bx_firing := sg_firing g' \<rparr>"
proof -
  have b: "insert x (sg_firing g') - {x} = sg_firing g'" using x by auto
  then show s: "st2 = (g', snd st)" by (simp add: st2 f)
  obtain ds where st: "st = (g' \<lparr> sg_firing := insert x (sg_firing g') \<rparr>, ds)" using f by (cases st) simp
  then have s': "st2 = (g', ds)" using s by simp
  show "sim_ok shw rd home st2" using ok unfolding st s' firing_irrelevant .
  show "box_of rd home st2 = box_of rd home st \<lparr> bx_firing := sg_firing g' \<rparr>"
    unfolding st s' firing_irrelevant by (simp add: box_of_def)
qed

text \<open>A row is submitted and its bookkeeping done, whatever became of it.\<close>

lemma sent_runs:
  assumes ok: "sim_ok shw rd home (g, d)" and r: "firable now (g, d) e" and t: "\<not> too_late now e"
    and j: "begin_fire e (g, d) = (st1, evs1)" "end_fire shw env e st1 = (st2, evs2)"
  shows "sim_ok shw rd home st2 \<and> runs rd home now (g, d) (evs1 @ evs2) st2
    \<and> (\<forall>y. entry_id y \<noteq> entry_id e \<longrightarrow> firable now (g, d) y \<longrightarrow> firable now st2 y)"
proof -
  let ?x = "si_id (se_item e)" and ?b = "box_of rd home (g, d)"
  let ?g = "g \<lparr> sg_firing := insert ?x (sg_firing g) \<rparr>"
  have e: "e \<in> set (entries_of g)" "is_pending e" "?x \<notin> sg_firing g" using r by (auto simp: firable_def)
  note ke = known_entry [OF ok e(1)]
  have sb: "sendable now (se_item e) ?b"
    using ke(3) e(2,3) r t by (auto simp: sendable_def is_pending_def firable_def too_late_def)
  have st1: "st1 = (?g, d)" "evs1 = [Submit (submit_chat (se_item e)) (se_item e)]"
    using j(1) by (simp_all add: begin_fire_def)
  have ok1: "sim_ok shw rd home (?g, d)" and e1: "e \<in> set (entries_of ?g)" using ok e(1) by simp_all
  show ?thesis
  proof (cases "submit_outcome (fe_attempt env) = Some (Inr ())")
    case True
    let ?g' = "drop_item ?x g"
    obtain st evs where c: "complete_scheduled_fire shw (fe_io env) e (?g, d) = (st, evs)"
      by (cases "complete_scheduled_fire shw (fe_io env) e (?g, d)")
    obtain good where cs: "sim_ok shw rd home st" "fst st = drop_item ?x ?g"
        "box_of rd home st = (if good then keep (si_sid (se_item e)) (rows_in ?g - {se_item e}) (box_of rd home (?g, d))
           else box_of rd home (?g, d) \<lparr> bx_rows := rows_in ?g - {se_item e} \<rparr>)"
        "labels_of now evs = (if good then [] else [Lost ?x])"
      using complete_sim [OF ok1 e1 e(2) c, of now] by blast
    have s2: "st2 = (fst st \<lparr> sg_firing := sg_firing (fst st) - {?x} \<rparr>, snd st)" "evs2 = evs"
      using j(2) c True by (simp_all add: end_fire_def st1)
    have fg: "fst st = ?g' \<lparr> sg_firing := insert ?x (sg_firing ?g') \<rparr>" "?x \<notin> sg_firing ?g'" using cs(2) e(3) by simp_all
    note uf = unfire [OF fg cs(1) s2(1)]
    have "box_of rd home st2 = (if good then keep (si_sid (se_item e)) (rows_in g - {se_item e}) ?b
        else ?b \<lparr> bx_rows := rows_in g - {se_item e} \<rparr>)"
      unfolding uf(3) cs(3) by (simp add: box_of_def keep_def)
    then have "runs rd home now (g, d) (evs1 @ evs2) st2"
      using box_run_one [OF deliver [OF sb]] box_run_one [OF deliver_lost [OF sb]] cs(4) s2(2)
      by (auto simp: runs_def st1(2) split: if_splits)
    then show ?thesis using uf(1,2) still_firable(1) [OF ke(1)] by (simp add: entry_id_def)
  next
    case False
    obtain reason st evs where c: "fail_scheduled shw (fe_io env) (fe_clock env) ?x reason (?g, d) = (st, evs)"
      and s2: "st2 = (fst st \<lparr> sg_firing := sg_firing (fst st) - {?x} \<rparr>, snd st)" "evs2 = evs"
    proof -
      obtain r where "end_fire shw env e st1 = (let (s, ev) = fail_scheduled shw (fe_io env) (fe_clock env) ?x r st1
          in ((fst s \<lparr> sg_firing := sg_firing (fst s) - {?x} \<rparr>, snd s), ev))"
      proof (cases "submit_outcome (fe_attempt env)")
        case None
        then show thesis using that by (simp add: end_fire_def)
      next
        case (Some a)
        then obtain r where "a = Inl r" using False by (cases a) auto
        then show thesis using that Some by (simp add: end_fire_def)
      qed
      then show thesis
        using that j(2) by (cases "fail_scheduled shw (fe_io env) (fe_clock env) ?x r (?g, d)") (auto simp: st1)
    qed
    let ?g' = "put_item (mark_failed (fe_clock env) reason e) g"
    obtain good k where cs: "failed_copy (se_item e) k" "sim_ok shw rd home st"
        "fst st = put_item (mark_failed (fe_clock env) reason e) ?g"
        "box_of rd home st = (if good then keep (si_sid (se_item e)) (insert k (rows_in ?g - {se_item e})) (box_of rd home (?g, d))
           else box_of rd home (?g, d) \<lparr> bx_rows := insert k (rows_in ?g - {se_item e}) \<rparr>)"
        "labels_of now evs = (if good then [Reported k] else [Lost ?x, Reported k])"
      using fail_sim [OF ok1 e1 c, of now] by blast
    have fg: "fst st = ?g' \<lparr> sg_firing := insert ?x (sg_firing ?g') \<rparr>" "?x \<notin> sg_firing ?g'" using cs(3) e(3) by simp_all
    note uf = unfire [OF fg cs(2) s2(1)]
    have "box_of rd home st2 = (if good then keep (si_sid (se_item e)) (insert k (rows_in g - {se_item e})) ?b
        else ?b \<lparr> bx_rows := insert k (rows_in g - {se_item e}) \<rparr>)"
      unfolding uf(3) cs(4) by (simp add: box_of_def keep_def)
    then have "runs rd home now (g, d) (evs1 @ evs2) st2"
      using box_run_one [OF refuse [OF sb cs(1)]] box_run_one [OF refuse_lost [OF sb cs(1)]] cs(5) s2(2)
      by (auto simp: runs_def st1(2) split: if_splits)
    then show ?thesis using uf(1,2) still_firable(2) [OF ke(1)] by simp
  qed
qed

lemma fire_one_runs:
  assumes ok: "sim_ok shw rd home st" and r: "firable now st e" and j: "fire_one shw env now e (st, evs) = (st', evs')"
  shows "\<exists>new. evs' = evs @ new \<and> sim_ok shw rd home st' \<and> runs rd home now st new st'
    \<and> (\<forall>y. entry_id y \<noteq> entry_id e \<longrightarrow> firable now st y \<longrightarrow> firable now st' y)"
proof -
  obtain g d where st: "st = (g, d)" by (cases st)
  show ?thesis
  proof (cases "too_late now e")
    case True
    obtain st1 evs1 where f: "fail_scheduled shw (fe_io (env (si_id (se_item e)))) (fe_clock (env (si_id (se_item e))))
            (si_id (se_item e)) (lit ''catch-up is older than 24 hours'') (g, d) = (st1, evs1)"
      by (cases "fail_scheduled shw (fe_io (env (si_id (se_item e)))) (fe_clock (env (si_id (se_item e))))
            (si_id (se_item e)) (lit ''catch-up is older than 24 hours'') (g, d)")
    have "st' = st1" "evs' = evs @ evs1" using j True f by (simp_all add: fire_one_def st Let_def)
    then show ?thesis using fail_runs [OF ok [unfolded st] r [unfolded st] f] st by blast
  next
    case False
    obtain st1 evs1 where b: "begin_fire e (g, d) = (st1, evs1)" by (cases "begin_fire e (g, d)")
    obtain st2 evs2 where n: "end_fire shw (env (si_id (se_item e))) e st1 = (st2, evs2)"
      by (cases "end_fire shw (env (si_id (se_item e))) e st1")
    show ?thesis
      using j sent_runs [OF ok [unfolded st] r [unfolded st] False b n] b n False by (auto simp: fire_one_def st Let_def)
  qed
qed

interpretation fire: pass "fire_one shw env now" entry_id "firable now" "sim_ok shw rd home" "runs rd home now"
  for shw env now rd home
proof
  fix s show "runs rd home now s [] s" by (simp add: runs_def run_stop)
next
  fix s as t bs u
  show "runs rd home now s as t \<Longrightarrow> runs rd home now t bs u \<Longrightarrow> runs rd home now s (as @ bs) u" by (rule runs_trans)
qed (rule fire_one_runs)

lemma entry_ids: "sched_ok home g \<Longrightarrow> map entry_id (entries_of g) = map fst (sg_items g)"
  by (simp add: entries_of_def sched_ok_def entry_id_def)

lemma distinct_entries: "sched_ok home g \<Longrightarrow> distinct (map entry_id (entries_of g))"
  unfolding entry_ids by (simp add: sched_ok_def strict_sorted_iff)

lemma due_distinct:
  assumes "sched_ok home g"
  shows "distinct (map entry_id (due_entries now g))"
  using distinct_entries [OF assms] distinct_map_filter [of entry_id "entries_of g"]
  unfolding due_entries_def distinct_map by simp

lemma due_firable: "e \<in> set (due_entries now g) \<Longrightarrow> firable now (g, d) e"
  by (auto simp: due_entries_def firable_def)

lemma fire_runs:
  assumes ok: "sim_ok shw rd home st" and j: "fire_due_scheduled shw env now st = (st', evs)"
  shows "sim_ok shw rd home st' \<and> runs rd home now st evs st'"
proof -
  obtain g d where st: "st = (g, d)" by (cases st)
  have g: "sched_ok home g" using ok by (simp add: st sim_ok_def st_ok_def)
  have j': "fold (fire_one shw env now) (due_entries now g) (st, []) = (st', evs)"
    using j by (simp add: fire_due_scheduled_def st)
  show ?thesis
    using fire.pass_runs [OF ok due_firable [of _ now g d, folded st] due_distinct [OF g] j'] by auto
qed

text \<open>A pass that ends in the middle: the first \<open>n\<close> rows are done, the next is submitted and no more.\<close>

lemma partly_fired_runs:
  assumes ok: "sim_ok shw rd home st" and n: "n < length (due_entries now (fst st))"
    and j: "fold (fire_one shw env now) (take n (due_entries now (fst st))) (st, []) = (st1, evs1)"
    and e: "e = due_entries now (fst st) ! n" "\<not> too_late now e" and b: "begin_fire e st1 = (st2, evs2)"
  shows "sim_ok shw rd home st2"
    "box_run (box_of rd home st) (labels_of now (evs1 @ evs2) @ [Cut]) (box_of rd home st2)"
proof -
  obtain g d where st: "st = (g, d)" by (cases st)
  have g: "sched_ok home g" using ok by (simp add: st sim_ok_def st_ok_def)
  note dd = due_distinct [OF g, of now]
  have split: "due_entries now g = take n (due_entries now g) @ e # drop (Suc n) (due_entries now g)"
    using n e(1) by (simp add: st id_take_nth_drop)
  have dt: "distinct (map entry_id (take n (due_entries now g)))"
    "entry_id e \<notin> entry_id ` set (take n (due_entries now g))"
    using dd by (subst (asm) split, simp)+
  have rd: "firable now st x" if "x \<in> set (take n (due_entries now g))" for x
    using due_firable set_take_subset that by (fastforce simp: st)
  have re: "firable now st e" using due_firable [of e now g d] n e(1) by (simp add: st)
  obtain new where new: "evs1 = new" "sim_ok shw rd home st1" "runs rd home now st new st1"
      "\<forall>y. entry_id y \<notin> entry_id ` set (take n (due_entries now g)) \<longrightarrow> firable now st y \<longrightarrow> firable now st1 y"
    using fire.pass_runs [OF ok rd dt(1) j [unfolded st fst_conv, folded st]] by (auto simp: st)
  obtain g1 d1 where st1: "st1 = (g1, d1)" by (cases st1)
  have f1: "firable now (g1, d1) e" using new(4) dt(2) re by (simp add: st1)
  have ok1: "sim_ok shw rd home (g1, d1)" using new(2) by (simp add: st1)
  have e1: "e \<in> set (entries_of g1)" using f1 by (simp add: firable_def)
  have sb: "sendable now (se_item e) (box_of rd home (g1, d1))"
    using f1 e(2) known_entry(3) [OF ok1 e1] by (auto simp: sendable_def firable_def is_pending_def too_late_def)
  have s2: "st2 = (g1 \<lparr> sg_firing := insert (si_id (se_item e)) (sg_firing g1) \<rparr>, d1)"
    "evs2 = [Submit (submit_chat (se_item e)) (se_item e)]" using b by (auto simp: begin_fire_def st1)
  show "sim_ok shw rd home st2" using ok1 by (simp add: s2(1))
  have "box_run (box_of rd home st1) (labels_of now evs2 @ [Cut]) (box_of rd home st2)"
    using box_run_one [OF die [OF sb]] by (simp add: s2 st1)
  then show "box_run (box_of rd home st) (labels_of now (evs1 @ evs2) @ [Cut]) (box_of rd home st2)"
    using box_run_trans [OF _ new(3) [unfolded runs_def]] new(1) by simp
qed

section \<open>Creating, cancelling, restarting\<close>

lemma id_number_row_id: "n < 2 ^ 64 \<Longrightarrow> id_number (row_id n) = Some n"
  by (simp add: id_number_def row_id_def strip_prefix_def parse_u64_dec)

text \<open>In a reachable box every row carries a number the counter has reached.\<close>

definition ids_numbered :: "box \<Rightarrow> bool" where
  "ids_numbered b \<longleftrightarrow> (\<forall>i \<in> bx_rows b \<union> disk_rows b. \<exists>m \<le> bx_counter b. si_id i = row_id m)
     \<and> inj_on si_id (disk_rows b)"

lemma reach_ids_numbered: "box_reach b tr \<Longrightarrow> ids_numbered b"
proof -
  assume "box_reach b tr"
  then have r: "rows_ok b tr" using box_reach_ok by (simp add: box_ok_def)
  have "\<exists>m \<le> bx_counter b. si_id i = row_id m" if i: "i \<in> bx_rows b \<union> disk_rows b" for i
  proof -
    have "si_id i \<in> set (created_ids tr)" using r i by (simp add: rows_ok_def)
    then obtain k where "Created k \<in> set tr" "si_id k = si_id i" by (auto simp: set_created_ids)
    then show ?thesis using r unfolding rows_ok_def by metis
  qed
  then show ?thesis using r by (simp add: ids_numbered_def rows_ok_def)
qed

lemma card_pending:
  assumes "sched_ok home g"
  shows "card (pending_of s (rows_in g)) = sid_pending g s"
proof -
  let ?es = "filter (\<lambda>e. si_sid (se_item e) = s \<and> is_pending e) (entries_of g)"
  have d: "distinct (map entry_id ?es)" using distinct_entries [OF assms] by (rule distinct_map_filter)
  have inj: "inj_on se_item (set ?es)"
    using d by (auto simp: distinct_map entry_id_def inj_on_def)
  have "pending_of s (rows_in g) = se_item ` set ?es" by (auto simp: pending_of_def rows_in_def is_pending_def)
  then have "card (pending_of s (rows_in g)) = card (set ?es)" using inj by (simp add: card_image)
  also have "\<dots> = length ?es" using d by (intro distinct_card) (simp add: distinct_map)
  finally show ?thesis by (simp add: sid_pending_def)
qed

lemma persist_counter_cases:
  assumes "sg_counter_path g" "persist_next_scheduled io (g, d) = (d', ok)"
  shows "if ok then d' = d \<lparr> sd_counter := Some (dec (sg_next g)) \<rparr> else d' = d"
  using assms by (auto simp: persist_next_scheduled_def split: if_splits)

lemma kept_counter [simp]: "kept_in rd home (d \<lparr> sd_counter := c \<rparr>) = kept_in rd home d"
  by (rule ext) (simp add: kept_in_def)

lemma counter_written:
  assumes "sim_ok shw rd home (g, d)" "n < 2 ^ 64" "n \<le> sg_next g"
  shows "sim_ok shw rd home (g, d \<lparr> sd_counter := Some (dec n) \<rparr>)"
    "box_of rd home (g, d \<lparr> sd_counter := Some (dec n) \<rparr>) = box_of rd home (g, d) \<lparr> bx_counter := n \<rparr>"
proof -
  have c: "counter_value (d \<lparr> sd_counter := Some (dec n) \<rparr>) = n" using parse_u64_dec [OF assms(2)] by (simp add: counter_value_def)
  show "sim_ok shw rd home (g, d \<lparr> sd_counter := Some (dec n) \<rparr>)"
    using assms c by (auto simp: sim_ok_def st_ok_def disk_ok_def)
  show "box_of rd home (g, d \<lparr> sd_counter := Some (dec n) \<rparr>) = box_of rd home (g, d) \<lparr> bx_counter := n \<rparr>"
    using c by (simp add: box_of_def)
qed

lemma next_irrelevant [simp]:
  "rows_in (g \<lparr> sg_next := n \<rparr>) = rows_in g" "sched_ok home (g \<lparr> sg_next := n \<rparr>) = sched_ok home g"
  "box_of rd home (g \<lparr> sg_next := n \<rparr>, d) = box_of rd home (g, d)"
  "entries_of (g \<lparr> sg_next := n \<rparr>) = entries_of g"
  by (simp_all add: rows_in_def entries_of_def sched_ok_def box_of_def)

lemma new_item_fields [simp]:
  "si_id (new_item a p n t) = row_id n" "si_sid (new_item a p n t) = ca_sid a"
  "si_project (new_item a p n t) = p" "si_status (new_item a p n t) = Pending"
  by (simp_all add: new_item_def row_id_def)

text \<open>A call that gets past its checks, and one that does not.\<close>

lemma create_cases:
  assumes j: "create_scheduled_message_inner sd shw ioc ior now a vis (g, d) = (st', res, evs)"
  obtains (unchanged) e where "st' = (g, d)" "res = Inl e"
    | (go) project dir where "scheduled_target sd (ca_sid a) = Inr (project, dir)" "sid_pending g (ca_sid a) < MAX_PENDING_PER_SID"
        "create_scheduled_message_inner sd shw ioc ior now a vis (g, d) =
           (let g1 = g \<lparr> sg_next := (sg_next g + 1) mod 2 ^ 64 \<rparr>;
                   (d1, counted) = persist_next_scheduled ioc (g1, d)
               in if \<not> counted then ((g1, d1), Inl WriteFailed, [])
                  else
                    let item = new_item a project (sg_next g1) now;
                        g2 = put_item \<lparr> se_dir = dir, se_item = item \<rparr> g1;
                        (st3, ok) = persist_scheduled_sid ior shw dir (ca_sid a) (g2, d1)
                    in if \<not> ok then ((drop_item (si_id item) (fst st3), snd st3), Inl WriteFailed, [])
                       else (st3, Inr item, emit_scheduled_progress g2 item SCHEDULED_ENQUEUED None
                               @ [Changed item, Wake]))"
  using j by (fastforce simp: create_scheduled_message_inner_def split: if_splits sum.splits prod.splits)

lemma create_row_written:
  assumes j: "create_scheduled_message_inner sd shw ioc ior now a vis (g, d) = (st', Inr i, evs)"
  obtains project dir n d1 where "scheduled_target sd (ca_sid a) = Inr (project, dir)" "i = new_item a project n now"
    "persist_scheduled_sid ior shw dir (ca_sid a)
       (put_item \<lparr> se_dir = dir, se_item = i \<rparr> (g \<lparr> sg_next := n \<rparr>), d1) = (st', True)"
  using j
proof (cases rule: create_cases)
  case (go project dir)
  define n where "n = (sg_next g + 1) mod 2 ^ 64"
  note j' = j [unfolded go(3), folded n_def]
  let ?g1 = "g \<lparr> sg_next := n \<rparr>" and ?i = "new_item a project n now"
  obtain d1 counted where pc: "persist_next_scheduled ioc (?g1, d) = (d1, counted)"
    by (cases "persist_next_scheduled ioc (?g1, d)")
  obtain st3 good where pp: "persist_scheduled_sid ior shw dir (ca_sid a) (put_item \<lparr> se_dir = dir, se_item = ?i \<rparr> ?g1, d1) = (st3, good)"
    by (cases "persist_scheduled_sid ior shw dir (ca_sid a) (put_item \<lparr> se_dir = dir, se_item = ?i \<rparr> ?g1, d1)")
  have r: "good" "st' = st3" "i = ?i"
    using j' by (simp_all add: pc pp Let_def split: if_splits)
  show thesis by (rule that [OF go(1) r(3)]) (use pp r in simp)
qed simp

text \<open>Creating a message: the new row is on disk when the call succeeds, and nothing but the counter changes
  when it fails.\<close>

lemma create_runs:
  assumes ok: "sim_ok shw rd home (g, d)" and nb: "ids_numbered (box_of rd home (g, d))"
    and tg: "\<And>t. scheduled_target sd (ca_sid a) = Inr t \<Longrightarrow> t = home (ca_sid a)" and lt: "sg_next g + 1 < 2 ^ 64"
    and j: "create_scheduled_message_inner sd shw ioc ior now a vis (g, d) = (st', res, evs)"
  shows "sim_ok shw rd home st'
    \<and> box_run (box_of rd home (g, d)) (case res of Inr i \<Rightarrow> [Created i] | Inl _ \<Rightarrow> []) (box_of rd home st')"
proof -
  let ?b = "box_of rd home (g, d)" and ?n = "sg_next g + 1"
  have g: "sched_ok home g" and cv: "counter_value d \<le> sg_next g" using ok by (auto simp: sim_ok_def st_ok_def)
  from j show ?thesis
  proof (cases rule: create_cases)
    case unchanged
    then show ?thesis using ok by (simp add: run_stop)
  next
    case (go project dir)
    let ?g1 = "g \<lparr> sg_next := ?n \<rparr>"
    have m: "?n mod 2 ^ 64 = ?n" using lt by simp
    have dirs: "project = fst (home (ca_sid a))" "dir = snd (home (ca_sid a))" using tg [OF go(1)] by (metis fst_conv, metis snd_conv)
    have ok1: "sim_ok shw rd home (?g1, d)" using ok cv by (simp add: sim_ok_def st_ok_def)
    have cp: "sg_counter_path ?g1" using g by (simp add: sched_ok_def)
    obtain d1 counted where pc: "persist_next_scheduled ioc (?g1, d) = (d1, counted)"
      by (cases "persist_next_scheduled ioc (?g1, d)")
    note pcc = persist_counter_cases [OF cp pc]
    show ?thesis
    proof (cases counted)
      case False
      then have "st' = (?g1, d)" "res = Inl WriteFailed" using j go(3) pc pcc m by (simp_all add: Let_def)
      then show ?thesis using ok1 by (simp add: run_stop)
    next
      case True
      then have d1: "d1 = d \<lparr> sd_counter := Some (dec ?n) \<rparr>" using pcc by simp
      have ok2: "sim_ok shw rd home (?g1, d1)" and b1: "box_of rd home (?g1, d1) = ?b \<lparr> bx_counter := ?n \<rparr>"
        using counter_written [OF ok1 lt] by (simp_all add: d1)
      let ?i = "new_item a project ?n now" and ?e = "\<lparr> se_dir = dir, se_item = new_item a project ?n now \<rparr>"
      have ii: "si_id ?i = row_id ?n" "si_sid ?i = ca_sid a" "si_project ?i = project" "si_status ?i = Pending"
        by simp_all
      have fresh: "si_id k \<noteq> si_id ?i" if "k \<in> rows_in g" for k
      proof -
        obtain m where "m \<le> counter_value d" "si_id k = row_id m" using nb \<open>k \<in> rows_in g\<close> by (auto simp: ids_numbered_def)
        then show ?thesis using cv ii(1) by simp
      qed
      have es: "{e \<in> set (entries_of g). si_id (se_item e) \<noteq> si_id ?i} = set (entries_of g)"
        using fresh by (auto simp: rows_in_def)
      have g2: "sched_ok home (put_item ?e ?g1)" by (rule sched_ok_put) (use g ii dirs in auto)
      have rows: "rows_in (put_item ?e ?g1) = insert ?i (rows_in g)"
        using entries_put [of home ?g1 ?e] g es by (simp add: rows_in_def)
      have ne: "[] \<notin> si_id ` rows_in (put_item ?e ?g1)"
        by (rule no_empty_id [OF ok, of _ ?i]) (use rows ii in \<open>auto simp: row_id_def\<close>)
      obtain st3 good where pp: "persist_scheduled_sid ior shw (snd (home (ca_sid a))) (ca_sid a) (put_item ?e ?g1, d1) = (st3, good)"
        by (cases "persist_scheduled_sid ior shw (snd (home (ca_sid a))) (ca_sid a) (put_item ?e ?g1, d1)")
      have nx: "sg_next ?g1 \<le> sg_next (put_item ?e ?g1)" by simp
      note ps = persist_sim [OF ok2 g2 nx ne pp]
      show ?thesis
      proof (cases good)
        case True
        have r: "st' = st3" "res = Inr ?i"
          using j go(3) pc \<open>counted\<close> m pp True dirs(2) by (simp_all add: Let_def)
        have "box_of rd home st3 = keep (si_sid ?i) (insert ?i (rows_in g)) (?b \<lparr> bx_counter := ?n \<rparr>)"
          using ps(3) True rows b1 by (simp add: box_of_def)
        moreover have "card (pending_of (si_sid ?i) (bx_rows ?b)) < MAX_PENDING_PER_SID"
          using go(2) card_pending [OF g] by (simp add: ii(2))
        ultimately have "box_step ?b [Created ?i] (box_of rd home st3)"
          using create [of ?i ?n ?b] ii cv by simp
        then show ?thesis using box_run_one ps(1) r by simp
      next
        case False
        have d3: "snd st3 = d1"
          using pp False by (auto simp: persist_scheduled_sid_def write_scheduled_def atomic_write_durable_def Let_def split: if_splits)
        have r: "st' = (drop_item (si_id ?i) (put_item ?e ?g1), d1)" "res = Inl WriteFailed"
          using j go(3) pc \<open>counted\<close> m pp False dirs(2) ps(2) d3 by (simp_all add: Let_def)
        have g3: "sched_ok home (drop_item (si_id ?i) (put_item ?e ?g1))" by (rule sched_ok_drop [OF g2])
        have e3: "set (entries_of (drop_item (si_id ?i) (put_item ?e ?g1))) = set (entries_of g)"
          using entries_drop [OF g2, of "si_id ?i"] entries_put [of home ?g1 ?e] g es by auto
        then have r3: "rows_in (drop_item (si_id ?i) (put_item ?e ?g1)) = rows_in g" by (simp add: rows_in_def)
        have s3: "sim_ok shw rd home st'" using ok2 g3 r3 by (simp add: r(1) sim_ok_def st_ok_def)
        have "box_of rd home st' = ?b \<lparr> bx_counter := ?n \<rparr>"
          using b1 r3 by (simp add: r(1) box_of_def)
        moreover have "box_step ?b [] (?b \<lparr> bx_counter := ?n \<rparr>)" by (rule count) (use cv in simp)
        ultimately show ?thesis using s3 r(2) box_run_one by simp
      qed
    qed
  qed
qed

lemma cancel_runs:
  assumes ok: "sim_ok shw rd home (g, d)" and j: "cancel_scheduled_message shw io s x (g, d) = (st', res, evs)"
  shows "sim_ok shw rd home st'
    \<and> box_run (box_of rd home (g, d)) (case res of Inr i \<Rightarrow> [Cancelled (si_id i)] | Inl _ \<Rightarrow> []) (box_of rd home st')"
proof (cases "map_of (sg_items g) x")
  case None
  then show ?thesis using j ok by (auto simp: cancel_scheduled_message_def run_stop)
next
  case (Some e)
  have g: "sched_ok home g" using ok by (simp add: sim_ok_def st_ok_def)
  have e: "e \<in> set (entries_of g)" "si_id (se_item e) = x" using entry_known [OF g Some] by simp_all
  note ke = known_entry [OF ok e(1)]
  show ?thesis
  proof (cases "si_sid (se_item e) = s")
    case False
    then show ?thesis using j ok Some by (auto simp: cancel_scheduled_message_def run_stop)
  next
    case True
    obtain st1 good where w: "persist_scheduled_sid io shw (se_dir e) s (drop_item x g, d) = (st1, good)"
      by (cases "persist_scheduled_sid io shw (se_dir e) s (drop_item x g, d)")
    have rows: "rows_in (drop_item x g) = rows_in g - {se_item e}" using rows_drop [OF g e(1)] e(2) by simp
    have "[] \<notin> si_id ` rows_in (drop_item x g)"
      by (rule no_empty_id [OF ok, of _ "se_item e"]) (use rows ke(4) in auto)
    note ps = persist_sim [OF ok sched_ok_drop [OF g] _ this w [unfolded ke(5) True], simplified]
    show ?thesis
    proof (cases good)
      case True
      have "st' = st1" "res = Inr (se_item e)"
        using j w True \<open>si_sid (se_item e) = s\<close> Some by (simp_all add: cancel_scheduled_message_def)
      moreover have "box_of rd home st1 = keep (si_sid (se_item e)) (rows_in g - {se_item e}) (box_of rd home (g, d))"
        using ps(3) True rows \<open>si_sid (se_item e) = s\<close> by simp
      ultimately show ?thesis
        using box_run_one [OF cancel [of "se_item e" "box_of rd home (g, d)"]] ke(3) ps(1) by simp
    next
      case False
      let ?g = "put_item e (drop_item x g)"
      have pb: "sched_ok home ?g" "rows_in ?g = rows_in g" using put_again [OF g e(1)] e(2) by simp_all
      have d1: "snd st1 = d"
        using w False by (auto simp: persist_scheduled_sid_def write_scheduled_def atomic_write_durable_def Let_def split: if_splits)
      have st': "st' = (?g, d)" "res = Inl WriteFailed"
        using j w False \<open>si_sid (se_item e) = s\<close> Some ps(2) d1 e(2)
        by (simp_all add: cancel_scheduled_message_def put_item_def)
      then show ?thesis using ok pb by (simp add: sim_ok_def st_ok_def box_of_def run_stop)
    qed
  qed
qed

section \<open>Restart\<close>

text \<open>What the scan may find: projects whose chats cannot be listed, and sessions left out because their file cannot
  be read at that moment; every session listed is under its own project and directory. The sessions whose file was
  there and was not read are the unread ones.\<close>

definition listing_sound :: "(sid \<Rightarrow> utext \<times> utext) \<Rightarrow> chat_listing \<Rightarrow> bool" where
  "listing_sound home listing \<longleftrightarrow>
     (\<forall>(slug, dir, names) \<in> set listing. \<forall>s \<in> set (case names of None \<Rightarrow> [] | Some sids \<Rightarrow> sids). home s = (slug, dir))"

definition listed :: "chat_listing \<Rightarrow> sid \<Rightarrow> bool" where
  "listed listing s \<longleftrightarrow> (\<exists>slug dir sids. (slug, dir, Some sids) \<in> set listing \<and> s \<in> set sids)"

definition unread :: "(sid \<Rightarrow> utext \<times> utext) \<Rightarrow> sched_disk \<Rightarrow> chat_listing \<Rightarrow> sid set" where
  "unread home d listing = {s. sd_files d (snd (home s), s) \<noteq> NoFile \<and> \<not> listed listing s}"

definition restarted :: "sid set \<Rightarrow> label list" where
  "restarted S = (if S = {} then [Restarted] else [Restarted, Unread S])"

lemma sound_home: "listing_sound home listing \<Longrightarrow> (slug, dir, Some sids) \<in> set listing \<Longrightarrow> s \<in> set sids \<Longrightarrow> home s = (slug, dir)"
  unfolding listing_sound_def by fastforce

lemma kept_listed: "i \<in> kept_in rd home d s \<Longrightarrow> listed listing s \<longleftrightarrow> s \<notin> unread home d listing"
  by (auto simp: kept_in_def read_scheduled_def unread_def)

lemma scanned_rows:
  assumes d: "disk_ok rd home d" and l: "listing_sound home listing"
  shows "set (scan_scheduled rd d listing)
    = {(snd (home (si_sid i)), i) | i. \<exists>s. s \<notin> unread home d listing \<and> i \<in> kept_in rd home d s}"
proof -
  have one: "set (scan_session_rows rd d slug dir s) = {(snd (home (si_sid i)), i) | i. i \<in> kept_in rd home d s}"
    if "home s = (slug, dir)" for slug dir s
  proof -
    obtain rows where r: "read_scheduled rd (sd_files d (snd (home s), s)) = Some rows"
      "\<forall>i \<in> set rows. si_sid i = s \<and> si_project i = fst (home s)" using d unfolding disk_ok_def by blast
    have same: "i \<lparr> si_sid := s, si_project := slug \<rparr> = i" if "i \<in> set rows" for i
      using r(2) that \<open>home s = (slug, dir)\<close> by (cases i) auto
    have sid: "i \<in> set rows \<Longrightarrow> home (si_sid i) = (slug, dir)" for i using r(2) \<open>home s = (slug, dir)\<close> by auto
    show ?thesis
      using r(1) same sid \<open>home s = (slug, dir)\<close> by (force simp: kept_in_def)
  qed
  have proj: "set (scan_project_rows rd d (slug, dir, Some sids))
      = {(snd (home (si_sid i)), i) | i. \<exists>s \<in> set sids. i \<in> kept_in rd home d s}"
    if "(slug, dir, Some sids) \<in> set listing" for slug dir sids
    using one sound_home [OF l that] by auto
  show ?thesis
  proof (rule set_eqI)
    fix q :: "utext \<times> scheduled_item"
    have "q \<in> set (scan_scheduled rd d listing) \<longleftrightarrow> (\<exists>p \<in> set listing. q \<in> set (scan_project_rows rd d p))"
      by (auto simp: scan_scheduled_def)
    also have "\<dots> \<longleftrightarrow> q \<in> {(snd (home (si_sid i)), i) | i. \<exists>s. listed listing s \<and> i \<in> kept_in rd home d s}"
    proof
      assume "\<exists>p \<in> set listing. q \<in> set (scan_project_rows rd d p)"
      then obtain slug dir names where p: "(slug, dir, names) \<in> set listing" "q \<in> set (scan_project_rows rd d (slug, dir, names))"
        by (metis prod_cases3)
      obtain sids where n: "names = Some sids" using p(2) by (cases names) auto
      then show "q \<in> {(snd (home (si_sid i)), i) | i. \<exists>s. listed listing s \<and> i \<in> kept_in rd home d s}"
        using proj [of slug dir sids] p unfolding listed_def by blast
    next
      assume "q \<in> {(snd (home (si_sid i)), i) | i. \<exists>s. listed listing s \<and> i \<in> kept_in rd home d s}"
      then obtain i s where q: "q = (snd (home (si_sid i)), i)" "listed listing s" "i \<in> kept_in rd home d s" by blast
      obtain slug dir sids where f: "(slug, dir, Some sids) \<in> set listing" "s \<in> set sids" using q(2) unfolding listed_def by blast
      have "q \<in> set (scan_project_rows rd d (slug, dir, Some sids))"
        unfolding proj [OF f(1)] using q f(2) by blast
      then show "\<exists>p \<in> set listing. q \<in> set (scan_project_rows rd d p)" using f(1) by blast
    qed
    also have "\<dots> \<longleftrightarrow> q \<in> {(snd (home (si_sid i)), i) | i. \<exists>s. s \<notin> unread home d listing \<and> i \<in> kept_in rd home d s}"
      using kept_listed by blast
    finally show "q \<in> set (scan_scheduled rd d listing)
      \<longleftrightarrow> q \<in> {(snd (home (si_sid i)), i) | i. \<exists>s. s \<notin> unread home d listing \<and> i \<in> kept_in rd home d s}" .
  qed
qed

lemma load_row_eq:
  assumes "si_id i = row_id n" "n < 2 ^ 64" "n \<le> sg_next g"
  shows "load_row (dir, i) g = put_item \<lparr> se_dir = dir, se_item = i \<rparr> g"
proof -
  have "max (sg_next g) n = sg_next g" using assms(3) by simp
  then show ?thesis using id_number_row_id [OF assms(2)] by (simp add: load_row_def assms(1))
qed

lemma load_rows:
  assumes "sched_ok home g" "inj_on si_id (rows_in g \<union> snd ` set L)" "sg_next g < 2 ^ 64"
    "\<And>p. p \<in> set L \<Longrightarrow> (\<exists>n \<le> sg_next g. si_id (snd p) = row_id n)
        \<and> home (si_sid (snd p)) = (si_project (snd p), fst p)"
  shows "sched_ok home (fold load_row L g) \<and> rows_in (fold load_row L g) = rows_in g \<union> snd ` set L
    \<and> sg_next (fold load_row L g) = sg_next g \<and> sg_firing (fold load_row L g) = sg_firing g"
  using assms
proof (induction L arbitrary: g)
  case (Cons p L)
  obtain dir i where p: "p = (dir, i)" by (cases p)
  obtain n where n: "si_id i = row_id n" "n \<le> sg_next g" and h: "home (si_sid i) = (si_project i, dir)"
    using Cons.prems(4) [of p] by (auto simp: p)
  let ?e = "\<lparr> se_dir = dir, se_item = i \<rparr>"
  have lr: "load_row (dir, i) g = put_item ?e g"
    using load_row_eq [OF n(1) _ n(2)] n(2) Cons.prems(3) by simp
  have g': "sched_ok home (put_item ?e g)" by (rule sched_ok_put [OF Cons.prems(1)]) (simp add: h)
  have "k = i" if "k \<in> rows_in g" "si_id k = si_id i" for k
    using inj_onD [OF Cons.prems(2) that(2)] that by (simp add: p)
  then have rows: "rows_in (put_item ?e g) = insert i (rows_in g)"
    by (auto simp: rows_in_def entries_put [OF Cons.prems(1)])
  have "inj_on si_id (rows_in (put_item ?e g) \<union> snd ` set L)"
    using Cons.prems(2) by (simp add: rows p)
  then show ?case
    using Cons.IH [OF g'] Cons.prems(3,4) by (simp add: lr rows p)
qed simp

definition fresh_gateway :: "(utext \<Rightarrow> utext \<Rightarrow> sid \<Rightarrow> utext list) \<Rightarrow> bool \<Rightarrow> sched_gateway" where
  "fresh_gateway bound paths = \<lparr> sg_next = 0, sg_items = [], sg_firing = {}, sg_counter_path = True, sg_paths = paths, sg_bound = bound \<rparr>"

lemma fresh_gateway_simps [simp]:
  "sg_next (fresh_gateway bd ps) = 0" "sg_items (fresh_gateway bd ps) = []" "sg_firing (fresh_gateway bd ps) = {}"
  "sg_counter_path (fresh_gateway bd ps)" "rows_in (fresh_gateway bd ps) = {}"
  by (simp_all add: fresh_gateway_def rows_in_def entries_of_def)

text \<open>A restart makes memory what was read of the disk, and collects what expired.\<close>

lemma restart_runs:
  assumes c: "codec_ok shw rd" and d: "disk_ok rd home d" and l: "listing_sound home listing"
    and nb: "ids_numbered (box_of rd home (g, d))"
    and j: "load_scheduled_state shw rd ioc io listing now (fresh_gateway bd ps, d) = (st', evs)"
  shows "sim_ok shw rd home st'
    \<and> box_run (box_of rd home (g, d)) (restarted (unread home d listing) @ labels_of now evs) (box_of rd home st')"
proof -
  let ?c = "counter_value d"
  let ?g1 = "fresh_gateway bd ps \<lparr> sg_next := ?c \<rparr>"
  let ?L = "scan_scheduled rd d listing"
  let ?g2 = "fold load_row ?L ?g1"
  have cw: "?c < 2 ^ 64" "read_counter (fresh_gateway bd ps) d = ?c"
    using d parse_u64_dec by (auto simp: disk_ok_def counter_value_def read_counter_def)
  have rows1: "rows_in ?g1 = {}" and g1: "sched_ok home ?g1"
    by (simp_all add: rows_in_def entries_of_def sched_ok_def)
  let ?U = "unread home d listing"
  have found: "snd ` set ?L = (\<Union>s \<in> - ?U. kept_in rd home d s)"
    by (auto simp: scanned_rows [OF d l] image_iff)
  have disk: "snd ` set ?L \<subseteq> disk_rows (box_of rd home (g, d))" unfolding found by (auto simp: disk_rows_def)
  have proj: "home (si_sid i) = (si_project i, snd (home (si_sid i)))" if "i \<in> kept_in rd home d s" for i s
  proof -
    obtain rs where "read_scheduled rd (sd_files d (snd (home s), s)) = Some rs"
      "\<forall>i \<in> set rs. si_sid i = s \<and> si_project i = fst (home s)" using d unfolding disk_ok_def by blast
    then show ?thesis using that by (simp add: kept_in_def)
  qed
  have lr: "sched_ok home ?g2 \<and> rows_in ?g2 = rows_in ?g1 \<union> snd ` set ?L \<and> sg_next ?g2 = sg_next ?g1
      \<and> sg_firing ?g2 = sg_firing ?g1"
  proof (rule load_rows [OF g1])
    show "inj_on si_id (rows_in ?g1 \<union> snd ` set ?L)"
      using nb inj_on_subset [OF _ disk, of si_id] by (simp add: rows1 ids_numbered_def)
    show "sg_next ?g1 < 2 ^ 64" using cw by simp
    fix p assume p: "p \<in> set ?L"
    then obtain i s where i: "p = (snd (home (si_sid i)), i)" "i \<in> kept_in rd home d s"
      unfolding scanned_rows [OF d l] by blast
    have "i \<in> disk_rows (box_of rd home (g, d))" using i(2) by (auto simp: disk_rows_def)
    then have "\<exists>n \<le> ?c. si_id i = row_id n" using nb by (auto simp: ids_numbered_def)
    then show "(\<exists>n \<le> sg_next ?g1. si_id (snd p) = row_id n) \<and> home (si_sid (snd p)) = (si_project (snd p), fst p)"
      using proj [OF i(2)] by (simp add: i(1))
  qed
  have ne: "[] \<notin> si_id ` rows_in ?g2"
  proof
    assume "[] \<in> si_id ` rows_in ?g2"
    then obtain i where "i \<in> disk_rows (box_of rd home (g, d))" "si_id i = []" using lr rows1 disk by fastforce
    then obtain n where "row_id n = []" using nb unfolding ids_numbered_def by (metis UnI2)
    then show False by (simp add: row_id_def)
  qed
  have ok2: "sim_ok shw rd home (?g2, d)" using c d lr ne by (simp add: sim_ok_def st_ok_def)
  have b2: "box_of rd home (?g2, d) = box_of rd home (g, d) \<lparr> bx_rows := (\<Union>s \<in> - ?U. kept_in rd home d s), bx_firing := {} \<rparr>"
    using lr rows1 found by (simp add: box_of_def)
  obtain d1 good where pc: "persist_next_scheduled ioc (?g2, d) = (d1, good)" by (cases "persist_next_scheduled ioc (?g2, d)")
  have "sg_counter_path ?g2" using lr by (simp add: sched_ok_def)
  note pcc = persist_counter_cases [OF this pc]
  have ok3: "sim_ok shw rd home (?g2, d1)" and b3: "box_of rd home (?g2, d1) = box_of rd home (?g2, d)"
  proof -
    have n: "sg_next ?g2 = ?c" using lr by simp
    show "sim_ok shw rd home (?g2, d1)" using pcc ok2 counter_written(1) [OF ok2 cw(1)] n by (cases good) simp_all
    show "box_of rd home (?g2, d1) = box_of rd home (?g2, d)"
      using pcc counter_written(2) [OF ok2 cw(1)] n by (cases good) (simp_all add: box_of_def)
  qed
  obtain st3 evs3 where gc: "gc_failed_scheduled shw io now (?g2, d1) = (st3, evs3)"
    by (cases "gc_failed_scheduled shw io now (?g2, d1)")
  note gr = gc_runs [OF ok3 gc]
  have g1eq: "fresh_gateway bd ps \<lparr> sg_next := ?c, sg_items := [] \<rparr> = ?g1" by (simp add: fresh_gateway_def)
  have r: "st' = st3" "labels_of now evs = labels_of now evs3"
    using j pc gc cw(2) by (auto simp: load_scheduled_state_def g1eq Let_def)
  have "box_step (box_of rd home (g, d)) (restarted ?U) (box_of rd home (?g2, d))"
    using restart [of "box_of rd home (g, d)"] restart_partly [of "box_of rd home (g, d)" ?U] by (simp add: b2 restarted_def)
  then have "box_run (box_of rd home (g, d)) (restarted ?U @ labels_of now evs3) (box_of rd home st3)"
    using box_run_trans [OF _ box_run_one] gr b3 by (metis runs_def)
  then show ?thesis using gr r by simp
qed

end
