(* ===== verification/Scheduled_Claims.thy ===== *)
theory Scheduled_Claims
  imports Scheduled_Refinement
begin

text \<open>
  What holds of scheduled messages in every history, with concrete histories as witnesses; the timer's
  next wake-up, the times a user may write, and where the code falls short of its comments.
\<close>

section \<open>Every history\<close>

text \<open>Whatever users ask, whatever the timer does, however writes and submissions fail, passes that die
  between a submission and its bookkeeping, and restarts, with whatever sessions they could not read: those of a
  project whose chats cannot be listed, and those whose file cannot be read at that moment, are as if not listed.
  The counter file is taken to be readable at a restart.\<close>

inductive sched_reach :: "(int \<Rightarrow> utext) \<Rightarrow> (utext \<Rightarrow> int option) \<Rightarrow> (sid \<Rightarrow> utext \<times> utext) \<Rightarrow> sched_state \<Rightarrow> label list \<Rightarrow> bool"
  for shw rd home where
  boot: "sched_reach shw rd home (fresh_gateway bd ps, \<lparr> sd_counter = None, sd_files = (\<lambda>_. NoFile) \<rparr>) []"
| creates: "sched_reach shw rd home st tr
    \<Longrightarrow> (\<And>t. scheduled_target sd (ca_sid a) = Inr t \<Longrightarrow> t = home (ca_sid a)) \<Longrightarrow> sg_next (fst st) + 1 < 2 ^ 64
    \<Longrightarrow> create_scheduled_message_inner sd shw ioc ior now a vis st = (st', res, evs)
    \<Longrightarrow> sched_reach shw rd home st' (tr @ (case res of Inr i \<Rightarrow> [Created i] | Inl _ \<Rightarrow> []))"
| cancels: "sched_reach shw rd home st tr \<Longrightarrow> cancel_scheduled_message shw io s x st = (st', res, evs)
    \<Longrightarrow> sched_reach shw rd home st' (tr @ (case res of Inr i \<Rightarrow> [Cancelled (si_id i)] | Inl _ \<Rightarrow> []))"
| collects: "sched_reach shw rd home st tr \<Longrightarrow> gc_failed_scheduled shw gio now st = (st', evs)
    \<Longrightarrow> sched_reach shw rd home st' (tr @ labels_of now evs)"
| fires: "sched_reach shw rd home st tr \<Longrightarrow> fire_due_scheduled shw env now st = (st', evs)
    \<Longrightarrow> sched_reach shw rd home st' (tr @ labels_of now evs)"
| dies: "sched_reach shw rd home st tr \<Longrightarrow> n < length (due_entries now (fst st))
    \<Longrightarrow> fold (fire_one shw env now) (take n (due_entries now (fst st))) (st, []) = (st1, evs1)
    \<Longrightarrow> e = due_entries now (fst st) ! n \<Longrightarrow> \<not> too_late now e \<Longrightarrow> begin_fire e st1 = (st2, evs2)
    \<Longrightarrow> sched_reach shw rd home st2 (tr @ labels_of now (evs1 @ evs2) @ [Cut])"
| restarts: "sched_reach shw rd home (g, d) tr \<Longrightarrow> listing_sound home listing
    \<Longrightarrow> load_scheduled_state shw rd ioc gio listing now (fresh_gateway bd ps, d) = (st', evs)
    \<Longrightarrow> sched_reach shw rd home st' (tr @ restarted (unread home d listing) @ labels_of now evs)"

lemma boot_ok:
  assumes "codec_ok shw rd"
  shows "sim_ok shw rd home (fresh_gateway bd ps, \<lparr> sd_counter = None, sd_files = (\<lambda>_. NoFile) \<rparr>)"
    "box_of rd home (fresh_gateway bd ps, \<lparr> sd_counter = None, sd_files = (\<lambda>_. NoFile) \<rparr>) = empty_box"
proof -
  show "sim_ok shw rd home (fresh_gateway bd ps, \<lparr> sd_counter = None, sd_files = (\<lambda>_. NoFile) \<rparr>)"
    using assms by (simp add: sim_ok_def st_ok_def sched_ok_def disk_ok_def read_scheduled_def counter_value_def)
  show "box_of rd home (fresh_gateway bd ps, \<lparr> sd_counter = None, sd_files = (\<lambda>_. NoFile) \<rparr>) = empty_box"
    by (simp add: box_of_def empty_box_def counter_value_def fun_eq_iff kept_in_def read_scheduled_def)
qed

lemma sched_simulation:
  assumes c: "codec_ok shw rd" and r: "sched_reach shw rd home st tr"
  shows "sim_ok shw rd home st \<and> box_reach (box_of rd home st) tr"
  using r
proof induction
  case (boot bd ps)
  then show ?case using boot_ok [OF c] box_start by simp
next
  case (creates st tr sd a ioc ior now vis st' res evs)
  obtain g d where st: "st = (g, d)" by (cases st)
  have ih: "sim_ok shw rd home (g, d)" "box_reach (box_of rd home (g, d)) tr" using creates.IH by (simp_all add: st)
  have lt: "sg_next g + 1 < 2 ^ 64" using creates.hyps(3) by (simp only: st fst_conv)
  show ?case
    using create_runs [OF ih(1) reach_ids_numbered [OF ih(2)] creates.hyps(2) lt creates.hyps(4) [unfolded st]]
      box_reach_run [OF _ ih(2)] by blast
next
  case (cancels st tr io s x st' res evs)
  obtain g d where st: "st = (g, d)" by (cases st)
  show ?case
    using cancel_runs [OF cancels.IH [THEN conjunct1, unfolded st] cancels.hyps(2) [unfolded st]]
      box_reach_run cancels.IH by (metis st)
next
  case (collects st tr gio now st' evs)
  then show ?case using gc_runs box_reach_run unfolding runs_def by blast
next
  case (fires st tr env now st' evs)
  then show ?case using fire_runs box_reach_run unfolding runs_def by blast
next
  case (dies st tr n now env st1 evs1 e st2 evs2)
  have ok: "sim_ok shw rd home st" using dies.IH by simp
  note pf = partly_fired_runs [OF ok dies.hyps(2,3,4,5,6)]
  show ?case using pf(1) box_reach_run [OF pf(2)] dies.IH by simp
next
  case (restarts g d tr listing ioc gio now bd ps st' evs)
  have "disk_ok rd home d" using restarts.IH by (simp add: sim_ok_def st_ok_def)
  note rr = restart_runs [OF c this restarts.hyps(2) _ restarts.hyps(3), of g]
  show ?case using rr reach_ids_numbered box_reach_run restarts.IH by blast
qed

lemma sched_box_ok:
  "codec_ok shw rd \<Longrightarrow> sched_reach shw rd home st tr \<Longrightarrow> box_ok (box_of rd home st) tr \<and> sim_ok shw rd home st"
  using sched_simulation box_reach_ok by blast

section \<open>The properties\<close>

text \<open>C16. Whatever users ask, whatever fails and whenever the daemon restarts, a scheduled message is submitted
  at most once in one life of the daemon, and at most once at all while no write was lost and no pass was cut
  short; what is submitted is exactly the message that was created, from its time on and for a day at most.\<close>

theorem scheduled_sent_at_most_once:
  assumes "codec_ok shw rd" "sched_reach shw rd home st tr"
  shows "distinct (sent_ids (this_life tr)) \<and> (undisturbed tr \<longrightarrow> distinct (sent_ids tr))
    \<and> (\<forall>now i. Sent now i \<in> set tr \<longrightarrow> Created i \<in> set tr \<and> si_send_at i \<le> now \<and> now \<le> si_send_at i + MAX_CATCH_UP_AGE)"
  using sched_box_ok [OF assms] unfolding box_ok_def sent_once_def settled_def by blast

text \<open>C17. No scheduled message is lost while every start reads all files: each one created is in memory unless it was
  submitted, cancelled or reported as failed. A message of a session that some start could not read is so
  accounted for as well, or its row lies in its file though memory has none of that session, or a message created
  since has rewritten the file without it: this is the one way to lose it. Each row in memory is on disk under its session, perhaps as the
  pending row it failed from; and while no write was lost, no pass cut short and every start read all files,
  memory and disk hold the same rows.\<close>

theorem scheduled_never_lost:
  assumes "codec_ok shw rd" "sched_reach shw rd home (g, d) tr"
  shows "(\<forall>i. Created i \<in> set tr \<longrightarrow> accounted (rows_in g) tr i \<or> overwritten tr i
         \<or> unread_before tr i \<and> si_id i \<in> si_id ` kept_in rd home d (si_sid i) \<and> of_sid (si_sid i) (rows_in g) = {})
    \<and> (all_read tr \<longrightarrow> (\<forall>i. Created i \<in> set tr \<longrightarrow> accounted (rows_in g) tr i))
    \<and> (\<forall>i \<in> rows_in g. \<exists>j \<in> kept_in rd home d (si_sid i). si_id j = si_id i
         \<and> (j = i \<or> si_status j = Pending \<and> si_status i = FailedRow))
    \<and> (undisturbed tr \<longrightarrow> all_read tr \<longrightarrow> (\<forall>s. kept_in rd home d s = of_sid s (rows_in g)))"
proof -
  have b: "box_ok (box_of rd home (g, d)) tr" using sched_box_ok [OF assms] by blast
  have t: "tracked (box_of rd home (g, d)) tr i" if "Created i \<in> set tr" for i using b that by (simp add: box_ok_def)
  have "accounted (rows_in g) tr i" if "Created i \<in> set tr" "all_read tr" for i
    using t [OF that(1)] not_overwritten [OF that(2)] by (simp add: tracked_def aside_def)
  then show ?thesis
    using t b unfolding tracked_def aside_def box_ok_def durable_def settled_def box_fields fst_conv snd_conv by blast
qed

text \<open>C19. A message whose cancellation succeeded is never submitted afterwards, across restarts too: it is neither
  in memory nor in any file.\<close>

theorem scheduled_cancel_is_final:
  assumes "codec_ok shw rd" "sched_reach shw rd home (g, d) tr"
  shows "(tr = us @ vs \<longrightarrow> Cancelled x \<in> set us \<longrightarrow> x \<notin> set (sent_ids vs))
    \<and> (Cancelled x \<in> set tr \<longrightarrow> map_of (sg_items g) x = None \<and> (\<forall>s. x \<notin> si_id ` kept_in rd home d s))"
proof -
  have b: "cancelled_gone (box_of rd home (g, d)) tr" and g: "sched_ok home g"
    using sched_box_ok [OF assms] by (auto simp: box_ok_def sim_ok_def st_ok_def)
  have "map_of (sg_items g) x = None" if "x \<notin> si_id ` rows_in g"
  proof (rule ccontr)
    assume "map_of (sg_items g) x \<noteq> None"
    then obtain e where "map_of (sg_items g) x = Some e" by blast
    then have "e \<in> set (entries_of g)" "si_id (se_item e) = x" using entry_known [OF g] by auto
    then show False using that by (force simp: rows_in_def)
  qed
  then show ?thesis
    using b by (auto simp: cancelled_gone_def gone_def disk_rows_def)
qed

text \<open>No id is given out twice, in this life or after a restart, and no session ever has more than twenty
  pending messages, in memory or on disk.\<close>

theorem scheduled_ids_and_caps:
  assumes "codec_ok shw rd" "sched_reach shw rd home (g, d) tr"
  shows "distinct (created_ids tr) \<and> sid_pending g s \<le> MAX_PENDING_PER_SID
    \<and> card (pending_of s (kept_in rd home d s)) \<le> MAX_PENDING_PER_SID"
proof -
  have "sched_ok home g" using sched_box_ok [OF assms] by (simp add: sim_ok_def st_ok_def)
  from card_pending [OF this] show ?thesis
    using sched_box_ok [OF assms] by (simp add: box_ok_def within_cap_def)
qed

section \<open>A concrete history\<close>

definition ex_shw :: "int \<Rightarrow> utext" where
  "ex_shw t = [nat t, nat (- t)]"

definition ex_rd :: "utext \<Rightarrow> int option" where
  "ex_rd u = (case u of [a, b] \<Rightarrow> Some (int a - int b) | _ \<Rightarrow> None)"

definition ex_home :: "sid \<Rightarrow> utext \<times> utext" where
  "ex_home s = (lit ''demo'', lit ''/p'')"

definition ex_dirs :: session_dirs where
  "ex_dirs = \<lparr> live_project = (\<lambda>_. Some (lit ''demo'')), project_dir = (\<lambda>_. Some (lit ''/p'')), meta_of = (\<lambda>_. None) \<rparr>"

definition ex_args :: create_args where
  "ex_args = \<lparr> ca_sid = lit ''s1'', ca_text = lit ''hello'', ca_send_at = 100, ca_by = lit ''me'',
     ca_reply_channel = None, ca_reply_chat = None \<rparr>"

definition ex_boot :: sched_state where
  "ex_boot = (fresh_gateway (\<lambda>_ _ _. []) True, \<lparr> sd_counter = None, sd_files = (\<lambda>_. NoFile) \<rparr>)"

definition ex_item :: scheduled_item where
  "ex_item = new_item ex_args (lit ''demo'') 1 50"

definition ex_created :: sched_state where
  "ex_created = fst (create_scheduled_message_inner ex_dirs ex_shw fs_good fs_good 50 ex_args 0 ex_boot)"

definition ex_fire_env :: "attempt \<Rightarrow> utext \<Rightarrow> fire_env" where
  "ex_fire_env a x = \<lparr> fe_attempt = a, fe_clock = 200, fe_io = fs_good \<rparr>"

lemma ex_codec: "codec_ok ex_shw ex_rd"
  by (simp add: codec_ok_def ex_shw_def ex_rd_def)

lemma dec_1: "dec 1 = [49]"
  by (simp add: dec_def digit_char_def radix_digits.simps)

lemma ex_create: "create_scheduled_message_inner ex_dirs ex_shw fs_good fs_good 50 ex_args 0 ex_boot
    = (ex_created, Inr ex_item, emit_scheduled_progress (fst ex_boot) ex_item SCHEDULED_ENQUEUED None @ [Changed ex_item, Wake])"
proof -
  have t: "trim (lit ''hello'') \<noteq> []"
    by (simp add: trim_def trim_start_def trim_end_def lit_def is_whitespace_def)
  have "snd (create_scheduled_message_inner ex_dirs ex_shw fs_good fs_good 50 ex_args 0 ex_boot)
    = (Inr ex_item, emit_scheduled_progress (fst ex_boot) ex_item SCHEDULED_ENQUEUED None @ [Changed ex_item, Wake])"
    using t by (simp add: create_scheduled_message_inner_def ex_boot_def ex_args_def ex_dirs_def MAX_HORIZON_def one_hour_def
        scheduled_target_def sid_pending_def entries_of_def fresh_gateway_def MAX_PENDING_PER_SID_def MAX_PENDING_VISIBLE_def
        persist_next_scheduled_def fs_good_def atomic_write_ok_def persist_scheduled_sid_def write_scheduled_def
        atomic_write_durable_def put_item_def ex_item_def emit_scheduled_progress_def Let_def)
  then show ?thesis by (simp add: ex_created_def prod_eq_iff)
qed

lemma ex_created_eq: "entries_of (fst ex_created) = [\<lparr> se_dir = lit ''/p'', se_item = ex_item \<rparr>]"
  "sg_firing (fst ex_created) = {}"
proof -
  have t: "trim (lit ''hello'') \<noteq> []"
    by (simp add: trim_def trim_start_def trim_end_def lit_def is_whitespace_def)
  then show "entries_of (fst ex_created) = [\<lparr> se_dir = lit ''/p'', se_item = ex_item \<rparr>]" "sg_firing (fst ex_created) = {}"
    by (simp_all add: ex_created_def create_scheduled_message_inner_def ex_boot_def ex_args_def ex_dirs_def MAX_HORIZON_def one_hour_def
        scheduled_target_def sid_pending_def entries_of_def fresh_gateway_def MAX_PENDING_PER_SID_def MAX_PENDING_VISIBLE_def
        persist_next_scheduled_def fs_good_def atomic_write_ok_def persist_scheduled_sid_def write_scheduled_def
        atomic_write_durable_def put_item_def ex_item_def Let_def)
qed

lemma ex_reach_created: "sched_reach ex_shw ex_rd ex_home ex_created [Created ex_item]"
proof -
  have b: "sched_reach ex_shw ex_rd ex_home ex_boot []" unfolding ex_boot_def by (rule boot)
  have "t = ex_home (ca_sid ex_args)" if "scheduled_target ex_dirs (ca_sid ex_args) = Inr t" for t
    using that by (simp add: scheduled_target_def ex_dirs_def ex_home_def)
  moreover have "sg_next (fst ex_boot) + 1 < 2 ^ 64" by (simp add: ex_boot_def)
  ultimately show ?thesis using creates [OF b _ _ ex_create] by simp
qed

definition ex_fired :: sched_state where
  "ex_fired = fst (fire_due_scheduled ex_shw (ex_fire_env (Submitted (Inr Turn))) 150 ex_created)"

lemma ex_fire_labels: "labels_of 150 (snd (fire_due_scheduled ex_shw (ex_fire_env (Submitted (Inr Turn))) 150 ex_created))
    = [Sent 150 ex_item]"
proof -
  obtain g d where c: "ex_created = (g, d)" by (cases ex_created)
  have e: "entries_of g = [\<lparr> se_dir = lit ''/p'', se_item = ex_item \<rparr>]" "sg_firing g = {}"
    using ex_created_eq unfolding c fst_conv by blast+
  have r: "si_status ex_item = Pending" "si_send_at ex_item = 100" by (simp_all add: ex_item_def new_item_def ex_args_def)
  have due: "due_entries 150 g = [\<lparr> se_dir = lit ''/p'', se_item = ex_item \<rparr>]"
    by (simp add: due_entries_def e r is_pending_def)
  have io: "persist_scheduled_sid fs_good shw dir s st \<noteq> (st', False)" for shw dir s st st'
    by (auto simp: persist_scheduled_sid_def write_scheduled_def atomic_write_durable_def fs_good_def split: prod.splits)
  show ?thesis
    using r io
    by (simp add: fire_due_scheduled_def c due fire_one_def too_late_def MAX_CATCH_UP_AGE_def one_hour_def
        begin_fire_def end_fire_def ex_fire_env_def submit_outcome_def complete_scheduled_fire_def Let_def split: prod.splits)
qed

lemma ex_reach_fired: "sched_reach ex_shw ex_rd ex_home ex_fired [Created ex_item, Sent 150 ex_item]"
  using fires [OF ex_reach_created, of "ex_fire_env (Submitted (Inr Turn))" 150 ex_fired] ex_fire_labels
  unfolding ex_fired_def by (metis append_Cons append_Nil prod.collapse)

theorem scheduled_sent_at_most_once_witness:
  "distinct (sent_ids (this_life [Created ex_item, Sent 150 ex_item])) \<and> 150 \<le> si_send_at ex_item + MAX_CATCH_UP_AGE"
  using scheduled_sent_at_most_once [OF ex_codec ex_reach_fired] by simp

theorem scheduled_never_lost_witness:
  "accounted (rows_in (fst ex_created)) [Created ex_item] ex_item
    \<and> (\<exists>j \<in> kept_in ex_rd ex_home (snd ex_created) (lit ''s1''). si_id j = si_id ex_item)"
proof -
  have r: "sched_reach ex_shw ex_rd ex_home (fst ex_created, snd ex_created) [Created ex_item]" using ex_reach_created by simp
  have "ex_item \<in> rows_in (fst ex_created)" "si_sid ex_item = lit ''s1''"
    by (simp_all add: rows_in_def ex_created_eq ex_item_def ex_args_def)
  then show ?thesis using scheduled_never_lost [OF ex_codec r] by fastforce
qed

definition ex_cancelled :: sched_state where
  "ex_cancelled = fst (cancel_scheduled_message ex_shw fs_good (lit ''s1'') (si_id ex_item) ex_created)"

lemma ex_reach_cancelled: "sched_reach ex_shw ex_rd ex_home ex_cancelled [Created ex_item, Cancelled (si_id ex_item)]"
proof -
  obtain g d where c: "ex_created = (g, d)" by (cases ex_created)
  have ok: "sim_ok ex_shw ex_rd ex_home (g, d)" using sched_simulation [OF ex_codec ex_reach_created] by (simp add: c)
  have e: "\<lparr> se_dir = lit ''/p'', se_item = ex_item \<rparr> \<in> set (entries_of g)" using ex_created_eq(1) unfolding c fst_conv by simp
  have m: "map_of (sg_items g) (si_id ex_item) = Some \<lparr> se_dir = lit ''/p'', se_item = ex_item \<rparr>"
    using gw_entry(1) [OF known_entry(1) [OF ok e] e] by simp
  have s: "si_sid ex_item = lit ''s1''" by (simp add: ex_item_def ex_args_def)
  obtain st' evs where "cancel_scheduled_message ex_shw fs_good (lit ''s1'') (si_id ex_item) ex_created = (st', Inr ex_item, evs)"
    by (auto simp: c cancel_scheduled_message_def m s persist_scheduled_sid_def write_scheduled_def atomic_write_durable_def
        fs_good_def Let_def)
  then show ?thesis
    using cancels [OF ex_reach_created, of fs_good "lit ''s1''" "si_id ex_item" st' "Inr ex_item" evs] by (simp add: ex_cancelled_def)
qed

theorem scheduled_cancel_is_final_witness:
  "map_of (sg_items (fst ex_cancelled)) (si_id ex_item) = None"
proof -
  have "sched_reach ex_shw ex_rd ex_home (fst ex_cancelled, snd ex_cancelled) [Created ex_item, Cancelled (si_id ex_item)]"
    using ex_reach_cancelled by simp
  from scheduled_cancel_is_final [OF ex_codec this, of "[]" "[]" "si_id ex_item"] show ?thesis by simp
qed

theorem scheduled_ids_and_caps_witness:
  "sid_pending (fst ex_created) (lit ''s1'') \<le> MAX_PENDING_PER_SID \<and> distinct (created_ids [Created ex_item])"
proof -
  have "sched_reach ex_shw ex_rd ex_home (fst ex_created, snd ex_created) [Created ex_item]" using ex_reach_created by simp
  from scheduled_ids_and_caps [OF ex_codec this, of "lit ''s1''"] show ?thesis by blast
qed

section \<open>The timer\<close>

text \<open>Firing does not bring back a row, and a row it fails is kept for a day from the moment it failed.\<close>

definition row_changes :: "int \<Rightarrow> scheduled_item set \<Rightarrow> scheduled_item set \<Rightarrow> bool" where
  "row_changes now R R' \<longleftrightarrow> (\<forall>i \<in> R'. i \<in> R \<or> (si_status i = FailedRow \<and> (\<exists>t \<ge> now. si_failed_at i = Some t)))"

lemma fail_rows:
  assumes "sim_ok shw rd home (g, d)" "e \<in> set (entries_of g)" "now \<le> clock"
  shows "row_changes now (rows_in g) (rows_in (put_item (mark_failed clock r e) g))
    \<and> se_item e \<notin> {i \<in> rows_in (put_item (mark_failed clock r e) g). si_status i = Pending}"
proof -
  have "rows_in (put_item (mark_failed clock r e) g) = insert (se_item (mark_failed clock r e)) (rows_in g - {se_item e})"
    by (rule rows_put [OF known_entry(1) [OF assms(1,2)] assms(2)]) simp
  moreover have "si_status (se_item e) = Pending \<Longrightarrow> se_item e \<noteq> se_item (mark_failed clock r e)"
    by (metis mark_failed_simps(5) scheduled_status.distinct(1))
  moreover have "si_failed_at (se_item (mark_failed clock r e)) = Some clock" by (simp add: mark_failed_def)
  ultimately show ?thesis using assms(3) by (auto simp: row_changes_def)
qed

lemma fire_one_rows:
  assumes ok: "sim_ok shw rd home (g, d)" and r: "firable now (g, d) e" and clk: "now \<le> fe_clock (env (si_id (se_item e)))"
    and j: "fire_one shw env now e ((g, d), evs) = (st', evs')"
  shows "row_changes now (rows_in g) (rows_in (fst st'))
    \<and> se_item e \<notin> {i \<in> rows_in (fst st'). si_status i = Pending} \<and> sg_firing (fst st') = sg_firing g"
proof -
  let ?x = "si_id (se_item e)"
  let ?g = "g \<lparr> sg_firing := insert ?x (sg_firing g) \<rparr>"
  have e: "e \<in> set (entries_of g)" "is_pending e" "?x \<notin> sg_firing g" using r by (auto simp: firable_def)
  have ok1: "sim_ok shw rd home (?g, d)" and e1: "e \<in> set (entries_of ?g)" using ok e(1) by simp_all
  show ?thesis
  proof (cases "too_late now e")
    case True
    obtain st1 evs1 where f: "fail_scheduled shw (fe_io (env ?x)) (fe_clock (env ?x)) ?x (lit ''catch-up is older than 24 hours'') (g, d) = (st1, evs1)"
      by (cases "fail_scheduled shw (fe_io (env ?x)) (fe_clock (env ?x)) ?x (lit ''catch-up is older than 24 hours'') (g, d)")
    have "st' = st1" using j True f by (simp add: fire_one_def Let_def)
    moreover have "fst st1 = put_item (mark_failed (fe_clock (env ?x)) (lit ''catch-up is older than 24 hours'') e) g"
      using fail_sim [OF ok e(1) f] by blast
    ultimately show ?thesis using fail_rows [OF ok e(1) clk] by simp
  next
    case False
    obtain st2 evs2 where n: "end_fire shw (env ?x) e (?g, d) = (st2, evs2)" by (cases "end_fire shw (env ?x) e (?g, d)")
    have st': "st' = st2" using j False n by (simp add: fire_one_def begin_fire_def Let_def)
    show ?thesis
    proof (cases "submit_outcome (fe_attempt (env ?x)) = Some (Inr ())")
      case True
      obtain st evs3 where c: "complete_scheduled_fire shw (fe_io (env ?x)) e (?g, d) = (st, evs3)"
        by (cases "complete_scheduled_fire shw (fe_io (env ?x)) e (?g, d)")
      have "st2 = (fst st \<lparr> sg_firing := sg_firing (fst st) - {?x} \<rparr>, snd st)"
        using n c True by (simp add: end_fire_def)
      moreover have "fst st = drop_item ?x ?g" using complete_sim [OF ok1 e1 e(2) c] by blast
      ultimately show ?thesis
        using e(3) rows_drop [OF known_entry(1) [OF ok e(1)] e(1)] by (auto simp: st' row_changes_def)
    next
      case False
      obtain reason where "end_fire shw (env ?x) e (?g, d) = (let (s, ev) = fail_scheduled shw (fe_io (env ?x)) (fe_clock (env ?x)) ?x reason (?g, d)
          in ((fst s \<lparr> sg_firing := sg_firing (fst s) - {?x} \<rparr>, snd s), ev))"
      proof (cases "submit_outcome (fe_attempt (env ?x))")
        case None
        then show thesis using that by (simp add: end_fire_def)
      next
        case (Some a)
        then obtain q where "a = Inl q" using False by (cases a) auto
        then show thesis using that Some by (simp add: end_fire_def)
      qed
      then obtain st evs3 where c: "fail_scheduled shw (fe_io (env ?x)) (fe_clock (env ?x)) ?x reason (?g, d) = (st, evs3)"
        and s2: "st2 = (fst st \<lparr> sg_firing := sg_firing (fst st) - {?x} \<rparr>, snd st)"
        using n by (cases "fail_scheduled shw (fe_io (env ?x)) (fe_clock (env ?x)) ?x reason (?g, d)") auto
      have "fst st = put_item (mark_failed (fe_clock (env ?x)) reason e) ?g" using fail_sim [OF ok1 e1 c] by blast
      then show ?thesis
        using s2 e(3) fail_rows [OF ok e(1) clk, of reason] by (auto simp: st')
    qed
  qed
qed

lemma row_changes_trans: "row_changes now R R1 \<Longrightarrow> row_changes now R1 R2 \<Longrightarrow> row_changes now R R2"
  unfolding row_changes_def by blast

lemma fire_pass_rows:
  assumes "sim_ok shw rd home st" "\<And>e. e \<in> set es \<Longrightarrow> firable now st e" "distinct (map entry_id es)"
    "\<And>e. e \<in> set es \<Longrightarrow> now \<le> fe_clock (env (si_id (se_item e)))" "fold (fire_one shw env now) es (st, evs) = (st', evs')"
  shows "row_changes now (rows_in (fst st)) (rows_in (fst st')) \<and> sg_firing (fst st') = sg_firing (fst st)
    \<and> (\<forall>e \<in> set es. se_item e \<notin> {i \<in> rows_in (fst st'). si_status i = Pending})"
  using assms
proof (induction es arbitrary: st evs)
  case Nil
  then show ?case by (simp add: row_changes_def)
next
  case (Cons e es)
  obtain g d where st: "st = (g, d)" by (cases st)
  obtain st1 evs1 where j: "fire_one shw env now e (st, evs) = (st1, evs1)" by (cases "fire_one shw env now e (st, evs)")
  have fe: "firable now st e" using Cons.prems(2) by simp
  obtain "sim_ok shw rd home st1" and keep: "\<forall>y. entry_id y \<noteq> entry_id e \<longrightarrow> firable now st y \<longrightarrow> firable now st1 y"
    using fire_one_runs [OF Cons.prems(1) fe j] by blast
  note one = fire_one_rows [OF Cons.prems(1) [unfolded st] fe [unfolded st] _ j [unfolded st]]
  have "firable now st1 y" if "y \<in> set es" for y
  proof -
    have "entry_id y \<noteq> entry_id e" using Cons.prems(3) that by (auto simp: image_iff)
    then show ?thesis using keep Cons.prems(2) that by simp
  qed
  then have rest: "row_changes now (rows_in (fst st1)) (rows_in (fst st')) \<and> sg_firing (fst st') = sg_firing (fst st1)
    \<and> (\<forall>e \<in> set es. se_item e \<notin> {i \<in> rows_in (fst st'). si_status i = Pending})"
    using Cons.IH [OF \<open>sim_ok shw rd home st1\<close>] Cons.prems(3-5) j by simp
  have "se_item e \<notin> {i \<in> rows_in (fst st'). si_status i = Pending}"
    using one Cons.prems(4) rest by (auto simp: row_changes_def)
  then show ?case
    using rest one Cons.prems(4) row_changes_trans by (auto simp: st)
qed

definition deadline :: "scheduled_item \<Rightarrow> int option" where
  "deadline i = (case si_status i of
       Pending \<Rightarrow> Some (si_send_at i)
     | FailedRow \<Rightarrow> map_option (\<lambda>f. f + FAILED_RETENTION) (si_failed_at i))"

lemma next_scheduled_least:
  "(next_scheduled_at g = None \<longleftrightarrow> (\<forall>i \<in> rows_in g. deadline i = None))
   \<and> (next_scheduled_at g = Some t \<longrightarrow> (\<exists>i \<in> rows_in g. deadline i = Some t) \<and> (\<forall>i \<in> rows_in g. \<forall>x. deadline i = Some x \<longrightarrow> t \<le> x))"
proof -
  let ?l = "List.map_filter (\<lambda>e. deadline (se_item e)) (entries_of g)"
  have n: "next_scheduled_at g = (case ?l of [] \<Rightarrow> None | t # ts \<Rightarrow> Some (fold min ts t))"
    unfolding next_scheduled_at_def deadline_def ..
  have m: "x \<in> set ?l \<longleftrightarrow> (\<exists>i \<in> rows_in g. deadline i = Some x)" for x
    by (auto simp: mem_map_filter rows_in_def)
  show ?thesis
  proof (cases ?l)
    case Nil
    then have "\<not> (\<exists>i \<in> rows_in g. deadline i = Some x)" for x using m [of x] by simp
    then show ?thesis using Nil n by (metis list.case(1) not_Some_eq option.distinct(1))
  next
    case (Cons u us)
    have "fold min us u = Min (set (u # us))" by (rule Min.set_eq_fold [symmetric])
    then have nx: "next_scheduled_at g = Some (Min (set ?l))" using n Cons by simp
    have "Min (set ?l) \<in> set ?l" and le: "\<And>x. x \<in> set ?l \<Longrightarrow> Min (set ?l) \<le> x" 
      using Min_in [of "set ?l"] Min_le [of "set ?l"] Cons by (simp, blast)
    then show ?thesis using nx m by (metis option.distinct(1) option.inject)
  qed
qed

definition io_good :: "fs_outcome \<Rightarrow> bool" where
  "io_good io \<longleftrightarrow> fs_mkdir_ok io \<and> atomic_write_ok io"

lemma gc_one_good: "io_good (io (fst p)) \<Longrightarrow> fst (fst (gc_one shw io p (st, evs))) = drop_item (fst p) (fst st)"
  by (cases p, cases st) (auto simp: io_good_def atomic_write_ok_def persist_scheduled_sid_def write_scheduled_def
      atomic_write_durable_def Let_def)

lemma gc_fold_good:
  assumes "\<And>x. io_good (io x)"
  shows "fst (fst (fold (gc_one shw io) ps (st, evs))) = fold (\<lambda>p. drop_item (fst p)) ps (fst st)"
proof (induction ps arbitrary: st evs)
  case (Cons p ps)
  obtain st1 evs1 where "gc_one shw io p (st, evs) = (st1, evs1)" by (cases "gc_one shw io p (st, evs)")
  then show ?case using Cons gc_one_good [of io p shw st evs] assms by simp
qed simp

lemma fold_drop_items: "set (sg_items (fold (\<lambda>p. drop_item (fst p)) ps g)) = {q \<in> set (sg_items g). fst q \<notin> fst ` set ps}"
  by (induction ps arbitrary: g) (auto simp: drop_item_def set_bt_remove)

lemma gc_good_rows:
  assumes "\<And>x. io_good (io x)" "gc_failed_scheduled shw io now st = (st', evs)"
  shows "rows_in (fst st') \<subseteq> {i \<in> rows_in (fst st). \<not> failed_expired now i} \<and> sg_firing (fst st') = sg_firing (fst st)"
proof -
  have g: "fst st' = fold (\<lambda>p. drop_item (fst p)) (expired_rows now (fst st)) (fst st)"
    using gc_fold_good [of io shw "expired_rows now (fst st)" st "[]"] assms by (simp add: gc_failed_scheduled_def)
  have f: "sg_firing (fold (\<lambda>p. drop_item (fst p)) ps h) = sg_firing h" for ps :: "(utext \<times> scheduled_entry) list" and h
    by (induction ps arbitrary: h) simp_all
  have "\<not> failed_expired now (se_item (snd q)) \<and> q \<in> set (sg_items (fst st))" if "q \<in> set (sg_items (fst st'))" for q
    using that fold_drop_items [of "expired_rows now (fst st)" "fst st"] by (force simp: g expired_rows_def)
  then have "rows_in (fst st') \<subseteq> {i \<in> rows_in (fst st). \<not> failed_expired now i}"
    by (auto simp: rows_in_def entries_of_def)
  then show ?thesis using f by (simp add: g)
qed

text \<open>C18. A round of the timer leaves no message due but those an earlier pass was sending when it died (their ids are
  still marked as firing), whatever became of the submissions and their writes, and asks to be woken not after the next
  message is due; it asks to be woken at once only for a message so marked. This is for a round whose collecting
  writes succeed and during which the clock does not go back.\<close>

theorem timer_leaves_nothing_due:
  assumes "codec_ok shw rd" "sched_reach shw rd home st tr"
    and gio: "\<And>x. io_good (gio x)" and clk: "\<And>x. now \<le> fe_clock (env x)"
    and j: "scheduler_round shw gio env now st = (st', evs, wake)"
  shows "(\<forall>i \<in> rows_in (fst st'). si_status i = Pending
        \<longrightarrow> (now < si_send_at i \<or> si_id i \<in> sg_firing (fst st)) \<and> (\<exists>t. wake = Some t \<and> t \<le> si_send_at i))
    \<and> (\<forall>t. wake = Some t \<longrightarrow> now < t
        \<or> (\<exists>i \<in> rows_in (fst st'). si_status i = Pending \<and> si_id i \<in> sg_firing (fst st) \<and> si_send_at i = t))"
proof -
  have ok: "sim_ok shw rd home st" using sched_box_ok assms(1,2) by blast
  obtain st1 evs1 where gc: "gc_failed_scheduled shw gio now st = (st1, evs1)" by (cases "gc_failed_scheduled shw gio now st")
  have ok1: "sim_ok shw rd home st1" using gc_runs [OF ok gc] by simp
  note g1 = gc_good_rows [OF gio gc]
  have f1: "sg_firing (fst st1) = sg_firing (fst st)" using g1 by simp
  have later: "now < t" if "i \<in> rows_in (fst st1)" "si_status i = FailedRow" "deadline i = Some t" for i t
    using g1 that by (auto simp: failed_expired_def deadline_def split: option.splits)
  have final: "\<forall>i \<in> rows_in (fst st'). \<forall>t. deadline i = Some t
      \<longrightarrow> now < t \<or> si_status i = Pending \<and> si_id i \<in> sg_firing (fst st)"
  proof (cases "\<exists>t. next_scheduled_at (fst st1) = Some t \<and> t \<le> now")
    case True
    then obtain t where t: "next_scheduled_at (fst st1) = Some t" "t \<le> now" by blast
    obtain evs2 where fd: "fire_due_scheduled shw env now st1 = (st', evs2)"
      using j gc t by (auto simp: scheduler_round_def Let_def split: prod.splits)
    obtain g d where st1: "st1 = (g, d)" by (cases st1)
    have gw: "sched_ok home g" using ok1 by (simp add: st1 sim_ok_def st_ok_def)
    have fold: "fold (fire_one shw env now) (due_entries now g) (st1, []) = (st', evs2)"
      using fd by (simp add: fire_due_scheduled_def st1)
    have ready: "firable now st1 e" if "e \<in> set (due_entries now g)" for e
      using due_firable that by (simp add: st1)
    note fp = fire_pass_rows [OF ok1 ready due_distinct [OF gw] clk fold]
    show ?thesis
    proof (intro ballI allI impI)
      fix i x assume i: "i \<in> rows_in (fst st')" and x: "deadline i = Some x"
      consider "i \<in> rows_in g" "si_status i = Pending" | "i \<in> rows_in g" "si_status i = FailedRow"
        | t where "si_status i = FailedRow" "now \<le> t" "si_failed_at i = Some t"
        using fp i by (cases "si_status i") (auto simp: row_changes_def st1)
      then show "now < x \<or> si_status i = Pending \<and> si_id i \<in> sg_firing (fst st)"
      proof cases
        case 1
        then obtain e where e: "e \<in> set (entries_of g)" "se_item e = i" by (auto simp: rows_in_def)
        have "e \<notin> set (due_entries now g)" using fp i 1 e(2) by auto
        then have "now < si_send_at i \<or> si_id i \<in> sg_firing (fst st)"
          using e 1 f1 by (auto simp: due_entries_def is_pending_def st1)
        then show ?thesis using x 1 by (auto simp: deadline_def)
      next
        case 2
        then show ?thesis using later x by (simp add: st1)
      next
        case 3
        then show ?thesis using x by (simp add: deadline_def FAILED_RETENTION_def one_hour_def)
      qed
    qed
  next
    case False
    then have "st' = st1" using j gc by (auto simp: scheduler_round_def Let_def split: option.splits prod.splits if_splits)
    moreover have "now < t" if "i \<in> rows_in (fst st1)" "deadline i = Some t" for i t
      using False next_scheduled_least [of "fst st1"] that by (metis not_less option.distinct(1) option.exhaust order_trans)
    ultimately show ?thesis by blast
  qed
  have wake: "wake = next_scheduled_at (fst st')"
    using j by (auto simp: scheduler_round_def Let_def split: prod.splits)
  note least = next_scheduled_least [of "fst st'"]
  show ?thesis
  proof (intro conjI ballI allI impI)
    fix i assume i: "i \<in> rows_in (fst st')" "si_status i = Pending"
    then have d: "deadline i = Some (si_send_at i)" by (simp add: deadline_def)
    show "now < si_send_at i \<or> si_id i \<in> sg_firing (fst st)" using final i d by blast
    obtain t where "wake = Some t" using least i d wake by fastforce
    moreover from this have "t \<le> si_send_at i" using least [of t] i d wake by simp
    ultimately show "\<exists>t. wake = Some t \<and> t \<le> si_send_at i" by simp
  next
    fix t assume "wake = Some t"
    then obtain i where i: "i \<in> rows_in (fst st')" "deadline i = Some t" using least [of t] wake by auto
    then consider "now < t" | "si_status i = Pending" "si_id i \<in> sg_firing (fst st)" using final by blast
    then show "now < t \<or> (\<exists>i \<in> rows_in (fst st'). si_status i = Pending \<and> si_id i \<in> sg_firing (fst st) \<and> si_send_at i = t)"
      by cases (use i in \<open>auto simp: deadline_def\<close>)
  qed
qed

theorem timer_leaves_nothing_due_witness:
  "{i \<in> rows_in (fst (fst (scheduler_round ex_shw (\<lambda>_. fs_good) (ex_fire_env Panicked) 150 ex_created))).
     si_status i = Pending \<and> si_send_at i \<le> 150} = {}"
proof -
  obtain st' evs wake where j: "scheduler_round ex_shw (\<lambda>_. fs_good) (ex_fire_env Panicked) 150 ex_created = (st', evs, wake)"
    by (cases "scheduler_round ex_shw (\<lambda>_. fs_good) (ex_fire_env Panicked) 150 ex_created")
  have "io_good fs_good" by (simp add: io_good_def atomic_write_ok_def fs_good_def)
  moreover have "150 \<le> fe_clock (ex_fire_env Panicked x)" for x by (simp add: ex_fire_env_def)
  ultimately show ?thesis
    using timer_leaves_nothing_due [OF ex_codec ex_reach_created _ _ j] ex_created_eq(2) by (fastforce simp: j)
qed

lemma gc_fold_bad:
  assumes bad: "\<And>x. \<not> fs_mkdir_ok (io x)" and g: "sched_ok home g" and ps: "\<And>p. p \<in> set ps \<Longrightarrow> p \<in> set (sg_items g)"
    and o: "fold (gc_one shw io) ps ((g, d), evs) = ((g', d'), evs')"
  shows "sched_ok home g' \<and> set (sg_items g') = set (sg_items g)"
  using g ps o
proof (induction ps arbitrary: g d evs)
  case (Cons p ps)
  obtain x e where p: "p = (x, e)" by (cases p)
  have xe: "(x, e) \<in> set (sg_items g)" using Cons.prems(2) [of p] by (simp add: p)
  then have m: "map_of (sg_items g) x = Some e" using Cons.prems(1) by (simp add: sched_ok_def ordered_map_of)
  note ke = entry_known [OF Cons.prems(1) m]
  let ?g = "put_item e (drop_item x g)"
  have one: "gc_one shw io p ((g, d), evs) = ((?g, d), evs @ [Warned ''persist scheduled failed-item GC failed'' x])"
    using bad ke(2) by (simp add: p persist_scheduled_sid_def write_scheduled_def put_item_def)
  have "sched_ok home ?g" using put_again(1) [OF Cons.prems(1) ke(1)] ke(2) by simp
  moreover have "set (sg_items ?g) = set (sg_items g)"
  proof -
    have o': "ordered (bt_remove x (sg_items g))"
      using Cons.prems(1) by (intro ordered_bt_remove) (simp add: sched_ok_def)
    have only: "q = (x, e)" if "q \<in> set (sg_items g)" "fst q = x" for q
    proof -
      have "distinct (map fst (sg_items g))" using Cons.prems(1) by (simp add: sched_ok_def strict_sorted_iff)
      moreover have "(x, snd q) \<in> set (sg_items g)" using that by (metis prod.collapse)
      ultimately have "snd q = e" using xe by (rule eq_key_imp_eq_value)
      then show ?thesis using that(2) by (metis prod.collapse)
    qed
    have "sg_items ?g = bt_insert x e (bt_remove x (sg_items g))" by (simp add: put_item_def drop_item_def ke(2))
    then have "set (sg_items ?g) = insert (x, e) {q \<in> set (sg_items g). fst q \<noteq> x}"
      using set_bt_insert [OF o', of x e] by (simp add: set_bt_remove)
    also have "\<dots> = set (sg_items g)" using xe only by blast
    finally show ?thesis .
  qed
  ultimately show ?case using Cons.IH [of ?g] Cons.prems(2,3) one by simp
qed simp

text \<open>When the file of an expired failed row cannot be written, the row stays expired: the round asks to be woken
  at a moment that has passed, so the loop runs again at once, and again.\<close>

theorem failed_collection_spins:
  assumes "codec_ok shw rd" "sched_reach shw rd home st tr" "\<And>x. \<not> fs_mkdir_ok (gio x)"
    "expired_rows now (fst st) \<noteq> []" "due_entries now (fst st) = []"
  shows "\<exists>st' evs t. scheduler_round shw gio env now st = (st', evs, Some t) \<and> t \<le> now
    \<and> expired_rows now (fst st') \<noteq> []"
proof -
  have ok: "sim_ok shw rd home st" using sched_box_ok assms(1,2) by blast
  obtain g d where st: "st = (g, d)" by (cases st)
  have gw: "sched_ok home g" using ok by (simp add: st sim_ok_def st_ok_def)
  obtain g1 d1 evs1 where gc: "gc_failed_scheduled shw gio now st = ((g1, d1), evs1)"
    by (cases "gc_failed_scheduled shw gio now st") auto
  have same: "set (sg_items g1) = set (sg_items g)"
  proof -
    have "fold (gc_one shw gio) (expired_rows now g) ((g, d), []) = ((g1, d1), evs1)"
      using gc by (simp add: gc_failed_scheduled_def st)
    from gc_fold_bad [OF assms(3) gw _ this] show ?thesis by (simp add: expired_rows_def)
  qed
  have f1: "sg_firing g1 = sg_firing g"
  proof -
    have "sg_firing (fst (fst (gc_one shw gio p (s, ev)))) = sg_firing (fst s)" for p s ev
      by (cases p, cases s) (auto simp: persist_scheduled_sid_def Let_def split: prod.splits)
    then have "sg_firing (fst (fst (fold (gc_one shw gio) ps (s, ev)))) = sg_firing (fst s)" for ps s ev
    proof (induction ps arbitrary: s ev)
      case (Cons p ps)
      then show ?case by (cases "gc_one shw gio p (s, ev)") (metis comp_apply fold_simps(2) fst_conv)
    qed simp
    then show ?thesis using gc by (metis fst_conv gc_failed_scheduled_def st)
  qed
  have ents: "set (entries_of g1) = set (entries_of g)" using same by (simp add: entries_of_def)
  have none: "due_entries now g1 = []"
  proof -
    have "e \<notin> set (due_entries now g1)" for e
      using assms(5) ents f1 by (auto simp: due_entries_def st filter_empty_conv dest: arg_cong [where f = set])
    then show ?thesis by (cases "due_entries now g1") auto
  qed
  obtain p where p: "p \<in> set (sg_items g)" "failed_expired now (se_item (snd p))"
    using assms(4) by (auto simp: expired_rows_def st filter_empty_conv)
  then have ex1: "expired_rows now g1 \<noteq> []" using same by (auto simp: expired_rows_def filter_empty_conv)
  obtain t0 where t0: "deadline (se_item (snd p)) = Some t0" "t0 \<le> now"
    using p(2) by (auto simp: failed_expired_def deadline_def split: option.splits)
  have r: "se_item (snd p) \<in> rows_in g1" using p(1) same by (auto simp: rows_in_def entries_of_def)
  obtain t where t: "next_scheduled_at g1 = Some t" "t \<le> now"
    using next_scheduled_least [of g1] r t0 by (metis option.distinct(1) order_trans not_Some_eq)
  have "fire_due_scheduled shw env now (g1, d1) = ((g1, d1), [])" by (simp add: fire_due_scheduled_def none)
  then have "scheduler_round shw gio env now st = ((g1, d1), evs1, Some t)"
    using gc t by (simp add: scheduler_round_def)
  then show ?thesis using t(2) ex1 by auto
qed

definition ex_failed :: sched_state where
  "ex_failed = fst (fire_due_scheduled ex_shw (ex_fire_env Panicked) 150 ex_created)"

lemma ex_reach_failed: "\<exists>tr. sched_reach ex_shw ex_rd ex_home ex_failed tr"
  using fires [OF ex_reach_created, of "ex_fire_env Panicked" 150 ex_failed] unfolding ex_failed_def by (metis prod.collapse)

lemma ex_failed_rows: "\<exists>p \<in> set (sg_items (fst ex_failed)). si_status (se_item (snd p)) = FailedRow \<and> si_failed_at (se_item (snd p)) = Some 200"
  "due_entries now (fst ex_failed) = []"
proof -
  let ?e = "\<lparr> se_dir = lit ''/p'', se_item = ex_item \<rparr>" and ?r = "lit ''panicked while firing''"
  obtain g d where c: "ex_created = (g, d)" by (cases ex_created)
  have e: "entries_of g = [?e]" "sg_firing g = {}" using ex_created_eq unfolding c fst_conv by blast+
  have ok: "sim_ok ex_shw ex_rd ex_home (g, d)" using sched_simulation [OF ex_codec ex_reach_created] by (simp add: c)
  note gw = known_entry(1) [OF ok, of ?e] and r = ex_item_def new_item_def ex_args_def
  let ?g = "g \<lparr> sg_firing := {si_id ex_item} \<rparr>"
  have due: "due_entries 150 g = [?e]" by (simp add: due_entries_def e r is_pending_def)
  obtain st evs where f: "fail_scheduled ex_shw fs_good 200 (si_id ex_item) ?r (?g, d) = (st, evs)"
    by (cases "fail_scheduled ex_shw fs_good 200 (si_id ex_item) ?r (?g, d)")
  have ok1: "sim_ok ex_shw ex_rd ex_home (?g, d)" and e1: "?e \<in> set (entries_of ?g)" using ok e by simp_all
  have st: "fst st = put_item (mark_failed 200 ?r ?e) ?g" using fail_sim [OF ok1 e1, of fs_good 200 ?r st evs] f by auto
  have fa: "fst ex_failed = fst st \<lparr> sg_firing := sg_firing (fst st) - {si_id ex_item} \<rparr>"
    using f e(2) by (simp add: ex_failed_def c fire_due_scheduled_def due fire_one_def too_late_def MAX_CATCH_UP_AGE_def one_hour_def
        r begin_fire_def end_fire_def ex_fire_env_def submit_outcome_def Let_def split: prod.splits)
  have ents: "set (entries_of (fst ex_failed)) = {mark_failed 200 ?r ?e}"
    using entries_put [of ex_home ?g "mark_failed 200 ?r ?e"] gw e by (auto simp: fa st)
  show "\<exists>p \<in> set (sg_items (fst ex_failed)). si_status (se_item (snd p)) = FailedRow \<and> si_failed_at (se_item (snd p)) = Some 200"
  proof -
    have "mark_failed 200 ?r ?e \<in> snd ` set (sg_items (fst ex_failed))" using ents by (simp add: entries_of_def)
    then obtain p where "p \<in> set (sg_items (fst ex_failed))" "snd p = mark_failed 200 ?r ?e" by auto
    then show ?thesis by (intro bexI [of _ p]) (simp_all add: mark_failed_def)
  qed
  have "x \<notin> set (due_entries now (fst ex_failed))" for x
    using ents by (auto simp: due_entries_def is_pending_def)
  then show "due_entries now (fst ex_failed) = []" by (cases "due_entries now (fst ex_failed)") auto
qed

theorem failed_collection_spins_witness:
  "\<exists>st' evs t. scheduler_round ex_shw (\<lambda>_. fs_good \<lparr> fs_mkdir_ok := False \<rparr>) (ex_fire_env Panicked) (200 + FAILED_RETENTION) ex_failed
      = (st', evs, Some t) \<and> t \<le> 200 + FAILED_RETENTION \<and> expired_rows (200 + FAILED_RETENTION) (fst st') \<noteq> []"
proof -
  obtain tr where "sched_reach ex_shw ex_rd ex_home ex_failed tr" using ex_reach_failed by blast
  moreover have "expired_rows (200 + FAILED_RETENTION) (fst ex_failed) \<noteq> []"
    using ex_failed_rows(1) by (auto simp: expired_rows_def filter_empty_conv failed_expired_def)
  ultimately show ?thesis
    using failed_collection_spins [OF ex_codec] ex_failed_rows(2) by simp
qed

section \<open>A file that cannot be read\<close>

lemma bt_insert_subset: "set (bt_insert k v m) \<subseteq> insert (k, v) (set m)"
  by (induction k v m rule: bt_insert.induct) auto

lemma load_rows_subset: "rows_in (fold load_row L g) \<subseteq> rows_in g \<union> snd ` set L"
proof (induction L arbitrary: g)
  case (Cons p L)
  have "rows_in (load_row p g) \<subseteq> insert (snd p) (rows_in g)"
    using bt_insert_subset by (fastforce simp: load_row_def put_item_def rows_in_def entries_of_def Let_def split: option.splits)
  then show ?case using Cons [of "load_row p g"] by auto
qed simp

lemma gc_rows_subset:
  assumes "gc_failed_scheduled shw io now st = (st', evs)"
  shows "rows_in (fst st') \<subseteq> rows_in (fst st)"
proof -
  have one: "set (sg_items (fst (fst (gc_one shw io p (s, ev))))) \<subseteq> insert p (set (sg_items (fst s)))" for p s ev
    using bt_insert_subset by (cases p, cases s)
      (fastforce simp: persist_scheduled_sid_def drop_item_def set_bt_remove Let_def split: prod.splits if_splits)
  have "set (sg_items (fst (fst (fold (gc_one shw io) ps (s, ev))))) \<subseteq> set ps \<union> set (sg_items (fst s))" for ps s ev
  proof (induction ps arbitrary: s ev)
    case (Cons p ps)
    obtain s1 ev1 where "gc_one shw io p (s, ev) = (s1, ev1)" by (cases "gc_one shw io p (s, ev)")
    then show ?case using Cons [of s1 ev1] one [of p s ev] by auto
  qed simp
  from this [of "expired_rows now (fst st)" st "[]"] assms show ?thesis
    by (force simp: gc_failed_scheduled_def expired_rows_def rows_in_def entries_of_def)
qed

lemma scanned_sids:
  assumes "(dir, i) \<in> set (scan_scheduled rd d listing)"
  obtains slug sids where "(slug, dir, Some sids) \<in> set listing" "si_sid i \<in> set sids"
    "read_scheduled rd (sd_files d (dir, si_sid i)) \<noteq> None"
proof -
  obtain p where p: "p \<in> set listing" "(dir, i) \<in> set (scan_project_rows rd d p)" using assms by (auto simp: scan_scheduled_def)
  obtain slug dir' names where pp: "p = (slug, dir', names)" by (cases p)
  then obtain sids s where s: "names = Some sids" "s \<in> set sids" "(dir, i) \<in> set (scan_session_rows rd d slug dir' s)"
    using p(2) by (auto split: option.splits)
  have "dir' = dir" "si_sid i = s" "read_scheduled rd (sd_files d (dir', s)) \<noteq> None"
    using s(3) by (cases "read_scheduled rd (sd_files d (dir', s))"; auto)+
  then show thesis using that p(1) pp s by blast
qed

text \<open>The startup scan passes over a file it cannot read. The next message created for that session
  rewrites the file from memory, and whatever the file held is gone.\<close>

theorem unreadable_queue_is_erased:
  assumes "codec_ok shw rd" "read_scheduled rd (sd_files d (dir, s)) = None"
    "\<And>slug dir' sids. (slug, dir', Some sids) \<in> set listing \<Longrightarrow> s \<in> set sids \<Longrightarrow> dir' = dir"
    "load_scheduled_state shw rd ioc gio listing now (fresh_gateway bd ps, d) = (st1, evs1)"
    "scheduled_target sd s = Inr (project, dir)" "ca_sid a = s"
    "create_scheduled_message_inner sd shw ioc' ior now' a vis st1 = (st2, Inr i, evs2)"
  shows "read_scheduled rd (sd_files (snd st2) (dir, s)) = Some [i] \<and> si_text i = ca_text a"
proof -
  obtain g1 d1 where st1: "st1 = (g1, d1)" by (cases st1)
  let ?g0 = "fresh_gateway bd ps \<lparr> sg_next := read_counter (fresh_gateway bd ps) d, sg_items := [] \<rparr>"
  obtain d' good where pc: "persist_next_scheduled ioc (fold load_row (scan_scheduled rd d listing) ?g0, d) = (d', good)"
    by (cases "persist_next_scheduled ioc (fold load_row (scan_scheduled rd d listing) ?g0, d)")
  obtain st3 evs3 where gc: "gc_failed_scheduled shw gio now (fold load_row (scan_scheduled rd d listing) ?g0, d') = (st3, evs3)"
    by (cases "gc_failed_scheduled shw gio now (fold load_row (scan_scheduled rd d listing) ?g0, d')")
  have s3: "st3 = st1" using assms(4) pc gc by (simp add: load_scheduled_state_def Let_def)
  have "rows_in ?g0 = {}" by (simp add: rows_in_def entries_of_def)
  then have sub: "rows_in g1 \<subseteq> snd ` set (scan_scheduled rd d listing)"
    using gc_rows_subset [OF gc] load_rows_subset [of "scan_scheduled rd d listing" ?g0] by (auto simp: s3 st1)
  have none: "si_sid k \<noteq> s" if "k \<in> rows_in g1" for k
  proof
    assume k: "si_sid k = s"
    obtain dk where dk: "(dk, k) \<in> set (scan_scheduled rd d listing)" using sub \<open>k \<in> rows_in g1\<close> by fastforce
    show False
    proof (rule scanned_sids [OF dk])
      fix slug sids
      assume h: "(slug, dk, Some sids) \<in> set listing" "si_sid k \<in> set sids"
        "read_scheduled rd (sd_files d (dk, si_sid k)) \<noteq> None"
      have "dk = dir" by (rule assms(3) [OF h(1)]) (use h(2) k in simp)
      then show False using h(3) assms(2) k by simp
    qed
  qed
  obtain n d2 where created: "i = new_item a project n now'"
    "persist_scheduled_sid ior shw dir s (put_item \<lparr> se_dir = dir, se_item = i \<rparr> (g1 \<lparr> sg_next := n \<rparr>), d2) = (st2, True)"
  proof -
    obtain project' dir' n d2 where r: "scheduled_target sd (ca_sid a) = Inr (project', dir')" "i = new_item a project' n now'"
      "persist_scheduled_sid ior shw dir' (ca_sid a) (put_item \<lparr> se_dir = dir', se_item = i \<rparr> (g1 \<lparr> sg_next := n \<rparr>), d2) = (st2, True)"
      by (rule create_row_written [OF assms(7) [unfolded st1]])
    have "project' = project" "dir' = dir" using r(1) assms(5,6) by simp_all
    then show thesis using that r assms(6) by blast
  qed
  let ?g2 = "put_item \<lparr> se_dir = dir, se_item = i \<rparr> (g1 \<lparr> sg_next := n \<rparr>)"
  have "filter (\<lambda>e. si_sid (se_item e) = s) (map snd (bt_insert k e m)) = [e]"
    if "si_sid (se_item e) = s" "\<And>p. p \<in> set m \<Longrightarrow> si_sid (se_item (snd p)) \<noteq> s" for k e and m :: "(utext \<times> scheduled_entry) list"
    using that(2)
  proof (induction m)
    case (Cons p m)
    then have "filter (\<lambda>e. si_sid (se_item e) = s) (map snd m) = []" by (auto simp: filter_empty_conv)
    moreover have "si_sid (se_item (snd p)) \<noteq> s" using Cons.prems [of p] by simp
    moreover have "filter (\<lambda>e. si_sid (se_item e) = s) (map snd (bt_insert k e m)) = [e]"
      by (rule Cons.IH) (use Cons.prems in simp)
    ultimately show ?case using that(1) by (cases p) (auto simp: comp_def)
  qed (simp add: that(1))
  from this [of "\<lparr> se_dir = dir, se_item = i \<rparr>" "sg_items g1" "si_id i"] have "items_of_sid ?g2 s = [i]"
    using none assms(6) by (auto simp: items_of_sid_def entries_of_def put_item_def rows_in_def created(1))
  then have "sd_files (snd st2) (dir, s) = JsonFile (scheduled_file shw [i])"
    using created(2) by (auto simp: persist_scheduled_sid_def write_scheduled_def atomic_write_durable_def split: if_splits)
  moreover have "si_text i = ca_text a" by (simp add: created(1) new_item_def)
  ultimately show ?thesis
    using read_scheduled_file [of rd shw "[i]"] assms(1) by (simp add: codec_ok_def)
qed

definition ex_broken :: sched_disk where
  "ex_broken = \<lparr> sd_counter = None, sd_files = (\<lambda>_. NotJson) \<rparr>"

theorem unreadable_queue_is_erased_witness:
  "\<exists>st2 :: sched_state. read_scheduled ex_rd (sd_files ex_broken (lit ''/p'', lit ''s1'')) = None
     \<and> read_scheduled ex_rd (sd_files (snd st2) (lit ''/p'', lit ''s1'')) = Some [ex_item]"
proof -
  have t: "trim (lit ''hello'') \<noteq> []"
    by (simp add: trim_def trim_start_def trim_end_def lit_def is_whitespace_def)
  have r: "read_scheduled ex_rd (sd_files ex_broken (lit ''/p'', lit ''s1'')) = None"
    by (simp add: ex_broken_def read_scheduled_def)
  let ?l = "[(lit ''demo'', lit ''/p'', Some [lit ''s1''])]"
  obtain st1 evs1 where l: "load_scheduled_state ex_shw ex_rd fs_good (\<lambda>_. fs_good) ?l 10 (fresh_gateway (\<lambda>_ _ _. []) True, ex_broken)
      = (st1, evs1)" by (cases "load_scheduled_state ex_shw ex_rd fs_good (\<lambda>_. fs_good) ?l 10 (fresh_gateway (\<lambda>_ _ _. []) True, ex_broken)")
  have e: "scan_scheduled ex_rd ex_broken ?l = []"
    by (simp add: scan_scheduled_def ex_broken_def read_scheduled_def)
  have st1: "sg_items (fst st1) = []" "sg_next (fst st1) = 0" "sg_counter_path (fst st1)"
    using l by (auto simp: load_scheduled_state_def e read_counter_def Let_def gc_failed_scheduled_def expired_rows_def
        ex_broken_def [THEN arg_cong, of sd_counter] split: prod.splits)
  obtain st2 evs2 where c: "create_scheduled_message_inner ex_dirs ex_shw fs_good fs_good 50 ex_args 0 st1 = (st2, Inr ex_item, evs2)"
    using t st1
    by (cases st1) (auto simp: create_scheduled_message_inner_def ex_args_def ex_dirs_def MAX_HORIZON_def one_hour_def
        scheduled_target_def sid_pending_def entries_of_def MAX_PENDING_PER_SID_def MAX_PENDING_VISIBLE_def
        persist_next_scheduled_def fs_good_def atomic_write_ok_def persist_scheduled_sid_def write_scheduled_def
        atomic_write_durable_def put_item_def ex_item_def Let_def)
  have "read_scheduled ex_rd (sd_files (snd st2) (lit ''/p'', lit ''s1'')) = Some [ex_item] \<and> si_text ex_item = ca_text ex_args"
    by (rule unreadable_queue_is_erased [OF ex_codec r _ l _ _ c])
      (auto simp: scheduled_target_def ex_dirs_def ex_args_def)
  then show ?thesis using r by blast
qed

section \<open>The times a user may write\<close>

lemma accepted_time: "parse_send_time_at cal input now = Inr t \<Longrightarrow> now < t \<and> t \<le> now + MAX_HORIZON"
  by (auto simp: parse_send_time_at_def Let_def split: if_splits sum.splits)

lemma trim_clean: "(\<And>c. c \<in> set t \<Longrightarrow> \<not> is_whitespace c) \<Longrightarrow> trim t = t"
proof -
  assume a: "\<And>c. c \<in> set t \<Longrightarrow> \<not> is_whitespace c"
  have "dropWhile is_whitespace u = u" if "set u = set t" for u using a that by (cases u) auto
  from this [of t] this [of "rev t"] show ?thesis by (simp add: trim_def trim_start_def trim_end_def)
qed

text \<open>A relative time of minutes is exact: \<^verbatim>\<open>+<n>m\<close> is accepted from one minute up to seven days.\<close>

theorem relative_minutes_are_exact:
  assumes "in_range cal (now + int n * 60000000000)"
  shows "parse_send_time_at cal (43 # dec n @ [109]) now =
    (if n = 0 then Inl Past else if n \<le> 10080 then Inr (now + int n * 60000000000)
     else if n * 60000 < 2 ^ 63 then Inl TooFar else Inl InvalidFormat)"
proof -
  have tr: "trim (43 # dec n @ [109]) = 43 # dec n @ [109]"
    by (rule trim_clean) (auto simp: is_whitespace_def dest: digit_list)
  have ds: "dec n \<noteq> []" "list_all is_digit (dec n)" using digit_list by (auto simp: dec_def list_all_iff)
  have sl: "strip_last 109 (dec n @ [109]) = Some (dec n)" by (simp add: strip_last_def)
  have pr: "parse_relative (43 # dec n @ [109]) =
      (if 2 ^ 63 \<le> n then Inl InvalidFormat
       else case try_seconds (n * 60) of None \<Rightarrow> Inl InvalidFormat | Some d \<Rightarrow> Inr (Some d))"
    using ds by (simp add: parse_relative_def sl)
  have ts: "try_seconds (n * 60) = (if n * 60000 < 2 ^ 63 then Some (int n * 60000000000) else None)"
    by (auto simp: try_seconds_def)
  have "parse_send_time_at cal (43 # dec n @ [109]) now =
      (case (if n * 60000 < 2 ^ 63 then Inr (now + int n * 60000000000) else Inl InvalidFormat) of
         Inl e \<Rightarrow> Inl e
       | Inr target \<Rightarrow> if target \<le> now then Inl Past else if MAX_HORIZON < target - now then Inl TooFar else Inr target)"
    using assms by (auto simp: parse_send_time_at_def tr Let_def send_target_def pr ts)
  then show ?thesis by (auto simp: MAX_HORIZON_def one_hour_def)
qed

definition ex_calendar :: calendar where
  "ex_calendar = \<lparr> in_range = (\<lambda>_. True), local_date = (\<lambda>t. t div (24 * one_hour)), add_days = (\<lambda>d n. Some (d + int n)),
     parse_hm = (\<lambda>_. None), parse_date_hm = (\<lambda>_. None), from_local = Single \<rparr>"

theorem relative_minutes_are_exact_witness:
  "parse_send_time_at ex_calendar (43 # dec 30 @ [109]) 5 = Inr 1800000000005"
  using relative_minutes_are_exact [of ex_calendar 5 30] by (simp add: ex_calendar_def)

text \<open>Rows that fire at the same moment are ordered by the text of their ids, not by their numbers.\<close>

lemma ties_are_textual: "(t :: int, row_id 10) < (t, row_id 2)"
  by (simp add: row_id_def dec_def digit_char_def radix_digits.simps lit_def)

end
