(* ===== verification/Delegation_Guard.thy ===== *)
theory Delegation_Guard
  imports Delegation_Store Complex_Main
begin

text \<open>
  The anti-runaway guardrails of delegation (\<^verbatim>\<open>ccteam-im/src/gateway.rs\<close>, the deny reasons of
  \<^verbatim>\<open>ccteam-im/src/delegation.rs\<close>, the knobs of \<^verbatim>\<open>ccteam-core/src/config.rs\<close> and the cycle guard
  of \<^verbatim>\<open>ccteam-im/src/mcp/dispatch.rs\<close>): depth, fan-out, project ceiling and budget of a spawn,
  the reservations that make concurrent spawns count each other, and the walks up the lineage.
  Vendor startup and the budget reading are inputs.
\<close>

section \<open>Limits and refusals\<close>

record delegation_config =
  dc_max_depth :: nat
  dc_max_children :: nat
  dc_max_delegated :: nat

definition default_delegation_config :: delegation_config where
  "default_delegation_config = \<lparr> dc_max_depth = 2, dc_max_children = 10, dc_max_delegated = 50 \<rparr>"

definition delegation_config_is_default :: "delegation_config \<Rightarrow> bool" where
  "delegation_config_is_default c \<longleftrightarrow> c = default_delegation_config"

datatype deny_reason =
    DenyDepth | DenyChildren | DenyDelegated | DenyCycle | DenyBudget | DenyPolicy | DenyPolicyScriptError

definition deny_tag :: "deny_reason \<Rightarrow> utext" where
  "deny_tag r = (case r of
      DenyDepth \<Rightarrow> lit ''depth'' | DenyChildren \<Rightarrow> lit ''children'' | DenyDelegated \<Rightarrow> lit ''delegated''
    | DenyCycle \<Rightarrow> lit ''cycle'' | DenyBudget \<Rightarrow> lit ''budget'' | DenyPolicy \<Rightarrow> lit ''policy''
    | DenyPolicyScriptError \<Rightarrow> lit ''policy_script_error'')"

section \<open>Sessions and reservations\<close>

record guard_session =
  gs_project :: utext
  gs_parent :: "sid option"
  gs_depth :: nat

record spawn_reservation =
  sr_project :: utext
  sr_parent :: sid

text \<open>Maps iterated by the counts, as lists of entries; \<^verbatim>\<open>gd_new\<close> and \<^verbatim>\<open>gd_rebuild\<close> map the sids being created
  or brought back to their generations.\<close>

record guard_state =
  gd_sessions :: "(sid \<times> guard_session) list"
  gd_reservations :: "(sid \<times> spawn_reservation) list"
  gd_new :: "(sid \<times> nat) list"
  gd_rebuild :: "(sid \<times> nat) list"
  gd_next_sid :: nat

definition map_remove :: "'k \<Rightarrow> ('k \<times> 'v) list \<Rightarrow> ('k \<times> 'v) list" where
  "map_remove k m = filter (\<lambda>e. fst e \<noteq> k) m"

definition map_insert :: "'k \<Rightarrow> 'v \<Rightarrow> ('k \<times> 'v) list \<Rightarrow> ('k \<times> 'v) list" where
  "map_insert k v m = map_remove k m @ [(k, v)]"

definition as_u32 :: "nat \<Rightarrow> nat" where
  "as_u32 n = n mod 2 ^ 32"

definition session_of :: "guard_state \<Rightarrow> sid \<Rightarrow> guard_session option" where
  "session_of st c = map_of (gd_sessions st) c"

definition count_active_children :: "sid \<Rightarrow> guard_state \<Rightarrow> nat" where
  "count_active_children p st =
     as_u32 (length (filter (\<lambda>e. gs_parent (snd e) = Some p) (gd_sessions st)))"

definition count_active_delegated :: "utext \<Rightarrow> guard_state \<Rightarrow> nat" where
  "count_active_delegated project st =
     as_u32 (length (filter (\<lambda>e. gs_project (snd e) = project \<and> gs_parent (snd e) \<noteq> None) (gd_sessions st)))"

definition count_reserved_children :: "sid \<Rightarrow> guard_state \<Rightarrow> nat" where
  "count_reserved_children p st =
     as_u32 (length (filter (\<lambda>e. sr_parent (snd e) = p) (gd_reservations st)))"

definition count_reserved_delegated :: "utext \<Rightarrow> guard_state \<Rightarrow> nat" where
  "count_reserved_delegated project st =
     as_u32 (length (filter (\<lambda>e. sr_project (snd e) = project) (gd_reservations st)))"

record delegation_parent =
  dp_sid :: sid
  dp_role :: utext
  dp_depth :: nat

text \<open>The four guards of a spawn, in order; \<^verbatim>\<open>over_budget\<close> is \<^verbatim>\<open>delegation_budget_exceeded\<close>.\<close>

definition check_spawn :: "delegation_config \<Rightarrow> bool \<Rightarrow> utext \<Rightarrow> delegation_parent \<Rightarrow> guard_state
    \<Rightarrow> deny_reason option" where
  "check_spawn cfg over_budget project p st =
     (if dc_max_depth cfg < u32_saturating_add (dp_depth p) 1 then Some DenyDepth
      else if dc_max_children cfg
          \<le> u32_saturating_add (count_active_children (dp_sid p) st) (count_reserved_children (dp_sid p) st)
      then Some DenyChildren
      else if dc_max_delegated cfg
          \<le> u32_saturating_add (count_active_delegated project st) (count_reserved_delegated project st)
      then Some DenyDelegated
      else if over_budget then Some DenyBudget else None)"

text \<open>\<^verbatim>\<open>delegation_budget_exceeded\<close>: no paths, no cap or no projection leave the gate open. Costs are
  exact numbers here.\<close>

definition delegation_budget_exceeded :: "bool \<Rightarrow> rat option \<Rightarrow> (utext \<Rightarrow> rat option) option \<Rightarrow> utext \<Rightarrow> bool" where
  "delegation_budget_exceeded has_paths cap projection vendor =
     (if \<not> has_paths then False
      else (case cap of
          None \<Rightarrow> False
        | Some c \<Rightarrow> (case projection of
              None \<Rightarrow> False
            | Some cost \<Rightarrow> (case cost vendor of Some x \<Rightarrow> c \<le> x | None \<Rightarrow> c \<le> 0))))"

record spawn_plan =
  sp_id :: sid
  sp_generation :: nat
  sp_project :: utext
  sp_parent :: "sid option"
  sp_depth :: nat

text \<open>Planning a spawn: the guards when there is a parent, then a fresh sid, its creation
  reservation and the spawn reservation. \<^verbatim>\<open>role_ok\<close> and \<^verbatim>\<open>persisted\<close> are the outcomes of the role
  check and of writing the counter; a counter that could not be written stays advanced.\<close>

definition next_sid :: "guard_state \<Rightarrow> sid" where
  "next_sid st = lit ''s'' @ dec (gd_next_sid st + 1)"

definition plan_new_session :: "bool \<Rightarrow> bool \<Rightarrow> nat \<Rightarrow> guard_state \<Rightarrow> guard_state \<times> sid option" where
  "plan_new_session role_ok persisted gen st =
     (if \<not> role_ok then (st, None)
      else (let i = next_sid st;
                st1 = st \<lparr> gd_next_sid := gd_next_sid st + 1 \<rparr> in
            if \<not> persisted then (st1, None)
            else (st1 \<lparr> gd_new := map_insert i gen (gd_new st1) \<rparr>, Some i)))"

datatype spawn_error = Denied deny_reason | PlanFailed

definition plan_spawn :: "delegation_config \<Rightarrow> bool \<Rightarrow> bool \<Rightarrow> bool \<Rightarrow> utext \<Rightarrow> nat
    \<Rightarrow> delegation_parent option \<Rightarrow> guard_state \<Rightarrow> guard_state \<times> (spawn_error + spawn_plan)" where
  "plan_spawn cfg over_budget role_ok persisted project gen parent st =
     (case (case parent of Some p \<Rightarrow> check_spawn cfg over_budget project p st | None \<Rightarrow> None) of
        Some reason \<Rightarrow> (st, Inl (Denied reason))
      | None \<Rightarrow>
          (case plan_new_session role_ok persisted gen st of
             (st1, None) \<Rightarrow> (st1, Inl PlanFailed)
           | (st1, Some i) \<Rightarrow>
               (case parent of
                  None \<Rightarrow> (st1, Inr \<lparr> sp_id = i, sp_generation = gen, sp_project = project,
                     sp_parent = None, sp_depth = 0 \<rparr>)
                | Some p \<Rightarrow>
                    (st1 \<lparr> gd_reservations := map_insert i \<lparr> sr_project = project, sr_parent = dp_sid p \<rparr>
                             (gd_reservations st1) \<rparr>,
                     Inr \<lparr> sp_id = i, sp_generation = gen, sp_project = project,
                       sp_parent = Some (dp_sid p), sp_depth = u32_saturating_add (dp_depth p) 1 \<rparr>))))"

definition forget_principal :: "sid \<Rightarrow> guard_state \<Rightarrow> guard_state" where
  "forget_principal i st = st \<lparr> gd_new := map_remove i (gd_new st),
     gd_rebuild := map_remove i (gd_rebuild st),
     gd_reservations := map_remove i (gd_reservations st) \<rparr>"

definition apply_new_session :: "spawn_plan \<Rightarrow> guard_state \<Rightarrow> guard_state \<times> bool" where
  "apply_new_session plan st =
     (let i = sp_id plan;
          matches = (map_of (gd_new st) i = Some (sp_generation plan)) in
      if \<not> matches \<or> session_of st i \<noteq> None
      then (st \<lparr> gd_reservations := map_remove i (gd_reservations st) \<rparr>, False)
      else
        (st \<lparr> gd_new := map_remove i (gd_new st),
              gd_reservations := map_remove i (gd_reservations st),
              gd_sessions := map_insert i
                \<lparr> gs_project = sp_project plan, gs_parent = sp_parent plan, gs_depth = sp_depth plan \<rparr>
                (gd_sessions st) \<rparr>, True))"

text \<open>A session leaving the live map (stopped, released, evicted).\<close>

definition remove_session :: "sid \<Rightarrow> guard_state \<Rightarrow> guard_state" where
  "remove_session i st = st \<lparr> gd_sessions := map_remove i (gd_sessions st) \<rparr>"

text \<open>Bringing a session back: its reservation when the rebuild is planned, its entry in the live map
  when the rebuild is applied. Neither consults the spawn guards.\<close>

definition reserve_rebuild :: "sid \<Rightarrow> nat \<Rightarrow> guard_state \<Rightarrow> guard_state" where
  "reserve_rebuild i gen st = st \<lparr> gd_rebuild := map_insert i gen (gd_rebuild st) \<rparr>"

definition cancel_rebuild :: "sid \<Rightarrow> guard_state \<Rightarrow> guard_state" where
  "cancel_rebuild i st = st \<lparr> gd_rebuild := map_remove i (gd_rebuild st) \<rparr>"

definition apply_rebuilt_session :: "sid \<Rightarrow> nat \<Rightarrow> guard_session \<Rightarrow> guard_state \<Rightarrow> guard_state \<times> bool" where
  "apply_rebuilt_session i gen g st =
     (if map_of (gd_rebuild st) i \<noteq> Some gen \<or> session_of st i \<noteq> None then (st, False)
      else (st \<lparr> gd_rebuild := map_remove i (gd_rebuild st),
                gd_sessions := map_insert i g (gd_sessions st) \<rparr>, True))"

section \<open>Lineage\<close>

definition chain_cap :: "delegation_config \<Rightarrow> nat" where
  "chain_cap cfg = min (dc_max_depth cfg + 2) 64"

text \<open>The bounded loop: it ends on a missing parent or a repeated sid.\<close>

fun chain_walk :: "nat \<Rightarrow> (sid \<Rightarrow> sid option) \<Rightarrow> sid option \<Rightarrow> sid list \<Rightarrow> sid list" where
  "chain_walk 0 parent cur seen = seen"
| "chain_walk (Suc n) parent cur seen = (case cur of
       None \<Rightarrow> seen
     | Some c \<Rightarrow> if c \<in> set seen then seen else chain_walk n parent (parent c) (seen @ [c]))"

definition live_parent :: "guard_state \<Rightarrow> sid \<Rightarrow> sid option" where
  "live_parent st c = Option.bind (session_of st c) gs_parent"

definition ancestor_chain :: "delegation_config \<Rightarrow> guard_state \<Rightarrow> sid \<Rightarrow> sid set" where
  "ancestor_chain cfg st c = set (chain_walk (chain_cap cfg + 1) (live_parent st) (Some c) [])"

fun lineage_walk :: "nat \<Rightarrow> (sid \<Rightarrow> sid option) \<Rightarrow> sid \<Rightarrow> sid option \<Rightarrow> sid list \<Rightarrow> bool" where
  "lineage_walk 0 parent anc cur seen = False"
| "lineage_walk (Suc n) parent anc cur seen = (case cur of
       None \<Rightarrow> False
     | Some c \<Rightarrow>
         if c \<in> set seen then False
         else (case parent c of
             Some p \<Rightarrow> if p = anc then True else lineage_walk n parent anc (Some p) (c # seen)
           | None \<Rightarrow> lineage_walk n parent anc None (c # seen)))"

text \<open>\<^verbatim>\<open>meta\<close> is the parent recorded in the \<^verbatim>\<open>meta.json\<close> of a session that is not live.\<close>

definition lineage_parent :: "(sid \<Rightarrow> sid option) \<Rightarrow> guard_state \<Rightarrow> sid \<Rightarrow> sid option" where
  "lineage_parent meta st c = (case session_of st c of Some s \<Rightarrow> gs_parent s | None \<Rightarrow> meta c)"

definition lineage_reaches :: "delegation_config \<Rightarrow> (sid \<Rightarrow> sid option) \<Rightarrow> guard_state \<Rightarrow> sid \<Rightarrow> sid \<Rightarrow> bool" where
  "lineage_reaches cfg meta st c anc =
     (if c = anc then False
      else lineage_walk (chain_cap cfg + 1) (lineage_parent meta st) anc (Some c) [])"

text \<open>The cycle guard of a dispatch.\<close>

definition check_dispatch_cycle :: "delegation_config \<Rightarrow> guard_state \<Rightarrow> sid \<Rightarrow> sid \<Rightarrow> deny_reason option" where
  "check_dispatch_cycle cfg st caller target =
     (if target = caller then Some DenyCycle
      else if target \<in> ancestor_chain cfg st caller then Some DenyCycle else None)"

text \<open>\<^verbatim>\<open>agent_stop\<close>: an agent may stop only the sessions it delegated; an empty caller is an
  administrator.\<close>

definition check_stop_descendant :: "delegation_config \<Rightarrow> guard_state \<Rightarrow> sid \<Rightarrow> sid \<Rightarrow> bool" where
  "check_stop_descendant cfg st caller target \<longleftrightarrow>
     \<not> (caller \<noteq> [] \<and> caller \<notin> ancestor_chain cfg st target)"

section \<open>Counting through removals and insertions\<close>

definition children_load :: "sid \<Rightarrow> guard_state \<Rightarrow> nat" where
  "children_load p st =
     length (filter (\<lambda>e. gs_parent (snd e) = Some p) (gd_sessions st))
     + length (filter (\<lambda>e. sr_parent (snd e) = p) (gd_reservations st))"

definition delegated_load :: "utext \<Rightarrow> guard_state \<Rightarrow> nat" where
  "delegated_load project st =
     length (filter (\<lambda>e. gs_project (snd e) = project \<and> gs_parent (snd e) \<noteq> None) (gd_sessions st))
     + length (filter (\<lambda>e. sr_project (snd e) = project) (gd_reservations st))"

lemma map_remove_le: "length (filter P (map_remove k m)) \<le> length (filter P m)"
  by (induction m) (auto simp: map_remove_def)

lemma map_insert_le: "length (filter P (map_insert k v m)) \<le> length (filter P m) + (if P (k, v) then 1 else 0)"
  using map_remove_le [of P k m] by (simp add: map_insert_def)

lemma map_remove_less:
  "map_of m k = Some v \<Longrightarrow> P (k, v) \<Longrightarrow> length (filter P (map_remove k m)) + 1 \<le> length (filter P m)"
proof (induction m)
  case (Cons e m)
  show ?case
  proof (cases "fst e = k")
    case True
    then show ?thesis
      using Cons.prems map_remove_le [of P k m] by (cases e) (auto simp: map_remove_def)
  next
    case False
    then show ?thesis using Cons by (cases e) (auto simp: map_remove_def)
  qed
qed simp

lemma map_of_remove: "map_of (map_remove k m) j = (if j = k then None else map_of m j)"
  by (induction m) (auto simp: map_remove_def)

lemma map_of_insert: "map_of (map_insert k v m) j = (if j = k then Some v else map_of m j)"
proof -
  have "map_of (map_remove k m @ [(k, v)]) j =
    (case map_of (map_remove k m) j of Some x \<Rightarrow> Some x | None \<Rightarrow> if j = k then Some v else None)"
    by (auto simp: map_add_def split: option.splits)
  then show ?thesis by (auto simp: map_insert_def map_of_remove split: option.splits)
qed

section \<open>Concurrent spawns\<close>

text \<open>Planned spawns in flight (\<^verbatim>\<open>ss_plans\<close>), how many released sessions were brought back into the
  live map since the start (\<^verbatim>\<open>ss_rebuilt\<close>) and which (\<^verbatim>\<open>ss_back\<close>): rebuilding a session is not
  guarded, and takes parent and depth as its \<^verbatim>\<open>meta.json\<close> gives them. The configuration is read
  anew at every spawn; \<^verbatim>\<open>hi\<close> holds the largest values it ever had.\<close>

record spawn_system =
  ss_state :: guard_state
  ss_plans :: "spawn_plan list"
  ss_rebuilt :: nat
  ss_back :: "sid set"

definition config_within :: "delegation_config \<Rightarrow> delegation_config \<Rightarrow> bool" where
  "config_within cfg hi \<longleftrightarrow> dc_max_depth cfg \<le> dc_max_depth hi
     \<and> dc_max_children cfg \<le> dc_max_children hi \<and> dc_max_delegated cfg \<le> dc_max_delegated hi"

inductive spawn_step :: "delegation_config \<Rightarrow> spawn_system \<Rightarrow> spawn_system \<Rightarrow> bool" for hi where
  step_plan: "config_within cfg hi \<Longrightarrow> plan_spawn cfg over_budget role_ok persisted project gen parent (ss_state s) = (st, Inr p) \<Longrightarrow>
    spawn_step hi s (s \<lparr> ss_state := st, ss_plans := ss_plans s @ [p] \<rparr>)"
| step_refuse: "config_within cfg hi \<Longrightarrow> plan_spawn cfg over_budget role_ok persisted project gen parent (ss_state s) = (st, Inl e) \<Longrightarrow>
    spawn_step hi s (s \<lparr> ss_state := st \<rparr>)"
| step_apply: "ss_plans s = ps @ p # qs \<Longrightarrow> apply_new_session p (ss_state s) = (st, ok) \<Longrightarrow>
    spawn_step hi s (s \<lparr> ss_state := st, ss_plans := ps @ qs \<rparr>)"
| step_fail: "ss_plans s = ps @ p # qs \<Longrightarrow>
    spawn_step hi s (s \<lparr> ss_state := forget_principal (sp_id p) (ss_state s), ss_plans := ps @ qs \<rparr>)"
| step_forget: "spawn_step hi s (s \<lparr> ss_state := forget_principal i (ss_state s) \<rparr>)"
| step_leave: "spawn_step hi s (s \<lparr> ss_state := remove_session i (ss_state s) \<rparr>)"
| step_reserve: "spawn_step hi s (s \<lparr> ss_state := reserve_rebuild i gen (ss_state s) \<rparr>)"
| step_cancel: "spawn_step hi s (s \<lparr> ss_state := cancel_rebuild i (ss_state s) \<rparr>)"
| step_rebuild: "apply_rebuilt_session i gen g (ss_state s) = (st, ok) \<Longrightarrow>
    spawn_step hi s (s \<lparr> ss_state := st, ss_rebuilt := ss_rebuilt s + (if ok then 1 else 0),
      ss_back := ss_back s \<union> (if ok then {i} else {}) \<rparr>)"

definition spawn_start :: "nat \<Rightarrow> spawn_system" where
  "spawn_start n = \<lparr> ss_state = \<lparr> gd_sessions = [], gd_reservations = [], gd_new = [], gd_rebuild = [], gd_next_sid = n \<rparr>,
     ss_plans = [], ss_rebuilt = 0, ss_back = {} \<rparr>"

inductive spawn_reachable :: "delegation_config \<Rightarrow> spawn_system \<Rightarrow> bool" for cfg where
  spawn_init: "spawn_reachable cfg (spawn_start n)"
| spawn_next: "spawn_reachable cfg s \<Longrightarrow> spawn_step cfg s s' \<Longrightarrow> spawn_reachable cfg s'"

text \<open>A plan in flight that will be applied still holds its spawn reservation.\<close>

definition plan_reserved :: "guard_state \<Rightarrow> spawn_plan \<Rightarrow> bool" where
  "plan_reserved st p \<longleftrightarrow> (map_of (gd_new st) (sp_id p) = Some (sp_generation p) \<longrightarrow>
     (case sp_parent p of
        None \<Rightarrow> True
      | Some par \<Rightarrow> map_of (gd_reservations st) (sp_id p)
          = Some \<lparr> sr_project = sp_project p, sr_parent = par \<rparr>))"

definition minted :: "nat \<Rightarrow> sid \<Rightarrow> bool" where
  "minted n i \<longleftrightarrow> (\<exists>k \<le> n. i = lit ''s'' @ dec k)"

definition plans_ok :: "delegation_config \<Rightarrow> spawn_system \<Rightarrow> bool" where
  "plans_ok cfg s \<longleftrightarrow> (\<forall>p \<in> set (ss_plans s). sp_depth p \<le> dc_max_depth cfg
       \<and> plan_reserved (ss_state s) p \<and> minted (gd_next_sid (ss_state s)) (sp_id p))
     \<and> distinct (map sp_id (ss_plans s))"

definition within_limits :: "delegation_config \<Rightarrow> nat \<Rightarrow> guard_state \<Rightarrow> bool" where
  "within_limits cfg r st \<longleftrightarrow> (\<forall>p. children_load p st \<le> dc_max_children cfg + r)
     \<and> (\<forall>q. delegated_load q st \<le> dc_max_delegated cfg + r)"

text \<open>A session is no deeper than allowed, unless it was brought back.\<close>

definition depths_ok :: "delegation_config \<Rightarrow> sid set \<Rightarrow> guard_state \<Rightarrow> bool" where
  "depths_ok cfg back st \<longleftrightarrow> (\<forall>e \<in> set (gd_sessions st). fst e \<in> back \<or> gs_depth (snd e) \<le> dc_max_depth cfg)"

subsection \<open>The invariant\<close>

lemma dec_inject [simp]: "dec m = dec n \<longleftrightarrow> m = n"
proof
  assume eq: "dec m = dec n"
  have inj: "inj_on digit_char {..<10}"
    by (rule inj_onI) (simp add: digit_char_inject)
  have "set (radix_digits 10 m) \<union> set (radix_digits 10 n) \<subseteq> {..<10}"
    using radix_digits_bound [of 10] by auto
  then have "radix_digits 10 m = radix_digits 10 n"
    using eq inj unfolding dec_def by (metis inj_on_map_eq_map inj_on_subset)
  then show "m = n" by (simp add: radix_digits_inject)
qed simp

lemma load_remove:
  "children_load p (st \<lparr> gd_reservations := map_remove i (gd_reservations st) \<rparr>) \<le> children_load p st"
  "delegated_load q (st \<lparr> gd_reservations := map_remove i (gd_reservations st) \<rparr>) \<le> delegated_load q st"
  by (simp_all add: children_load_def delegated_load_def map_remove_le)

lemma load_forget:
  "children_load p (forget_principal i st) \<le> children_load p st"
  "delegated_load q (forget_principal i st) \<le> delegated_load q st"
  by (simp_all add: children_load_def delegated_load_def forget_principal_def map_remove_le)

lemma load_leave:
  "children_load p (remove_session i st) \<le> children_load p st"
  "delegated_load q (remove_session i st) \<le> delegated_load q st"
  by (simp_all add: children_load_def delegated_load_def remove_session_def map_remove_le)

text \<open>Below a limit that fits \<^verbatim>\<open>u32\<close> the truncating count and the saturating sum are exact.\<close>

lemma guarded_sum:
  assumes "\<not> mx \<le> u32_saturating_add (as_u32 a) (as_u32 b)" "a + b \<le> bnd" "bnd < 2 ^ 32" "mx \<le> bnd"
  shows "a + b < mx"
  using assms by (simp add: as_u32_def u32_saturating_add_def)

lemma check_spawn_room:
  assumes "check_spawn cfg ob project p st = None" "within_limits hi r st"
    "dc_max_children hi + r < 2 ^ 32" "dc_max_delegated hi + r < 2 ^ 32" "config_within cfg hi"
  shows "children_load (dp_sid p) st < dc_max_children cfg"
    "delegated_load project st < dc_max_delegated cfg"
    "u32_saturating_add (dp_depth p) 1 \<le> dc_max_depth cfg"
proof -
  have c: "\<not> dc_max_children cfg
      \<le> u32_saturating_add (count_active_children (dp_sid p) st) (count_reserved_children (dp_sid p) st)"
    and d: "\<not> dc_max_delegated cfg
      \<le> u32_saturating_add (count_active_delegated project st) (count_reserved_delegated project st)"
    and e: "u32_saturating_add (dp_depth p) 1 \<le> dc_max_depth cfg"
    using assms(1) by (auto simp: check_spawn_def split: if_splits)
  have lc: "children_load (dp_sid p) st \<le> dc_max_children hi + r"
    and ld: "delegated_load project st \<le> dc_max_delegated hi + r"
    using assms(2) by (simp_all add: within_limits_def)
  show "children_load (dp_sid p) st < dc_max_children cfg"
    unfolding children_load_def
    by (rule guarded_sum [OF c [unfolded count_active_children_def count_reserved_children_def]
          lc [unfolded children_load_def] assms(3)]) (use assms(5) in \<open>simp add: config_within_def\<close>)
  show "delegated_load project st < dc_max_delegated cfg"
    unfolding delegated_load_def
    by (rule guarded_sum [OF d [unfolded count_active_delegated_def count_reserved_delegated_def]
          ld [unfolded delegated_load_def] assms(4)]) (use assms(5) in \<open>simp add: config_within_def\<close>)
  show "u32_saturating_add (dp_depth p) 1 \<le> dc_max_depth cfg" by (rule e)
qed

lemma load_reserve:
  "children_load p (st \<lparr> gd_reservations := map_insert i r (gd_reservations st) \<rparr>)
     \<le> children_load p st + (if sr_parent r = p then 1 else 0)"
  "delegated_load q (st \<lparr> gd_reservations := map_insert i r (gd_reservations st) \<rparr>)
     \<le> delegated_load q st + (if sr_project r = q then 1 else 0)"
  using map_insert_le [of "\<lambda>e. sr_parent (snd e) = p" i r "gd_reservations st"]
    map_insert_le [of "\<lambda>e. sr_project (snd e) = q" i r "gd_reservations st"]
  by (simp_all add: children_load_def delegated_load_def)

lemma load_apply:
  assumes "apply_new_session plan st = (st', ok)" "plan_reserved st plan"
  shows "children_load p st' \<le> children_load p st" "delegated_load q st' \<le> delegated_load q st"
proof -
  let ?i = "sp_id plan"
  let ?s = "\<lparr> gs_project = sp_project plan, gs_parent = sp_parent plan, gs_depth = sp_depth plan \<rparr>"
  have "children_load p st' \<le> children_load p st \<and> delegated_load q st' \<le> delegated_load q st"
  proof (cases ok)
    case False
    then have "st' = st \<lparr> gd_reservations := map_remove ?i (gd_reservations st) \<rparr>"
      using assms(1) by (auto simp: apply_new_session_def Let_def split: if_splits)
    then show ?thesis using load_remove by simp
  next
    case True
    then have st': "st' = st \<lparr> gd_new := map_remove ?i (gd_new st),
        gd_reservations := map_remove ?i (gd_reservations st),
        gd_sessions := map_insert ?i ?s (gd_sessions st) \<rparr>"
      and m: "map_of (gd_new st) ?i = Some (sp_generation plan)"
      using assms(1) by (auto simp: apply_new_session_def Let_def split: if_splits)
    have rem: "length (filter P (map_remove ?i (gd_reservations st))) \<le> length (filter P (gd_reservations st))" for P
      by (rule map_remove_le)
    show ?thesis
    proof (cases "sp_parent plan")
      case None
      then show ?thesis
        using map_insert_le [of "\<lambda>e. gs_parent (snd e) = Some p" ?i ?s "gd_sessions st"]
          map_insert_le [of "\<lambda>e. gs_project (snd e) = q \<and> gs_parent (snd e) \<noteq> None" ?i ?s "gd_sessions st"]
          rem [of "\<lambda>e. sr_parent (snd e) = p"] rem [of "\<lambda>e. sr_project (snd e) = q"]
        by (simp add: st' children_load_def delegated_load_def)
    next
      case (Some par)
      let ?r = "\<lparr> sr_project = sp_project plan, sr_parent = par \<rparr>"
      have r: "map_of (gd_reservations st) ?i = Some ?r"
        using assms(2) m Some by (simp add: plan_reserved_def)
      show ?thesis
        using map_insert_le [of "\<lambda>e. gs_parent (snd e) = Some p" ?i ?s "gd_sessions st"]
          map_insert_le [of "\<lambda>e. gs_project (snd e) = q \<and> gs_parent (snd e) \<noteq> None" ?i ?s "gd_sessions st"]
          rem [of "\<lambda>e. sr_parent (snd e) = p"] rem [of "\<lambda>e. sr_project (snd e) = q"]
          map_remove_less [OF r, of "\<lambda>e. sr_parent (snd e) = p"]
          map_remove_less [OF r, of "\<lambda>e. sr_project (snd e) = q"] Some
        by (auto simp: st' children_load_def delegated_load_def split: if_splits)
    qed
  qed
  then show "children_load p st' \<le> children_load p st" "delegated_load q st' \<le> delegated_load q st"
    by blast+
qed

lemma plan_reserved_iff:
  "plan_reserved st p \<longleftrightarrow> (\<forall>par. sp_parent p = Some par \<longrightarrow>
     map_of (gd_new st) (sp_id p) = Some (sp_generation p) \<longrightarrow>
     map_of (gd_reservations st) (sp_id p) = Some \<lparr> sr_project = sp_project p, sr_parent = par \<rparr>)"
  by (auto simp: plan_reserved_def split: option.splits)

lemma plan_reserved_forget: "plan_reserved st p \<Longrightarrow> plan_reserved (forget_principal i st) p"
  by (auto simp: plan_reserved_def forget_principal_def map_of_remove split: option.splits)

lemma plan_reserved_sessions [simp]:
  "plan_reserved (st \<lparr> gd_sessions := x \<rparr>) p = plan_reserved st p"
  "plan_reserved (st \<lparr> gd_next_sid := n \<rparr>) p = plan_reserved st p"
  "plan_reserved (st \<lparr> gd_rebuild := r \<rparr>) p = plan_reserved st p"
  by (auto simp: plan_reserved_def split: option.splits)

lemma load_simps [simp]:
  "children_load p (st \<lparr> gd_next_sid := n \<rparr>) = children_load p st"
  "children_load p (st \<lparr> gd_new := m \<rparr>) = children_load p st"
  "delegated_load q (st \<lparr> gd_next_sid := n \<rparr>) = delegated_load q st"
  "delegated_load q (st \<lparr> gd_new := m \<rparr>) = delegated_load q st"
  by (simp_all add: children_load_def delegated_load_def)

lemma minted_mono: "minted m i \<Longrightarrow> m \<le> n \<Longrightarrow> minted n i"
  unfolding minted_def using le_trans by blast

lemma next_sid_fresh: "minted (gd_next_sid st) i \<Longrightarrow> i \<noteq> next_sid st"
  by (auto simp: minted_def next_sid_def)

lemma minted_next: "minted (gd_next_sid st + 1) (next_sid st)"
  unfolding minted_def next_sid_def by blast

lemma plan_reserved_other:
  "plan_reserved st p \<Longrightarrow> sp_id p \<noteq> i \<Longrightarrow>
     plan_reserved (st \<lparr> gd_new := map_insert i g (gd_new st) \<rparr>) p"
  "plan_reserved st p \<Longrightarrow> sp_id p \<noteq> i \<Longrightarrow>
     plan_reserved (st \<lparr> gd_reservations := map_insert i x (gd_reservations st) \<rparr>) p"
  "plan_reserved st p \<Longrightarrow> sp_id p \<noteq> i \<Longrightarrow>
     plan_reserved (st \<lparr> gd_reservations := map_remove i (gd_reservations st) \<rparr>) p"
  "plan_reserved st p \<Longrightarrow> plan_reserved (st \<lparr> gd_new := map_remove i (gd_new st) \<rparr>) p"
  by (auto simp: plan_reserved_def map_of_insert map_of_remove split: option.splits)

text \<open>What a successful plan leaves.\<close>

lemma plan_new_session_cases:
  assumes "plan_new_session role_ok persisted gen st = (st', res)"
  obtains (keep) "st' = st" "res = None"
  | (burnt) "st' = st \<lparr> gd_next_sid := gd_next_sid st + 1 \<rparr>" "res = None"
  | (minted) "st' = st \<lparr> gd_next_sid := gd_next_sid st + 1, gd_new := map_insert (next_sid st) gen (gd_new st) \<rparr>"
      "res = Some (next_sid st)"
  using assms unfolding plan_new_session_def Let_def by (cases role_ok; cases persisted) auto

lemma plan_spawn_cases:
  assumes "plan_spawn cfg ob role_ok persisted project gen parent st = (st', res)"
  obtains (keep) "st' = st" "\<exists>e. res = Inl e"
  | (burnt) "st' = st \<lparr> gd_next_sid := gd_next_sid st + 1 \<rparr>" "\<exists>e. res = Inl e"
  | (orphan) p where "parent = None" "res = Inr p" "sp_id p = next_sid st" "sp_parent p = None" "sp_depth p = 0"
      "st' = st \<lparr> gd_next_sid := gd_next_sid st + 1, gd_new := map_insert (next_sid st) gen (gd_new st) \<rparr>"
  | (child) p d where "parent = Some d" "check_spawn cfg ob project d st = None" "res = Inr p"
      "sp_id p = next_sid st" "sp_parent p = Some (dp_sid d)" "sp_project p = project"
      "sp_depth p = u32_saturating_add (dp_depth d) 1"
      "st' = st \<lparr> gd_next_sid := gd_next_sid st + 1, gd_new := map_insert (next_sid st) gen (gd_new st),
         gd_reservations := map_insert (next_sid st) \<lparr> sr_project = project, sr_parent = dp_sid d \<rparr>
           (gd_reservations st) \<rparr>"
proof (cases "case parent of Some p \<Rightarrow> check_spawn cfg ob project p st | None \<Rightarrow> None")
  case (Some reason)
  then have "st' = st" "res = Inl (Denied reason)" using assms by (simp_all add: plan_spawn_def)
  then show ?thesis using keep by blast
next
  case None
  obtain st1 i where n: "plan_new_session role_ok persisted gen st = (st1, i)" by fastforce
  from n show ?thesis
  proof (cases rule: plan_new_session_cases)
    case keep
    then have "st' = st" "res = Inl PlanFailed" using assms None n by (simp_all add: plan_spawn_def)
    then show ?thesis using that(1) by blast
  next
    case burnt
    then have "st' = st \<lparr> gd_next_sid := gd_next_sid st + 1 \<rparr>" "res = Inl PlanFailed"
      using assms None n by (simp_all add: plan_spawn_def)
    then show ?thesis using that(2) by blast
  next
    case minted
    show ?thesis
    proof (cases parent)
      case None: None
      then show ?thesis using assms n minted that(3) by (auto simp: plan_spawn_def)
    next
      case (Some d)
      then show ?thesis using assms None n minted that(4) by (auto simp: plan_spawn_def)
    qed
  qed
qed

lemma within_mono:
  "within_limits cfg r st \<Longrightarrow> (\<And>p. children_load p st' \<le> children_load p st)
    \<Longrightarrow> (\<And>q. delegated_load q st' \<le> delegated_load q st) \<Longrightarrow> within_limits cfg r st'"
  unfolding within_limits_def by (meson le_trans)

lemma plan_within:
  assumes "plan_spawn cfg ob role_ok persisted project gen parent st = (st', res)" "within_limits hi r st"
    "dc_max_children hi + r < 2 ^ 32" "dc_max_delegated hi + r < 2 ^ 32" "config_within cfg hi"
  shows "within_limits hi r st'"
  using assms(1)
proof (cases rule: plan_spawn_cases)
  case (child p d)
  let ?x = "\<lparr> sr_project = project, sr_parent = dp_sid d \<rparr>"
  let ?s = "st \<lparr> gd_reservations := map_insert (next_sid st) ?x (gd_reservations st) \<rparr>"
  note room = check_spawn_room [OF child(2) assms(2-5)]
  have "children_load q ?s \<le> dc_max_children hi + r" for q
    using load_reserve(1) [of q "next_sid st" ?x st] room(1) assms(2,5)
    by (cases "q = dp_sid d") (auto simp: within_limits_def config_within_def intro: le_trans)
  moreover have "delegated_load q ?s \<le> dc_max_delegated hi + r" for q
    using load_reserve(2) [of q "next_sid st" ?x st] room(2) assms(2,5)
    by (cases "q = project") (auto simp: within_limits_def config_within_def intro: le_trans)
  moreover have "children_load q st' = children_load q ?s" "delegated_load q st' = delegated_load q ?s" for q
    by (simp_all add: child(8) children_load_def delegated_load_def)
  ultimately show ?thesis by (simp add: within_limits_def)
qed (use assms(2) in \<open>simp_all add: within_limits_def\<close>)

lemma rebuild_within:
  assumes "apply_rebuilt_session i gen g st = (st', ok)" "within_limits cfg r st"
  shows "within_limits cfg (r + (if ok then 1 else 0)) st'"
proof (cases ok)
  case True
  then have st': "gd_sessions st' = map_insert i g (gd_sessions st)" "gd_reservations st' = gd_reservations st"
    using assms(1) by (auto simp: apply_rebuilt_session_def split: if_splits)
  have "children_load p st' \<le> children_load p st + 1" for p
    using map_insert_le [of "\<lambda>e. gs_parent (snd e) = Some p" i g "gd_sessions st"]
    by (simp add: children_load_def st' split: if_splits)
  moreover have "delegated_load q st' \<le> delegated_load q st + 1" for q
    using map_insert_le [of "\<lambda>e. gs_project (snd e) = q \<and> gs_parent (snd e) \<noteq> None" i g "gd_sessions st"]
    by (simp add: delegated_load_def st' split: if_splits)
  ultimately show ?thesis
    using assms(2) True unfolding within_limits_def
    by (simp add: add.assoc) (metis (no_types, lifting) Suc_le_mono le_trans)
next
  case False
  then show ?thesis using assms by (auto simp: apply_rebuilt_session_def split: if_splits)
qed

lemma rebuild_keeps:
  assumes "apply_rebuilt_session i gen g st = (st', ok)"
  shows "gd_new st' = gd_new st \<and> gd_reservations st' = gd_reservations st \<and> gd_next_sid st' = gd_next_sid st
     \<and> set (gd_sessions st') \<subseteq> insert (i, g) (set (gd_sessions st))"
  using assms by (auto simp: apply_rebuilt_session_def map_insert_def map_remove_def split: if_splits)

lemma rebuilt_depths:
  assumes "apply_rebuilt_session i gen g st = (st', ok)" "e \<in> set (gd_sessions st')"
  shows "e \<in> set (gd_sessions st) \<or> (ok \<and> fst e = i)"
  using assms by (auto simp: apply_rebuilt_session_def map_insert_def map_remove_def split: if_splits)

lemma set_map_insert: "e \<in> set (map_insert k v m) \<Longrightarrow> e = (k, v) \<or> e \<in> set m"
  by (auto simp: map_insert_def map_remove_def)

lemma set_map_remove: "e \<in> set (map_remove k m) \<Longrightarrow> e \<in> set m"
  by (simp add: map_remove_def)

lemma plans_sub:
  "plans_ok cfg s \<Longrightarrow> ss_plans s = ps @ p # qs \<Longrightarrow>
     plans_ok cfg (s \<lparr> ss_plans := ps @ qs \<rparr>) \<and> sp_id p \<notin> sp_id ` set (ps @ qs)"
  by (auto simp: plans_ok_def)

lemma plans_state:
  assumes "plans_ok cfg s" "gd_next_sid (ss_state s) \<le> gd_next_sid st"
    "\<And>p. p \<in> set (ss_plans s) \<Longrightarrow> plan_reserved (ss_state s) p \<Longrightarrow> plan_reserved st p"
  shows "plans_ok cfg (s \<lparr> ss_state := st \<rparr>)"
  using assms minted_mono by (fastforce simp: plans_ok_def)

lemma plans_ok_swap:
  "plans_ok cfg (s \<lparr> ss_plans := ps, ss_state := st \<rparr>) = plans_ok cfg (s \<lparr> ss_state := st, ss_plans := ps \<rparr>)"
  by (simp add: plans_ok_def)

lemma plans_plan:
  assumes "plans_ok hi s" "config_within cfg hi" "plan_spawn cfg ob role_ok persisted project gen parent (ss_state s) = (st, Inr p)"
  shows "plans_ok hi (s \<lparr> ss_state := st, ss_plans := ss_plans s @ [p] \<rparr>)"
proof -
  let ?i = "next_sid (ss_state s)"
  have old: "sp_id q \<noteq> ?i" "plan_reserved (ss_state s) q" "sp_depth q \<le> dc_max_depth hi"
    "minted (gd_next_sid (ss_state s) + 1) (sp_id q)" if "q \<in> set (ss_plans s)" for q
    using assms(1) that next_sid_fresh minted_mono [of "gd_next_sid (ss_state s)"] by (auto simp: plans_ok_def)
  have main: "sp_id p = ?i \<and> gd_next_sid st = gd_next_sid (ss_state s) + 1 \<and> sp_depth p \<le> dc_max_depth hi
      \<and> plan_reserved st p \<and> (\<forall>q \<in> set (ss_plans s). plan_reserved st q)"
    using assms(3)
  proof (cases rule: plan_spawn_cases)
    case (orphan q)
    then show ?thesis using old by (auto simp: plan_reserved_iff map_of_insert)
  next
    case (child q d)
    then have "sp_depth q \<le> dc_max_depth hi"
      using assms(2) by (auto simp: check_spawn_def config_within_def split: if_splits)
    then show ?thesis using child old
      by (auto simp: plan_reserved_iff map_of_insert)
  qed simp_all
  have i: "sp_id p = ?i" and n: "gd_next_sid st = gd_next_sid (ss_state s) + 1" using main by simp_all
  have "?i \<notin> sp_id ` set (ss_plans s)" using old(1) by (metis imageE)
  then show ?thesis
    using main assms(1) old(3,4) minted_next [of "ss_state s"]
    by (auto simp: plans_ok_def i n)
qed

lemma apply_cases:
  assumes "apply_new_session p st = (st', ok)"
  obtains (refused) "\<not> ok" "st' = st \<lparr> gd_reservations := map_remove (sp_id p) (gd_reservations st) \<rparr>"
  | (live) "ok" "map_of (gd_new st) (sp_id p) = Some (sp_generation p)" "session_of st (sp_id p) = None"
      "st' = st \<lparr> gd_new := map_remove (sp_id p) (gd_new st),
         gd_reservations := map_remove (sp_id p) (gd_reservations st),
         gd_sessions := map_insert (sp_id p)
           \<lparr> gs_project = sp_project p, gs_parent = sp_parent p, gs_depth = sp_depth p \<rparr> (gd_sessions st) \<rparr>"
  using assms by (auto simp: apply_new_session_def Let_def split: if_splits)

lemma plans_apply:
  assumes "plans_ok cfg s" "ss_plans s = ps @ p # qs" "apply_new_session p (ss_state s) = (st, ok)"
  shows "plans_ok cfg (s \<lparr> ss_state := st, ss_plans := ps @ qs \<rparr>)"
proof -
  let ?s = "s \<lparr> ss_plans := ps @ qs \<rparr>"
  have sub: "plans_ok cfg ?s" and other: "sp_id p \<notin> sp_id ` set (ps @ qs)"
    using plans_sub [OF assms(1,2)] by simp_all
  have "plans_ok cfg (?s \<lparr> ss_state := st \<rparr>)"
  proof (rule plans_state [OF sub])
    show "gd_next_sid (ss_state ?s) \<le> gd_next_sid st"
      using assms(3) by (cases rule: apply_cases) simp_all
    show "plan_reserved st q" if q: "q \<in> set (ss_plans ?s)" "plan_reserved (ss_state ?s) q" for q
    proof -
      have "sp_id q \<noteq> sp_id p" using q(1) other by simp (metis Un_iff image_eqI)
      with assms(3) q(2) show ?thesis
        by (cases rule: apply_cases)
          (auto simp: plan_reserved_iff map_of_remove)
    qed
  qed
  then show ?thesis by (simp add: plans_ok_swap)
qed

lemma plans_forget:
  assumes "plans_ok cfg s"
  shows "plans_ok cfg (s \<lparr> ss_state := forget_principal i (ss_state s) \<rparr>)"
  by (rule plans_state [OF assms _ plan_reserved_forget]) (simp add: forget_principal_def)

lemma spawn_step_plans:
  assumes "spawn_step cfg s s'" "plans_ok cfg s"
  shows "plans_ok cfg s'"
  using assms
proof (cases rule: spawn_step.cases)
  case (step_refuse cfg1 ob ro pe project gen parent st e)
  have "plans_ok cfg (s \<lparr> ss_state := st \<rparr>)"
    using step_refuse(3)
  proof (cases rule: plan_spawn_cases)
    case burnt
    then show ?thesis by (intro plans_state [OF assms(2)]) auto
  qed (use assms(2) in simp_all)
  then show ?thesis using step_refuse by simp
next
  case (step_fail ps p qs)
  then show ?thesis
    using plans_forget [of cfg "s \<lparr> ss_plans := ps @ qs \<rparr>" "sp_id p"] plans_sub [OF assms(2)]
    by (simp add: plans_ok_swap)
next
  case (step_leave i)
  then show ?thesis using plans_state [OF assms(2)] by (simp add: remove_session_def)
next
  case (step_reserve i gen)
  then show ?thesis using plans_state [OF assms(2)] by (simp add: reserve_rebuild_def)
next
  case (step_cancel i)
  then show ?thesis using plans_state [OF assms(2)] by (simp add: cancel_rebuild_def)
next
  case (step_rebuild i gen g st ok)
  have "plans_ok cfg (s \<lparr> ss_state := st \<rparr>)"
    by (rule plans_state [OF assms(2)]) (use rebuild_keeps [OF step_rebuild(2)] in \<open>auto simp: plan_reserved_iff\<close>)
  then show ?thesis using step_rebuild by (simp add: plans_ok_def)
qed (auto intro: plans_plan plans_apply plans_forget)

lemma spawn_step_depths:
  assumes "spawn_step cfg s s'" "plans_ok cfg s" "depths_ok cfg (ss_back s) (ss_state s)"
  shows "depths_ok cfg (ss_back s') (ss_state s')"
  using assms(1)
proof (cases rule: spawn_step.cases)
  case (step_plan cfg1 ob ro pe project gen parent st p)
  have "gd_sessions st = gd_sessions (ss_state s)"
    using step_plan(3) by (cases rule: plan_spawn_cases) auto
  then show ?thesis using step_plan assms(3) by (simp add: depths_ok_def)
next
  case (step_refuse cfg1 ob ro pe project gen parent st e)
  have "gd_sessions st = gd_sessions (ss_state s)"
    using step_refuse(3) by (cases rule: plan_spawn_cases) auto
  then show ?thesis using step_refuse assms(3) by (simp add: depths_ok_def)
next
  case (step_apply ps p qs st ok)
  have "sp_depth p \<le> dc_max_depth cfg" using assms(2) step_apply(2) by (simp add: plans_ok_def)
  with step_apply(3) assms(3) have "depths_ok cfg (ss_back s) st"
    by (cases rule: apply_cases) (auto simp: depths_ok_def dest!: set_map_insert)
  then show ?thesis using step_apply by simp
next
  case (step_leave i)
  then show ?thesis using assms(3) by (auto simp: depths_ok_def remove_session_def dest: set_map_remove)
next
  case (step_rebuild i gen g st ok)
  then show ?thesis using assms(3) rebuilt_depths [OF step_rebuild(2)] by (cases ok) (auto simp: depths_ok_def)
qed (use assms(3) in \<open>simp_all add: depths_ok_def forget_principal_def reserve_rebuild_def cancel_rebuild_def\<close>)

lemma spawn_step_rebuilt: "spawn_step cfg s s' \<Longrightarrow> ss_rebuilt s \<le> ss_rebuilt s'"
  by (cases rule: spawn_step.cases) auto

lemma spawn_step_within:
  assumes "spawn_step cfg s s'" "plans_ok cfg s" "within_limits cfg (ss_rebuilt s) (ss_state s)"
    "dc_max_children cfg + ss_rebuilt s' < 2 ^ 32" "dc_max_delegated cfg + ss_rebuilt s' < 2 ^ 32"
  shows "within_limits cfg (ss_rebuilt s') (ss_state s')"
  using assms(1)
proof (cases rule: spawn_step.cases)
  case (step_plan cfg1 ob ro pe project gen parent st p)
  then show ?thesis using plan_within [OF step_plan(3) assms(3)] step_plan(2) assms(4,5) by simp
next
  case (step_refuse cfg1 ob ro pe project gen parent st e)
  then show ?thesis using plan_within [OF step_refuse(3) assms(3)] step_refuse(2) assms(4,5) by simp
next
  case (step_apply ps p qs st ok)
  have "plan_reserved (ss_state s) p" using assms(2) step_apply(2) by (simp add: plans_ok_def)
  then show ?thesis using step_apply within_mono [OF assms(3)] load_apply [OF step_apply(3)] by simp
next
  case (step_reserve i gen)
  then show ?thesis using assms(3)
    by (simp add: within_limits_def children_load_def delegated_load_def reserve_rebuild_def)
next
  case (step_cancel i)
  then show ?thesis using assms(3)
    by (simp add: within_limits_def children_load_def delegated_load_def cancel_rebuild_def)
next
  case (step_rebuild i gen g st ok)
  then show ?thesis using rebuild_within [OF step_rebuild(2) assms(3)] by simp
qed (use within_mono [OF assms(3)] load_forget load_leave in simp_all)

lemma spawn_reachable_ok:
  assumes "spawn_reachable cfg s" "dc_max_children cfg + ss_rebuilt s < 2 ^ 32"
    "dc_max_delegated cfg + ss_rebuilt s < 2 ^ 32"
  shows "plans_ok cfg s \<and> depths_ok cfg (ss_back s) (ss_state s) \<and> within_limits cfg (ss_rebuilt s) (ss_state s)"
  using assms
proof (induction rule: spawn_reachable.induct)
  case (spawn_init n)
  show ?case
    by (simp add: spawn_start_def plans_ok_def depths_ok_def within_limits_def children_load_def delegated_load_def)
next
  case (spawn_next s s')
  then show ?case
    using spawn_step_rebuilt [of cfg s s'] spawn_step_plans [of cfg s s'] spawn_step_depths [of cfg s s']
      spawn_step_within [of cfg s s'] by simp
qed

subsection \<open>What the walks find\<close>

text \<open>The reference: the ancestor \<^verbatim>\<open>k\<close> rungs up.\<close>

primrec ancestor_at :: "(sid \<Rightarrow> sid option) \<Rightarrow> sid \<Rightarrow> nat \<Rightarrow> sid option" where
  "ancestor_at parent c 0 = Some c"
| "ancestor_at parent c (Suc k) = Option.bind (ancestor_at parent c k) parent"

lemma ancestor_at_none: "ancestor_at parent c k = None \<Longrightarrow> ancestor_at parent c (k + m) = None"
  by (induction m) auto

lemma ancestor_at_shift:
  "ancestor_at parent c i = ancestor_at parent c j \<Longrightarrow>
     ancestor_at parent c (i + m) = ancestor_at parent c (j + m)"
  by (induction m) auto

definition first_ancestors :: "(sid \<Rightarrow> sid option) \<Rightarrow> sid \<Rightarrow> nat \<Rightarrow> sid set" where
  "first_ancestors parent c n = {a. \<exists>k < n. ancestor_at parent c k = Some a}"

lemma first_ancestors_Suc:
  "first_ancestors parent c (Suc n) = first_ancestors parent c n
     \<union> (case ancestor_at parent c n of Some a \<Rightarrow> {a} | None \<Rightarrow> {})"
  unfolding first_ancestors_def by (auto simp: less_Suc_eq split: option.splits)

lemma first_ancestors_none:
  "ancestor_at parent c n = None \<Longrightarrow> first_ancestors parent c (n + m) = first_ancestors parent c n"
  by (induction m) (simp_all add: first_ancestors_Suc ancestor_at_none)

text \<open>Once a sid repeats, no further rung is new.\<close>

lemma first_ancestors_repeat:
  assumes "ancestor_at parent c n = Some a" "a \<in> first_ancestors parent c n"
  shows "first_ancestors parent c (n + m) = first_ancestors parent c n"
proof -
  obtain j where j: "j < n" "ancestor_at parent c j = Some a"
    using assms(2) by (auto simp: first_ancestors_def)
  have old: "case ancestor_at parent c (n + m) of Some b \<Rightarrow> b \<in> first_ancestors parent c n | None \<Rightarrow> True" for m
  proof (induction m rule: less_induct)
    case (less m)
    have eq: "ancestor_at parent c (n + m) = ancestor_at parent c (j + m)"
      using ancestor_at_shift assms(1) j(2) by metis
    show ?case
    proof (cases "j + m < n")
      case True
      then show ?thesis by (auto simp: eq first_ancestors_def split: option.splits)
    next
      case False
      then have m: "j + m = n + (j + m - n)" "j + m - n < m" using j(1) by linarith+
      then show ?thesis using less [of "j + m - n"] eq by simp
    qed
  qed
  show ?thesis
  proof (induction m)
    case (Suc m)
    then show ?case using old [of m] by (auto simp: first_ancestors_Suc split: option.splits)
  qed simp
qed

lemma chain_walk_set:
  "set seen = first_ancestors parent c k \<Longrightarrow>
     set (chain_walk n parent (ancestor_at parent c k) seen) = first_ancestors parent c (k + n)"
proof (induction n arbitrary: k seen)
  case (Suc n)
  show ?case
  proof (cases "ancestor_at parent c k")
    case None
    then show ?thesis using Suc.prems first_ancestors_none [of parent c k "Suc n"] by simp
  next
    case (Some a)
    show ?thesis
    proof (cases "a \<in> set seen")
      case True
      then show ?thesis
        using Suc.prems Some first_ancestors_repeat [OF Some, of "Suc n"] by simp
    next
      case False
      have "set (seen @ [a]) = first_ancestors parent c (Suc k)"
        using Suc.prems Some by (auto simp: first_ancestors_Suc)
      then show ?thesis using Suc.IH [of "seen @ [a]" "Suc k"] Some False by simp
    qed
  qed
qed simp

lemma ancestor_chain_set:
  "ancestor_chain cfg st c = first_ancestors (live_parent st) c (chain_cap cfg + 1)"
  using chain_walk_set [of "[]" "live_parent st" c 0 "chain_cap cfg + 1"]
  by (simp add: ancestor_chain_def first_ancestors_def)

lemma lineage_walk_iff:
  "set seen = first_ancestors parent c k \<Longrightarrow> anc \<notin> first_ancestors parent c (Suc k) \<Longrightarrow>
     lineage_walk n parent anc (ancestor_at parent c k) seen
       \<longleftrightarrow> anc \<in> first_ancestors parent c (Suc (k + n))"
proof (induction n arbitrary: k seen)
  case (Suc n)
  show ?case
  proof (cases "ancestor_at parent c k")
    case None
    then show ?thesis using Suc.prems first_ancestors_none [of parent c k "Suc (Suc n)"]
      first_ancestors_none [of parent c k 1] by simp
  next
    case (Some a)
    show ?thesis
    proof (cases "a \<in> set seen")
      case True
      then show ?thesis
        using Suc.prems Some first_ancestors_repeat [OF Some, of "Suc (Suc n)"]
          first_ancestors_repeat [OF Some, of 1] by simp
    next
      case False
      have seen: "set (a # seen) = first_ancestors parent c (Suc k)"
        using Suc.prems(1) Some by (auto simp: first_ancestors_Suc)
      have next': "ancestor_at parent c (Suc k) = parent a" using Some by simp
      show ?thesis
      proof (cases "parent a = Some anc")
        case True
        then have "anc \<in> first_ancestors parent c (Suc (k + Suc n))"
          using next' by (auto simp: first_ancestors_def intro!: exI [of _ "Suc k"])
        then show ?thesis using Some False True by simp
      next
        case no: False
        have out: "anc \<notin> first_ancestors parent c (Suc (Suc k))"
          using Suc.prems(2) no next' by (auto simp: first_ancestors_Suc [of _ _ "Suc k"] split: option.splits)
        have "lineage_walk (Suc n) parent anc (Some a) seen = lineage_walk n parent anc (parent a) (a # seen)"
          using False no by (cases "parent a") simp_all
        then show ?thesis using Suc.IH [OF seen out] Some next' by simp
      qed
    qed
  qed
qed simp

lemma lineage_reaches_iff:
  "lineage_reaches cfg meta st c anc \<longleftrightarrow>
     c \<noteq> anc \<and> anc \<in> first_ancestors (lineage_parent meta st) c (chain_cap cfg + 2)"
proof (cases "c = anc")
  case False
  then show ?thesis
    using lineage_walk_iff [of "[]" "lineage_parent meta st" c 0 anc "chain_cap cfg + 1"]
    by (simp add: lineage_reaches_def first_ancestors_def)
qed (simp add: lineage_reaches_def)

text \<open>The live walk follows the full lineage up to the first rung that is not live.\<close>

lemma live_parent_dead: "session_of st c = None \<Longrightarrow> live_parent st c = None"
  by (simp add: live_parent_def)

lemma live_ancestor_lineage:
  "ancestor_at (live_parent st) c k = Some a \<Longrightarrow> ancestor_at (lineage_parent meta st) c k = Some a"
proof (induction k arbitrary: a)
  case (Suc k)
  then obtain b where b: "ancestor_at (live_parent st) c k = Some b" "live_parent st b = Some a"
    by (cases "ancestor_at (live_parent st) c k") auto
  moreover have "lineage_parent meta st b = Some a"
    using b(2) by (cases "session_of st b") (auto simp: lineage_parent_def live_parent_def)
  ultimately show ?case using Suc.IH by simp
qed simp

lemma live_walk_stops:
  assumes "ancestor_at (lineage_parent meta st) c j = Some rung" "session_of st rung = None"
    "ancestor_at (live_parent st) c k = Some a"
  shows "k \<le> j"
proof (rule ccontr)
  assume "\<not> k \<le> j"
  then obtain m where m: "k = Suc j + m" using less_imp_Suc_add [of j k] by auto
  have "ancestor_at (live_parent st) c (Suc j) = None"
  proof (cases "ancestor_at (live_parent st) c j")
    case (Some b)
    then have "b = rung" using live_ancestor_lineage [OF Some, of meta] assms(1) by simp
    then show ?thesis using Some live_parent_dead [OF assms(2)] by simp
  qed simp
  then show False using ancestor_at_none [of "live_parent st" c "Suc j" m] assms(3) m by simp
qed

section \<open>Properties\<close>

text \<open>C5. However spawns, applications, failures, releases and rebuilds interleave, and however the
  configuration changes between spawns: a parent's live and starting children never exceed
  \<^verbatim>\<open>max_children\<close> and a project's delegated sessions never exceed \<^verbatim>\<open>max_delegated\<close>, each at the largest
  value it ever had and up to the sessions brought back meanwhile (rebuilding is not guarded), while
  these sums fit \<^verbatim>\<open>u32\<close>; and a live session that was not brought back is no deeper than the largest
  \<^verbatim>\<open>max_depth\<close>. One that was brought back has whatever depth its metadata records.\<close>

theorem spawns_stay_within_limits:
  assumes "spawn_reachable hi s" "dc_max_children hi + ss_rebuilt s < 2 ^ 32"
    "dc_max_delegated hi + ss_rebuilt s < 2 ^ 32"
  shows "children_load p (ss_state s) \<le> dc_max_children hi + ss_rebuilt s
    \<and> delegated_load q (ss_state s) \<le> dc_max_delegated hi + ss_rebuilt s
    \<and> (\<forall>e \<in> set (gd_sessions (ss_state s)). fst e \<in> ss_back s \<or> gs_depth (snd e) \<le> dc_max_depth hi)"
  using spawn_reachable_ok [OF assms] by (simp_all add: within_limits_def depths_ok_def)

text \<open>C26. The cycle guard of a dispatch refuses exactly the caller and the ancestors its live chain
  shows within \<^verbatim>\<open>max_depth + 2\<close> rungs (at most 64), even over a corrupt circular lineage; and a
  lineage walk reports exactly the ancestors one rung further that the live map and the session
  metadata together show.\<close>

theorem lineage_walks_exact:
  "(check_dispatch_cycle cfg st caller target = None \<longleftrightarrow>
     \<not> (\<exists>k \<le> chain_cap cfg. ancestor_at (live_parent st) caller k = Some target))
   \<and> (lineage_reaches cfg meta st c anc \<longleftrightarrow>
     c \<noteq> anc \<and> (\<exists>k \<le> chain_cap cfg + 1. ancestor_at (lineage_parent meta st) c k = Some anc))"
proof -
  have "caller \<in> ancestor_chain cfg st caller"
    by (auto simp: ancestor_chain_set first_ancestors_def intro: exI [of _ 0])
  then have "check_dispatch_cycle cfg st caller target = None \<longleftrightarrow> target \<notin> ancestor_chain cfg st caller"
    by (auto simp: check_dispatch_cycle_def)
  then show ?thesis
    by (auto simp: ancestor_chain_set lineage_reaches_iff first_ancestors_def less_Suc_eq_le)
qed

text \<open>The cycle guard reads only the live map: when a session between a caller and its ancestor
  has been released or evicted, dispatching back to that ancestor is not refused, although the
  lineage walk with the session metadata still reaches it.\<close>

theorem cycle_guard_misses_released_rung:
  assumes "lineage_reaches cfg meta st caller target"
    "ancestor_at (lineage_parent meta st) caller j = Some rung" "session_of st rung = None"
    "list_all (\<lambda>i. ancestor_at (lineage_parent meta st) caller i \<noteq> Some target) [0..<j + 1]"
  shows "check_dispatch_cycle cfg st caller target = None"
proof -
  have "ancestor_at (live_parent st) caller k \<noteq> Some target" for k
  proof
    assume k: "ancestor_at (live_parent st) caller k = Some target"
    then have "k \<le> j" by (rule live_walk_stops [OF assms(2,3)])
    moreover have "ancestor_at (lineage_parent meta st) caller k = Some target"
      by (rule live_ancestor_lineage [OF k])
    ultimately show False using assms(4) by (cases "k = j") (simp_all add: list_all_iff)
  qed
  then have "target \<notin> ancestor_chain cfg st caller" by (auto simp: ancestor_chain_set first_ancestors_def)
  moreover have "target \<noteq> caller" using assms(1) by (auto simp: lineage_reaches_def)
  ultimately show ?thesis by (simp add: check_dispatch_cycle_def)
qed

section \<open>Witnesses\<close>

text \<open>A root with one live child; then a second session between a caller and the root that has left the
  live map.\<close>

definition ex_parent :: delegation_parent where
  "ex_parent = \<lparr> dp_sid = lit ''s1'', dp_role = [], dp_depth = 0 \<rparr>"

definition ex_limits :: delegation_config where
  "ex_limits = \<lparr> dc_max_depth = 2, dc_max_children = 1, dc_max_delegated = 5 \<rparr>"

definition ex_starting :: spawn_system where
  "ex_starting = \<lparr> ss_state = \<lparr> gd_sessions = [],
       gd_reservations = [(lit ''s'' @ dec 2, \<lparr> sr_project = lit ''p'', sr_parent = lit ''s1'' \<rparr>)],
       gd_new = [(lit ''s'' @ dec 2, 7)], gd_rebuild = [], gd_next_sid = 2 \<rparr>,
     ss_plans = [\<lparr> sp_id = lit ''s'' @ dec 2, sp_generation = 7, sp_project = lit ''p'',
       sp_parent = Some (lit ''s1''), sp_depth = 1 \<rparr>], ss_rebuilt = 0, ss_back = {} \<rparr>"

lemma ex_starting_reachable: "spawn_reachable ex_limits ex_starting"
proof -
  have "plan_spawn ex_limits False True True (lit ''p'') 7 (Some ex_parent) (ss_state (spawn_start 1))
      = (ss_state ex_starting, Inr (hd (ss_plans ex_starting)))"
    by (simp add: plan_spawn_def check_spawn_def plan_new_session_def next_sid_def ex_limits_def ex_parent_def
        ex_starting_def spawn_start_def count_active_children_def count_reserved_children_def
        count_active_delegated_def count_reserved_delegated_def as_u32_def u32_saturating_add_def
        map_insert_def map_remove_def Let_def)
  from spawn_next [OF spawn_init step_plan [OF _ this]] show ?thesis
    by (simp add: spawn_start_def ex_starting_def config_within_def)
qed

lemma spawns_stay_within_limits_witness:
  "children_load (lit ''s1'') (ss_state ex_starting) = 1
   \<and> children_load (lit ''s1'') (ss_state ex_starting) \<le> dc_max_children ex_limits
   \<and> check_spawn ex_limits False (lit ''p'') ex_parent (ss_state ex_starting) = Some DenyChildren"
proof -
  have "children_load (lit ''s1'') (ss_state ex_starting) \<le> dc_max_children ex_limits"
    using spawns_stay_within_limits [OF ex_starting_reachable, of "lit ''s1''" "lit ''p''"]
    by (simp add: ex_starting_def ex_limits_def)
  then show ?thesis
    by (simp add: children_load_def check_spawn_def ex_starting_def ex_limits_def ex_parent_def
        count_active_children_def count_reserved_children_def as_u32_def u32_saturating_add_def)
qed

definition ex_released :: guard_state where
  "ex_released = \<lparr> gd_sessions =
       [(lit ''s1'', \<lparr> gs_project = lit ''p'', gs_parent = None, gs_depth = 0 \<rparr>),
        (lit ''s3'', \<lparr> gs_project = lit ''p'', gs_parent = Some (lit ''s2''), gs_depth = 2 \<rparr>)],
     gd_reservations = [], gd_new = [], gd_rebuild = [], gd_next_sid = 3 \<rparr>"

definition ex_meta :: "sid \<Rightarrow> sid option" where
  "ex_meta c = (if c = lit ''s2'' then Some (lit ''s1'') else None)"

lemma cycle_guard_misses_released_rung_witness:
  "lineage_reaches default_delegation_config ex_meta ex_released (lit ''s3'') (lit ''s1'')
   \<and> check_dispatch_cycle default_delegation_config ex_released (lit ''s3'') (lit ''s1'') = None"
proof -
  have p: "lineage_parent ex_meta ex_released (lit ''s3'') = Some (lit ''s2'')"
    "lineage_parent ex_meta ex_released (lit ''s2'') = Some (lit ''s1'')"
    by (simp_all add: lineage_parent_def ex_released_def ex_meta_def session_of_def)
  have r: "lineage_reaches default_delegation_config ex_meta ex_released (lit ''s3'') (lit ''s1'')"
    using p by (simp add: lineage_reaches_def default_delegation_config_def chain_cap_def
        numeral_eq_Suc)
  have "check_dispatch_cycle default_delegation_config ex_released (lit ''s3'') (lit ''s1'') = None"
    by (rule cycle_guard_misses_released_rung [OF r, of 1 "lit ''s2''"])
      (use p in \<open>simp_all add: ex_released_def session_of_def upt_rec\<close>)
  then show ?thesis using r by simp
qed

end
