(* ===== verification/Idem_Cache.thy ===== *)
theory Idem_Cache
  imports Prelude
begin

text \<open>
  The idempotency caches of the agent tools (\<^verbatim>\<open>IdemCache\<close> of \<^verbatim>\<open>ccteam-im/src/delegation.rs\<close>, the
  replay and record calls of \<^verbatim>\<open>ccteam-im/src/gateway.rs\<close> and their use in
  \<^verbatim>\<open>ccteam-im/src/mcp/dispatch.rs\<close>): a bounded map with a time to live and least-recently-recorded
  eviction. Instants are natural numbers read from a monotonic clock.
\<close>

section \<open>The cache\<close>

definition IDEM_CAP :: nat where
  "IDEM_CAP = 256"

text \<open>In seconds; instants count seconds too.\<close>

definition IDEM_TTL :: nat where
  "IDEM_TTL = 3600"

record idem_cache =
  ic_map :: "utext \<rightharpoonup> utext \<times> nat"
  ic_order :: "utext list"
  ic_cap :: nat
  ic_ttl :: nat

definition idem_new :: "nat \<Rightarrow> nat \<Rightarrow> idem_cache" where
  "idem_new c ttl = \<lparr> ic_map = Map.empty, ic_order = [], ic_cap = max c 1, ic_ttl = ttl \<rparr>"

definition idem_default :: idem_cache where
  "idem_default = idem_new IDEM_CAP IDEM_TTL"

definition scoped :: "utext \<Rightarrow> utext \<Rightarrow> utext" where
  "scoped scope key = scope @ [0] @ key"

definition idem_get :: "utext \<Rightarrow> nat \<Rightarrow> idem_cache \<Rightarrow> utext option \<times> idem_cache" where
  "idem_get key now c = (case ic_map c key of
       None \<Rightarrow> (None, c)
     | Some (v, at) \<Rightarrow>
         if ic_ttl c \<le> now - at
         then (None, c \<lparr> ic_map := (ic_map c)(key := None), ic_order := filter (\<lambda>k. k \<noteq> key) (ic_order c) \<rparr>)
         else (Some v, c))"

text \<open>The eviction loop: oldest entries go until one more fits.\<close>

fun idem_evict :: "nat \<Rightarrow> utext list \<Rightarrow> (utext \<rightharpoonup> utext \<times> nat) \<Rightarrow> utext list \<times> (utext \<rightharpoonup> utext \<times> nat)" where
  "idem_evict c [] m = ([], m)"
| "idem_evict c (old # rest) m =
     (if c \<le> length (old # rest) then idem_evict c rest (m(old := None)) else (old # rest, m))"

definition idem_put :: "utext \<Rightarrow> utext \<Rightarrow> nat \<Rightarrow> idem_cache \<Rightarrow> idem_cache" where
  "idem_put key v now c =
     (if ic_map c key \<noteq> None
      then c \<lparr> ic_map := (ic_map c)(key \<mapsto> (v, now)),
               ic_order := filter (\<lambda>k. k \<noteq> key) (ic_order c) @ [key] \<rparr>
      else (let (order, m) = idem_evict (ic_cap c) (ic_order c) (ic_map c) in
            c \<lparr> ic_map := m(key \<mapsto> (v, now)), ic_order := order @ [key] \<rparr>))"

text \<open>The order lists exactly the keys of the map, each once, at most \<^verbatim>\<open>cap\<close> of them.\<close>

definition idem_wf :: "idem_cache \<Rightarrow> bool" where
  "idem_wf c \<longleftrightarrow> distinct (ic_order c) \<and> dom (ic_map c) = set (ic_order c)
     \<and> length (ic_order c) \<le> ic_cap c \<and> 0 < ic_cap c"

lemma idem_wf_new [simp]: "idem_wf (idem_new c ttl)"
  by (simp add: idem_wf_def idem_new_def)

lemma idem_evict_spec:
  assumes "idem_evict c xs m = (ys, m')" "distinct xs" "0 < c"
  shows "ys = drop (length xs - (c - 1)) xs \<and> m' = m |` (- set (take (length xs - (c - 1)) xs))"
  using assms
proof (induction c xs m rule: idem_evict.induct)
  case (2 c old rest m)
  show ?case
  proof (cases "c \<le> length (old # rest)")
    case True
    then have n: "length (old # rest) - (c - 1) = Suc (length rest - (c - 1))" using "2.prems"(3) by simp
    have e: "idem_evict c rest (m(old := None)) = (ys, m')" "distinct rest" using "2.prems" True by auto
    have "ys = drop (length rest - (c - 1)) rest
      \<and> m' = (m(old := None)) |` (- set (take (length rest - (c - 1)) rest))"
      by (rule "2.IH" [OF True e "2.prems"(3)])
    then show ?thesis unfolding n by (auto simp: restrict_map_def fun_eq_iff)
  next
    case False
    then show ?thesis using "2.prems" by (auto simp: restrict_map_def fun_eq_iff)
  qed
qed (simp add: restrict_map_def)

lemma idem_put_fresh:
  assumes "ic_map c key = None" "idem_wf c"
  shows "idem_put key v now c =
    (let d = length (ic_order c) - (ic_cap c - 1) in
     c \<lparr> ic_map := (ic_map c |` (- set (take d (ic_order c))))(key \<mapsto> (v, now)),
         ic_order := drop d (ic_order c) @ [key] \<rparr>)"
proof -
  obtain ys m' where e: "idem_evict (ic_cap c) (ic_order c) (ic_map c) = (ys, m')" by fastforce
  show ?thesis
    using idem_evict_spec [OF e] assms e by (simp add: idem_put_def idem_wf_def Let_def)
qed

lemma idem_wf_get: "idem_wf c \<Longrightarrow> idem_wf (snd (idem_get key now c))"
  by (auto simp: idem_wf_def idem_get_def split: option.splits intro: le_trans [OF length_filter_le])

lemma filter_key_less: "key \<in> set xs \<Longrightarrow> length (filter (\<lambda>k. k \<noteq> key) xs) < length xs"
  by (rule length_filter_less [where x = key]) simp_all

lemma idem_wf_put:
  assumes "idem_wf c"
  shows "idem_wf (idem_put key v now c)"
proof (cases "ic_map c key")
  case None
  let ?d = "length (ic_order c) - (ic_cap c - 1)"
  have key: "key \<notin> set (ic_order c)" using None assms by (auto simp: idem_wf_def)
  have split: "set (ic_order c) = set (take ?d (ic_order c)) \<union> set (drop ?d (ic_order c))"
    by (metis append_take_drop_id set_append)
  have disj: "set (take ?d (ic_order c)) \<inter> set (drop ?d (ic_order c)) = {}"
    using assms by (simp add: idem_wf_def set_take_disj_set_drop_if_distinct)
  have "dom (ic_map c |` (- set (take ?d (ic_order c)))) = set (drop ?d (ic_order c))"
    using assms split disj by (auto simp: idem_wf_def)
  then show ?thesis
    using assms key by (auto simp: idem_put_fresh [OF None assms] idem_wf_def Let_def dest: in_set_dropD)
next
  case (Some e)
  then have key: "key \<in> set (ic_order c)" using assms by (auto simp: idem_wf_def)
  then show ?thesis
    using Some assms filter_key_less [OF key] by (auto simp: idem_put_def idem_wf_def)
qed

section \<open>What a cache promises its callers\<close>

text \<open>A replay cache keeps a recorded value findable until it expires or \<^verbatim>\<open>room\<close> further keys have been
  recorded after it.\<close>

locale replay_cache =
  fixes look :: "'k \<Rightarrow> nat \<Rightarrow> 'c \<Rightarrow> 'v option \<times> 'c"
    and record_at :: "'k \<Rightarrow> 'v \<Rightarrow> nat \<Rightarrow> 'c \<Rightarrow> 'c"
    and valid :: "'c \<Rightarrow> bool"
    and holds :: "'k \<Rightarrow> 'v \<Rightarrow> nat \<Rightarrow> nat \<Rightarrow> 'c \<Rightarrow> bool"
    and ttl :: nat and room :: nat
  assumes valid_find: "valid c \<Longrightarrow> valid (snd (look k now c))"
    and valid_record: "valid c \<Longrightarrow> valid (record_at k v now c)"
    and holds_recorded: "valid c \<Longrightarrow> holds k v now room (record_at k v now c)"
    and holds_other: "valid c \<Longrightarrow> holds k v t (Suc n) c \<Longrightarrow> j \<noteq> k \<Longrightarrow> holds k v t n (record_at j w now c)"
    and holds_find: "valid c \<Longrightarrow> holds k v t n c \<Longrightarrow> now < t + ttl \<Longrightarrow> holds k v t n (snd (look j now c))"
    and find_held: "valid c \<Longrightarrow> holds k v t n c \<Longrightarrow> now < t + ttl \<Longrightarrow> fst (look k now c) = Some v"

datatype ('k, 'v) cache_op = Find 'k nat | Record 'k 'v nat

fun op_time :: "('k, 'v) cache_op \<Rightarrow> nat" where
  "op_time (Find k t) = t"
| "op_time (Record k v t) = t"

fun op_records :: "('k, 'v) cache_op \<Rightarrow> 'k option" where
  "op_records (Find k t) = None"
| "op_records (Record k v t) = Some k"

definition run_ops :: "('k \<Rightarrow> nat \<Rightarrow> 'c \<Rightarrow> 'v option \<times> 'c) \<Rightarrow> ('k \<Rightarrow> 'v \<Rightarrow> nat \<Rightarrow> 'c \<Rightarrow> 'c)
    \<Rightarrow> ('k, 'v) cache_op list \<Rightarrow> 'c \<Rightarrow> 'c" where
  "run_ops look record_at ops c =
     fold (\<lambda>op c. case op of Find k t \<Rightarrow> snd (look k t c) | Record k v t \<Rightarrow> record_at k v t c) ops c"

definition records :: "('k, 'v) cache_op list \<Rightarrow> nat" where
  "records ops = length (filter (\<lambda>op. op_records op \<noteq> None) ops)"

lemma run_ops_simps [simp]:
  "run_ops f r [] c = c"
  "run_ops f r (Find k t # ops) c = run_ops f r ops (snd (f k t c))"
  "run_ops f r (Record k v t # ops) c = run_ops f r ops (r k v t c)"
  "records [] = 0"
  "records (Find k t # ops) = records ops"
  "records (Record k v t # ops) = Suc (records ops)"
  by (simp_all add: run_ops_def records_def)

context replay_cache
begin

lemma valid_run: "valid c \<Longrightarrow> valid (run_ops look record_at ops c)"
proof (induction ops arbitrary: c)
  case (Cons op ops)
  then show ?case by (cases op) (simp_all add: valid_find valid_record)
qed simp

lemma holds_run:
  assumes "valid c" "holds k v t (records ops + n) c"
    "list_all (\<lambda>op. op_time op < t + ttl \<and> op_records op \<noteq> Some k) ops"
  shows "holds k v t n (run_ops look record_at ops c)"
  using assms
proof (induction ops arbitrary: c)
  case (Cons op ops)
  then show ?case
    by (cases op) (simp_all add: valid_find valid_record holds_find holds_other)
qed simp

lemma replay_after_record:
  assumes "valid c" "records ops \<le> room"
    "list_all (\<lambda>op. op_time op < t + ttl \<and> op_records op \<noteq> Some k) ops" "now < t + ttl"
  shows "fst (look k now (run_ops look record_at ops (record_at k v t c))) = Some v"
proof -
  let ?c = "record_at k v t c"
  have "holds k v t (records ops + (room - records ops)) ?c"
    using holds_recorded [OF assms(1), of k v t] assms(2) by simp
  from holds_run [OF valid_record [OF assms(1)] this assms(3)]
  show ?thesis by (rule find_held [OF valid_run [OF valid_record [OF assms(1)]] _ assms(4)])
qed

end

text \<open>The entries recorded after \<^verbatim>\<open>k\<close>, newest last.\<close>

definition behind :: "utext \<Rightarrow> utext list \<Rightarrow> utext list" where
  "behind k xs = tl (dropWhile (\<lambda>j. j \<noteq> k) xs)"

definition idem_holds :: "utext \<Rightarrow> utext \<Rightarrow> nat \<Rightarrow> nat \<Rightarrow> idem_cache \<Rightarrow> bool" where
  "idem_holds k v t n c \<longleftrightarrow> ic_map c k = Some (v, t) \<and> length (behind k (ic_order c)) + n < ic_cap c"

lemma behind_simps [simp]:
  "behind k [] = []"
  "behind k (x # xs) = (if x = k then xs else behind k xs)"
  by (simp_all add: behind_def)

lemma behind_absent [simp]: "k \<notin> set xs \<Longrightarrow> behind k (xs @ ys) = behind k ys"
  by (induction xs) auto

lemma behind_append: "k \<in> set xs \<Longrightarrow> behind k (xs @ ys) = behind k xs @ ys"
  by (induction xs) auto

lemma behind_filter: "j \<noteq> k \<Longrightarrow> length (behind k (filter (\<lambda>i. i \<noteq> j) xs)) \<le> length (behind k xs)"
  by (induction xs) auto

lemma behind_drop: "k \<in> set (drop d xs) \<Longrightarrow> distinct xs \<Longrightarrow> behind k (drop d xs) = behind k xs"
proof (induction xs arbitrary: d)
  case (Cons x xs)
  show ?case
  proof (cases d)
    case (Suc e)
    then show ?thesis using Cons by (auto dest: in_set_dropD)
  qed simp
qed simp

lemma behind_len: "k \<in> set (take d xs) \<Longrightarrow> length xs < length (behind k xs) + d + 1"
proof (induction xs arbitrary: d)
  case (Cons x xs)
  then obtain e where d: "d = Suc e" by (cases d) auto
  show ?case using Cons d by (cases "x = k") auto
qed simp

lemma idem_holds_recorded:
  assumes "idem_wf c"
  shows "idem_holds k v now (ic_cap c - 1) (idem_put k v now c)"
proof (cases "ic_map c k")
  case None
  then have "k \<notin> set (ic_order c)" using assms by (auto simp: idem_wf_def)
  then have "behind k (drop d (ic_order c) @ [k]) = []" for d
    by (metis behind_absent behind_simps(1,2) in_set_dropD)
  then show ?thesis
    using None assms by (simp add: idem_put_fresh idem_holds_def Let_def idem_wf_def)
next
  case (Some e)
  then show ?thesis using assms by (simp add: idem_put_def idem_holds_def idem_wf_def)
qed

lemma idem_holds_other:
  assumes "idem_wf c" "idem_holds k v t (Suc n) c" "j \<noteq> k"
  shows "idem_holds k v t n (idem_put j w now c)"
proof -
  have m: "ic_map c k = Some (v, t)" and room: "length (behind k (ic_order c)) + Suc n < ic_cap c"
    using assms(2) by (simp_all add: idem_holds_def)
  have k: "k \<in> set (ic_order c)" using m assms(1) by (auto simp: idem_wf_def)
  show ?thesis
  proof (cases "ic_map c j")
    case None
    let ?d = "length (ic_order c) - (ic_cap c - 1)"
    have "?d \<le> 1" using assms(1) by (auto simp: idem_wf_def)
    then have out: "k \<notin> set (take ?d (ic_order c))"
      using behind_len [of k ?d "ic_order c"] room by force
    then have "k \<in> set (drop ?d (ic_order c))"
      using k by (metis UnE append_take_drop_id set_append)
    then show ?thesis
      using None assms m room out
      by (simp add: idem_put_fresh idem_holds_def Let_def behind_append behind_drop idem_wf_def)
  next
    case (Some e)
    then show ?thesis
      using assms(3) m room k behind_filter [OF assms(3), of "ic_order c"]
      by (simp add: idem_put_def idem_holds_def behind_append)
  qed
qed

lemma idem_holds_get:
  assumes "idem_wf c" "idem_holds k v t n c" "now < t + ic_ttl c" "0 < ic_ttl c"
  shows "idem_holds k v t n (snd (idem_get j now c))"
proof (cases "j = k")
  case True
  then show ?thesis using assms by (auto simp: idem_holds_def idem_get_def)
next
  case False
  then show ?thesis
    using assms behind_filter [OF False, of "ic_order c"]
    by (auto simp: idem_holds_def idem_get_def split: option.splits)
qed

lemma idem_keeps_limits [simp]:
  "ic_cap (snd (idem_get k now c)) = ic_cap c" "ic_ttl (snd (idem_get k now c)) = ic_ttl c"
  "ic_cap (idem_put k v now c) = ic_cap c" "ic_ttl (idem_put k v now c) = ic_ttl c"
  by (auto simp: idem_get_def idem_put_def Let_def split: option.splits prod.splits)

definition idem_valid :: "nat \<Rightarrow> nat \<Rightarrow> idem_cache \<Rightarrow> bool" where
  "idem_valid n ttl c \<longleftrightarrow> idem_wf c \<and> ic_cap c = Suc n \<and> ic_ttl c = ttl \<and> 0 < ttl"

interpretation idem: replay_cache idem_get idem_put "idem_valid n ttl" idem_holds ttl n
proof unfold_locales
  show "idem_valid n ttl c \<Longrightarrow> idem_holds k v now n (idem_put k v now c)" for c k v now
    using idem_holds_recorded [of c k v now] by (simp add: idem_valid_def)
  show "idem_valid n ttl c \<Longrightarrow> idem_holds k v t m c \<Longrightarrow> now < t + ttl
      \<Longrightarrow> fst (idem_get k now c) = Some v" for c k v t m now
    by (auto simp: idem_valid_def idem_holds_def idem_get_def)
qed (auto simp: idem_valid_def idem_wf_get idem_wf_put idem_holds_other idem_holds_get)

section \<open>The replay and record calls of the gateway\<close>

record idem_gateway =
  ig_spawn :: idem_cache
  ig_dispatch :: idem_cache

definition idem_gateway_new :: idem_gateway where
  "idem_gateway_new = \<lparr> ig_spawn = idem_default, ig_dispatch = idem_default \<rparr>"

definition spawn_idem_replay :: "utext \<Rightarrow> utext \<Rightarrow> nat \<Rightarrow> idem_gateway \<Rightarrow> utext option \<times> idem_gateway" where
  "spawn_idem_replay project key now g =
     (let (r, c) = idem_get (scoped project key) now (ig_spawn g) in (r, g \<lparr> ig_spawn := c \<rparr>))"

definition spawn_idem_record :: "utext \<Rightarrow> utext \<Rightarrow> utext \<Rightarrow> nat \<Rightarrow> idem_gateway \<Rightarrow> idem_gateway" where
  "spawn_idem_record project key body now g =
     g \<lparr> ig_spawn := idem_put (scoped project key) body now (ig_spawn g) \<rparr>"

definition dispatch_idem_replay :: "sid \<Rightarrow> utext \<Rightarrow> nat \<Rightarrow> idem_gateway \<Rightarrow> utext option \<times> idem_gateway" where
  "dispatch_idem_replay child key now g =
     (let (r, c) = idem_get (scoped child key) now (ig_dispatch g) in (r, g \<lparr> ig_dispatch := c \<rparr>))"

definition dispatch_idem_record :: "sid \<Rightarrow> utext \<Rightarrow> utext \<Rightarrow> nat \<Rightarrow> idem_gateway \<Rightarrow> idem_gateway" where
  "dispatch_idem_record child key body now g =
     g \<lparr> ig_dispatch := idem_put (scoped child key) body now (ig_dispatch g) \<rparr>"

text \<open>Calls on either cache, by scope and key.\<close>

datatype idem_call =
    SpawnReplay utext utext nat
  | SpawnRecord utext utext utext nat
  | DispatchReplay sid utext nat
  | DispatchRecord sid utext utext nat

fun idem_call_step :: "idem_call \<Rightarrow> idem_gateway \<Rightarrow> idem_gateway" where
  "idem_call_step (SpawnReplay p k now) g = snd (spawn_idem_replay p k now g)"
| "idem_call_step (SpawnRecord p k b now) g = spawn_idem_record p k b now g"
| "idem_call_step (DispatchReplay c k now) g = snd (dispatch_idem_replay c k now g)"
| "idem_call_step (DispatchRecord c k b now) g = dispatch_idem_record c k b now g"

fun call_time :: "idem_call \<Rightarrow> nat" where
  "call_time (SpawnReplay p k now) = now"
| "call_time (SpawnRecord p k b now) = now"
| "call_time (DispatchReplay c k now) = now"
| "call_time (DispatchRecord c k b now) = now"

fun spawn_recorded :: "idem_call \<Rightarrow> (utext \<times> utext) option" where
  "spawn_recorded (SpawnRecord p k b now) = Some (p, k)"
| "spawn_recorded _ = None"

fun spawn_op :: "idem_call \<Rightarrow> (utext, utext) cache_op list" where
  "spawn_op (SpawnReplay p k now) = [Find (scoped p k) now]"
| "spawn_op (SpawnRecord p k b now) = [Record (scoped p k) b now]"
| "spawn_op _ = []"

lemma spawn_cache_run:
  "ig_spawn (fold idem_call_step cs g) = run_ops idem_get idem_put (concat (map spawn_op cs)) (ig_spawn g)"
proof (induction cs arbitrary: g)
  case (Cons c cs)
  then show ?case
    by (cases c) (simp_all add: spawn_idem_replay_def spawn_idem_record_def dispatch_idem_replay_def
        dispatch_idem_record_def split_beta)
qed simp

lemma scoped_inject: "0 \<notin> set p \<Longrightarrow> 0 \<notin> set q \<Longrightarrow> scoped p k = scoped q j \<longleftrightarrow> p = q \<and> k = j"
proof (induction p arbitrary: q)
  case Nil
  then show ?case by (cases q) (auto simp: scoped_def)
next
  case (Cons x p)
  then show ?case by (cases q) (auto simp: scoped_def)
qed

lemma records_concat: "records (concat (map spawn_op cs)) = length (filter (\<lambda>c. spawn_recorded c \<noteq> None) cs)"
proof (induction cs)
  case (Cons c cs)
  then show ?case by (cases c) simp_all
qed simp

lemma idem_valid_new: "idem_valid 255 IDEM_TTL idem_default"
  by (simp add: idem_valid_def idem_default_def idem_new_def IDEM_CAP_def IDEM_TTL_def idem_wf_def)

section \<open>The agent calls in flight\<close>

text \<open>The keys of the spawns holding their claim, of the dispatches between their replay check and
  their record, and everything spawned or submitted so far, with the calls that failed.\<close>

record agent_calls =
  ac_gateway :: idem_gateway
  ac_claims :: "(utext \<times> utext) list"
  ac_waiting :: "(sid \<times> utext) list"
  ac_spawned :: "(utext \<times> utext) list"
  ac_submitted :: "(sid \<times> utext) list"
  ac_failed :: "(utext \<times> utext) list"

inductive spawn_call_step :: "agent_calls \<Rightarrow> agent_calls \<Rightarrow> bool" where
  spawn_begin: "(p, k) \<notin> set (ac_claims s) \<Longrightarrow> spawn_idem_replay p k now (ac_gateway s) = (None, g) \<Longrightarrow>
    spawn_call_step s (s \<lparr> ac_gateway := g, ac_claims := (p, k) # ac_claims s,
      ac_spawned := ac_spawned s @ [(p, k)] \<rparr>)"
| spawn_replayed: "(p, k) \<notin> set (ac_claims s) \<Longrightarrow> spawn_idem_replay p k now (ac_gateway s) = (Some b, g) \<Longrightarrow>
    spawn_call_step s (s \<lparr> ac_gateway := g \<rparr>)"
| spawn_done: "(p, k) \<in> set (ac_claims s) \<Longrightarrow>
    spawn_call_step s (s \<lparr> ac_gateway := spawn_idem_record p k b now (ac_gateway s),
      ac_claims := remove1 (p, k) (ac_claims s) \<rparr>)"
| spawn_failed: "(p, k) \<in> set (ac_claims s) \<Longrightarrow>
    spawn_call_step s (s \<lparr> ac_claims := remove1 (p, k) (ac_claims s), ac_failed := (p, k) # ac_failed s \<rparr>)"

inductive dispatch_call_step :: "agent_calls \<Rightarrow> agent_calls \<Rightarrow> bool" where
  dispatch_begin: "dispatch_idem_replay c k now (ac_gateway s) = (None, g) \<Longrightarrow>
    dispatch_call_step s (s \<lparr> ac_gateway := g, ac_waiting := (c, k) # ac_waiting s,
      ac_submitted := ac_submitted s @ [(c, k)] \<rparr>)"
| dispatch_replayed: "dispatch_idem_replay c k now (ac_gateway s) = (Some b, g) \<Longrightarrow>
    dispatch_call_step s (s \<lparr> ac_gateway := g \<rparr>)"
| dispatch_done: "(c, k) \<in> set (ac_waiting s) \<Longrightarrow>
    dispatch_call_step s (s \<lparr> ac_gateway := dispatch_idem_record c k b now (ac_gateway s),
      ac_waiting := remove1 (c, k) (ac_waiting s) \<rparr>)"
| dispatch_failed: "(c, k) \<in> set (ac_waiting s) \<Longrightarrow>
    dispatch_call_step s (s \<lparr> ac_waiting := remove1 (c, k) (ac_waiting s), ac_failed := (c, k) # ac_failed s \<rparr>)"

definition agent_call_step :: "agent_calls \<Rightarrow> agent_calls \<Rightarrow> bool" where
  "agent_call_step s s' \<longleftrightarrow> spawn_call_step s s' \<or> dispatch_call_step s s'"

definition agent_calls_start :: agent_calls where
  "agent_calls_start = \<lparr> ac_gateway = idem_gateway_new, ac_claims = [], ac_waiting = [], ac_spawned = [],
     ac_submitted = [], ac_failed = [] \<rparr>"

inductive agent_calls_reachable :: "agent_calls \<Rightarrow> bool" where
  calls_init: "agent_calls_reachable agent_calls_start"
| calls_next: "agent_calls_reachable s \<Longrightarrow> agent_call_step s s' \<Longrightarrow> agent_calls_reachable s'"

section \<open>Properties\<close>

text \<open>C24. A recorded spawn is replayed for its whole lifetime: whatever spawn and dispatch calls ran
  before and whichever run after it, its body comes back until an hour has passed, unless 256 further
  spawns were recorded or its own key was recorded again.\<close>

theorem spawn_replay_survives:
  assumes "length (filter (\<lambda>c. spawn_recorded c \<noteq> None) after) \<le> 255"
    "list_all (\<lambda>c. call_time c < t + IDEM_TTL) after" "now < t + IDEM_TTL"
    "list_all (\<lambda>c. spawn_recorded c \<noteq> Some (p, k)
       \<and> (case spawn_recorded c of Some (q, j) \<Rightarrow> 0 \<notin> set q | None \<Rightarrow> True)) after"
    "0 \<notin> set p"
  shows "fst (spawn_idem_replay p k now
     (fold idem_call_step (SpawnRecord p k body t # after) (fold idem_call_step before idem_gateway_new))) = Some body"
proof -
  let ?c = "ig_spawn (fold idem_call_step before idem_gateway_new)"
  have valid: "idem_valid 255 IDEM_TTL ?c"
    using idem.valid_run [OF idem_valid_new] by (simp add: spawn_cache_run idem_gateway_new_def)
  have ops: "list_all (\<lambda>op. op_time op < t + IDEM_TTL \<and> op_records op \<noteq> Some (scoped p k))
      (concat (map spawn_op after))"
    using assms(2,4)
  proof (induction after)
    case (Cons c cs)
    then show ?case using scoped_inject [OF assms(5)] by (cases c) (simp_all, metis)
  qed simp
  show ?thesis
    using idem.replay_after_record [OF valid _ ops assms(3)] assms(1)
    by (simp add: spawn_idem_replay_def split_beta spawn_cache_run records_concat
        spawn_idem_record_def del: fold_append)
qed

text \<open>A dispatch key is not claimed: a retry that arrives while the first call still waits for the
  child finds nothing recorded and submits the task again, although nothing failed, while two spawns
  of one key never run together.\<close>

theorem dispatch_retry_submits_twice:
  "(\<exists>s. agent_calls_reachable s \<and> ac_submitted s = [(c, k), (c, k)] \<and> ac_failed s = [])
   \<and> Collect agent_calls_reachable \<subseteq> {s. distinct (ac_claims s)}"
proof -
  let ?s1 = "agent_calls_start \<lparr> ac_waiting := [(c, k)], ac_submitted := [(c, k)] \<rparr>"
  let ?s2 = "agent_calls_start \<lparr> ac_waiting := [(c, k), (c, k)], ac_submitted := [(c, k), (c, k)] \<rparr>"
  have none: "dispatch_idem_replay c k 0 idem_gateway_new = (None, idem_gateway_new)"
    by (simp add: dispatch_idem_replay_def idem_get_def idem_gateway_new_def idem_default_def idem_new_def)
  have "agent_call_step agent_calls_start ?s1"
    using dispatch_begin [of c k 0 agent_calls_start idem_gateway_new] none
    by (simp add: agent_calls_start_def agent_call_step_def)
  moreover have "agent_call_step ?s1 ?s2"
    using dispatch_begin [of c k 0 ?s1 idem_gateway_new] none by (simp add: agent_calls_start_def agent_call_step_def)
  ultimately have "agent_calls_reachable ?s2" by (blast intro: calls_init calls_next)
  moreover have "distinct (ac_claims s)" if "agent_calls_reachable s" for s
    using that
  proof (induction rule: agent_calls_reachable.induct)
    case (calls_next s s')
    then show ?case by (auto simp: agent_call_step_def elim!: spawn_call_step.cases dispatch_call_step.cases)
  qed (simp add: agent_calls_start_def)
  ultimately show ?thesis by (auto simp: agent_calls_start_def intro!: exI [of _ ?s2])
qed

section \<open>Witnesses\<close>

lemma spawn_replay_survives_witness:
  "fst (spawn_idem_replay (lit ''web'') (lit ''k1'') 100
     (fold idem_call_step [SpawnRecord (lit ''web'') (lit ''k1'') (lit ''s4'') 10,
        SpawnRecord (lit ''web'') (lit ''k2'') (lit ''s5'') 20, SpawnReplay (lit ''web'') (lit ''k2'') 30]
       idem_gateway_new)) = Some (lit ''s4'')"
  using spawn_replay_survives [of "[SpawnRecord (lit ''web'') (lit ''k2'') (lit ''s5'') 20,
      SpawnReplay (lit ''web'') (lit ''k2'') 30]" 10 100 "lit ''web''" "lit ''k1''" "lit ''s4''" "[]"]
  by (simp add: IDEM_TTL_def) (simp add: lit_def)

end
