(* ===== verification/Flow_Scheduler.thy ===== *)
theory Flow_Scheduler
  imports Answer_Excerpt Complex_Main
begin

text \<open>
  Admission control of the workflow runner (\<^verbatim>\<open>ccteam-flow/src/scheduler.rs\<close>): the run cap, the vendor
  pools and their backoff, the spawn-rate token bucket, the brakes, and the phases one \<^verbatim>\<open>agent()\<close> call
  goes through in \<^verbatim>\<open>admit\<close>. Between two \<^verbatim>\<open>await\<close>s a call runs alone. Instants and durations are
  nanoseconds; rates, tokens and costs, \<^verbatim>\<open>f64\<close> in the code, are exact rationals here.
\<close>

section \<open>Configuration\<close>

definition HARD_AGENT_CAP :: nat where
  "HARD_AGENT_CAP = 1000"

record vendor_pools =
  vp_slots :: "vendor \<rightharpoonup> nat"
  vp_fallback :: nat

definition default_pools :: vendor_pools where
  "default_pools = \<lparr> vp_slots = [Claude \<mapsto> 8, Codex \<mapsto> 8, Grok \<mapsto> 8, Opencode \<mapsto> 8, Kimi \<mapsto> 32,
     Dsh \<mapsto> 32, Pi \<mapsto> 4], vp_fallback = 8 \<rparr>"

definition pools_with :: "vendor \<Rightarrow> nat \<Rightarrow> vendor_pools \<Rightarrow> vendor_pools" where
  "pools_with v n p = p \<lparr> vp_slots := (vp_slots p)(v \<mapsto> max n 1) \<rparr>"

definition pools_with_fallback :: "nat \<Rightarrow> vendor_pools \<Rightarrow> vendor_pools" where
  "pools_with_fallback n p = p \<lparr> vp_fallback := max n 1 \<rparr>"

definition slots_for :: "vendor option \<Rightarrow> vendor_pools \<Rightarrow> nat" where
  "slots_for vo p = (case vo of
       Some v \<Rightarrow> max (case vp_slots p v of Some n \<Rightarrow> n | None \<Rightarrow> vp_fallback p) 1
     | None \<Rightarrow> vp_fallback p)"

record scheduler_config =
  max_parallel :: nat
  pools_of :: vendor_pools
  spawn_rate_per_sec :: rat
  backoff_initial :: nat
  backoff_max :: nat
  max_pending :: nat
  hire_attempts :: nat

definition secs :: "nat \<Rightarrow> nat" where
  "secs n = n * 1000000000"

definition default_scheduler_config :: scheduler_config where
  "default_scheduler_config = \<lparr> max_parallel = 32, pools_of = default_pools, spawn_rate_per_sec = 10,
     backoff_initial = secs 30, backoff_max = secs 600, max_pending = 1024, hire_attempts = 3 \<rparr>"

record brakes =
  max_agents :: nat
  max_cost_usd :: "rat option"
  wall_clock :: "nat option"
  budget_total :: "rat option"

definition default_brakes :: brakes where
  "default_brakes = \<lparr> max_agents = 100, max_cost_usd = None, wall_clock = None, budget_total = None \<rparr>"

text \<open>The reason text of a brake, as the numbers it prints.\<close>

datatype brake_reason =
    AgentBrake nat nat
  | CostBrake rat rat
  | BudgetBrake rat rat
  | TimeBrake nat nat

datatype admission_error = Brake brake_reason | QueueFull nat

section \<open>State\<close>

record backoff =
  bo_until :: "nat option"
  bo_next :: nat

record pool =
  po_free :: nat
  po_backoff :: backoff

record token_bucket =
  tb_tokens :: rat
  tb_rate :: rat
  tb_capacity :: rat
  tb_last :: nat

record scheduler =
  sc_cfg :: scheduler_config
  sc_brakes :: brakes
  sc_run_free :: nat
  sc_pools :: "vendor option \<Rightarrow> pool"
  sc_bucket :: token_bucket
  sc_started :: nat
  sc_admitted :: nat
  sc_pending :: nat
  sc_spent :: rat
  sc_brake :: "brake_reason option"
  sc_paused :: bool
  sc_announced :: "brake_reason list"

definition clamp :: "nat \<Rightarrow> nat \<Rightarrow> nat \<Rightarrow> nat" where
  "clamp lo hi n = (if n < lo then lo else if hi < n then hi else n)"

definition clamp_config :: "scheduler_config \<Rightarrow> scheduler_config" where
  "clamp_config c = c \<lparr> max_parallel := clamp 1 HARD_AGENT_CAP (max_parallel c),
     spawn_rate_per_sec := max (spawn_rate_per_sec c) (1 / 100),
     max_pending := max (max_pending c) 1,
     hire_attempts := max (hire_attempts c) 1 \<rparr>"

definition clamp_brakes :: "brakes \<Rightarrow> brakes" where
  "clamp_brakes b = b \<lparr> max_agents := clamp 1 HARD_AGENT_CAP (max_agents b) \<rparr>"

definition new_scheduler :: "scheduler_config \<Rightarrow> brakes \<Rightarrow> bool \<Rightarrow> nat \<Rightarrow> scheduler" where
  "new_scheduler cfg0 brakes0 paused now =
     (let cfg = clamp_config cfg0; rate = spawn_rate_per_sec cfg in
      \<lparr> sc_cfg = cfg, sc_brakes = clamp_brakes brakes0, sc_run_free = max_parallel cfg,
        sc_pools = (\<lambda>v. \<lparr> po_free = slots_for v (pools_of cfg),
          po_backoff = \<lparr> bo_until = None, bo_next = backoff_initial cfg \<rparr> \<rparr>),
        sc_bucket = \<lparr> tb_tokens = rate, tb_rate = rate, tb_capacity = rate, tb_last = now \<rparr>,
        sc_started = now, sc_admitted = 0, sc_pending = 0, sc_spent = 0, sc_brake = None,
        sc_paused = paused, sc_announced = [] \<rparr>)"

section \<open>Operations\<close>

text \<open>A cost that is not a finite number is \<^verbatim>\<open>None\<close>.\<close>

definition add_cost :: "rat option \<Rightarrow> scheduler \<Rightarrow> scheduler" where
  "add_cost cost s = (case cost of
       Some c \<Rightarrow> if 0 < c then s \<lparr> sc_spent := sc_spent s + c \<rparr> else s
     | None \<Rightarrow> s)"

definition trip :: "brake_reason \<Rightarrow> scheduler \<Rightarrow> scheduler \<times> admission_error" where
  "trip reason s = (case sc_brake s of
       None \<Rightarrow> (s \<lparr> sc_brake := Some reason, sc_announced := sc_announced s @ [reason] \<rparr>, Brake reason)
     | Some first \<Rightarrow> (s, Brake first))"

definition whole_secs :: "nat \<Rightarrow> nat" where
  "whole_secs d = d div 1000000000"

text \<open>The limits, in order; the first one reached trips.\<close>

definition reached_limit :: "nat \<Rightarrow> scheduler \<Rightarrow> brake_reason option" where
  "reached_limit now s =
     (let b = sc_brakes s; spent = sc_spent s; elapsed = now - sc_started s in
      if (case max_cost_usd b of Some m \<Rightarrow> m \<le> spent | None \<Rightarrow> False)
      then Some (CostBrake spent (the (max_cost_usd b)))
      else if (case budget_total b of Some t \<Rightarrow> t \<le> spent | None \<Rightarrow> False)
      then Some (BudgetBrake spent (the (budget_total b)))
      else if (case wall_clock b of Some l \<Rightarrow> l \<le> elapsed | None \<Rightarrow> False)
      then Some (TimeBrake (whole_secs elapsed) (whole_secs (the (wall_clock b))))
      else None)"

definition check_limits :: "nat \<Rightarrow> scheduler \<Rightarrow> scheduler \<times> admission_error option" where
  "check_limits now s = (case sc_brake s of
       Some reason \<Rightarrow> (s, Some (Brake reason))
     | None \<Rightarrow> (case reached_limit now s of
           Some reason \<Rightarrow> (let (s', e) = trip reason s in (s', Some e))
         | None \<Rightarrow> (s, None)))"

definition reserve_agent :: "scheduler \<Rightarrow> scheduler \<times> admission_error option" where
  "reserve_agent s =
     (let most = max_agents (sc_brakes s); current = sc_admitted s in
      if most \<le> current
      then (let (s', e) = trip (AgentBrake current most) s in (s', Some e))
      else (s \<lparr> sc_admitted := current + 1 \<rparr>, None))"

text \<open>\<^verbatim>\<open>admit\<close> up to its first wait.\<close>

definition admit_enter :: "nat \<Rightarrow> scheduler \<Rightarrow> scheduler \<times> admission_error option" where
  "admit_enter now s = (case check_limits now s of
       (s1, Some e) \<Rightarrow> (s1, Some e)
     | (s1, None) \<Rightarrow> (case reserve_agent s1 of
           (s2, Some e) \<Rightarrow> (s2, Some e)
         | (s2, None) \<Rightarrow>
             if max_pending (sc_cfg s2) < sc_pending s2 + 1
             then (s2 \<lparr> sc_admitted := sc_admitted s2 - 1 \<rparr>, Some (QueueFull (max_pending (sc_cfg s2))))
             else (s2 \<lparr> sc_pending := sc_pending s2 + 1 \<rparr>, None)))"

text \<open>\<^verbatim>\<open>admit\<close> after its last wait: the slots it holds are given back when it refuses.\<close>

definition return_slots :: "vendor option \<Rightarrow> scheduler \<Rightarrow> scheduler" where
  "return_slots v s = s \<lparr> sc_run_free := sc_run_free s + 1,
     sc_pools := (sc_pools s)(v := (sc_pools s v) \<lparr> po_free := po_free (sc_pools s v) + 1 \<rparr>) \<rparr>"

definition admit_leave :: "nat \<Rightarrow> vendor option \<Rightarrow> scheduler \<Rightarrow> scheduler \<times> admission_error option" where
  "admit_leave now v s =
     (case check_limits now (s \<lparr> sc_pending := sc_pending s - 1 \<rparr>) of
        (s1, Some e) \<Rightarrow> (return_slots v (s1 \<lparr> sc_admitted := sc_admitted s1 - 1 \<rparr>), Some e)
      | (s1, None) \<Rightarrow> (s1, None))"

definition acquire_run_slot :: "scheduler \<Rightarrow> scheduler option" where
  "acquire_run_slot s = (if 0 < sc_run_free s then Some (s \<lparr> sc_run_free := sc_run_free s - 1 \<rparr>) else None)"

definition acquire_pool_slot :: "vendor option \<Rightarrow> scheduler \<Rightarrow> scheduler option" where
  "acquire_pool_slot v s =
     (let p = sc_pools s v in
      if 0 < po_free p then Some (s \<lparr> sc_pools := (sc_pools s)(v := p \<lparr> po_free := po_free p - 1 \<rparr>) \<rparr>) else None)"

definition set_backoff :: "vendor option \<Rightarrow> backoff \<Rightarrow> scheduler \<Rightarrow> scheduler" where
  "set_backoff v b s = s \<lparr> sc_pools := (sc_pools s)(v := (sc_pools s v) \<lparr> po_backoff := b \<rparr>) \<rparr>"

definition note_vendor_limit :: "nat \<Rightarrow> vendor option \<Rightarrow> scheduler \<Rightarrow> scheduler \<times> nat" where
  "note_vendor_limit now v s =
     (let b = po_backoff (sc_pools s v); wait = bo_next b in
      (set_backoff v \<lparr> bo_until = Some (now + wait), bo_next = min (bo_next b * 2) (backoff_max (sc_cfg s)) \<rparr> s, wait))"

definition note_vendor_ok :: "vendor option \<Rightarrow> scheduler \<Rightarrow> scheduler" where
  "note_vendor_ok v s = set_backoff v \<lparr> bo_until = None, bo_next = backoff_initial (sc_cfg s) \<rparr> s"

text \<open>One round of \<^verbatim>\<open>wait_backoff\<close>: how long to sleep, or nothing.\<close>

definition poll_backoff :: "nat \<Rightarrow> vendor option \<Rightarrow> scheduler \<Rightarrow> scheduler \<times> nat option" where
  "poll_backoff now v s =
     (let b = po_backoff (sc_pools s v) in
      case bo_until b of
        Some until \<Rightarrow> if until \<le> now then (set_backoff v (b \<lparr> bo_until := None \<rparr>) s, None)
          else (s, Some (until - now))
      | None \<Rightarrow> (s, None))"

text \<open>One round of \<^verbatim>\<open>wait_spawn_token\<close>: the seconds to sleep, or nothing when a token was taken.\<close>

definition elapsed_secs :: "nat \<Rightarrow> nat \<Rightarrow> rat" where
  "elapsed_secs now last_t = of_nat (now - last_t) / 1000000000"

definition poll_token :: "nat \<Rightarrow> token_bucket \<Rightarrow> token_bucket \<times> rat option" where
  "poll_token now b =
     (let toks = min (tb_tokens b + elapsed_secs now (tb_last b) * tb_rate b) (tb_capacity b) in
      if 1 \<le> toks then (b \<lparr> tb_tokens := toks - 1, tb_last := now \<rparr>, None)
      else (b \<lparr> tb_tokens := toks, tb_last := now \<rparr>, Some ((1 - toks) / tb_rate b)))"

datatype client_error = VendorLimit utext | Refused utext | Failed utext

definition is_vendor_limit :: "client_error \<Rightarrow> bool" where
  "is_vendor_limit e = (case e of VendorLimit _ \<Rightarrow> True | _ \<Rightarrow> False)"

definition backoff_for :: "nat \<Rightarrow> vendor option \<Rightarrow> client_error \<Rightarrow> scheduler \<Rightarrow> scheduler \<times> nat option" where
  "backoff_for now v e s =
     (if is_vendor_limit e then (let (s', w) = note_vendor_limit now v s in (s', Some w)) else (s, None))"

text \<open>\<^verbatim>\<open>hire\<close>: the client's answers and the instants they arrive are inputs, one per attempt left; the
  result is the session, or the error the attempts ended with.\<close>

fun hire_loop :: "vendor option \<Rightarrow> (nat \<times> (client_error + utext)) list \<Rightarrow> client_error option \<Rightarrow> scheduler
    \<Rightarrow> scheduler \<times> (client_error option + utext)" where
  "hire_loop v [] best s = (s, Inl best)"
| "hire_loop v ((now, Inr sid) # rest) best s = (note_vendor_ok v s, Inr sid)"
| "hire_loop v ((now, Inl e) # rest) best s =
     (case backoff_for now v e s of
        (s', None) \<Rightarrow> (s', Inl (Some e))
      | (s', Some w) \<Rightarrow> if rest = [] then (s', Inl (Some e)) else hire_loop v rest (Some e) s')"

section \<open>Calls in flight\<close>

datatype phase = AtGate | WaitRun | WaitPool | WaitBackoff | WaitToken | Ready | Running

record call =
  ca_vendor :: "vendor option"
  ca_phase :: phase

text \<open>\<^verbatim>\<open>fl_begun\<close> counts the agents that ever started.\<close>

record flow =
  fl_sched :: scheduler
  fl_calls :: "call list"
  fl_begun :: nat
  fl_now :: nat

definition move_call :: "scheduler \<Rightarrow> call list \<Rightarrow> flow \<Rightarrow> flow" where
  "move_call s cs f = f \<lparr> fl_sched := s, fl_calls := cs \<rparr>"

inductive flow_step :: "flow \<Rightarrow> flow \<Rightarrow> bool" where
  tick: "fl_now f \<le> now \<Longrightarrow> flow_step f (f \<lparr> fl_now := now \<rparr>)"
| enter: "admit_enter (fl_now f) (fl_sched f) = (s, None) \<Longrightarrow>
    flow_step f (move_call s (fl_calls f @ [\<lparr> ca_vendor = v, ca_phase = AtGate \<rparr>]) f)"
| enter_refused: "admit_enter (fl_now f) (fl_sched f) = (s, Some e) \<Longrightarrow>
    flow_step f (move_call s (fl_calls f) f)"
| pass_gate: "fl_calls f = ps @ c # qs \<Longrightarrow> ca_phase c = AtGate \<Longrightarrow> \<not> sc_paused (fl_sched f) \<Longrightarrow>
    flow_step f (move_call (fl_sched f) (ps @ c \<lparr> ca_phase := WaitRun \<rparr> # qs) f)"
| get_run: "fl_calls f = ps @ c # qs \<Longrightarrow> ca_phase c = WaitRun \<Longrightarrow>
    acquire_run_slot (fl_sched f) = Some s \<Longrightarrow>
    flow_step f (move_call s (ps @ c \<lparr> ca_phase := WaitPool \<rparr> # qs) f)"
| get_pool: "fl_calls f = ps @ c # qs \<Longrightarrow> ca_phase c = WaitPool \<Longrightarrow>
    acquire_pool_slot (ca_vendor c) (fl_sched f) = Some s \<Longrightarrow>
    flow_step f (move_call s (ps @ c \<lparr> ca_phase := WaitBackoff \<rparr> # qs) f)"
| end_backoff: "fl_calls f = ps @ c # qs \<Longrightarrow> ca_phase c = WaitBackoff \<Longrightarrow>
    poll_backoff (fl_now f) (ca_vendor c) (fl_sched f) = (s, None) \<Longrightarrow>
    flow_step f (move_call s (ps @ c \<lparr> ca_phase := WaitToken \<rparr> # qs) f)"
| get_token: "fl_calls f = ps @ c # qs \<Longrightarrow> ca_phase c = WaitToken \<Longrightarrow>
    poll_token (fl_now f) (sc_bucket (fl_sched f)) = (b, None) \<Longrightarrow>
    flow_step f (move_call (fl_sched f \<lparr> sc_bucket := b \<rparr>) (ps @ c \<lparr> ca_phase := Ready \<rparr> # qs) f)"
| wait_token: "fl_calls f = ps @ c # qs \<Longrightarrow> ca_phase c = WaitToken \<Longrightarrow>
    poll_token (fl_now f) (sc_bucket (fl_sched f)) = (b, Some w) \<Longrightarrow>
    flow_step f (move_call (fl_sched f \<lparr> sc_bucket := b \<rparr>) (fl_calls f) f)"
| start: "fl_calls f = ps @ c # qs \<Longrightarrow> ca_phase c = Ready \<Longrightarrow>
    admit_leave (fl_now f) (ca_vendor c) (fl_sched f) = (s, None) \<Longrightarrow>
    flow_step f ((move_call s (ps @ c \<lparr> ca_phase := Running \<rparr> # qs) f) \<lparr> fl_begun := fl_begun f + 1 \<rparr>)"
| refuse: "fl_calls f = ps @ c # qs \<Longrightarrow> ca_phase c = Ready \<Longrightarrow>
    admit_leave (fl_now f) (ca_vendor c) (fl_sched f) = (s, Some e) \<Longrightarrow>
    flow_step f (move_call s (ps @ qs) f)"
| finish: "fl_calls f = ps @ c # qs \<Longrightarrow> ca_phase c = Running \<Longrightarrow>
    flow_step f (move_call (return_slots (ca_vendor c) (fl_sched f)) (ps @ qs) f)"
| spend: "flow_step f (f \<lparr> fl_sched := add_cost cost (fl_sched f) \<rparr>)"
| limit: "flow_step f (f \<lparr> fl_sched := fst (note_vendor_limit (fl_now f) v (fl_sched f)) \<rparr>)"
| healthy: "flow_step f (f \<lparr> fl_sched := note_vendor_ok v (fl_sched f) \<rparr>)"
| pause_resume: "flow_step f (f \<lparr> fl_sched := (fl_sched f) \<lparr> sc_paused := b \<rparr> \<rparr>)"

inductive flow_reachable :: "flow \<Rightarrow> flow \<Rightarrow> bool" for f0 where
  flow_init: "flow_reachable f0 f0"
| flow_next: "flow_reachable f0 f \<Longrightarrow> flow_step f f' \<Longrightarrow> flow_reachable f0 f'"

definition flow_start :: "scheduler_config \<Rightarrow> brakes \<Rightarrow> bool \<Rightarrow> nat \<Rightarrow> flow" where
  "flow_start cfg b paused now = \<lparr> fl_sched = new_scheduler cfg b paused now, fl_calls = [], fl_begun = 0,
     fl_now = now \<rparr>"

section \<open>Invariant\<close>

definition cnt :: "('a \<Rightarrow> bool) \<Rightarrow> 'a list \<Rightarrow> nat" where
  "cnt P xs = length (filter P xs)"

lemma cnt_simps [simp]:
  "cnt P [] = 0" "cnt P (x # xs) = (if P x then 1 else 0) + cnt P xs" "cnt P (xs @ ys) = cnt P xs + cnt P ys"
  by (simp_all add: cnt_def)

definition holds_run :: "call \<Rightarrow> bool" where
  "holds_run c \<longleftrightarrow> ca_phase c \<notin> {AtGate, WaitRun}"

definition holds_pool :: "vendor option \<Rightarrow> call \<Rightarrow> bool" where
  "holds_pool v c \<longleftrightarrow> ca_vendor c = v \<and> ca_phase c \<notin> {AtGate, WaitRun, WaitPool}"

definition waiting :: "call \<Rightarrow> bool" where
  "waiting c \<longleftrightarrow> ca_phase c \<noteq> Running"

definition slots_ok :: "scheduler_config \<Rightarrow> vendor option \<Rightarrow> flow \<Rightarrow> bool" where
  "slots_ok cfg v f \<longleftrightarrow> sc_run_free (fl_sched f) + cnt holds_run (fl_calls f) = max_parallel cfg
     \<and> po_free (sc_pools (fl_sched f) v) + cnt (holds_pool v) (fl_calls f) = slots_for v (pools_of cfg)"

definition counts_ok :: "scheduler_config \<Rightarrow> brakes \<Rightarrow> flow \<Rightarrow> bool" where
  "counts_ok cfg b f \<longleftrightarrow> sc_pending (fl_sched f) = cnt waiting (fl_calls f)
     \<and> sc_admitted (fl_sched f) = fl_begun f + cnt waiting (fl_calls f)
     \<and> sc_admitted (fl_sched f) \<le> max_agents b \<and> sc_pending (fl_sched f) \<le> max_pending cfg"

definition fixed_ok :: "scheduler_config \<Rightarrow> brakes \<Rightarrow> flow \<Rightarrow> bool" where
  "fixed_ok cfg b f \<longleftrightarrow> sc_cfg (fl_sched f) = cfg \<and> sc_brakes (fl_sched f) = b
     \<and> sc_announced (fl_sched f) = (case sc_brake (fl_sched f) of Some r \<Rightarrow> [r] | None \<Rightarrow> [])"

definition bucket_ok :: "rat \<Rightarrow> nat \<Rightarrow> token_bucket \<Rightarrow> bool" where
  "bucket_ok r now b \<longleftrightarrow> tb_rate b = r \<and> tb_capacity b = r \<and> 0 \<le> tb_tokens b \<and> tb_tokens b \<le> r
     \<and> tb_last b \<le> now"

text \<open>What the brake checks leave alone.\<close>

lemma trip_keeps:
  "trip r s = (s', e) \<Longrightarrow> \<exists>x ys. s' = s \<lparr> sc_brake := Some x, sc_announced := ys \<rparr>
     \<and> ys = (case sc_brake s of None \<Rightarrow> sc_announced s @ [x] | Some _ \<Rightarrow> sc_announced s)
     \<and> (\<forall>z. sc_brake s = Some z \<longrightarrow> x = z) \<and> e = Brake x"
  by (cases "sc_brake s") (auto simp: trip_def)

lemma check_limits_cases:
  assumes "check_limits now s = (s', res)"
  obtains (pass) "s' = s" "res = None" "sc_brake s = None"
  | (standing) r where "s' = s" "sc_brake s = Some r" "res = Some (Brake r)"
  | (tripped) r where "sc_brake s = None" "s' = s \<lparr> sc_brake := Some r, sc_announced := sc_announced s @ [r] \<rparr>"
      "res = Some (Brake r)"
proof (cases "sc_brake s")
  case (Some r)
  then show ?thesis using assms standing by (auto simp: check_limits_def)
next
  case None
  show ?thesis
  proof (cases "reached_limit now s")
    case n: None
    then show ?thesis using assms None pass by (auto simp: check_limits_def)
  next
    case (Some r)
    then show ?thesis using assms None tripped by (auto simp: check_limits_def trip_def)
  qed
qed

lemma reserve_cases:
  assumes "reserve_agent s = (s', res)"
  obtains (taken) "s' = s \<lparr> sc_admitted := sc_admitted s + 1 \<rparr>" "res = None" "sc_admitted s < max_agents (sc_brakes s)"
  | (standing) r where "s' = s" "sc_brake s = Some r" "res = Some (Brake r)"
  | (tripped) r where "sc_brake s = None" "s' = s \<lparr> sc_brake := Some r, sc_announced := sc_announced s @ [r] \<rparr>"
      "res = Some (Brake r)" "r = AgentBrake (sc_admitted s) (max_agents (sc_brakes s))"
proof (cases "max_agents (sc_brakes s) \<le> sc_admitted s")
  case True
  show ?thesis
  proof (cases "sc_brake s")
    case None
    then show ?thesis using True assms tripped by (auto simp: reserve_agent_def trip_def Let_def)
  next
    case (Some r)
    then show ?thesis using True assms standing by (auto simp: reserve_agent_def trip_def Let_def)
  qed
next
  case False
  then show ?thesis using assms taken by (auto simp: reserve_agent_def Let_def)
qed

lemma admit_enter_cases:
  assumes "admit_enter now s = (s', res)"
  obtains (entered) "res = None" "sc_brake s = None" "sc_admitted s < max_agents (sc_brakes s)"
      "sc_pending s + 1 \<le> max_pending (sc_cfg s)"
      "s' = s \<lparr> sc_admitted := sc_admitted s + 1, sc_pending := sc_pending s + 1 \<rparr>"
  | (full) "res = Some (QueueFull (max_pending (sc_cfg s)))" "s' = s" "sc_brake s = None"
  | (standing) r where "s' = s" "sc_brake s = Some r" "res = Some (Brake r)"
  | (tripped) r where "sc_brake s = None" "s' = s \<lparr> sc_brake := Some r, sc_announced := sc_announced s @ [r] \<rparr>"
      "res = Some (Brake r)"
proof -
  obtain s1 r1 where c: "check_limits now s = (s1, r1)" by fastforce
  from c show ?thesis
  proof (cases rule: check_limits_cases)
    case pass
    obtain s2 r2 where r: "reserve_agent s = (s2, r2)" by fastforce
    from r show ?thesis
    proof (cases rule: reserve_cases)
      case taken
      show ?thesis
      proof (cases "max_pending (sc_cfg s) < sc_pending s + 1")
        case True
        then show ?thesis using assms c pass r taken by (intro that(2)) (auto simp: admit_enter_def)
      next
        case False
        then show ?thesis using assms c pass r taken by (intro that(1)) (auto simp: admit_enter_def)
      qed
    next
      case (standing x)
      then show ?thesis using pass by simp
    next
      case (tripped x)
      then show ?thesis using assms c pass r that(4) by (auto simp: admit_enter_def)
    qed
  next
    case (standing r)
    then show ?thesis using assms c that(3) by (auto simp: admit_enter_def)
  next
    case (tripped r)
    then show ?thesis using assms c that(4) by (auto simp: admit_enter_def)
  qed
qed

lemma admit_leave_cases:
  assumes "admit_leave now v s = (s', res)"
  obtains (started) "res = None" "sc_brake s = None" "s' = s \<lparr> sc_pending := sc_pending s - 1 \<rparr>"
  | (refused) r where "res = Some (Brake r)" "sc_brake s = Some r"
      "s' = return_slots v (s \<lparr> sc_pending := sc_pending s - 1, sc_admitted := sc_admitted s - 1 \<rparr>)"
  | (tripped) r where "res = Some (Brake r)" "sc_brake s = None"
      "s' = return_slots v (s \<lparr> sc_pending := sc_pending s - 1, sc_brake := Some r,
         sc_announced := sc_announced s @ [r], sc_admitted := sc_admitted s - 1 \<rparr>)"
proof -
  obtain s1 r1 where c: "check_limits now (s \<lparr> sc_pending := sc_pending s - 1 \<rparr>) = (s1, r1)" by fastforce
  from c show ?thesis
  proof (cases rule: check_limits_cases)
    case pass
    then show ?thesis using assms c that(1) by (auto simp: admit_leave_def)
  next
    case (standing r)
    then show ?thesis using assms c that(2) by (auto simp: admit_leave_def)
  next
    case (tripped r)
    then show ?thesis using assms c that(3) by (auto simp: admit_leave_def)
  qed
qed

lemma poll_backoff_keeps:
  "poll_backoff now v s = (s', w) \<Longrightarrow> \<exists>b. s' = s \<or> s' = set_backoff v b s"
  by (auto simp: poll_backoff_def Let_def split: option.splits if_splits)

lemma backoff_irrelevant [simp]:
  "sc_run_free (set_backoff v b s) = sc_run_free s"
  "po_free (sc_pools (set_backoff v b s) u) = po_free (sc_pools s u)"
  "sc_pending (set_backoff v b s) = sc_pending s" "sc_admitted (set_backoff v b s) = sc_admitted s"
  "sc_cfg (set_backoff v b s) = sc_cfg s" "sc_brakes (set_backoff v b s) = sc_brakes s"
  "sc_brake (set_backoff v b s) = sc_brake s" "sc_announced (set_backoff v b s) = sc_announced s"
  "sc_bucket (set_backoff v b s) = sc_bucket s" "sc_paused (set_backoff v b s) = sc_paused s"
  by (simp_all add: set_backoff_def)

lemma return_slots_simps [simp]:
  "sc_run_free (return_slots v s) = sc_run_free s + 1"
  "po_free (sc_pools (return_slots v s) u) = po_free (sc_pools s u) + (if u = v then 1 else 0)"
  "sc_pending (return_slots v s) = sc_pending s" "sc_admitted (return_slots v s) = sc_admitted s"
  "sc_cfg (return_slots v s) = sc_cfg s" "sc_brakes (return_slots v s) = sc_brakes s"
  "sc_brake (return_slots v s) = sc_brake s" "sc_announced (return_slots v s) = sc_announced s"
  "sc_bucket (return_slots v s) = sc_bucket s"
  by (simp_all add: return_slots_def)

lemma add_cost_simps [simp]:
  "sc_run_free (add_cost c s) = sc_run_free s" "sc_pools (add_cost c s) = sc_pools s"
  "sc_pending (add_cost c s) = sc_pending s" "sc_admitted (add_cost c s) = sc_admitted s"
  "sc_cfg (add_cost c s) = sc_cfg s" "sc_brakes (add_cost c s) = sc_brakes s"
  "sc_brake (add_cost c s) = sc_brake s" "sc_announced (add_cost c s) = sc_announced s"
  "sc_bucket (add_cost c s) = sc_bucket s"
  by (simp_all add: add_cost_def split: option.splits)

lemma note_simps [simp]:
  "fst (note_vendor_limit now v s) = set_backoff v \<lparr> bo_until = Some (now + bo_next (po_backoff (sc_pools s v))),
     bo_next = min (bo_next (po_backoff (sc_pools s v)) * 2) (backoff_max (sc_cfg s)) \<rparr> s"
  "note_vendor_ok v s = set_backoff v \<lparr> bo_until = None, bo_next = backoff_initial (sc_cfg s) \<rparr> s"
  by (simp_all add: note_vendor_limit_def note_vendor_ok_def Let_def)

lemmas phase_defs = holds_run_def holds_pool_def waiting_def
lemmas call_moves = move_call_def acquire_run_slot_def acquire_pool_slot_def Let_def

lemma slots_step:
  assumes "flow_step f f'" "slots_ok cfg v f"
  shows "slots_ok cfg v f'"
  using assms(1)
proof (cases rule: flow_step.cases)
  case (enter s u)
  from enter(2) show ?thesis
    by (cases rule: admit_enter_cases) (use enter assms(2) in \<open>auto simp: slots_ok_def move_call_def phase_defs split: if_splits\<close>)
next
  case (enter_refused s e)
  from enter_refused(2) show ?thesis
    by (cases rule: admit_enter_cases) (use enter_refused assms(2) in \<open>auto simp: slots_ok_def move_call_def\<close>)
next
  case (end_backoff ps c qs s)
  then show ?thesis using poll_backoff_keeps [OF end_backoff(4)] assms(2)
    by (auto simp: slots_ok_def move_call_def phase_defs split: if_splits)
next
  case (start ps c qs s)
  from start(4) show ?thesis
    by (cases rule: admit_leave_cases) (use start assms(2) in \<open>auto simp: slots_ok_def move_call_def phase_defs split: if_splits\<close>)
next
  case (refuse ps c qs s e)
  from refuse(4) show ?thesis
    by (cases rule: admit_leave_cases) (use refuse assms(2) in \<open>auto simp: slots_ok_def move_call_def phase_defs split: if_splits\<close>)
next
  case (get_pool ps c qs s)
  have "po_free (sc_pools s v) + (if v = ca_vendor c then 1 else 0) = po_free (sc_pools (fl_sched f) v)"
    "sc_run_free s = sc_run_free (fl_sched f)"
    using get_pool(4) by (auto simp: acquire_pool_slot_def Let_def split: if_splits)
  then show ?thesis using get_pool assms(2)
    by (auto simp: slots_ok_def move_call_def phase_defs split: if_splits)
qed (use assms(2) in \<open>auto simp: slots_ok_def call_moves phase_defs split: if_splits\<close>)

lemma counts_step:
  assumes "flow_step f f'" "counts_ok cfg b f" "fixed_ok cfg b f"
  shows "counts_ok cfg b f'"
  using assms(1)
proof (cases rule: flow_step.cases)
  case (enter s v)
  from enter(2) show ?thesis
    by (cases rule: admit_enter_cases)
      (use enter assms(2,3) in \<open>auto simp: counts_ok_def fixed_ok_def move_call_def phase_defs\<close>)
next
  case (enter_refused s e)
  from enter_refused(2) show ?thesis
    by (cases rule: admit_enter_cases) (use enter_refused assms(2) in \<open>auto simp: counts_ok_def move_call_def\<close>)
next
  case (end_backoff ps c qs s)
  then show ?thesis using poll_backoff_keeps [OF end_backoff(4)] assms(2)
    by (auto simp: counts_ok_def move_call_def phase_defs)
next
  case (start ps c qs s)
  from start(4) show ?thesis
    by (cases rule: admit_leave_cases) (use start assms(2) in \<open>auto simp: counts_ok_def move_call_def phase_defs\<close>)
next
  case (refuse ps c qs s e)
  from refuse(4) show ?thesis
    by (cases rule: admit_leave_cases) (use refuse assms(2) in \<open>auto simp: counts_ok_def move_call_def phase_defs\<close>)
qed (use assms(2) in \<open>auto simp: counts_ok_def call_moves phase_defs split: if_splits\<close>)

lemma fixed_step:
  assumes "flow_step f f'" "fixed_ok cfg b f"
  shows "fixed_ok cfg b f'"
  using assms(1)
proof (cases rule: flow_step.cases)
  case (enter s v)
  from enter(2) show ?thesis
    by (cases rule: admit_enter_cases) (use enter assms(2) in \<open>auto simp: fixed_ok_def move_call_def\<close>)
next
  case (enter_refused s e)
  from enter_refused(2) show ?thesis
    by (cases rule: admit_enter_cases) (use enter_refused assms(2) in \<open>auto simp: fixed_ok_def move_call_def\<close>)
next
  case (end_backoff ps c qs s)
  then show ?thesis using poll_backoff_keeps [OF end_backoff(4)] assms(2)
    by (auto simp: fixed_ok_def move_call_def)
next
  case (start ps c qs s)
  from start(4) show ?thesis
    by (cases rule: admit_leave_cases) (use start assms(2) in \<open>auto simp: fixed_ok_def move_call_def\<close>)
next
  case (refuse ps c qs s e)
  from refuse(4) show ?thesis
    by (cases rule: admit_leave_cases) (use refuse assms(2) in \<open>auto simp: fixed_ok_def move_call_def\<close>)
qed (use assms(2) in \<open>auto simp: fixed_ok_def call_moves split: if_splits\<close>)

subsection \<open>The spawn rate\<close>

definition is_ready :: "call \<Rightarrow> bool" where
  "is_ready c \<longleftrightarrow> ca_phase c = Ready"

definition rate_ok :: "rat \<Rightarrow> nat \<Rightarrow> flow \<Rightarrow> bool" where
  "rate_ok r t0 f \<longleftrightarrow> bucket_ok r (fl_now f) (sc_bucket (fl_sched f)) \<and> t0 \<le> tb_last (sc_bucket (fl_sched f))
     \<and> tb_tokens (sc_bucket (fl_sched f)) + of_nat (fl_begun f + cnt is_ready (fl_calls f))
         \<le> r + r * elapsed_secs (tb_last (sc_bucket (fl_sched f))) t0"

lemma elapsed_secs_add: "a \<le> b \<Longrightarrow> b \<le> c \<Longrightarrow> elapsed_secs c a = elapsed_secs b a + elapsed_secs c b"
  by (simp add: elapsed_secs_def add_divide_distrib [symmetric] of_nat_add [symmetric] del: of_nat_add)

lemma elapsed_secs_mono: "b \<le> c \<Longrightarrow> elapsed_secs b a \<le> elapsed_secs c a"
  by (simp add: elapsed_secs_def divide_right_mono)

lemma elapsed_secs_nonneg [simp]: "0 \<le> elapsed_secs b a"
  by (simp add: elapsed_secs_def)

lemma poll_token_bucket:
  assumes "poll_token now b = (b', w)" "bucket_ok r prev b" "prev \<le> now" "0 \<le> r"
  shows "bucket_ok r now b' \<and> tb_last b' = now
    \<and> tb_tokens b' + (if w = None then 1 else 0) \<le> tb_tokens b + r * elapsed_secs now (tb_last b)
    \<and> (w = None \<longrightarrow> 1 \<le> r)"
proof -
  let ?t = "min (tb_tokens b + elapsed_secs now (tb_last b) * tb_rate b) (tb_capacity b)"
  have b: "tb_rate b = r" "tb_capacity b = r" "0 \<le> tb_tokens b" using assms(2) by (auto simp: bucket_ok_def)
  then have t: "0 \<le> ?t" "?t \<le> r" "?t \<le> tb_tokens b + r * elapsed_secs now (tb_last b)"
    using assms(4) by (simp_all add: mult.commute)
  show ?thesis
  proof (cases "1 \<le> ?t")
    case True
    then have "b' = b \<lparr> tb_tokens := ?t - 1, tb_last := now \<rparr>" "w = None"
      using assms(1) by (simp_all add: poll_token_def Let_def split: if_splits)
    then show ?thesis using True t b by (simp add: bucket_ok_def)
  next
    case False
    then have "b' = b \<lparr> tb_tokens := ?t, tb_last := now \<rparr>" "w \<noteq> None"
      using assms(1) by (auto simp: poll_token_def Let_def split: if_splits)
    then show ?thesis using t b by (auto simp: bucket_ok_def)
  qed
qed

lemma rate_poll:
  assumes "poll_token (fl_now f) (sc_bucket (fl_sched f)) = (b', w)" "rate_ok r t0 f" "0 \<le> r"
    "fl_begun f' + cnt is_ready (fl_calls f') = fl_begun f + cnt is_ready (fl_calls f) + (if w = None then 1 else 0)"
    "sc_bucket (fl_sched f') = b'" "fl_now f' = fl_now f"
  shows "rate_ok r t0 f'"
proof -
  let ?b = "sc_bucket (fl_sched f)"
  have ok: "bucket_ok r (fl_now f) ?b" "t0 \<le> tb_last ?b"
    and bound: "tb_tokens ?b + of_nat (fl_begun f + cnt is_ready (fl_calls f))
      \<le> r + r * elapsed_secs (tb_last ?b) t0"
    using assms(2) by (simp_all add: rate_ok_def)
  have l: "tb_last ?b \<le> fl_now f" using ok(1) by (simp add: bucket_ok_def)
  note p = poll_token_bucket [OF assms(1) ok(1) order_refl assms(3)]
  have "r * elapsed_secs (fl_now f) t0 = r * elapsed_secs (tb_last ?b) t0 + r * elapsed_secs (fl_now f) (tb_last ?b)"
    using elapsed_secs_add [OF ok(2) l] by (simp add: distrib_left)
  moreover have "(of_nat (fl_begun f' + cnt is_ready (fl_calls f')) :: rat)
      = of_nat (fl_begun f + cnt is_ready (fl_calls f)) + (if w = None then 1 else 0)"
    unfolding assms(4) by simp
  ultimately have "tb_tokens b' + of_nat (fl_begun f' + cnt is_ready (fl_calls f'))
      \<le> r + r * elapsed_secs (fl_now f) t0"
    using p bound by linarith
  then show ?thesis using p ok(2) l by (simp add: rate_ok_def assms(5,6))
qed

lemma rate_keep:
  assumes "rate_ok r t0 f" "sc_bucket (fl_sched f') = sc_bucket (fl_sched f)" "fl_now f \<le> fl_now f'"
    "fl_begun f' + cnt is_ready (fl_calls f') \<le> fl_begun f + cnt is_ready (fl_calls f)"
  shows "rate_ok r t0 f'"
proof -
  have "(of_nat (fl_begun f' + cnt is_ready (fl_calls f')) :: rat) \<le> of_nat (fl_begun f + cnt is_ready (fl_calls f))"
    using assms(4) of_nat_le_iff by blast
  then show ?thesis using assms(1-3) unfolding rate_ok_def bucket_ok_def by (simp del: of_nat_add)
qed

lemma bucket_untouched:
  "admit_enter now s = (s', e) \<Longrightarrow> sc_bucket s' = sc_bucket s"
  "admit_leave now v s = (s', e) \<Longrightarrow> sc_bucket s' = sc_bucket s"
  "poll_backoff now v s = (s', w) \<Longrightarrow> sc_bucket s' = sc_bucket s"
  "acquire_run_slot s = Some s' \<Longrightarrow> sc_bucket s' = sc_bucket s"
  "acquire_pool_slot v s = Some s' \<Longrightarrow> sc_bucket s' = sc_bucket s"
     apply (erule admit_enter_cases; simp)
    apply (erule admit_leave_cases; simp)
   apply (auto dest!: poll_backoff_keeps simp: acquire_run_slot_def acquire_pool_slot_def Let_def split: if_splits)
  done

lemma rate_step:
  assumes "flow_step f f'" "rate_ok r t0 f" "0 \<le> r"
  shows "rate_ok r t0 f'"
  using assms(1)
proof (cases rule: flow_step.cases)
  case (get_token ps c qs b)
  then show ?thesis
    by (intro rate_poll [OF get_token(4) assms(2,3)]) (simp_all add: move_call_def is_ready_def)
next
  case (wait_token ps c qs b w)
  then show ?thesis
    by (intro rate_poll [OF wait_token(4) assms(2,3)]) (simp_all add: move_call_def is_ready_def)
qed (use bucket_untouched in \<open>auto intro!: rate_keep [OF assms(2)] simp: move_call_def is_ready_def\<close>)

text \<open>Below one token per second the bucket never holds one.\<close>

definition none_begun :: "flow \<Rightarrow> bool" where
  "none_begun f \<longleftrightarrow> fl_begun f = 0 \<and> cnt is_ready (fl_calls f) = 0"

lemma none_begun_step:
  assumes "flow_step f f'" "none_begun f" "rate_ok r t0 f" "0 \<le> r" "r < 1"
  shows "none_begun f'"
  using assms(1)
proof (cases rule: flow_step.cases)
  case (get_token ps c qs b)
  have "bucket_ok r (fl_now f) (sc_bucket (fl_sched f))" using assms(3) by (simp add: rate_ok_def)
  from poll_token_bucket [OF get_token(4) this order_refl assms(4)] show ?thesis using assms(5) by simp
qed (use assms(2) in \<open>auto simp: none_begun_def move_call_def is_ready_def\<close>)

subsection \<open>A tripped brake\<close>

lemma brake_kept:
  "sc_brake s = Some r \<Longrightarrow> admit_enter now s = (s', e) \<Longrightarrow> sc_brake s' = Some r \<and> e = Some (Brake r)"
  "sc_brake s = Some r \<Longrightarrow> admit_leave now v s = (s', e) \<Longrightarrow> sc_brake s' = Some r \<and> e = Some (Brake r)"
  "poll_backoff now v s = (s', w) \<Longrightarrow> sc_brake s' = sc_brake s"
  "acquire_run_slot s = Some s' \<Longrightarrow> sc_brake s' = sc_brake s"
  "acquire_pool_slot v s = Some s' \<Longrightarrow> sc_brake s' = sc_brake s"
     apply (erule admit_enter_cases; simp)
    apply (erule admit_leave_cases; simp)
   apply (auto dest!: poll_backoff_keeps simp: acquire_run_slot_def acquire_pool_slot_def Let_def split: if_splits)
  done

lemma brake_step:
  assumes "flow_step f f'" "sc_brake (fl_sched f) = Some r"
  shows "sc_brake (fl_sched f') = Some r \<and> fl_begun f' = fl_begun f"
  using assms(1) by (cases rule: flow_step.cases) (use assms(2) in \<open>auto simp: move_call_def dest: brake_kept\<close>)

lemma brake_reach:
  "flow_reachable f g \<Longrightarrow> sc_brake (fl_sched f) = Some r \<Longrightarrow>
     sc_brake (fl_sched g) = Some r \<and> fl_begun g = fl_begun f"
proof (induction rule: flow_reachable.induct)
  case (flow_next g g')
  then show ?case using brake_step [of g g' r] by simp
qed simp

subsection \<open>Reachable runs\<close>

lemma clamp_bounds: "lo \<le> hi \<Longrightarrow> lo \<le> clamp lo hi n \<and> clamp lo hi n \<le> hi"
  by (simp add: clamp_def)

lemma rate_pos: "0 \<le> spawn_rate_per_sec (clamp_config cfg)"
  by (simp add: clamp_config_def max_def)

definition run_ok :: "scheduler_config \<Rightarrow> brakes \<Rightarrow> nat \<Rightarrow> flow \<Rightarrow> bool" where
  "run_ok cfg b t0 f \<longleftrightarrow> (\<forall>v. slots_ok cfg v f) \<and> counts_ok cfg b f \<and> fixed_ok cfg b f
     \<and> rate_ok (spawn_rate_per_sec cfg) t0 f"

lemma run_ok_start: "run_ok (clamp_config cfg) (clamp_brakes b) t0 (flow_start cfg b paused t0)"
  using rate_pos [of cfg]
  by (simp add: run_ok_def slots_ok_def counts_ok_def fixed_ok_def rate_ok_def bucket_ok_def flow_start_def
      new_scheduler_def Let_def elapsed_secs_def)

lemma run_ok_reach:
  assumes "flow_reachable (flow_start cfg b paused t0) f"
  shows "run_ok (clamp_config cfg) (clamp_brakes b) t0 f"
  using assms
proof (induction rule: flow_reachable.induct)
  case (flow_next f f')
  then show ?case
    using slots_step counts_step fixed_step rate_step rate_pos unfolding run_ok_def by blast
qed (rule run_ok_start)

lemma cnt_le:
  assumes "\<And>x. P x \<Longrightarrow> Q x"
  shows "cnt P xs \<le> cnt Q xs"
proof (induction xs)
  case (Cons x xs)
  then show ?case using assms [of x] by auto
qed simp

text \<open>The waits of consecutive limit reports.\<close>

fun limit_waits :: "nat list \<Rightarrow> vendor option \<Rightarrow> scheduler \<Rightarrow> nat list" where
  "limit_waits [] v s = []"
| "limit_waits (now # ts) v s = (let (s', w) = note_vendor_limit now v s in w # limit_waits ts v s')"

lemma limit_waits_nth:
  "i < length ts \<Longrightarrow> limit_waits ts v s ! i =
     (if i = 0 then bo_next (po_backoff (sc_pools s v))
      else min (bo_next (po_backoff (sc_pools s v)) * 2 ^ i) (backoff_max (sc_cfg s)))"
proof (induction ts arbitrary: i s)
  case (Cons t ts)
  let ?n = "bo_next (po_backoff (sc_pools s v))"
  let ?s = "fst (note_vendor_limit t v s)"
  have next': "bo_next (po_backoff (sc_pools ?s v)) = min (?n * 2) (backoff_max (sc_cfg s))"
    by (simp add: set_backoff_def)
  show ?case
  proof (cases i)
    case 0
    then show ?thesis by (simp add: note_vendor_limit_def Let_def)
  next
    case (Suc j)
    then have "limit_waits (t # ts) v s ! i = limit_waits ts v ?s ! j"
      by (simp add: split_beta)
    also have "\<dots> = (if j = 0 then min (?n * 2) (backoff_max (sc_cfg s))
        else min (min (?n * 2) (backoff_max (sc_cfg s)) * 2 ^ j) (backoff_max (sc_cfg s)))"
      using Cons.IH [of j ?s] Cons.prems Suc next' by simp
    also have "\<dots> = min (?n * 2 ^ i) (backoff_max (sc_cfg s))"
    proof (cases "?n * 2 \<le> backoff_max (sc_cfg s)")
      case True
      then show ?thesis by (simp add: Suc min_def mult.assoc)
    next
      case False
      have p: "(1::nat) \<le> 2 ^ j" by simp
      have "backoff_max (sc_cfg s) \<le> ?n * 2 * 2 ^ j"
        using False mult_le_mono2 [OF p, of "?n * 2"] by linarith
      then have top: "min (?n * 2 ^ i) (backoff_max (sc_cfg s)) = backoff_max (sc_cfg s)"
        by (simp add: Suc mult.assoc min_absorb2)
      have "backoff_max (sc_cfg s) \<le> backoff_max (sc_cfg s) * 2 ^ j" by simp
      then have "min (backoff_max (sc_cfg s) * 2 ^ j) (backoff_max (sc_cfg s)) = backoff_max (sc_cfg s)"
        by (rule min_absorb2)
      moreover have "min (?n * 2) (backoff_max (sc_cfg s)) = backoff_max (sc_cfg s)" using False by simp
      ultimately show ?thesis unfolding top by simp
    qed
    finally show ?thesis by (simp add: Suc)
  qed
qed simp

section \<open>Properties\<close>

text \<open>C7. In every state a run can reach, whatever calls enter, wait, start, finish and whatever limits,
  costs and pauses interleave: the agents running and the calls on their way never hold more slots than
  the run or their vendor's pool has, no more agents started than \<^verbatim>\<open>max_agents\<close> (at most 1000 however
  configured), no more calls wait than \<^verbatim>\<open>max_pending\<close>, every reservation belongs to an agent that
  started or a call that waits, and a brake is announced once.\<close>

theorem scheduler_stays_within_limits:
  assumes "flow_reachable (flow_start cfg b paused t0) f"
  shows "cnt (\<lambda>c. ca_phase c = Running) (fl_calls f) \<le> clamp 1 HARD_AGENT_CAP (max_parallel cfg)
    \<and> cnt (\<lambda>c. ca_phase c = Running \<and> ca_vendor c = v) (fl_calls f) \<le> slots_for v (pools_of cfg)
    \<and> sc_admitted (fl_sched f) = fl_begun f + cnt waiting (fl_calls f)
    \<and> sc_admitted (fl_sched f) \<le> clamp 1 HARD_AGENT_CAP (max_agents b)
    \<and> fl_begun f \<le> HARD_AGENT_CAP
    \<and> cnt waiting (fl_calls f) \<le> max (max_pending cfg) 1
    \<and> length (sc_announced (fl_sched f)) \<le> 1"
proof -
  have ok: "slots_ok (clamp_config cfg) v f" "counts_ok (clamp_config cfg) (clamp_brakes b) f"
    "fixed_ok (clamp_config cfg) (clamp_brakes b) f"
    using run_ok_reach [OF assms] by (simp_all add: run_ok_def)
  have "cnt (\<lambda>c. ca_phase c = Running) (fl_calls f) \<le> cnt holds_run (fl_calls f)"
    "cnt (\<lambda>c. ca_phase c = Running \<and> ca_vendor c = v) (fl_calls f) \<le> cnt (holds_pool v) (fl_calls f)"
    by (rule cnt_le, simp add: phase_defs)+
  then show ?thesis
    using ok clamp_bounds [of 1 HARD_AGENT_CAP "max_agents b"]
    by (auto simp: slots_ok_def counts_ok_def fixed_ok_def clamp_config_def clamp_brakes_def HARD_AGENT_CAP_def
        split: option.splits)
qed

text \<open>Once a brake has tripped no further agent ever starts, whatever waits or enters afterwards, the
  reason never changes, and it was announced exactly once.\<close>

theorem tripped_brake_is_final:
  assumes "flow_reachable (flow_start cfg b paused t0) f" "sc_brake (fl_sched f) = Some r"
    "flow_reachable f g"
  shows "sc_brake (fl_sched g) = Some r \<and> fl_begun g = fl_begun f \<and> sc_announced (fl_sched g) = [r]"
proof -
  have "flow_reachable (flow_start cfg b paused t0) g"
    using assms(3,1) by (induction rule: flow_reachable.induct) (blast intro: flow_reachable.intros)+
  from run_ok_reach [OF this] show ?thesis
    using brake_reach [OF assms(3,2)] by (simp add: run_ok_def fixed_ok_def)
qed

text \<open>C25. However calls fan out, the agents started by any moment number at most one second of the
  configured rate plus that rate times the time since the run began.\<close>

theorem spawns_follow_rate:
  assumes "flow_reachable (flow_start cfg b paused t0) f"
  shows "of_nat (fl_begun f) \<le> max (spawn_rate_per_sec cfg) (1 / 100) * (1 + elapsed_secs (fl_now f) t0)"
proof -
  let ?r = "spawn_rate_per_sec (clamp_config cfg)" and ?b = "sc_bucket (fl_sched f)"
  have ok: "rate_ok ?r t0 f" using run_ok_reach [OF assms] by (simp add: run_ok_def)
  have "(of_nat (fl_begun f) :: rat) \<le> of_nat (fl_begun f + cnt is_ready (fl_calls f))" by simp
  also have "\<dots> \<le> ?r + ?r * elapsed_secs (tb_last ?b) t0"
    using ok unfolding rate_ok_def bucket_ok_def by linarith
  also have "\<dots> \<le> ?r + ?r * elapsed_secs (fl_now f) t0"
    using ok rate_pos [of cfg] elapsed_secs_mono [of "tb_last ?b" "fl_now f" t0]
    by (simp add: rate_ok_def bucket_ok_def mult_left_mono)
  finally show ?thesis by (simp add: clamp_config_def distrib_left)
qed

text \<open>A spawn rate below one agent per second never starts any: the bucket holds at most one
  second of rate, so it never holds the whole token a call waits for, and every call waits forever.\<close>

theorem slow_rate_starts_nothing:
  assumes "flow_reachable (flow_start cfg b paused t0) f" "spawn_rate_per_sec cfg < 1"
  shows "fl_begun f = 0"
proof -
  have "none_begun f"
    using assms(1)
  proof (induction rule: flow_reachable.induct)
    case (flow_next f f')
    have "rate_ok (spawn_rate_per_sec (clamp_config cfg)) t0 f"
      using run_ok_reach [OF flow_next(1)] by (simp add: run_ok_def)
    then show ?case
      using none_begun_step [OF flow_next(2,3)] rate_pos [of cfg] assms(2) by (simp add: clamp_config_def)
  qed (simp add: none_begun_def flow_start_def)
  then show ?thesis by (simp add: none_begun_def)
qed

text \<open>From one token per second on, the wait a call is told is enough: polled again after it, with
  no other call in between, the bucket has the token.\<close>

theorem told_wait_is_enough:
  assumes "bucket_ok r now b" "1 \<le> r" "poll_token now b = (b', Some w)" "w \<le> elapsed_secs later now"
  shows "snd (poll_token later b') = None"
proof -
  let ?t = "min (tb_tokens b + elapsed_secs now (tb_last b) * tb_rate b) (tb_capacity b)"
  have b': "b' = b \<lparr> tb_tokens := ?t, tb_last := now \<rparr>" and w: "w = (1 - ?t) / r"
    using assms(1,3) by (auto simp: poll_token_def bucket_ok_def Let_def split: if_splits)
  have "1 - ?t \<le> elapsed_secs later now * r"
    using assms(2,4) w by (simp add: divide_le_eq)
  then have "1 \<le> min (?t + elapsed_secs later now * r) r" using assms(2) by simp
  then show ?thesis using assms(1) by (simp add: poll_token_def b' bucket_ok_def Let_def)
qed

text \<open>After a success, the n-th consecutive limit of a vendor stands its pool down for the initial
  backoff doubled n times, never longer than the ceiling, and no other pool.\<close>

theorem backoff_doubles_to_ceiling:
  assumes "i < length ts"
  shows "limit_waits ts v (note_vendor_ok v s) ! i =
      (if i = 0 then backoff_initial (sc_cfg s) else min (backoff_initial (sc_cfg s) * 2 ^ i) (backoff_max (sc_cfg s)))
    \<and> (u \<noteq> v \<longrightarrow> sc_pools (fst (note_vendor_limit now v s)) u = sc_pools s u)"
  using limit_waits_nth [OF assms, of v "note_vendor_ok v s"]
  by (simp add: set_backoff_def)

text \<open>One call too many ends the run for calls that already hold a reservation: when \<^verbatim>\<open>max_agents\<close>
  are reserved and some of them still wait, the next call trips the brake, its reason says that
  \<^verbatim>\<open>max_agents\<close> agents already started although fewer did, and none of the waiting ones ever starts.\<close>

theorem one_call_too_many_refuses_reserved:
  assumes "flow_reachable (flow_start cfg b paused t0) f" "sc_brake (fl_sched f) = None"
    "reached_limit (fl_now f) (fl_sched f) = None" "sc_admitted (fl_sched f) = m"
    "max_agents (sc_brakes (fl_sched f)) = m" "0 < cnt waiting (fl_calls f)"
  shows "\<exists>s. admit_enter (fl_now f) (fl_sched f) = (s, Some (Brake (AgentBrake m m)))
    \<and> Collect (flow_reachable (move_call s (fl_calls f) f)) \<subseteq> {g. fl_begun g = fl_begun f \<and> fl_begun g < m}"
proof -
  let ?r = "AgentBrake m m" and ?s = "fl_sched f"
  let ?s' = "?s \<lparr> sc_brake := Some (AgentBrake m m), sc_announced := sc_announced ?s @ [AgentBrake m m] \<rparr>"
  have enter: "admit_enter (fl_now f) ?s = (?s', Some (Brake ?r))"
    using assms(2-5) by (simp add: admit_enter_def check_limits_def reserve_agent_def trip_def Let_def)
  have "fl_begun f < m"
    using run_ok_reach [OF assms(1)] assms(4,6) by (simp add: run_ok_def counts_ok_def)
  then have "Collect (flow_reachable (move_call ?s' (fl_calls f) f)) \<subseteq> {g. fl_begun g = fl_begun f \<and> fl_begun g < m}"
    using brake_reach [of "move_call ?s' (fl_calls f) f" _ ?r] by (auto simp: move_call_def)
  with enter show ?thesis by blast
qed

section \<open>Witnesses\<close>

text \<open>Two agents allowed, two calls waiting at the gate; then a third call that trips the brake.\<close>

definition ex_brakes :: brakes where
  "ex_brakes = default_brakes \<lparr> max_agents := 2 \<rparr>"

definition ex_flow0 :: flow where
  "ex_flow0 = flow_start default_scheduler_config ex_brakes False 5"

definition ex_call :: call where
  "ex_call = \<lparr> ca_vendor = Some Claude, ca_phase = AtGate \<rparr>"

definition ex_queue :: "nat \<Rightarrow> flow" where
  "ex_queue n = move_call ((fl_sched ex_flow0) \<lparr> sc_admitted := n, sc_pending := n \<rparr>)
     (replicate n ex_call) ex_flow0"

lemmas ex_run_defs = ex_queue_def ex_flow0_def flow_start_def new_scheduler_def ex_brakes_def default_brakes_def
  clamp_brakes_def clamp_config_def clamp_def HARD_AGENT_CAP_def default_scheduler_config_def
  move_call_def Let_def

lemma ex_enter:
  assumes "n < 2"
  shows "admit_enter (fl_now (ex_queue n)) (fl_sched (ex_queue n)) = (fl_sched (ex_queue (n + 1)), None)"
  using assms
  by (simp add: admit_enter_def check_limits_def reached_limit_def reserve_agent_def ex_run_defs)

lemma ex_queue_step:
  assumes "n < 2" "flow_reachable ex_flow0 (ex_queue n)"
  shows "flow_reachable ex_flow0 (ex_queue (n + 1))"
proof -
  have "flow_step (ex_queue n) (move_call (fl_sched (ex_queue (n + 1)))
      (fl_calls (ex_queue n) @ [\<lparr> ca_vendor = Some Claude, ca_phase = AtGate \<rparr>]) (ex_queue n))"
    by (rule flow_step.enter [OF ex_enter [OF assms(1)]])
  moreover have "move_call (fl_sched (ex_queue (n + 1)))
      (fl_calls (ex_queue n) @ [\<lparr> ca_vendor = Some Claude, ca_phase = AtGate \<rparr>]) (ex_queue n) = ex_queue (n + 1)"
    by (simp add: ex_queue_def move_call_def ex_call_def replicate_append_same)
  ultimately show ?thesis using assms(2) by (metis flow_next)
qed

lemma ex_queue_reachable: "n \<le> 2 \<Longrightarrow> flow_reachable ex_flow0 (ex_queue n)"
proof (induction n)
  case 0
  have "ex_queue 0 = ex_flow0"
    by (simp add: ex_run_defs)
  then show ?case by (simp add: flow_init)
next
  case (Suc n)
  then show ?case using ex_queue_step [of n] by simp
qed

lemma ex_queue_facts:
  "sc_brake (fl_sched (ex_queue 2)) = None" "reached_limit (fl_now (ex_queue 2)) (fl_sched (ex_queue 2)) = None"
  "sc_admitted (fl_sched (ex_queue 2)) = 2" "max_agents (sc_brakes (fl_sched (ex_queue 2))) = 2"
  "cnt waiting (fl_calls (ex_queue 2)) = 2" "fl_begun (ex_queue 2) = 0" "fl_now (ex_queue 2) = 5"
  by (simp_all add: reached_limit_def ex_run_defs waiting_def ex_call_def numeral_2_eq_2)

lemma one_call_too_many_refuses_reserved_witness:
  "\<exists>s. admit_enter 5 (fl_sched (ex_queue 2)) = (s, Some (Brake (AgentBrake 2 2)))
     \<and> Collect (flow_reachable (move_call s (fl_calls (ex_queue 2)) (ex_queue 2))) \<subseteq> {g. fl_begun g = 0}"
  using one_call_too_many_refuses_reserved [OF ex_queue_reachable [of 2, unfolded ex_flow0_def], of 2]
    ex_queue_facts by auto

lemma scheduler_stays_within_limits_witness:
  "sc_admitted (fl_sched (ex_queue 2)) = fl_begun (ex_queue 2) + cnt waiting (fl_calls (ex_queue 2))
   \<and> sc_admitted (fl_sched (ex_queue 2)) \<le> 2"
  using scheduler_stays_within_limits [OF ex_queue_reachable [of 2, unfolded ex_flow0_def], of None]
  by (simp add: ex_brakes_def clamp_def HARD_AGENT_CAP_def)

lemma spawns_follow_rate_witness: "(of_nat (fl_begun (ex_queue 2)) :: rat) \<le> 10"
  using spawns_follow_rate [OF ex_queue_reachable [of 2, unfolded ex_flow0_def]] ex_queue_facts
  by (simp add: default_scheduler_config_def elapsed_secs_def)

text \<open>The brake of two agents trips at the third call.\<close>

definition ex_tripped :: flow where
  "ex_tripped = move_call ((fl_sched (ex_queue 2)) \<lparr> sc_brake := Some (AgentBrake 2 2),
     sc_announced := [AgentBrake 2 2] \<rparr>) (fl_calls (ex_queue 2)) (ex_queue 2)"

lemma ex_tripped_reachable: "flow_reachable ex_flow0 ex_tripped"
proof -
  have "admit_enter (fl_now (ex_queue 2)) (fl_sched (ex_queue 2))
      = (fl_sched ex_tripped, Some (Brake (AgentBrake 2 2)))"
    by (simp add: admit_enter_def check_limits_def reached_limit_def reserve_agent_def trip_def
        ex_tripped_def ex_run_defs)
  from flow_next [OF ex_queue_reachable [of 2] flow_step.enter_refused [OF this]]
  show ?thesis by (simp add: ex_tripped_def move_call_def)
qed

lemma tripped_brake_is_final_witness:
  "sc_brake (fl_sched (ex_tripped \<lparr> fl_now := 9 \<rparr>)) = Some (AgentBrake 2 2)
   \<and> fl_begun (ex_tripped \<lparr> fl_now := 9 \<rparr>) = fl_begun ex_tripped"
proof -
  have b: "sc_brake (fl_sched ex_tripped) = Some (AgentBrake 2 2)" by (simp add: ex_tripped_def move_call_def)
  have "fl_now ex_tripped \<le> 9" by (simp add: ex_tripped_def move_call_def ex_queue_facts)
  from flow_next [OF flow_init flow_step.tick [OF this]]
  have g: "flow_reachable ex_tripped (ex_tripped \<lparr> fl_now := 9 \<rparr>)" .
  show ?thesis
    using tripped_brake_is_final [OF ex_tripped_reachable [unfolded ex_flow0_def] b g] by simp
qed

definition ex_slow :: scheduler_config where
  "ex_slow = default_scheduler_config \<lparr> spawn_rate_per_sec := 1 / 2 \<rparr>"

lemma slow_rate_starts_nothing_witness:
  "fl_begun (flow_start ex_slow ex_brakes False 0 \<lparr> fl_now := 1000000 \<rparr>) = 0"
proof -
  have "flow_reachable (flow_start ex_slow ex_brakes False 0) (flow_start ex_slow ex_brakes False 0 \<lparr> fl_now := 1000000 \<rparr>)"
    by (rule flow_next [OF flow_init flow_step.tick]) (simp add: flow_start_def)
  from slow_rate_starts_nothing [OF this] show ?thesis by (simp add: ex_slow_def)
qed

definition ex_bucket :: token_bucket where
  "ex_bucket = \<lparr> tb_tokens = 0, tb_rate = 10, tb_capacity = 10, tb_last = 0 \<rparr>"

lemma told_wait_is_enough_witness: "snd (poll_token 100000000 ex_bucket) = None"
  using told_wait_is_enough [of 10 0 ex_bucket ex_bucket "1 / 10" 100000000]
  by (simp add: bucket_ok_def ex_bucket_def poll_token_def elapsed_secs_def Let_def)

lemma backoff_doubles_to_ceiling_witness:
  "limit_waits [0, 0, 0, 0, 0, 0] None (note_vendor_ok None (fl_sched ex_flow0)) ! 5 = 600000000000"
  using backoff_doubles_to_ceiling [of 5 "[0, 0, 0, 0, 0, 0]" None "fl_sched ex_flow0" None 0]
  by (simp add: ex_run_defs secs_def del: limit_waits.simps)

end
