(* ===== verification/Flow_Journal.thy ===== *)
theory Flow_Journal
  imports Prelude Complex_Main "HOL-Library.List_Lexorder" "HOL-Library.Multiset"
begin

text \<open>
  The run journal of a workflow and the resume cache built from it (\<^verbatim>\<open>ccteam-flow/src/journal.rs\<close>):
  the content key of a call, the append-only file with its spilled results, the run token, and the
  lookups of a resumed run. SHA-256, the rendering of JSON scalars and the length of a rendered value
  are parameters; a line of the file is the entry it parses to, or nothing when it does not parse.
\<close>

section \<open>Content keys\<close>

definition joined :: "utext \<Rightarrow> utext list \<Rightarrow> utext" where
  "joined sep parts = (case parts of [] \<Rightarrow> [] | p # ps \<Rightarrow> p @ concat (map (\<lambda>q. sep @ q) ps))"

text \<open>Members sorted by name and null members dropped; \<^verbatim>\<open>show\<close> renders a scalar.\<close>

fun canonical :: "(json \<Rightarrow> utext) \<Rightarrow> json \<Rightarrow> utext" where
  "canonical rnd (JObj ms) =
     lit ''{'' @ joined (lit '','')
       (map (\<lambda>(k, c). rnd (JStr k) @ lit '':'' @ the c)
         (filter (\<lambda>(k, c). c \<noteq> None)
           (sort_key fst (map (\<lambda>(k, v). (k, if v = JNull then None else Some (canonical rnd v))) ms))))
     @ lit ''}''"
| "canonical rnd (JArr vs) = lit ''['' @ joined (lit '','') (map (canonical rnd) vs) @ lit '']''"
| "canonical rnd v = rnd v"

definition call_key :: "(utext \<Rightarrow> utext) \<Rightarrow> (json \<Rightarrow> utext) \<Rightarrow> utext \<Rightarrow> json \<Rightarrow> utext" where
  "call_key sha rnd task opts = sha (task @ [0] @ canonical rnd opts)"

section \<open>Entries and the run directory\<close>

record journal_entry =
  je_seq :: nat
  je_key :: utext
  je_sid :: "sid option"
  je_done :: bool
  je_result :: "json option"
  je_result_ref :: "utext option"
  je_cost :: "rat option"
  je_label :: "utext option"
  je_vendor :: "utext option"

definition INLINE_RESULT_LIMIT :: nat where
  "INLINE_RESULT_LIMIT = 4096"

text \<open>A line of the journal: an entry, text that does not parse, or bytes that are not UTF-8. The
  file is its complete lines and what follows the last line end (\<^verbatim>\<open>None\<close>: nothing).
  A result file is \<^verbatim>\<open>None\<close> when it does not parse.\<close>

datatype journal_line = Entry journal_entry | Skipped | NotText

record run_dir =
  rd_lines :: "journal_line list"
  rd_tail :: "journal_line option"
  rd_results :: "utext \<rightharpoonup> json option"
  rd_token :: "utext option"

text \<open>Outcomes of a write: complete, without effect, or cut short, between two characters or inside
  one.\<close>

datatype write_outcome = Written | NotWritten | CutShort | CutInChar

definition after_tail :: "journal_line option \<Rightarrow> journal_line \<Rightarrow> journal_line" where
  "after_tail t l = (case t of None \<Rightarrow> l | Some NotText \<Rightarrow> NotText | Some _ \<Rightarrow> (if l = NotText then l else Skipped))"

definition write_line :: "write_outcome \<Rightarrow> journal_entry \<Rightarrow> run_dir \<Rightarrow> run_dir" where
  "write_line oc e d = (case oc of
       NotWritten \<Rightarrow> d
     | Written \<Rightarrow> d \<lparr> rd_lines := rd_lines d @ [after_tail (rd_tail d) (Entry e)], rd_tail := None \<rparr>
     | CutShort \<Rightarrow> d \<lparr> rd_tail := Some (after_tail (rd_tail d) Skipped) \<rparr>
     | CutInChar \<Rightarrow> d \<lparr> rd_tail := Some NotText \<rparr>)"

definition write_result :: "write_outcome \<Rightarrow> utext \<Rightarrow> json \<Rightarrow> run_dir \<Rightarrow> run_dir" where
  "write_result oc rel v d = (case oc of
       NotWritten \<Rightarrow> d
     | Written \<Rightarrow> d \<lparr> rd_results := (rd_results d)(rel \<mapsto> Some v) \<rparr>
     | _ \<Rightarrow> d \<lparr> rd_results := (rd_results d)(rel \<mapsto> None) \<rparr>)"

definition spill_name :: "nat \<Rightarrow> utext" where
  "spill_name n = lit ''results/'' @ dec n @ lit ''.json''"

definition journal_append :: "(json \<Rightarrow> nat) \<Rightarrow> write_outcome \<Rightarrow> write_outcome \<Rightarrow> journal_entry \<Rightarrow> run_dir \<Rightarrow> run_dir" where
  "journal_append len spill line e d =
     (case je_result e of
        Some v \<Rightarrow>
          if INLINE_RESULT_LIMIT < len v
          then write_line line (e \<lparr> je_result := None, je_result_ref := Some (spill_name (je_seq e)) \<rparr>)
                 (write_result spill (spill_name (je_seq e)) v d)
          else write_line line e d
      | None \<Rightarrow> write_line line e d)"

definition journal_lines :: "run_dir \<Rightarrow> journal_line list" where
  "journal_lines d = rd_lines d @ (case rd_tail d of None \<Rightarrow> [] | Some l \<Rightarrow> [l])"

definition memo_of :: "journal_line list \<Rightarrow> nat \<rightharpoonup> journal_entry" where
  "memo_of ls = foldl (\<lambda>m l. case l of Entry e \<Rightarrow> m(je_seq e \<mapsto> e) | _ \<Rightarrow> m) Map.empty ls"

text \<open>The file is read as one string: when that fails, as it does when any byte is not UTF-8, the
  memo is empty. A line that does not parse is skipped.\<close>

definition load_prior :: "bool \<Rightarrow> run_dir \<Rightarrow> nat \<rightharpoonup> journal_entry" where
  "load_prior readable d =
     (if readable \<and> NotText \<notin> set (journal_lines d) then memo_of (journal_lines d) else Map.empty)"

text \<open>\<^verbatim>\<open>minted\<close> is the hash of the directory, the process id and the clock; \<^verbatim>\<open>written\<close> whether the token
  file could be written.\<close>

definition run_token_in :: "bool \<Rightarrow> utext \<Rightarrow> bool \<Rightarrow> run_dir \<Rightarrow> (run_dir \<times> utext) option" where
  "run_token_in resume minted written d =
     (let kept = (if resume then (case rd_token d of Some t \<Rightarrow> trim t | None \<Rightarrow> []) else []) in
      if kept \<noteq> [] then Some (d, kept)
      else if written then Some (d \<lparr> rd_token := Some (take 16 minted) \<rparr>, take 16 minted) else None)"

record prior_state =
  pr_by_seq :: "nat \<rightharpoonup> journal_entry"
  pr_usable :: bool
  pr_invalidated_at :: "nat option"
  pr_diagnostic :: "utext option"
  pr_hits :: nat
  pr_reattached :: nat

definition journal_open :: "bool \<Rightarrow> utext \<Rightarrow> bool \<Rightarrow> bool \<Rightarrow> run_dir
    \<Rightarrow> (run_dir \<times> utext \<times> prior_state) option" where
  "journal_open resume minted written readable d =
     (case run_token_in resume minted written d of
        None \<Rightarrow> None
      | Some (d1, t) \<Rightarrow>
          Some (if resume then d1 else d1 \<lparr> rd_lines := [], rd_tail := None \<rparr>, t,
            \<lparr> pr_by_seq = (if resume then load_prior readable d1 else Map.empty), pr_usable = resume,
              pr_invalidated_at = None, pr_diagnostic = None, pr_hits = 0, pr_reattached = 0 \<rparr>))"

datatype prefix_hit = Miss | Done json "rat option" | InFlight sid

definition invalidate :: "nat \<Rightarrow> utext \<Rightarrow> prior_state \<Rightarrow> prior_state" where
  "invalidate seq reason p =
     (if pr_usable p
      then p \<lparr> pr_usable := False, pr_invalidated_at := Some seq,
               pr_diagnostic := Some (reason @ lit ''; running live from here'') \<rparr>
      else p)"

definition read_result_ref :: "run_dir \<Rightarrow> utext option \<Rightarrow> json option" where
  "read_result_ref d rel = Option.bind rel (\<lambda>r. Option.bind (rd_results d r) (\<lambda>v. v))"

definition short :: "utext \<Rightarrow> utext" where
  "short key = take (min (length key) 8) key"

definition call_text :: "nat \<Rightarrow> utext \<Rightarrow> utext" where
  "call_text seq label = lit ''call #'' @ dec seq @ lit '' ('' @ label @ lit '')''"

definition lookup_call :: "run_dir \<Rightarrow> nat \<Rightarrow> utext \<Rightarrow> utext \<Rightarrow> prior_state \<Rightarrow> prior_state \<times> prefix_hit" where
  "lookup_call d seq key label p =
     (if \<not> pr_usable p then (p, Miss)
      else (case pr_by_seq p seq of
          None \<Rightarrow> (invalidate seq (call_text seq label @ lit '' has no journal entry'') p, Miss)
        | Some e \<Rightarrow>
            if je_key e \<noteq> key
            then (invalidate seq (call_text seq label @ lit '' changed: journal key '' @ short (je_key e)
                   @ [8230] @ lit '' vs script key '' @ short key @ [8230]) p, Miss)
            else if je_done e
            then (p \<lparr> pr_hits := pr_hits p + 1 \<rparr>,
                  Done (case je_result e of Some v \<Rightarrow> v
                        | None \<Rightarrow> (case read_result_ref d (je_result_ref e) of Some v \<Rightarrow> v | None \<Rightarrow> JNull))
                       (je_cost e))
            else (case je_sid e of
                Some s \<Rightarrow> (p \<lparr> pr_reattached := pr_reattached p + 1 \<rparr>, InFlight s)
              | None \<Rightarrow> (invalidate seq (call_text seq label @ lit '' was never dispatched in the prior run'') p, Miss))))"

record cache_report =
  cr_hits :: nat
  cr_reattached :: nat
  cr_invalidated_at :: "nat option"
  cr_diagnostic :: "utext option"

definition cache_report_of :: "prior_state \<Rightarrow> cache_report" where
  "cache_report_of p = \<lparr> cr_hits = pr_hits p, cr_reattached = pr_reattached p,
     cr_invalidated_at = pr_invalidated_at p, cr_diagnostic = pr_diagnostic p \<rparr>"

text \<open>The lookups of a run, in call order.\<close>

fun lookups :: "run_dir \<Rightarrow> (nat \<times> utext \<times> utext) list \<Rightarrow> prior_state \<Rightarrow> prior_state \<times> prefix_hit list" where
  "lookups d [] p = (p, [])"
| "lookups d ((seq, key, label) # cs) p =
     (let (p1, h) = lookup_call d seq key label p; (p2, hs) = lookups d cs p1 in (p2, h # hs))"

section \<open>What a lookup answers\<close>

text \<open>A call matches when its entry has its key and was dispatched.\<close>

definition matches :: "(nat \<rightharpoonup> journal_entry) \<Rightarrow> nat \<times> utext \<times> utext \<Rightarrow> bool" where
  "matches m c = (case c of (seq, key, label) \<Rightarrow>
     (case m seq of Some e \<Rightarrow> je_key e = key \<and> (je_done e \<or> je_sid e \<noteq> None) | None \<Rightarrow> False))"

definition answer_of :: "run_dir \<Rightarrow> (nat \<rightharpoonup> journal_entry) \<Rightarrow> nat \<times> utext \<times> utext \<Rightarrow> prefix_hit" where
  "answer_of d m c = (case m (fst c) of
       None \<Rightarrow> Miss
     | Some e \<Rightarrow> if je_done e
         then Done (case je_result e of Some v \<Rightarrow> v
                    | None \<Rightarrow> (case read_result_ref d (je_result_ref e) of Some v \<Rightarrow> v | None \<Rightarrow> JNull)) (je_cost e)
         else InFlight (the (je_sid e)))"

lemma invalidate_simps [simp]:
  "pr_usable (invalidate seq r p) = False"
  "pr_by_seq (invalidate seq r p) = pr_by_seq p"
  by (simp_all add: invalidate_def)

lemma lookup_unusable: "\<not> pr_usable p \<Longrightarrow> lookup_call d seq key label p = (p, Miss)"
  by (simp add: lookup_call_def)

lemma lookup_match:
  assumes "pr_usable p" "matches (pr_by_seq p) (seq, key, label)" "lookup_call d seq key label p = (p', h)"
  shows "pr_usable p' \<and> pr_by_seq p' = pr_by_seq p \<and> pr_invalidated_at p' = pr_invalidated_at p
    \<and> h = answer_of d (pr_by_seq p) (seq, key, label)
    \<and> pr_hits p' + pr_reattached p' = pr_hits p + pr_reattached p + 1"
  using assms
  by (auto simp: matches_def lookup_call_def answer_of_def split: option.splits if_splits)

lemma lookup_mismatch:
  assumes "pr_usable p" "\<not> matches (pr_by_seq p) (seq, key, label)" "lookup_call d seq key label p = (p', h)"
  shows "\<not> pr_usable p' \<and> h = Miss \<and> pr_invalidated_at p' = Some seq
    \<and> pr_hits p' = pr_hits p \<and> pr_reattached p' = pr_reattached p"
  using assms
  by (auto simp: matches_def lookup_call_def invalidate_def split: option.splits if_splits)

lemma lookups_unusable:
  "\<not> pr_usable p \<Longrightarrow> lookups d cs p = (p, replicate (length cs) Miss)"
  by (induction cs) (auto simp: lookup_unusable Let_def)

lemma lookups_cons:
  "lookup_call d seq key label p = (p1, h) \<Longrightarrow> lookups d cs p1 = (p2, hs)
    \<Longrightarrow> lookups d ((seq, key, label) # cs) p = (p2, h # hs)"
  by simp

lemma lookups_prefix:
  assumes "pr_usable p"
  shows "snd (lookups d cs p) =
      map (answer_of d (pr_by_seq p)) (takeWhile (matches (pr_by_seq p)) cs)
      @ replicate (length (dropWhile (matches (pr_by_seq p)) cs)) Miss
    \<and> pr_invalidated_at (fst (lookups d cs p)) =
      (case dropWhile (matches (pr_by_seq p)) cs of [] \<Rightarrow> pr_invalidated_at p | c # _ \<Rightarrow> Some (fst c))
    \<and> pr_hits (fst (lookups d cs p)) + pr_reattached (fst (lookups d cs p)) =
      pr_hits p + pr_reattached p + length (takeWhile (matches (pr_by_seq p)) cs)"
  using assms
proof (induction cs arbitrary: p)
  case (Cons c cs)
  obtain seq key label where c: "c = (seq, key, label)" by (cases c) auto
  obtain p1 h where l: "lookup_call d seq key label p = (p1, h)" by fastforce
  obtain p2 hs where r: "lookups d cs p1 = (p2, hs)" by fastforce
  note both = lookups_cons [OF l r]
  show ?case
  proof (cases "matches (pr_by_seq p) c")
    case True
    note m = lookup_match [OF Cons.prems True [unfolded c] l]
    show ?thesis using Cons.IH [of p1] m both r True by (simp add: c cong: list.case_cong)
  next
    case False
    note m = lookup_mismatch [OF Cons.prems False [unfolded c] l]
    have "p2 = p1" "hs = replicate (length cs) Miss"
      using lookups_unusable [of p1 d cs] m r by simp_all
    then show ?thesis using m both False by (simp add: c)
  qed
qed simp

lemma memo_of_snoc [simp]:
  "memo_of (ls @ [l]) = (case l of Entry e \<Rightarrow> (memo_of ls)(je_seq e \<mapsto> e) | _ \<Rightarrow> memo_of ls)"
  by (cases l) (simp_all add: memo_of_def)

lemma journal_lines_closed [simp]: "rd_tail d = None \<Longrightarrow> journal_lines d = rd_lines d"
  by (simp add: journal_lines_def)

lemma load_written:
  "rd_tail d = None \<Longrightarrow> NotText \<notin> set (rd_lines d) \<Longrightarrow>
   load_prior True (write_line Written e d) = (load_prior True d)(je_seq e \<mapsto> e)"
  by (simp add: load_prior_def write_line_def after_tail_def)

text \<open>A line written after a torn one is lost with it; what was complete before stays, unless the
  tear is inside a character.\<close>

lemma load_after_tear:
  "rd_tail d = None \<Longrightarrow> load_prior rdb (write_line Written e2 (write_line CutShort e1 d)) = load_prior rdb d"
  by (simp add: load_prior_def write_line_def after_tail_def)

lemma open_resume:
  "journal_open True minted written rdb d = Some (d', t, p) \<Longrightarrow>
     pr_usable p \<and> pr_by_seq p = load_prior rdb d \<and> pr_invalidated_at p = None \<and> pr_hits p = 0
     \<and> pr_reattached p = 0 \<and> rd_lines d' = rd_lines d \<and> rd_tail d' = rd_tail d \<and> rd_results d' = rd_results d"
  by (auto simp: journal_open_def run_token_in_def load_prior_def journal_lines_def Let_def
      split: option.splits if_splits)

lemma answer_of_cong: "rd_results d' = rd_results d \<Longrightarrow> answer_of d' m c = answer_of d m c"
  by (simp add: answer_of_def read_result_ref_def split: option.split)

subsection \<open>Member order\<close>

definition rendered_members :: "(json \<Rightarrow> utext) \<Rightarrow> (utext \<times> json) list \<Rightarrow> (utext \<times> utext option) list" where
  "rendered_members rnd ms =
     map (\<lambda>(k, v). (k, if v = JNull then None else Some (canonical rnd v))) ms"

definition present :: "(utext \<times> json) list \<Rightarrow> (utext \<times> json) list" where
  "present ms = filter (\<lambda>m. snd m \<noteq> JNull) ms"

lemma rendered_present:
  "filter (\<lambda>(k, c). c \<noteq> None) (rendered_members rnd ms) = rendered_members rnd (present ms)"
  by (induction ms) (auto simp: rendered_members_def present_def)

lemma canonical_object:
  "canonical rnd (JObj ms) =
     lit ''{'' @ joined (lit '','') (map (\<lambda>(k, c). rnd (JStr k) @ lit '':'' @ the c)
       (sort_key fst (rendered_members rnd (present ms)))) @ lit ''}''"
  unfolding canonical.simps rendered_members_def [symmetric] filter_sort rendered_present by (rule refl)

lemma distinct_key_filter:
  "distinct (map fst xs) \<Longrightarrow> k \<in> set xs \<Longrightarrow> filter (\<lambda>x. fst k = fst x) xs = [k]"
proof (induction xs)
  case (Cons x xs)
  show ?case
  proof (cases "k = x")
    case True
    then have "fst k \<notin> fst ` set xs" using Cons.prems(1) by simp
    then have "filter (\<lambda>y. fst k = fst y) xs = []" by (auto simp: filter_empty_conv)
    then show ?thesis using True by simp
  next
    case False
    then have "k \<in> set xs" using Cons.prems(2) by simp
    moreover from this have "fst k \<noteq> fst x" using Cons.prems(1) by (metis distinct.simps(2) image_eqI list.map(2) list.set_map)
    ultimately show ?thesis using Cons by simp
  qed
qed simp

lemma sort_key_distinct_cong:
  fixes xs ys :: "(utext \<times> 'b) list"
  assumes "mset xs = mset ys" "distinct (map fst xs)"
  shows "sort_key fst xs = sort_key fst ys"
proof (rule properties_for_sort_key)
  have sets: "set xs = set ys" using assms(1) by (rule mset_eq_setD)
  have dy: "distinct (map fst ys)"
    using assms by (metis mset_eq_imp_distinct_iff mset_map)
  show "mset (sort_key fst ys) = mset xs" using assms(1) by simp
  show "sorted (map fst (sort_key fst ys))" by simp
  show "filter (\<lambda>x. fst k = fst x) (sort_key fst ys) = filter (\<lambda>x. fst k = fst x) xs"
    if "k \<in> set (sort_key fst ys)" for k
  proof -
    have "k \<in> set ys" using that by simp
    then show ?thesis
      using distinct_key_filter [OF assms(2), of k] distinct_key_filter [OF dy, of k] sets
        filter_sort [of "\<lambda>x. fst k = fst x" fst ys] by simp
  qed
qed

section \<open>Properties\<close>

text \<open>C28. A resumed run answers from the entries its one read of the journal gives, exactly the
  longest prefix of its calls that match their entries: each of them gets its recorded result or the
  session to re-attach to, the first call that does not match is reported as the point of
  invalidation, and it and every later call run live. The read gives the last entry of each position,
  lines that do not parse left out, and nothing at all when it fails or any line is not UTF-8.\<close>

theorem resume_answers_matching_prefix:
  assumes "journal_open True minted written readable d = Some (d', t, p)"
  shows "let m = (if readable \<and> NotText \<notin> set (journal_lines d) then memo_of (journal_lines d) else Map.empty);
      hit = takeWhile (matches m) cs; rest = dropWhile (matches m) cs; p' = fst (lookups d' cs p) in
    snd (lookups d' cs p) = map (answer_of d m) hit @ replicate (length rest) Miss
    \<and> cr_invalidated_at (cache_report_of p') = (if rest = [] then None else Some (fst (hd rest)))
    \<and> cr_hits (cache_report_of p') + cr_reattached (cache_report_of p') = length hit"
  unfolding load_prior_def [symmetric]
proof -
  note o = open_resume [OF assms]
  let ?m = "load_prior readable d"
  have a: "answer_of d' ?m = answer_of d ?m"
    using o by (intro ext answer_of_cong) simp
  have u: "pr_usable p" using o by simp
  have m: "pr_by_seq p = ?m" using o by simp
  note l = lookups_prefix [OF u, of d' cs, unfolded m a]
  show "let m = ?m; hit = takeWhile (matches m) cs; rest = dropWhile (matches m) cs; p' = fst (lookups d' cs p) in
    snd (lookups d' cs p) = map (answer_of d m) hit @ replicate (length rest) Miss
    \<and> cr_invalidated_at (cache_report_of p') = (if rest = [] then None else Some (fst (hd rest)))
    \<and> cr_hits (cache_report_of p') + cr_reattached (cache_report_of p') = length hit"
  proof (cases "dropWhile (matches ?m) cs")
    case Nil
    then show ?thesis using l o unfolding Let_def cache_report_of_def Nil by simp
  next
    case (Cons c rest)
    then show ?thesis using l o unfolding Let_def cache_report_of_def Cons by simp
  qed
qed

text \<open>A death inside a character of the last line costs the whole memo, and the lines the resumed run
  then appends go after the broken one: no later resume finds anything either.\<close>

theorem torn_character_loses_the_memo:
  "load_prior rdb (write_line Written e2 (write_line CutInChar e1 d)) = Map.empty
   \<and> load_prior rdb (write_line CutInChar e1 d) = Map.empty"
  by (simp add: load_prior_def journal_lines_def write_line_def after_tail_def)

text \<open>The content key of a call does not depend on the order of its options nor on options given as
  null: two option objects with the same non-null members have one key.\<close>

theorem call_key_ignores_order_and_nulls:
  assumes "mset (present ms) = mset (present ns)" "distinct (map fst (present ms))"
  shows "call_key sha rnd task (JObj ms) = call_key sha rnd task (JObj ns)"
proof -
  have m: "mset (rendered_members rnd (present ms)) = mset (rendered_members rnd (present ns))"
    using assms(1) by (simp add: rendered_members_def)
  have "distinct (map fst (rendered_members rnd (present ms)))"
    using assms(2) by (simp add: rendered_members_def comp_def split_beta)
  then have "canonical rnd (JObj ms) = canonical rnd (JObj ns)"
    using sort_key_distinct_cong [OF m] by (simp only: canonical_object)
  then show ?thesis by (simp only: call_key_def)
qed

text \<open>Invalidation is forgotten: a run that resumed, found call \<^verbatim>\<open>i\<close> changed and so refused every
  later answer, re-ran call \<^verbatim>\<open>i\<close> and then died leaves the later entries in the file, and the next resume
  answers a later call from the run before the change.\<close>

theorem stale_answer_survives_invalidation:
  assumes "journal_open True minted written True d = Some (d1, t1, p1)" "rd_tail d = None"
    "NotText \<notin> set (rd_lines d)"
    "\<not> matches (load_prior True d) (i, key, label)" "matches (load_prior True d) (n, key2, label2)" "i < n"
    "je_seq e = i" "je_key e = key" "je_done e" "je_result e = Some v"
    "journal_open True minted written True (write_line Written e d1) = Some (d3, t3, p3)"
  shows "snd (lookups d1 [(i, key, label), (n, key2, label2)] p1) = [Miss, Miss]
    \<and> snd (lookups d3 [(i, key, label), (n, key2, label2)] p3)
        = [Done v (je_cost e), answer_of d (load_prior True d) (n, key2, label2)]"
proof
  note o1 = open_resume [OF assms(1)]
  have u1: "pr_usable p1" using o1 by simp
  show "snd (lookups d1 [(i, key, label), (n, key2, label2)] p1) = [Miss, Miss]"
    using lookups_prefix [OF u1, of d1 "[(i, key, label), (n, key2, label2)]"] o1 assms(4) by simp
  let ?m = "(load_prior True d)(i \<mapsto> e)"
  have tail: "rd_tail d1 = None" and same: "load_prior True d1 = load_prior True d"
    using o1 assms(2) by (simp_all add: load_prior_def journal_lines_def)
  have load: "load_prior True (write_line Written e d1) = ?m"
    using load_written [OF tail, of e] same assms(3,7) o1 by simp
  note o3 = open_resume [OF assms(11)]
  have u3: "pr_usable p3" and by3: "pr_by_seq p3 = ?m" using o3 load by simp_all
  have res: "rd_results d3 = rd_results d" using o3 o1 by (simp add: write_line_def)
  have m: "matches ?m (i, key, label)" "matches ?m (n, key2, label2)"
    using assms(5-9) by (simp_all add: matches_def)
  have a: "answer_of d3 ?m (i, key, label) = Done v (je_cost e)"
    "answer_of d3 ?m (n, key2, label2) = answer_of d (load_prior True d) (n, key2, label2)"
    using assms(6,9,10) answer_of_cong [OF res] by (simp_all add: answer_of_def)
  show "snd (lookups d3 [(i, key, label), (n, key2, label2)] p3)
        = [Done v (je_cost e), answer_of d (load_prior True d) (n, key2, label2)]"
    using lookups_prefix [OF u3, of d3 "[(i, key, label), (n, key2, label2)]"] m a by (simp add: by3)
qed

text \<open>A large result whose file could not be written is answered as null on resume: the line still
  says the call is done, so the resumed run takes null for the worker's answer instead of running the
  call again.\<close>

theorem failed_spill_answers_null:
  assumes "rd_tail d = None" "je_result e = Some v" "INLINE_RESULT_LIMIT < len v" "je_done e"
    "rd_results d (spill_name (je_seq e)) = None"
    "NotText \<notin> set (rd_lines d)"
    "journal_open True minted written True (journal_append len NotWritten Written e d) = Some (d', t, p)"
  shows "snd (lookup_call d' (je_seq e) (je_key e) label p) = Done JNull (je_cost e)"
proof -
  let ?e = "e \<lparr> je_result := None, je_result_ref := Some (spill_name (je_seq e)) \<rparr>"
  have app: "journal_append len NotWritten Written e d = write_line Written ?e d"
    using assms(2,3) by (simp add: journal_append_def write_result_def)
  note o = open_resume [OF assms(7) [unfolded app]]
  have "pr_by_seq p (je_seq e) = Some ?e" using o load_written [OF assms(1,6), of ?e] by simp
  moreover have "rd_results d' = rd_results d" using o by (simp add: write_line_def)
  ultimately show ?thesis
    using o assms(4,5) by (simp add: lookup_call_def read_result_ref_def)
qed

section \<open>Witnesses\<close>

definition ex_entry :: "nat \<Rightarrow> string \<Rightarrow> string \<Rightarrow> journal_entry" where
  "ex_entry n key res = \<lparr> je_seq = n, je_key = lit key, je_sid = Some (lit ''s9''), je_done = True,
     je_result = Some (JStr (lit res)), je_result_ref = None, je_cost = None, je_label = None, je_vendor = None \<rparr>"

definition ex_dir :: run_dir where
  "ex_dir = \<lparr> rd_lines = [Entry (ex_entry 0 ''aaaa'' ''r0''), Entry (ex_entry 1 ''bbbb'' ''r1'')], rd_tail = None,
     rd_results = Map.empty, rd_token = Some (lit ''tok'') \<rparr>"

definition ex_prior :: "run_dir \<Rightarrow> prior_state" where
  "ex_prior d = \<lparr> pr_by_seq = load_prior True d, pr_usable = True, pr_invalidated_at = None, pr_diagnostic = None,
     pr_hits = 0, pr_reattached = 0 \<rparr>"

lemma ex_open:
  assumes "rd_token d = Some (lit ''tok'')"
  shows "journal_open True [] True True d = Some (d, lit ''tok'', ex_prior d)"
proof -
  have "trim (lit ''tok'') = lit ''tok''"
    by (simp add: trim_def trim_start_def trim_end_def lit_def is_whitespace_def)
  then show ?thesis using assms by (simp add: journal_open_def run_token_in_def ex_prior_def)
qed

lemma ex_memo:
  "NotText \<notin> set (journal_lines ex_dir)"
  "memo_of (journal_lines ex_dir) = [0 \<mapsto> ex_entry 0 ''aaaa'' ''r0'', 1 \<mapsto> ex_entry 1 ''bbbb'' ''r1'']"
  by (simp_all add: memo_of_def journal_lines_def ex_dir_def ex_entry_def)

lemma ex_load: "load_prior True ex_dir = [0 \<mapsto> ex_entry 0 ''aaaa'' ''r0'', 1 \<mapsto> ex_entry 1 ''bbbb'' ''r1'']"
  by (simp add: load_prior_def ex_memo)

lemma resume_answers_matching_prefix_witness:
  "snd (lookups ex_dir [(0, lit ''aaaa'', []), (1, lit ''cccc'', []), (2, lit ''dddd'', [])] (ex_prior ex_dir))
     = [Done (JStr (lit ''r0'')) None, Miss, Miss]"
proof -
  have o: "journal_open True [] True True ex_dir = Some (ex_dir, lit ''tok'', ex_prior ex_dir)"
    by (rule ex_open) (simp add: ex_dir_def)
  show ?thesis
    using resume_answers_matching_prefix [OF o, of "[(0, lit ''aaaa'', []), (1, lit ''cccc'', []), (2, lit ''dddd'', [])]"]
    by (simp add: ex_memo matches_def answer_of_def ex_entry_def Let_def del: lookups.simps)
qed

lemma call_key_ignores_order_and_nulls_witness:
  "call_key id (\<lambda>v. []) (lit ''t'') (JObj [(lit ''b'', JInt 1), (lit ''a'', JBool True)])
   = call_key id (\<lambda>v. []) (lit ''t'') (JObj [(lit ''a'', JBool True), (lit ''c'', JNull), (lit ''b'', JInt 1)])"
  by (rule call_key_ignores_order_and_nulls) (simp_all add: present_def)

lemma stale_answer_survives_invalidation_witness:
  "snd (lookups (write_line Written (ex_entry 0 ''cccc'' ''new'') ex_dir)
      [(0, lit ''cccc'', []), (1, lit ''bbbb'', [])]
      (ex_prior (write_line Written (ex_entry 0 ''cccc'' ''new'') ex_dir)))
     = [Done (JStr (lit ''new'')) None, Done (JStr (lit ''r1'')) None]"
proof -
  let ?e = "ex_entry 0 ''cccc'' ''new''" and ?d = "write_line Written (ex_entry 0 ''cccc'' ''new'') ex_dir"
  have o: "journal_open True [] True True ex_dir = Some (ex_dir, lit ''tok'', ex_prior ex_dir)"
    "journal_open True [] True True ?d = Some (?d, lit ''tok'', ex_prior ?d)"
    by (rule ex_open; simp add: ex_dir_def write_line_def)+
  have "\<not> matches (load_prior True ex_dir) (0, lit ''cccc'', [])" "matches (load_prior True ex_dir) (1, lit ''bbbb'', [])"
    by (simp_all add: ex_load matches_def ex_entry_def)
  then have "snd (lookups ?d [(0, lit ''cccc'', []), (1, lit ''bbbb'', [])] (ex_prior ?d))
      = [Done (JStr (lit ''new'')) (je_cost ?e), answer_of ex_dir (load_prior True ex_dir) (1, lit ''bbbb'', [])]"
    by (intro conjunct2 [OF stale_answer_survives_invalidation [OF o(1) _ _ _ _ _ _ _ _ _ o(2)]])
      (simp_all add: ex_dir_def ex_entry_def)
  then show ?thesis by (simp only: ex_load) (simp add: answer_of_def ex_entry_def del: lookups.simps)
qed

lemma failed_spill_answers_null_witness:
  "snd (lookup_call (journal_append (\<lambda>v. 5000) NotWritten Written (ex_entry 2 ''eeee'' ''big'') ex_dir) 2
      (lit ''eeee'') [] (ex_prior (journal_append (\<lambda>v. 5000) NotWritten Written (ex_entry 2 ''eeee'' ''big'') ex_dir)))
     = Done JNull None"
proof -
  let ?e = "ex_entry 2 ''eeee'' ''big''"
  let ?d = "journal_append (\<lambda>v. 5000) NotWritten Written ?e ex_dir"
  have "journal_open True [] True True ?d = Some (?d, lit ''tok'', ex_prior ?d)"
    by (rule ex_open) (simp add: journal_append_def write_line_def write_result_def ex_dir_def ex_entry_def)
  from failed_spill_answers_null [OF _ _ _ _ _ _ this, of "JStr (lit ''big'')" "[]"]
  show ?thesis by (simp add: ex_dir_def ex_entry_def INLINE_RESULT_LIMIT_def)
qed

end
