(* ===== verification/Pending_Queue.thy ===== *)
theory Pending_Queue
  imports Delegation_Store "HOL-Library.Sublist"
begin

text \<open>
  The file-backed queue of user turns that wait for a session to become live
  (\<^verbatim>\<open>ccteam-im/src/pending_turns.rs\<close>, appended to through \<^verbatim>\<open>open_jsonl_append\<close> of
  \<^verbatim>\<open>ccteam-harness/src/execution/fs_atomic.rs\<close>). A line of the file is the turn it parses to, a
  row that does not parse, a line that is not UTF-8 (reading it fails) or blank; outcomes of
  file-system calls are inputs. The gateway lock serializes the
  operations.
\<close>

section \<open>Rows and the file\<close>

record pending_intent =
  pi_internal :: bool
  pi_routing :: turn_routing

record pending_turn =
  pt_text :: utext
  pt_enqueued_at :: utext
  pt_origin :: "utext option"
  pt_literal :: bool
  pt_intent :: pending_intent
  pt_request_id :: "req_id option"

datatype row = Row pending_turn | Unreadable | Garbled | Blank

text \<open>The rows that end with a line end, and a last row cut short, if any. No file is \<^verbatim>\<open>None\<close>.\<close>

record pending_file =
  pf_rows :: "row list"
  pf_cut :: "row option"

definition rows_of :: "pending_file option \<Rightarrow> row list" where
  "rows_of f = (case f of None \<Rightarrow> []
     | Some d \<Rightarrow> pf_rows d @ (case pf_cut d of Some r \<Rightarrow> [r] | None \<Rightarrow> []))"

text \<open>How reading the file goes: it cannot be opened, it reads, or a read fails after some lines. A
  failing read shows as a line that is an error, as one that is not UTF-8 does.\<close>

datatype reading = OpenRefused | Reads | ReadsOnly nat

definition lines_seen :: "reading \<Rightarrow> row list \<Rightarrow> row list" where
  "lines_seen rd rs = (case rd of Reads \<Rightarrow> rs | ReadsOnly k \<Rightarrow> take k rs @ [Garbled] | OpenRefused \<Rightarrow> [Garbled])"


text \<open>\<^verbatim>\<open>lines().map_while(Result::ok)\<close>: the lines before the first error, none without an open file.\<close>

definition lines_ok :: "reading \<Rightarrow> row list \<Rightarrow> row list" where
  "lines_ok rd rs = takeWhile (\<lambda>r. r \<noteq> Garbled) (lines_seen rd rs)"








definition non_blank :: "row list \<Rightarrow> row list" where
  "non_blank rs = filter (\<lambda>r. r \<noteq> Blank) rs"

text \<open>\<^verbatim>\<open>rposition\<close> of the line, and its removal.\<close>

definition carries :: "utext \<Rightarrow> row \<Rightarrow> bool" where
  "carries text r = (case r of Row t \<Rightarrow> pt_text t = text | _ \<Rightarrow> False)"

fun remove_last :: "('a \<Rightarrow> bool) \<Rightarrow> 'a list \<Rightarrow> 'a list option" where
  "remove_last P [] = None"
| "remove_last P (x # xs) = (case remove_last P xs of
       Some ys \<Rightarrow> Some (x # ys)
     | None \<Rightarrow> if P x then Some xs else None)"


definition delegated_id :: "row \<Rightarrow> req_id option" where
  "delegated_id r = (case r of Row t \<Rightarrow> pt_request_id t | _ \<Rightarrow> None)"


definition pending_turn_count :: "reading \<Rightarrow> pending_file option \<Rightarrow> nat" where
  "pending_turn_count rd f = (case f of None \<Rightarrow> 0 | Some d \<Rightarrow> length (non_blank (lines_ok rd (rows_of f))))"

record retained_pending =
  rp_request_ids :: "req_id list"
  rp_unattributed :: nat

definition retained_pending_of :: "reading \<Rightarrow> pending_file option \<Rightarrow> retained_pending" where
  "retained_pending_of rd f =
     (let rs = (case f of None \<Rightarrow> [] | Some d \<Rightarrow> non_blank (lines_ok rd (rows_of f))) in
      \<lparr> rp_request_ids = List.map_filter delegated_id rs,
        rp_unattributed = length (filter (\<lambda>r. delegated_id r = None) rs) \<rparr>)"

definition retained_holds :: "req_id \<Rightarrow> retained_pending \<Rightarrow> bool" where
  "retained_holds rid r \<longleftrightarrow> list_ex (\<lambda>i. i = rid) (rp_request_ids r)"

definition retained_is_empty :: "retained_pending \<Rightarrow> bool" where
  "retained_is_empty r \<longleftrightarrow> rp_request_ids r = [] \<and> rp_unattributed r = 0"

section \<open>The queue it implements\<close>

text \<open>The abstract queue: the readable turns in order.\<close>

fun turn_of :: "row \<Rightarrow> pending_turn option" where
  "turn_of (Row t) = Some t"
| "turn_of _ = None"



declare map_filter_append [simp]

lemma map_filter_Cons [simp]:
  "List.map_filter g [] = []"
  "List.map_filter g (x # xs) = (case g x of Some y \<Rightarrow> y # List.map_filter g xs | None \<Rightarrow> List.map_filter g xs)"
  by (simp_all add: List.map_filter_def split: option.split)



lemma turns_non_blank [simp]: "List.map_filter turn_of (non_blank rs) = List.map_filter turn_of rs"
  by (induction rs) (auto simp: non_blank_def split: option.split)

lemma rows_of_simps [simp]:
  "rows_of None = []"
  "rows_of (Some \<lparr> pf_rows = rs, pf_cut = None \<rparr>) = rs"
  by (simp_all add: rows_of_def)



lemma seen_simps [simp]:
  "lines_seen Reads rs = rs"
  "Garbled \<in> set (lines_seen (ReadsOnly k) rs)"
  "Garbled \<in> set (lines_seen OpenRefused rs)"
  by (simp_all add: lines_seen_def)




lemma remove_last_none: "remove_last P xs = None \<longleftrightarrow> list_all (\<lambda>x. \<not> P x) xs"
  by (induction xs) (auto split: option.splits)

lemma remove_last_some:
  "remove_last P xs = Some ys \<Longrightarrow> \<exists>as x bs. xs = as @ x # bs \<and> ys = as @ bs \<and> P x \<and> list_all (\<lambda>x. \<not> P x) bs"
proof (induction xs arbitrary: ys)
  case (Cons a xs)
  show ?case
  proof (cases "remove_last P xs")
    case None
    then have "P a" "ys = xs" using Cons.prems by (auto split: if_splits)
    moreover have "list_all (\<lambda>x. \<not> P x) xs" using None by (simp add: remove_last_none)
    ultimately show ?thesis by (intro exI [of _ "[]"] exI [of _ a] exI [of _ xs]) simp
  next
    case (Some zs)
    then obtain as x bs where z: "xs = as @ x # bs" "zs = as @ bs" "P x" "list_all (\<lambda>x. \<not> P x) bs"
      using Cons.IH by blast
    have "ys = a # zs" using Cons.prems Some by simp
    then show ?thesis using z by (intro exI [of _ "a # as"] exI [of _ x] exI [of _ bs]) simp
  qed
qed simp

text \<open>Taking the last row carrying a text takes the last such turn.\<close>

lemma carries_simps [simp]:
  "carries text (Row t) = (pt_text t = text)" "\<not> carries text Unreadable" "\<not> carries text Garbled" "\<not> carries text Blank"
  by (simp_all add: carries_def)




subsection \<open>Each operation\<close>











section \<open>Properties\<close>




text \<open>A stop asks the queue what is retained and cannot tell a failing read from an empty queue: one
  line torn inside a character hides every line after it.\<close>

theorem garbled_line_hides_the_rest:
  "rp_request_ids (retained_pending_of rd (Some \<lparr> pf_rows = Garbled # rs, pf_cut = None \<rparr>)) = []
   \<and> retained_is_empty (retained_pending_of OpenRefused f)"
  by (cases rd; cases f) (auto simp: retained_pending_of_def lines_ok_def lines_seen_def non_blank_def
      retained_is_empty_def Let_def take_Cons split: nat.split)

end
