(* ===== verification/Event_Ring.thy ===== *)
theory Event_Ring
  imports Prelude
begin

text \<open>
  The replay rings behind the web event streams (\<^verbatim>\<open>ccteam-web/src/ring.rs\<close>): a bounded backlog per
  session with sequence numbers that never restart, dropped for the least recently recorded session
  past a number of sessions, and one bounded ring over all sessions. The live tap a record is also
  sent to, a broadcast channel, is not modelled; the bookkeeping mutex makes each operation atomic.
\<close>

section \<open>Rings\<close>

definition RING_CAPACITY :: nat where
  "RING_CAPACITY = 64"

definition MAX_BUFFERED_SESSIONS :: nat where
  "MAX_BUFFERED_SESSIONS = 128"

definition GLOBAL_RING_CAPACITY :: nat where
  "GLOBAL_RING_CAPACITY = 256"

record 'e ring_entry =
  re_seq :: nat
  re_event :: 'e

record 'e ring_state =
  rs_next_seq :: nat
  rs_buf :: "'e ring_entry list"
  rs_last_record :: nat

definition empty_ring :: "'e ring_state" where
  "empty_ring = \<lparr> rs_next_seq = 0, rs_buf = [], rs_last_record = 0 \<rparr>"

text \<open>The map by session as a list of entries, one per session that ever recorded.\<close>

record 'e rings =
  rg_by_sid :: "(sid \<times> 'e ring_state) list"
  rg_clock :: nat
  rg_buffered :: nat

definition rings_new :: "'e rings" where
  "rings_new = \<lparr> rg_by_sid = [], rg_clock = 0, rg_buffered = 0 \<rparr>"

fun ring_update :: "sid \<Rightarrow> ('e ring_state \<Rightarrow> 'e ring_state) \<Rightarrow> (sid \<times> 'e ring_state) list
    \<Rightarrow> (sid \<times> 'e ring_state) list" where
  "ring_update s f [] = [(s, f empty_ring)]"
| "ring_update s f ((t, r) # rs) = (if t = s then (t, f r) # rs else (t, r) # ring_update s f rs)"

text \<open>\<^verbatim>\<open>entry(sid).or_default()\<close>.\<close>

definition ring_lookup :: "(sid \<times> 'e ring_state) list \<Rightarrow> sid \<Rightarrow> 'e ring_state" where
  "ring_lookup rs s = (case map_of rs s of Some r \<Rightarrow> r | None \<Rightarrow> empty_ring)"

definition ring_of :: "sid \<Rightarrow> 'e rings \<Rightarrow> 'e ring_state" where
  "ring_of s g = ring_lookup (rg_by_sid g) s"

definition push_entry :: "nat \<Rightarrow> nat \<Rightarrow> 'e \<Rightarrow> 'e ring_state \<Rightarrow> 'e ring_state" where
  "push_entry cap clock ev r =
     (let seq = rs_next_seq r + 1 in
      \<lparr> rs_next_seq = seq, rs_buf = drop_oldest cap (rs_buf r @ [\<lparr> re_seq = seq, re_event = ev \<rparr>]),
        rs_last_record = clock \<rparr>)"

text \<open>\<^verbatim>\<open>min_by_key\<close> over the sessions that hold a backlog.\<close>

fun oldest_buffered :: "(sid \<times> 'e ring_state) list \<Rightarrow> (sid \<times> nat) option" where
  "oldest_buffered [] = None"
| "oldest_buffered ((s, r) # rs) =
     (if rs_buf r = [] then oldest_buffered rs
      else (case oldest_buffered rs of
          None \<Rightarrow> Some (s, rs_last_record r)
        | Some (t, n) \<Rightarrow> if rs_last_record r \<le> n then Some (s, rs_last_record r) else Some (t, n)))"

definition drop_backlog :: "'e ring_state \<Rightarrow> 'e ring_state" where
  "drop_backlog r = r \<lparr> rs_buf := [] \<rparr>"

definition ring_record :: "sid \<Rightarrow> 'e \<Rightarrow> 'e rings \<Rightarrow> 'e rings \<times> nat" where
  "ring_record s ev g =
     (let clock = rg_clock g + 1;
          newly = (rs_buf (ring_of s g) = []);
          by_sid = ring_update s (push_entry RING_CAPACITY clock ev) (rg_by_sid g);
          seq = rs_next_seq (ring_of s g) + 1;
          buffered = rg_buffered g + (if newly then 1 else 0);
          g1 = \<lparr> rg_by_sid = by_sid, rg_clock = clock, rg_buffered = buffered \<rparr> in
      (if newly \<and> MAX_BUFFERED_SESSIONS < buffered
       then (case oldest_buffered by_sid of
               Some (t, n) \<Rightarrow> g1 \<lparr> rg_by_sid := ring_update t drop_backlog by_sid, rg_buffered := buffered - 1 \<rparr>
             | None \<Rightarrow> g1)
       else g1, seq))"

definition ring_replay :: "sid \<Rightarrow> nat \<Rightarrow> 'e rings \<Rightarrow> 'e ring_entry list" where
  "ring_replay s since g = filter (\<lambda>e. since < re_seq e) (rs_buf (ring_of s g))"

definition global_record :: "'e \<Rightarrow> 'e ring_state \<Rightarrow> 'e ring_state \<times> nat" where
  "global_record ev r =
     (let r' = push_entry GLOBAL_RING_CAPACITY (rs_last_record r) ev r in (r', rs_next_seq r'))"

definition global_replay :: "nat \<Rightarrow> 'e ring_state \<Rightarrow> 'e ring_entry list" where
  "global_replay since r = filter (\<lambda>e. since < re_seq e) (rs_buf r)"

section \<open>One ring\<close>

text \<open>What a ring shows of the events recorded for it: a newest part of them, numbered without gaps.\<close>

fun numbered :: "nat \<Rightarrow> 'e list \<Rightarrow> 'e ring_entry list" where
  "numbered n [] = []"
| "numbered n (e # es) = \<lparr> re_seq = n + 1, re_event = e \<rparr> # numbered (n + 1) es"

definition ring_shows :: "nat \<Rightarrow> 'e list \<Rightarrow> 'e ring_state \<Rightarrow> bool" where
  "ring_shows cap hist r \<longleftrightarrow> rs_next_seq r = length hist
     \<and> (\<exists>k \<le> length hist. length hist - k \<le> cap \<and> rs_buf r = numbered k (drop k hist))"

lemma numbered_append: "numbered n (xs @ [e]) = numbered n xs @ [\<lparr> re_seq = n + length xs + 1, re_event = e \<rparr>]"
  by (induction xs arbitrary: n) simp_all

lemma length_numbered [simp]: "length (numbered n es) = length es"
  by (induction es arbitrary: n) simp_all

lemma drop_numbered: "drop j (numbered n es) = numbered (n + j) (drop j es)"
proof (induction es arbitrary: n j)
  case (Cons e es)
  then show ?case by (cases j) simp_all
qed simp

lemma ring_shows_push:
  assumes "ring_shows cap hist r" "0 < cap"
  shows "ring_shows cap (hist @ [ev]) (push_entry cap clock ev r)"
proof -
  obtain k where k: "k \<le> length hist" "length hist - k \<le> cap" "rs_buf r = numbered k (drop k hist)"
    and n: "rs_next_seq r = length hist"
    using assms(1) by (auto simp: ring_shows_def)
  have b: "rs_buf r @ [\<lparr> re_seq = rs_next_seq r + 1, re_event = ev \<rparr>] = numbered k (drop k (hist @ [ev]))"
    using k n numbered_append [of k "drop k hist" ev] by simp
  let ?j = "length hist + 1 - k - cap"
  have "rs_buf (push_entry cap clock ev r) = drop ?j (numbered k (drop k (hist @ [ev])))"
    unfolding push_entry_def Let_def b using k(1) by (simp add: drop_oldest_def Suc_diff_le)
  also have "\<dots> = numbered (k + ?j) (drop (k + ?j) (hist @ [ev]))"
    by (simp only: drop_numbered drop_drop add.commute [of ?j k])
  finally have "rs_buf (push_entry cap clock ev r) = numbered (k + ?j) (drop (k + ?j) (hist @ [ev]))" .
  moreover have "k + ?j \<le> length (hist @ [ev])" "length (hist @ [ev]) - (k + ?j) \<le> cap"
    using k assms(2) by auto
  ultimately show ?thesis
    using n unfolding ring_shows_def by (auto simp: push_entry_def Let_def simp del: drop_append)
qed

lemma ring_shows_drop: "ring_shows cap hist r \<Longrightarrow> ring_shows cap hist (drop_backlog r)"
  by (auto simp: ring_shows_def drop_backlog_def intro!: exI [of _ "length hist"])

lemma ring_shows_empty [simp]: "ring_shows cap [] empty_ring"
  by (simp add: ring_shows_def empty_ring_def)

section \<open>All rings\<close>

text \<open>The events recorded for one session, in order.\<close>

definition history :: "sid \<Rightarrow> (sid \<times> 'e) list \<Rightarrow> 'e list" where
  "history s evs = map snd (filter (\<lambda>p. fst p = s) evs)"

definition record_all :: "(sid \<times> 'e) list \<Rightarrow> 'e rings" where
  "record_all evs = foldl (\<lambda>g (s, ev). fst (ring_record s ev g)) rings_new evs"

definition kept :: "'e ring_state \<Rightarrow> nat" where
  "kept r = (if rs_buf r = [] then 0 else 1)"

fun backlogs :: "(sid \<times> 'e ring_state) list \<Rightarrow> nat" where
  "backlogs [] = 0"
| "backlogs ((s, r) # rs) = kept r + backlogs rs"

lemma ring_lookup_simps [simp]:
  "ring_lookup [] s = empty_ring"
  "ring_lookup ((t, r) # rs) s = (if t = s then r else ring_lookup rs s)"
  by (simp_all add: ring_lookup_def)

lemma ring_lookup_update [simp]:
  "ring_lookup (ring_update s f rs) t = (if t = s then f (ring_lookup rs s) else ring_lookup rs t)"
proof (induction rs)
  case (Cons p rs)
  then show ?case by (cases p) auto
qed simp

lemma backlogs_update:
  "distinct (map fst rs) \<Longrightarrow>
    backlogs (ring_update s f rs) + kept (ring_lookup rs s) = backlogs rs + kept (f (ring_lookup rs s))"
proof (induction rs)
  case (Cons p rs)
  obtain t r where p: "p = (t, r)" by (cases p)
  show ?case
  proof (cases "t = s")
    case False
    have "backlogs (ring_update s f rs) + kept (ring_lookup rs s) = backlogs rs + kept (f (ring_lookup rs s))"
      using Cons by simp
    then show ?thesis using False p by simp
  qed (simp add: p)
qed (simp add: kept_def empty_ring_def)

lemma dom_ring_update: "fst ` set (ring_update s f rs) = insert s (fst ` set rs)"
proof (induction rs)
  case (Cons p rs)
  then show ?case by (cases p) (cases "fst p = s"; simp add: insert_commute)
qed simp

lemma ring_update_mem:
  "distinct (map fst rs) \<Longrightarrow> (t, q) \<in> set (ring_update s f rs) \<Longrightarrow>
     (t = s \<and> q = f (ring_lookup rs s)) \<or> (t \<noteq> s \<and> (t, q) \<in> set rs)"
proof (induction rs)
  case (Cons p rs)
  then show ?case by (cases p) (cases "fst p = s"; force)
qed simp

lemma distinct_ring_update: "distinct (map fst rs) \<Longrightarrow> distinct (map fst (ring_update s f rs))"
proof (induction rs)
  case (Cons p rs)
  then show ?case using dom_ring_update [of s f rs] by (cases p) auto
qed simp

lemma oldest_some:
  "oldest_buffered rs = Some (t, n) \<Longrightarrow> distinct (map fst rs) \<Longrightarrow> rs_buf (ring_lookup rs t) \<noteq> [] \<and> t \<in> fst ` set rs"
proof (induction rs arbitrary: t n)
  case (Cons p rs)
  obtain s r where p: "p = (s, r)" by (cases p)
  show ?case
  proof (cases "oldest_buffered rs")
    case None
    then show ?thesis using Cons.prems p by (auto split: if_splits)
  next
    case (Some q)
    obtain u m where q: "q = (u, m)" by (cases q)
    have u: "rs_buf (ring_lookup rs u) \<noteq> []" "u \<in> fst ` set rs"
      using Cons.IH Some q Cons.prems(2) by auto
    then have "u \<noteq> s" using Cons.prems(2) p by auto
    then show ?thesis using Cons.prems Some q p u by (auto split: if_splits)
  qed
qed simp

lemma oldest_least:
  "oldest_buffered rs = Some (t, n) \<Longrightarrow> distinct (map fst rs) \<Longrightarrow>
     rs_last_record (ring_lookup rs t) = n
     \<and> (\<forall>(u, r) \<in> set rs. rs_buf r \<noteq> [] \<longrightarrow> n \<le> rs_last_record r)"
proof (induction rs arbitrary: t n)
  case (Cons p rs)
  obtain s r where p: "p = (s, r)" by (cases p)
  show ?case
  proof (cases "oldest_buffered rs")
    case None
    then have "\<forall>(u, r) \<in> set rs. rs_buf r = []"
    proof (induction rs)
      case (Cons q rs)
      then show ?case by (cases q) (auto split: if_splits option.splits prod.splits)
    qed simp
    then show ?thesis using Cons.prems p None by (auto split: if_splits)
  next
    case (Some q)
    obtain u m where q: "q = (u, m)" by (cases q)
    have d: "distinct (map fst rs)" "s \<notin> fst ` set rs" using Cons.prems(2) p by auto
    have u: "rs_last_record (ring_lookup rs u) = m" "\<forall>(v, r) \<in> set rs. rs_buf r \<noteq> [] \<longrightarrow> m \<le> rs_last_record r"
      using Cons.IH [OF Some [unfolded q] d(1)] by auto
    have "u \<noteq> s" using oldest_some [OF Some [unfolded q] d(1)] d(2) by auto
    then show ?thesis using Cons.prems Some q p u by (fastforce split: if_splits)
  qed
qed simp

text \<open>With two backlogs there is one besides any given session's.\<close>

lemma another_backlog:
  "1 < backlogs rs \<Longrightarrow> distinct (map fst rs) \<Longrightarrow> \<exists>(u, r) \<in> set rs. u \<noteq> s \<and> rs_buf r \<noteq> []"
proof (induction rs)
  case (Cons p rs)
  obtain t r where p: "p = (t, r)" by (cases p)
  show ?case
  proof (cases "t \<noteq> s \<and> rs_buf r \<noteq> []")
    case True
    then show ?thesis using p by auto
  next
    case False
    show ?thesis
    proof (cases "t = s")
      case True
      have "0 < backlogs rs" using Cons.prems(1) p by (simp add: kept_def split: if_splits)
      then have "\<exists>(u, r) \<in> set rs. rs_buf r \<noteq> []"
      proof (induction rs)
        case (Cons q rs)
        then show ?case by (cases q) (auto simp: kept_def split: if_splits)
      qed simp
      then show ?thesis using Cons.prems(2) p True by force
    next
      case t: False
      then have "1 < backlogs rs" using Cons.prems(1) p False by (simp add: kept_def)
      then show ?thesis using Cons p by auto
    qed
  qed
qed simp

lemma oldest_none: "oldest_buffered rs = None \<Longrightarrow> backlogs rs = 0"
proof (induction rs)
  case (Cons p rs)
  then show ?case by (cases p) (auto simp: kept_def split: if_splits option.splits prod.splits)
qed simp

text \<open>The invariant of the bookkeeping.\<close>

definition rings_ok :: "(sid \<times> 'e) list \<Rightarrow> 'e rings \<Rightarrow> bool" where
  "rings_ok evs g \<longleftrightarrow> distinct (map fst (rg_by_sid g)) \<and> rg_buffered g = backlogs (rg_by_sid g)
     \<and> rg_buffered g \<le> MAX_BUFFERED_SESSIONS
     \<and> (\<forall>(t, r) \<in> set (rg_by_sid g). rs_last_record r \<le> rg_clock g) \<and> (\<forall>s. ring_shows RING_CAPACITY (history s evs) (ring_of s g))"

lemma ring_record_ok:
  fixes g :: "'e rings"
  assumes "rings_ok evs g" "ring_record s ev g = (g', seq)"
  shows "rings_ok (evs @ [(s, ev)]) g' \<and> seq = length (history s evs) + 1
    \<and> rs_buf (ring_of s g') = rs_buf (push_entry RING_CAPACITY (rg_clock g + 1) ev (ring_of s g))"
proof -
  let ?clock = "rg_clock g + 1" and ?r = "ring_of s g"
  let ?push = "push_entry RING_CAPACITY ?clock ev"
  let ?rs = "ring_update s ?push (rg_by_sid g)"
  let ?newly = "rs_buf ?r = []"
  let ?b = "rg_buffered g + (if ?newly then 1 else 0)"
  let ?g1 = "\<lparr> rg_by_sid = ?rs, rg_clock = ?clock, rg_buffered = ?b \<rparr>"
  have dist: "distinct (map fst (rg_by_sid g))" and buf: "rg_buffered g = backlogs (rg_by_sid g)"
    and le: "rg_buffered g \<le> MAX_BUFFERED_SESSIONS"
    and shows0: "ring_shows RING_CAPACITY (history t evs) (ring_of t g)" for t
    using assms(1) by (auto simp: rings_ok_def)
  have r: "ring_lookup (rg_by_sid g) s = ?r" by (simp add: ring_of_def)
  have old: "\<forall>(t, r) \<in> set (rg_by_sid g). rs_last_record r \<le> rg_clock g"
    using assms(1) by (simp add: rings_ok_def)
  have c1: "rs_last_record q \<le> ?clock \<and> (t \<noteq> s \<longrightarrow> rs_last_record q < ?clock)" if tq: "(t, q) \<in> set ?rs" for t q
  proof -
    have "(t, q) \<in> set (rg_by_sid g) \<Longrightarrow> rs_last_record q \<le> rg_clock g" using old by blast
    then show ?thesis using ring_update_mem [OF dist tq] by (auto simp: push_entry_def Let_def)
  qed
  have d1: "distinct (map fst ?rs)" by (rule distinct_ring_update [OF dist])
  have ne: "rs_buf (?push ?r) \<noteq> []"
    by (simp add: push_entry_def Let_def drop_oldest_def RING_CAPACITY_def)
  have b1: "backlogs ?rs = ?b"
    using backlogs_update [OF dist, of s ?push] ne unfolding r buf by (simp add: kept_def split: if_splits)
  have s1: "ring_shows RING_CAPACITY (history t (evs @ [(s, ev)]))
      (ring_lookup ?rs t)" for t
    using ring_shows_push [OF shows0 [of s], where ev = ev and clock = ?clock] shows0 [of t]
    by (simp add: history_def RING_CAPACITY_def ring_of_def)
  have seq: "seq = length (history s evs) + 1"
    using shows0 [of s] assms(2) by (auto simp: ring_record_def Let_def ring_shows_def split: if_splits option.splits)
  show ?thesis
  proof (cases "?newly \<and> MAX_BUFFERED_SESSIONS < ?b")
    case False
    then have g': "g' = ?g1" using assms(2) by (auto simp: ring_record_def Let_def)
    have "?b \<le> MAX_BUFFERED_SESSIONS" using False le by (auto split: if_splits)
    then show ?thesis
      using d1 b1 s1 seq c1 by (auto simp: rings_ok_def g' ring_of_def)
  next
    case True
    have "oldest_buffered ?rs \<noteq> None" using oldest_none [of ?rs] b1 True by fastforce
    then obtain t n where o: "oldest_buffered ?rs = Some (t, n)" by fastforce
    have q: "rs_buf (ring_lookup ?rs t) \<noteq> []" using oldest_some [OF o d1] by blast
    have g': "g' = ?g1 \<lparr> rg_by_sid := ring_update t drop_backlog ?rs, rg_buffered := ?b - 1 \<rparr>"
      using assms(2) True o by (auto simp: ring_record_def Let_def)
    have "t \<noteq> s"
    proof
      assume "t = s"
      then have n: "n = ?clock" using oldest_least [OF o d1] by (simp add: push_entry_def Let_def)
      obtain u q where u: "(u, q) \<in> set ?rs" "u \<noteq> s" "rs_buf q \<noteq> []"
        using another_backlog [OF _ d1, of s] b1 True by (auto simp: MAX_BUFFERED_SESSIONS_def)
      then have "n \<le> rs_last_record q" using oldest_least [OF o d1] by auto
      moreover have "rs_last_record q < ?clock" using c1 u by blast
      ultimately show False using n by simp
    qed
    have c2: "rs_last_record q \<le> ?clock" if uq: "(u, q) \<in> set (ring_update t drop_backlog ?rs)" for u q
    proof -
      have "rs_last_record (ring_lookup ?rs t) \<le> ?clock"
      proof -
        have "t \<in> fst ` set ?rs" using oldest_some [OF o d1] by blast
        then obtain q where "(t, q) \<in> set ?rs" by auto
        moreover from this have "ring_lookup ?rs t = q" using d1 by (simp add: ring_lookup_def)
        ultimately show ?thesis using c1 by blast
      qed
      moreover have "(u, q) \<in> set ?rs \<Longrightarrow> rs_last_record q \<le> ?clock" using c1 by blast
      ultimately show ?thesis using ring_update_mem [OF d1 uq] by (auto simp: drop_backlog_def)
    qed
    have b2: "backlogs (ring_update t drop_backlog ?rs) + 1 = ?b"
      using backlogs_update [OF d1, of t drop_backlog] q b1 by (simp add: drop_backlog_def kept_def)
    have "?b - 1 \<le> MAX_BUFFERED_SESSIONS" using le by (auto split: if_splits)
    moreover have "ring_shows RING_CAPACITY (history u (evs @ [(s, ev)]))
        (ring_lookup (ring_update t drop_backlog ?rs) u)" for u
      using s1 [of u] ring_shows_drop [OF s1 [of t]] by (simp del: ring_lookup_update add: ring_lookup_update [of t])
    ultimately show ?thesis
      using distinct_ring_update [OF d1] b2 seq c2 \<open>t \<noteq> s\<close> by (auto simp: rings_ok_def g' ring_of_def)
  qed
qed

lemma record_all_ok: "rings_ok evs (record_all evs)"
proof (induction evs rule: rev_induct)
  case Nil
  show ?case by (simp add: rings_ok_def record_all_def rings_new_def history_def ring_of_def)
next
  case (snoc p evs)
  obtain s ev where p: "p = (s, ev)" by (cases p)
  have "record_all (evs @ [p]) = fst (ring_record s ev (record_all evs))" by (simp add: record_all_def p)
  then show ?case using ring_record_ok [OF snoc, of s ev] p by (metis prod.collapse)
qed

lemma numbered_since:
  "filter (\<lambda>e. since < re_seq e) (numbered k es) = numbered (max k since) (drop (since - k) es)"
proof (induction es arbitrary: k)
  case (Cons e es)
  show ?case
  proof (cases "since \<le> k")
    case True
    have "filter (\<lambda>e. since < re_seq e) (numbered (k + 1) es) = numbered (k + 1) es"
      using Cons.IH [of "k + 1"] True by (simp add: max_def)
    then show ?thesis using True by (simp add: max_def)
  next
    case False
    then have "since - k = Suc (since - (k + 1))" by simp
    then show ?thesis using Cons.IH [of "k + 1"] False by (simp add: max_def)
  qed
qed simp

section \<open>Properties\<close>

text \<open>C29. Whatever sessions record in whatever order: a record is numbered one past everything its session
  ever recorded, numbers never restart, and a replay since a number the client saw returns, in order
  and correctly numbered, a suffix of the session's events after it; it leaves nothing out among the
  newest 64 unless the session's backlog was dropped; the event just recorded is always replayed, so the
  session recording is never the one dropped, and at most 128 sessions keep a backlog.\<close>

theorem replay_is_numbered_suffix:
  fixes evs :: "(sid \<times> 'e) list"
  shows "snd (ring_record s ev (record_all evs)) = length (history s evs) + 1
    \<and> (\<exists>k. ring_replay s since (record_all evs) = numbered (max k since) (drop (max k since) (history s evs))
         \<and> length (history s evs) - k \<le> RING_CAPACITY)
    \<and> ring_replay s (length (history s evs)) (fst (ring_record s ev (record_all evs)))
        = [\<lparr> re_seq = length (history s evs) + 1, re_event = ev \<rparr>]
    \<and> backlogs (rg_by_sid (record_all evs)) \<le> MAX_BUFFERED_SESSIONS"
proof -
  have ok: "rings_ok evs (record_all evs)" by (rule record_all_ok)
  obtain g' seq where rec: "ring_record s ev (record_all evs) = (g', seq)" by fastforce
  obtain k where k: "k \<le> length (history s evs)" "length (history s evs) - k \<le> RING_CAPACITY"
    "rs_buf (ring_of s (record_all evs)) = numbered k (drop k (history s evs))"
    using ok by (auto simp: rings_ok_def ring_shows_def)
  have "ring_replay s since (record_all evs) = numbered (max k since) (drop (since - k) (drop k (history s evs)))"
    by (simp only: ring_replay_def k(3) numbered_since)
  also have "drop (since - k) (drop k (history s evs)) = drop (max k since) (history s evs)"
    by (simp add: max_def)
  finally have "\<exists>k. ring_replay s since (record_all evs) = numbered (max k since) (drop (max k since) (history s evs))
      \<and> length (history s evs) - k \<le> RING_CAPACITY"
    using k(2) by blast
  moreover have "ring_replay s (length (history s evs)) g' = [\<lparr> re_seq = length (history s evs) + 1, re_event = ev \<rparr>]"
  proof -
    have n: "rs_next_seq (ring_of s (record_all evs)) = length (history s evs)"
      using ok by (auto simp: rings_ok_def ring_shows_def)
    have low: "filter (\<lambda>e. length (history s evs) < re_seq e) (numbered k (drop k (history s evs))) = []"
      using k(1) by (simp add: numbered_since)
    have push: "rs_buf (ring_of s g') = drop_oldest RING_CAPACITY (numbered k (drop k (history s evs))
        @ [\<lparr> re_seq = length (history s evs) + 1, re_event = ev \<rparr>])"
      using ring_record_ok [OF ok rec] by (simp add: push_entry_def Let_def n k(3))
    have "length (numbered k (drop k (history s evs))) + 1 - RING_CAPACITY \<le> length (numbered k (drop k (history s evs)))"
      by (simp add: RING_CAPACITY_def)
    then show ?thesis
      using low unfolding ring_replay_def push drop_oldest_def
      by (simp add: filter_empty_conv) (meson in_set_dropD)
  qed
  moreover have "snd (ring_record s ev (record_all evs)) = length (history s evs) + 1"
    "fst (ring_record s ev (record_all evs)) = g'"
    using ring_record_ok [OF ok rec] by (simp_all add: rec)
  moreover have "backlogs (rg_by_sid (record_all evs)) \<le> MAX_BUFFERED_SESSIONS"
    using ok by (simp add: rings_ok_def)
  ultimately show ?thesis by blast
qed

end
