(* ===== verification/Session_Activity.thy ===== *)
theory Session_Activity
  imports Prelude
begin

text \<open>
  What a session is doing, read from the progress journal and the daemon's own open turns
  (\<^verbatim>\<open>ccteam-core/src/stall.rs\<close>, the event readings of \<^verbatim>\<open>ccteam-core/src/progress.rs\<close>,
  \<^verbatim>\<open>ccteam-core/src/silence_classifier.rs\<close> and \<^verbatim>\<open>Gateway::live_turn\<close>). An event is a JSON value.
  Parsing an RFC 3339 time stamp is chrono's and a parameter here: nanoseconds since the epoch.
  Clocks are arguments.
\<close>

section \<open>Levels of silence\<close>

datatype stall_level = StallOk | StallWarn | StallSuspicious | StallEscalate

definition stall_level_as_str :: "stall_level \<Rightarrow> string" where
  "stall_level_as_str l = (case l of StallOk \<Rightarrow> ''ok'' | StallWarn \<Rightarrow> ''warn''
     | StallSuspicious \<Rightarrow> ''suspicious'' | StallEscalate \<Rightarrow> ''escalate'')"

text \<open>The order of urgency.\<close>

definition stall_rank :: "stall_level \<Rightarrow> nat" where
  "stall_rank l = (case l of StallOk \<Rightarrow> 0 | StallWarn \<Rightarrow> 1 | StallSuspicious \<Rightarrow> 2 | StallEscalate \<Rightarrow> 3)"

lemma stall_rank_inject [simp]: "stall_rank a = stall_rank b \<longleftrightarrow> a = b"
  by (cases a; cases b) (simp_all add: stall_rank_def)

instantiation stall_level :: linorder
begin

definition less_eq_stall_level :: "stall_level \<Rightarrow> stall_level \<Rightarrow> bool" where
  "less_eq_stall_level a b \<longleftrightarrow> stall_rank a \<le> stall_rank b"

definition less_stall_level :: "stall_level \<Rightarrow> stall_level \<Rightarrow> bool" where
  "less_stall_level a b \<longleftrightarrow> stall_rank a < stall_rank b"

instance
  by standard (auto simp: less_eq_stall_level_def less_stall_level_def)

end

definition STALL_WARN_SECONDS :: nat where "STALL_WARN_SECONDS = 5 * 60"
definition STALL_SUSPICIOUS_SECONDS :: nat where "STALL_SUSPICIOUS_SECONDS = 15 * 60"
definition STALL_ESCALATE_SECONDS :: nat where "STALL_ESCALATE_SECONDS = 30 * 60"

record stall_thresholds =
  warn_seconds :: nat
  suspicious_seconds :: nat
  escalate_seconds :: nat

definition default_thresholds :: stall_thresholds where
  "default_thresholds = \<lparr> warn_seconds = STALL_WARN_SECONDS, suspicious_seconds = STALL_SUSPICIOUS_SECONDS,
     escalate_seconds = STALL_ESCALATE_SECONDS \<rparr>"

text \<open>The products are \<^verbatim>\<open>u64\<close> products; they wrap in a release build.\<close>

definition u64 :: "nat \<Rightarrow> nat" where
  "u64 n = n mod 2 ^ 64"

definition from_phase :: "nat option \<Rightarrow> stall_thresholds" where
  "from_phase minutes = (case minutes of
       Some n \<Rightarrow> \<lparr> warn_seconds = u64 (n * 60), suspicious_seconds = u64 (u64 (n * 60) * 3),
                 escalate_seconds = u64 (u64 (n * 60) * 6) \<rparr>
     | None \<Rightarrow> default_thresholds)"

definition warn_minutes :: "stall_thresholds \<Rightarrow> nat" where "warn_minutes t = warn_seconds t div 60"
definition suspicious_minutes :: "stall_thresholds \<Rightarrow> nat" where "suspicious_minutes t = suspicious_seconds t div 60"
definition escalate_minutes :: "stall_thresholds \<Rightarrow> nat" where "escalate_minutes t = escalate_seconds t div 60"

definition classify_with_thresholds :: "nat \<Rightarrow> stall_thresholds \<Rightarrow> stall_level" where
  "classify_with_thresholds silent t =
     (if escalate_seconds t \<le> silent then StallEscalate
      else if suspicious_seconds t \<le> silent then StallSuspicious
      else if warn_seconds t \<le> silent then StallWarn
      else StallOk)"

definition classify_silence :: "nat \<Rightarrow> stall_level" where
  "classify_silence silent = classify_with_thresholds silent default_thresholds"

section \<open>Reading events\<close>

text \<open>The two generations of the session field.\<close>

definition event_sid :: "json \<Rightarrow> utext option" where
  "event_sid e = (case json_str ''sid'' e of Some t \<Rightarrow> Some t | None \<Rightarrow> json_str ''session_id'' e)"

definition event_kind_of :: "json \<Rightarrow> utext" where
  "event_kind_of e = (case json_str ''event'' e of Some t \<Rightarrow> t | None \<Rightarrow> [])"

definition event_tool :: "json \<Rightarrow> utext option" where
  "event_tool e = json_str ''tool'' e"

definition idle_kinds :: "string list" where
  "idle_kinds = [''Stop'', ''SubagentStop'', ''notification'', ''session_start'', ''SessionEnd'', ''phase_done'',
     ''escalate'', ''chat_turn_completed'', ''chat_session_started'', ''chat_session_reset'',
     ''chat_session_reset_with_recovery'', ''chat_compact_done'', ''session_evicted'',
     ''session_stream_detached'', ''session_stream_reattached'', ''session_body_detached'', ''session_body_exited'']"

definition is_idle :: "json option \<Rightarrow> bool" where
  "is_idle last_event = (case last_event of None \<Rightarrow> True
     | Some e \<Rightarrow> event_kind_of e \<in> set (map lit idle_kinds))"

text \<open>\<^verbatim>\<open>last_event_for_sid\<close> over the parsed events.\<close>

definition last_event_for_sid :: "json list \<Rightarrow> utext \<Rightarrow> json option" where
  "last_event_for_sid events s =
     (if s = [] then None else find (\<lambda>e. event_sid e = Some s) (rev events))"

text \<open>The windows of sub-agents, scanned from the tail: a stop seen first closes the next task before it.\<close>

fun scan_windows :: "nat \<Rightarrow> json list \<Rightarrow> bool" where
  "scan_windows pending [] = False"
| "scan_windows pending (e # older) =
     (if event_kind_of e = lit ''SubagentStop'' then scan_windows (pending + 1) older
      else if event_kind_of e = lit ''PreToolUse'' \<and> event_tool e = Some (lit ''Task'')
      then (if pending = 0 then True else scan_windows (pending - 1) older)
      else scan_windows pending older)"

definition subagent_active :: "json list \<Rightarrow> bool" where
  "subagent_active events = scan_windows 0 (rev events)"

definition idle_aware_message :: "utext \<Rightarrow> bool \<Rightarrow> utext" where
  "idle_aware_message prompt idle = (if idle then prompt else lit ''/btw '' @ prompt)"

section \<open>Activity of a session\<close>

record progress_stall_status =
  ps_level :: string
  ps_verdict :: string
  ps_activity :: string

record progress_activity_status =
  pa_status :: progress_stall_status
  pa_event_age :: "nat option"
  pa_last_activity :: "nat option"

definition stuck_status :: progress_stall_status where
  "stuck_status = \<lparr> ps_level = ''stuck'', ps_verdict = ''STUCK'', ps_activity = ''stuck'' \<rparr>"

definition is_stuck_event :: "json \<Rightarrow> bool" where
  "is_stuck_event e \<longleftrightarrow> json_str ''event'' e = Some (lit ''chat_turn_timeout'') \<or> json_bool ''stuck'' e = Some True"

definition classify_progress_stall :: "json option \<Rightarrow> nat \<Rightarrow> progress_stall_status" where
  "classify_progress_stall last_event silent =
     (if (case last_event of None \<Rightarrow> False | Some e \<Rightarrow> is_stuck_event e) then stuck_status
      else (let warn = STALL_WARN_SECONDS \<le> silent in
        \<lparr> ps_level = (if warn then ''warn'' else ''ok''),
          ps_verdict = (if warn then ''warn'' else ''OK''),
          ps_activity = (if is_idle last_event then ''idle'' else if warn then ''stale'' else ''working'') \<rparr>))"

text \<open>The age in whole seconds, never negative; times are nanoseconds.\<close>

definition progress_event_age_seconds :: "(utext \<Rightarrow> int option) \<Rightarrow> json \<Rightarrow> int \<Rightarrow> nat option" where
  "progress_event_age_seconds parse_ts e now =
     Option.bind (json_str ''ts'' e) (\<lambda>raw. map_option (\<lambda>ts. nat ((now - ts) div 10 ^ 9)) (parse_ts raw))"

definition classify_progress_activity ::
  "(utext \<Rightarrow> int option) \<Rightarrow> json option \<Rightarrow> nat \<Rightarrow> int \<Rightarrow> progress_activity_status" where
  "classify_progress_activity parse_ts selected fallback now =
     (let age = Option.bind selected (\<lambda>e. progress_event_age_seconds parse_ts e now);
          status = classify_progress_stall selected (case age of None \<Rightarrow> fallback | Some a \<Rightarrow> a) in
      \<lparr> pa_status = status, pa_event_age = age,
        pa_last_activity = (if ps_activity status = ''working'' then None else age) \<rparr>)"

text \<open>The event one session is judged by: its own newest, else the tail of the file when that belongs to
  no session.\<close>

definition select_event :: "json list \<Rightarrow> utext \<Rightarrow> json option" where
  "select_event events s =
     (let fallback = (case rev events of [] \<Rightarrow> None | e # _ \<Rightarrow> if event_sid e = None then Some e else None);
          own = (if s = [] then None else find (\<lambda>e. event_sid e = Some s) (rev events)) in
      case own of Some e \<Rightarrow> Some e | None \<Rightarrow> fallback)"

definition classify_progress_activity_for_sid ::
  "(utext \<Rightarrow> int option) \<Rightarrow> json list \<Rightarrow> utext \<Rightarrow> nat \<Rightarrow> int \<Rightarrow> progress_activity_status" where
  "classify_progress_activity_for_sid parse_ts events s fallback now =
     classify_progress_activity parse_ts (select_event events s) fallback now"

record live_turn =
  lt_silent :: nat
  lt_elapsed :: nat
  lt_stuck_after :: nat

definition live_is_stuck :: "live_turn \<Rightarrow> bool" where
  "live_is_stuck l \<longleftrightarrow> lt_stuck_after l \<le> lt_silent l"

definition working_status :: progress_stall_status where
  "working_status = \<lparr> ps_level = ''ok'', ps_verdict = ''OK'', ps_activity = ''working'' \<rparr>"

definition classify_session_activity ::
  "(utext \<Rightarrow> int option) \<Rightarrow> json list \<Rightarrow> utext \<Rightarrow> nat \<Rightarrow> live_turn option \<Rightarrow> int \<Rightarrow> progress_activity_status" where
  "classify_session_activity parse_ts events s fallback live now =
     (let base = classify_progress_activity_for_sid parse_ts events s fallback now in
      case live of
        None \<Rightarrow> base
      | Some l \<Rightarrow>
          (if ps_activity (pa_status base) = ''stuck'' then base
           else if live_is_stuck l
           then \<lparr> pa_status = stuck_status, pa_event_age = pa_event_age base, pa_last_activity = Some (lt_silent l) \<rparr>
           else \<lparr> pa_status = working_status, pa_event_age = pa_event_age base, pa_last_activity = None \<rparr>))"

text \<open>\<^verbatim>\<open>Gateway::live_turn\<close>: instants and durations in milliseconds. The watchdog window comes from the
  environment; zero stands for no watchdog.\<close>

definition live_turn_of :: "nat option \<Rightarrow> nat option \<Rightarrow> nat \<Rightarrow> nat \<Rightarrow> live_turn option" where
  "live_turn_of started last_event window now = (case started of
       None \<Rightarrow> None
     | Some st \<Rightarrow>
         (let baseline = (case last_event of None \<Rightarrow> st | Some ev \<Rightarrow> max ev st);
              stuck_after = (if window = 0 then 300 * 1000 else window) in
          Some \<lparr> lt_silent = (now - baseline) div 1000, lt_elapsed = (now - st) div 1000,
                 lt_stuck_after = stuck_after div 1000 \<rparr>))"

definition gateway_turn_timeout :: "nat option \<Rightarrow> nat" where
  "gateway_turn_timeout env_ms = (case env_ms of None \<Rightarrow> 300000 | Some ms \<Rightarrow> ms)"

section \<open>Silence of a project\<close>

datatype silence_class = Healthy | Terminal | SubagentBusy | SubagentRunaway | MidToolHung utext | PostStopLimbo | InjectLimbo

definition silence_discriminant :: "silence_class \<Rightarrow> string" where
  "silence_discriminant c = (case c of Healthy \<Rightarrow> ''healthy'' | Terminal \<Rightarrow> ''terminal'' | SubagentBusy \<Rightarrow> ''subagent_busy''
     | SubagentRunaway \<Rightarrow> ''subagent_runaway'' | MidToolHung _ \<Rightarrow> ''mid_tool_hung'' | PostStopLimbo \<Rightarrow> ''post_stop_limbo''
     | InjectLimbo \<Rightarrow> ''inject_limbo'')"

datatype limbo_action = NoOp | EnrichedEscalate | DeterministicReinject

definition limbo_action_of :: "silence_class \<Rightarrow> limbo_action" where
  "limbo_action_of c = (case c of Healthy \<Rightarrow> NoOp | Terminal \<Rightarrow> NoOp | SubagentBusy \<Rightarrow> NoOp
     | SubagentRunaway \<Rightarrow> EnrichedEscalate | MidToolHung _ \<Rightarrow> EnrichedEscalate
     | PostStopLimbo \<Rightarrow> DeterministicReinject | InjectLimbo \<Rightarrow> DeterministicReinject)"

definition is_skipped_event :: "json \<Rightarrow> bool" where
  "is_skipped_event e \<longleftrightarrow>
     event_kind_of e \<in> set (map lit [''inbox_consumed'', ''golden_rules_check'', ''session_start'', ''SessionEnd''])"

definition classify_events :: "json list \<Rightarrow> nat \<Rightarrow> stall_thresholds \<Rightarrow> silence_class" where
  "classify_events events silent t = (case find (\<lambda>e. \<not> is_skipped_event e) (rev events) of
       None \<Rightarrow> Healthy
     | Some e \<Rightarrow>
         (let kind = event_kind_of e; warn = warn_seconds t \<le> silent; escalate = escalate_seconds t \<le> silent in
          if kind = lit ''phase_done'' \<or> kind = lit ''escalate'' then Terminal
          else if kind = lit ''PreToolUse'' then
            (let tool = (case event_tool e of Some x \<Rightarrow> x | None \<Rightarrow> []) in
             if tool = lit ''Task'' then (if escalate then SubagentRunaway else SubagentBusy)
             else if warn then MidToolHung tool else Healthy)
          else if kind = lit ''Stop'' \<or> kind = lit ''SubagentStop'' then (if warn then PostStopLimbo else Healthy)
          else if kind = lit ''phase_inject'' then (if warn then InjectLimbo else Healthy)
          else Healthy))"

section \<open>What the readings promise\<close>

text \<open>The windows counted forwards: a task opens one, a stop closes one if any is open.\<close>

fun open_windows :: "nat \<Rightarrow> json list \<Rightarrow> nat" where
  "open_windows n [] = n"
| "open_windows n (e # es) =
     (if event_kind_of e = lit ''SubagentStop'' then open_windows (n - 1) es
      else if event_kind_of e = lit ''PreToolUse'' \<and> event_tool e = Some (lit ''Task'') then open_windows (n + 1) es
      else open_windows n es)"

lemma open_windows_append: "open_windows n (xs @ ys) = open_windows (open_windows n xs) ys"
  by (induction xs arbitrary: n) auto

lemma scan_windows_open: "scan_windows p (rev es) \<longleftrightarrow> p < open_windows 0 es"
proof (induction es arbitrary: p rule: rev_induct)
  case (snoc e es)
  consider "event_kind_of e = lit ''SubagentStop''"
    | "event_kind_of e \<noteq> lit ''SubagentStop''" "event_kind_of e = lit ''PreToolUse'' \<and> event_tool e = Some (lit ''Task'')"
    | "event_kind_of e \<noteq> lit ''SubagentStop''" "\<not> (event_kind_of e = lit ''PreToolUse'' \<and> event_tool e = Some (lit ''Task''))"
    by blast
  then show ?case
  proof cases
    case 1
    then show ?thesis using snoc [of "p + 1"] by (simp add: open_windows_append) linarith
  next
    case 2
    then show ?thesis using snoc [of "p - 1"] by (simp add: open_windows_append) linarith
  next
    case 3
    then show ?thesis using snoc [of p] by (simp only: rev_append rev.simps append.simps scan_windows.simps
        open_windows_append open_windows.simps if_False)
  qed
qed simp

text \<open>The tail scan for a running sub-agent agrees with counting the windows from the start of the
  journal: it reports one exactly when some task is still open after every stop has closed the
  newest open window.\<close>

theorem subagent_scan_counts_windows: "subagent_active events = (0 < open_windows 0 events)"
  by (simp add: subagent_active_def scan_windows_open)

text \<open>How much work an activity word reports.\<close>

definition activity_rank :: "string \<Rightarrow> nat" where
  "activity_rank a = (if a = ''idle'' then 0 else if a = ''stale'' then 1 else if a = ''working'' then 2 else 3)"

lemma progress_stall_activity:
  "ps_activity (classify_progress_stall sel age) =
     (if (case sel of None \<Rightarrow> False | Some e \<Rightarrow> is_stuck_event e) then ''stuck''
      else if is_idle sel then ''idle'' else if STALL_WARN_SECONDS \<le> age then ''stale'' else ''working'')"
  by (simp add: classify_progress_stall_def stuck_status_def Let_def)

text \<open>The verdict with a live turn, over the verdict without one.\<close>

lemma live_turn_folds:
  fixes parse_ts events s fallback now
  defines "base \<equiv> classify_session_activity parse_ts events s fallback None now"
  shows "activity_rank (ps_activity (pa_status base))
      \<le> activity_rank (ps_activity (pa_status (classify_session_activity parse_ts events s fallback live now)))
    \<and> (ps_activity (pa_status base) \<noteq> ''stuck'' \<or> classify_session_activity parse_ts events s fallback live now = base)
    \<and> (ps_activity (pa_status (classify_session_activity parse_ts events s fallback live now)) = ''stuck'')
        = ((case select_event events s of None \<Rightarrow> False | Some e \<Rightarrow> is_stuck_event e)
           \<or> (case live of None \<Rightarrow> False | Some l \<Rightarrow> live_is_stuck l))
    \<and> (live = None \<or> ps_activity (pa_status (classify_session_activity parse_ts events s fallback live now))
        \<in> {''working'', ''stuck''})"
proof -
  have "classify_session_activity parse_ts events s fallback None now
      = classify_progress_activity_for_sid parse_ts events s fallback now"
    by (simp add: classify_session_activity_def Let_def)
  then have bb: "base = classify_progress_activity_for_sid parse_ts events s fallback now" by (simp add: base_def)
  have a: "ps_activity (pa_status base) = (if (case select_event events s of None \<Rightarrow> False | Some e \<Rightarrow> is_stuck_event e)
      then ''stuck'' else if is_idle (select_event events s) then ''idle''
      else if STALL_WARN_SECONDS \<le> (case pa_event_age base of None \<Rightarrow> fallback | Some x \<Rightarrow> x) then ''stale'' else ''working'')"
    by (simp add: bb classify_progress_activity_for_sid_def
        classify_progress_activity_def progress_stall_activity Let_def)
  have r: "classify_session_activity parse_ts events s fallback live now = (case live of None \<Rightarrow> base
     | Some l \<Rightarrow> (if ps_activity (pa_status base) = ''stuck'' then base
        else if live_is_stuck l
        then \<lparr> pa_status = stuck_status, pa_event_age = pa_event_age base, pa_last_activity = Some (lt_silent l) \<rparr>
        else \<lparr> pa_status = working_status, pa_event_age = pa_event_age base, pa_last_activity = None \<rparr>))"
    by (cases live) (simp_all add: classify_session_activity_def bb Let_def)
  show ?thesis
  proof (cases live)
    case None
    then show ?thesis unfolding r by (simp add: a)
  next
    case (Some l)
    have "activity_rank (ps_activity (pa_status base)) \<le> 2 \<or> ps_activity (pa_status base) = ''stuck''"
      unfolding a by (simp add: activity_rank_def)
    moreover have "classify_session_activity parse_ts events s fallback (Some l) now =
        (if ps_activity (pa_status base) = ''stuck'' then base
         else if live_is_stuck l
         then \<lparr> pa_status = stuck_status, pa_event_age = pa_event_age base, pa_last_activity = Some (lt_silent l) \<rparr>
         else \<lparr> pa_status = working_status, pa_event_age = pa_event_age base, pa_last_activity = None \<rparr>)"
      using r by (simp only: Some option.case)
    moreover have "(ps_activity (pa_status base) = ''stuck'')
        = (case select_event events s of None \<Rightarrow> False | Some e \<Rightarrow> is_stuck_event e)"
      unfolding a by simp
    ultimately show ?thesis
      unfolding Some option.case
      by (auto simp: activity_rank_def stuck_status_def working_status_def)
  qed
qed

text \<open>The daemon's open turn can only add work to what the file reports, never hide any: the verdict
  with a live turn ranks at least as high as the file's, a stuck file stays exactly as it was, and
  the word is stuck in no other case than a stuck event or a turn silent for a full window. Age
  alone never makes a session stuck.\<close>

theorem live_turn_never_hides_work:
  "activity_rank (ps_activity (pa_status (classify_session_activity parse_ts events s fallback None now)))
      \<le> activity_rank (ps_activity (pa_status (classify_session_activity parse_ts events s fallback live now)))
    \<and> (ps_activity (pa_status (classify_session_activity parse_ts events s fallback None now)) \<noteq> ''stuck'' \<or> classify_session_activity parse_ts events s fallback live now = (classify_session_activity parse_ts events s fallback None now))
    \<and> (ps_activity (pa_status (classify_session_activity parse_ts events s fallback live now)) = ''stuck'')
        = ((case select_event events s of None \<Rightarrow> False | Some e \<Rightarrow> is_stuck_event e)
           \<or> (case live of None \<Rightarrow> False | Some l \<Rightarrow> live_is_stuck l))
    \<and> (live = None \<or> ps_activity (pa_status (classify_session_activity parse_ts events s fallback live now))
        \<in> {''working'', ''stuck''})"
  by (rule live_turn_folds)

theorem live_turn_never_hides_work_witness:
  "ps_activity (pa_status (classify_session_activity (\<lambda>_. None) [] (lit ''s1'') 0
     (Some \<lparr> lt_silent = 9, lt_elapsed = 9, lt_stuck_after = 5 \<rparr>) 0)) = ''stuck''"
  using live_turn_never_hides_work [of "\<lambda>_. None" "[]" "lit ''s1''" 0 0
     "Some \<lparr> lt_silent = 9, lt_elapsed = 9, lt_stuck_after = 5 \<rparr>"]
  by (simp add: select_event_def live_is_stuck_def)

text \<open>A turn is never born stuck: with a window of whole seconds, a turn that has been open for less than
  the window does not read as silent for one, whatever the previous turn's last event was, and
  silence never exceeds the age of the turn.\<close>

theorem fresh_turn_is_not_stuck:
  assumes "live_turn_of (Some st) last_event window now = Some l"
    "window mod 1000 = 0" "now < st + (if window = 0 then 300000 else window)"
  shows "\<not> live_is_stuck l \<and> lt_silent l \<le> lt_elapsed l
    \<and> ps_activity (pa_status (classify_session_activity parse_ts [] s fallback (Some l) t)) = ''working''"
proof -
  let ?w = "if window = 0 then 300000 else window"
  have w: "1000 dvd ?w" "0 < ?w" using assms(2) by (auto simp: dvd_eq_mod_eq_0)
  then obtain k where k: "?w = 1000 * k" by (auto simp: dvd_def)
  define b where "b = (case last_event of None \<Rightarrow> st | Some ev \<Rightarrow> max ev st)"
  have b: "st \<le> b" by (simp add: b_def split: option.split)
  have l: "l = \<lparr> lt_silent = (now - b) div 1000, lt_elapsed = (now - st) div 1000, lt_stuck_after = k \<rparr>"
  proof -
    have "(if window = 0 then 300 * 1000 else window) div 1000 = k" using k by (auto split: if_splits)
    then show ?thesis using assms(1) by (simp add: live_turn_of_def b_def Let_def)
  qed
  have lt: "now < st + 1000 * k" using assms(3) k by simp
  have "now - b < 1000 * k" using lt b w(2) k by linarith
  then have "(now - b) div 1000 < k" by (simp add: less_mult_imp_div_less mult.commute)
  then have ns: "\<not> live_is_stuck l" by (simp add: l live_is_stuck_def)
  moreover have "lt_silent l \<le> lt_elapsed l" using b by (simp add: l div_le_mono)
  ultimately show ?thesis
    by (simp add: classify_session_activity_def classify_progress_activity_for_sid_def select_event_def
        classify_progress_activity_def classify_progress_stall_def is_idle_def working_status_def Let_def)
qed

theorem fresh_turn_is_not_stuck_witness:
  "ps_activity (pa_status (classify_session_activity (\<lambda>_. None) [] (lit ''s1'') 0
     (live_turn_of (Some 5000) (Some 10) 2000 6999) 0)) = ''working''"
proof -
  have h: "live_turn_of (Some 5000) (Some 10) 2000 6999 = Some \<lparr> lt_silent = 1, lt_elapsed = 1, lt_stuck_after = 2 \<rparr>"
    by (simp add: live_turn_of_def)
  show ?thesis using fresh_turn_is_not_stuck [OF h, of "\<lambda>_. None" "lit ''s1''" 0 0] h by simp
qed

text \<open>A watchdog window below one second, which the environment variable may set, rounds to zero seconds:
  every turn reads as stuck from the moment it is submitted.\<close>

theorem sub_second_window_is_stuck_at_once:
  assumes "0 < ms" "ms < 1000"
  shows "\<exists>l. live_turn_of (Some st) last_event (gateway_turn_timeout (Some ms)) now = Some l \<and> live_is_stuck l"
  using assms by (simp add: live_turn_of_def gateway_turn_timeout_def live_is_stuck_def Let_def)

theorem sub_second_window_is_stuck_at_once_witness:
  "\<exists>l. live_turn_of (Some 7) None (gateway_turn_timeout (Some 500)) 7 = Some l \<and> live_is_stuck l"
  using sub_second_window_is_stuck_at_once [of 500 7 None 7] by simp

text \<open>The silence classifier acts only on silence: bookkeeping events written after the last real one do
  not change its verdict, and no class asks for an action before the warning threshold, nor for a
  sub-agent before the escalation threshold.\<close>

theorem silence_acts_only_on_silence:
  assumes "list_all is_skipped_event later" "warn_seconds t \<le> escalate_seconds t"
  shows "classify_events (events @ later) silent t = classify_events events silent t
    \<and> (limbo_action_of (classify_events events silent t) = NoOp \<or> warn_seconds t \<le> silent)
    \<and> (classify_events events silent t \<noteq> SubagentRunaway \<or> escalate_seconds t \<le> silent)"
proof -
  have f: "find (\<lambda>e. \<not> is_skipped_event e) (rev (events @ later)) = find (\<lambda>e. \<not> is_skipped_event e) (rev events)"
    using assms(1) by (induction later rule: rev_induct) auto
  then show ?thesis
    using assms(2)
    by (cases "find (\<lambda>e. \<not> is_skipped_event e) (rev events)")
      (simp_all add: classify_events_def limbo_action_of_def Let_def)
qed

theorem silence_acts_only_on_silence_witness:
  "classify_events ([JObj [(lit ''event'', JStr (lit ''Stop''))]] @ [JObj [(lit ''event'', JStr (lit ''SessionEnd''))]]) 300
     default_thresholds = PostStopLimbo"
proof -
  have h: "list_all is_skipped_event [JObj [(lit ''event'', JStr (lit ''SessionEnd''))]]"
    "warn_seconds default_thresholds \<le> escalate_seconds default_thresholds"
    by (simp_all add: is_skipped_event_def event_kind_of_def json_str_def json_get_def default_thresholds_def
        STALL_WARN_SECONDS_def STALL_ESCALATE_SECONDS_def)
  have "classify_events [JObj [(lit ''event'', JStr (lit ''Stop''))]] 300 default_thresholds = PostStopLimbo"
    by (simp add: classify_events_def is_skipped_event_def event_kind_of_def json_str_def json_get_def
        default_thresholds_def STALL_WARN_SECONDS_def)
  then show ?thesis using silence_acts_only_on_silence [OF h, of "[JObj [(lit ''event'', JStr (lit ''Stop''))]]" 300] by simp
qed

text \<open>Longer silence is never less urgent, while the products of the thresholds fit.\<close>

lemma from_phase_fits:
  assumes "n * 360 < 2 ^ 64"
  shows "from_phase (Some n) = \<lparr> warn_seconds = n * 60, suspicious_seconds = n * 180, escalate_seconds = n * 360 \<rparr>"
  using assms by (simp add: from_phase_def u64_def)

lemma longer_silence_is_no_less_urgent:
  assumes "warn_seconds t \<le> suspicious_seconds t" "suspicious_seconds t \<le> escalate_seconds t" "a \<le> b"
  shows "classify_with_thresholds a t \<le> classify_with_thresholds b t"
  using assms by (auto simp: classify_with_thresholds_def less_eq_stall_level_def stall_rank_def)

end
