(* ===== verification/Jsonl_Journal.thy ===== *)
theory Jsonl_Journal
  imports Prelude "HOL-Library.Sublist"
begin

text \<open>
  The corruption-tolerant readers of append-only JSONL journals
  (\<^verbatim>\<open>ccteam-harness/src/execution/journal.rs\<close>): the forward scan, the delta after a byte
  checkpoint, the backwards tail that reads the file in blocks of 8 KiB from its end, and the
  cached folds, with the contract a fold has to keep (\<^verbatim>\<open>tracked_fold\<close>). A file is the list of its bytes. \<^verbatim>\<open>serde_json::from_slice\<close> is the parameter
  \<^verbatim>\<open>parse\<close>. The process-wide diagnostic counters are not kept; the bytes one walk read are
  returned, because the byte budget is stated over them.
\<close>

section \<open>Bytes and lines\<close>

type_synonym bytes = "nat list"

text \<open>Opening a file for reading: it may be missing, unreadable, or hold bytes.\<close>

datatype file_view = Missing | Unreadable | Content bytes

definition READ_BLOCK_SIZE :: nat where
  "READ_BLOCK_SIZE = 8 * 1024"

definition U64_MAX :: nat where
  "U64_MAX = 2 ^ 64 - 1"

definition is_ascii_whitespace :: "nat \<Rightarrow> bool" where
  "is_ascii_whitespace b \<longleftrightarrow> b = 32 \<or> b = 9 \<or> b = 10 \<or> b = 12 \<or> b = 13"

definition trim_ascii :: "bytes \<Rightarrow> bytes" where
  "trim_ascii bs = rev (dropWhile is_ascii_whitespace (rev (dropWhile is_ascii_whitespace bs)))"

text \<open>\<^verbatim>\<open>BufRead::read_until\<close>: the bytes up to and with the delimiter, and what is left.\<close>

fun read_until :: "nat \<Rightarrow> bytes \<Rightarrow> bytes \<times> bytes" where
  "read_until d [] = ([], [])"
| "read_until d (b # bs) =
     (if b = d then ([b], bs) else (let (raw, rest) = read_until d bs in (b # raw, rest)))"

lemma read_until_append: "fst (read_until d bs) @ snd (read_until d bs) = bs"
  by (induction bs) (auto simp: case_prod_beta)

lemma read_until_first: "d \<notin> set a \<Longrightarrow> read_until d (a @ d # b) = (a @ [d], b)"
  by (induction a) auto

lemma read_until_none: "d \<notin> set a \<Longrightarrow> read_until d a = (a, [])"
  by (induction a) auto

lemma read_until_shorter:
  assumes "read_until d bs = (raw, rest)" "raw \<noteq> []"
  shows "length rest < length bs"
  using read_until_append [of d bs] assms by (metis append_eq_conv_conj fst_conv length_append
      length_greater_0_conv less_add_same_cancel2 snd_conv)

lemma read_until_raw_nonempty: "bs \<noteq> [] \<Longrightarrow> fst (read_until d bs) \<noteq> []"
  by (cases bs) (auto simp: case_prod_beta)

text \<open>The last position of a byte: \<^verbatim>\<open>iter().rposition(..)\<close>.\<close>

definition rposition :: "nat \<Rightarrow> bytes \<Rightarrow> nat option" where
  "rposition d xs =
     (let t = takeWhile (\<lambda>b. b \<noteq> d) (rev xs) in
      if length t = length xs then None else Some (length xs - length t - 1))"

lemma rposition_None: "rposition d xs = None \<longleftrightarrow> d \<notin> set xs"
proof -
  have "length (takeWhile (\<lambda>b. b \<noteq> d) (rev xs)) = length xs \<longleftrightarrow> takeWhile (\<lambda>b. b \<noteq> d) (rev xs) = rev xs"
    by (metis length_rev length_takeWhile_le takeWhile_eq_take take_all_iff order.refl)
  also have "\<dots> \<longleftrightarrow> d \<notin> set xs" by (auto simp: takeWhile_eq_all_conv)
  finally show ?thesis by (simp add: rposition_def)
qed

lemma rposition_last: "d \<notin> set b \<Longrightarrow> rposition d (a @ d # b) = Some (length a)"
proof -
  assume "d \<notin> set b"
  then have "takeWhile (\<lambda>x. x \<noteq> d) (rev (a @ d # b)) = rev b"
    by (simp, subst takeWhile_append2) auto
  then show ?thesis by (simp add: rposition_def)
qed

text \<open>Every byte string is empty of newlines or ends, after its last newline, in a piece without one.\<close>

lemma last_newline_cases:
  obtains (none) "(d :: nat) \<notin> set bs" | (last) a b where "bs = a @ d # b" "d \<notin> set b"
  by (metis split_list_last)

lemma first_newline_cases:
  obtains (none) "(d :: nat) \<notin> set bs" | (first) a b where "bs = a @ d # b" "d \<notin> set a"
  by (metis split_list_first)

lemma trim_ascii_newline: "trim_ascii (raw @ [10]) = trim_ascii raw"
proof (cases "\<forall>x \<in> set raw. is_ascii_whitespace x")
  case True
  then have "\<forall>x \<in> set (raw @ [10]). is_ascii_whitespace x" by (simp add: is_ascii_whitespace_def)
  then have d: "dropWhile is_ascii_whitespace raw = []" "dropWhile is_ascii_whitespace (raw @ [10]) = []"
    unfolding dropWhile_eq_Nil_conv by simp_all
  show ?thesis unfolding trim_ascii_def by (simp only: d)
next
  case False
  then show ?thesis by (auto simp: trim_ascii_def dropWhile_append3 dropWhile_append1 is_ascii_whitespace_def)
qed

lemma trim_ascii_Nil [simp]: "trim_ascii [] = []"
  by (simp add: trim_ascii_def)

section \<open>Forward reading\<close>

text \<open>The lines of a byte string as a forward reader meets them: each with its offset and its
  newline, the last one possibly without.\<close>

function fwd_lines :: "nat \<Rightarrow> bytes \<Rightarrow> (nat \<times> bytes) list" where
  "fwd_lines off bs =
     (case read_until 10 bs of
        (raw, rest) \<Rightarrow> if raw = [] then [] else (off, raw) # fwd_lines (off + length raw) rest)"
  by pat_completeness auto

termination
  by (relation "measure (\<lambda>(_, bs). length bs)") (auto dest: read_until_shorter [OF sym])

declare fwd_lines.simps [simp del]

lemma fwd_lines_Nil [simp]: "fwd_lines off [] = []"
  by (simp add: fwd_lines.simps)

lemma fwd_lines_first: "10 \<notin> set a \<Longrightarrow> fwd_lines off (a @ 10 # b) = (off, a @ [10]) # fwd_lines (off + length a + 1) b"
  by (subst fwd_lines.simps) (simp add: read_until_first add.assoc)

lemma fwd_lines_one: "10 \<notin> set a \<Longrightarrow> a \<noteq> [] \<Longrightarrow> fwd_lines off a = [(off, a)]"
  by (subst fwd_lines.simps) (simp add: read_until_none)

lemma fwd_lines_append: "fwd_lines off (a @ 10 # b) = fwd_lines off (a @ [10]) @ fwd_lines (off + length a + 1) b"
proof (induction "length a" arbitrary: a off rule: less_induct)
  case less
  show ?case
  proof (cases rule: first_newline_cases [of 10 a])
    case none
    then show ?thesis using fwd_lines_first [OF none, of off b] fwd_lines_first [OF none, of off "[]"] by simp
  next
    case (first u v)
    then have "fwd_lines (off + length u + 1) (v @ 10 # b)
        = fwd_lines (off + length u + 1) (v @ [10]) @ fwd_lines (off + length u + 1 + length v + 1) b"
      by (intro less) simp
    then show ?thesis
      using first fwd_lines_first [OF first(2), of off "v @ 10 # b"] fwd_lines_first [OF first(2), of off "v @ [10]"]
      by (simp add: algebra_simps)
  qed
qed

text \<open>What a caller makes of a line.\<close>

datatype 'a pick = Keep 'a | Skip | Corrupt

definition row_of :: "(bytes \<Rightarrow> 'a pick) \<Rightarrow> nat \<times> bytes \<Rightarrow> (nat \<times> 'a) option" where
  "row_of pick l = (let line = trim_ascii (snd l) in
     if line = [] then None else (case pick line of Keep v \<Rightarrow> Some (fst l, v) | _ \<Rightarrow> None))"

definition corrupt_line :: "(bytes \<Rightarrow> 'a pick) \<Rightarrow> nat \<times> bytes \<Rightarrow> bool" where
  "corrupt_line pick l = (let line = trim_ascii (snd l) in
     line \<noteq> [] \<and> (case pick line of Corrupt \<Rightarrow> True | _ \<Rightarrow> False))"

text \<open>\<^verbatim>\<open>parse_or_corrupt\<close>.\<close>

definition parse_or_corrupt :: "'a option \<Rightarrow> 'a pick" where
  "parse_or_corrupt p = (case p of Some v \<Rightarrow> Keep v | None \<Rightarrow> Corrupt)"

text \<open>The rows a caller keeps, in file order with their offsets, and the number it calls corrupt.\<close>

definition kept_rows :: "(bytes \<Rightarrow> 'a pick) \<Rightarrow> bytes \<Rightarrow> (nat \<times> 'a) list" where
  "kept_rows pick bs = List.map_filter (row_of pick) (fwd_lines 0 bs)"

definition corrupt_rows :: "(bytes \<Rightarrow> 'a pick) \<Rightarrow> bytes \<Rightarrow> nat" where
  "corrupt_rows pick bs =
     length (List.map_filter (\<lambda>l. if corrupt_line pick l then Some (fst l) else None) (fwd_lines 0 bs))"

lemma map_filter_single: "List.map_filter f [x] = (case f x of None \<Rightarrow> [] | Some y \<Rightarrow> [y])"
  by (simp add: List.map_filter_simps split: option.split)

lemma trim_newline_only [simp]: "trim_ascii [10] = []"
  using trim_ascii_newline [of "[]"] by simp

text \<open>A selection of lines that does not look at the newline and passes over empty lines.\<close>

definition blind :: "(nat \<times> bytes \<Rightarrow> 'a option) \<Rightarrow> bool" where
  "blind f \<longleftrightarrow> (\<forall>off raw. f (off, raw @ [10]) = f (off, raw)) \<and> (\<forall>off. f (off, []) = None)"

lemma blind_row_of [simp]: "blind (row_of pick)"
  by (auto simp: blind_def row_of_def trim_ascii_newline Let_def split: pick.splits)

lemma blind_corrupt [simp]: "blind (\<lambda>l. if corrupt_line pick l then Some (fst l) else None)"
  by (simp add: blind_def corrupt_line_def trim_ascii_newline)

lemma blind_piece:
  assumes "blind f" "10 \<notin> set b"
  shows "List.map_filter f (fwd_lines off b) = List.map_filter f [(off, b)]"
  using assms by (cases "b = []") (simp_all add: fwd_lines_one List.map_filter_simps blind_def)

lemma blind_newline:
  assumes "blind f"
  shows "List.map_filter f (fwd_lines off (a @ [10])) = List.map_filter f (fwd_lines off a)"
proof (cases rule: last_newline_cases [of 10 a])
  case none
  then show ?thesis
    using assms fwd_lines_first [OF none, of off "[]"] blind_piece [OF assms none]
    by (simp add: blind_def List.map_filter_simps)
next
  case (last u v)
  then have "List.map_filter f (fwd_lines (off + length u + 1) (v @ [10]))
      = List.map_filter f (fwd_lines (off + length u + 1) v)"
    using assms fwd_lines_first [OF last(2), of _ "[]"] blind_piece [OF assms last(2)]
    by (simp add: blind_def List.map_filter_simps)
  then show ?thesis
    using last fwd_lines_append [of off u "v @ [10]"] fwd_lines_append [of off u v]
    by (simp add: map_filter_append)
qed

text \<open>The last line of a byte string, and the lines before it.\<close>

lemma blind_last:
  assumes "blind f" "10 \<notin> set b"
  shows "List.map_filter f (fwd_lines off (a @ 10 # b))
    = List.map_filter f (fwd_lines off a) @ List.map_filter f [(off + length a + 1, b)]"
  using blind_newline [OF assms(1)] blind_piece [OF assms]
  by (simp add: fwd_lines_append [of off a b] map_filter_append)

section \<open>Reading backwards\<close>

record reverse_lines =
  rv_file :: bytes
  rv_read_pos :: nat
  rv_start :: nat
  rv_buffer :: bytes
  rv_bof :: bool
  rv_bytes :: nat

text \<open>\<^verbatim>\<open>ReverseLines::open\<close> on a readable file.\<close>

definition reverse_open :: "bytes \<Rightarrow> nat option \<Rightarrow> reverse_lines" where
  "reverse_open bs before =
     (let e = min (case before of None \<Rightarrow> length bs | Some b \<Rightarrow> b) (length bs) in
      \<lparr> rv_file = bs, rv_read_pos = e, rv_start = e, rv_buffer = [], rv_bof = False, rv_bytes = 0 \<rparr>)"

definition needs_read :: "reverse_lines \<Rightarrow> bool" where
  "needs_read r \<longleftrightarrow> \<not> rv_bof r \<and> 10 \<notin> set (rv_buffer r)"

text \<open>One block more: the step, the seek and the exact read.\<close>

definition read_block :: "reverse_lines \<Rightarrow> reverse_lines" where
  "read_block r =
     (let step = min (rv_read_pos r) READ_BLOCK_SIZE; pos = rv_read_pos r - step in
      r \<lparr> rv_bytes := rv_bytes r + step,
          rv_buffer := take step (drop pos (rv_file r)) @ rv_buffer r,
          rv_start := pos, rv_read_pos := pos, rv_bof := (pos = 0) \<rparr>)"

function next_line :: "reverse_lines \<Rightarrow> reverse_lines \<times> (nat \<times> bytes) option" where
  "next_line r =
     (case rposition 10 (rv_buffer r) of
        Some i \<Rightarrow> (r \<lparr> rv_buffer := take i (rv_buffer r) \<rparr>,
                   Some (rv_start r + i + 1, drop (i + 1) (rv_buffer r)))
      | None \<Rightarrow>
          (if rv_bof r
           then (if rv_buffer r = [] then (r, None)
                 else (r \<lparr> rv_buffer := [] \<rparr>, Some (rv_start r, rv_buffer r)))
           else next_line (read_block r)))"
  by pat_completeness auto

text \<open>A block read moves the position towards the start, and at the start it sets \<^verbatim>\<open>reached_bof\<close>.\<close>

termination
proof (relation "measure (\<lambda>r. if rv_bof r then 0 else Suc (rv_read_pos r))", goal_cases)
  case (2 r)
  then show ?case by (cases "rv_read_pos r = 0") (auto simp: read_block_def Let_def READ_BLOCK_SIZE_def)
qed simp

declare next_line.simps [simp del]

text \<open>What the reader has still to hand out, and the invariant of its position.\<close>

definition rv_todo :: "reverse_lines \<Rightarrow> bytes" where
  "rv_todo r = take (rv_start r) (rv_file r) @ rv_buffer r"

definition rv_ok :: "reverse_lines \<Rightarrow> bool" where
  "rv_ok r \<longleftrightarrow> rv_start r = rv_read_pos r \<and> rv_read_pos r \<le> length (rv_file r)
     \<and> (rv_bof r \<longrightarrow> rv_read_pos r = 0)"

lemma read_block_ok:
  assumes "rv_ok r"
  shows "rv_ok (read_block r) \<and> rv_todo (read_block r) = rv_todo r \<and> rv_file (read_block r) = rv_file r
    \<and> rv_bytes (read_block r) + rv_read_pos (read_block r) = rv_bytes r + rv_read_pos r"
proof -
  let ?s = "min (rv_read_pos r) READ_BLOCK_SIZE"
  have "take (rv_read_pos r - ?s) (rv_file r) @ take ?s (drop (rv_read_pos r - ?s) (rv_file r))
      = take (rv_read_pos r) (rv_file r)"
    by (metis add.commute diff_add min.cobounded1 take_add)
  then show ?thesis
    using assms unfolding rv_ok_def rv_todo_def read_block_def Let_def by auto
qed

lemma next_line_spec:
  assumes "rv_ok r" "next_line r = (r', res)"
  shows "rv_ok r' \<and> rv_file r' = rv_file r \<and> rv_bytes r' + rv_read_pos r' = rv_bytes r + rv_read_pos r
    \<and> (\<forall>a b. rv_todo r = a @ 10 # b \<and> 10 \<notin> set b \<longrightarrow> res = Some (length a + 1, b) \<and> rv_todo r' = a)
    \<and> (10 \<notin> set (rv_todo r) \<longrightarrow> rv_todo r' = [] \<and> res = (if rv_todo r = [] then None else Some (0, rv_todo r)))"
  using assms
proof (induction r rule: next_line.induct)
  case (1 r)
  show ?case
  proof (cases rule: last_newline_cases [of 10 "rv_buffer r"])
    case none
    show ?thesis
    proof (cases "rv_bof r")
      case False
      then have nl: "next_line (read_block r) = (r', res)"
        using 1(3) none by (simp add: next_line.simps [of r] rposition_None [THEN iffD2])
      have n: "rposition 10 (rv_buffer r) = None" using none by (simp add: rposition_None)
      have rb: "rv_ok (read_block r)" "rv_todo (read_block r) = rv_todo r"
        "rv_file (read_block r) = rv_file r"
        "rv_bytes (read_block r) + rv_read_pos (read_block r) = rv_bytes r + rv_read_pos r"
        using read_block_ok [OF 1(2)] by simp_all
      from 1(1) [OF n False rb(1) nl] show ?thesis unfolding rb(2-4) .
    next
      case True
      then have t: "rv_todo r = rv_buffer r" using 1(2) by (simp add: rv_ok_def rv_todo_def)
      then show ?thesis
        using 1(2,3) none True
        by (auto simp: next_line.simps [of r] rposition_None [THEN iffD2] rv_ok_def rv_todo_def split: if_splits)
    qed
  next
    case (last a b)
    then have n: "(r', res) = (r \<lparr> rv_buffer := a \<rparr>, Some (rv_start r + length a + 1, b))"
      using 1(3) by (simp add: next_line.simps [of r] rposition_last)
    have len: "length (take (rv_start r) (rv_file r)) = rv_start r" using 1(2) by (simp add: rv_ok_def)
    have r': "r' = r \<lparr> rv_buffer := a \<rparr>" "res = Some (rv_start r + length a + 1, b)"
      using n by simp_all
    have todo': "rv_todo r' = take (rv_start r) (rv_file r) @ a" by (simp add: r' rv_todo_def)
    have "res = Some (length u + 1, v) \<and> rv_todo r' = u"
      if "rv_todo r = u @ 10 # v \<and> 10 \<notin> set v" for u v
    proof -
      have eq: "(take (rv_start r) (rv_file r) @ a) @ 10 # b = u @ 10 # v"
        using that last(1) by (simp add: rv_todo_def)
      have "rposition 10 (u @ 10 # v) = Some (length (take (rv_start r) (rv_file r) @ a))"
        using rposition_last [OF last(2), of "take (rv_start r) (rv_file r) @ a"] eq by simp
      then have lu: "length u = length (take (rv_start r) (rv_file r) @ a)"
        using rposition_last [of 10 v u] that by simp
      then have "u = take (rv_start r) (rv_file r) @ a \<and> v = b"
        using eq by (metis append_eq_append_conv list.inject)
      then show ?thesis using lu len todo' r'(2) by simp
    qed
    moreover have "10 \<in> set (rv_todo r)" "rv_ok r'" "rv_file r' = rv_file r"
      "rv_bytes r' + rv_read_pos r' = rv_bytes r + rv_read_pos r"
      using last(1) 1(2) by (simp_all add: r' rv_todo_def rv_ok_def)
    ultimately show ?thesis by blast
  qed
qed

section \<open>The tail\<close>

record 'a tail_page =
  tp_events :: "'a list"
  tp_corrupt :: nat
  tp_first :: "nat option"
  tp_more :: bool

definition empty_page :: "'a tail_page" where
  "empty_page = \<lparr> tp_events = [], tp_corrupt = 0, tp_first = None, tp_more = False \<rparr>"

text \<open>The walk: the budget gates the next disk block only. Whether it ends is a property to prove, so
  not ending is \<^term>\<open>None\<close> here.\<close>

partial_function (option) tail_loop ::
  "(bytes \<Rightarrow> 'a pick) \<Rightarrow> nat \<Rightarrow> nat \<Rightarrow> reverse_lines \<Rightarrow> (nat \<times> 'a) list \<Rightarrow> nat
    \<Rightarrow> ((nat \<times> 'a) list \<times> nat \<times> bool \<times> reverse_lines) option" where
  "tail_loop pick target max_bytes r rows c =
     (if \<not> length rows < target then Some (rows, c, False, r)
      else if max_bytes \<le> rv_bytes r \<and> needs_read r then Some (rows, c, True, r)
      else (case next_line r of
          (r', None) \<Rightarrow> Some (rows, c, False, r')
        | (r', Some (off, raw)) \<Rightarrow>
            (let line = trim_ascii raw in
             if line = [] then tail_loop pick target max_bytes r' rows c
             else (case pick line of
                 Keep v \<Rightarrow> tail_loop pick target max_bytes r' (rows @ [(off, v)]) c
               | Skip \<Rightarrow> tail_loop pick target max_bytes r' rows c
               | Corrupt \<Rightarrow> tail_loop pick target max_bytes r' rows (c + 1)))))"

text \<open>\<^verbatim>\<open>tail_pick_inner\<close>, with the bytes it read.\<close>

definition tail_pick_inner ::
  "file_view \<Rightarrow> nat \<Rightarrow> nat option \<Rightarrow> bool \<Rightarrow> nat \<Rightarrow> (bytes \<Rightarrow> 'a pick)
    \<Rightarrow> (unit + 'a tail_page \<times> nat) option" where
  "tail_pick_inner file n before probe_older max_bytes pick =
     (if n = 0 then Some (Inr (empty_page, 0))
      else (case file of
          Missing \<Rightarrow> Some (Inr (empty_page, 0))
        | Unreadable \<Rightarrow> Some (Inl ())
        | Content bs \<Rightarrow>
            (let target = (if probe_older then min (n + 1) U64_MAX else n) in
             map_option (\<lambda>(rows, c, exhausted, r).
               (let more = probe_older \<and> n < length rows \<or> exhausted;
                    page = rev (if more then take n rows else rows) in
                Inr (\<lparr> tp_events = map snd page, tp_corrupt = c,
                        tp_first = (case page of [] \<Rightarrow> None | x # _ \<Rightarrow> Some (fst x)), tp_more = more \<rparr>,
                     rv_bytes r)))
               (tail_loop pick target max_bytes (reverse_open bs before) [] 0))))"

text \<open>The walk over the lines still to come, newest first: it returns, keeps the newest \<^verbatim>\<open>target\<close> rows, and
  if no budget stops it and it ends early it has seen every line.\<close>

lemma kept_last:
  assumes "10 \<notin> set b"
  shows "rev (kept_rows pick (a @ 10 # b)) = (case row_of pick (length a + 1, b) of None \<Rightarrow> [] | Some x \<Rightarrow> [x])
    @ rev (kept_rows pick a)"
  unfolding kept_rows_def
  by (simp add: blind_last [OF blind_row_of assms] List.map_filter_simps split: option.split)

lemma kept_only: "10 \<notin> set b \<Longrightarrow> rev (kept_rows pick b) = (case row_of pick (0, b) of None \<Rightarrow> [] | Some x \<Rightarrow> [x])"
  unfolding kept_rows_def
  by (simp add: blind_piece [OF blind_row_of] List.map_filter_simps split: option.split)

lemma corrupt_last:
  assumes "10 \<notin> set b"
  shows "corrupt_rows pick (a @ 10 # b) = (if corrupt_line pick (length a + 1, b) then 1 else 0) + corrupt_rows pick a"
  unfolding corrupt_rows_def
  by (simp add: blind_last [OF blind_corrupt assms] List.map_filter_simps)

lemma corrupt_only: "10 \<notin> set b \<Longrightarrow> corrupt_rows pick b = (if corrupt_line pick (0, b) then 1 else 0)"
  unfolding corrupt_rows_def
  by (simp add: blind_piece [OF blind_corrupt] List.map_filter_simps)

lemma next_line_step:
  fixes pick :: "bytes \<Rightarrow> 'a pick"
  assumes "rv_ok r"
  obtains (finished) r' where "rv_todo r = []" "next_line r = (r', None)" "rv_ok r'"
      "rv_bytes r' + rv_read_pos r' = rv_bytes r + rv_read_pos r"
    | (line) off raw r' where "next_line r = (r', Some (off, raw))" "length (rv_todo r') < length (rv_todo r)"
      "rev (kept_rows pick (rv_todo r)) =
         (case row_of pick (off, raw) of None \<Rightarrow> [] | Some x \<Rightarrow> [x]) @ rev (kept_rows pick (rv_todo r'))"
      "corrupt_rows pick (rv_todo r) = (if corrupt_line pick (off, raw) then 1 else 0) + corrupt_rows pick (rv_todo r')"
      "rv_ok r'" "rv_bytes r' + rv_read_pos r' = rv_bytes r + rv_read_pos r"
proof -
  obtain r' res where n: "next_line r = (r', res)" by (cases "next_line r")
  note s = next_line_spec [OF assms n]
  show ?thesis
  proof (cases rule: last_newline_cases [of 10 "rv_todo r"])
    case none
    show ?thesis
    proof (cases "rv_todo r = []")
      case True
      then show ?thesis using s n none by (intro finished [of r']) auto
    next
      case False
      have "kept_rows pick [] = []" "corrupt_rows pick [] = 0"
        by (simp_all add: kept_rows_def corrupt_rows_def List.map_filter_simps)
      then show ?thesis
        using s n none False kept_only [OF none, of pick] corrupt_only [OF none, of pick]
        by (intro line [of r' 0 "rv_todo r"]) auto
    qed
  next
    case (last a b)
    then show ?thesis
      using s n kept_last [OF last(2), of pick a] corrupt_last [OF last(2), of pick a]
      by (intro line [of r' "length a + 1" b]) auto
  qed
qed

text \<open>The walk over the lines still to come, newest first: it returns, keeps the newest \<^verbatim>\<open>target\<close> rows, and
  if no budget stops it and it ends early it has seen every line.\<close>

lemma tail_loop_spec:
  assumes "rv_ok r" "length rows \<le> target"
  shows "\<exists>out n e r'. tail_loop pick target mx r rows c = Some (rows @ out, n, e, r') \<and> rv_ok r'
    \<and> rv_bytes r' + rv_read_pos r' = rv_bytes r + rv_read_pos r
    \<and> out = take (length out) (rev (kept_rows pick (rv_todo r)))
    \<and> length (rows @ out) \<le> target \<and> n \<le> c + corrupt_rows pick (rv_todo r)
    \<and> (e \<longrightarrow> mx \<le> rv_bytes r' \<and> length (rows @ out) < target)
    \<and> (\<not> e \<and> length (rows @ out) < target \<longrightarrow>
         out = rev (kept_rows pick (rv_todo r)) \<and> n = c + corrupt_rows pick (rv_todo r))"
  using assms
proof (induction "length (rv_todo r)" arbitrary: r rows c rule: less_induct)
  case less
  show ?case
  proof (cases "length rows < target \<and> \<not> (mx \<le> rv_bytes r \<and> needs_read r)")
    case False
    then show ?thesis using less.prems by (auto simp: tail_loop.simps [of pick target mx r])
  next
    case True
    note unfold = tail_loop.simps [of pick target mx r rows c]
    from less.prems(1) show ?thesis
    proof (cases rule: next_line_step [where pick = pick])
      case (finished r')
      then show ?thesis using True less.prems unfold
        by (auto simp: kept_rows_def corrupt_rows_def List.map_filter_simps)
    next
      case (line off raw r')
      let ?more = "if corrupt_line pick (off, raw) then 1 else 0"
      let ?new = "case row_of pick (off, raw) of None \<Rightarrow> [] | Some x \<Rightarrow> [x]"
      have step: "tail_loop pick target mx r rows c = tail_loop pick target mx r' (rows @ ?new) (c + ?more)"
        using True line(1) unfold
        by (auto simp: row_of_def corrupt_line_def Let_def split: pick.split)
      have "length (rows @ ?new) \<le> target" using True by (simp split: option.split)
      from less.hyps [OF line(2,5) this, of "c + ?more"] obtain out n e r'' where
        ih: "tail_loop pick target mx r' (rows @ ?new) (c + ?more) = Some ((rows @ ?new) @ out, n, e, r'')"
          "rv_ok r''" "rv_bytes r'' + rv_read_pos r'' = rv_bytes r' + rv_read_pos r'"
          "out = take (length out) (rev (kept_rows pick (rv_todo r')))"
          "length ((rows @ ?new) @ out) \<le> target" "n \<le> c + ?more + corrupt_rows pick (rv_todo r')"
          "e \<longrightarrow> mx \<le> rv_bytes r'' \<and> length ((rows @ ?new) @ out) < target"
          "\<not> e \<and> length ((rows @ ?new) @ out) < target \<longrightarrow>
             out = rev (kept_rows pick (rv_todo r')) \<and> n = c + ?more + corrupt_rows pick (rv_todo r')"
        by blast
      show ?thesis
        using ih line(3,4,6) unfolding step
        by (intro exI [of _ "?new @ out"] exI [of _ n] exI [of _ e] exI [of _ r'']) auto
    qed
  qed
qed

text \<open>The public tails.\<close>

definition tail_filter_map ::
  "(bytes \<Rightarrow> 'a option) \<Rightarrow> file_view \<Rightarrow> nat \<Rightarrow> nat option \<Rightarrow> (unit + 'a tail_page \<times> nat) option" where
  "tail_filter_map parse file n before =
     tail_pick_inner file n before True U64_MAX (\<lambda>line. parse_or_corrupt (parse line))"

definition tail_valid_before ::
  "(bytes \<Rightarrow> 'v option) \<Rightarrow> file_view \<Rightarrow> nat \<Rightarrow> nat option \<Rightarrow> (unit + 'v tail_page \<times> nat) option" where
  "tail_valid_before parse file n before = tail_filter_map parse file n before"

definition tail_valid :: "(bytes \<Rightarrow> 'v option) \<Rightarrow> file_view \<Rightarrow> nat \<Rightarrow> (unit + 'v tail_page \<times> nat) option" where
  "tail_valid parse file n = tail_valid_before parse file n None"

definition tail_select ::
  "file_view \<Rightarrow> nat \<Rightarrow> nat option \<Rightarrow> nat \<Rightarrow> (bytes \<Rightarrow> 'a pick) \<Rightarrow> (unit + 'a tail_page \<times> nat) option" where
  "tail_select file n before max_bytes pick = tail_pick_inner file n before True max_bytes pick"

definition last_valid :: "(bytes \<Rightarrow> 'v option) \<Rightarrow> file_view \<Rightarrow> (unit + 'v option) option" where
  "last_valid parse file =
     map_option (map_sum id (\<lambda>(page, _). case rev (tp_events page) of [] \<Rightarrow> None | v # _ \<Rightarrow> Some v))
       (tail_pick_inner file 1 None False U64_MAX (\<lambda>line. parse_or_corrupt (parse line)))"

text \<open>Where a walk from \<^verbatim>\<open>before\<close> starts.\<close>

definition tail_end :: "nat option \<Rightarrow> bytes \<Rightarrow> nat" where
  "tail_end before bs = min (case before of None \<Rightarrow> length bs | Some b \<Rightarrow> b) (length bs)"

lemma reverse_open_ok: "rv_ok (reverse_open bs before) \<and> rv_todo (reverse_open bs before) = take (tail_end before bs) bs
    \<and> rv_bytes (reverse_open bs before) + rv_read_pos (reverse_open bs before) = tail_end before bs"
  by (simp add: rv_ok_def rv_todo_def reverse_open_def tail_end_def Let_def)

lemma prefix_take:
  assumes "xs = take (length xs) ys"
  shows "take n xs = take (length (take n xs)) ys"
proof -
  have "take n xs = take n (take (length xs) ys)" using assms by (rule arg_cong)
  also have "\<dots> = take (length (take n xs)) ys" by (simp add: min.commute)
  finally show ?thesis .
qed

lemma rev_take_rev: "rev (take k (rev xs)) = drop (length xs - k) xs"
  by (simp add: rev_take)

text \<open>Every walk returns: a page of the newest rows before its start, with at most the bytes before its
  start read; a page that promises nothing older holds every row and has counted every corrupt
  line.\<close>

lemma tail_pick_spec:
  fixes pick :: "bytes \<Rightarrow> 'a pick" and bs :: bytes and before :: "nat option"
  defines "K \<equiv> kept_rows pick (take (tail_end before bs) bs)"
  assumes "0 < n" "n < U64_MAX"
  shows "\<exists>page read. tail_pick_inner (Content bs) n before probe mx pick = Some (Inr (page, read))
    \<and> read \<le> tail_end before bs \<and> length (tp_events page) \<le> n
    \<and> tp_events page = map snd (drop (length K - length (tp_events page)) K)
    \<and> tp_first page = (case drop (length K - length (tp_events page)) K of [] \<Rightarrow> None | x # _ \<Rightarrow> Some (fst x))
    \<and> tp_corrupt page \<le> corrupt_rows pick (take (tail_end before bs) bs)
    \<and> (probe \<and> \<not> tp_more page \<longrightarrow> length (tp_events page) = length K
         \<and> tp_corrupt page = corrupt_rows pick (take (tail_end before bs) bs))
    \<and> (tail_end before bs < mx \<longrightarrow> length (tp_events page) = min n (length K) \<and> tp_more page = (probe \<and> n < length K))"
proof -
  let ?t = "if probe then min (n + 1) U64_MAX else n"
  have t: "?t = (if probe then n + 1 else n)" using assms(3) by simp
  from tail_loop_spec [of "reverse_open bs before" "[]" ?t pick mx 0] obtain out c e r' where
    o: "tail_loop pick ?t mx (reverse_open bs before) [] 0 = Some (out, c, e, r')"
      "rv_bytes r' + rv_read_pos r' = tail_end before bs" "out = take (length out) (rev K)"
      "length out \<le> ?t" "c \<le> corrupt_rows pick (take (tail_end before bs) bs)"
      "e \<longrightarrow> mx \<le> rv_bytes r'"
      "\<not> e \<and> length out < ?t \<longrightarrow> out = rev K \<and> c = corrupt_rows pick (take (tail_end before bs) bs)"
    using reverse_open_ok [of bs before] unfolding K_def by auto
  let ?more = "probe \<and> n < length out \<or> e"
  define rs where "rs = (if ?more then take n out else out)"
  have le: "length rs \<le> n" using o(4) t by (auto simp: rs_def split: if_splits)
  have lk: "length out \<le> length K" using arg_cong [OF o(3), of length] by (simp add: min_def split: if_splits)
  have "rs = out \<or> rs = take n out" by (simp add: rs_def)
  then have "rs = take (length rs) (rev K)"
  proof
    assume "rs = out"
    then show ?thesis using o(3) by blast
  next
    assume "rs = take n out"
    then show ?thesis using prefix_take [OF o(3), of n] by blast
  qed
  then have rows: "rev rs = drop (length K - length rs) K" using rev_take_rev by metis
  have full: "length rs = length K \<and> c = corrupt_rows pick (take (tail_end before bs) bs)" if "probe" "\<not> ?more"
    using that o(7) t by (auto simp: rs_def)
  have unb: "length rs = min n (length K) \<and> ?more = (probe \<and> n < length K)" if "tail_end before bs < mx"
  proof -
    have ne: "\<not> e" using that o(2,6) by linarith
    have "length out = length K \<or> length out = ?t" using o(4,7) ne by fastforce
    then show ?thesis using ne t lk o(4) by (auto simp: rs_def min_def split: if_splits)
  qed
  let ?page = "\<lparr> tp_events = map snd (rev rs), tp_corrupt = c,
      tp_first = (case rev rs of [] \<Rightarrow> None | x # _ \<Rightarrow> Some (fst x)), tp_more = ?more \<rparr>"
  have eq: "tail_pick_inner (Content bs) n before probe mx pick = Some (Inr (?page, rv_bytes r'))"
    using o(1) assms(2) by (simp add: tail_pick_inner_def Let_def rs_def)
  show ?thesis
    using o(2,5) le full unb
    by (intro exI [of _ ?page] exI [of _ "rv_bytes r'"] conjI impI eq) (simp_all flip: rows)
qed

section \<open>The streaming scan\<close>

record scan_summary =
  sd_valid :: nat
  sd_corrupt :: nat
  sd_first_corrupt :: "nat option"
  sd_next :: nat

definition scan_start :: scan_summary where
  "scan_start = \<lparr> sd_valid = 0, sd_corrupt = 0, sd_first_corrupt = None, sd_next = 0 \<rparr>"

text \<open>The calls of \<^verbatim>\<open>reduce\<close> are kept in order, each with the bytes of its row.\<close>

function scan_loop :: "(bytes \<Rightarrow> 'v option) \<Rightarrow> bytes \<Rightarrow> ('v \<times> nat) list \<Rightarrow> scan_summary
    \<Rightarrow> ('v \<times> nat) list \<times> scan_summary" where
  "scan_loop parse bs calls s =
     (case read_until 10 bs of (raw, rest) \<Rightarrow>
        if raw = [] then (calls, s)
        else (let offset = sd_next s;
                  s1 = s \<lparr> sd_next := sd_next s + length raw \<rparr>;
                  line = trim_ascii raw in
              if line = [] then scan_loop parse rest calls s1
              else (case parse line of
                  Some v \<Rightarrow> scan_loop parse rest (calls @ [(v, length raw)]) (s1 \<lparr> sd_valid := sd_valid s1 + 1 \<rparr>)
                | None \<Rightarrow> scan_loop parse rest calls
                    (s1 \<lparr> sd_corrupt := sd_corrupt s1 + 1,
                          sd_first_corrupt := (case sd_first_corrupt s1 of None \<Rightarrow> Some offset | Some x \<Rightarrow> Some x) \<rparr>))))"
  by pat_completeness auto

termination
  by (relation "measure (\<lambda>(_, bs, _, _). length bs)") (auto dest: read_until_shorter [OF sym])

declare scan_loop.simps [simp del]

definition scan_stream_detailed ::
  "(bytes \<Rightarrow> 'v option) \<Rightarrow> file_view \<Rightarrow> unit + ('v \<times> nat) list \<times> scan_summary" where
  "scan_stream_detailed parse file = (case file of
       Missing \<Rightarrow> Inr ([], scan_start)
     | Unreadable \<Rightarrow> Inl ()
     | Content bs \<Rightarrow> Inr (scan_loop parse bs [] scan_start))"

text \<open>\<^verbatim>\<open>scan_stream\<close>: the events, the corrupt count and the next offset.\<close>

definition scan_stream :: "(bytes \<Rightarrow> 'v option) \<Rightarrow> file_view \<Rightarrow> unit + 'v list \<times> nat \<times> nat" where
  "scan_stream parse file =
     map_sum id (\<lambda>(calls, s). (map fst calls, sd_corrupt s, sd_next s)) (scan_stream_detailed parse file)"

abbreviation picks :: "(bytes \<Rightarrow> 'v option) \<Rightarrow> bytes \<Rightarrow> 'v pick" where
  "picks parse line \<equiv> parse_or_corrupt (parse line)"

lemma scan_loop_spec:
  "map fst (fst (scan_loop parse bs calls s))
      = map fst calls @ map snd (List.map_filter (row_of (picks parse)) (fwd_lines (sd_next s) bs))
   \<and> sd_next (snd (scan_loop parse bs calls s)) = sd_next s + length bs
   \<and> sd_corrupt (snd (scan_loop parse bs calls s)) = sd_corrupt s
        + length (List.map_filter (\<lambda>l. if corrupt_line (picks parse) l then Some (fst l) else None) (fwd_lines (sd_next s) bs))
   \<and> sd_valid (snd (scan_loop parse bs calls s)) + length calls = sd_valid s + length (fst (scan_loop parse bs calls s))"
proof (induction parse bs calls s rule: scan_loop.induct)
  case (1 parse bs calls s)
  obtain raw rest where r: "read_until 10 bs = (raw, rest)" by (cases "read_until 10 bs")
  have len: "length bs = length raw + length rest" using read_until_append [of 10 bs] r by (metis fst_conv length_append snd_conv)
  note simps = scan_loop.simps [of parse bs calls s] fwd_lines.simps [of "sd_next s" bs] List.map_filter_simps
  show ?case
  proof (cases "raw = []")
    case True
    then have "bs = []" using r read_until_raw_nonempty [of bs 10] by auto
    then show ?thesis by (simp add: scan_loop.simps List.map_filter_simps)
  next
    case False
    show ?thesis
    proof (cases "trim_ascii raw = []")
      case True
      then show ?thesis
        using 1(1) [OF r [symmetric] False refl refl refl True] r False len
        by (simp add: simps row_of_def corrupt_line_def Let_def add.assoc)
    next
      case ne: False
      show ?thesis
      proof (cases "parse (trim_ascii raw)")
        case None
        then show ?thesis
          using 1(2) [OF r [symmetric] False refl refl refl ne None] r False ne len
          by (simp add: simps row_of_def corrupt_line_def parse_or_corrupt_def Let_def add.assoc)
      next
        case (Some v)
        then show ?thesis
          using 1(3) [OF r [symmetric] False refl refl refl ne Some] r False ne len
          by (simp add: simps row_of_def corrupt_line_def parse_or_corrupt_def Let_def add.assoc)
      qed
    qed
  qed
qed

lemma scan_stream_Content:
  "scan_stream parse (Content bs)
     = Inr (map snd (kept_rows (picks parse) bs), corrupt_rows (picks parse) bs, length bs)"
  using scan_loop_spec [of parse bs "[]" scan_start]
  by (simp add: scan_stream_def scan_stream_detailed_def scan_start_def kept_rows_def corrupt_rows_def case_prod_beta)

section \<open>Deltas\<close>

record 'v delta =
  dt_events :: "'v list"
  dt_next :: nat
  dt_corrupt :: nat

function delta_loop :: "(bytes \<Rightarrow> 'v option) \<Rightarrow> bytes \<Rightarrow> 'v delta \<Rightarrow> 'v delta" where
  "delta_loop parse bs d =
     (case read_until 10 bs of (raw, rest) \<Rightarrow>
        if raw = [] then d
        else if last raw \<noteq> 10 then d
        else (let d1 = d \<lparr> dt_next := dt_next d + length raw \<rparr>; line = trim_ascii raw in
              if line = [] then delta_loop parse rest d1
              else (case parse line of
                  Some v \<Rightarrow> delta_loop parse rest (d1 \<lparr> dt_events := dt_events d1 @ [v] \<rparr>)
                | None \<Rightarrow> delta_loop parse rest (d1 \<lparr> dt_corrupt := dt_corrupt d1 + 1 \<rparr>))))"
  by pat_completeness auto

termination
  by (relation "measure (\<lambda>(_, bs, _). length bs)") (auto dest: read_until_shorter [OF sym])

declare delta_loop.simps [simp del]

text \<open>\<^verbatim>\<open>read_delta\<close>: a missing file has nothing new, an offset past its end is an error.\<close>

definition read_delta :: "(bytes \<Rightarrow> 'v option) \<Rightarrow> file_view \<Rightarrow> nat \<Rightarrow> unit + 'v delta" where
  "read_delta parse file off = (case file of
       Missing \<Rightarrow> Inr \<lparr> dt_events = [], dt_next = off, dt_corrupt = 0 \<rparr>
     | Unreadable \<Rightarrow> Inl ()
     | Content bs \<Rightarrow>
         (if length bs < off then Inl ()
          else Inr (delta_loop parse (drop off bs) \<lparr> dt_events = [], dt_next = off, dt_corrupt = 0 \<rparr>)))"

text \<open>The part of a byte string up to and with its last newline.\<close>

definition complete_part :: "bytes \<Rightarrow> bytes" where
  "complete_part bs = (case rposition 10 bs of Some i \<Rightarrow> take (i + 1) bs | None \<Rightarrow> [])"

lemma complete_none: "10 \<notin> set bs \<Longrightarrow> complete_part bs = []"
  by (simp add: complete_part_def rposition_None [THEN iffD2])

lemma complete_last: "10 \<notin> set b \<Longrightarrow> complete_part (a @ 10 # b) = a @ [10]"
  by (simp add: complete_part_def rposition_last)

lemma complete_first: "complete_part (a @ 10 # b) = a @ 10 # complete_part b"
proof (cases rule: last_newline_cases [of 10 b])
  case none
  then show ?thesis by (simp add: complete_last complete_none)
next
  case (last u v)
  then show ?thesis using complete_last [of v "a @ 10 # u"] by (simp add: complete_last)
qed

lemma complete_split: "\<exists>t. bs = complete_part bs @ t \<and> 10 \<notin> set t"
proof (cases rule: last_newline_cases [of 10 bs])
  case none
  then show ?thesis by (simp add: complete_none)
next
  case (last u v)
  then show ?thesis by (simp add: complete_last)
qed

text \<open>The events and the corrupt lines of a byte string do not depend on where it lies in the file, and
  those of two strings add up when the first ends with a newline.\<close>

definition events_of :: "(bytes \<Rightarrow> 'v option) \<Rightarrow> bytes \<Rightarrow> 'v list" where
  "events_of parse bs = map snd (kept_rows (picks parse) bs)"

definition ends_line :: "bytes \<Rightarrow> bool" where
  "ends_line bs \<longleftrightarrow> bs = [] \<or> last bs = 10"

lemma fwd_lines_shift: "fwd_lines (off + k) bs = map (\<lambda>l. (fst l + k, snd l)) (fwd_lines off bs)"
proof (induction off bs rule: fwd_lines.induct)
  case (1 off bs)
  obtain raw rest where r: "read_until 10 bs = (raw, rest)" by (cases "read_until 10 bs")
  then show ?case
    using 1 [OF r [symmetric]] by (simp add: fwd_lines.simps [of _ bs] add.commute add.left_commute)
qed

lemma mf_shift:
  assumes "\<And>o1 o2 raw. (f (o1, raw) = None) = (f (o2, raw) = None)"
    and "\<And>o1 o2 raw x y. f (o1, raw) = Some x \<Longrightarrow> f (o2, raw) = Some y \<Longrightarrow> g x = g y"
  shows "map g (List.map_filter f (map (\<lambda>l. (fst l + k, snd l)) ls)) = map g (List.map_filter f ls)"
proof (induction ls)
  case (Cons l ls)
  then show ?case
    using assms(1) [of "fst l + k" "snd l" "fst l"] assms(2) [of "fst l + k" "snd l" _ "fst l"]
    by (cases l) (auto simp: List.map_filter_simps split: option.split)
qed (simp add: List.map_filter_simps)

lemma kept_shift: "map snd (List.map_filter (row_of pick) (fwd_lines off bs)) = map snd (kept_rows pick bs)"
proof -
  have "fwd_lines off bs = map (\<lambda>l. (fst l + off, snd l)) (fwd_lines 0 bs)"
    using fwd_lines_shift [of 0 off bs] by simp
  then show ?thesis unfolding kept_rows_def
    by (simp only:) (rule mf_shift; auto simp: row_of_def Let_def split: pick.splits if_splits)
qed

lemma corrupt_shift:
  "length (List.map_filter (\<lambda>l. if corrupt_line pick l then Some (fst l) else None) (fwd_lines off bs))
    = corrupt_rows pick bs"
proof -
  let ?f = "\<lambda>l. if corrupt_line pick l then Some (fst l) else None"
  have "fwd_lines off bs = map (\<lambda>l. (fst l + off, snd l)) (fwd_lines 0 bs)"
    using fwd_lines_shift [of 0 off bs] by simp
  then have "map (\<lambda>_. ()) (List.map_filter ?f (fwd_lines off bs)) = map (\<lambda>_. ()) (List.map_filter ?f (fwd_lines 0 bs))"
    by (simp only:) (rule mf_shift; auto simp: corrupt_line_def Let_def split: if_splits)
  from arg_cong [OF this, of length] show ?thesis by (simp add: corrupt_rows_def)
qed

lemma fwd_lines_join:
  assumes "ends_line a"
  shows "fwd_lines off (a @ b) = fwd_lines off a @ fwd_lines (off + length a) b"
proof (cases "a = []")
  case False
  then obtain u where "a = u @ [10]" using assms unfolding ends_line_def by (metis append_butlast_last_id)
  then show ?thesis using fwd_lines_append [of off u b] by simp
qed simp

lemma events_join: "ends_line a \<Longrightarrow> events_of parse (a @ b) = events_of parse a @ events_of parse b"
  using kept_shift [of "picks parse" "length a" b]
  by (simp add: events_of_def kept_rows_def [of _ "a @ b"] kept_rows_def [of _ a] fwd_lines_join map_filter_append)

lemma corrupt_join: "ends_line a \<Longrightarrow> corrupt_rows pick (a @ b) = corrupt_rows pick a + corrupt_rows pick b"
  using corrupt_shift [of pick "length a" b]
  by (simp add: corrupt_rows_def [of _ "a @ b"] corrupt_rows_def [of _ a] fwd_lines_join map_filter_append)

lemma events_Nil [simp]: "events_of parse [] = []" "corrupt_rows pick [] = 0"
  by (simp_all add: events_of_def kept_rows_def corrupt_rows_def List.map_filter_simps)

lemma ends_complete [simp]: "ends_line (complete_part bs)"
proof (cases rule: last_newline_cases [of 10 bs])
  case none
  then show ?thesis by (simp add: complete_none ends_line_def)
next
  case (last u v)
  then show ?thesis by (simp add: complete_last ends_line_def)
qed

lemma complete_of_ends: "ends_line bs \<Longrightarrow> complete_part bs = bs"
  by (cases bs rule: rev_cases) (auto simp: ends_line_def complete_none complete_last)

lemma complete_join: "ends_line a \<Longrightarrow> complete_part (a @ b) = a @ complete_part b"
  unfolding ends_line_def
  by (cases a rule: rev_cases) (auto simp: complete_first)

lemma events_one:
  assumes "10 \<notin> set a"
  shows "events_of parse (a @ [10]) = (if trim_ascii a = [] then [] else (case parse (trim_ascii a) of Some v \<Rightarrow> [v] | None \<Rightarrow> []))"
    and "corrupt_rows (picks parse) (a @ [10]) = (if trim_ascii a \<noteq> [] \<and> parse (trim_ascii a) = None then 1 else 0)"
  using fwd_lines_first [OF assms, of 0 "[]"]
  by (auto simp: events_of_def kept_rows_def corrupt_rows_def row_of_def corrupt_line_def trim_ascii_newline
      parse_or_corrupt_def Let_def List.map_filter_simps split: option.split)

lemma delta_loop_spec:
  "delta_loop parse bs d = d \<lparr> dt_next := dt_next d + length (complete_part bs),
     dt_events := dt_events d @ events_of parse (complete_part bs),
     dt_corrupt := dt_corrupt d + corrupt_rows (picks parse) (complete_part bs) \<rparr>"
proof (induction "length bs" arbitrary: bs d rule: less_induct)
  case less
  show ?case
  proof (cases rule: first_newline_cases [of 10 bs])
    case none
    then have "bs = [] \<or> last bs \<noteq> 10" by (metis last_in_set)
    then show ?thesis using none by (auto simp: delta_loop.simps [of parse bs] read_until_none complete_none)
  next
    case (first a b)
    have ih: "delta_loop parse b d' = d' \<lparr> dt_next := dt_next d' + length (complete_part b),
       dt_events := dt_events d' @ events_of parse (complete_part b),
       dt_corrupt := dt_corrupt d' + corrupt_rows (picks parse) (complete_part b) \<rparr>" for d'
      by (rule less) (simp add: first(1))
    have c: "complete_part bs = (a @ [10]) @ complete_part b" by (simp add: first(1) complete_first)
    have e: "ends_line (a @ [10])" by (simp add: ends_line_def)
    show ?thesis
      unfolding c events_join [OF e] corrupt_join [OF e] events_one [OF first(2)]
      using first(2) ih unfolding first(1)
      by (auto simp: delta_loop.simps [of parse "a @ 10 # b"] read_until_first trim_ascii_newline Let_def split: option.split)
  qed
qed

lemma read_delta_Content:
  "off \<le> length bs \<Longrightarrow> read_delta parse (Content bs) off
     = Inr \<lparr> dt_events = events_of parse (complete_part (drop off bs)),
             dt_next = off + length (complete_part (drop off bs)),
             dt_corrupt = corrupt_rows (picks parse) (complete_part (drop off bs)) \<rparr>"
  by (simp add: read_delta_def delta_loop_spec)

section \<open>Cached folds\<close>

text \<open>Opening a file for a fold: gone, or a file with its device and inode, its bytes, and whether seeking
  and reading them succeeds.\<close>

datatype fold_view = FoldGone | FoldFile "nat \<times> nat" bytes bool

record 'f fold_entry =
  fe_id :: "nat \<times> nat"
  fe_offset :: nat
  fe_fold :: 'f
  fe_read :: nat

text \<open>\<^verbatim>\<open>slice::split\<close> at a byte.\<close>

fun split_on :: "nat \<Rightarrow> bytes \<Rightarrow> bytes list" where
  "split_on d [] = [[]]"
| "split_on d (b # bs) =
     (if b = d then [] # split_on d bs
      else (case split_on d bs of piece # pieces \<Rightarrow> (b # piece) # pieces | [] \<Rightarrow> [[b]]))"

definition ingest_lines :: "(bytes \<Rightarrow> 'f \<Rightarrow> 'f) \<Rightarrow> bytes \<Rightarrow> 'f \<Rightarrow> 'f" where
  "ingest_lines ingest buf f =
     fold (\<lambda>piece f. let line = trim_ascii piece in if line = [] then f else ingest line f) (split_on 10 buf) f"

text \<open>One catch-up of an entry with a file that reaches past its offset.\<close>

definition fold_catch_up :: "(bytes \<Rightarrow> 'f \<Rightarrow> 'f) \<Rightarrow> bytes \<Rightarrow> 'f fold_entry \<Rightarrow> 'f fold_entry" where
  "fold_catch_up ingest bs e =
     (if fe_offset e < length bs
      then (let buf = drop (fe_offset e) bs;
                done = (case rposition 10 buf of None \<Rightarrow> 0 | Some i \<Rightarrow> i + 1) in
            e \<lparr> fe_fold := ingest_lines ingest (take done buf) (fe_fold e), fe_offset := fe_offset e + done \<rparr>)
      else e)"

text \<open>The entry read longest ago, and its removal when the cache is full.\<close>

definition oldest_entry :: "('p \<times> 'f fold_entry) list \<Rightarrow> 'p option" where
  "oldest_entry es = (case es of [] \<Rightarrow> None
     | x # xs \<Rightarrow> Some (fst (fold (\<lambda>y m. if fe_read (snd y) < fe_read (snd m) then y else m) xs x)))"

definition make_room :: "nat \<Rightarrow> 'p \<Rightarrow> ('p \<times> 'f fold_entry) list \<Rightarrow> ('p \<times> 'f fold_entry) list" where
  "make_room cap path es =
     (if cap \<le> length es \<and> path \<notin> fst ` set es
      then (case oldest_entry es of None \<Rightarrow> es | Some p \<Rightarrow> filter (\<lambda>x. fst x \<noteq> p) es)
      else es)"

text \<open>\<^verbatim>\<open>FoldCache::read\<close>: the entry leaves the cache for the read, and is lost when the read fails.\<close>

definition fold_read :: "(bytes \<Rightarrow> 'f \<Rightarrow> 'f) \<Rightarrow> 'f \<Rightarrow> ('f \<Rightarrow> 'f \<times> 'r) \<Rightarrow> nat option \<Rightarrow> nat \<Rightarrow> 'p \<Rightarrow> fold_view \<Rightarrow> nat
    \<Rightarrow> ('p \<times> 'f fold_entry) list \<Rightarrow> ('p \<times> 'f fold_entry) list \<times> 'r option" where
  "fold_read ingest start query first_read_max capacity path file now es = (case file of
       FoldGone \<Rightarrow> (es, None)
     | FoldFile ident bs ok \<Rightarrow>
         (let cached = (case map_of es path of
                None \<Rightarrow> None
              | Some e \<Rightarrow> if fe_id e = ident \<and> fe_offset e \<le> length bs then Some e else None);
              es1 = filter (\<lambda>x. fst x \<noteq> path) es;
              entry = (case cached of Some e \<Rightarrow> e
                | None \<Rightarrow> \<lparr> fe_id = ident,
                     fe_offset = (case first_read_max of None \<Rightarrow> 0 | Some m \<Rightarrow> length bs - m),
                     fe_fold = start, fe_read = now \<rparr>) in
          if fe_offset entry < length bs \<and> \<not> ok then (es1, None)
          else (let entry = fold_catch_up ingest bs entry; (f, answer) = query (fe_fold entry) in
                ((path, entry \<lparr> fe_fold := f, fe_read := now \<rparr>) # make_room (max capacity 1) path es1,
                 Some answer))))"

lemma split_on_first: "d \<notin> set a \<Longrightarrow> split_on d (a @ d # b) = a # split_on d b"
  by (induction a) auto

lemma split_on_none: "d \<notin> set a \<Longrightarrow> split_on d a = [a]"
  by (induction a) auto

text \<open>Ingesting the pieces of a buffer is ingesting its lines.\<close>

lemma ingest_lines_events: "ingest_lines ingest bs f = fold ingest (events_of Some bs) f"
proof (induction "length bs" arbitrary: bs f rule: less_induct)
  case less
  show ?case
  proof (cases rule: first_newline_cases [of 10 bs])
    case none
    then show ?thesis
      by (cases "bs = []") (simp_all add: ingest_lines_def split_on_none events_of_def kept_rows_def
          fwd_lines_one row_of_def parse_or_corrupt_def Let_def List.map_filter_simps)
  next
    case (first a b)
    have e: "ends_line (a @ [10])" by (simp add: ends_line_def)
    have "fold ingest (events_of Some bs) f = fold ingest (events_of Some b) (fold ingest (events_of Some (a @ [10])) f)"
      using events_join [OF e, of Some b] by (simp add: first(1))
    moreover have "ingest_lines ingest bs f = ingest_lines ingest b (fold ingest (events_of Some (a @ [10])) f)"
      using first(2) by (simp add: first(1) ingest_lines_def split_on_first events_one Let_def)
    ultimately show ?thesis using less first(1) by simp
  qed
qed

text \<open>Where a fold begins in its file: at the start, or no more than the allowed number of bytes before the end the
  file had when it was first read.\<close>

definition begins_at :: "nat option \<Rightarrow> nat \<Rightarrow> bytes \<Rightarrow> bool" where
  "begins_at first_read_max n bs \<longleftrightarrow> (case first_read_max of None \<Rightarrow> n = 0 | Some m \<Rightarrow> n \<le> length bs - m)"

lemma begins_later: "begins_at m n bs \<Longrightarrow> begins_at m n (bs @ w)"
  by (auto simp: begins_at_def split: option.splits)

text \<open>An entry that is right for a file: it has folded the lines from where it began to its offset, up to what its
  queries may have dropped.\<close>

definition entry_ok :: "(bytes \<Rightarrow> 'f \<Rightarrow> 'f) \<Rightarrow> ('f \<Rightarrow> 'f \<Rightarrow> bool) \<Rightarrow> 'f \<Rightarrow> nat option \<Rightarrow> bytes \<Rightarrow> 'f fold_entry \<Rightarrow> bool" where
  "entry_ok ingest same start first_read_max bs e \<longleftrightarrow> (\<exists>pre mid rest. bs = pre @ mid @ rest
     \<and> fe_offset e = length (pre @ mid) \<and> begins_at first_read_max (length pre) bs \<and> ends_line mid
     \<and> same (fe_fold e) (fold ingest (events_of Some mid) start))"

lemma catch_up_eq:
  "fold_catch_up ingest bs e = e \<lparr> fe_fold := fold ingest (events_of Some (complete_part (drop (fe_offset e) bs))) (fe_fold e),
      fe_offset := fe_offset e + length (complete_part (drop (fe_offset e) bs)) \<rparr>"
proof (cases "fe_offset e < length bs")
  case True
  let ?buf = "drop (fe_offset e) bs"
  have "take (case rposition 10 ?buf of None \<Rightarrow> 0 | Some i \<Rightarrow> i + 1) ?buf = complete_part ?buf"
    "(case rposition 10 ?buf of None \<Rightarrow> 0 | Some i \<Rightarrow> i + 1) = length (complete_part ?buf)"
    by (cases rule: last_newline_cases [of 10 ?buf];
        simp add: complete_part_def rposition_None [THEN iffD2] rposition_last)+
  then show ?thesis using True by (simp add: fold_catch_up_def ingest_lines_events Let_def)
next
  case False
  then show ?thesis by (simp add: fold_catch_up_def complete_none)
qed

lemma entry_ok_new:
  assumes "\<And>f. same f f"
  shows "entry_ok ingest same start m bs
    \<lparr> fe_id = i, fe_offset = (case m of None \<Rightarrow> 0 | Some k \<Rightarrow> length bs - k), fe_fold = start, fe_read = t \<rparr>"
proof -
  let ?n = "case m of None \<Rightarrow> 0 | Some k \<Rightarrow> length bs - k"
  have "?n \<le> length bs" by (simp split: option.split)
  then show ?thesis unfolding entry_ok_def
    by (intro exI [of _ "take ?n bs"] exI [of _ "[]"] exI [of _ "drop ?n bs"])
      (auto simp: begins_at_def ends_line_def events_of_def kept_rows_def assms List.map_filter_simps split: option.split)
qed

lemma entry_ok_grow:
  assumes "entry_ok ingest same start m bs e"
  shows "entry_ok ingest same start m (bs @ w) e"
proof -
  obtain pre mid rest where "bs = pre @ mid @ rest" "fe_offset e = length (pre @ mid)" "begins_at m (length pre) bs"
    "ends_line mid" "same (fe_fold e) (fold ingest (events_of Some mid) start)"
    using assms unfolding entry_ok_def by blast
  then show ?thesis unfolding entry_ok_def
    by (intro exI [of _ pre] exI [of _ mid] exI [of _ "rest @ w"]) (simp add: begins_later [of m "length pre" "pre @ mid @ rest" w, simplified])
qed

text \<open>A process that appends to journals and asks their folds, in any order; an ask carries the reading of the
  monotonic clock the cache keeps, and the time its query uses.\<close>

datatype 'p fold_step = Append 'p bytes | Ask 'p nat int bool

fun fold_steps :: "(bytes \<Rightarrow> 'f \<Rightarrow> 'f) \<Rightarrow> ('p \<Rightarrow> 'f) \<Rightarrow> (int \<Rightarrow> 'f \<Rightarrow> 'f \<times> 'r) \<Rightarrow> nat option \<Rightarrow> nat \<Rightarrow> ('p \<Rightarrow> nat \<times> nat) \<Rightarrow> 'p fold_step list
    \<Rightarrow> ('p \<Rightarrow> bytes) \<times> ('p \<times> 'f fold_entry) list \<Rightarrow> ('p \<Rightarrow> bytes) \<times> ('p \<times> 'f fold_entry) list" where
  "fold_steps ingest start query m cap ids [] st = st"
| "fold_steps ingest start query m cap ids (Append p w # ss) (files, es) =
     fold_steps ingest start query m cap ids ss (files(p := files p @ w), es)"
| "fold_steps ingest start query m cap ids (Ask p inst now ok # ss) (files, es) =
     fold_steps ingest start query m cap ids ss
       (files, fst (fold_read ingest (start p) (query now) m cap p (FoldFile (ids p) (files p) ok) inst es))"

fun ask_times :: "'p fold_step list \<Rightarrow> int list" where
  "ask_times [] = []"
| "ask_times (Append _ _ # ss) = ask_times ss"
| "ask_times (Ask _ _ now _ # ss) = now # ask_times ss"

definition cache_ok :: "(bytes \<Rightarrow> 'f \<Rightarrow> 'f) \<Rightarrow> ('f \<Rightarrow> 'f \<Rightarrow> bool) \<Rightarrow> ('p \<Rightarrow> 'f) \<Rightarrow> nat option \<Rightarrow> nat \<Rightarrow> ('p \<Rightarrow> nat \<times> nat) \<Rightarrow> ('p \<Rightarrow> bytes)
    \<Rightarrow> ('p \<times> 'f fold_entry) list \<Rightarrow> bool" where
  "cache_ok ingest same start m cap ids files es \<longleftrightarrow>
     (\<forall>(p, e) \<in> set es. entry_ok ingest same (start p) m (files p) e \<and> fe_id e = ids p)
     \<and> distinct (map fst es) \<and> length es \<le> max cap 1"

lemma oldest_mem: "es \<noteq> [] \<Longrightarrow> \<exists>p. oldest_entry es = Some p \<and> p \<in> fst ` set es"
proof (cases es)
  case (Cons x xs)
  have "fold (\<lambda>y m. if fe_read (snd y) < fe_read (snd m) then y else m) xs x \<in> set (x # xs)"
    by (induction xs arbitrary: x) (auto split: if_splits)
  then show ?thesis using Cons by (force simp: oldest_entry_def)
qed simp

lemma make_room_ok:
  assumes "length es \<le> max cap 1" "path \<notin> fst ` set es" "distinct (map fst es)"
  shows "set (make_room (max cap 1) path es) \<subseteq> set es \<and> length (make_room (max cap 1) path es) < max cap 1
    \<and> distinct (map fst (make_room (max cap 1) path es))"
proof (cases "max cap 1 \<le> length es")
  case True
  then have "es \<noteq> []" by auto
  from oldest_mem [OF this] obtain p where p: "oldest_entry es = Some p" "p \<in> fst ` set es" by blast
  have "length (filter (\<lambda>x. fst x \<noteq> p) es) < length es"
    using p(2) by (metis (mono_tags, lifting) imageE length_filter_less)
  then show ?thesis
    using assms True p by (auto simp: make_room_def distinct_map_filter)
next
  case False
  have "make_room (max cap 1) path es = es"
    using False unfolding make_room_def by (simp only: simp_thms if_False)
  moreover have "length es < max cap 1" using False by (simp only: not_le)
  ultimately show ?thesis using assms(3) by simp
qed

text \<open>What the cache relies on of a fold whose queries may drop parts of it: \<open>tracks t f g\<close> says that the kept
  state \<open>f\<close> answers every query from time \<open>t\<close> on as the full fold \<open>g\<close> does. Taking in a line, waiting
  and asking keep it so.\<close>

locale tracked_fold =
  fixes ingest :: "bytes \<Rightarrow> 'f \<Rightarrow> 'f" and query :: "int \<Rightarrow> 'f \<Rightarrow> 'f \<times> 'r" and tracks :: "int \<Rightarrow> 'f \<Rightarrow> 'f \<Rightarrow> bool"
  assumes tracks_itself: "tracks t f f"
    and tracks_later: "tracks t f g \<Longrightarrow> t \<le> now \<Longrightarrow> tracks now f g"
    and tracks_ingest: "tracks t f g \<Longrightarrow> tracks t (ingest l f) (ingest l g)"
    and tracks_query: "tracks t f g \<Longrightarrow> tracks t (fst (query t f)) g \<and> snd (query t f) = snd (query t g)"
begin

lemma tracks_fold: "tracks t f g \<Longrightarrow> tracks t (fold ingest ls f) (fold ingest ls g)"
  by (induction ls arbitrary: f g) (auto simp: tracks_ingest)

lemma catch_up_ok:
  assumes "entry_ok ingest (tracks t) start m bs e"
  shows "entry_ok ingest (tracks t) start m bs (fold_catch_up ingest bs e)
    \<and> (\<exists>n. begins_at m n bs \<and> tracks t (fe_fold (fold_catch_up ingest bs e))
        (fold ingest (events_of Some (complete_part (drop n bs))) start))"
proof -
  obtain pre mid rest where e: "bs = pre @ mid @ rest" "fe_offset e = length (pre @ mid)" "begins_at m (length pre) bs"
    "ends_line mid" "tracks t (fe_fold e) (fold ingest (events_of Some mid) start)"
    using assms unfolding entry_ok_def by blast
  have buf: "drop (fe_offset e) bs = rest" by (simp add: e(1,2))
  let ?done = "mid @ complete_part rest"
  obtain t' where r: "rest = complete_part rest @ t'" using complete_split by blast
  have el: "ends_line ?done" using e(4) ends_complete [of rest] by (cases "complete_part rest = []") (auto simp: ends_line_def)
  have tr: "tracks t (fe_fold (fold_catch_up ingest bs e)) (fold ingest (events_of Some ?done) start)"
    using tracks_fold [OF e(5)] by (simp add: catch_up_eq buf events_join [OF e(4)])
  have "bs = pre @ ?done @ t'" using e(1) r by simp
  moreover have "fe_offset (fold_catch_up ingest bs e) = length (pre @ ?done)" unfolding catch_up_eq buf by (simp add: e(2))
  ultimately have "entry_ok ingest (tracks t) start m bs (fold_catch_up ingest bs e)"
    unfolding entry_ok_def using e(3) el tr by blast
  moreover have "complete_part (drop (length pre) bs) = ?done" by (simp add: e(1) complete_join [OF e(4)])
  ultimately show ?thesis using e(3) tr by metis
qed

lemma entry_later: "entry_ok ingest (tracks t) start m bs e \<Longrightarrow> t \<le> now \<Longrightarrow> entry_ok ingest (tracks now) start m bs e"
  unfolding entry_ok_def using tracks_later by blast

lemma entry_asked:
  assumes "entry_ok ingest (tracks t) start m bs e"
  shows "entry_ok ingest (tracks t) start m bs (e \<lparr> fe_fold := fst (query t (fe_fold e)), fe_read := inst \<rparr>)"
proof -
  obtain pre mid rest where "bs = pre @ mid @ rest" "fe_offset e = length (pre @ mid)" "begins_at m (length pre) bs"
    "ends_line mid" "tracks t (fe_fold e) (fold ingest (events_of Some mid) start)"
    using assms unfolding entry_ok_def by blast
  then show ?thesis unfolding entry_ok_def
    by (intro exI [of _ pre] exI [of _ mid] exI [of _ rest]) (simp add: tracks_query)
qed

lemma cache_later:
  "cache_ok ingest (tracks t) start m cap ids files es \<Longrightarrow> t \<le> now \<Longrightarrow> cache_ok ingest (tracks now) start m cap ids files es"
  unfolding cache_ok_def using entry_later by fastforce

lemma fold_read_ok:
  assumes "cache_ok ingest (tracks t) start m cap ids files es" "t \<le> now"
  shows "cache_ok ingest (tracks now) start m cap ids files
      (fst (fold_read ingest (start p) (query now) m cap p (FoldFile (ids p) (files p) ok) inst es))
    \<and> (\<exists>n. begins_at m n (files p)
         \<and> snd (fold_read ingest (start p) (query now) m cap p (FoldFile (ids p) (files p) True) inst es)
           = Some (snd (query now (fold ingest (events_of Some (complete_part (drop n (files p)))) (start p)))))"
proof -
  have k: "cache_ok ingest (tracks now) start m cap ids files es" by (rule cache_later [OF assms])
  define e where "e = (case (case map_of es p of None \<Rightarrow> None
       | Some e \<Rightarrow> if fe_id e = ids p \<and> fe_offset e \<le> length (files p) then Some e else None) of Some e \<Rightarrow> e
     | None \<Rightarrow> \<lparr> fe_id = ids p, fe_offset = (case m of None \<Rightarrow> 0 | Some k \<Rightarrow> length (files p) - k),
                  fe_fold = start p, fe_read = inst \<rparr>)"
  have e: "entry_ok ingest (tracks now) (start p) m (files p) e" "fe_id e = ids p"
    using k entry_ok_new [of "tracks now", OF tracks_itself, of ingest "start p" m "files p"]
    by (auto simp: e_def cache_ok_def dest: map_of_SomeD split: option.split)
  let ?es1 = "filter (\<lambda>x. fst x \<noteq> p) es"
  let ?c = "fold_catch_up ingest (files p) e"
  have c: "entry_ok ingest (tracks now) (start p) m (files p) ?c" "fe_id ?c = ids p"
    using catch_up_ok [OF e(1)] e(2) by (simp_all add: fold_catch_up_def Let_def)
  obtain n where n: "begins_at m n (files p)"
      "tracks now (fe_fold ?c) (fold ingest (events_of Some (complete_part (drop n (files p)))) (start p))"
    using catch_up_ok [OF e(1)] by blast
  have es1: "cache_ok ingest (tracks now) start m cap ids files ?es1" "p \<notin> fst ` set ?es1"
    using k le_trans [OF length_filter_le] by (auto simp: cache_ok_def distinct_map_filter)
  have mr: "set (make_room (max cap 1) p ?es1) \<subseteq> set ?es1" "length (make_room (max cap 1) p ?es1) < max cap 1"
      "distinct (map fst (make_room (max cap 1) p ?es1))"
    using make_room_ok [OF _ es1(2)] es1(1) by (auto simp: cache_ok_def)
  have new: "cache_ok ingest (tracks now) start m cap ids files
      ((p, ?c \<lparr> fe_fold := fst (query now (fe_fold ?c)), fe_read := inst \<rparr>) # make_room (max cap 1) p ?es1)"
    using mr c entry_asked [OF c(1), of inst] es1 unfolding cache_ok_def by fastforce
  have eq: "fold_read ingest (start p) (query now) m cap p (FoldFile (ids p) (files p) ok) inst es
      = (if fe_offset e < length (files p) \<and> \<not> ok then (?es1, None)
         else ((p, ?c \<lparr> fe_fold := fst (query now (fe_fold ?c)), fe_read := inst \<rparr>) # make_room (max cap 1) p ?es1,
               Some (snd (query now (fe_fold ?c)))))" for ok
    by (simp only: fold_read_def fold_view.case option.case Let_def e_def case_prod_beta)
  have "snd (query now (fe_fold ?c)) = snd (query now (fold ingest (events_of Some (complete_part (drop n (files p)))) (start p)))"
    using tracks_query [OF n(2)] by blast
  then show ?thesis using new es1(1) n(1) by (simp add: eq) blast
qed

lemma fold_steps_ok:
  assumes "cache_ok ingest (tracks t) start m cap ids (fst st) (snd st)" "sorted (t # ask_times ss)"
  shows "cache_ok ingest (tracks (last (t # ask_times ss))) start m cap ids (fst (fold_steps ingest start query m cap ids ss st))
    (snd (fold_steps ingest start query m cap ids ss st))"
  using assms
proof (induction ss arbitrary: st t)
  case (Cons step ss)
  obtain files es where st: "st = (files, es)" by (cases st)
  show ?case
  proof (cases step)
    case (Append p w)
    have "cache_ok ingest (tracks t) start m cap ids (files(p := files p @ w)) es"
      using Cons.prems(1) unfolding cache_ok_def st by (fastforce intro: entry_ok_grow)
    then show ?thesis
      using Cons.IH [of t "(files(p := files p @ w), es)"] Cons.prems(2)
      by (simp only: st Append fold_steps.simps ask_times.simps fst_conv snd_conv)
  next
    case (Ask p inst now ok)
    have "t \<le> now" using Cons.prems(2) by (simp add: Ask)
    then have "cache_ok ingest (tracks now) start m cap ids files
        (fst (fold_read ingest (start p) (query now) m cap p (FoldFile (ids p) (files p) ok) inst es))"
      using Cons.prems(1) unfolding st fst_conv snd_conv by (intro conjunct1 [OF fold_read_ok])
    moreover have "sorted (now # ask_times ss)" "last (t # ask_times (Ask p inst now ok # ss)) = last (now # ask_times ss)"
      using Cons.prems(2) by (simp_all add: Ask)
    ultimately show ?thesis
      using Cons.IH [of now "(files, fst (fold_read ingest (start p) (query now) m cap p (FoldFile (ids p) (files p) ok) inst es))"]
      by (simp only: st Ask fold_steps.simps fst_conv snd_conv)
  qed
qed simp

text \<open>An ask after any steps: what it answers, and how many entries there are.\<close>

lemma cached_answer:
  assumes "sorted (ask_times ss @ [now])" "fold_steps ingest start query m cap ids ss (\<lambda>_. [], []) = (files, es)"
  shows "(\<exists>n. begins_at m n (files p)
         \<and> snd (fold_read ingest (start p) (query now) m cap p (FoldFile (ids p) (files p) True) inst es)
           = Some (snd (query now (fold ingest (events_of Some (complete_part (drop n (files p)))) (start p)))))
    \<and> length es \<le> max cap 1"
proof -
  let ?t = "hd (ask_times ss @ [now])"
  have s: "sorted (?t # ask_times ss)" and l: "last (?t # ask_times ss) \<le> now"
    using assms(1) by (cases "ask_times ss"; auto simp: sorted_append)+
  have "cache_ok ingest (tracks ?t) start m cap ids (\<lambda>_. []) []" by (simp add: cache_ok_def)
  then have c: "cache_ok ingest (tracks (last (?t # ask_times ss))) start m cap ids files es"
    using fold_steps_ok [of ?t start m cap ids "(\<lambda>_. [], [])" ss] s assms(2) by simp
  then show ?thesis using conjunct2 [OF fold_read_ok [OF c l]] by (simp add: cache_ok_def)
qed

end

section \<open>What the readers promise\<close>

text \<open>The offsets of the lines: a row's offset splits the file into the lines before it and the lines
  from it on.\<close>

lemma fwd_lines_offsets: "(o1, raw) \<in> set (fwd_lines off bs) \<Longrightarrow> off \<le> o1"
proof (induction off bs rule: fwd_lines.induct)
  case (1 off bs)
  obtain r rest where r: "read_until 10 bs = (r, rest)" by (cases "read_until 10 bs")
  then show ?case
    using 1(1) [OF r [symmetric]] 1(2) by (fastforce simp: fwd_lines.simps [of off bs] split: if_splits)
qed

lemma fwd_lines_cut:
  assumes "(o1, raw) \<in> set (fwd_lines off bs)"
  shows "o1 < off + length bs \<and> ends_line (take (o1 - off) bs)"
  using assms
proof (induction off bs rule: fwd_lines.induct)
  case (1 off bs)
  obtain r rest where r: "read_until 10 bs = (r, rest)" by (cases "read_until 10 bs")
  have bs: "bs = r @ rest" using read_until_append [of 10 bs] r by simp
  have ne: "r \<noteq> []" and m: "(o1, raw) = (off, r) \<or> (o1, raw) \<in> set (fwd_lines (off + length r) rest)"
    using 1(2) r by (auto simp: fwd_lines.simps [of off bs] split: if_splits)
  from m show ?case
  proof
    assume "(o1, raw) = (off, r)"
    then show ?thesis using ne bs by (simp add: ends_line_def)
  next
    assume t: "(o1, raw) \<in> set (fwd_lines (off + length r) rest)"
    have ih: "o1 < off + length r + length rest" "ends_line (take (o1 - (off + length r)) rest)"
      using 1(1) [OF r [symmetric] ne t] by simp_all
    have le: "off + length r \<le> o1" by (rule fwd_lines_offsets [OF t])
    have "rest \<noteq> []" using t by auto
    have "last r = 10"
    proof (cases rule: first_newline_cases [of 10 bs])
      case none
      then show ?thesis using r \<open>rest \<noteq> []\<close> by (simp add: read_until_none)
    next
      case (first a b)
      then show ?thesis using r by (simp add: read_until_first) force
    qed
    moreover have "take (o1 - off) bs = r @ take (o1 - (off + length r)) rest"
      using le bs by simp
    ultimately show ?thesis using ih bs ne by (auto simp: ends_line_def last_append)
  qed
qed

lemma row_of_offset: "row_of pick l = Some x \<Longrightarrow> fst x = fst l"
  by (auto simp: row_of_def Let_def split: if_splits pick.splits)

lemma kept_rows_before:
  assumes "kept_rows pick bs = A @ (o1, v) # B"
  shows "kept_rows pick (take o1 bs) = A"
proof -
  have "(o1, v) \<in> set (kept_rows pick bs)" using assms by simp
  then obtain raw where raw: "(o1, raw) \<in> set (fwd_lines 0 bs)"
    using row_of_offset unfolding kept_rows_def mem_map_filter by (metis fst_conv prod.collapse)
  have c: "o1 < length bs" "ends_line (take o1 bs)" using fwd_lines_cut [OF raw] by simp_all
  let ?f = "\<lambda>off xs. List.map_filter (row_of pick) (fwd_lines off xs)"
  have split: "kept_rows pick bs = kept_rows pick (take o1 bs) @ ?f o1 (drop o1 bs)"
    using fwd_lines_join [OF c(2), of 0 "drop o1 bs"] c(1)
    by (simp add: kept_rows_def map_filter_append)
  have late: "fst x \<ge> o1" if "x \<in> set (?f o1 (drop o1 bs))" for x
    using that fwd_lines_offsets [of _ _ o1 "drop o1 bs"] row_of_offset
    unfolding mem_map_filter by (metis prod.collapse)
  have early: "fst x < o1" if "x \<in> set (kept_rows pick (take o1 bs))" for x
  proof -
    from that obtain l where l: "l \<in> set (fwd_lines 0 (take o1 bs))" "row_of pick l = Some x"
      by (auto simp: kept_rows_def mem_map_filter)
    then show ?thesis
      using fwd_lines_cut [of "fst l" "snd l" 0 "take o1 bs"] row_of_offset [OF l(2)] c(1) by simp
  qed
  have up: "sorted_wrt (<) (map fst (kept_rows pick bs))" for bs
  proof -
    have "sorted_wrt (<) (map fst (fwd_lines off bs))" for off
    proof (induction off bs rule: fwd_lines.induct)
      case (1 off bs)
      obtain r rest where r: "read_until 10 bs = (r, rest)" by (cases "read_until 10 bs")
      show ?case
      proof (cases "r = []")
        case False
        have "off < fst l" if "l \<in> set (fwd_lines (off + length r) rest)" for l
        proof -
          have "off + length r \<le> fst l"
            using that fwd_lines_offsets [of "fst l" "snd l" "off + length r" rest] by simp
          moreover have "0 < length r" using False by simp
          ultimately show ?thesis by linarith
        qed
        then show ?thesis
          using 1 [OF r [symmetric] False] r False by (simp add: fwd_lines.simps [of off bs])
      qed (simp add: fwd_lines.simps [of off bs] r)
    qed
    moreover have "sorted_wrt (<) (map fst (List.map_filter (row_of pick) ls))" if "sorted_wrt (<) (map fst ls)" for ls
      using that
      by (induction ls) (fastforce simp: List.map_filter_simps mem_map_filter dest!: row_of_offset split: option.split)+
    ultimately show ?thesis by (simp add: kept_rows_def)
  qed
  have "A = takeWhile (\<lambda>x. fst x < o1) (kept_rows pick bs)"
    using up [of bs] unfolding assms by (subst takeWhile_append2) (auto simp: sorted_wrt_append)
  also have "\<dots> = kept_rows pick (take o1 bs)"
  proof -
    have "takeWhile (\<lambda>x. fst x < o1) (?f o1 (drop o1 bs)) = []"
      using late by (cases "?f o1 (drop o1 bs)") (auto simp: not_less)
    then show ?thesis unfolding split using early by (subst takeWhile_append2) auto
  qed
  finally show ?thesis ..
qed

text \<open>C8. For a page of at least one row of a journal of less than \<^verbatim>\<open>u64::MAX\<close> bytes, the tail that reads
  backwards in blocks of 8 KiB shows what a forward scan of the same bytes would: its page holds
  exactly the newest \<^verbatim>\<open>n\<close> parseable rows before the cursor in file order, and it promises older rows
  exactly when the scan met more. It counts no more corrupt lines than the scan, and as many when
  it promises no older rows (otherwise it stopped before the older ones). It reads no byte past
  the cursor.\<close>

theorem tail_equals_scan:
  assumes "0 < n" "n < U64_MAX" "length bs < U64_MAX"
  shows "\<exists>page read evs corrupt. tail_valid_before parse (Content bs) n before = Some (Inr (page, read))
    \<and> scan_stream parse (Content (take (tail_end before bs) bs)) = Inr (evs, corrupt, tail_end before bs)
    \<and> tp_events page = drop (length evs - n) evs \<and> tp_more page = (n < length evs)
    \<and> tp_corrupt page \<le> corrupt \<and> (tp_more page \<or> tp_corrupt page = corrupt) \<and> read \<le> tail_end before bs"
proof -
  have "tail_end before bs < U64_MAX" using assms(3) by (simp add: tail_end_def split: option.split)
  with tail_pick_spec [OF assms(1,2), where before = before and bs = bs and probe = True and mx = U64_MAX
      and pick = "picks parse"]
  obtain page read where p: "tail_valid_before parse (Content bs) n before = Some (Inr (page, read))"
    "read \<le> tail_end before bs"
    "tp_events page = map snd (drop (length (kept_rows (picks parse) (take (tail_end before bs) bs)) - length (tp_events page))
       (kept_rows (picks parse) (take (tail_end before bs) bs)))"
    "tp_corrupt page \<le> corrupt_rows (picks parse) (take (tail_end before bs) bs)"
    "\<not> tp_more page \<longrightarrow> tp_corrupt page = corrupt_rows (picks parse) (take (tail_end before bs) bs)"
    "length (tp_events page) = min n (length (kept_rows (picks parse) (take (tail_end before bs) bs)))"
    "tp_more page = (n < length (kept_rows (picks parse) (take (tail_end before bs) bs)))"
    unfolding tail_valid_before_def tail_filter_map_def by auto
  let ?K = "kept_rows (picks parse) (take (tail_end before bs) bs)"
  have "length ?K - min n (length ?K) = length ?K - n" by simp
  then have ev: "tp_events page = drop (length ?K - n) (map snd ?K)" using p(3) unfolding p(6) by (simp add: drop_map)
  have "length (take (tail_end before bs) bs) = tail_end before bs" by (simp add: tail_end_def)
  then have "scan_stream parse (Content (take (tail_end before bs) bs))
      = Inr (map snd ?K, corrupt_rows (picks parse) (take (tail_end before bs) bs), tail_end before bs)"
    by (simp only: scan_stream_Content)
  then show ?thesis using p ev by auto
qed

definition ex_parse :: "bytes \<Rightarrow> nat option" where
  "ex_parse line = (if line = [120] then None else Some (length line))"

definition ex_journal :: bytes where
  "ex_journal = [97, 10, 120, 10, 10, 98, 98, 10, 99, 99, 99]"

theorem tail_equals_scan_witness:
  "\<exists>page read. tail_valid_before ex_parse (Content ex_journal) 2 None = Some (Inr (page, read))
     \<and> tp_events page = [2, 3] \<and> tp_more page"
proof -
  have h: "(0::nat) < 2" "2 < U64_MAX" "length ex_journal < U64_MAX"
    by (simp_all add: U64_MAX_def ex_journal_def)
  have "scan_stream ex_parse (Content (take (tail_end None ex_journal) ex_journal)) = Inr ([1, 2, 3], 1, 11)"
    by code_simp
  with tail_equals_scan [OF h, of ex_parse None] show ?thesis by auto
qed

text \<open>C35. Every backwards walk returns, whatever the bytes, the budget and the caller's choice of rows: it
  reads at most the bytes before its start, gives at most \<^verbatim>\<open>n\<close> rows, which are the newest of those it
  would keep, and only a page that promises nothing older has seen everything.\<close>

theorem tail_walk_returns:
  assumes "0 < n" "n < U64_MAX"
  shows "\<exists>page read. tail_select (Content bs) n before mx pick = Some (Inr (page, read))
    \<and> read \<le> tail_end before bs \<and> length (tp_events page) \<le> n
    \<and> suffix (tp_events page) (map snd (kept_rows pick (take (tail_end before bs) bs)))
    \<and> (tp_more page \<or> tp_events page = map snd (kept_rows pick (take (tail_end before bs) bs)))"
proof -
  let ?K = "kept_rows pick (take (tail_end before bs) bs)"
  from tail_pick_spec [OF assms, where before = before and bs = bs and probe = True and mx = mx and pick = pick]
  obtain page read where p: "tail_select (Content bs) n before mx pick = Some (Inr (page, read))"
    "read \<le> tail_end before bs" "length (tp_events page) \<le> n"
    "tp_events page = map snd (drop (length ?K - length (tp_events page)) ?K)"
    "\<not> tp_more page \<longrightarrow> length (tp_events page) = length ?K"
    unfolding tail_select_def by auto
  have "suffix (tp_events page) (map snd ?K)"
    by (metis p(4) drop_map suffix_drop)
  moreover have "tp_more page \<or> tp_events page = map snd ?K"
    using p(4,5) by (metis diff_self_eq_0 drop0)
  ultimately show ?thesis using p(1-3) by blast
qed

theorem tail_walk_returns_witness:
  "\<exists>page read. tail_select (Content ex_journal) 1 None 1 (picks ex_parse) = Some (Inr (page, read))
     \<and> length (tp_events page) \<le> 1"
  using tail_walk_returns [of 1 ex_journal None 1 "picks ex_parse"] by (auto simp: U64_MAX_def)

text \<open>C36. Pages tile the journal: the first offset of a page, used as the next cursor, shows exactly the rows
  before it, so walking back page by page loses no row and repeats none, and a page promises more
  exactly when the next one is not empty.\<close>

theorem tail_pages_tile:
  assumes "n < U64_MAX" "length bs < U64_MAX" "0 < n"
    "tail_valid_before parse (Content bs) n before = Some (Inr (page, read))" "tp_first page = Some o1"
  shows "events_of parse (take (tail_end before bs) bs) = events_of parse (take o1 bs) @ tp_events page
    \<and> tp_more page = (events_of parse (take o1 bs) \<noteq> []) \<and> o1 < tail_end before bs"
proof -
  let ?w = "take (tail_end before bs) bs"
  let ?K = "kept_rows (picks parse) ?w"
  have "tail_end before bs < U64_MAX" using assms(2) by (simp add: tail_end_def split: option.split)
  with tail_pick_spec [OF assms(3,1), where before = before and bs = bs and probe = True and mx = U64_MAX
      and pick = "picks parse"] assms(4)
  have p: "tp_events page = map snd (drop (length ?K - length (tp_events page)) ?K)"
    "tp_first page = (case drop (length ?K - length (tp_events page)) ?K of [] \<Rightarrow> None | x # _ \<Rightarrow> Some (fst x))"
    "tp_more page = (n < length ?K)" "length (tp_events page) = min n (length ?K)"
    unfolding tail_valid_before_def tail_filter_map_def by auto
  obtain v B where d: "drop (length ?K - length (tp_events page)) ?K = (o1, v) # B"
    using p(2) assms(5) by (auto split: list.splits)
  let ?A = "take (length ?K - length (tp_events page)) ?K"
  have K: "?K = ?A @ (o1, v) # B" using d by (metis append_take_drop_id)
  then have a: "kept_rows (picks parse) (take o1 ?w) = ?A" by (rule kept_rows_before)
  have "(o1, v) \<in> set ?K" by (subst K) simp
  then obtain l where l: "l \<in> set (fwd_lines 0 ?w)" "row_of (picks parse) l = Some (o1, v)"
    unfolding kept_rows_def mem_map_filter by auto
  have lt: "o1 < length ?w"
    using fwd_lines_cut [of "fst l" "snd l" 0 ?w] l row_of_offset [OF l(2)] by simp
  then have "o1 < tail_end before bs" by simp
  then have t: "take o1 ?w = take o1 bs" by (simp add: min.absorb1)
  have "events_of parse ?w = map snd ?A @ map snd (drop (length ?K - length (tp_events page)) ?K)"
    unfolding events_of_def by (metis append_take_drop_id map_append)
  also have "\<dots> = events_of parse (take o1 bs) @ tp_events page"
    using p(1) a t by (metis events_of_def)
  finally have "events_of parse ?w = events_of parse (take o1 bs) @ tp_events page" .
  moreover have "length ?A = length ?K - n" using p(4) by simp
  then have "tp_more page = (events_of parse (take o1 bs) \<noteq> [])"
    using a t p(3) by (auto simp: events_of_def)
  ultimately show ?thesis using lt by (simp add: tail_end_def)
qed

theorem tail_pages_tile_witness:
  "\<exists>page read. tail_valid_before ex_parse (Content ex_journal) 2 None = Some (Inr (page, read))
     \<and> [1, 2, 3] = events_of ex_parse (take 5 ex_journal) @ tp_events page"
proof -
  have e: "events_of ex_parse (take (tail_end None ex_journal) ex_journal) = [1, 2, 3]" by code_simp
  have k: "kept_rows (picks ex_parse) (take (tail_end None ex_journal) ex_journal) = [(0, 1), (5, 2), (8, 3)]"
    by code_simp
  have h: "(2::nat) < U64_MAX" "length ex_journal < U64_MAX" "tail_end None ex_journal < U64_MAX"
    by (simp_all add: U64_MAX_def ex_journal_def tail_end_def)
  from tail_pick_spec [of 2, where before = None and bs = ex_journal and probe = True and mx = U64_MAX
      and pick = "picks ex_parse"] h k
  obtain page read where p: "tail_valid_before ex_parse (Content ex_journal) 2 None = Some (Inr (page, read))"
    "tp_first page = Some 5"
    unfolding tail_valid_before_def tail_filter_map_def by fastforce
  show ?thesis using tail_pages_tile [OF h(1,2) _ p] p(1) e by auto
qed

text \<open>Reading a journal in increments loses no row and repeats none: two deltas, the second from the
  offset of the first over a file that has grown since, make together the one delta of the grown
  file; and nothing of a line still being written is consumed.\<close>

theorem delta_composes:
  assumes "off \<le> length bs" "read_delta parse (Content bs) off = Inr d1"
    "read_delta parse (Content (bs @ w)) (dt_next d1) = Inr d2"
  shows "read_delta parse (Content (bs @ w)) off
      = Inr \<lparr> dt_events = dt_events d1 @ dt_events d2, dt_next = dt_next d2, dt_corrupt = dt_corrupt d1 + dt_corrupt d2 \<rparr>
    \<and> dt_next d1 \<le> length bs \<and> 10 \<notin> set (drop (dt_next d1) bs)"
proof -
  let ?c = "complete_part (drop off bs)"
  obtain t where t: "drop off bs = ?c @ t" "10 \<notin> set t" using complete_split by blast
  have d1: "d1 = \<lparr> dt_events = events_of parse ?c, dt_next = off + length ?c, dt_corrupt = corrupt_rows (picks parse) ?c \<rparr>"
    using assms(1,2) by (simp add: read_delta_Content)
  have nx: "drop (off + length ?c) bs = t" "off + length ?c \<le> length bs"
    using t(1) assms(1) by (metis append_eq_conv_conj drop_drop add.commute)
      (metis assms(1) t(1) add_le_imp_le_diff length_append length_drop le_add1 Nat.le_diff_conv2 add.commute)
  then have d2: "d2 = \<lparr> dt_events = events_of parse (complete_part (t @ w)),
      dt_next = off + length ?c + length (complete_part (t @ w)),
      dt_corrupt = corrupt_rows (picks parse) (complete_part (t @ w)) \<rparr>"
    using assms(3) by (simp add: d1 read_delta_Content)
  have "drop off (bs @ w) = ?c @ (t @ w)" using t(1) assms(1) by simp
  then have "complete_part (drop off (bs @ w)) = ?c @ complete_part (t @ w)"
    by (simp add: complete_join)
  then show ?thesis
    using assms(1) nx t(2) by (simp add: read_delta_Content d1 d2 events_join corrupt_join)
qed

theorem delta_composes_witness:
  "read_delta ex_parse (Content (ex_journal @ [99, 10])) 2
     = Inr \<lparr> dt_events = [2] @ [4], dt_next = 13, dt_corrupt = 1 + 0 \<rparr>"
proof -
  have h: "2 \<le> length ex_journal"
    "read_delta ex_parse (Content ex_journal) 2 = Inr \<lparr> dt_events = [2], dt_next = 8, dt_corrupt = 1 \<rparr>"
    "read_delta ex_parse (Content (ex_journal @ [99, 10])) 8 = Inr \<lparr> dt_events = [4], dt_next = 13, dt_corrupt = 0 \<rparr>"
    by code_simp+
  show ?thesis using delta_composes [OF h(1,2), of "[99, 10]", simplified, OF h(3)] by simp
qed

text \<open>C37. The cached folds answer as folding the file itself would: however journals grow and whichever of them are
  asked, in any order, with reads that fail and entries evicted along the way, an ask that can read its file
  answers as folding its complete lines would, from its start when first reads are not bounded, and otherwise
  from a point no later than the allowed number of bytes before its end; and the cache holds at most its
  capacity. Queries may drop parts of the fold that can count no more, by the contract of \<^verbatim>\<open>tracked_fold\<close>, and the time
  they use does not go back.\<close>

theorem fold_cache_equals_whole:
  assumes "tracked_fold ingest query tracks" "sorted (ask_times ss @ [now])"
    "fold_steps ingest start query m cap ids ss (\<lambda>_. [], []) = (files, es)"
  shows "(\<exists>n. (case m of None \<Rightarrow> n = 0 | Some k \<Rightarrow> n \<le> length (files p) - k)
         \<and> snd (fold_read ingest (start p) (query now) m cap p (FoldFile (ids p) (files p) True) inst es)
           = Some (snd (query now (fold ingest (events_of Some (complete_part (drop n (files p)))) (start p)))))
    \<and> length es \<le> max cap 1"
  using tracked_fold.cached_answer [OF assms, of p inst] unfolding begins_at_def .

text \<open>A fold that counts the bytes of the lines, and one that drops the lines shorter than the time asked at.\<close>

definition ex_drop :: "int \<Rightarrow> bytes list \<Rightarrow> bytes list \<times> nat" where
  "ex_drop now f = (let kept = filter (\<lambda>l. now \<le> int (length l)) f in (kept, length kept))"

lemma ex_tracked: "tracked_fold (\<lambda>l f. f @ [l]) ex_drop (\<lambda>t f g. filter (\<lambda>l. t \<le> int (length l)) f = filter (\<lambda>l. t \<le> int (length l)) g)"
proof
  fix t now :: int and f g :: "bytes list"
  assume h: "filter (\<lambda>l. t \<le> int (length l)) f = filter (\<lambda>l. t \<le> int (length l)) g" "t \<le> now"
  have "filter (\<lambda>l. now \<le> int (length l)) f = filter (\<lambda>l. now \<le> int (length l)) (filter (\<lambda>l. t \<le> int (length l)) f)" for f :: "bytes list"
    using h(2) by (induction f) auto
  then show "filter (\<lambda>l. now \<le> int (length l)) f = filter (\<lambda>l. now \<le> int (length l)) g" using h(1) by metis
qed (auto simp: ex_drop_def Let_def)

theorem fold_cache_equals_whole_witness:
  "\<exists>files es n. fold_steps (\<lambda>l f. f @ [l]) (\<lambda>_. []) ex_drop (Some 4) 1 (\<lambda>_. (0, 0))
       [Append True [97, 10], Ask True 1 0 True, Ask False 2 1 True, Append True [98, 98, 10, 99]] (\<lambda>_. [], []) = (files, es)
     \<and> n \<le> 2
     \<and> snd (fold_read (\<lambda>l f. f @ [l]) [] (ex_drop 2) (Some 4) 1 True (FoldFile (0, 0) (files True) True) 3 es)
       = Some (snd (ex_drop 2 (events_of Some (complete_part (drop n (files True))))))
     \<and> length es \<le> 1"
proof -
  let ?ss = "[Append True [97, 10], Ask True 1 0 True, Ask False 2 1 True, Append True [98, 98, 10, 99]]"
  obtain files es where st: "fold_steps (\<lambda>l f. f @ [l]) (\<lambda>_. []) ex_drop (Some 4) 1 (\<lambda>_. (0, 0)) ?ss (\<lambda>_. [], []) = (files, es)"
    by fastforce
  have "fst (fold_steps (\<lambda>l f. f @ [l]) (\<lambda>_. []) ex_drop (Some 4) 1 (\<lambda>_. (0, 0)) ?ss (\<lambda>_. [], [])) True
      = [97, 10, 98, 98, 10, 99]" by simp
  then have "files True = [97, 10, 98, 98, 10, 99]" unfolding st by simp
  then have f: "length (files True) - 4 = 2" by simp
  have push: "fold (\<lambda>l f. f @ [l]) ls acc = acc @ ls" for ls acc :: "bytes list" by (induction ls arbitrary: acc) auto
  have "sorted (ask_times ?ss @ [2])" by simp
  from fold_cache_equals_whole [OF ex_tracked this st, of True 3] st f show ?thesis by (auto simp: push)
qed

lemma next_line_reads_all: "10 \<notin> set (rv_todo r) \<Longrightarrow> rv_ok r \<Longrightarrow> rv_bof (fst (next_line r))"
proof (induction r rule: next_line.induct)
  case (1 r)
  have n: "rposition 10 (rv_buffer r) = None" using 1(2) by (simp add: rposition_None rv_todo_def)
  show ?case
  proof (cases "rv_bof r")
    case True
    then show ?thesis using n by (simp add: next_line.simps [of r])
  next
    case False
    then show ?thesis
      using 1(1) [OF n False] 1(2,3) n read_block_ok [OF 1(3)] by (simp add: next_line.simps [of r])
  qed
qed

text \<open>The byte budget of a selective tail bounds the rows it starts on, not the bytes it reads: over a
  journal that is one long row every budget but zero reads the whole of it.\<close>

theorem budget_does_not_bound_a_row:
  assumes "10 \<notin> set bs" "0 < n" "0 < mx"
  shows "\<exists>page. tail_select (Content bs) n None mx pick = Some (Inr (page, length bs))"
proof -
  let ?r = "reverse_open bs None"
  have t: "rv_todo ?r = bs" "rv_ok ?r" "rv_bytes ?r = 0" "rv_bytes ?r + rv_read_pos ?r = length bs"
    by (simp_all add: reverse_open_def rv_todo_def rv_ok_def Let_def)
  obtain r' res where n: "next_line ?r = (r', res)" by (cases "next_line ?r")
  note s = next_line_spec [OF t(2) n]
  have "rv_bof r'" using next_line_reads_all [of ?r] t assms(1) n by simp
  then have b: "rv_bytes r' = length bs" "rv_todo r' = []" "rv_bof r'" "rv_ok r'" "rv_start r' = 0" "rv_buffer r' = []"
  proof -
    show td: "rv_todo r' = []" and ok: "rv_ok r'" and bof: "rv_bof r'"
      using s t(1) assms(1) \<open>rv_bof r'\<close> by simp_all
    show "rv_bytes r' = length bs" "rv_start r' = 0" "rv_buffer r' = []"
      using td ok bof s t(4) by (simp_all add: rv_ok_def rv_todo_def)
  qed
  have again: "next_line r' = (r', None)"
    using b by (simp add: next_line.simps [of r'] rposition_def)
  let ?t = "min (n + 1) U64_MAX"
  have tpos: "0 < ?t" by (simp add: U64_MAX_def)
  have rest: "tail_loop pick ?t mx r' rows0 c0 = Some (rows0, c0, False, r')" for rows0 c0
    using b(3) again by (subst tail_loop.simps) (simp add: needs_read_def)
  have "\<exists>rows c e. tail_loop pick ?t mx ?r [] 0 = Some (rows, c, e, r')"
  proof (cases "bs = []")
    case True
    then have "res = None" using s t(1) by simp
    then show ?thesis using tpos assms(3) t(3) n by (subst tail_loop.simps) auto
  next
    case False
    then have "res = Some (0, bs)" using s t(1) assms(1) by simp
    then show ?thesis
      using tpos assms(3) t(3) n rest
      by (subst tail_loop.simps) (auto simp: Let_def split: pick.split)
  qed
  then show ?thesis
    using assms(2) b(1) unfolding tail_select_def tail_pick_inner_def by (auto simp: Let_def)
qed

theorem budget_does_not_bound_a_row_witness:
  "\<exists>page. tail_select (Content [97, 97, 97]) 1 None 1 (picks ex_parse) = Some (Inr (page, 3))"
  using budget_does_not_bound_a_row [of "[97, 97, 97]" 1 1 "picks ex_parse"] by (simp add: eval_nat_numeral)

end
