(* ===== verification/Progress_Events.thy ===== *)
theory Progress_Events
  imports Session_Activity Jsonl_Journal
begin

text \<open>
  The schema of the progress journal and the admission gate in front of its append
  (\<^verbatim>\<open>ccteam-harness/src/execution/progress_bridge.rs\<close>): the event kinds with their wire names
  and persistence classes, and the reservations that keep periodic latest-state rows apart while
  several tasks write. Hashes are texts; the SHA-256 of the canonical bytes is a parameter.
  Instants and durations are milliseconds.
\<close>

section \<open>Kinds\<close>

datatype event_kind =
      ChatSessionReset | ChatSessionStarted | ChatTurnUserPrompt | ChatTurnCompleted
  | ChatSessionResetWithRecovery | ChatCompactDone | ChatHopEscalate | ChatToolCallStarted
  | ChatBotPermanentFailure | ChatMarkerSelfHealAttempt | ChatTurnRunningLong | ChatTurnTimeout
  | ChatTurnContinues | AgentDone | SessionEvicted | SessionStreamDetached
  | SessionStreamReattached | SessionBodyDetached | SessionBodyExited
  | ChatPermissionPromptOutstanding | DelegationSpawned | DelegationDispatched
  | DelegationCompleted | DelegationNotified | DelegationCollected | DelegationStopped
  | DelegationDenied | DelegationPolicyDenied | ScheduledEnqueued | ScheduledCancelled
  | ScheduledFired | ScheduledFailed | FlowRunStarted | FlowRunFinished | FlowBrakeTripped
  | CodexPlanUpdated | CodexTokenUsage | CodexThreadStatus | CodexRateLimit | TypedEvent
  | MergerLossyPartial

definition event_kinds :: "event_kind list" where
  "event_kinds = [
     ChatSessionReset, ChatSessionStarted, ChatTurnUserPrompt, ChatTurnCompleted,
     ChatSessionResetWithRecovery, ChatCompactDone, ChatHopEscalate, ChatToolCallStarted,
     ChatBotPermanentFailure, ChatMarkerSelfHealAttempt, ChatTurnRunningLong, ChatTurnTimeout,
     ChatTurnContinues, AgentDone, SessionEvicted, SessionStreamDetached,
     SessionStreamReattached, SessionBodyDetached, SessionBodyExited,
     ChatPermissionPromptOutstanding, DelegationSpawned, DelegationDispatched,
     DelegationCompleted, DelegationNotified, DelegationCollected, DelegationStopped,
     DelegationDenied, DelegationPolicyDenied, ScheduledEnqueued, ScheduledCancelled,
     ScheduledFired, ScheduledFailed, FlowRunStarted, FlowRunFinished, FlowBrakeTripped,
     CodexPlanUpdated, CodexTokenUsage, CodexThreadStatus, CodexRateLimit, TypedEvent,
     MergerLossyPartial]"

fun wire_name :: "event_kind \<Rightarrow> string" where
  "wire_name ChatSessionReset = ''chat_session_reset''"
| "wire_name ChatSessionStarted = ''chat_session_started''"
| "wire_name ChatTurnUserPrompt = ''chat_turn_user_prompt''"
| "wire_name ChatTurnCompleted = ''chat_turn_completed''"
| "wire_name ChatSessionResetWithRecovery = ''chat_session_reset_with_recovery''"
| "wire_name ChatCompactDone = ''chat_compact_done''"
| "wire_name ChatHopEscalate = ''chat_hop_escalate''"
| "wire_name ChatToolCallStarted = ''chat_tool_call_started''"
| "wire_name ChatBotPermanentFailure = ''chat_bot_permanent_failure''"
| "wire_name ChatMarkerSelfHealAttempt = ''chat_marker_self_heal_attempt''"
| "wire_name ChatTurnRunningLong = ''chat_turn_running_long''"
| "wire_name ChatTurnTimeout = ''chat_turn_timeout''"
| "wire_name ChatTurnContinues = ''chat_turn_continues''"
| "wire_name AgentDone = ''agent_done''"
| "wire_name SessionEvicted = ''session_evicted''"
| "wire_name SessionStreamDetached = ''session_stream_detached''"
| "wire_name SessionStreamReattached = ''session_stream_reattached''"
| "wire_name SessionBodyDetached = ''session_body_detached''"
| "wire_name SessionBodyExited = ''session_body_exited''"
| "wire_name ChatPermissionPromptOutstanding = ''chat_permission_prompt_outstanding''"
| "wire_name DelegationSpawned = ''delegation_spawned''"
| "wire_name DelegationDispatched = ''delegation_dispatched''"
| "wire_name DelegationCompleted = ''delegation_completed''"
| "wire_name DelegationNotified = ''delegation_notified''"
| "wire_name DelegationCollected = ''delegation_collected''"
| "wire_name DelegationStopped = ''delegation_stopped''"
| "wire_name DelegationDenied = ''delegation_denied''"
| "wire_name DelegationPolicyDenied = ''delegation_policy_denied''"
| "wire_name ScheduledEnqueued = ''scheduled_enqueued''"
| "wire_name ScheduledCancelled = ''scheduled_cancelled''"
| "wire_name ScheduledFired = ''scheduled_fired''"
| "wire_name ScheduledFailed = ''scheduled_failed''"
| "wire_name FlowRunStarted = ''flow_run_started''"
| "wire_name FlowRunFinished = ''flow_run_finished''"
| "wire_name FlowBrakeTripped = ''flow_brake_tripped''"
| "wire_name CodexPlanUpdated = ''codex_plan_updated''"
| "wire_name CodexTokenUsage = ''codex_token_usage''"
| "wire_name CodexThreadStatus = ''codex_thread_status''"
| "wire_name CodexRateLimit = ''codex_rate_limit''"
| "wire_name TypedEvent = ''typed_event''"
| "wire_name MergerLossyPartial = ''merger_lossy_partial''"

text \<open>The arms of \<^verbatim>\<open>from_wire_name\<close>, in order.\<close>

definition wire_arms :: "(utext \<times> event_kind) list" where
  "wire_arms = [
     (lit ''chat_session_reset'', ChatSessionReset),
     (lit ''chat_session_started'', ChatSessionStarted),
     (lit ''chat_turn_user_prompt'', ChatTurnUserPrompt),
     (lit ''chat_turn_completed'', ChatTurnCompleted),
     (lit ''chat_session_reset_with_recovery'', ChatSessionResetWithRecovery),
     (lit ''chat_compact_done'', ChatCompactDone),
     (lit ''chat_hop_escalate'', ChatHopEscalate),
     (lit ''chat_tool_call_started'', ChatToolCallStarted),
     (lit ''chat_bot_permanent_failure'', ChatBotPermanentFailure),
     (lit ''chat_marker_self_heal_attempt'', ChatMarkerSelfHealAttempt),
     (lit ''chat_turn_running_long'', ChatTurnRunningLong),
     (lit ''chat_turn_timeout'', ChatTurnTimeout),
     (lit ''chat_turn_continues'', ChatTurnContinues),
     (lit ''agent_done'', AgentDone),
     (lit ''session_evicted'', SessionEvicted),
     (lit ''session_stream_detached'', SessionStreamDetached),
     (lit ''session_stream_reattached'', SessionStreamReattached),
     (lit ''session_body_detached'', SessionBodyDetached),
     (lit ''session_body_exited'', SessionBodyExited),
     (lit ''chat_permission_prompt_outstanding'', ChatPermissionPromptOutstanding),
     (lit ''delegation_spawned'', DelegationSpawned),
     (lit ''delegation_dispatched'', DelegationDispatched),
     (lit ''delegation_completed'', DelegationCompleted),
     (lit ''delegation_notified'', DelegationNotified),
     (lit ''delegation_collected'', DelegationCollected),
     (lit ''delegation_stopped'', DelegationStopped),
     (lit ''delegation_denied'', DelegationDenied),
     (lit ''delegation_policy_denied'', DelegationPolicyDenied),
     (lit ''scheduled_enqueued'', ScheduledEnqueued),
     (lit ''scheduled_cancelled'', ScheduledCancelled),
     (lit ''scheduled_fired'', ScheduledFired),
     (lit ''scheduled_failed'', ScheduledFailed),
     (lit ''flow_run_started'', FlowRunStarted),
     (lit ''flow_run_finished'', FlowRunFinished),
     (lit ''flow_brake_tripped'', FlowBrakeTripped),
     (lit ''codex_plan_updated'', CodexPlanUpdated),
     (lit ''codex_token_usage'', CodexTokenUsage),
     (lit ''codex_thread_status'', CodexThreadStatus),
     (lit ''codex_rate_limit'', CodexRateLimit),
     (lit ''typed_event'', TypedEvent),
     (lit ''merger_lossy_partial'', MergerLossyPartial)]"

definition from_wire_name :: "utext \<Rightarrow> event_kind option" where
  "from_wire_name v = map_of wire_arms v"

datatype event_scope = ScopeProject | ScopeSession

datatype event_class = Fact | LatestState nat event_scope | Telemetry

definition class_of :: "event_kind \<Rightarrow> event_class" where
  "class_of k = (case k of
       CodexTokenUsage \<Rightarrow> LatestState (30 * 1000) ScopeProject
     | CodexThreadStatus \<Rightarrow> LatestState (30 * 1000) ScopeProject
     | CodexRateLimit \<Rightarrow> LatestState (30 * 1000) ScopeProject
     | ChatTurnRunningLong \<Rightarrow> LatestState (5 * 60 * 1000) ScopeSession
     | _ \<Rightarrow> Fact)"

text \<open>\<^verbatim>\<open>event_kind_name\<close>: the older field is accepted too.\<close>

definition event_kind_name :: "json \<Rightarrow> utext option" where
  "event_kind_name e = (case json_str ''event'' e of Some t \<Rightarrow> Some t | None \<Rightarrow> json_str ''kind'' e)"

section \<open>Semantic content\<close>

definition without_members :: "string list \<Rightarrow> json \<Rightarrow> json" where
  "without_members ks j = (case j of JObj ms \<Rightarrow> JObj (filter (\<lambda>m. fst m \<notin> set (map lit ks)) ms) | _ \<Rightarrow> j)"

definition METADATA_FIELDS :: "string list" where
  "METADATA_FIELDS = [''event'', ''kind'', ''vendor'', ''ts'', ''role'', ''sid'', ''slug'', ''thread_id'', ''turn_id'', ''session'']"

definition semantic_content_payload :: "json \<Rightarrow> json" where
  "semantic_content_payload e = without_members METADATA_FIELDS e"

fun semantic_payload_is_all_null :: "json \<Rightarrow> bool" where
  "semantic_payload_is_all_null JNull = True"
| "semantic_payload_is_all_null (JArr vs) = list_all semantic_payload_is_all_null vs"
| "semantic_payload_is_all_null (JObj ms) = list_all (\<lambda>m. semantic_payload_is_all_null (snd m)) ms"
| "semantic_payload_is_all_null _ = False"

definition semantic_hash :: "(json \<Rightarrow> bytes) \<Rightarrow> (bytes \<Rightarrow> utext) \<Rightarrow> json \<Rightarrow> utext" where
  "semantic_hash ser sha e = sha (ser (without_members [''ts''] e))"

section \<open>Admission\<close>

type_synonym admission_key = "utext \<times> event_kind \<times> utext option"

record latest_entry =
  le_persisted :: "(utext \<times> nat) option"
  le_pending :: "(utext \<times> nat) option"

definition empty_entry :: latest_entry where
  "empty_entry = \<lparr> le_persisted = None, le_pending = None \<rparr>"

record kind_counters =
  kc_unknown :: bool
  kc_appended :: nat
  kc_appended_bytes :: nat
  kc_suppressed :: nat
  kc_suppressed_bytes :: nat

record admission =
  ad_latest :: "admission_key \<Rightarrow> latest_entry option"
  ad_next :: nat
  ad_stats :: "utext \<Rightarrow> kind_counters option"

definition fresh_admission :: admission where
  "fresh_admission = \<lparr> ad_latest = (\<lambda>_. None), ad_next = 0, ad_stats = (\<lambda>_. None) \<rparr>"

record reservation =
  rs_key :: admission_key
  rs_id :: nat
  rs_hash :: utext

definition put_latest :: "admission_key \<Rightarrow> latest_entry \<Rightarrow> admission \<Rightarrow> admission" where
  "put_latest key e st = st \<lparr> ad_latest := (ad_latest st)(key \<mapsto> e) \<rparr>"

text \<open>Nothing is reserved while a write of the key is in flight, for a value that is the persisted one, or
  too soon after it.\<close>

definition reserve_latest :: "admission_key \<Rightarrow> utext \<Rightarrow> nat \<Rightarrow> nat \<Rightarrow> admission \<Rightarrow> admission \<times> reservation option" where
  "reserve_latest key hash now min_interval st =
     (let entry = (case ad_latest st key of Some e \<Rightarrow> e | None \<Rightarrow> empty_entry);
          st1 = put_latest key entry st in
      if le_pending entry \<noteq> None then (st1, None)
      else if (case le_persisted entry of Some (h, _) \<Rightarrow> h = hash | None \<Rightarrow> False) then (st1, None)
      else if (case le_persisted entry of Some (_, at) \<Rightarrow> now - at < min_interval | None \<Rightarrow> False) then (st1, None)
      else (let ident = u64 (ad_next st1 + 1) in
            (put_latest key (entry \<lparr> le_pending := Some (hash, ident) \<rparr>) (st1 \<lparr> ad_next := ident \<rparr>),
             Some \<lparr> rs_key = key, rs_id = ident, rs_hash = hash \<rparr>)))"

definition finish_latest :: "reservation \<Rightarrow> bool \<Rightarrow> nat \<Rightarrow> admission \<Rightarrow> admission" where
  "finish_latest r persisted now st = (case ad_latest st (rs_key r) of
       None \<Rightarrow> st
     | Some entry \<Rightarrow>
         (if le_pending entry \<noteq> Some (rs_hash r, rs_id r) then st
          else if persisted
          then put_latest (rs_key r) (entry \<lparr> le_pending := None, le_persisted := Some (rs_hash r, now) \<rparr>) st
          else if le_persisted entry = None
          then st \<lparr> ad_latest := (ad_latest st)(rs_key r := None) \<rparr>
          else put_latest (rs_key r) (entry \<lparr> le_pending := None \<rparr>) st))"

definition counters_of :: "utext \<Rightarrow> admission \<Rightarrow> kind_counters" where
  "counters_of kind st = (case ad_stats st kind of Some c \<Rightarrow> c
     | None \<Rightarrow> \<lparr> kc_unknown = False, kc_appended = 0, kc_appended_bytes = 0, kc_suppressed = 0, kc_suppressed_bytes = 0 \<rparr>)"

definition u64_saturating_add :: "nat \<Rightarrow> nat \<Rightarrow> nat" where
  "u64_saturating_add a b = min (a + b) U64_MAX"

definition record_appended :: "utext \<Rightarrow> bool \<Rightarrow> nat \<Rightarrow> admission \<Rightarrow> admission" where
  "record_appended kind unknown n st = (let c = counters_of kind st in
     st \<lparr> ad_stats := (ad_stats st)(kind \<mapsto> c \<lparr> kc_unknown := kc_unknown c \<or> unknown,
        kc_appended := u64_saturating_add (kc_appended c) 1,
        kc_appended_bytes := u64_saturating_add (kc_appended_bytes c) n \<rparr>) \<rparr>)"

definition record_suppressed :: "utext \<Rightarrow> bool \<Rightarrow> nat \<Rightarrow> admission \<Rightarrow> admission" where
  "record_suppressed kind unknown n st = (let c = counters_of kind st in
     st \<lparr> ad_stats := (ad_stats st)(kind \<mapsto> c \<lparr> kc_unknown := kc_unknown c \<or> unknown,
        kc_suppressed := u64_saturating_add (kc_suppressed c) 1,
        kc_suppressed_bytes := u64_saturating_add (kc_suppressed_bytes c) n \<rparr>) \<rparr>)"

text \<open>What the gate decides for one event, before anything is written.\<close>

datatype gate = Suppress | Write "reservation option"

definition admission_gate :: "(json \<Rightarrow> bytes) \<Rightarrow> (bytes \<Rightarrow> utext) \<Rightarrow> utext \<Rightarrow> json \<Rightarrow> nat \<Rightarrow> nat option \<Rightarrow> admission
    \<Rightarrow> admission \<times> gate" where
  "admission_gate ser sha path e now interval_override st =
     (let known = Option.bind (event_kind_name e) from_wire_name in
      case (case known of Some k \<Rightarrow> class_of k | None \<Rightarrow> Fact) of
        Fact \<Rightarrow> (st, Write None)
      | Telemetry \<Rightarrow> (st, Suppress)
      | LatestState min_interval scope \<Rightarrow>
          (if semantic_payload_is_all_null (semantic_content_payload e) then (st, Suppress)
           else (let key = (path, the known, case scope of ScopeProject \<Rightarrow> None | ScopeSession \<Rightarrow> json_str ''sid'' e);
                     interval = (case interval_override of Some i \<Rightarrow> i | None \<Rightarrow> min_interval) in
                 case reserve_latest key (semantic_hash ser sha e) now interval st of
                   (st1, Some r) \<Rightarrow> (st1, Write (Some r))
                 | (st1, None) \<Rightarrow> (st1, Suppress))))"

section \<open>Concurrent writers\<close>

text \<open>How an append ends: the row is in the file and the task is told so; nothing was written; or the row is in the
  file and the task is told of a failure all the same, of the file's size or of the rotation after it.\<close>

datatype append_end = Appended | NothingWritten | WrittenButFailed

text \<open>Any number of tasks write latest-state rows: each reserves, appends and finishes, in any
  interleaving, and an append may end in any way. \<^verbatim>\<open>iv\<close> is the interval of a key; the rows that were written are
  kept in order, with whether the append was reported as done.\<close>

inductive writers :: "(admission_key \<Rightarrow> nat) \<Rightarrow> admission \<Rightarrow> (reservation \<times> nat) list
    \<Rightarrow> (admission_key \<times> utext \<times> nat \<times> bool) list \<Rightarrow> bool" for iv where
  idle: "writers iv fresh_admission [] []"
| refuse: "writers iv st fl rows \<Longrightarrow> reserve_latest key h now (iv key) st = (st', None) \<Longrightarrow> writers iv st' fl rows"
| reserve: "writers iv st fl rows \<Longrightarrow> reserve_latest key h now (iv key) st = (st', Some r)
    \<Longrightarrow> writers iv st' (fl @ [(r, now)]) rows"
| finish: "writers iv st (fl1 @ (r, now) # fl2) rows
    \<Longrightarrow> writers iv (finish_latest r (out = Appended) now st) (fl1 @ fl2)
          (if out = NothingWritten then rows else rows @ [(rs_key r, rs_hash r, now, out = Appended)])"

definition key_rows :: "admission_key \<Rightarrow> (admission_key \<times> utext \<times> nat \<times> bool) list \<Rightarrow> (utext \<times> nat \<times> bool) list" where
  "key_rows key rows = map snd (filter (\<lambda>row. fst row = key) rows)"

definition spaced :: "nat \<Rightarrow> utext \<times> nat \<Rightarrow> utext \<times> nat \<Rightarrow> bool" where
  "spaced i a b \<longleftrightarrow> fst a \<noteq> fst b \<and> i \<le> snd b - snd a"

text \<open>Every row differs from the last reported one before it, and lies the interval after it.\<close>

fun well_spaced :: "nat \<Rightarrow> (utext \<times> nat) option \<Rightarrow> (utext \<times> nat \<times> bool) list \<Rightarrow> bool" where
  "well_spaced i p [] \<longleftrightarrow> True"
| "well_spaced i p ((h, t, ok) # rows) \<longleftrightarrow> (case p of None \<Rightarrow> True | Some q \<Rightarrow> spaced i q (h, t))
     \<and> well_spaced i (if ok then Some (h, t) else p) rows"

fun last_reported :: "(utext \<times> nat) option \<Rightarrow> (utext \<times> nat \<times> bool) list \<Rightarrow> (utext \<times> nat) option" where
  "last_reported p [] = p"
| "last_reported p ((h, t, ok) # rows) = last_reported (if ok then Some (h, t) else p) rows"

lemma last_reported_snoc: "last_reported p (rows @ [(h, t, ok)]) = (if ok then Some (h, t) else last_reported p rows)"
  by (induction p rows rule: last_reported.induct) auto

lemma well_spaced_snoc: "well_spaced i p (rows @ [(h, t, ok)])
    \<longleftrightarrow> well_spaced i p rows \<and> (case last_reported p rows of None \<Rightarrow> True | Some q \<Rightarrow> spaced i q (h, t))"
  by (induction p rows rule: last_reported.induct) auto

lemma reported_spaced:
  "well_spaced i p rows \<Longrightarrow> successively (spaced i) ((case p of None \<Rightarrow> [] | Some q \<Rightarrow> [q])
     @ map (\<lambda>(h, t, ok). (h, t)) (filter (\<lambda>(h, t, ok). ok) rows))"
proof (induction p rows rule: last_reported.induct)
  case (1 p)
  then show ?case by (cases p) simp_all
next
  case (2 p h t ok rows)
  then show ?case by (cases p; cases ok) simp_all
qed

definition entry_of :: "admission_key \<Rightarrow> admission \<Rightarrow> latest_entry" where
  "entry_of key st = (case ad_latest st key of Some e \<Rightarrow> e | None \<Rightarrow> empty_entry)"

text \<open>A reservation in flight is the pending one of its key and fits after the last row; the persisted value
  of a key is its last reported row.\<close>

definition flight_ok :: "(admission_key \<Rightarrow> nat) \<Rightarrow> admission \<Rightarrow> reservation \<times> nat \<Rightarrow> bool" where
  "flight_ok iv st f \<longleftrightarrow> ad_latest st (rs_key (fst f)) \<noteq> None
     \<and> le_pending (entry_of (rs_key (fst f)) st) = Some (rs_hash (fst f), rs_id (fst f))
     \<and> (case le_persisted (entry_of (rs_key (fst f)) st) of None \<Rightarrow> True
        | Some p \<Rightarrow> spaced (iv (rs_key (fst f))) p (rs_hash (fst f), snd f))"

definition key_ok :: "(admission_key \<Rightarrow> nat) \<Rightarrow> admission \<Rightarrow> (admission_key \<times> utext \<times> nat \<times> bool) list \<Rightarrow> admission_key \<Rightarrow> bool" where
  "key_ok iv st rows key \<longleftrightarrow> well_spaced (iv key) None (key_rows key rows)
     \<and> le_persisted (entry_of key st) = last_reported None (key_rows key rows)"

definition writers_ok :: "(admission_key \<Rightarrow> nat) \<Rightarrow> admission \<Rightarrow> (reservation \<times> nat) list
    \<Rightarrow> (admission_key \<times> utext \<times> nat \<times> bool) list \<Rightarrow> bool" where
  "writers_ok iv st fl rows \<longleftrightarrow> distinct (map (\<lambda>f. rs_key (fst f)) fl)
     \<and> (\<forall>f \<in> set fl. flight_ok iv st f) \<and> (\<forall>key. key_ok iv st rows key)"

lemma entry_put: "entry_of key (put_latest k e st) = (if key = k then e else entry_of key st)"
  by (simp add: entry_of_def put_latest_def)

lemma latest_put [simp]: "ad_latest (put_latest k e st) = (ad_latest st)(k \<mapsto> e)"
  by (simp add: put_latest_def)

lemma entry_next [simp]: "entry_of key (st \<lparr> ad_next := n \<rparr>) = entry_of key st"
  by (simp add: entry_of_def)

lemma reserve_refused:
  assumes "reserve_latest key h now i st = (st', None)"
  shows "entry_of k st' = entry_of k st \<and> (ad_latest st k \<noteq> None \<longrightarrow> ad_latest st' k \<noteq> None)"
proof -
  have "st' = put_latest key (entry_of key st) st"
    using assms by (auto simp: reserve_latest_def entry_of_def Let_def split: if_splits)
  then show ?thesis by (simp add: entry_put)
qed

lemma reserve_granted:
  assumes "reserve_latest key h now i st = (st', Some r)"
  shows "rs_key r = key \<and> rs_hash r = h \<and> le_pending (entry_of key st) = None
    \<and> (case le_persisted (entry_of key st) of None \<Rightarrow> True | Some p \<Rightarrow> spaced i p (h, now))
    \<and> entry_of k st' = (if k = key then (entry_of key st) \<lparr> le_pending := Some (h, rs_id r) \<rparr> else entry_of k st)
    \<and> (ad_latest st k \<noteq> None \<or> k = key \<longrightarrow> ad_latest st' k \<noteq> None)"
  using assms
  by (cases "le_pending (entry_of key st)"; cases "le_persisted (entry_of key st)")
    (auto simp: reserve_latest_def entry_of_def [symmetric] entry_put spaced_def Let_def split: if_splits)

lemma finish_entry:
  assumes "flight_ok iv st (r, now)"
  shows "le_pending (entry_of (rs_key r) (finish_latest r ok now st)) = None
    \<and> le_persisted (entry_of (rs_key r) (finish_latest r ok now st))
        = (if ok then Some (rs_hash r, now) else le_persisted (entry_of (rs_key r) st))
    \<and> (k \<noteq> rs_key r \<longrightarrow> entry_of k (finish_latest r ok now st) = entry_of k st
        \<and> ad_latest (finish_latest r ok now st) k = ad_latest st k)"
proof -
  obtain e where e: "ad_latest st (rs_key r) = Some e" using assms by (auto simp: flight_ok_def)
  then have p: "le_pending e = Some (rs_hash r, rs_id r)" using assms by (simp add: flight_ok_def entry_of_def)
  show ?thesis
  proof (cases "ok \<or> le_persisted e \<noteq> None")
    case True
    then show ?thesis using e p by (auto simp: finish_latest_def entry_of_def)
  next
    case False
    then show ?thesis using e p by (auto simp: finish_latest_def entry_of_def empty_entry_def)
  qed
qed

lemma key_rows_snoc: "key_rows k (rows @ [(key, p)]) = key_rows k rows @ (if k = key then [p] else [])"
  by (simp add: key_rows_def)

lemma writers_invariant: "writers iv st fl rows \<Longrightarrow> writers_ok iv st fl rows"
proof (induction rule: writers.induct)
  case idle
  then show ?case by (simp add: writers_ok_def key_ok_def key_rows_def entry_of_def fresh_admission_def empty_entry_def)
next
  case (refuse st fl rows key h now st')
  then show ?case
    using reserve_refused [OF refuse(2)] by (simp add: writers_ok_def flight_ok_def key_ok_def)
next
  case (reserve st fl rows key h now st' r)
  have g: "rs_key r = key" "rs_hash r = h" "le_pending (entry_of key st) = None"
      "case le_persisted (entry_of key st) of None \<Rightarrow> True | Some p \<Rightarrow> spaced (iv key) p (h, now)"
    using reserve_granted [OF reserve(2)] by simp_all
  have en: "entry_of k st' = (if k = key then (entry_of key st) \<lparr> le_pending := Some (h, rs_id r) \<rparr> else entry_of k st)"
      "ad_latest st k \<noteq> None \<or> k = key \<Longrightarrow> ad_latest st' k \<noteq> None" for k
    using reserve_granted [OF reserve(2), of k] by simp_all
  have fresh: "rs_key (fst f) \<noteq> key" if "f \<in> set fl" for f
    using that reserve(3) g(3) by (force simp: writers_ok_def flight_ok_def)
  have old: "flight_ok iv st' f" if "f \<in> set fl" for f
    using that reserve(3) fresh [OF that] en [of "rs_key (fst f)"] by (simp add: writers_ok_def flight_ok_def)
  have new: "flight_ok iv st' (r, now)"
    using g en [of key] by (auto simp: flight_ok_def split: option.splits)
  have keys: "key_ok iv st' rows k" for k
  proof -
    have "key_ok iv st rows k" using reserve(3) unfolding writers_ok_def by blast
    then show ?thesis using en(1) [of k] by (cases "k = key") (simp_all add: key_ok_def)
  qed
  have "rs_key r \<notin> (\<lambda>f. rs_key (fst f)) ` set fl" using fresh g(1) by force
  moreover have "distinct (map (\<lambda>f. rs_key (fst f)) fl)" using reserve(3) by (simp add: writers_ok_def)
  ultimately have "distinct (map (\<lambda>f. rs_key (fst f)) (fl @ [(r, now)]))" by simp
  moreover have "\<forall>f \<in> set (fl @ [(r, now)]). flight_ok iv st' f" using old new by simp
  ultimately show ?case unfolding writers_ok_def using keys by blast
next
  case (finish st fl1 r now fl2 rows out)
  define ok where "ok = (out = Appended)"
  have w: "distinct (map (\<lambda>f. rs_key (fst f)) (fl1 @ (r, now) # fl2))"
    "\<And>g. g \<in> set (fl1 @ (r, now) # fl2) \<Longrightarrow> flight_ok iv st g" "\<And>k. key_ok iv st rows k"
    using finish(2) unfolding writers_ok_def by blast+
  have f: "flight_ok iv st (r, now)" by (rule w(2)) simp
  have other: "flight_ok iv (finish_latest r ok now st) g" if "g \<in> set (fl1 @ fl2)" for g
  proof -
    have m: "rs_key (fst g) \<in> (\<lambda>f. rs_key (fst f)) ` set fl1 \<union> (\<lambda>f. rs_key (fst f)) ` set fl2"
      using that unfolding set_append image_Un [symmetric] by (rule imageI)
    have "rs_key r \<notin> (\<lambda>f. rs_key (fst f)) ` set fl1 \<union> (\<lambda>f. rs_key (fst f)) ` set fl2" using w(1) by simp
    then have "rs_key (fst g) \<noteq> rs_key r" using m by metis
    moreover have "flight_ok iv st g" by (rule w(2)) (use that in auto)
    ultimately show ?thesis using finish_entry [OF f, of ok "rs_key (fst g)"] by (simp add: flight_ok_def)
  qed
  have keys: "key_ok iv (finish_latest r ok now st) (if out = NothingWritten then rows else rows @ [(rs_key r, rs_hash r, now, ok)]) k" for k
  proof (cases "k = rs_key r")
    case True
    then have fe: "le_persisted (entry_of k (finish_latest r ok now st))
        = (if ok then Some (rs_hash r, now) else le_persisted (entry_of k st))"
      using finish_entry [OF f, of ok k] by simp
    have fit: "case le_persisted (entry_of k st) of None \<Rightarrow> True | Some p \<Rightarrow> spaced (iv k) p (rs_hash r, now)"
      using f unfolding flight_ok_def True fst_conv snd_conv by blast
    show ?thesis
      using w(3) [of k] fe fit [unfolded True] True
      by (cases out) (simp_all add: key_ok_def key_rows_snoc well_spaced_snoc last_reported_snoc ok_def)
  next
    case False
    then show ?thesis
      using w(3) [of k] finish_entry [OF f, of ok k] by (simp add: key_ok_def key_rows_snoc)
  qed
  have "distinct (map (\<lambda>f. rs_key (fst f)) (fl1 @ fl2))" using w(1) by auto
  then show ?case unfolding writers_ok_def ok_def [symmetric] using other keys by blast
qed

text \<open>C38. However many tasks write at once and however their appends end, every row of a latest-state key carries
  other content than the last row of the key whose append was reported as done, and lies at least the key's interval
  after it; so any two successive reported rows do. A row written by an append that then reported a failure (its size
  could not be read, or the rotation failed) does not hold back the next. No key has two writes in flight.\<close>

theorem latest_state_rows_are_spaced:
  assumes "writers iv st fl rows"
  shows "well_spaced (iv key) None (key_rows key rows)
    \<and> successively (\<lambda>a b. fst a \<noteq> fst b \<and> iv key \<le> snd b - snd a)
        (map (\<lambda>(h, t, ok). (h, t)) (filter (\<lambda>(h, t, ok). ok) (key_rows key rows)))
    \<and> distinct (map (\<lambda>f. rs_key (fst f)) fl)"
proof -
  have w: "writers_ok iv st fl rows" by (rule writers_invariant [OF assms])
  then have "key_ok iv st rows key" unfolding writers_ok_def by blast
  then have s: "well_spaced (iv key) None (key_rows key rows)" by (simp add: key_ok_def)
  from reported_spaced [OF this] have "successively (\<lambda>a b. fst a \<noteq> fst b \<and> iv key \<le> snd b - snd a)
      (map (\<lambda>(h, t, ok). (h, t)) (filter (\<lambda>(h, t, ok). ok) (key_rows key rows)))"
    by (simp add: spaced_def [abs_def])
  then show ?thesis using w s by (simp add: writers_ok_def)
qed

theorem latest_state_rows_are_spaced_witness:
  "\<exists>st rows. writers (\<lambda>_. 30) st [] rows \<and> key_rows (lit ''p'', CodexRateLimit, None) rows = [(lit ''h1'', 5, True), (lit ''h2'', 40, True)]
     \<and> well_spaced 30 None (key_rows (lit ''p'', CodexRateLimit, None) rows)"
proof -
  let ?k = "(lit ''p'', CodexRateLimit, None)"
  let ?iv = "\<lambda>_::admission_key. 30::nat"
  have put: "ad_latest (put_latest k e s) = (ad_latest s)(k \<mapsto> e)" for k e s by (simp add: put_latest_def)
  obtain s1 r1 where r1: "reserve_latest ?k (lit ''h1'') 5 30 fresh_admission = (s1, Some r1)"
    by (simp add: reserve_latest_def fresh_admission_def empty_entry_def Let_def)
  have g1: "rs_key r1 = ?k" "rs_hash r1 = lit ''h1''" using reserve_granted [OF r1] by simp_all
  have w1: "writers ?iv s1 ([] @ (r1, 5) # []) []"
    using writers.reserve [OF writers.idle, of ?k "lit ''h1''" 5 ?iv s1 r1] r1 by simp
  let ?s2 = "finish_latest r1 True 5 s1"
  have w2: "writers ?iv ?s2 [] [(?k, lit ''h1'', 5, True)]"
    using writers.finish [OF w1, of Appended] g1 by simp
  have "flight_ok ?iv s1 (r1, 5)" using writers_invariant [OF w1] by (simp add: writers_ok_def)
  then have e2: "le_pending (entry_of ?k ?s2) = None" "le_persisted (entry_of ?k ?s2) = Some (lit ''h1'', 5)"
    using finish_entry [of ?iv s1 r1 5 True ?k] g1 by simp_all
  obtain s3 r3 where r3: "reserve_latest ?k (lit ''h2'') 40 30 ?s2 = (s3, Some r3)"
    using e2 by (simp add: reserve_latest_def entry_of_def [symmetric] Let_def)
  have g3: "rs_key r3 = ?k" "rs_hash r3 = lit ''h2''" using reserve_granted [OF r3] by simp_all
  have w3: "writers ?iv s3 ([] @ (r3, 40) # []) [(?k, lit ''h1'', 5, True)]"
    using writers.reserve [OF w2, of ?k "lit ''h2''" 40 s3 r3] r3 by simp
  have w4: "writers ?iv (finish_latest r3 True 40 s3) [] [(?k, lit ''h1'', 5, True), (?k, lit ''h2'', 40, True)]"
    using writers.finish [OF w3, of Appended] g3 by simp
  show ?thesis
    using w4 latest_state_rows_are_spaced [OF w4, of ?k]
    by (intro exI [of _ "finish_latest r3 True 40 s3"]
        exI [of _ "[(?k, lit ''h1'', 5, True), (?k, lit ''h2'', 40, True)]"] conjI) (simp_all add: key_rows_def)
qed

text \<open>An append that wrote its row and then failed leaves the key free, so the same content is written again at
  once, within any interval.\<close>

theorem failed_append_repeats_its_row:
  "\<exists>st. writers (\<lambda>_. 30) st [] [((lit ''p'', CodexRateLimit, None), lit ''h1'', 5, False),
     ((lit ''p'', CodexRateLimit, None), lit ''h1'', 5, True)]"
proof -
  let ?k = "(lit ''p'', CodexRateLimit, None)"
  let ?iv = "\<lambda>_::admission_key. 30::nat"
  obtain s1 r1 where r1: "reserve_latest ?k (lit ''h1'') 5 30 fresh_admission = (s1, Some r1)"
    by (simp add: reserve_latest_def fresh_admission_def empty_entry_def Let_def)
  have g1: "rs_key r1 = ?k" "rs_hash r1 = lit ''h1''" "le_persisted (entry_of ?k s1) = None"
    using reserve_granted [OF r1, of ?k] by (simp_all add: entry_of_def fresh_admission_def empty_entry_def)
  have w1: "writers ?iv s1 ([] @ (r1, 5) # []) []"
    using writers.reserve [OF writers.idle, of ?k "lit ''h1''" 5 ?iv s1 r1] r1 by simp
  let ?s2 = "finish_latest r1 False 5 s1"
  have w2: "writers ?iv ?s2 [] [(?k, lit ''h1'', 5, False)]"
    using writers.finish [OF w1, of WrittenButFailed] g1 by simp
  have "flight_ok ?iv s1 (r1, 5)" using writers_invariant [OF w1] by (simp add: writers_ok_def)
  then have e2: "le_pending (entry_of ?k ?s2) = None" "le_persisted (entry_of ?k ?s2) = None"
    using finish_entry [of ?iv s1 r1 5 False ?k] g1 by simp_all
  obtain s3 r3 where r3: "reserve_latest ?k (lit ''h1'') 5 30 ?s2 = (s3, Some r3)"
    using e2 by (simp add: reserve_latest_def entry_of_def [symmetric] Let_def)
  have g3: "rs_key r3 = ?k" "rs_hash r3 = lit ''h1''" using reserve_granted [OF r3] by simp_all
  have w3: "writers ?iv s3 ([] @ (r3, 5) # []) [(?k, lit ''h1'', 5, False)]"
    using writers.reserve [OF w2, of ?k "lit ''h1''" 5 s3 r3] r3 by simp
  have "writers ?iv (finish_latest r3 True 5 s3) [] [(?k, lit ''h1'', 5, False), (?k, lit ''h1'', 5, True)]"
    using writers.finish [OF w3, of Appended] g3 by simp
  then show ?thesis by blast
qed

lemma wire_arms_iff: "(v, k) \<in> set wire_arms \<longleftrightarrow> v = lit (wire_name k)"
  by (cases k) (simp_all add: wire_arms_def)

lemma wire_arms_distinct: "distinct (map fst wire_arms)"
  by (simp add: wire_arms_def)

text \<open>C39. The wire names of the schema round-trip: a text parses to a kind exactly when it is that kind's
  name, and the enumeration of kinds lists every one once.\<close>

theorem wire_names_round_trip:
  "(from_wire_name v = Some k) = (v = lit (wire_name k)) \<and> distinct event_kinds \<and> set event_kinds = UNIV"
proof -
  have "set event_kinds = UNIV"
  proof -
    have "k \<in> set event_kinds" for k by (cases k) (simp_all add: event_kinds_def)
    then show ?thesis by blast
  qed
  moreover have "distinct event_kinds" by (simp add: event_kinds_def)
  ultimately show ?thesis
    using wire_arms_iff [of v k] map_of_eq_Some_iff [OF wire_arms_distinct, of v k] by (simp add: from_wire_name_def)
qed

end
