(* ===== verification/Progress_Log.thy ===== *)
theory Progress_Log
  imports Progress_Events Complex_Main
begin

text \<open>
  The files of one progress journal (\<^verbatim>\<open>progress_bridge.rs\<close>): the active file, the one archive a
  rotation leaves, and the checkpoint of lifetime totals. Files are bytes; the outcome of every
  file-system call is an argument, and an early return leaves the files as a crash at that call
  would. Costs are exact numbers; \<^verbatim>\<open>flt\<close> gives the value of a number that is no integer,
  \<^verbatim>\<open>sha\<close> the hexadecimal SHA-256, \<^verbatim>\<open>parse\<close> and \<^verbatim>\<open>ser\<close> are \<^verbatim>\<open>serde_json\<close>'s.
\<close>

section \<open>Costs of events\<close>

type_synonym money_map = "utext \<Rightarrow> rat option"

definition as_f64 :: "(utext \<Rightarrow> rat) \<Rightarrow> json \<Rightarrow> rat option" where
  "as_f64 flt j = (case j of JInt i \<Rightarrow> Some (of_int i) | JFloat t \<Rightarrow> Some (flt t) | _ \<Rightarrow> None)"

record cost_contribution =
  cc_cost :: rat
  cc_vendor :: "utext option"
  cc_sid :: "utext option"

text \<open>\<^verbatim>\<open>progress_cost_contribution\<close>: only a finished agent costs anything.\<close>

definition progress_cost_contribution :: "(utext \<Rightarrow> rat) \<Rightarrow> json \<Rightarrow> cost_contribution option" where
  "progress_cost_contribution flt e =
     (if event_kind_name e = Some (lit ''agent_done'')
      then Some \<lparr> cc_cost = (case Option.bind (json_get ''cost_usd'' e) (as_f64 flt) of Some c \<Rightarrow> c | None \<Rightarrow> 0),
                  cc_vendor = json_str ''vendor'' e, cc_sid = event_sid e \<rparr>
      else None)"

definition add_money :: "utext \<Rightarrow> rat \<Rightarrow> money_map \<Rightarrow> money_map" where
  "add_money k c m = m(k \<mapsto> (case m k of Some x \<Rightarrow> x | None \<Rightarrow> 0) + c)"

definition add_money_opt :: "utext option \<Rightarrow> rat \<Rightarrow> money_map \<Rightarrow> money_map" where
  "add_money_opt k c m = (case k of None \<Rightarrow> m | Some k \<Rightarrow> add_money k c m)"

section \<open>Checkpoints\<close>

record archive_coverage =
  ac_size :: nat
  ac_first :: "utext option"

record checkpoint =
  ck_rotations :: nat
  ck_events :: nat
  ck_corrupt :: nat
  ck_cost :: rat
  ck_vendor :: money_map
  ck_sid :: money_map
  ck_coverage :: "archive_coverage option"

definition default_checkpoint :: checkpoint where
  "default_checkpoint = \<lparr> ck_rotations = 0, ck_events = 0, ck_corrupt = 0, ck_cost = 0, ck_vendor = (\<lambda>_. None),
     ck_sid = (\<lambda>_. None), ck_coverage = None \<rparr>"

text \<open>What is at the checkpoint's path: nothing, bytes that are no checkpoint of this schema, or one.\<close>

datatype checkpoint_file = CkMissing | CkDamaged | Ck checkpoint

record progress_files =
  pg_active :: "bytes option"
  pg_archive :: "bytes option"
  pg_checkpoint :: checkpoint_file

definition no_files :: progress_files where
  "no_files = \<lparr> pg_active = None, pg_archive = None, pg_checkpoint = CkMissing \<rparr>"

definition read_progress_checkpoint :: "bool \<Rightarrow> checkpoint_file \<Rightarrow> unit + checkpoint option" where
  "read_progress_checkpoint readable f = (case f of
       CkMissing \<Rightarrow> Inr None
     | CkDamaged \<Rightarrow> Inl ()
     | Ck c \<Rightarrow> if readable then Inr (Some c) else Inl ())"

text \<open>The marker of an archive: its length and the digest of its first line with the newline.\<close>

definition archive_coverage_of :: "(bytes \<Rightarrow> utext) \<Rightarrow> bytes \<Rightarrow> archive_coverage" where
  "archive_coverage_of sha bs =
     \<lparr> ac_size = length bs, ac_first = (if bs = [] then None else Some (sha (fst (read_until 10 bs)))) \<rparr>"

definition checkpoint_covers_archive :: "checkpoint \<Rightarrow> archive_coverage option \<Rightarrow> bool" where
  "checkpoint_covers_archive c a \<longleftrightarrow> ck_coverage c = a"

text \<open>One archived event folded into the totals.\<close>

definition fold_archived :: "(utext \<Rightarrow> rat) \<Rightarrow> json \<Rightarrow> checkpoint \<Rightarrow> checkpoint" where
  "fold_archived flt e c =
     (let c1 = (case progress_cost_contribution flt e of
            None \<Rightarrow> c
          | Some k \<Rightarrow> c \<lparr> ck_cost := ck_cost c + cc_cost k,
                          ck_vendor := add_money_opt (cc_vendor k) (cc_cost k) (ck_vendor c),
                          ck_sid := add_money_opt (cc_sid k) (cc_cost k) (ck_sid c) \<rparr>) in
      c1 \<lparr> ck_events := u64_saturating_add (ck_events c1) 1 \<rparr>)"

record recover_io =
  ro_coverage :: bool
  ro_checkpoint :: bool
  ro_scan :: bool
  ro_write :: bool

definition recover_good :: recover_io where
  "recover_good = \<lparr> ro_coverage = True, ro_checkpoint = True, ro_scan = True, ro_write = True \<rparr>"

text \<open>The atomic write of a checkpoint replaces the whole file or nothing.\<close>

definition write_progress_checkpoint :: "bool \<Rightarrow> checkpoint \<Rightarrow> progress_files \<Rightarrow> progress_files \<times> bool" where
  "write_progress_checkpoint ok c p = (if ok then (p \<lparr> pg_checkpoint := Ck c \<rparr>, True) else (p, False))"

definition recover_progress_checkpoint_locked ::
  "(bytes \<Rightarrow> json option) \<Rightarrow> (utext \<Rightarrow> rat) \<Rightarrow> (bytes \<Rightarrow> utext) \<Rightarrow> recover_io \<Rightarrow> progress_files
    \<Rightarrow> progress_files \<times> (unit + checkpoint option)" where
  "recover_progress_checkpoint_locked parse flt sha io p =
     (if pg_archive p \<noteq> None \<and> \<not> ro_coverage io then (p, Inl ())
      else (case read_progress_checkpoint (ro_checkpoint io) (pg_checkpoint p) of
          Inl e \<Rightarrow> (p, Inl e)
        | Inr ck \<Rightarrow>
            (case pg_archive p of
               None \<Rightarrow> (p, Inr ck)
             | Some bs \<Rightarrow>
                 (let cov = archive_coverage_of sha bs in
                  if (case ck of Some c \<Rightarrow> checkpoint_covers_archive c (Some cov) | None \<Rightarrow> False) then (p, Inr ck)
                  else if \<not> ro_scan io then (p, Inl ())
                  else (case scan_stream parse (Content bs) of
                      Inl e \<Rightarrow> (p, Inl e)
                    | Inr (events, corrupt, _) \<Rightarrow>
                        (let c = fold (fold_archived flt) events (case ck of Some c \<Rightarrow> c | None \<Rightarrow> default_checkpoint);
                             c = c \<lparr> ck_corrupt := u64_saturating_add (ck_corrupt c) corrupt,
                                     ck_rotations := u64_saturating_add (ck_rotations c) 1,
                                     ck_coverage := Some cov \<rparr>;
                             (p', ok) = write_progress_checkpoint (ro_write io) c p in
                         if ok then (p', Inr (Some c)) else (p', Inl ())))))))"

text \<open>\<^verbatim>\<open>load_or_recover_progress_checkpoint\<close>; the flags are making the directory and taking the lock.\<close>

definition load_or_recover_progress_checkpoint ::
  "(bytes \<Rightarrow> json option) \<Rightarrow> (utext \<Rightarrow> rat) \<Rightarrow> (bytes \<Rightarrow> utext) \<Rightarrow> bool \<Rightarrow> recover_io \<Rightarrow> progress_files
    \<Rightarrow> progress_files \<times> (unit + checkpoint option)" where
  "load_or_recover_progress_checkpoint parse flt sha locked io p =
     (if pg_active p = None \<and> pg_archive p = None \<and> pg_checkpoint p = CkMissing then (p, Inr None)
      else if \<not> locked then (p, Inl ())
      else recover_progress_checkpoint_locked parse flt sha io p)"

section \<open>Appending and rotating\<close>

definition DEFAULT_PROGRESS_ROTATE_BYTES :: nat where
  "DEFAULT_PROGRESS_ROTATE_BYTES = 64 * 1024 * 1024"

text \<open>\<^verbatim>\<open>progress_rotate_bytes\<close>: the environment variable as a parsed number, if it is one.\<close>

definition progress_rotate_bytes :: "nat option \<Rightarrow> nat" where
  "progress_rotate_bytes env = (case env of
       Some n \<Rightarrow> if 0 < n then n else DEFAULT_PROGRESS_ROTATE_BYTES
     | None \<Rightarrow> DEFAULT_PROGRESS_ROTATE_BYTES)"

record append_io =
  ao_lock :: bool
  ao_recover :: recover_io
  ao_open :: bool
  ao_heal :: bool
  ao_torn :: "nat option"
  ao_stat :: bool
  ao_remove :: bool
  ao_rename :: bool
  ao_fold :: recover_io
  ao_create :: bool

definition append_good :: append_io where
  "append_good = \<lparr> ao_lock = True, ao_recover = recover_good, ao_open = True, ao_heal = True, ao_torn = None,
     ao_stat = True, ao_remove = True, ao_rename = True, ao_fold = recover_good, ao_create = True \<rparr>"

text \<open>Opening for append creates the file and gives a torn last line its newline.\<close>

definition open_for_append :: "bool \<Rightarrow> bool \<Rightarrow> bytes option \<Rightarrow> bytes option \<times> bool" where
  "open_for_append opens heals f =
     (if \<not> opens then (f, False)
      else (let bs = (case f of None \<Rightarrow> [] | Some bs \<Rightarrow> bs) in
            if bs \<noteq> [] \<and> last bs \<noteq> 10
            then (if heals then (Some (bs @ [10]), True) else (Some bs, False))
            else (Some bs, True)))"

definition rotate_progress_locked ::
  "(bytes \<Rightarrow> json option) \<Rightarrow> (utext \<Rightarrow> rat) \<Rightarrow> (bytes \<Rightarrow> utext) \<Rightarrow> append_io \<Rightarrow> progress_files \<Rightarrow> progress_files \<times> bool" where
  "rotate_progress_locked parse flt sha io p =
     (if pg_archive p \<noteq> None \<and> \<not> ao_remove io then (p, False)
      else (let p1 = p \<lparr> pg_archive := None \<rparr> in
        if \<not> ao_rename io then (p1, False)
        else (let p2 = p1 \<lparr> pg_archive := pg_active p1, pg_active := None \<rparr> in
          case recover_progress_checkpoint_locked parse flt sha (ao_fold io) p2 of
            (p3, Inl _) \<Rightarrow> (p3, False)
          | (p3, Inr _) \<Rightarrow> if ao_create io then (p3 \<lparr> pg_active := Some [] \<rparr>, True) else (p3, False))))"

text \<open>\<^verbatim>\<open>append_serialized\<close>: the result says whether the append rotated the file.\<close>

definition append_serialized ::
  "(bytes \<Rightarrow> json option) \<Rightarrow> (utext \<Rightarrow> rat) \<Rightarrow> (bytes \<Rightarrow> utext) \<Rightarrow> nat \<Rightarrow> append_io \<Rightarrow> bytes \<Rightarrow> progress_files
    \<Rightarrow> progress_files \<times> (unit + bool)" where
  "append_serialized parse flt sha limit io line p =
     (if \<not> ao_lock io then (p, Inl ())
      else (let (p1, ready) = (if pg_active p = None \<and> pg_archive p \<noteq> None
              then (case recover_progress_checkpoint_locked parse flt sha (ao_recover io) p of
                  (p1, Inl _) \<Rightarrow> (p1, False) | (p1, Inr _) \<Rightarrow> (p1, True))
              else (p, True)) in
        if \<not> ready then (p1, Inl ())
        else (let (f, opened) = open_for_append (ao_open io) (ao_heal io) (pg_active p1);
                  p2 = p1 \<lparr> pg_active := f \<rparr> in
          if \<not> opened then (p2, Inl ())
          else (let bs = (case f of Some bs \<Rightarrow> bs | None \<Rightarrow> []) in
            case ao_torn io of
              Some k \<Rightarrow> (p2 \<lparr> pg_active := Some (bs @ take k line) \<rparr>, Inl ())
            | None \<Rightarrow>
                (let p3 = p2 \<lparr> pg_active := Some (bs @ line) \<rparr> in
                 if \<not> ao_stat io then (p3, Inl ())
                 else if limit < length (bs @ line)
                 then (case rotate_progress_locked parse flt sha io p3 of
                     (p4, True) \<Rightarrow> (p4, Inr True) | (p4, False) \<Rightarrow> (p4, Inl ()))
                 else (p3, Inr False))))))"

text \<open>\<^verbatim>\<open>append_event_at\<close>: the gate, the append, and the book-keeping after it. The last component says
  whether a row was written, and if so whether it rotated the file.\<close>

definition append_event_at ::
  "(json \<Rightarrow> bytes) \<Rightarrow> (bytes \<Rightarrow> json option) \<Rightarrow> (utext \<Rightarrow> rat) \<Rightarrow> (bytes \<Rightarrow> utext) \<Rightarrow> nat \<Rightarrow> bool \<Rightarrow> append_io \<Rightarrow> utext \<Rightarrow> json
    \<Rightarrow> nat \<Rightarrow> nat option \<Rightarrow> admission \<times> progress_files \<Rightarrow> (admission \<times> progress_files) \<times> (unit + bool option)" where
  "append_event_at ser parse flt sha limit mkdir io path e now interval_override st =
     (if \<not> mkdir then (st, Inl ())
      else (let (ad, p) = st; line = ser e @ [10];
                kind = (case event_kind_name e of Some k \<Rightarrow> k | None \<Rightarrow> lit ''<unknown>'');
                unknown = (Option.bind (event_kind_name e) from_wire_name = None) in
        case admission_gate ser sha path e now interval_override ad of
          (ad1, Suppress) \<Rightarrow> ((record_suppressed kind unknown (length line) ad1, p), Inr None)
        | (ad1, Write r) \<Rightarrow>
            (let (p1, result) = append_serialized parse flt sha limit io line p;
                 ok = (case result of Inr _ \<Rightarrow> True | Inl _ \<Rightarrow> False);
                 ad2 = (case r of None \<Rightarrow> ad1 | Some r \<Rightarrow> finish_latest r ok now ad1) in
             case result of
               Inl err \<Rightarrow> ((ad2, p1), Inl err)
             | Inr rotated \<Rightarrow> ((record_appended kind unknown (length line) ad2, p1), Inr (Some rotated)))))"

section \<open>Repair\<close>

datatype repair_target = RepairActive | RepairArchive

record repair_io =
  rp_open :: bool
  rp_coverage :: bool
  rp_checkpoint :: bool
  rp_copy :: bool
  rp_sync :: bool
  rp_backup :: bool
  rp_replace :: bool
  rp_measure :: bool
  rp_write :: bool

definition repair_good :: repair_io where
  "repair_good = \<lparr> rp_open = True, rp_coverage = True, rp_checkpoint = True, rp_copy = True, rp_sync = True,
     rp_backup = True, rp_replace = True, rp_measure = True, rp_write = True \<rparr>"

text \<open>The copy without its corrupt lines, and how many lines were kept and dropped.\<close>

function repair_loop :: "(bytes \<Rightarrow> 'v option) \<Rightarrow> bytes \<Rightarrow> bytes \<times> nat \<times> nat \<Rightarrow> bytes \<times> nat \<times> nat" where
  "repair_loop parse bs acc =
     (case read_until 10 bs of (raw, rest) \<Rightarrow>
        if raw = [] then acc
        else (let line = trim_ascii raw; (out, kept, dropped) = acc in
              if line = [] then repair_loop parse rest acc
              else if parse line \<noteq> None
              then repair_loop parse rest (out @ raw @ (if last raw \<noteq> 10 then [10] else []), u64_saturating_add kept 1, dropped)
              else repair_loop parse rest (out, kept, u64_saturating_add dropped 1)))"
  by pat_completeness auto

termination
  by (relation "measure (\<lambda>(_, bs, _). length bs)") (auto dest: read_until_shorter [OF sym])

declare repair_loop.simps [simp del]

definition repair_bytes :: "repair_target \<Rightarrow> progress_files \<Rightarrow> bytes option" where
  "repair_bytes t p = (case t of RepairActive \<Rightarrow> pg_active p | RepairArchive \<Rightarrow> pg_archive p)"

definition set_repair_bytes :: "repair_target \<Rightarrow> bytes option \<Rightarrow> progress_files \<Rightarrow> progress_files" where
  "set_repair_bytes t f p = (case t of RepairActive \<Rightarrow> p \<lparr> pg_active := f \<rparr> | RepairArchive \<Rightarrow> p \<lparr> pg_archive := f \<rparr>)"

text \<open>\<^verbatim>\<open>repair_progress_journal_locked\<close>: the files, the backups it made, and the counts.\<close>

definition repair_progress_journal_locked ::
  "(bytes \<Rightarrow> json option) \<Rightarrow> (bytes \<Rightarrow> utext) \<Rightarrow> repair_io \<Rightarrow> repair_target \<Rightarrow> progress_files
    \<Rightarrow> progress_files \<times> bytes list \<times> (unit + (nat \<times> nat) option)" where
  "repair_progress_journal_locked parse sha io t p = (case repair_bytes t p of
       None \<Rightarrow> (p, [], Inr None)
     | Some bs \<Rightarrow>
         (if \<not> rp_open io \<or> t = RepairArchive \<and> \<not> rp_coverage io then (p, [], Inl ())
          else (let ck = (if t = RepairArchive
                  then (case read_progress_checkpoint (rp_checkpoint io) (pg_checkpoint p) of Inr c \<Rightarrow> c | Inl _ \<Rightarrow> None)
                  else None);
                covered = (case ck of None \<Rightarrow> False | Some c \<Rightarrow> checkpoint_covers_archive c (Some (archive_coverage_of sha bs)));
                (out, kept, dropped) = repair_loop parse bs ([], 0, 0) in
            if \<not> rp_copy io then (p, [], Inl ())
            else if dropped = 0 then (p, [], Inr None)
            else if \<not> rp_sync io \<or> \<not> rp_backup io then (p, [], Inl ())
            else if \<not> rp_replace io then (set_repair_bytes t None p, [bs], Inl ())
            else (let p1 = set_repair_bytes t (Some out) p in
              case (if covered then ck else None) of
                None \<Rightarrow> (p1, [bs], Inr (Some (kept, dropped)))
              | Some c \<Rightarrow>
                  (if \<not> rp_measure io then (p1, [bs], Inl ())
                   else (let (p2, ok) = write_progress_checkpoint (rp_write io)
                             (c \<lparr> ck_coverage := Some (archive_coverage_of sha out) \<rparr>) p1 in
                         (p2, [bs], if ok then Inr (Some (kept, dropped)) else Inl ())))))))"

section \<open>Amounts\<close>

text \<open>Everything is stated for the total and for the share of any one vendor at once: \<^verbatim>\<open>q\<close> is the vendor, or
  none for the total.\<close>

definition amount :: "(utext \<Rightarrow> rat) \<Rightarrow> utext option \<Rightarrow> json \<Rightarrow> rat" where
  "amount flt q e = (case progress_cost_contribution flt e of
       None \<Rightarrow> 0 | Some k \<Rightarrow> if q = None \<or> cc_vendor k = q then cc_cost k else 0)"

definition amounts :: "(bytes \<Rightarrow> json option) \<Rightarrow> (utext \<Rightarrow> rat) \<Rightarrow> utext option \<Rightarrow> bytes \<Rightarrow> rat" where
  "amounts parse flt q bs = sum_list (map (amount flt q) (events_of parse bs))"

definition money_of :: "money_map \<Rightarrow> utext \<Rightarrow> rat" where
  "money_of m k = (case m k of Some x \<Rightarrow> x | None \<Rightarrow> 0)"

definition checkpoint_amount :: "utext option \<Rightarrow> checkpoint \<Rightarrow> rat" where
  "checkpoint_amount q c = (case q of None \<Rightarrow> ck_cost c | Some v \<Rightarrow> money_of (ck_vendor c) v)"

definition file_amount :: "utext option \<Rightarrow> checkpoint_file \<Rightarrow> rat" where
  "file_amount q f = (case f of Ck c \<Rightarrow> checkpoint_amount q c | _ \<Rightarrow> 0)"

text \<open>The archive is in the checkpoint's totals when the marker says so.\<close>

definition covered :: "(bytes \<Rightarrow> utext) \<Rightarrow> progress_files \<Rightarrow> bool" where
  "covered sha p = (case pg_archive p of None \<Rightarrow> True
     | Some bs \<Rightarrow> (case pg_checkpoint p of Ck c \<Rightarrow> ck_coverage c = Some (archive_coverage_of sha bs) | _ \<Rightarrow> False))"

text \<open>What is spent, as the files tell it: the checkpoint, the archive if it is not in there, the active
  file.\<close>

definition spent ::
  "(bytes \<Rightarrow> json option) \<Rightarrow> (utext \<Rightarrow> rat) \<Rightarrow> (bytes \<Rightarrow> utext) \<Rightarrow> utext option \<Rightarrow> progress_files \<Rightarrow> rat" where
  "spent parse flt sha q p = file_amount q (pg_checkpoint p)
     + (if covered sha p then 0 else (case pg_archive p of None \<Rightarrow> 0 | Some bs \<Rightarrow> amounts parse flt q bs))
     + (case pg_active p of None \<Rightarrow> 0 | Some bs \<Rightarrow> amounts parse flt q bs)"

text \<open>While the active file exists no archive waits to be folded, and the checkpoint can be read.\<close>

definition log_ok :: "(bytes \<Rightarrow> utext) \<Rightarrow> progress_files \<Rightarrow> bool" where
  "log_ok sha p \<longleftrightarrow> pg_checkpoint p \<noteq> CkDamaged \<and> (pg_active p \<noteq> None \<longrightarrow> covered sha p)"

lemma events_newline: "events_of parse (bs @ [10]) = events_of parse bs"
  by (simp add: events_of_def kept_rows_def blind_newline)

lemma amounts_join: "ends_line a \<Longrightarrow> amounts parse flt q (a @ b) = amounts parse flt q a + amounts parse flt q b"
  by (simp add: amounts_def events_join)

lemma amounts_newline [simp]: "amounts parse flt q (bs @ [10]) = amounts parse flt q bs"
  by (simp add: amounts_def events_newline)

lemma amounts_Nil [simp]: "amounts parse flt q [] = 0"
  by (simp add: amounts_def)

lemma money_add: "money_of (add_money_opt k c m) v = money_of m v + (if k = Some v then c else 0)"
  by (cases k) (auto simp: money_of_def add_money_opt_def add_money_def)

lemma fold_archived_amount: "checkpoint_amount q (fold (fold_archived flt) es c) = checkpoint_amount q c + sum_list (map (amount flt q) es)"
proof (induction es arbitrary: c)
  case (Cons e es)
  have "checkpoint_amount q (fold_archived flt e c) = checkpoint_amount q c + amount flt q e"
    by (auto simp: fold_archived_def checkpoint_amount_def amount_def money_add Let_def split: option.split)
  then show ?case using Cons by (simp add: add.assoc)
qed simp

lemma checkpoint_amount_marks [simp]:
  "checkpoint_amount q (c \<lparr> ck_corrupt := n \<rparr>) = checkpoint_amount q c"
  "checkpoint_amount q (c \<lparr> ck_rotations := m \<rparr>) = checkpoint_amount q c"
  "checkpoint_amount q (c \<lparr> ck_coverage := a \<rparr>) = checkpoint_amount q c"
  "checkpoint_amount q default_checkpoint = 0"
  by (simp_all add: checkpoint_amount_def money_of_def default_checkpoint_def split: option.split)

text \<open>Recovery never changes what is spent, fails only with the files as they were, and afterwards the
  archive is in the totals.\<close>

lemma recover_spec:
  assumes "recover_progress_checkpoint_locked parse flt sha io p = (p', res)" "pg_checkpoint p \<noteq> CkDamaged"
  shows "pg_active p' = pg_active p \<and> pg_archive p' = pg_archive p \<and> pg_checkpoint p' \<noteq> CkDamaged
    \<and> spent parse flt sha q p' = spent parse flt sha q p
    \<and> (case res of Inl _ \<Rightarrow> p' = p
       | Inr ck \<Rightarrow> covered sha p' \<and> file_amount q (pg_checkpoint p') = (case ck of None \<Rightarrow> 0 | Some c \<Rightarrow> checkpoint_amount q c))"
proof (cases "pg_archive p")
  case None
  then show ?thesis
    using assms by (auto simp: recover_progress_checkpoint_locked_def read_progress_checkpoint_def covered_def file_amount_def
        split: if_splits checkpoint_file.splits)
next
  case (Some bs)
  let ?cov = "archive_coverage_of sha bs"
  define ck where "ck = (case pg_checkpoint p of Ck c \<Rightarrow> Some c | _ \<Rightarrow> None)"
  show ?thesis
  proof (cases "case ck of Some c \<Rightarrow> ck_coverage c = Some ?cov | None \<Rightarrow> False")
    case True
    then show ?thesis
      using assms Some by (auto simp: recover_progress_checkpoint_locked_def read_progress_checkpoint_def covered_def
          file_amount_def checkpoint_covers_archive_def ck_def split: if_splits checkpoint_file.splits)
  next
    case False
    then have nc: "\<not> covered sha p" using Some by (auto simp: covered_def ck_def split: checkpoint_file.splits)
    define c where "c = (let c = fold (fold_archived flt) (events_of parse bs) (case ck of Some c \<Rightarrow> c | None \<Rightarrow> default_checkpoint) in
      c \<lparr> ck_corrupt := u64_saturating_add (ck_corrupt c) (corrupt_rows (picks parse) bs),
          ck_rotations := u64_saturating_add (ck_rotations c) 1, ck_coverage := Some ?cov \<rparr>)"
    have am: "checkpoint_amount q c = file_amount q (pg_checkpoint p) + amounts parse flt q bs"
      by (auto simp: c_def Let_def fold_archived_amount amounts_def file_amount_def ck_def
          split: checkpoint_file.split option.split)
    have alt: "(p', res) = (p, Inl ()) \<or> (p', res) = (p \<lparr> pg_checkpoint := Ck c \<rparr>, Inr (Some c))"
      using assms Some False
      by (auto simp: recover_progress_checkpoint_locked_def read_progress_checkpoint_def checkpoint_covers_archive_def
          scan_stream_Content write_progress_checkpoint_def c_def ck_def events_of_def Let_def
          split: if_splits checkpoint_file.splits)
    have "covered sha (p \<lparr> pg_checkpoint := Ck c \<rparr>)" using Some by (simp add: covered_def c_def Let_def)
    then show ?thesis
      using alt nc am Some assms(2) by (auto simp: spent_def file_amount_def)
  qed
qed

section \<open>The books balance\<close>

text \<open>The bytes an append writes after, and the condition under which a rotation can tell the new archive
  from the one already counted: their lengths or the digests of their first lines differ.\<close>

definition opened_bytes :: "bytes option \<Rightarrow> bytes" where
  "opened_bytes f = (case f of None \<Rightarrow> [] | Some bs \<Rightarrow> if bs \<noteq> [] \<and> last bs \<noteq> 10 then bs @ [10] else bs)"

definition marks_differ :: "(bytes \<Rightarrow> utext) \<Rightarrow> bytes \<Rightarrow> progress_files \<Rightarrow> bool" where
  "marks_differ sha line p = (let cov = archive_coverage_of sha (opened_bytes (pg_active p) @ line) in
     (case pg_checkpoint p of Ck c \<Rightarrow> ck_coverage c \<noteq> Some cov | _ \<Rightarrow> True)
     \<and> (case pg_archive p of Some bs \<Rightarrow> archive_coverage_of sha bs \<noteq> cov | None \<Rightarrow> True))"

lemma opened_ends [simp]: "ends_line (opened_bytes f)"
  by (simp add: opened_bytes_def ends_line_def split: option.split)

lemma opened_amounts: "amounts parse flt q (opened_bytes f) = (case f of None \<Rightarrow> 0 | Some bs \<Rightarrow> amounts parse flt q bs)"
  by (simp add: opened_bytes_def split: option.split)

lemma covered_active [simp]: "covered sha (p \<lparr> pg_active := f \<rparr>) = covered sha p"
  by (cases "pg_archive p") (simp_all add: covered_def)

lemma spent_active:
  "spent parse flt sha q (p \<lparr> pg_active := f \<rparr>) = spent parse flt sha q p
     - (case pg_active p of None \<Rightarrow> 0 | Some bs \<Rightarrow> amounts parse flt q bs)
     + (case f of None \<Rightarrow> 0 | Some bs \<Rightarrow> amounts parse flt q bs)"
  by (simp add: spent_def)

lemma rotate_spec:
  assumes "rotate_progress_locked parse flt sha io p = (p', ok)" "pg_active p = Some a" "log_ok sha p"
    "case pg_checkpoint p of Ck c \<Rightarrow> ck_coverage c \<noteq> Some (archive_coverage_of sha a) | _ \<Rightarrow> True"
  shows "log_ok sha p' \<and> spent parse flt sha q p' = spent parse flt sha q p"
proof (cases "pg_archive p \<noteq> None \<and> \<not> ao_remove io")
  case True
  then show ?thesis using assms by (simp add: rotate_progress_locked_def)
next
  case False
  let ?p1 = "p \<lparr> pg_archive := None \<rparr>"
  let ?p2 = "?p1 \<lparr> pg_archive := pg_active ?p1, pg_active := None \<rparr>"
  have cov: "covered sha p" "pg_checkpoint p \<noteq> CkDamaged" using assms(2,3) by (simp_all add: log_ok_def)
  show ?thesis
  proof (cases "ao_rename io")
    case no: False
    then have "p' = ?p1" using assms(1) False by (auto simp: rotate_progress_locked_def Let_def split: if_splits)
    then show ?thesis using cov by (simp add: log_ok_def covered_def spent_def)
  next
    case True
    obtain p3 r where r: "recover_progress_checkpoint_locked parse flt sha (ao_fold io) ?p2 = (p3, r)"
      by (cases "recover_progress_checkpoint_locked parse flt sha (ao_fold io) ?p2")
    have "\<not> covered sha ?p2" using assms(2,4) by (simp add: covered_def split: checkpoint_file.splits)
    then have s2: "spent parse flt sha q ?p2 = spent parse flt sha q p"
      using cov(1) assms(2) by (simp add: spent_def)
    have "pg_checkpoint ?p2 \<noteq> CkDamaged" using cov(2) by simp
    note rs = recover_spec [OF r this, of q]
    show ?thesis
    proof (cases r)
      case (Inl e)
      then have "p' = p3" using assms(1) False True r
        by (auto simp: rotate_progress_locked_def Let_def split: if_splits)
      then show ?thesis using rs s2 Inl cov(2) by (simp add: log_ok_def)
    next
      case (Inr ck)
      then have p': "p' = (if ao_create io then p3 \<lparr> pg_active := Some [] \<rparr> else p3)"
        using assms(1) False True r by (auto simp: rotate_progress_locked_def Let_def split: if_splits)
      have "spent parse flt sha q (p3 \<lparr> pg_active := Some [] \<rparr>) = spent parse flt sha q p3"
        unfolding spent_active using rs by simp
      then show ?thesis using rs s2 Inr p' by (simp add: log_ok_def)
    qed
  qed
qed

lemma append_serialized_spec:
  assumes "append_serialized parse flt sha limit io (raw @ [10]) p = (p', res)" "log_ok sha p"
    "marks_differ sha (raw @ [10]) p"
  shows "\<exists>frag. prefix frag (raw @ [10]) \<and> (case res of Inr _ \<Rightarrow> frag = raw @ [10] | Inl _ \<Rightarrow> True)
    \<and> log_ok sha p' \<and> (\<forall>q. spent parse flt sha q p' = spent parse flt sha q p + amounts parse flt q frag)"
proof (cases "ao_lock io")
  case False
  then show ?thesis using assms by (intro exI [of _ "[]"]) (auto simp: append_serialized_def)
next
  case lock: True
  let ?line = "raw @ [10]"
  define gone where "gone \<longleftrightarrow> pg_active p = None \<and> pg_archive p \<noteq> None"
  obtain p1 ready where rdy: "(if gone then (case recover_progress_checkpoint_locked parse flt sha (ao_recover io) p of
        (p1, Inl _) \<Rightarrow> (p1, False) | (p1, Inr _) \<Rightarrow> (p1, True)) else (p, True)) = (p1, ready)"
    by (cases "if gone then (case recover_progress_checkpoint_locked parse flt sha (ao_recover io) p of
        (p1, Inl _) \<Rightarrow> (p1, False) | (p1, Inr _) \<Rightarrow> (p1, True)) else (p, True)")
  have dmg: "pg_checkpoint p \<noteq> CkDamaged" using assms(2) by (simp add: log_ok_def)
  have p1: "pg_active p1 = pg_active p \<and> pg_archive p1 = pg_archive p \<and> pg_checkpoint p1 \<noteq> CkDamaged
      \<and> (\<forall>q. spent parse flt sha q p1 = spent parse flt sha q p) \<and> (\<not> ready \<longrightarrow> p1 = p) \<and> (ready \<longrightarrow> covered sha p1)
      \<and> (p1 = p \<or> gone)"
  proof (cases gone)
    case True
    obtain q1 r where r: "recover_progress_checkpoint_locked parse flt sha (ao_recover io) p = (q1, r)"
      by (cases "recover_progress_checkpoint_locked parse flt sha (ao_recover io) p")
    show ?thesis using rdy True r recover_spec [OF r dmg] by (auto split: sum.splits)
  next
    case False
    then have "covered sha p" using assms(2) by (cases "pg_archive p") (auto simp: gone_def log_ok_def covered_def)
    then show ?thesis using rdy False dmg by auto
  qed
  have body: "append_serialized parse flt sha limit io ?line p =
      (if \<not> ready then (p1, Inl ())
       else (let (f, opened) = open_for_append (ao_open io) (ao_heal io) (pg_active p1); p2 = p1 \<lparr> pg_active := f \<rparr> in
          if \<not> opened then (p2, Inl ())
          else (let bs = (case f of Some bs \<Rightarrow> bs | None \<Rightarrow> []) in
            case ao_torn io of
              Some k \<Rightarrow> (p2 \<lparr> pg_active := Some (bs @ take k ?line) \<rparr>, Inl ())
            | None \<Rightarrow>
                (let p3 = p2 \<lparr> pg_active := Some (bs @ ?line) \<rparr> in
                 if \<not> ao_stat io then (p3, Inl ())
                 else if limit < length (bs @ ?line)
                 then (case rotate_progress_locked parse flt sha io p3 of
                     (p4, True) \<Rightarrow> (p4, Inr True) | (p4, False) \<Rightarrow> (p4, Inl ()))
                 else (p3, Inr False)))))"
    using lock rdy unfolding append_serialized_def gone_def by (simp add: Let_def)
  show ?thesis
  proof (cases ready)
    case False
    then show ?thesis using assms(1,2) body p1 by (intro exI [of _ "[]"]) auto
  next
    case ready: True
    obtain f opened where of: "open_for_append (ao_open io) (ao_heal io) (pg_active p1) = (f, opened)"
      by (cases "open_for_append (ao_open io) (ao_heal io) (pg_active p1)")
    have amt: "(case f of None \<Rightarrow> 0 | Some bs \<Rightarrow> amounts parse flt q bs)
        = (case pg_active p of None \<Rightarrow> 0 | Some bs \<Rightarrow> amounts parse flt q bs)" for q
      using of p1 by (auto simp: open_for_append_def split: option.splits if_splits)
    have f: "f = Some (opened_bytes (pg_active p))" if opened
      using of p1 that by (auto simp: open_for_append_def opened_bytes_def split: option.splits if_splits)
    have s2: "spent parse flt sha q (p1 \<lparr> pg_active := f \<rparr>) = spent parse flt sha q p" for q
      unfolding spent_active amt using p1 by simp
    have lk: "log_ok sha (p1 \<lparr> pg_active := g \<rparr>)" for g using p1 ready by (simp add: log_ok_def)
    show ?thesis
    proof (cases opened)
      case False
      then show ?thesis using assms(1) body ready of s2 lk by (intro exI [of _ "[]"]) auto
    next
      case opened: True
      let ?o = "opened_bytes (pg_active p)"
      have w: "spent parse flt sha q (p1 \<lparr> pg_active := Some (?o @ x) \<rparr>) = spent parse flt sha q p + amounts parse flt q x" for q x
        using p1 by (simp add: spent_active amounts_join opened_amounts)
      show ?thesis
      proof (cases "ao_torn io")
        case (Some k)
        define frag where "frag = take k ?line"
        have pf: "prefix frag ?line" unfolding frag_def by (rule take_is_prefix)
        have "p' = p1 \<lparr> pg_active := Some (?o @ frag) \<rparr>" "res = Inl ()"
          using assms(1) body ready of opened f [OF opened] Some by (auto simp: Let_def frag_def)
        then show ?thesis using pf w lk by (intro exI [of _ frag]) simp
      next
        case None
        let ?p3 = "p1 \<lparr> pg_active := Some (?o @ ?line) \<rparr>"
        show ?thesis
        proof (cases "ao_stat io \<and> limit < length (?o @ ?line)")
          case False
          then have "p' = ?p3" using assms(1) body ready of opened f [OF opened] None by (auto simp: Let_def split: if_splits)
          then show ?thesis using w lk by (intro exI [of _ ?line]) (simp split: sum.split)
        next
          case True
          obtain p4 ok where rot: "rotate_progress_locked parse flt sha io ?p3 = (p4, ok)"
            by (cases "rotate_progress_locked parse flt sha io ?p3")
          have "p' = p4" using assms(1) body ready of opened f [OF opened] None True rot
            by (cases ok) (auto simp: Let_def)
          have "case pg_checkpoint ?p3 of Ck c \<Rightarrow> ck_coverage c \<noteq> Some (archive_coverage_of sha (?o @ ?line)) | _ \<Rightarrow> True"
          proof (cases gone)
            case True
            then obtain b where b: "pg_archive p = Some b" by (auto simp: gone_def)
            have "pg_archive p1 = Some b" "covered sha p1" using p1 ready b by auto
            then have "case pg_checkpoint p1 of Ck c \<Rightarrow> ck_coverage c = Some (archive_coverage_of sha b) | _ \<Rightarrow> False"
              by (simp add: covered_def)
            moreover have "archive_coverage_of sha b \<noteq> archive_coverage_of sha (?o @ ?line)"
              using assms(3) b by (simp add: marks_differ_def Let_def)
            ultimately show ?thesis by (auto split: checkpoint_file.splits)
          next
            case False
            then have "p1 = p" using p1 by blast
            then show ?thesis using assms(3) by (simp add: marks_differ_def Let_def)
          qed
          then have "log_ok sha p4 \<and> spent parse flt sha q p4 = spent parse flt sha q ?p3" for q
            by (intro rotate_spec [OF rot _ lk]) simp_all
          then show ?thesis
            using w \<open>p' = p4\<close> by (intro exI [of _ ?line]) (simp split: sum.split)
        qed
      qed
    qed
  qed
qed

end
