(* ===== verification/Pricing.thy ===== *)
theory Pricing
  imports Session_Activity Answer_Excerpt Complex_Main
begin

text \<open>
  What turns cost (\<^verbatim>\<open>ccteam-cost\<close>): the price tables built into the binary, the estimate of one
  turn, the cost levels, the budget caps and the ledger of advice calls. Money is exact here where the
  code computes with floating point; times are nanoseconds. \<^verbatim>\<open>Vendor\<close> of this crate has
  the constructors of the harness' type, which its \<^verbatim>\<open>cost_vendor\<close> maps one to one.
\<close>

section \<open>Usage of a turn\<close>

record usage =
  us_input :: nat
  us_cached :: nat
  us_output :: nat
  us_creation :: "nat option"
  us_reasoning :: "nat option"
  us_reported :: "rat option"

text \<open>\<^verbatim>\<open>total\<close>: the release build's sum, which wraps.\<close>

definition usage_total :: "usage \<Rightarrow> nat" where
  "usage_total u = u64 (us_input u + us_cached u + us_output u
     + (case us_creation u of None \<Rightarrow> 0 | Some n \<Rightarrow> n) + (case us_reasoning u of None \<Rightarrow> 0 | Some n \<Rightarrow> n))"

text \<open>The derived reader of a usage: absent numbers are zero, and a value that is no number of the right
  kind makes the whole usage unreadable, as does the cached count under both of its names.\<close>

definition json_u64 :: "json \<Rightarrow> nat option" where
  "json_u64 j = (case j of JInt i \<Rightarrow> if 0 \<le> i \<and> i < 2 ^ 64 then Some (nat i) else None | _ \<Rightarrow> None)"

definition u64_field :: "json option \<Rightarrow> nat option" where
  "u64_field f = (case f of None \<Rightarrow> Some 0 | Some j \<Rightarrow> json_u64 j)"

definition opt_u64_field :: "json option \<Rightarrow> nat option option" where
  "opt_u64_field f = (case f of None \<Rightarrow> Some None | Some JNull \<Rightarrow> Some None | Some j \<Rightarrow> map_option Some (json_u64 j))"

definition opt_f64_field :: "(utext \<Rightarrow> rat) \<Rightarrow> json option \<Rightarrow> rat option option" where
  "opt_f64_field flt f = (case f of
       None \<Rightarrow> Some None
     | Some JNull \<Rightarrow> Some None
     | Some (JInt i) \<Rightarrow> Some (Some (of_int i))
     | Some (JFloat t) \<Rightarrow> Some (Some (flt t))
     | _ \<Rightarrow> None)"

definition usage_of_fields :: "(utext \<Rightarrow> rat) \<Rightarrow> (nat \<Rightarrow> json option) \<Rightarrow> usage option" where
  "usage_of_fields flt f =
     (case (u64_field (f 0), u64_field (f 1), u64_field (f 2), opt_u64_field (f 3), opt_u64_field (f 4), opt_f64_field flt (f 5)) of
        (Some i, Some c, Some out, Some cr, Some re, Some rep) \<Rightarrow>
          Some \<lparr> us_input = i, us_cached = c, us_output = out, us_creation = cr, us_reasoning = re, us_reported = rep \<rparr>
      | _ \<Rightarrow> None)"

definition usage_from_value :: "(utext \<Rightarrow> rat) \<Rightarrow> json \<Rightarrow> usage option" where
  "usage_from_value flt j = (case j of
       JObj ms \<Rightarrow>
         (if json_get ''cached_input_tokens'' j \<noteq> None \<and> json_get ''cache_read_input_tokens'' j \<noteq> None then None
          else usage_of_fields flt (\<lambda>n.
            if n = 0 then json_get ''input_tokens'' j
            else if n = 1 then (case json_get ''cached_input_tokens'' j of
                None \<Rightarrow> json_get ''cache_read_input_tokens'' j | Some c \<Rightarrow> Some c)
            else if n = 2 then json_get ''output_tokens'' j
            else if n = 3 then json_get ''cache_creation_input_tokens'' j
            else if n = 4 then json_get ''reasoning_output_tokens'' j
            else json_get ''reported_cost_usd'' j))
     | JArr xs \<Rightarrow> if length xs \<le> 6 then usage_of_fields flt (\<lambda>n. if n < length xs then Some (xs ! n) else None) else None
     | _ \<Rightarrow> None)"

section \<open>Price tables\<close>

record model_prices =
  input_per_1m :: rat
  cached_input_per_1m :: rat
  output_per_1m :: rat
  cache_creation_per_1m :: "rat option"
  reasoning_per_1m :: "rat option"

definition rates :: "rat \<Rightarrow> rat \<Rightarrow> rat \<Rightarrow> rat option \<Rightarrow> rat option \<Rightarrow> model_prices" where
  "rates i c out cr re = \<lparr> input_per_1m = i, cached_input_per_1m = c, output_per_1m = out,
     cache_creation_per_1m = cr, reasoning_per_1m = re \<rparr>"

text \<open>The two tables bundled with the crate; the one for Grok is empty.\<close>

definition ANTHROPIC_TABLE :: "(string \<times> model_prices) list" where
  "ANTHROPIC_TABLE =
    [(''claude-opus-4-8'', rates 5 (5 / 10) 25 (Some (625 / 100)) None),
     (''claude-opus-4-7'', rates 5 (5 / 10) 25 (Some (625 / 100)) None),
     (''claude-opus-4-6'', rates 5 (5 / 10) 25 (Some (625 / 100)) None),
     (''claude-opus-4-5'', rates 5 (5 / 10) 25 (Some (625 / 100)) None),
     (''claude-opus-4-1'', rates 15 (15 / 10) 75 (Some (1875 / 100)) None),
     (''claude-opus-4'', rates 15 (15 / 10) 75 (Some (1875 / 100)) None),
     (''claude-sonnet-4-6'', rates 3 (3 / 10) 15 (Some (375 / 100)) None),
     (''claude-sonnet-4-5'', rates 3 (3 / 10) 15 (Some (375 / 100)) None),
     (''claude-sonnet-4'', rates 3 (3 / 10) 15 (Some (375 / 100)) None),
     (''claude-haiku-4-5'', rates 1 (1 / 10) 5 (Some (125 / 100)) None),
     (''claude-haiku-3-5'', rates (8 / 10) (8 / 100) 4 (Some 1) None),
     (''claude-sonnet-5'', rates 2 (2 / 10) 10 (Some (25 / 10)) None),
     (''claude-opus-5'', rates 5 (5 / 10) 25 (Some (625 / 100)) None),
     (''claude-fable-5'', rates 10 1 50 (Some (125 / 10)) None)]"

definition OPENAI_TABLE :: "(string \<times> model_prices) list" where
  "OPENAI_TABLE =
    [(''gpt-5.5'', rates 5 (5 / 10) 30 None (Some 30)),
     (''gpt-5.4'', rates (25 / 10) (25 / 100) 15 None (Some 15)),
     (''gpt-5.4-mini'', rates (75 / 100) (75 / 1000) (45 / 10) None (Some (45 / 10))),
     (''o3'', rates 2 (5 / 10) 8 None (Some 8)),
     (''o3-mini'', rates (11 / 10) (55 / 100) (44 / 10) None (Some (44 / 10))),
     (''gpt-4o'', rates (25 / 10) (125 / 100) 10 None None),
     (''gpt-4o-mini'', rates (15 / 100) (75 / 1000) (6 / 10) None None),
     (''gpt-5.6-sol'', rates 4 (4 / 10) 20 None (Some 20)),
     (''gpt-5.6-terra'', rates 2 (2 / 10) 12 None (Some 12)),
     (''gpt-5.6-luna'', rates (2 / 10) (2 / 100) (12 / 10) None (Some (12 / 10))),
     (''gpt-5.6-cyber'', rates (125 / 10) (125 / 100) 75 None (Some 75))]"

definition XAI_TABLE :: "(string \<times> model_prices) list" where
  "XAI_TABLE = []"

definition table_for :: "vendor \<Rightarrow> (string \<times> model_prices) list option" where
  "table_for v = (case v of
       Claude \<Rightarrow> Some ANTHROPIC_TABLE
     | Codex \<Rightarrow> Some OPENAI_TABLE
     | Grok \<Rightarrow> Some XAI_TABLE
     | _ \<Rightarrow> None)"

definition priced :: "(string \<times> model_prices) list \<Rightarrow> utext \<Rightarrow> model_prices option" where
  "priced t m = map_of (map (\<lambda>r. (lit (fst r), snd r)) t) m"

text \<open>Only what follows the first bracket is dropped from a model's name.\<close>

definition normalize_model_id :: "utext \<Rightarrow> utext" where
  "normalize_model_id m = takeWhile (\<lambda>c. c \<noteq> 91) m"

text \<open>\<^verbatim>\<open>resolve\<close>, less the warning it logs once for a model it does not know.\<close>

definition resolve_price :: "vendor \<Rightarrow> utext \<Rightarrow> model_prices option" where
  "resolve_price v m = Option.bind (table_for v) (\<lambda>t. priced t (normalize_model_id m))"

definition reported_only :: "vendor \<Rightarrow> bool" where
  "reported_only v \<longleftrightarrow> v \<in> {Opencode, Kimi, Pi, Dsh}"

definition estimate_cost :: "usage \<Rightarrow> vendor \<Rightarrow> utext \<Rightarrow> rat option" where
  "estimate_cost u v m =
     (if reported_only v then None
      else map_option (\<lambda>p.
        (of_nat (us_input u) * input_per_1m p + of_nat (us_cached u) * cached_input_per_1m p
         + of_nat (us_output u) * output_per_1m p
         + (case (us_creation u, cache_creation_per_1m p) of (Some n, Some r) \<Rightarrow> of_nat n * r | _ \<Rightarrow> 0)
         + (case (us_reasoning u, reasoning_per_1m p) of
              (Some n, Some r) \<Rightarrow> of_nat n * r
            | (Some n, None) \<Rightarrow> if v = Codex then of_nat n * output_per_1m p else 0
            | _ \<Rightarrow> 0)) / 1000000) (resolve_price v m))"

definition resolve_turn_cost :: "usage \<Rightarrow> vendor \<Rightarrow> utext \<Rightarrow> rat option" where
  "resolve_turn_cost u v m = (case us_reported u of
       Some c \<Rightarrow> (if 0 < c then Some c else if reported_only v then None else estimate_cost u v m)
     | None \<Rightarrow> estimate_cost u v m)"

section \<open>Cost levels\<close>

datatype cost_level = CostOk | SoftWarn | MidWarn | HardKill

definition COST_MID_WARN_USD :: rat where
  "COST_MID_WARN_USD = 50"

definition classify_cost :: "rat \<Rightarrow> rat \<Rightarrow> rat \<Rightarrow> cost_level" where
  "classify_cost cost soft_warn hard_kill =
     (if hard_kill < cost then HardKill
      else if COST_MID_WARN_USD \<le> cost then MidWarn
      else if soft_warn < cost then SoftWarn
      else CostOk)"

section \<open>Budgets\<close>

record budget_cap =
  max_cost_usd_per_24h :: "rat option"
  max_agent_spawns_per_hour :: "nat option"

definition cap_is_empty :: "budget_cap \<Rightarrow> bool" where
  "cap_is_empty c \<longleftrightarrow> max_cost_usd_per_24h c = None \<and> max_agent_spawns_per_hour c = None"

definition all_vendors :: "vendor list" where
  "all_vendors = [Claude, Codex, Grok, Opencode, Kimi, Pi, Dsh]"

definition aggregated_cost_cap_24h :: "(vendor \<Rightarrow> budget_cap) \<Rightarrow> rat option" where
  "aggregated_cost_cap_24h cap_for =
     (let caps = map (\<lambda>v. max_cost_usd_per_24h (cap_for v)) all_vendors in
      if list_ex (\<lambda>c. c \<noteq> None) caps then Some (sum_list (List.map_filter id caps)) else None)"

record budget_sample =
  bs_vendor :: vendor
  bs_usd :: rat
  bs_ts :: int

datatype ledger_file = LedgerMissing | LedgerUnreadable | LedgerMalformed | Ledger "budget_sample list"

definition hours :: "int \<Rightarrow> int" where
  "hours n = n * 3600 * 10 ^ 9"

definition load_budget_ledger :: "ledger_file \<Rightarrow> unit + budget_sample list" where
  "load_budget_ledger f = (case f of
       LedgerMissing \<Rightarrow> Inr []
     | LedgerUnreadable \<Rightarrow> Inl ()
     | LedgerMalformed \<Rightarrow> Inr []
     | Ledger ss \<Rightarrow> Inr ss)"

text \<open>\<^verbatim>\<open>append_budget_sample\<close>: \<^verbatim>\<open>stored\<close> says that the temporary file is written and renamed; the clock is read
  once for the sample and once more for the cut.\<close>

definition append_budget_sample :: "bool \<Rightarrow> vendor \<Rightarrow> rat \<Rightarrow> int \<Rightarrow> int \<Rightarrow> ledger_file \<Rightarrow> ledger_file \<times> bool" where
  "append_budget_sample stored v usd now later f = (case load_budget_ledger f of
       Inl _ \<Rightarrow> (f, False)
     | Inr ss \<Rightarrow>
         (let ss = ss @ [\<lparr> bs_vendor = v, bs_usd = usd, bs_ts = now \<rparr>];
              ss = filter (\<lambda>s. later - hours 48 \<le> bs_ts s) ss in
          if stored then (Ledger ss, True) else (f, False)))"

definition sum_advise_today :: "int \<Rightarrow> budget_sample list \<Rightarrow> rat" where
  "sum_advise_today now ss = sum_list (map bs_usd (filter (\<lambda>s. now - hours 24 \<le> bs_ts s) ss))"

definition sum_advise_today_by_vendor :: "int \<Rightarrow> vendor \<Rightarrow> budget_sample list \<Rightarrow> rat" where
  "sum_advise_today_by_vendor now v ss =
     sum_list (map bs_usd (filter (\<lambda>s. now - hours 24 \<le> bs_ts s \<and> bs_vendor s = v) ss))"

section \<open>Estimates\<close>

definition rates_ok :: "model_prices \<Rightarrow> bool" where
  "rates_ok p \<longleftrightarrow> 0 < cached_input_per_1m p \<and> cached_input_per_1m p \<le> input_per_1m p \<and> input_per_1m p \<le> output_per_1m p
     \<and> (case cache_creation_per_1m p of None \<Rightarrow> True | Some r \<Rightarrow> 0 \<le> r \<and> r \<le> output_per_1m p)
     \<and> (case reasoning_per_1m p of None \<Rightarrow> True | Some r \<Rightarrow> 0 \<le> r \<and> r \<le> output_per_1m p)"

lemma tables_ok: "table_for v = Some t \<Longrightarrow> (k, p) \<in> set t \<Longrightarrow> rates_ok p \<and> v \<in> {Claude, Codex}"
  by (cases v) (auto simp: table_for_def ANTHROPIC_TABLE_def OPENAI_TABLE_def XAI_TABLE_def rates_def rates_ok_def)

lemma priced_row: "priced t m = Some p \<Longrightarrow> \<exists>k. (k, p) \<in> set t \<and> lit k = m"
  unfolding priced_def by (drule map_of_SomeD) auto

text \<open>The usage of two turns taken together.\<close>

definition add_opt :: "nat option \<Rightarrow> nat option \<Rightarrow> nat option" where
  "add_opt a b = (case (a, b) of (None, _) \<Rightarrow> b | (_, None) \<Rightarrow> a | (Some x, Some y) \<Rightarrow> Some (x + y))"

definition merge_usage :: "usage \<Rightarrow> usage \<Rightarrow> usage" where
  "merge_usage a b = \<lparr> us_input = us_input a + us_input b, us_cached = us_cached a + us_cached b,
     us_output = us_output a + us_output b, us_creation = add_opt (us_creation a) (us_creation b),
     us_reasoning = add_opt (us_reasoning a) (us_reasoning b), us_reported = None \<rparr>"

definition all_tokens :: "usage \<Rightarrow> nat" where
  "all_tokens u = us_input u + us_cached u + us_output u
     + (case us_creation u of None \<Rightarrow> 0 | Some n \<Rightarrow> n) + (case us_reasoning u of None \<Rightarrow> 0 | Some n \<Rightarrow> n)"

text \<open>One bucket of tokens against an optional rate.\<close>

definition bucket :: "nat option \<Rightarrow> rat \<Rightarrow> rat" where
  "bucket n r = (case n of None \<Rightarrow> 0 | Some n \<Rightarrow> of_nat n * r)"

lemma bucket_add: "bucket (add_opt a b) r = bucket a r + bucket b r"
  by (cases a; cases b) (simp_all add: bucket_def add_opt_def algebra_simps)

definition creation_rate :: "model_prices \<Rightarrow> rat" where
  "creation_rate p = (case cache_creation_per_1m p of None \<Rightarrow> 0 | Some r \<Rightarrow> r)"

definition reasoning_rate :: "vendor \<Rightarrow> model_prices \<Rightarrow> rat" where
  "reasoning_rate v p = (case reasoning_per_1m p of Some r \<Rightarrow> r | None \<Rightarrow> if v = Codex then output_per_1m p else 0)"

lemma estimate_buckets:
  "estimate_cost u v m = (if reported_only v then None else map_option (\<lambda>p.
     (of_nat (us_input u) * input_per_1m p + of_nat (us_cached u) * cached_input_per_1m p + of_nat (us_output u) * output_per_1m p
      + bucket (us_creation u) (creation_rate p) + bucket (us_reasoning u) (reasoning_rate v p)) / 1000000) (resolve_price v m))"
  unfolding estimate_cost_def
  by (auto intro!: arg_cong [where f = "\<lambda>g. map_option g _"]
      simp: bucket_def creation_rate_def reasoning_rate_def fun_eq_iff split: option.split)

lemma bucket_bounds: "0 \<le> r \<Longrightarrow> r \<le> h \<Longrightarrow> 0 \<le> bucket n r \<and> bucket n r \<le> of_nat (case n of None \<Rightarrow> 0 | Some n \<Rightarrow> n) * h"
  by (cases n) (simp_all add: bucket_def mult_left_mono)

lemma estimate_bounds:
  assumes "rates_ok p"
  shows "of_nat (us_input u + us_cached u + us_output u) * cached_input_per_1m p
      \<le> of_nat (us_input u) * input_per_1m p + of_nat (us_cached u) * cached_input_per_1m p + of_nat (us_output u) * output_per_1m p
        + bucket (us_creation u) (creation_rate p) + bucket (us_reasoning u) (reasoning_rate v p)" (is ?low)
    and "of_nat (us_input u) * input_per_1m p + of_nat (us_cached u) * cached_input_per_1m p + of_nat (us_output u) * output_per_1m p
        + bucket (us_creation u) (creation_rate p) + bucket (us_reasoning u) (reasoning_rate v p)
      \<le> of_nat (all_tokens u) * output_per_1m p" (is ?high)
proof -
  have p: "0 < cached_input_per_1m p" "cached_input_per_1m p \<le> input_per_1m p" "input_per_1m p \<le> output_per_1m p"
    using assms by (simp_all add: rates_ok_def)
  have cr: "0 \<le> creation_rate p" "creation_rate p \<le> output_per_1m p"
    using assms p by (auto simp: rates_ok_def creation_rate_def split: option.splits)
  have re: "0 \<le> reasoning_rate v p" "reasoning_rate v p \<le> output_per_1m p"
    using assms p by (auto simp: rates_ok_def reasoning_rate_def split: option.splits)
  note b = bucket_bounds [OF cr, of "us_creation u"] bucket_bounds [OF re, of "us_reasoning u"]
  have lows: "of_nat (us_input u) * cached_input_per_1m p \<le> of_nat (us_input u) * input_per_1m p"
    "of_nat (us_output u) * cached_input_per_1m p \<le> of_nat (us_output u) * output_per_1m p"
    "of_nat (us_input u) * input_per_1m p \<le> of_nat (us_input u) * output_per_1m p"
    "of_nat (us_cached u) * cached_input_per_1m p \<le> of_nat (us_cached u) * output_per_1m p"
    using p by (auto intro: mult_left_mono)
  show ?low using lows(1,2) b by (simp add: algebra_simps)
  show ?high using lows(3,4) b by (simp add: all_tokens_def algebra_simps)
qed

section \<open>Properties\<close>

text \<open>Splitting a session into turns does not change its estimate: the estimate of two usages taken together
  is the sum of their estimates, and is missing exactly when either is.\<close>

theorem estimates_add_up:
  "estimate_cost (merge_usage a b) v m
     = (case (estimate_cost a v m, estimate_cost b v m) of (Some x, Some y) \<Rightarrow> Some (x + y) | _ \<Rightarrow> None)"
  unfolding estimate_buckets
  by (cases "resolve_price v m") (simp_all add: merge_usage_def bucket_add algebra_simps add_divide_distrib)

lemma table_keys: "table_for v = Some t \<Longrightarrow> distinct (map fst t)"
  by (cases v) (auto simp: table_for_def ANTHROPIC_TABLE_def OPENAI_TABLE_def XAI_TABLE_def)

lemma normalized_name: "\<exists>tag. m = normalize_model_id m @ tag \<and> (tag = [] \<or> hd tag = 91)"
proof -
  have "m = normalize_model_id m @ dropWhile (\<lambda>c. c \<noteq> 91) m" by (simp add: normalize_model_id_def)
  moreover have "dropWhile (\<lambda>c. c \<noteq> 91) m = [] \<or> hd (dropWhile (\<lambda>c. c \<noteq> 91) m) = 91"
    using hd_dropWhile [of "\<lambda>c. c \<noteq> 91" m] by blast
  ultimately show ?thesis by blast
qed

text \<open>C40. A price is either what the vendor reported, and then above zero, or, when the vendor reported
  none above zero, it comes from the one row of the vendor's own table whose name is the model's name up
  to its first bracket, if it has one: each kind of token at that row's own rate, cache writes free where
  the row has no rate for them, reasoning tokens of Codex at the output rate where it has none; it is at
  least the prompt and answer at the cached rate and at most every token at the output rate. No other
  vendor's table and no other row is ever used.\<close>

theorem price_is_reported_or_own_row:
  assumes "resolve_turn_cost u v m = Some c"
  shows "(us_reported u = Some c \<and> 0 < c)
    \<or> (\<exists>t k p tag. table_for v = Some t \<and> (k, p) \<in> set t \<and> (\<forall>p'. (k, p') \<in> set t \<longrightarrow> p' = p)
        \<and> m = lit k @ tag \<and> (tag = [] \<or> hd tag = 91) \<and> v \<in> {Claude, Codex}
        \<and> (\<forall>r. us_reported u = Some r \<longrightarrow> r \<le> 0)
        \<and> 1000000 * c = of_nat (us_input u) * input_per_1m p + of_nat (us_cached u) * cached_input_per_1m p
            + of_nat (us_output u) * output_per_1m p
            + of_nat (case us_creation u of None \<Rightarrow> 0 | Some n \<Rightarrow> n)
              * (case cache_creation_per_1m p of None \<Rightarrow> 0 | Some r \<Rightarrow> r)
            + of_nat (case us_reasoning u of None \<Rightarrow> 0 | Some n \<Rightarrow> n)
              * (case reasoning_per_1m p of Some r \<Rightarrow> r | None \<Rightarrow> if v = Codex then output_per_1m p else 0)
        \<and> of_nat (us_input u + us_cached u + us_output u) * cached_input_per_1m p / 1000000 \<le> c
        \<and> c \<le> of_nat (all_tokens u) * output_per_1m p / 1000000)"
proof (cases "us_reported u = Some c \<and> 0 < c")
  case False
  then have e: "estimate_cost u v m = Some c" and r: "\<forall>r. us_reported u = Some r \<longrightarrow> r \<le> 0"
    using assms by (auto simp: resolve_turn_cost_def split: option.splits if_splits)
  then obtain t p where p: "table_for v = Some t" "priced t (normalize_model_id m) = Some p"
    "resolve_price v m = Some p"
    unfolding estimate_buckets by (auto simp: resolve_price_def Option.bind_eq_Some_conv split: if_splits)
  obtain k where k: "(k, p) \<in> set t" "lit k = normalize_model_id m" using priced_row [OF p(2)] by blast
  obtain tag where tag: "m = lit k @ tag" "tag = [] \<or> hd tag = 91" using normalized_name [of m] k(2) by auto
  have own: "\<forall>p'. (k, p') \<in> set t \<longrightarrow> p' = p"
    using eq_key_imp_eq_value [OF table_keys [OF p(1)] k(1)] by blast
  note ok = tables_ok [OF p(1) k(1)]
  let ?sum = "of_nat (us_input u) * input_per_1m p + of_nat (us_cached u) * cached_input_per_1m p
    + of_nat (us_output u) * output_per_1m p + bucket (us_creation u) (creation_rate p)
    + bucket (us_reasoning u) (reasoning_rate v p)"
  have c: "c = ?sum / 1000000" using e p(3) unfolding estimate_buckets by (auto split: if_splits)
  have bk: "bucket n r = of_nat (case n of None \<Rightarrow> 0 | Some n \<Rightarrow> n) * r" for n r
    by (cases n) (simp_all add: bucket_def)
  have "1000000 * c = ?sum" unfolding c by simp
  note exact = this [unfolded bk creation_rate_def reasoning_rate_def]
  note bounds = estimate_bounds [OF conjunct1 [OF ok], of u v]
  have low: "of_nat (us_input u + us_cached u + us_output u) * cached_input_per_1m p / 1000000 \<le> c"
    unfolding c by (rule divide_right_mono [OF bounds(1)]) simp
  have high: "c \<le> of_nat (all_tokens u) * output_per_1m p / 1000000"
    unfolding c by (rule divide_right_mono [OF bounds(2)]) simp
  show ?thesis
    by (rule disjI2, rule exI [of _ t], rule exI [of _ k], rule exI [of _ p], rule exI [of _ tag])
      (intro conjI p(1) k(1) own tag conjunct2 [OF ok] r exact low high)
qed simp

theorem price_is_reported_or_own_row_witness:
  "\<exists>t k p tag. table_for Codex = Some t \<and> (k, p) \<in> set t \<and> lit ''o3[1m]'' = lit k @ tag
     \<and> 1000000 * 2 = 1000000 * input_per_1m p"
proof -
  let ?u = "\<lparr> us_input = 1000000, us_cached = 0, us_output = 0, us_creation = None, us_reasoning = None, us_reported = Some 0 \<rparr>"
  have n: "normalize_model_id (lit ''o3[1m]'') = lit ''o3''" by code_simp
  have "priced OPENAI_TABLE (lit ''o3'') = Some (rates 2 (5 / 10) 8 None (Some 8))"
    by (simp add: priced_def OPENAI_TABLE_def)
  then have r: "resolve_turn_cost ?u Codex (lit ''o3[1m]'') = Some 2"
    by (simp add: resolve_turn_cost_def estimate_cost_def resolve_price_def table_for_def n reported_only_def rates_def)
  from price_is_reported_or_own_row [OF r] show ?thesis by auto
qed

text \<open>Cutting the ledger never changes a sum: after any series of calls, with clocks that do not run backwards
  and failed writes leaving the file alone, the advice spent in the last 24 hours, in all and per
  vendor, is that of all samples ever stored.\<close>

fun ledger_run :: "(vendor \<times> rat \<times> int \<times> int \<times> bool) list \<Rightarrow> ledger_file \<Rightarrow> ledger_file" where
  "ledger_run [] f = f"
| "ledger_run ((v, usd, now, later, stored) # cs) f = ledger_run cs (fst (append_budget_sample stored v usd now later f))"

definition samples_of :: "(vendor \<times> rat \<times> int \<times> int \<times> bool) list \<Rightarrow> budget_sample list" where
  "samples_of cs = map (\<lambda>(v, usd, now, later, stored). \<lparr> bs_vendor = v, bs_usd = usd, bs_ts = now \<rparr>)
     (filter (\<lambda>(v, usd, now, later, stored). stored) cs)"

lemma recent_filter:
  assumes "later \<le> t" "\<And>s. P s \<Longrightarrow> t - hours 24 \<le> bs_ts s"
  shows "filter P (filter (\<lambda>s. later - hours 48 \<le> bs_ts s) ss) = filter P ss"
proof -
  have "later - hours 48 \<le> t - hours 24" using assms(1) by (simp add: hours_def)
  then show ?thesis using assms(2) by (fastforce intro: filter_cong)
qed

lemma ledger_run_filter:
  assumes "\<And>s. P s \<Longrightarrow> t - hours 24 \<le> bs_ts s" "list_all (\<lambda>(_, _, _, later, _). later \<le> t) cs"
    "load_budget_ledger f = Inr ss"
  shows "\<exists>ss'. load_budget_ledger (ledger_run cs f) = Inr ss' \<and> filter P ss' = filter P (ss @ samples_of cs)"
  using assms(2,3)
proof (induction cs arbitrary: f ss)
  case (Cons c cs)
  obtain v usd now later stored where c: "c = (v, usd, now, later, stored)" by (cases c)
  let ?new = "if stored then filter (\<lambda>s. later - hours 48 \<le> bs_ts s) (ss @ [\<lparr> bs_vendor = v, bs_usd = usd, bs_ts = now \<rparr>]) else ss"
  have "load_budget_ledger (fst (append_budget_sample stored v usd now later f)) = Inr ?new"
    using Cons(3) by (simp add: append_budget_sample_def load_budget_ledger_def split: ledger_file.splits)
  from Cons(1) [OF _ this] Cons(2) obtain ss' where
    ss': "load_budget_ledger (ledger_run (c # cs) f) = Inr ss'" "filter P ss' = filter P (?new @ samples_of cs)"
    by (auto simp: c)
  have "later \<le> t" using Cons(2) by (simp add: c)
  note cut = recent_filter [where P = P and t = t, OF this assms(1)]
  have "filter P ?new = filter P (ss @ samples_of [c])"
  proof (cases stored)
    case True
    then show ?thesis unfolding if_P [OF True] by (subst cut) (simp_all add: c samples_of_def)
  qed (simp add: c samples_of_def)
  then show ?case using ss' by (auto simp: samples_of_def)
qed (simp add: samples_of_def)

theorem ledger_cut_is_invisible:
  assumes "list_all (\<lambda>(_, _, _, later, _). later \<le> t) cs"
  shows "\<exists>ss. load_budget_ledger (ledger_run cs LedgerMissing) = Inr ss
    \<and> sum_advise_today t ss = sum_advise_today t (samples_of cs)
    \<and> sum_advise_today_by_vendor t v ss = sum_advise_today_by_vendor t v (samples_of cs)"
proof -
  have l: "load_budget_ledger LedgerMissing = Inr []" by (simp add: load_budget_ledger_def)
  obtain ss where ss: "load_budget_ledger (ledger_run cs LedgerMissing) = Inr ss"
    "filter (\<lambda>s. t - hours 24 \<le> bs_ts s) ss = filter (\<lambda>s. t - hours 24 \<le> bs_ts s) (samples_of cs)"
    using ledger_run_filter [where P = "\<lambda>s. t - hours 24 \<le> bs_ts s", OF _ assms l] by auto
  moreover have "filter (\<lambda>s. t - hours 24 \<le> bs_ts s \<and> bs_vendor s = v) ss
      = filter (\<lambda>s. t - hours 24 \<le> bs_ts s \<and> bs_vendor s = v) (samples_of cs)"
    using ledger_run_filter [where P = "\<lambda>s. t - hours 24 \<le> bs_ts s \<and> bs_vendor s = v", OF _ assms l] ss(1) by auto
  ultimately show ?thesis by (auto simp: sum_advise_today_def sum_advise_today_by_vendor_def)
qed

theorem ledger_cut_is_invisible_witness:
  "\<exists>ss. load_budget_ledger (ledger_run [(Claude, 5, 0, 0, True), (Codex, 7, hours 49, hours 49, True)] LedgerMissing) = Inr ss
    \<and> sum_advise_today (hours 50) ss = sum_advise_today (hours 50)
        (samples_of [(Claude, 5, 0, 0, True), (Codex, 7, hours 49, hours 49, True)])"
  using ledger_cut_is_invisible [of "hours 50" "[(Claude, 5, 0, 0, True), (Codex, 7, hours 49, hours 49, True)]"]
  by (auto simp: hours_def)

text \<open>The name of a model is cut at its first bracket whatever the bracket holds: any tag, not the documented
  \<^verbatim>\<open>[1m]\<close> alone, is priced as the bare model.\<close>

theorem any_bracket_is_dropped:
  "estimate_cost u v (m @ 91 # tag) = estimate_cost u v (m @ lit ''[1m]'')"
proof -
  have "normalize_model_id (m @ 91 # x) = normalize_model_id m" for x
    by (induction m) (simp_all add: normalize_model_id_def)
  moreover have "lit ''[1m]'' = 91 # lit ''1m]''" by code_simp
  ultimately show ?thesis by (simp add: estimate_cost_def resolve_price_def)
qed

end
