(* ===== verification/Progress_Projection.thy ===== *)
theory Progress_Projection
  imports Progress_Log Pricing "HOL-Library.AList"
begin

text \<open>
  The projection of a progress journal that the server keeps in memory
  (\<^verbatim>\<open>progress_projection.rs\<close>): the fold of one event into a project's state, catching up with the
  file by a byte cursor, and the summaries read from it; and the summary the command line computes from
  the whole file (\<^verbatim>\<open>queries.rs\<close>, \<^verbatim>\<open>open_agent_spawns\<close> of \<^verbatim>\<open>progress.rs\<close>), which is its
  reference. Times are nanoseconds since the epoch, money is exact; \<^verbatim>\<open>pts\<close> parses a timestamp. The state is
  that of one project; its two locks make each catch-up one step.
\<close>

section \<open>State\<close>

definition TAIL_CAPACITY :: nat where "TAIL_CAPACITY = 200"
definition MINUTES_24H :: int where "MINUTES_24H = 24 * 60"

record pricing_accumulator =
  pr_cost :: rat
  pr_priced :: nat
  pr_unpriced :: nat

definition no_pricing :: pricing_accumulator where
  "no_pricing = \<lparr> pr_cost = 0, pr_priced = 0, pr_unpriced = 0 \<rparr>"

record session_projection =
  sp_pricing :: "vendor \<Rightarrow> pricing_accumulator"
  sp_tokens :: "nat option"
  sp_model :: "utext option"
  sp_last_event :: "json option"
  sp_last_at :: "int option"

definition default_session :: session_projection where
  "default_session = \<lparr> sp_pricing = (\<lambda>_. no_pricing), sp_tokens = None, sp_model = None, sp_last_event = None, sp_last_at = None \<rparr>"

text \<open>\<^verbatim>\<open>SessionProjection::pricing\<close>: the cost is absent until a turn was priced.\<close>

definition session_pricing :: "vendor \<Rightarrow> session_projection \<Rightarrow> rat option \<times> nat" where
  "session_pricing v s = (let a = sp_pricing s v in
     (if 0 < pr_priced a then Some (pr_cost a) else None, pr_unpriced a))"

record delegation_projection =
  dp_spawned :: nat
  dp_dispatched :: nat
  dp_completed :: nat
  dp_notified :: nat
  dp_collected :: nat
  dp_stopped :: nat
  dp_denied :: nat
  dp_notified_24h :: nat
  dp_denied_24h :: nat

definition no_delegations :: delegation_projection where
  "no_delegations = \<lparr> dp_spawned = 0, dp_dispatched = 0, dp_completed = 0, dp_notified = 0, dp_collected = 0,
     dp_stopped = 0, dp_denied = 0, dp_notified_24h = 0, dp_denied_24h = 0 \<rparr>"

record cost_bucket =
  cb_total :: rat
  cb_count :: nat
  cb_vendor :: money_map

definition empty_bucket :: cost_bucket where
  "empty_bucket = \<lparr> cb_total = 0, cb_count = 0, cb_vendor = (\<lambda>_. None) \<rparr>"

record delegation_bucket =
  db_notified :: nat
  db_denied :: nat

record slug_state =
  st_loaded :: bool
  st_offset :: nat
  st_corrupt :: nat
  st_last_valid :: "json option"
  st_last_unscoped :: "json option"
  st_tail :: "json list"
  st_cost :: rat
  st_vendor :: money_map
  st_minute_cost :: "(int \<times> cost_bucket) list"
  st_sessions :: "utext \<Rightarrow> session_projection option"
  st_delegations :: delegation_projection
  st_minute_delegations :: "(int \<times> delegation_bucket) list"
  st_workflow :: "json list"

definition default_slug :: slug_state where
  "default_slug = \<lparr> st_loaded = False, st_offset = 0, st_corrupt = 0, st_last_valid = None, st_last_unscoped = None,
     st_tail = [], st_cost = 0, st_vendor = (\<lambda>_. None), st_minute_cost = [], st_sessions = (\<lambda>_. None),
     st_delegations = no_delegations, st_minute_delegations = [], st_workflow = [] \<rparr>"

section \<open>Folding one event\<close>

definition minute :: "int \<Rightarrow> int" where
  "minute t = (t div 10 ^ 9) div 60"

definition event_timestamp :: "(utext \<Rightarrow> int option) \<Rightarrow> json \<Rightarrow> int option" where
  "event_timestamp pts e = Option.bind (json_str ''ts'' e) pts"

definition bucket_minute :: "(utext \<Rightarrow> int option) \<Rightarrow> json \<Rightarrow> int \<Rightarrow> int" where
  "bucket_minute pts e now = (case event_timestamp pts e of Some t \<Rightarrow> minute t | None \<Rightarrow> minute now)"

text \<open>One entry of a map keyed by minutes, made from the default when it is new.\<close>

definition bump :: "int \<Rightarrow> 'b \<Rightarrow> ('b \<Rightarrow> 'b) \<Rightarrow> (int \<times> 'b) list \<Rightarrow> (int \<times> 'b) list" where
  "bump k d f bs = AList.map_default k (f d) f bs"

definition fold_cost :: "(utext \<Rightarrow> int option) \<Rightarrow> cost_contribution \<Rightarrow> json \<Rightarrow> int \<Rightarrow> slug_state \<Rightarrow> slug_state" where
  "fold_cost pts k e now s =
     (let c = cc_cost k;
          s1 = s \<lparr> st_cost := st_cost s + c, st_vendor := add_money_opt (cc_vendor k) c (st_vendor s) \<rparr>;
          now_minute = minute now;
          event_minute = min (bucket_minute pts e now) now_minute;
          oldest = now_minute - MINUTES_24H;
          s2 = s1 \<lparr> st_minute_cost := filter (\<lambda>b. oldest \<le> fst b) (st_minute_cost s1) \<rparr> in
      if event_minute < oldest then s2
      else s2 \<lparr> st_minute_cost := bump event_minute empty_bucket
          (\<lambda>b. \<lparr> cb_total = cb_total b + c, cb_count = u32_saturating_add (cb_count b) 1,
                 cb_vendor = add_money_opt (cc_vendor k) c (cb_vendor b) \<rparr>) (st_minute_cost s2) \<rparr>)"

definition fold_session_turn :: "(utext \<Rightarrow> rat) \<Rightarrow> json \<Rightarrow> session_projection \<Rightarrow> session_projection" where
  "fold_session_turn flt e s =
     (let model = json_str ''model'' e;
          s1 = (case model of
              Some m \<Rightarrow> if trim m \<noteq> [] then s \<lparr> sp_model := Some (trim m) \<rparr> else s
            | None \<Rightarrow> s) in
      case Option.bind (json_get ''usage'' e) (usage_from_value flt) of
        None \<Rightarrow> s1
      | Some u \<Rightarrow>
          (let s2 = (if 0 < usage_total u
                then s1 \<lparr> sp_tokens := Some (u64_saturating_add (case sp_tokens s1 of None \<Rightarrow> 0 | Some n \<Rightarrow> n) (usage_total u)) \<rparr>
                else s1);
               name = (case model of Some m \<Rightarrow> m | None \<Rightarrow> []) in
           s2 \<lparr> sp_pricing := (\<lambda>v. let a = sp_pricing s2 v in
             case resolve_turn_cost u v name of
               Some c \<Rightarrow> a \<lparr> pr_cost := pr_cost a + c, pr_priced := pr_priced a + 1 \<rparr>
             | None \<Rightarrow> a \<lparr> pr_unpriced := pr_unpriced a + 1 \<rparr>) \<rparr>))"

definition is_denied :: "utext \<Rightarrow> bool" where
  "is_denied kind \<longleftrightarrow> kind = lit ''delegation_denied'' \<or> kind = lit ''delegation_policy_denied''"

text \<open>The counter of a delegation event, if it has one.\<close>

definition count_delegation :: "utext \<Rightarrow> delegation_projection \<Rightarrow> delegation_projection option" where
  "count_delegation kind d =
     (if kind = lit ''delegation_spawned'' then Some (d \<lparr> dp_spawned := u64_saturating_add (dp_spawned d) 1 \<rparr>)
      else if kind = lit ''delegation_dispatched'' then Some (d \<lparr> dp_dispatched := u64_saturating_add (dp_dispatched d) 1 \<rparr>)
      else if kind = lit ''delegation_completed'' then Some (d \<lparr> dp_completed := u64_saturating_add (dp_completed d) 1 \<rparr>)
      else if kind = lit ''delegation_notified'' then Some (d \<lparr> dp_notified := u64_saturating_add (dp_notified d) 1 \<rparr>)
      else if kind = lit ''delegation_collected'' then Some (d \<lparr> dp_collected := u64_saturating_add (dp_collected d) 1 \<rparr>)
      else if kind = lit ''delegation_stopped'' then Some (d \<lparr> dp_stopped := u64_saturating_add (dp_stopped d) 1 \<rparr>)
      else if is_denied kind then Some (d \<lparr> dp_denied := u64_saturating_add (dp_denied d) 1 \<rparr>)
      else None)"

definition fold_delegation :: "(utext \<Rightarrow> int option) \<Rightarrow> utext \<Rightarrow> json \<Rightarrow> int \<Rightarrow> slug_state \<Rightarrow> slug_state" where
  "fold_delegation pts kind e now s = (case count_delegation kind (st_delegations s) of
       None \<Rightarrow> s
     | Some d \<Rightarrow>
         (let s1 = s \<lparr> st_delegations := d \<rparr> in
          if kind \<noteq> lit ''delegation_notified'' \<and> \<not> is_denied kind then s1
          else (let now_minute = minute now;
                    event_minute = min (bucket_minute pts e now) now_minute;
                    oldest = now_minute - MINUTES_24H;
                    s2 = s1 \<lparr> st_minute_delegations := filter (\<lambda>b. oldest \<le> fst b) (st_minute_delegations s1) \<rparr> in
                if event_minute < oldest then s2
                else s2 \<lparr> st_minute_delegations := bump event_minute \<lparr> db_notified = 0, db_denied = 0 \<rparr>
                    (\<lambda>b. if kind = lit ''delegation_notified''
                         then b \<lparr> db_notified := u32_saturating_add (db_notified b) 1 \<rparr>
                         else b \<lparr> db_denied := u32_saturating_add (db_denied b) 1 \<rparr>) (st_minute_delegations s2) \<rparr>)))"

definition push_tail :: "json \<Rightarrow> json list \<Rightarrow> json list" where
  "push_tail e es = (if length es = TAIL_CAPACITY then tl es else es) @ [e]"

definition session_entry :: "utext \<Rightarrow> slug_state \<Rightarrow> session_projection" where
  "session_entry k s = (case st_sessions s k of Some p \<Rightarrow> p | None \<Rightarrow> default_session)"

definition workflow_kinds :: "string list" where
  "workflow_kinds = [''agent_spawn'', ''agent_done'', ''escalation'', ''gate_triggered'']"

definition fold_event ::
  "(utext \<Rightarrow> rat) \<Rightarrow> (utext \<Rightarrow> int option) \<Rightarrow> int \<Rightarrow> json \<Rightarrow> slug_state \<Rightarrow> slug_state" where
  "fold_event flt pts now e s =
     (let s1 = s \<lparr> st_last_valid := Some e, st_tail := push_tail e (st_tail s) \<rparr>;
          s2 = (case event_sid e of
              Some k \<Rightarrow> s1 \<lparr> st_sessions := (st_sessions s1)(k \<mapsto>
                (session_entry k s1) \<lparr> sp_last_at := event_timestamp pts e, sp_last_event := Some e \<rparr>) \<rparr>
            | None \<Rightarrow> s1 \<lparr> st_last_unscoped := Some e \<rparr>);
          kind = event_kind_of e;
          s3 = (if kind \<in> set (map lit workflow_kinds) then s2 \<lparr> st_workflow := st_workflow s2 @ [e] \<rparr> else s2);
          s4 = (case progress_cost_contribution flt e of None \<Rightarrow> s3 | Some k \<Rightarrow> fold_cost pts k e now s3);
          s5 = (case event_sid e of
              Some k \<Rightarrow> if kind = lit ''chat_turn_completed''
                then s4 \<lparr> st_sessions := (st_sessions s4)(k \<mapsto> fold_session_turn flt e (session_entry k s4)) \<rparr> else s4
            | None \<Rightarrow> s4) in
      fold_delegation pts kind e now s5)"

section \<open>Catching up\<close>

definition apply_checkpoint :: "checkpoint \<Rightarrow> slug_state \<Rightarrow> slug_state" where
  "apply_checkpoint c s = s \<lparr> st_cost := ck_cost c, st_vendor := ck_vendor c \<rparr>"

record projection =
  pj_state :: slug_state
  pj_catch_ups :: nat
  pj_bytes :: nat
  pj_rotations :: nat
  pj_version :: nat

definition new_projection :: projection where
  "new_projection = \<lparr> pj_state = default_slug, pj_catch_ups = 0, pj_bytes = 0, pj_rotations = 0, pj_version = 0 \<rparr>"

record catch_io =
  ci_stat :: bool
  ci_locked :: bool
  ci_recover :: recover_io
  ci_read :: bool

definition catch_good :: catch_io where
  "catch_good = \<lparr> ci_stat = True, ci_locked = True, ci_recover = recover_good, ci_read = True \<rparr>"

definition active_size :: "progress_files \<Rightarrow> nat" where
  "active_size p = (case pg_active p of None \<Rightarrow> 0 | Some bs \<Rightarrow> length bs)"

definition active_view :: "bool \<Rightarrow> progress_files \<Rightarrow> file_view" where
  "active_view readable p = (case pg_active p of None \<Rightarrow> Missing | Some bs \<Rightarrow> if readable then Content bs else Unreadable)"

text \<open>The state a checkpoint starts from.\<close>

definition start_state :: "checkpoint option \<Rightarrow> slug_state" where
  "start_state ck = (let s = default_slug \<lparr> st_loaded := True \<rparr> in
     case ck of None \<Rightarrow> s | Some c \<Rightarrow> apply_checkpoint c s)"

text \<open>What a delta adds to the state.\<close>

definition ingest_delta ::
  "(utext \<Rightarrow> rat) \<Rightarrow> (utext \<Rightarrow> int option) \<Rightarrow> int \<Rightarrow> json delta \<Rightarrow> slug_state \<Rightarrow> slug_state" where
  "ingest_delta flt pts now d s =
     (let s1 = fold (fold_event flt pts now) (dt_events d) s in
      s1 \<lparr> st_corrupt := st_corrupt s1 + dt_corrupt d, st_offset := dt_next d \<rparr>)"

text \<open>\<^verbatim>\<open>catch_up_locked\<close>, with the files it may repair on the way and whether it succeeded.\<close>

definition catch_up_locked ::
  "(bytes \<Rightarrow> json option) \<Rightarrow> (utext \<Rightarrow> rat) \<Rightarrow> (bytes \<Rightarrow> utext) \<Rightarrow> (utext \<Rightarrow> int option) \<Rightarrow> catch_io \<Rightarrow> int \<Rightarrow> bool
    \<Rightarrow> progress_files \<times> projection \<Rightarrow> (progress_files \<times> projection) \<times> bool" where
  "catch_up_locked parse flt sha pts io now force_rehydrate pj =
     (let (p, j) = pj in
      if \<not> ci_stat io then ((p, j), False)
      else (let offset = st_offset (pj_state j); size = active_size p; rotated = (force_rehydrate \<or> size < offset) in
        case (if \<not> st_loaded (pj_state j) \<or> rotated
              then (case load_or_recover_progress_checkpoint parse flt sha (ci_locked io) (ci_recover io) p of
                  (p1, Inl _) \<Rightarrow> (p1, None)
                | (p1, Inr ck) \<Rightarrow> (p1, Some (j \<lparr> pj_state := start_state ck \<rparr>)))
              else (p, Some j)) of
          (p1, None) \<Rightarrow> ((p1, j), False)
        | (p1, Some j1) \<Rightarrow>
            (let j2 = (if rotated then j1 \<lparr> pj_rotations := pj_rotations j1 + 1 \<rparr> else j1);
                 offset2 = (if rotated then 0 else offset) in
             if size = offset2
             then ((p1, if rotated then j2 \<lparr> pj_version := pj_version j2 + 1 \<rparr> else j2), True)
             else (let j3 = j2 \<lparr> pj_catch_ups := pj_catch_ups j2 + 1 \<rparr> in
               case read_delta parse (active_view (ci_read io) p1) offset2 of
                 Inl _ \<Rightarrow> ((p1, j3), False)
               | Inr d \<Rightarrow>
                   ((p1, j3 \<lparr> pj_state := ingest_delta flt pts now d (pj_state j3),
                              pj_bytes := pj_bytes j3 + (dt_next d - offset2),
                              pj_version := pj_version j3 + 1 \<rparr>), True)))))"

text \<open>\<^verbatim>\<open>catch_up_for_query\<close>: nothing to do when the size is the cursor's, nor while another thread catches up.\<close>

definition catch_up_for_query ::
  "(bytes \<Rightarrow> json option) \<Rightarrow> (utext \<Rightarrow> rat) \<Rightarrow> (bytes \<Rightarrow> utext) \<Rightarrow> (utext \<Rightarrow> int option) \<Rightarrow> bool \<Rightarrow> catch_io \<Rightarrow> int
    \<Rightarrow> progress_files \<times> projection \<Rightarrow> (progress_files \<times> projection) \<times> bool" where
  "catch_up_for_query parse flt sha pts busy io now pj =
     (let (p, j) = pj in
      if \<not> ci_stat io then ((p, j), False)
      else if active_size p = st_offset (pj_state j) \<and> st_loaded (pj_state j) then ((p, j), True)
      else if busy then ((p, j), True)
      else catch_up_locked parse flt sha pts io now False (p, j))"

section \<open>Summaries\<close>

record cost_totals =
  ct_24h :: rat
  ct_active :: rat
  ct_total :: rat
  ct_count_24h :: nat
  ct_count_active :: nat
  ct_vendor_24h :: money_map
  ct_vendor_total :: money_map

definition add_all_money :: "money_map \<Rightarrow> money_map \<Rightarrow> money_map" where
  "add_all_money new old = (\<lambda>v. case new v of None \<Rightarrow> old v | Some c \<Rightarrow> Some ((case old v of Some x \<Rightarrow> x | None \<Rightarrow> 0) + c))"

definition cost_summary :: "slug_state \<Rightarrow> int \<Rightarrow> cost_totals" where
  "cost_summary s now =
     (let oldest = minute now - MINUTES_24H;
          buckets = map snd (filter (\<lambda>b. oldest \<le> fst b) (st_minute_cost s)) in
      fold (\<lambda>b t. t \<lparr> ct_24h := ct_24h t + cb_total b,
                      ct_count_24h := u32_saturating_add (ct_count_24h t) (cb_count b),
                      ct_vendor_24h := add_all_money (cb_vendor b) (ct_vendor_24h t) \<rparr>) buckets
        \<lparr> ct_24h = 0, ct_active = 0, ct_total = st_cost s, ct_count_24h = 0, ct_count_active = 0,
          ct_vendor_24h = (\<lambda>_. None), ct_vendor_total = st_vendor s \<rparr>)"

record projection_snapshot =
  sn_offset :: nat
  sn_corrupt :: nat
  sn_last_valid :: "json option"
  sn_tail :: "json list"
  sn_cost :: cost_totals
  sn_sessions :: "utext \<Rightarrow> session_projection option"
  sn_delegations :: delegation_projection
  sn_workflow :: "json list"
  sn_last_unscoped :: "json option"

definition snapshot :: "slug_state \<Rightarrow> int \<Rightarrow> projection_snapshot" where
  "snapshot s now =
     (let oldest = minute now - MINUTES_24H;
          buckets = map snd (filter (\<lambda>b. oldest \<le> fst b) (st_minute_delegations s));
          d = fold (\<lambda>b d. d \<lparr> dp_notified_24h := u32_saturating_add (dp_notified_24h d) (db_notified b),
                              dp_denied_24h := u32_saturating_add (dp_denied_24h d) (db_denied b) \<rparr>) buckets (st_delegations s) in
      \<lparr> sn_offset = st_offset s, sn_corrupt = st_corrupt s, sn_last_valid = st_last_valid s, sn_tail = st_tail s,
        sn_cost = cost_summary s now, sn_sessions = st_sessions s, sn_delegations = d, sn_workflow = st_workflow s,
        sn_last_unscoped = st_last_unscoped s \<rparr>)"

definition recent_events :: "nat \<Rightarrow> projection_snapshot \<Rightarrow> json list" where
  "recent_events n sn = drop (length (sn_tail sn) - n) (sn_tail sn)"

definition session_activity ::
  "(utext \<Rightarrow> int option) \<Rightarrow> projection_snapshot \<Rightarrow> utext \<Rightarrow> nat \<Rightarrow> live_turn option \<Rightarrow> int \<Rightarrow> progress_activity_status" where
  "session_activity pts sn s fallback live now =
     (let selected = (case Option.bind (sn_sessions sn s) sp_last_event of Some e \<Rightarrow> Some e | None \<Rightarrow> sn_last_unscoped sn) in
      classify_session_activity pts (case selected of None \<Rightarrow> [] | Some e \<Rightarrow> [e]) s fallback live now)"

section \<open>The summary computed from the whole file\<close>

datatype job_liveness = JobRunning | JobTerminal rat

text \<open>\<^verbatim>\<open>open_agent_spawns\<close>: the spawns, first row of a session first, less the sessions that are done.\<close>

definition spawn_session :: "json \<Rightarrow> utext option" where
  "spawn_session e = (case json_str ''session_id'' e of Some k \<Rightarrow> if k \<noteq> [] then Some k else None | None \<Rightarrow> None)"

fun scan_spawns :: "json list \<Rightarrow> (utext \<times> utext option) list \<times> utext list \<Rightarrow> (utext \<times> utext option) list \<times> utext list" where
  "scan_spawns [] acc = acc"
| "scan_spawns (e # es) (spawns, ended) =
     (case spawn_session e of
        None \<Rightarrow> scan_spawns es (spawns, ended)
      | Some k \<Rightarrow>
          (if event_kind_of e = lit ''agent_spawn''
           then scan_spawns es (if k \<in> fst ` set spawns then spawns else spawns @ [(k, json_str ''job_id'' e)], ended)
           else if event_kind_of e = lit ''agent_done'' then scan_spawns es (spawns, k # ended)
           else scan_spawns es (spawns, ended)))"

definition open_agent_spawns :: "json list \<Rightarrow> (utext \<times> utext option) list" where
  "open_agent_spawns es = (let (spawns, ended) = scan_spawns es ([], []) in filter (\<lambda>r. fst r \<notin> set ended) spawns)"

definition day :: int where "day = hours 24"

definition in_window :: "(utext \<Rightarrow> int option) \<Rightarrow> int \<Rightarrow> json \<Rightarrow> bool" where
  "in_window pts now e = (case event_timestamp pts e of Some t \<Rightarrow> now - day \<le> t | None \<Rightarrow> True)"

definition cost_of_done :: "(utext \<Rightarrow> rat) \<Rightarrow> json \<Rightarrow> rat" where
  "cost_of_done flt e = (case Option.bind (json_get ''cost_usd'' e) (as_f64 flt) of Some c \<Rightarrow> c | None \<Rightarrow> 0)"

definition count_done :: "(utext \<Rightarrow> rat) \<Rightarrow> (utext \<Rightarrow> int option) \<Rightarrow> int \<Rightarrow> json \<Rightarrow> cost_totals \<Rightarrow> cost_totals" where
  "count_done flt pts now e t =
     (if json_str ''event'' e \<noteq> Some (lit ''agent_done'') then t
      else (let c = cost_of_done flt e; v = json_str ''vendor'' e;
                t1 = t \<lparr> ct_total := ct_total t + c, ct_vendor_total := add_money_opt v c (ct_vendor_total t) \<rparr> in
            if in_window pts now e
            then t1 \<lparr> ct_24h := ct_24h t1 + c, ct_count_24h := u32_saturating_add (ct_count_24h t1) 1,
                      ct_vendor_24h := add_money_opt v c (ct_vendor_24h t1) \<rparr>
            else t1))"

text \<open>\<^verbatim>\<open>compute_cost_summary\<close>: \<^verbatim>\<open>probe\<close> is its closure, \<^verbatim>\<open>job_cost\<close> the cost a running job's state file
  tells, zero when there is none.\<close>

definition compute_cost_summary ::
  "(utext \<Rightarrow> rat) \<Rightarrow> (utext \<Rightarrow> int option) \<Rightarrow> (utext option \<Rightarrow> job_liveness) \<Rightarrow> (utext \<Rightarrow> rat) \<Rightarrow> json list \<Rightarrow> int \<Rightarrow> cost_totals" where
  "compute_cost_summary flt pts probe job_cost events now =
     (let t = fold (count_done flt pts now) events
            \<lparr> ct_24h = 0, ct_active = 0, ct_total = 0, ct_count_24h = 0, ct_count_active = 0,
              ct_vendor_24h = (\<lambda>_. None), ct_vendor_total = (\<lambda>_. None) \<rparr>;
          open_rows = open_agent_spawns events in
      t \<lparr> ct_count_active := length open_rows,
          ct_active := sum_list (map (\<lambda>r. case probe (snd r) of
              JobRunning \<Rightarrow> (case snd r of Some i \<Rightarrow> job_cost i | None \<Rightarrow> 0)
            | JobTerminal c \<Rightarrow> c) open_rows) \<rparr>)"

text \<open>\<^verbatim>\<open>cost_summary\<close> of \<^verbatim>\<open>queries.rs\<close>: the events of the active file, none if it cannot be read.\<close>

definition file_cost_summary ::
  "(bytes \<Rightarrow> json option) \<Rightarrow> (utext \<Rightarrow> rat) \<Rightarrow> (utext \<Rightarrow> int option) \<Rightarrow> (utext option \<Rightarrow> job_liveness) \<Rightarrow> (utext \<Rightarrow> rat)
    \<Rightarrow> bool \<Rightarrow> progress_files \<Rightarrow> int \<Rightarrow> cost_totals" where
  "file_cost_summary parse flt pts probe job_cost readable p now =
     compute_cost_summary flt pts probe job_cost
       (case scan_stream parse (active_view readable p) of Inl _ \<Rightarrow> [] | Inr (es, _, _) \<Rightarrow> es) now"

end
