(* ===== verification/Progress_Claims.thy ===== *)
theory Progress_Claims
  imports Progress_Log
begin

text \<open>
  What the progress files promise: costs outlive rotations, torn writes, crashes and the repairs that
  land; the checkpoint and the active file make up the lifetime total; a repair keeps every row it can
  read. The theorems after them are places where the promise fails, by a repair that stops midway or a
  damaged checkpoint.
\<close>

section \<open>What a repair does to the bytes\<close>

lemma corrupt_newline: "corrupt_rows pick (bs @ [10]) = corrupt_rows pick bs"
  using blind_newline [OF blind_corrupt, of pick 0 bs] by (simp add: corrupt_rows_def)

lemma saturating_min: "a \<le> m \<Longrightarrow> min (min (a + b) m + c) m = min (a + (b + c)) (m::nat)"
  by simp

text \<open>The kept lines hold the same rows, nothing corrupt, and are shorter by what was dropped.\<close>

lemma repair_loop_spec:
  assumes "k \<le> U64_MAX" "d \<le> U64_MAX"
  shows "\<exists>kept. repair_loop parse bs (out, k, d)
      = (out @ kept, min (k + length (events_of parse bs)) U64_MAX, min (d + corrupt_rows (picks parse) bs) U64_MAX)
    \<and> ends_line kept \<and> events_of parse kept = events_of parse bs \<and> corrupt_rows (picks parse) kept = 0
    \<and> length kept + 2 * corrupt_rows (picks parse) bs \<le> length bs + 1"
  using assms
proof (induction "length bs" arbitrary: bs out k d rule: less_induct)
  case less
  show ?case
  proof (cases rule: first_newline_cases [of 10 bs])
    case none
    have nl: "bs = [] \<or> last bs \<noteq> 10" using none by (metis last_in_set)
    have ev: "events_of parse bs = (if trim_ascii bs = [] then [] else (case parse (trim_ascii bs) of Some v \<Rightarrow> [v] | None \<Rightarrow> []))"
      "corrupt_rows (picks parse) bs = (if trim_ascii bs \<noteq> [] \<and> parse (trim_ascii bs) = None then 1 else 0)"
      using events_one [OF none, of parse] by (simp_all add: events_newline corrupt_newline)
    have ended: "repair_loop parse [] acc = acc" for acc by (simp add: repair_loop.simps)
    show ?thesis
    proof (cases "trim_ascii bs \<noteq> [] \<and> parse (trim_ascii bs) \<noteq> None")
      case True
      then have "bs \<noteq> []" by auto
      then show ?thesis
        using True less(2,3) nl ev none
        by (intro exI [of _ "bs @ [10]"])
          (auto simp: repair_loop.simps [of parse bs] read_until_none ended u64_saturating_add_def ends_line_def
            events_newline corrupt_newline)
    next
      case False
      have "1 \<le> length bs" if "trim_ascii bs \<noteq> []" using that by (cases bs) auto
      then show ?thesis
        using False less(2,3) ev none
        by (intro exI [of _ "[]"])
          (auto simp: repair_loop.simps [of parse bs] read_until_none ended u64_saturating_add_def ends_line_def
            events_newline corrupt_newline)
    qed
  next
    case (first a b)
    define l where "l = a @ [10]"
    have e: "ends_line l" by (simp add: ends_line_def l_def)
    have bs: "bs = l @ b" by (simp add: first(1) l_def)
    have ev: "events_of parse bs = events_of parse l @ events_of parse b"
      "corrupt_rows (picks parse) bs = corrupt_rows (picks parse) l + corrupt_rows (picks parse) b"
      unfolding bs by (rule events_join [OF e], rule corrupt_join [OF e])
    note one = events_one [OF first(2), of parse, folded l_def]
    define keep where "keep \<longleftrightarrow> trim_ascii a \<noteq> [] \<and> parse (trim_ascii a) \<noteq> None"
    let ?k = "min (k + length (events_of parse l)) U64_MAX"
    let ?d = "min (d + corrupt_rows (picks parse) l) U64_MAX"
    have step: "repair_loop parse bs (out, k, d) = repair_loop parse b (if keep then out @ l else out, ?k, ?d)"
      using first(2) one less(2,3)
      by (auto simp: first(1) repair_loop.simps [of parse "a @ 10 # b"] read_until_first trim_ascii_newline keep_def l_def
          u64_saturating_add_def Let_def)
    obtain kept where kept: "repair_loop parse b (if keep then out @ l else out, ?k, ?d)
        = ((if keep then out @ l else out) @ kept, min (?k + length (events_of parse b)) U64_MAX,
           min (?d + corrupt_rows (picks parse) b) U64_MAX)"
      "ends_line kept" "events_of parse kept = events_of parse b" "corrupt_rows (picks parse) kept = 0"
      "length kept + 2 * corrupt_rows (picks parse) b \<le> length b + 1"
      using less(1) [of b ?k ?d "if keep then out @ l else out"] by (auto simp: first(1))
    have sums: "min (?k + length (events_of parse b)) U64_MAX = min (k + length (events_of parse bs)) U64_MAX"
      "min (?d + corrupt_rows (picks parse) b) U64_MAX = min (d + corrupt_rows (picks parse) bs) U64_MAX"
      using less(2,3) by (simp_all add: ev saturating_min)
    have a1: "1 \<le> length a" if "trim_ascii a \<noteq> []" using that by (cases a) auto
    have len: "length bs = length l + length b" "length l = length a + 1" by (simp_all add: bs l_def)
    show ?thesis
    proof (cases keep)
      case True
      have "ends_line (l @ kept)" using kept(2) by (cases "kept = []") (auto simp: ends_line_def l_def)
      then show ?thesis
        using True kept one step
        by (intro exI [of _ "l @ kept"])
          (auto simp: keep_def sums ev events_join [OF e] corrupt_join [OF e] len)
    next
      case False
      then have "events_of parse l = []" using one by (auto simp: keep_def)
      moreover have "2 * corrupt_rows (picks parse) l \<le> length l" using one a1 len by auto
      ultimately show ?thesis
        using False kept step by (intro exI [of _ kept]) (auto simp: sums ev len)
    qed
  qed
qed

lemma repair_whole:
  obtains kept where "repair_loop parse bs ([], 0, 0)
      = (kept, min (length (events_of parse bs)) U64_MAX, min (corrupt_rows (picks parse) bs) U64_MAX)"
    "events_of parse kept = events_of parse bs" "corrupt_rows (picks parse) kept = 0"
    "corrupt_rows (picks parse) bs = 0 \<or> length kept < length bs"
  using repair_loop_spec [of 0 0 parse bs "[]"] by fastforce

text \<open>A repair, whether it reports success or an error, leaves the books in order unless it stopped
  between its two renames, so that the file is only in the backup, or replaced an archive
  without keeping the marker in step.\<close>

definition repair_lands :: "(bytes \<Rightarrow> utext) \<Rightarrow> repair_target \<Rightarrow> progress_files \<Rightarrow> progress_files \<Rightarrow> bool" where
  "repair_lands sha t p p' \<longleftrightarrow>
     (repair_bytes t p' = None \<longleftrightarrow> repair_bytes t p = None) \<and> (covered sha p' \<longleftrightarrow> covered sha p)"

lemma repair_spec:
  assumes "repair_progress_journal_locked parse sha io t p = (p', backups, res)" "log_ok sha p"
    "repair_lands sha t p p'"
  shows "log_ok sha p' \<and> spent parse flt sha q p' = spent parse flt sha q p"
proof (cases "p' = p")
  case True
  then show ?thesis using assms(2) by simp
next
  case changed: False
  then obtain bs where bs: "repair_bytes t p = Some bs"
    using assms(1) by (auto simp: repair_progress_journal_locked_def split: option.splits)
  then have there: "repair_bytes t p' \<noteq> None" and cov: "covered sha p' = covered sha p"
    using assms(3) by (simp_all add: repair_lands_def)
  obtain kept where kept: "repair_loop parse bs ([], 0, 0)
      = (kept, min (length (events_of parse bs)) U64_MAX, min (corrupt_rows (picks parse) bs) U64_MAX)"
    "events_of parse kept = events_of parse bs" "corrupt_rows (picks parse) bs = 0 \<or> length kept < length bs"
    by (rule repair_whole)
  have am: "amounts parse flt q kept = amounts parse flt q bs" by (simp add: amounts_def kept(2))
  have dropped: "corrupt_rows (picks parse) bs \<noteq> 0"
    using assms(1) bs kept(1) changed by (auto simp: repair_progress_journal_locked_def Let_def split: if_splits)
  then have marks: "archive_coverage_of sha kept \<noteq> archive_coverage_of sha bs"
    using kept(3) by (auto simp: archive_coverage_of_def)
  show ?thesis
  proof (cases t)
    case RepairActive
    then have a: "pg_active p = Some bs" using bs by (simp add: repair_bytes_def)
    have "p' = p \<lparr> pg_active := Some kept \<rparr>"
      using assms(1) bs kept(1) changed RepairActive there
      by (auto simp: repair_progress_journal_locked_def set_repair_bytes_def repair_bytes_def Let_def
          split: if_splits option.splits)
    then show ?thesis using assms(2) a am by (simp add: log_ok_def spent_active)
  next
    case RepairArchive
    then have a: "pg_archive p = Some bs" using bs by (simp add: repair_bytes_def)
    let ?p1 = "p \<lparr> pg_archive := Some kept \<rparr>"
    have alt: "p' = ?p1 \<or> (\<exists>c. covered sha p \<and> pg_checkpoint p = Ck c
        \<and> p' = ?p1 \<lparr> pg_checkpoint := Ck (c \<lparr> ck_coverage := Some (archive_coverage_of sha kept) \<rparr>) \<rparr>)"
      using assms(1) bs kept(1) changed RepairArchive a there
      by (auto simp: repair_progress_journal_locked_def set_repair_bytes_def repair_bytes_def
          read_progress_checkpoint_def covered_def checkpoint_covers_archive_def write_progress_checkpoint_def Let_def
          split: if_splits option.splits sum.splits checkpoint_file.splits)
    show ?thesis
    proof (cases "covered sha p")
      case True
      then obtain c where c: "pg_checkpoint p = Ck c" "ck_coverage c = Some (archive_coverage_of sha bs)"
        using a by (auto simp: covered_def split: checkpoint_file.splits)
      have "\<not> covered sha ?p1" using c marks by (simp add: covered_def)
      then have "p' = ?p1 \<lparr> pg_checkpoint := Ck (c \<lparr> ck_coverage := Some (archive_coverage_of sha kept) \<rparr>) \<rparr>"
        using alt cov True c(1) by auto
      then show ?thesis
        using True c by (simp add: log_ok_def covered_def spent_def file_amount_def)
    next
      case False
      then have "p' = ?p1" "\<not> covered sha p'" using alt cov by simp_all
      moreover have "pg_active p = None" using False assms(2) by (auto simp: log_ok_def)
      ultimately show ?thesis using False assms(2) a am by (simp add: log_ok_def spent_def)
    qed
  qed
qed

text \<open>Every repair that goes through with a readable checkpoint lands, but for a coincidence of
  markers, and so does every one that changes nothing.\<close>

lemma finished_repair_lands:
  assumes "repair_progress_journal_locked parse sha io t p = (p', backups, Inr r)" "rp_checkpoint io"
    "covered sha p' \<longrightarrow> covered sha p"
  shows "repair_lands sha t p p'"
proof (cases "repair_bytes t p")
  case None
  then show ?thesis using assms(1) by (simp add: repair_progress_journal_locked_def repair_lands_def)
next
  case (Some bs)
  have "repair_bytes t p' \<noteq> None"
    using assms(1) Some by (cases t)
      (auto simp: repair_progress_journal_locked_def repair_bytes_def set_repair_bytes_def write_progress_checkpoint_def
        Let_def split: if_splits option.splits sum.splits prod.splits)
  moreover have "covered sha p'" if c: "covered sha p"
  proof (cases t)
    case RepairActive
    then show ?thesis
      using assms(1) Some c by (auto simp: repair_progress_journal_locked_def set_repair_bytes_def
        Let_def split: if_splits option.splits prod.splits)
  next
    case RepairArchive
    then have "pg_archive p = Some bs" using Some by (simp add: repair_bytes_def)
    then obtain k where "pg_checkpoint p = Ck k" "ck_coverage k = Some (archive_coverage_of sha bs)"
      using c by (auto simp: covered_def split: checkpoint_file.splits)
    then show ?thesis
      using assms(1,2) Some c RepairArchive
      by (auto simp: repair_progress_journal_locked_def set_repair_bytes_def read_progress_checkpoint_def
        checkpoint_covers_archive_def write_progress_checkpoint_def covered_def
        Let_def split: if_splits option.splits prod.splits)
  qed
  ultimately show ?thesis using Some assms(3) by (auto simp: repair_lands_def)
qed

section \<open>Lifetime cost\<close>

text \<open>Histories of a journal's files: appends with any outcome of any call, recoveries with any outcome,
  and repairs with any outcome that land. Outside are repairs that stop between their two renames or
  leave the marker of an archive behind. The history holds each line handed to an append and
  whether the append reported success.\<close>

definition reported :: "unit + bool \<Rightarrow> bool" where
  "reported res = (case res of Inl _ \<Rightarrow> False | Inr _ \<Rightarrow> True)"

inductive log_reach ::
  "(bytes \<Rightarrow> json option) \<Rightarrow> (utext \<Rightarrow> rat) \<Rightarrow> (bytes \<Rightarrow> utext) \<Rightarrow> nat \<Rightarrow> (bytes \<times> bool) list \<Rightarrow> progress_files \<Rightarrow> bool"
  for parse flt sha limit where
  log_start: "log_reach parse flt sha limit [] no_files"
| log_append: "log_reach parse flt sha limit h p \<Longrightarrow> marks_differ sha (raw @ [10]) p
    \<Longrightarrow> append_serialized parse flt sha limit io (raw @ [10]) p = (p', res)
    \<Longrightarrow> log_reach parse flt sha limit (h @ [(raw @ [10], reported res)]) p'"
| log_recover: "log_reach parse flt sha limit h p
    \<Longrightarrow> load_or_recover_progress_checkpoint parse flt sha locked rio p = (p', ck)
    \<Longrightarrow> log_reach parse flt sha limit h p'"
| log_repair: "log_reach parse flt sha limit h p
    \<Longrightarrow> repair_progress_journal_locked parse sha pio t p = (p', backups, result) \<Longrightarrow> repair_lands sha t p p'
    \<Longrightarrow> log_reach parse flt sha limit h p'"

lemma load_spec:
  assumes "load_or_recover_progress_checkpoint parse flt sha locked io p = (p', res)" "log_ok sha p"
  shows "log_ok sha p' \<and> spent parse flt sha q p' = spent parse flt sha q p \<and> pg_active p' = pg_active p
    \<and> (case res of Inl _ \<Rightarrow> p' = p
       | Inr ck \<Rightarrow> covered sha p' \<and> file_amount q (pg_checkpoint p') = (case ck of None \<Rightarrow> 0 | Some c \<Rightarrow> checkpoint_amount q c))"
proof (cases "locked \<and> \<not> (pg_active p = None \<and> pg_archive p = None \<and> pg_checkpoint p = CkMissing)")
  case True
  then have r: "recover_progress_checkpoint_locked parse flt sha io p = (p', res)"
    using assms(1) by (auto simp: load_or_recover_progress_checkpoint_def)
  have "pg_checkpoint p \<noteq> CkDamaged" using assms(2) by (simp add: log_ok_def)
  note s = recover_spec [OF r this, of q]
  then show ?thesis using assms(2) by (cases res) (auto simp: log_ok_def)
next
  case False
  then show ?thesis
    using assms by (auto simp: load_or_recover_progress_checkpoint_def covered_def file_amount_def split: if_splits)
qed

definition checkpoint_of :: "checkpoint_file \<Rightarrow> checkpoint option" where
  "checkpoint_of f = (case f of Ck c \<Rightarrow> Some c | _ \<Rightarrow> None)"

lemma recover_result:
  assumes "recover_progress_checkpoint_locked parse flt sha io p = (p', Inr ck)"
  shows "ck = checkpoint_of (pg_checkpoint p')"
proof (cases "pg_archive p")
  case None
  then show ?thesis
    using assms by (auto simp: recover_progress_checkpoint_locked_def read_progress_checkpoint_def checkpoint_of_def
        split: if_splits checkpoint_file.splits)
next
  case (Some bs)
  then show ?thesis
    using assms by (auto simp: recover_progress_checkpoint_locked_def read_progress_checkpoint_def checkpoint_of_def
        scan_stream_Content write_progress_checkpoint_def Let_def split: if_splits checkpoint_file.splits)
qed

lemma load_result:
  assumes "load_or_recover_progress_checkpoint parse flt sha locked io p = (p', Inr ck)"
  shows "ck = checkpoint_of (pg_checkpoint p')"
  using assms recover_result
  by (auto simp: load_or_recover_progress_checkpoint_def checkpoint_of_def split: if_splits)

lemma load_covered:
  assumes "covered sha p" "pg_checkpoint p \<noteq> CkDamaged"
  shows "load_or_recover_progress_checkpoint parse flt sha True recover_good p = (p, Inr (checkpoint_of (pg_checkpoint p)))"
proof -
  have "recover_progress_checkpoint_locked parse flt sha recover_good p = (p, Inr (checkpoint_of (pg_checkpoint p)))"
  proof (cases "pg_archive p")
    case None
    then show ?thesis using assms(2)
      by (simp add: recover_progress_checkpoint_locked_def read_progress_checkpoint_def recover_good_def checkpoint_of_def
          split: checkpoint_file.split)
  next
    case (Some bs)
    then obtain c where "pg_checkpoint p = Ck c" "ck_coverage c = Some (archive_coverage_of sha bs)"
      using assms(1) by (auto simp: covered_def split: checkpoint_file.splits)
    then show ?thesis using Some
      by (simp add: recover_progress_checkpoint_locked_def read_progress_checkpoint_def recover_good_def checkpoint_of_def
          checkpoint_covers_archive_def)
  qed
  then show ?thesis by (simp add: load_or_recover_progress_checkpoint_def checkpoint_of_def)
qed

lemma log_reach_spec:
  assumes "log_reach parse flt sha limit h p"
  shows "\<exists>frags. list_all2 (\<lambda>(line, ok) frag. prefix frag line \<and> (ok \<longrightarrow> frag = line)) h frags
    \<and> (\<forall>q. spent parse flt sha q p = sum_list (map (amounts parse flt q) frags)) \<and> log_ok sha p"
  using assms
proof (induction rule: log_reach.induct)
  case log_start
  then show ?case by (auto simp: spent_def no_files_def covered_def file_amount_def log_ok_def)
next
  case (log_append h p raw io p' res)
  then obtain frags where fr: "list_all2 (\<lambda>(line, ok) frag. prefix frag line \<and> (ok \<longrightarrow> frag = line)) h frags"
    "\<forall>q. spent parse flt sha q p = sum_list (map (amounts parse flt q) frags)" "log_ok sha p" by blast
  obtain f where f: "prefix f (raw @ [10])" "case res of Inr _ \<Rightarrow> f = raw @ [10] | Inl _ \<Rightarrow> True" "log_ok sha p'"
    "\<forall>q. spent parse flt sha q p' = spent parse flt sha q p + amounts parse flt q f"
    using append_serialized_spec [OF log_append(3) fr(3) log_append(2)] by blast
  have one: "reported res \<longrightarrow> f = raw @ [10]" using f(2) by (cases res) (simp_all add: reported_def)
  show ?case
  proof (intro exI conjI)
    show "list_all2 (\<lambda>(line, ok) frag. prefix frag line \<and> (ok \<longrightarrow> frag = line)) (h @ [(raw @ [10], reported res)]) (frags @ [f])"
      using f(1) one by (intro list_all2_appendI [OF fr(1)]) (simp del: prefix_snoc)
    show "\<forall>q. spent parse flt sha q p' = sum_list (map (amounts parse flt q) (frags @ [f]))"
      using fr(2) f(4) by simp
  qed (rule f(3))
next
  case (log_recover h p locked rio p' ck)
  then have ok: "log_ok sha p" by blast
  have "log_ok sha p'" "spent parse flt sha q p' = spent parse flt sha q p" for q
    using load_spec [OF log_recover(2) ok, of q] by simp_all
  then show ?case using log_recover(3) by auto
next
  case (log_repair h p pio t p' backups result)
  then have ok: "log_ok sha p" by blast
  have "log_ok sha p'" "spent parse flt sha q p' = spent parse flt sha q p" for q
    using repair_spec [OF log_repair(2) ok log_repair(3), of flt q] by simp_all
  then show ?case using log_repair(4) by auto
qed

text \<open>C6. No cost is lost and none is counted twice: whatever the sequence of appends, rotations, torn
  writes, failed calls, recoveries and repairs that land, what the checkpoint, the archive not yet in
  it and the active file tell is, for the total and for every vendor, the sum over the lines that were
  written, each whole if its append reported success and cut short at worst otherwise. A repair lands
  (\<^verbatim>\<open>repair_lands\<close>) unless it stops between its two renames, which leaves the file only in its backup,
  or changes an archive without its marker, after which the next recovery would count it twice
  (\<^verbatim>\<open>interrupted_repair_counts_twice\<close>). Assumed as well is that the marker of each new archive (its length
  and the digest of its first line) differs from the previous one's.\<close>

theorem lifetime_cost_is_kept:
  assumes "log_reach parse flt sha limit h p"
  shows "\<exists>frags. list_all2 (\<lambda>(line, ok) frag. prefix frag line \<and> (ok \<longrightarrow> frag = line)) h frags
    \<and> (\<forall>q. spent parse flt sha q p = sum_list (map (amounts parse flt q) frags))"
  using log_reach_spec [OF assms] by blast

text \<open>What a reader adds up is right: a checkpoint that loads, with the active file's rows on top, is all
  that was ever written, and the archive is in the checkpoint, so asking again changes nothing.\<close>

theorem checkpoint_and_active_are_all:
  assumes "log_reach parse flt sha limit h p"
    "load_or_recover_progress_checkpoint parse flt sha True io p = (p', Inr ck)"
  shows "\<exists>frags. list_all2 (\<lambda>(line, ok) frag. prefix frag line \<and> (ok \<longrightarrow> frag = line)) h frags
    \<and> (\<forall>q. (case ck of None \<Rightarrow> 0 | Some c \<Rightarrow> checkpoint_amount q c) + amounts parse flt q (opened_bytes (pg_active p))
          = sum_list (map (amounts parse flt q) frags))
    \<and> load_or_recover_progress_checkpoint parse flt sha True recover_good p' = (p', Inr ck)"
proof -
  obtain frags where fr: "list_all2 (\<lambda>(line, ok) frag. prefix frag line \<and> (ok \<longrightarrow> frag = line)) h frags"
    "\<forall>q. spent parse flt sha q p = sum_list (map (amounts parse flt q) frags)" "log_ok sha p"
    using log_reach_spec [OF assms(1)] by blast
  note l = load_spec [OF assms(2) fr(3)]
  have "(case ck of None \<Rightarrow> 0 | Some c \<Rightarrow> checkpoint_amount q c) + amounts parse flt q (opened_bytes (pg_active p))
      = spent parse flt sha q p" for q
  proof -
    have "spent parse flt sha q p = spent parse flt sha q p'" using l [of q] by simp
    also have "\<dots> = (case ck of None \<Rightarrow> 0 | Some c \<Rightarrow> checkpoint_amount q c) + amounts parse flt q (opened_bytes (pg_active p))"
      using l [of q] by (simp add: spent_def opened_amounts)
    finally show ?thesis by simp
  qed
  moreover have "load_or_recover_progress_checkpoint parse flt sha True recover_good p' = (p', Inr ck)"
  proof -
    have c: "covered sha p'" "log_ok sha p'" using l by simp_all
    show ?thesis
      using load_covered [OF c(1), of parse flt] c(2) load_result [OF assms(2)] by (simp add: log_ok_def)
  qed
  ultimately show ?thesis using fr by (intro exI [of _ frags]) simp
qed

lemma load_good:
  assumes "pg_archive p \<noteq> None" "pg_checkpoint p \<noteq> CkDamaged"
  shows "\<exists>p' c. load_or_recover_progress_checkpoint parse flt sha True recover_good p = (p', Inr (Some c))"
  using assms
  by (auto simp: load_or_recover_progress_checkpoint_def recover_progress_checkpoint_locked_def read_progress_checkpoint_def
      recover_good_def scan_stream_Content write_progress_checkpoint_def checkpoint_covers_archive_def Let_def
      split: checkpoint_file.split)

text \<open>A billing journal on which the properties are tried: its lines are one byte, the cost in cents; a line
  of two bytes is damaged.\<close>

definition ex_bill :: "bytes \<Rightarrow> json option" where
  "ex_bill line = (case line of
       [n] \<Rightarrow> Some (JObj [(lit ''event'', JStr (lit ''agent_done'')), (lit ''cost_usd'', JInt (int n))])
     | _ \<Rightarrow> None)"

definition ex_flt :: "utext \<Rightarrow> rat" where "ex_flt t = 0"

definition ex_sha :: "bytes \<Rightarrow> utext" where "ex_sha bs = map of_nat bs"

lemma ex_amounts:
  assumes "\<not> is_ascii_whitespace n"
  shows "amounts ex_bill ex_flt None [n, 10] = of_nat n"
proof -
  have "10 \<notin> set [n]" using assms by (simp add: is_ascii_whitespace_def)
  note e = events_one(1) [OF this, of ex_bill]
  have "trim_ascii [n] = [n]" using assms by (simp add: trim_ascii_def)
  then have "events_of ex_bill [n, 10] = [JObj [(lit ''event'', JStr (lit ''agent_done'')), (lit ''cost_usd'', JInt (int n))]]"
    using e by (simp add: ex_bill_def)
  then show ?thesis
    by (simp add: amounts_def amount_def progress_cost_contribution_def
        event_kind_name_def json_str_def json_get_def as_f64_def)
qed

lemma ex_rotated:
  obtains p where "log_reach ex_bill ex_flt ex_sha 0 [([7, 10], True), ([8, 10], True)] p" "pg_archive p \<noteq> None"
proof -
  obtain p1 r1 where a1: "append_serialized ex_bill ex_flt ex_sha 0 append_good ([7] @ [10]) no_files = (p1, r1)"
    by fastforce
  obtain p2 r2 where a2: "append_serialized ex_bill ex_flt ex_sha 0 append_good ([8] @ [10]) p1 = (p2, r2)"
    by fastforce
  have m1: "marks_differ ex_sha ([7] @ [10]) no_files"
    by (simp add: marks_differ_def no_files_def)
  note evals = append_serialized_def append_good_def no_files_def open_for_append_def rotate_progress_locked_def
    recover_progress_checkpoint_locked_def read_progress_checkpoint_def recover_good_def scan_stream_Content
    write_progress_checkpoint_def Let_def checkpoint_covers_archive_def archive_coverage_of_def ex_sha_def
  have r1: "reported r1" "pg_active p1 = Some []" "pg_archive p1 = Some [7, 10]"
    "checkpoint_of (pg_checkpoint p1) \<noteq> None \<and> map_option ck_coverage (checkpoint_of (pg_checkpoint p1)) = Some (Some (archive_coverage_of ex_sha [7, 10]))"
    using a1 by (auto simp: evals reported_def checkpoint_of_def)
  have m2: "marks_differ ex_sha ([8] @ [10]) p1"
    using r1 by (auto simp: marks_differ_def opened_bytes_def archive_coverage_of_def ex_sha_def checkpoint_of_def split: checkpoint_file.splits)
  have r2: "reported r2" "pg_archive p2 \<noteq> None"
    using a2 r1 by (auto simp: evals reported_def checkpoint_of_def split: checkpoint_file.splits)
  have "log_reach ex_bill ex_flt ex_sha 0 ([] @ [([7] @ [10], reported r1)]) p1"
    by (rule log_append [OF log_start m1 a1])
  from log_append [OF this m2 a2] show thesis using that [of p2] r1 r2 by simp
qed

theorem lifetime_cost_is_kept_witness:
  "\<exists>p. log_reach ex_bill ex_flt ex_sha 0 [([7, 10], True), ([8, 10], True)] p \<and> spent ex_bill ex_flt ex_sha None p = 15"
proof -
  obtain p where p: "log_reach ex_bill ex_flt ex_sha 0 [([7, 10], True), ([8, 10], True)] p" by (rule ex_rotated)
  then show ?thesis
    using lifetime_cost_is_kept [OF p]
    by (intro exI [of _ p]) (auto simp: list_all2_Cons1 ex_amounts is_ascii_whitespace_def)
qed

theorem checkpoint_and_active_are_all_witness:
  "\<exists>p p' c. load_or_recover_progress_checkpoint ex_bill ex_flt ex_sha True recover_good p = (p', Inr (Some c))
     \<and> checkpoint_amount None c + amounts ex_bill ex_flt None (opened_bytes (pg_active p)) = 15"
proof -
  obtain p where p: "log_reach ex_bill ex_flt ex_sha 0 [([7, 10], True), ([8, 10], True)] p" "pg_archive p \<noteq> None"
    by (rule ex_rotated)
  have "pg_checkpoint p \<noteq> CkDamaged" using log_reach_spec [OF p(1)] by (auto simp: log_ok_def)
  then obtain p' c where l: "load_or_recover_progress_checkpoint ex_bill ex_flt ex_sha True recover_good p = (p', Inr (Some c))"
    using load_good [OF p(2), of ex_bill ex_flt ex_sha] by blast
  obtain frags where f: "list_all2 (\<lambda>(line, ok) frag. prefix frag line \<and> (ok \<longrightarrow> frag = line)) [([7, 10], True), ([8, 10], True)] frags"
    "checkpoint_amount None c + amounts ex_bill ex_flt None (opened_bytes (pg_active p)) = sum_list (map (amounts ex_bill ex_flt None) frags)"
    using checkpoint_and_active_are_all [OF p(1) l] by auto
  have "frags = [[7, 10], [8, 10]]" using f(1) by (auto simp: list_all2_Cons1)
  then show ?thesis
    using l f(2) by (intro exI [of _ p] exI [of _ p'] exI [of _ c]) (simp add: ex_amounts is_ascii_whitespace_def)
qed

section \<open>Repairs\<close>

text \<open>C34. A repair loses no row that can be read: with no failing call it leaves a journal without corrupt
  lines that holds the same rows in the same order, keeps the original bytes in a backup, reports the
  two counts, and does nothing at all exactly when no line was corrupt, so a second repair
  finds nothing to do.\<close>

theorem repair_keeps_every_row:
  assumes "repair_progress_journal_locked parse sha repair_good t p = (p', backups, res)" "repair_bytes t p = Some bs"
  shows "\<exists>kept. repair_bytes t p' = Some kept \<and> events_of parse kept = events_of parse bs
    \<and> corrupt_rows (picks parse) kept = 0
    \<and> (if corrupt_rows (picks parse) bs = 0 then p' = p \<and> backups = [] \<and> res = Inr None
       else backups = [bs] \<and> res = Inr (Some (min (length (events_of parse bs)) U64_MAX,
                                              min (corrupt_rows (picks parse) bs) U64_MAX)))
    \<and> repair_progress_journal_locked parse sha repair_good t p' = (p', [], Inr None)"
proof -
  have again: "repair_progress_journal_locked parse sha repair_good t r = (r, [], Inr None)"
    if clean: "repair_bytes t r = Some x" "corrupt_rows (picks parse) x = 0" for r x
  proof -
    obtain kept where "repair_loop parse x ([], 0, 0) = (kept, min (length (events_of parse x)) U64_MAX, 0)"
      by (rule repair_whole [of parse x]) (use clean(2) in simp)
    then show ?thesis using clean(1) by (simp add: repair_progress_journal_locked_def repair_good_def)
  qed
  show ?thesis
  proof (cases "corrupt_rows (picks parse) bs = 0")
    case True
    then show ?thesis using assms again [OF assms(2) True] by auto
  next
    case False
    obtain kept where kept: "repair_loop parse bs ([], 0, 0)
        = (kept, min (length (events_of parse bs)) U64_MAX, min (corrupt_rows (picks parse) bs) U64_MAX)"
      "events_of parse kept = events_of parse bs" "corrupt_rows (picks parse) kept = 0" by (rule repair_whole)
    have pos: "min (corrupt_rows (picks parse) bs) U64_MAX \<noteq> 0" using False by (simp add: U64_MAX_def)
    have "repair_bytes t p' = Some kept \<and> backups = [bs] \<and> res = Inr (Some (min (length (events_of parse bs)) U64_MAX,
                                              min (corrupt_rows (picks parse) bs) U64_MAX))"
      using assms kept(1) pos unfolding repair_progress_journal_locked_def
      by (auto simp: repair_good_def set_repair_bytes_def repair_bytes_def write_progress_checkpoint_def Let_def
          split: repair_target.splits option.splits sum.splits if_splits)
    then show ?thesis using False kept(2,3) again by auto
  qed
qed

text \<open>One good row and one line that is none.\<close>

lemma ex_damaged_rows: "corrupt_rows (picks ex_bill) [7, 10, 2, 2, 10] = 1"
  "amounts ex_bill ex_flt None [7, 10, 2, 2, 10] = 7"
proof -
  have e: "ends_line [7, 10]" by (simp add: ends_line_def)
  have t: "trim_ascii [7] = [7]" "trim_ascii [2, 2] = [2, 2]" by code_simp+
  have n: "10 \<notin> set [7 :: nat]" "10 \<notin> set [2 :: nat, 2]" by simp_all
  note one = events_one [OF n(1), of ex_bill] events_one [OF n(2), of ex_bill]
  show "corrupt_rows (picks ex_bill) [7, 10, 2, 2, 10] = 1"
    using corrupt_join [OF e, of "picks ex_bill" "[2, 2, 10]"] one t by (simp add: ex_bill_def)
  show "amounts ex_bill ex_flt None [7, 10, 2, 2, 10] = 7"
    using amounts_join [OF e, of ex_bill ex_flt None "[2, 2, 10]"] one t
    by (simp add: ex_amounts is_ascii_whitespace_def amounts_def [of _ _ _ "[2, 2, 10]"] ex_bill_def [of "[2, 2]"])
qed

theorem repair_keeps_every_row_witness:
  "\<exists>p'. repair_progress_journal_locked ex_bill ex_sha repair_good RepairActive (no_files \<lparr> pg_active := Some [7, 10, 2, 2, 10] \<rparr>)
     = (p', [[7, 10, 2, 2, 10]], Inr (Some (1, 1)))"
proof -
  let ?p = "no_files \<lparr> pg_active := Some [7, 10, 2, 2, 10] \<rparr>"
  obtain p' b r where e: "repair_progress_journal_locked ex_bill ex_sha repair_good RepairActive ?p = (p', b, r)"
    by (metis prod_cases3)
  have l: "length (events_of ex_bill [7, 10, 2, 2, 10]) = 1" by code_simp
  show ?thesis
    using repair_keeps_every_row [OF e, of "[7, 10, 2, 2, 10]"] e l ex_damaged_rows(1)
    by (auto simp: repair_bytes_def U64_MAX_def)
qed

text \<open>A repair of a counted archive that stops between replacing the archive and moving the marker makes
  its cost count twice: the next recovery takes the repaired archive for a new one and adds all of it
  to totals it is already in.\<close>

theorem interrupted_repair_counts_twice:
  assumes "pg_archive p = Some bs" "pg_checkpoint p = Ck c" "ck_coverage c = Some (archive_coverage_of sha bs)"
    "0 < corrupt_rows (picks parse) bs"
    "repair_progress_journal_locked parse sha (repair_good \<lparr> rp_write := False \<rparr>) RepairArchive p = (p1, backups, res)"
  shows "\<exists>p2 c2. load_or_recover_progress_checkpoint parse flt sha True recover_good p1 = (p2, Inr (Some c2))
    \<and> checkpoint_amount q c2 = checkpoint_amount q c + amounts parse flt q bs"
proof -
  obtain kept where kept: "repair_loop parse bs ([], 0, 0)
      = (kept, min (length (events_of parse bs)) U64_MAX, min (corrupt_rows (picks parse) bs) U64_MAX)"
    "events_of parse kept = events_of parse bs" "length kept < length bs"
    by (rule repair_whole [of parse bs]) (use assms(4) in auto)
  define n where "n = min (corrupt_rows (picks parse) bs) U64_MAX"
  have pos: "0 < n" using assms(4) by (simp add: n_def U64_MAX_def)
  have p1: "p1 = p \<lparr> pg_archive := Some kept \<rparr>"
    using assms(1-3,5) kept(1) [folded n_def] pos
    by (simp add: repair_progress_journal_locked_def repair_good_def repair_bytes_def Let_def
        read_progress_checkpoint_def checkpoint_covers_archive_def set_repair_bytes_def write_progress_checkpoint_def)
  have new: "archive_coverage_of sha kept \<noteq> archive_coverage_of sha bs"
    using kept(3) by (simp add: archive_coverage_of_def)
  obtain p2 c2 where l: "load_or_recover_progress_checkpoint parse flt sha True recover_good p1 = (p2, Inr (Some c2))"
    using load_good [of p1 parse flt sha] assms(2) p1 by auto
  then have r: "recover_progress_checkpoint_locked parse flt sha recover_good p1 = (p2, Inr (Some c2))"
    using p1 by (simp add: load_or_recover_progress_checkpoint_def)
  have "pg_checkpoint p1 \<noteq> CkDamaged" using assms(2) p1 by simp
  note s = recover_spec [OF r this, of q]
  have "\<not> covered sha p1" using p1 assms(2,3) new by (simp add: covered_def)
  moreover have "amounts parse flt q kept = amounts parse flt q bs" by (simp add: amounts_def kept(2))
  ultimately show ?thesis
    using l s assms(2) p1 by (auto simp: spent_def file_amount_def)
qed

theorem interrupted_repair_counts_twice_witness:
  "\<exists>p1 p2 c2. load_or_recover_progress_checkpoint ex_bill ex_flt ex_sha True recover_good p1 = (p2, Inr (Some c2))
     \<and> checkpoint_amount None c2 = 7 + 7"
proof -
  let ?bs = "[7, 10, 2, 2, 10] :: bytes"
  let ?c = "default_checkpoint \<lparr> ck_cost := 7, ck_coverage := Some (archive_coverage_of ex_sha ?bs) \<rparr>"
  let ?p = "no_files \<lparr> pg_archive := Some ?bs, pg_checkpoint := Ck ?c \<rparr>"
  obtain p1 b r where e: "repair_progress_journal_locked ex_bill ex_sha (repair_good \<lparr> rp_write := False \<rparr>) RepairArchive ?p = (p1, b, r)"
    by (metis prod_cases3)
  show ?thesis
    using interrupted_repair_counts_twice [OF _ _ _ _ e, of ?bs ?c ex_flt None] ex_damaged_rows
    by (simp add: checkpoint_amount_def) metis
qed

text \<open>A repair of the active file that stops between its two renames takes every row with it: only the
  backup holds them, and the next append starts a new file.\<close>

theorem interrupted_repair_loses_rows:
  assumes "pg_active p = Some bs" "0 < corrupt_rows (picks parse) bs"
    "repair_progress_journal_locked parse sha (repair_good \<lparr> rp_replace := False \<rparr>) RepairActive p = (p1, backups, res)"
  shows "pg_active p1 = None \<and> backups = [bs] \<and> res = Inl ()
    \<and> spent parse flt sha q p1 = spent parse flt sha q p - amounts parse flt q bs"
proof -
  obtain kept where kept: "repair_loop parse bs ([], 0, 0)
      = (kept, min (length (events_of parse bs)) U64_MAX, min (corrupt_rows (picks parse) bs) U64_MAX)"
    by (rule repair_whole [of parse bs])
  define n where "n = min (corrupt_rows (picks parse) bs) U64_MAX"
  have pos: "0 < n" using assms(2) by (simp add: n_def U64_MAX_def)
  have "p1 = p \<lparr> pg_active := None \<rparr> \<and> backups = [bs] \<and> res = Inl ()"
    using assms(1,3) kept [folded n_def] pos
    by (simp add: repair_progress_journal_locked_def repair_good_def repair_bytes_def set_repair_bytes_def Let_def)
  then show ?thesis using assms(1) by (simp add: spent_active)
qed

text \<open>A checkpoint that cannot be read stops the journal at the next rotation: the row that fills the
  file is written and the file archived, the append reports an error, and from then on every append
  fails and writes nothing, whatever works.\<close>

theorem damaged_checkpoint_stops_the_journal:
  assumes "pg_checkpoint p = CkDamaged" "pg_active p = Some bs" "limit < length (opened_bytes (Some bs) @ line)"
    "append_serialized parse flt sha limit append_good line p = (p1, res)"
  shows "res = Inl () \<and> pg_archive p1 = Some (opened_bytes (Some bs) @ line)
    \<and> append_serialized parse flt sha limit io line' p1 = (p1, Inl ())"
proof -
  have p1: "p1 = p \<lparr> pg_active := None, pg_archive := Some (opened_bytes (Some bs) @ line) \<rparr> \<and> res = Inl ()"
    using assms by (auto simp: append_serialized_def append_good_def open_for_append_def opened_bytes_def
        rotate_progress_locked_def recover_progress_checkpoint_locked_def read_progress_checkpoint_def recover_good_def Let_def
        split: if_splits)
  then show ?thesis
    using assms(1) by (auto simp: append_serialized_def recover_progress_checkpoint_locked_def read_progress_checkpoint_def)
qed

theorem damaged_checkpoint_stops_the_journal_witness:
  "\<exists>p1. append_serialized ex_bill ex_flt ex_sha 2 append_good [8, 10] p1 = (p1, Inl ()) \<and> pg_archive p1 = Some [7, 10, 8, 10]"
proof -
  let ?p = "no_files \<lparr> pg_active := Some [7, 10], pg_checkpoint := CkDamaged \<rparr>"
  obtain p1 r where "append_serialized ex_bill ex_flt ex_sha 2 append_good [8, 10] ?p = (p1, r)" by fastforce
  from damaged_checkpoint_stops_the_journal [OF _ _ _ this, of "[7, 10]" append_good "[8, 10]"]
  show ?thesis by (auto simp: opened_bytes_def)
qed

end
