(* ===== verification/Projection_Claims.thy ===== *)
theory Projection_Claims
  imports Progress_Projection Progress_Claims
begin

text \<open>
  What the projection promises: its totals are those of the files whatever the order of appends, rotations
  and catch-ups; its rolling day is the reference's day at the start of the minute; its tail, its
  sessions and its verdicts are those of the rows it has read. Last come the places where they are not.
\<close>

section \<open>What one event changes\<close>

lemma fold_cost_fields [simp]:
  "st_loaded (fold_cost pts k e now s) = st_loaded s" "st_offset (fold_cost pts k e now s) = st_offset s"
  "st_corrupt (fold_cost pts k e now s) = st_corrupt s" "st_last_valid (fold_cost pts k e now s) = st_last_valid s"
  "st_last_unscoped (fold_cost pts k e now s) = st_last_unscoped s" "st_tail (fold_cost pts k e now s) = st_tail s"
  "st_cost (fold_cost pts k e now s) = st_cost s + cc_cost k"
  "st_vendor (fold_cost pts k e now s) = add_money_opt (cc_vendor k) (cc_cost k) (st_vendor s)"
  "st_sessions (fold_cost pts k e now s) = st_sessions s" "st_delegations (fold_cost pts k e now s) = st_delegations s"
  "st_minute_delegations (fold_cost pts k e now s) = st_minute_delegations s" "st_workflow (fold_cost pts k e now s) = st_workflow s"
  by (simp_all add: fold_cost_def Let_def)

lemma fold_delegation_fields [simp]:
  "st_loaded (fold_delegation pts kind e now s) = st_loaded s" "st_offset (fold_delegation pts kind e now s) = st_offset s"
  "st_corrupt (fold_delegation pts kind e now s) = st_corrupt s" "st_last_valid (fold_delegation pts kind e now s) = st_last_valid s"
  "st_last_unscoped (fold_delegation pts kind e now s) = st_last_unscoped s" "st_tail (fold_delegation pts kind e now s) = st_tail s"
  "st_cost (fold_delegation pts kind e now s) = st_cost s" "st_vendor (fold_delegation pts kind e now s) = st_vendor s"
  "st_sessions (fold_delegation pts kind e now s) = st_sessions s" "st_minute_cost (fold_delegation pts kind e now s) = st_minute_cost s"
  "st_workflow (fold_delegation pts kind e now s) = st_workflow s"
  by (simp_all add: fold_delegation_def Let_def split: option.split)

lemma fold_session_turn_fields [simp]:
  "sp_last_event (fold_session_turn flt e p) = sp_last_event p" "sp_last_at (fold_session_turn flt e p) = sp_last_at p"
  by (simp_all add: fold_session_turn_def Let_def split: option.split)

lemma fold_event_fields [simp]:
  "st_loaded (fold_event flt pts now e s) = st_loaded s" "st_offset (fold_event flt pts now e s) = st_offset s"
  "st_corrupt (fold_event flt pts now e s) = st_corrupt s" "st_last_valid (fold_event flt pts now e s) = Some e"
  "st_last_unscoped (fold_event flt pts now e s) = (if event_sid e = None then Some e else st_last_unscoped s)"
  "st_tail (fold_event flt pts now e s) = push_tail e (st_tail s)"
  "st_workflow (fold_event flt pts now e s)
     = st_workflow s @ (if event_kind_of e \<in> set (map lit workflow_kinds) then [e] else [])"
  by (auto simp: fold_event_def Let_def split: option.split)

lemma fold_event_session:
  "Option.bind (st_sessions (fold_event flt pts now e s) k) sp_last_event
     = (if event_sid e = Some k then Some e else Option.bind (st_sessions s k) sp_last_event)"
  by (auto simp: fold_event_def session_entry_def Let_def split: option.split)

lemma fold_event_cost:
  "st_cost (fold_event flt pts now e s) = st_cost s + amount flt None e"
  "money_of (st_vendor (fold_event flt pts now e s)) v = money_of (st_vendor s) v + amount flt (Some v) e"
  by (auto simp: fold_event_def amount_def money_add Let_def split: option.split)

section \<open>What a list of events changes\<close>

text \<open>The events of successive deltas, each with the time of its delta.\<close>

definition replay ::
  "(utext \<Rightarrow> rat) \<Rightarrow> (utext \<Rightarrow> int option) \<Rightarrow> (int \<times> json) list \<Rightarrow> slug_state \<Rightarrow> slug_state" where
  "replay flt pts tes s = fold (\<lambda>(now, e). fold_event flt pts now e) tes s"

lemma replay_simps [simp]:
  "replay flt pts [] s = s"
  "replay flt pts ((now, e) # tes) s = replay flt pts tes (fold_event flt pts now e s)"
  "replay flt pts (as @ bs) s = replay flt pts bs (replay flt pts as s)"
  by (simp_all add: replay_def)

lemma replay_delta: "fold (fold_event flt pts now) es s = replay flt pts (map (Pair now) es) s"
  by (induction es arbitrary: s) simp_all

lemma replay_fixed [simp]:
  "st_loaded (replay flt pts tes s) = st_loaded s" "st_offset (replay flt pts tes s) = st_offset s"
  "st_corrupt (replay flt pts tes s) = st_corrupt s"
  by (induction tes arbitrary: s) (auto simp: replay_def)

lemma replay_cost:
  "st_cost (replay flt pts tes s) = st_cost s + sum_list (map (amount flt None) (map snd tes))"
  "money_of (st_vendor (replay flt pts tes s)) v = money_of (st_vendor s) v + sum_list (map (amount flt (Some v)) (map snd tes))"
  by (induction tes arbitrary: s) (auto simp: fold_event_cost)

lemma push_tail_last:
  "push_tail e (drop (length xs - TAIL_CAPACITY) xs) = drop (length (xs @ [e]) - TAIL_CAPACITY) (xs @ [e])"
proof (cases "TAIL_CAPACITY \<le> length xs")
  case True
  then have "length (xs @ [e]) - TAIL_CAPACITY = Suc (length xs - TAIL_CAPACITY)" by simp
  moreover have "Suc (length xs - TAIL_CAPACITY) \<le> length xs" using True by (simp add: TAIL_CAPACITY_def)
  ultimately show ?thesis using True by (simp add: push_tail_def drop_Suc tl_drop)
qed (simp add: push_tail_def TAIL_CAPACITY_def)

lemma replay_tail:
  assumes "st_tail s = drop (length xs - TAIL_CAPACITY) xs"
  shows "st_tail (replay flt pts tes s) = drop (length (xs @ map snd tes) - TAIL_CAPACITY) (xs @ map snd tes)"
  using assms
proof (induction tes arbitrary: s xs)
  case (Cons te tes)
  obtain now e where te: "te = (now, e)" by (cases te)
  have "st_tail (fold_event flt pts now e s) = drop (length (xs @ [e]) - TAIL_CAPACITY) (xs @ [e])"
    using push_tail_last [of e xs] by (simp add: Cons(2))
  from Cons(1) [OF this] show ?case by (simp add: te)
qed simp

lemma find_append: "find P (xs @ ys) = (case find P xs of Some x \<Rightarrow> Some x | None \<Rightarrow> find P ys)"
  by (induction xs) simp_all

lemma replay_session:
  "Option.bind (st_sessions (replay flt pts tes s) k) sp_last_event
     = (case find (\<lambda>e. event_sid e = Some k) (rev (map snd tes)) of Some e \<Rightarrow> Some e
        | None \<Rightarrow> Option.bind (st_sessions s k) sp_last_event)"
  by (induction tes arbitrary: s) (auto simp: fold_event_session find_append split: option.split)

lemma replay_unscoped:
  "st_last_unscoped (replay flt pts tes s)
     = (case find (\<lambda>e. event_sid e = None) (rev (map snd tes)) of Some e \<Rightarrow> Some e | None \<Rightarrow> st_last_unscoped s)"
  by (induction tes arbitrary: s) (auto simp: find_append split: option.split)

section \<open>The rolling day\<close>

text \<open>The sum of a share of the buckets from a minute on.\<close>

definition bucket_share :: "utext option \<Rightarrow> cost_bucket \<Rightarrow> rat" where
  "bucket_share q b = (case q of None \<Rightarrow> cb_total b | Some v \<Rightarrow> money_of (cb_vendor b) v)"

definition window_sum :: "utext option \<Rightarrow> int \<Rightarrow> (int \<times> cost_bucket) list \<Rightarrow> rat" where
  "window_sum q oldest bs = sum_list (map (\<lambda>b. bucket_share q (snd b)) (filter (\<lambda>b. oldest \<le> fst b) bs))"

lemma bump_sum:
  assumes "bucket_share q d = 0" "\<And>b. bucket_share q (f b) = bucket_share q b + x"
  shows "window_sum q oldest (bump k d f bs) = window_sum q oldest bs + (if oldest \<le> k then x else 0)"
  by (induction bs) (auto simp: window_sum_def bump_def assms)

lemma window_prune: "o1 \<le> oldest \<Longrightarrow> window_sum q oldest (filter (\<lambda>b. o1 \<le> fst b) bs) = window_sum q oldest bs"
  by (induction bs) (auto simp: window_sum_def)

lemma minute_mono: "a \<le> b \<Longrightarrow> minute a \<le> minute b"
  unfolding minute_def by (intro zdiv_mono1) simp_all

definition row_minute :: "(utext \<Rightarrow> int option) \<Rightarrow> int \<times> json \<Rightarrow> int" where
  "row_minute pts te = min (bucket_minute pts (snd te) (fst te)) (minute (fst te))"

lemma fold_event_window:
  assumes "now \<le> later"
  shows "window_sum q (minute later - MINUTES_24H) (st_minute_cost (fold_event flt pts now e s))
    = window_sum q (minute later - MINUTES_24H) (st_minute_cost s)
      + (if minute later - MINUTES_24H \<le> row_minute pts (now, e) then amount flt q e else 0)"
proof -
  have le: "minute now - MINUTES_24H \<le> minute later - MINUTES_24H" using minute_mono [OF assms] by simp
  have one: "window_sum r (minute later - MINUTES_24H) (st_minute_cost (fold_cost pts k e now t))
      = window_sum r (minute later - MINUTES_24H) (st_minute_cost t)
        + (if minute later - MINUTES_24H \<le> row_minute pts (now, e) then (if r = None \<or> cc_vendor k = r then cc_cost k else 0) else 0)" for r k t
  proof -
    let ?x = "if r = None \<or> cc_vendor k = r then cc_cost k else 0"
    let ?f = "\<lambda>b. \<lparr> cb_total = cb_total b + cc_cost k, cb_count = u32_saturating_add (cb_count b) 1,
                 cb_vendor = add_money_opt (cc_vendor k) (cc_cost k) (cb_vendor b) \<rparr>"
    have f: "bucket_share r (?f b) = bucket_share r b + ?x" for b
      by (cases r) (auto simp: bucket_share_def money_add)
    have d: "bucket_share r empty_bucket = 0"
      by (cases r) (auto simp: bucket_share_def empty_bucket_def money_of_def)
    show ?thesis
      using le bump_sum [where q = r and f = ?f and d = empty_bucket and x = ?x, OF d f]
      by (auto simp: fold_cost_def Let_def window_prune [OF le] row_minute_def f d)
  qed
  show ?thesis
    by (cases "progress_cost_contribution flt e")
      (auto simp: fold_event_def Let_def one amount_def split: option.split)
qed

lemma replay_window:
  assumes "list_all (\<lambda>te. fst te \<le> later) tes"
  shows "window_sum q (minute later - MINUTES_24H) (st_minute_cost (replay flt pts tes s))
    = window_sum q (minute later - MINUTES_24H) (st_minute_cost s)
      + sum_list (map (\<lambda>te. if minute later - MINUTES_24H \<le> row_minute pts te then amount flt q (snd te) else 0) tes)"
  using assms by (induction tes arbitrary: s) (auto simp: fold_event_window)

text \<open>The totals of a summary, for all vendors or one.\<close>

definition day_share :: "utext option \<Rightarrow> cost_totals \<Rightarrow> rat" where
  "day_share q t = (case q of None \<Rightarrow> ct_24h t | Some v \<Rightarrow> money_of (ct_vendor_24h t) v)"

definition total_share :: "utext option \<Rightarrow> cost_totals \<Rightarrow> rat" where
  "total_share q t = (case q of None \<Rightarrow> ct_total t | Some v \<Rightarrow> money_of (ct_vendor_total t) v)"

lemma money_add_all: "money_of (add_all_money new old) v = money_of old v + money_of new v"
  by (simp add: money_of_def add_all_money_def split: option.split)

lemma summary_day: "day_share q (cost_summary s now) = window_sum q (minute now - MINUTES_24H) (st_minute_cost s)"
proof -
  have "day_share q (fold (\<lambda>b t. t \<lparr> ct_24h := ct_24h t + cb_total b,
                      ct_count_24h := u32_saturating_add (ct_count_24h t) (cb_count b),
                      ct_vendor_24h := add_all_money (cb_vendor b) (ct_vendor_24h t) \<rparr>) bs t)
      = day_share q t + sum_list (map (bucket_share q) bs)" for bs t
    by (induction bs arbitrary: t) (cases q; simp add: day_share_def bucket_share_def money_add_all)+
  then show ?thesis
    by (simp add: cost_summary_def window_sum_def Let_def comp_def) (simp add: day_share_def money_of_def split: option.split)
qed

text \<open>The whole total.\<close>

lemma summary_total: "total_share q (cost_summary s now) = (case q of None \<Rightarrow> st_cost s | Some v \<Rightarrow> money_of (st_vendor s) v)"
proof -
  have "total_share q (fold (\<lambda>b t. t \<lparr> ct_24h := ct_24h t + cb_total b,
                      ct_count_24h := u32_saturating_add (ct_count_24h t) (cb_count b),
                      ct_vendor_24h := add_all_money (cb_vendor b) (ct_vendor_24h t) \<rparr>) bs t) = total_share q t" for bs t
    by (induction bs arbitrary: t) (cases q; simp add: total_share_def)+
  note keep = this
  show ?thesis unfolding cost_summary_def Let_def keep by (cases q) (simp_all add: total_share_def)
qed

section \<open>Projection and files together\<close>

definition active_bytes :: "progress_files \<Rightarrow> bytes" where
  "active_bytes p = (case pg_active p of None \<Rightarrow> [] | Some bs \<Rightarrow> bs)"

text \<open>A loaded state is the replay, from the checkpoint, of the rows up to its cursor, which is behind a whole line.\<close>

definition caught ::
  "(bytes \<Rightarrow> json option) \<Rightarrow> (utext \<Rightarrow> rat) \<Rightarrow> (utext \<Rightarrow> int option) \<Rightarrow> int \<Rightarrow> progress_files \<Rightarrow> slug_state \<Rightarrow> bool" where
  "caught parse flt pts clk p s \<longleftrightarrow> (\<exists>tes pre rest. active_bytes p = pre @ rest \<and> ends_line pre
     \<and> map snd tes = events_of parse pre \<and> list_all (\<lambda>te. fst te \<le> clk) tes
     \<and> s = (replay flt pts tes (start_state (checkpoint_of (pg_checkpoint p))))
          \<lparr> st_offset := length pre, st_corrupt := corrupt_rows (picks parse) pre \<rparr>)"

definition proj_ok ::
  "(bytes \<Rightarrow> json option) \<Rightarrow> (utext \<Rightarrow> rat) \<Rightarrow> (bytes \<Rightarrow> utext) \<Rightarrow> (utext \<Rightarrow> int option) \<Rightarrow> int \<Rightarrow> progress_files \<Rightarrow> slug_state \<Rightarrow> bool" where
  "proj_ok parse flt sha pts clk p s \<longleftrightarrow> log_ok sha p
     \<and> (if st_loaded s then covered sha p \<and> caught parse flt pts clk p s else s = default_slug)"

lemma fold_cost_marks:
  "fold_cost pts k e now (s \<lparr> st_offset := n, st_corrupt := m \<rparr>) = (fold_cost pts k e now s) \<lparr> st_offset := n, st_corrupt := m \<rparr>"
  by (simp add: fold_cost_def Let_def)

lemma fold_delegation_marks:
  "fold_delegation pts kind e now (s \<lparr> st_offset := n, st_corrupt := m \<rparr>)
     = (fold_delegation pts kind e now s) \<lparr> st_offset := n, st_corrupt := m \<rparr>"
  by (simp add: fold_delegation_def Let_def split: option.split)

lemma session_entry_marks: "session_entry k (s \<lparr> st_offset := n, st_corrupt := m \<rparr>) = session_entry k s"
  by (simp add: session_entry_def)

lemma fold_event_marks:
  "fold_event flt pts now e (s \<lparr> st_offset := n, st_corrupt := m \<rparr>)
     = (fold_event flt pts now e s) \<lparr> st_offset := n, st_corrupt := m \<rparr>"
proof -
  define start where "start t = (let s1 = t \<lparr> st_last_valid := Some e, st_tail := push_tail e (st_tail t) \<rparr> in
      let s2 = (case event_sid e of
              Some k \<Rightarrow> s1 \<lparr> st_sessions := (st_sessions s1)(k \<mapsto>
                (session_entry k s1) \<lparr> sp_last_at := event_timestamp pts e, sp_last_event := Some e \<rparr>) \<rparr>
            | None \<Rightarrow> s1 \<lparr> st_last_unscoped := Some e \<rparr>) in
      if event_kind_of e \<in> set (map lit workflow_kinds) then s2 \<lparr> st_workflow := st_workflow s2 @ [e] \<rparr> else s2)" for t
  define paid where "paid t = (case progress_cost_contribution flt e of None \<Rightarrow> t | Some k \<Rightarrow> fold_cost pts k e now t)" for t
  define turn where "turn t = (case event_sid e of
              Some k \<Rightarrow> if event_kind_of e = lit ''chat_turn_completed''
                then t \<lparr> st_sessions := (st_sessions t)(k \<mapsto> fold_session_turn flt e (session_entry k t)) \<rparr> else t
            | None \<Rightarrow> t)" for t :: slug_state
  have split: "fold_event flt pts now e t = fold_delegation pts (event_kind_of e) e now (turn (paid (start t)))" for t
    by (simp add: fold_event_def start_def paid_def turn_def Let_def)
  have "start (s \<lparr> st_offset := n, st_corrupt := m \<rparr>) = (start s) \<lparr> st_offset := n, st_corrupt := m \<rparr>"
    by (cases "event_sid e") (simp_all add: start_def session_entry_def Let_def)
  moreover have "paid (t \<lparr> st_offset := n, st_corrupt := m \<rparr>) = (paid t) \<lparr> st_offset := n, st_corrupt := m \<rparr>" for t
    by (simp add: paid_def fold_cost_marks split: option.split)
  moreover have "turn (t \<lparr> st_offset := n, st_corrupt := m \<rparr>) = (turn t) \<lparr> st_offset := n, st_corrupt := m \<rparr>" for t
    by (simp add: turn_def session_entry_marks split: option.split)
  ultimately show ?thesis by (simp only: split fold_delegation_marks)
qed

lemma replay_marks:
  "replay flt pts tes (s \<lparr> st_offset := n, st_corrupt := m \<rparr>) = (replay flt pts tes s) \<lparr> st_offset := n, st_corrupt := m \<rparr>"
  by (induction tes arbitrary: s) (auto simp: fold_event_marks)

lemma ends_join: "ends_line a \<Longrightarrow> ends_line b \<Longrightarrow> ends_line (a @ b)"
  by (cases "b = []") (auto simp: ends_line_def)

lemma caught_start:
  "caught parse flt pts clk p (start_state (checkpoint_of (pg_checkpoint p)))"
proof -
  have "start_state c = (start_state c) \<lparr> st_offset := 0, st_corrupt := 0 \<rparr>" for c
    by (simp add: start_state_def default_slug_def apply_checkpoint_def Let_def split: option.split)
  then show ?thesis unfolding caught_def
    by (intro exI [of _ "[]"] exI [of _ "active_bytes p"]) (simp add: ends_line_def)
qed

lemma ingest_loaded [simp]: "st_loaded (ingest_delta flt pts now d s) = st_loaded s"
  by (simp add: ingest_delta_def replay_delta Let_def)

lemma caught_ingest:
  assumes "caught parse flt pts clk p s" "clk \<le> now" "pg_active p = Some bs"
    "read_delta parse (Content bs) (st_offset s) = Inr d"
  shows "caught parse flt pts now p (ingest_delta flt pts now d s)
    \<and> st_offset (ingest_delta flt pts now d s) = length (complete_part bs)"
proof -
  obtain tes pre rest where c: "active_bytes p = pre @ rest" "ends_line pre" "map snd tes = events_of parse pre"
    "list_all (\<lambda>te. fst te \<le> clk) tes"
    "s = (replay flt pts tes (start_state (checkpoint_of (pg_checkpoint p))))
          \<lparr> st_offset := length pre, st_corrupt := corrupt_rows (picks parse) pre \<rparr>"
    using assms(1) unfolding caught_def by blast
  have bs: "bs = pre @ rest" using c(1) assms(3) by (simp add: active_bytes_def)
  let ?new = "complete_part rest"
  have d: "d = \<lparr> dt_events = events_of parse ?new, dt_next = length pre + length ?new, dt_corrupt = corrupt_rows (picks parse) ?new \<rparr>"
    using assms(4) by (simp add: c(5) bs read_delta_Content)
  obtain t where t: "rest = ?new @ t" using complete_split by blast
  let ?tes = "tes @ map (Pair now) (events_of parse ?new)"
  have i: "ingest_delta flt pts now d s = (replay flt pts ?tes (start_state (checkpoint_of (pg_checkpoint p))))
      \<lparr> st_offset := length (pre @ ?new), st_corrupt := corrupt_rows (picks parse) (pre @ ?new) \<rparr>"
    by (simp add: ingest_delta_def d replay_delta c(5) replay_marks corrupt_join [OF c(2)] Let_def)
  have e: "ends_line (pre @ ?new)" by (rule ends_join [OF c(2)]) simp
  have m: "map snd ?tes = events_of parse (pre @ ?new)" by (simp add: events_join [OF c(2)] c(3) comp_def)
  have l: "list_all (\<lambda>te. fst te \<le> now) ?tes" using c(4) assms(2) by (auto simp: list_all_iff)
  have ab: "active_bytes p = (pre @ ?new) @ t" using c(1) t by simp
  have cp: "complete_part bs = pre @ ?new" by (simp add: bs complete_join [OF c(2)])
  have "caught parse flt pts now p (ingest_delta flt pts now d s)"
    unfolding caught_def using ab e m l i by blast
  then show ?thesis using i cp by simp
qed

lemma proj_ok_mono: "proj_ok parse flt sha pts clk p s \<Longrightarrow> clk \<le> now \<Longrightarrow> proj_ok parse flt sha pts now p s"
proof -
  have "list_all (\<lambda>te. fst te \<le> now) tes" if "list_all (\<lambda>te. fst te \<le> clk) tes" "clk \<le> now" for tes :: "(int \<times> json) list"
    using that by (auto simp: list_all_iff)
  then show "proj_ok parse flt sha pts clk p s \<Longrightarrow> clk \<le> now \<Longrightarrow> proj_ok parse flt sha pts now p s"
    unfolding proj_ok_def caught_def by (auto split: if_splits; blast)
qed

text \<open>The part of a catch-up after the state is known to be loaded.\<close>

lemma at_cursor:
  assumes "caught parse flt pts clk p s" "active_size p = st_offset s"
  shows "st_offset s = length (complete_part (active_bytes p))"
proof -
  obtain pre rest where c: "active_bytes p = pre @ rest" "ends_line pre" "st_offset s = length pre"
    using assms(1) unfolding caught_def by auto
  have "active_size p = length (active_bytes p)" by (simp add: active_size_def active_bytes_def split: option.split)
  then have "rest = []" using assms(2) c by simp
  then show ?thesis using c by (simp add: complete_of_ends)
qed

lemma cursor_inside:
  assumes "caught parse flt pts clk p s" "active_size p \<noteq> st_offset s"
  obtains bs where "pg_active p = Some bs" "st_offset s \<le> length bs"
proof -
  obtain pre rest where c: "active_bytes p = pre @ rest" "st_offset s = length pre"
    using assms(1) unfolding caught_def by auto
  show thesis
  proof (cases "pg_active p")
    case None
    then show thesis using c assms(2) by (simp add: active_bytes_def active_size_def)
  next
    case (Some bs)
    then show thesis using c that [of bs] by (simp add: active_bytes_def)
  qed
qed

lemma catch_spec:
  assumes "catch_up_locked parse flt sha pts io now force_rehydrate (p, j) = ((p', j'), ok)"
    "proj_ok parse flt sha pts clk p (pj_state j)
      \<or> (force_rehydrate \<or> active_size p < st_offset (pj_state j)) \<and> log_ok sha p \<and> ok" "clk \<le> now"
  shows "proj_ok parse flt sha pts now p' (pj_state j')"
    and "pg_active p' = pg_active p"
    and "p' = p \<or> (\<exists>ck. load_or_recover_progress_checkpoint parse flt sha (ci_locked io) (ci_recover io) p = (p', ck))"
    and "ok \<Longrightarrow> st_loaded (pj_state j') \<and> st_offset (pj_state j') = length (complete_part (active_bytes p'))"
proof -
  let ?R = "proj_ok parse flt sha pts now p' (pj_state j') \<and> pg_active p' = pg_active p
    \<and> (p' = p \<or> (\<exists>ck. load_or_recover_progress_checkpoint parse flt sha (ci_locked io) (ci_recover io) p = (p', ck)))
    \<and> (ok \<longrightarrow> st_loaded (pj_state j') \<and> st_offset (pj_state j') = length (complete_part (active_bytes p')))"
  have log: "log_ok sha p" using assms(2) by (auto simp: proj_ok_def)
  define rotated where "rotated \<longleftrightarrow> force_rehydrate \<or> active_size p < st_offset (pj_state j)"
  define s where "s = pj_state j"
  have ?R
  proof (cases "ci_stat io")
    case False
    then show ?thesis
      using assms proj_ok_mono [OF _ assms(3)] by (auto simp: catch_up_locked_def)
  next
    case stat: True
    show ?thesis
    proof (cases "\<not> st_loaded s \<or> rotated")
      case True
      obtain p1 r where l: "load_or_recover_progress_checkpoint parse flt sha (ci_locked io) (ci_recover io) p = (p1, r)"
        by (cases "load_or_recover_progress_checkpoint parse flt sha (ci_locked io) (ci_recover io) p")
      have ls: "log_ok sha p1" "pg_active p1 = pg_active p" "case r of Inl _ \<Rightarrow> p1 = p | Inr _ \<Rightarrow> covered sha p1"
        using load_spec [OF l log, of None] by (simp_all split: sum.splits)
      show ?thesis
      proof (cases r)
        case (Inl e)
        then have "p' = p" "j' = j" "\<not> ok"
          using assms(1) stat True l ls(3) by (auto simp: catch_up_locked_def s_def rotated_def Let_def)
        then show ?thesis using assms(2) proj_ok_mono [OF _ assms(3)] by auto
      next
        case (Inr ck)
        have ck: "ck = checkpoint_of (pg_checkpoint p1)" using load_result l Inr by blast
        have start: "caught parse flt pts now p1 (start_state ck)" unfolding ck by (rule caught_start)
        have zero: "st_offset (start_state ck) = 0" "st_loaded (start_state ck)"
          by (simp_all add: start_state_def default_slug_def apply_checkpoint_def Let_def split: option.split)
        have off: "(if rotated then 0 else st_offset s) = 0"
          using assms(2) True by (auto simp: proj_ok_def s_def rotated_def default_slug_def)
        have size: "active_size p = active_size p1" using ls(2) by (simp add: active_size_def)
        have loaded: "proj_ok parse flt sha pts now p1 t" if "caught parse flt pts now p1 t" "st_loaded t" for t
          using that ls(1,3) Inr by (simp add: proj_ok_def)
        show ?thesis
        proof (cases "active_size p = 0")
          case no_rows: True
          then have "p' = p1" "pj_state j' = start_state ck"
            using assms(1) stat True l Inr off by (auto simp: catch_up_locked_def s_def rotated_def Let_def split: if_splits)
          then show ?thesis
            using loaded [OF start zero(2)] ls(2) l at_cursor [OF start] no_rows size zero by auto
        next
          case rows: False
          obtain bs where bs: "pg_active p1 = Some bs"
            using cursor_inside [OF start] rows size zero(1) by auto
          then have whole: "active_bytes p1 = bs" by (simp add: active_bytes_def)
          show ?thesis
          proof (cases "ci_read io")
            case False
            then have "p' = p1" "pj_state j' = start_state ck" "\<not> ok"
              using assms(1) stat True l Inr off rows bs
              by (auto simp: catch_up_locked_def s_def rotated_def Let_def active_view_def read_delta_def split: if_splits)
            then show ?thesis using loaded [OF start zero(2)] ls(2) l by auto
          next
            case readable: True
            obtain d where d: "read_delta parse (Content bs) 0 = Inr d" by (simp add: read_delta_Content)
            have "p' = p1" "pj_state j' = ingest_delta flt pts now d (start_state ck)"
              using assms(1) stat True l Inr off rows bs readable d
              by (auto simp: catch_up_locked_def s_def rotated_def Let_def active_view_def split: if_splits)
            then show ?thesis
              using caught_ingest [OF start order_refl bs, of d] zero d loaded ls(2) l whole
              by auto
          qed
        qed
      qed
    next
      case False
      then have c: "caught parse flt pts now p s" "covered sha p" "\<not> rotated" "st_loaded s"
        using assms(2) proj_ok_mono [OF _ assms(3), of parse flt sha pts p s]
        by (auto simp: proj_ok_def s_def rotated_def split: if_splits)
      have loaded: "proj_ok parse flt sha pts now p t" if "caught parse flt pts now p t" "st_loaded t" for t
        using that log c(2) by (simp add: proj_ok_def)
      show ?thesis
      proof (cases "active_size p = st_offset s")
        case True
        then have "p' = p" "pj_state j' = s"
          using assms(1) stat c(3,4) by (auto simp: catch_up_locked_def s_def rotated_def Let_def)
        then show ?thesis using loaded [OF c(1,4)] at_cursor [OF c(1) True] c(4) by auto
      next
        case rows: False
        obtain bs where bs: "pg_active p = Some bs" "st_offset s \<le> length bs" using cursor_inside [OF c(1) rows] .
        then have whole: "active_bytes p = bs" by (simp add: active_bytes_def)
        show ?thesis
        proof (cases "ci_read io")
          case False
          then have "p' = p" "pj_state j' = s" "\<not> ok"
            using assms(1) stat c(3,4) rows bs
            by (auto simp: catch_up_locked_def s_def rotated_def Let_def active_view_def read_delta_def split: if_splits)
          then show ?thesis using loaded [OF c(1,4)] by auto
        next
          case readable: True
          obtain d where d: "read_delta parse (Content bs) (st_offset s) = Inr d" using bs(2) by (simp add: read_delta_Content)
          have "p' = p" "pj_state j' = ingest_delta flt pts now d s"
            using assms(1) stat c(3,4) rows bs readable d
            by (auto simp: catch_up_locked_def s_def rotated_def Let_def active_view_def split: if_splits)
          then show ?thesis
            using caught_ingest [OF c(1) order_refl bs(1) d] loaded c(4) whole by auto
        qed
      qed
    qed
  qed
  then show "proj_ok parse flt sha pts now p' (pj_state j')" "pg_active p' = pg_active p"
    "p' = p \<or> (\<exists>ck. load_or_recover_progress_checkpoint parse flt sha (ci_locked io) (ci_recover io) p = (p', ck))"
    "ok \<Longrightarrow> st_loaded (pj_state j') \<and> st_offset (pj_state j') = length (complete_part (active_bytes p'))"
    by blast+
qed

text \<open>Recovering what is covered changes nothing, and an append that does not rotate only adds bytes.\<close>

lemma recover_covered: "covered sha p \<Longrightarrow> fst (recover_progress_checkpoint_locked parse flt sha io p) = p"
  by (auto simp: recover_progress_checkpoint_locked_def read_progress_checkpoint_def covered_def checkpoint_covers_archive_def
      split: option.splits checkpoint_file.splits)

lemma load_is_noop:
  "covered sha p \<Longrightarrow> load_or_recover_progress_checkpoint parse flt sha locked io p = (p', ck) \<Longrightarrow> p' = p"
  using recover_covered [of sha p parse flt io] by (auto simp: load_or_recover_progress_checkpoint_def split: if_splits)

lemma rotate_failed:
  assumes "rotate_progress_locked parse flt sha io p = (p', False)" "pg_active p' \<noteq> None" "covered sha p"
  shows "pg_active p' = pg_active p \<and> pg_checkpoint p' = pg_checkpoint p \<and> covered sha p'"
proof (cases "(pg_archive p \<noteq> None \<and> \<not> ao_remove io) \<or> \<not> ao_rename io")
  case True
  then show ?thesis
    using assms by (auto simp: rotate_progress_locked_def Let_def covered_def split: if_splits)
next
  case False
  let ?p2 = "p \<lparr> pg_archive := pg_active p, pg_active := None \<rparr>"
  obtain p3 r where r: "recover_progress_checkpoint_locked parse flt sha (ao_fold io) ?p2 = (p3, r)"
    by (cases "recover_progress_checkpoint_locked parse flt sha (ao_fold io) ?p2")
  have "pg_active p3 = None"
    using r by (auto simp: recover_progress_checkpoint_locked_def write_progress_checkpoint_def Let_def
        split: if_splits sum.splits option.splits prod.splits)
  then show ?thesis
    using assms(1,2) False r by (auto simp: rotate_progress_locked_def Let_def split: sum.splits if_splits)
qed

lemma open_grows:
  "open_for_append opens heals g = (f, opened)
    \<Longrightarrow> \<exists>x. (case f of None \<Rightarrow> [] | Some bs \<Rightarrow> bs) = (case g of None \<Rightarrow> [] | Some bs \<Rightarrow> bs) @ x"
  by (cases g) (auto simp: open_for_append_def split: if_splits)

lemma append_grows:
  assumes "append_serialized parse flt sha limit io line p = (p', res)" "res \<noteq> Inr True" "p' = p \<or> pg_active p' \<noteq> None"
    "covered sha p"
  shows "pg_checkpoint p' = pg_checkpoint p \<and> covered sha p' \<and> (\<exists>x. active_bytes p' = active_bytes p @ x)"
proof (cases "p' = p")
  case True
  then show ?thesis using assms(4) by simp
next
  case False
  then have act: "pg_active p' \<noteq> None" using assms(3) by blast
  have lock: "ao_lock io"
  proof (rule ccontr)
    assume "\<not> ao_lock io"
    then show False using assms(1) False by (simp add: append_serialized_def)
  qed
  obtain p1 r where r: "recover_progress_checkpoint_locked parse flt sha (ao_recover io) p = (p1, r)"
    by (cases "recover_progress_checkpoint_locked parse flt sha (ao_recover io) p")
  have "p1 = p" using recover_covered [OF assms(4)] r by (metis fst_conv)
  then have noop: "(case recover_progress_checkpoint_locked parse flt sha (ao_recover io) p of
      (p1, Inl _) \<Rightarrow> (p1, False) | (p1, Inr _) \<Rightarrow> (p1, True)) = (p, r \<noteq> Inl ())"
    using r by (auto split: sum.split)
  obtain f opened where of: "open_for_append (ao_open io) (ao_heal io) (pg_active p) = (f, opened)"
    by (cases "open_for_append (ao_open io) (ao_heal io) (pg_active p)")
  have grow: "\<exists>x. (case f of None \<Rightarrow> [] | Some bs \<Rightarrow> bs) = active_bytes p @ x"
    using open_grows [OF of] by (simp add: active_bytes_def)
  have cov: "covered sha (p \<lparr> pg_active := g \<rparr>)" for g using assms(4) by simp
  define bs where "bs = (case f of None \<Rightarrow> [] | Some bs \<Rightarrow> bs)"
  have "(p', res) = (p \<lparr> pg_active := f \<rparr>, Inl ())
    \<or> (\<exists>k. (p', res) = (p \<lparr> pg_active := Some (bs @ take k line) \<rparr>, Inl ()))
    \<or> (\<exists>x. (p', res) = (p \<lparr> pg_active := Some (bs @ line) \<rparr>, x))
    \<or> (case rotate_progress_locked parse flt sha io (p \<lparr> pg_active := Some (bs @ line) \<rparr>) of (p4, ok) \<Rightarrow>
         p' = p4 \<and> \<not> ok)"
    using assms(1,2) lock noop of False unfolding append_serialized_def bs_def
    by (auto simp: Let_def split: if_splits option.splits prod.splits bool.splits)
  then consider (opened) "p' = p \<lparr> pg_active := f \<rparr>" | (wrote) y where "p' = p \<lparr> pg_active := Some (bs @ y) \<rparr>"
    | (rotated) "rotate_progress_locked parse flt sha io (p \<lparr> pg_active := Some (bs @ line) \<rparr>) = (p', False)"
    by (auto split: prod.splits)
  then show ?thesis
  proof cases
    case opened
    then show ?thesis using grow cov by (auto simp: active_bytes_def)
  next
    case wrote
    then show ?thesis using grow cov by (auto simp: active_bytes_def bs_def)
  next
    case rotated
    then show ?thesis using rotate_failed [OF rotated act cov] grow by (auto simp: active_bytes_def bs_def)
  qed
qed

lemma caught_grow:
  assumes "caught parse flt pts clk p s" "pg_checkpoint p' = pg_checkpoint p" "active_bytes p' = active_bytes p @ x"
  shows "caught parse flt pts clk p' s"
proof -
  obtain tes pre rest where "active_bytes p = pre @ rest" "ends_line pre" "map snd tes = events_of parse pre"
    "list_all (\<lambda>te. fst te \<le> clk) tes"
    "s = (replay flt pts tes (start_state (checkpoint_of (pg_checkpoint p))))
          \<lparr> st_offset := length pre, st_corrupt := corrupt_rows (picks parse) pre \<rparr>"
    using assms(1) unfolding caught_def by blast
  then show ?thesis
    unfolding caught_def assms(2,3) by (intro exI [of _ tes] exI [of _ pre] exI [of _ "rest @ x"]) simp
qed

section \<open>Histories of a server\<close>

text \<open>A server starts over whatever files there are. Rows are appended by it or by other processes, with any
  outcome, with rotations and failures on the way; in between come the forced catch-up of the observer
  after its own rotation, other catch-ups and queries, all with any outcome, other readers that recover
  the checkpoint, and repairs that land. The clock does not run backwards. The last component is a
  ghost: the active file was replaced since the projection last read it, and no catch-up has read it anew.
  A catch-up does when it is forced or finds the file shorter than its cursor.\<close>

definition replaced :: "projection \<Rightarrow> progress_files \<Rightarrow> unit + bool \<Rightarrow> progress_files \<Rightarrow> bool" where
  "replaced j p res p' \<longleftrightarrow> st_loaded (pj_state j) \<and> (res = Inr True \<or> p' \<noteq> p \<and> pg_active p' = None)"

definition reread :: "bool \<Rightarrow> progress_files \<Rightarrow> projection \<Rightarrow> bool" where
  "reread force_rehydrate p j \<longleftrightarrow> force_rehydrate \<or> active_size p < st_offset (pj_state j)"

inductive proj_reach ::
  "(bytes \<Rightarrow> json option) \<Rightarrow> (utext \<Rightarrow> rat) \<Rightarrow> (bytes \<Rightarrow> utext) \<Rightarrow> (utext \<Rightarrow> int option) \<Rightarrow> nat \<Rightarrow> (bytes \<times> bool) list \<Rightarrow> int
    \<Rightarrow> progress_files \<Rightarrow> projection \<Rightarrow> bool \<Rightarrow> bool"
  for parse flt sha pts limit where
  server_boot: "log_reach parse flt sha limit h p
    \<Longrightarrow> proj_reach parse flt sha pts limit h clk p new_projection False"
| server_append: "proj_reach parse flt sha pts limit h clk p j missed \<Longrightarrow> marks_differ sha (raw @ [10]) p
    \<Longrightarrow> append_serialized parse flt sha limit io (raw @ [10]) p = (p', res)
    \<Longrightarrow> proj_reach parse flt sha pts limit (h @ [(raw @ [10], reported res)]) clk p' j (missed \<or> replaced j p res p')"
| server_catch: "proj_reach parse flt sha pts limit h clk p j missed \<Longrightarrow> clk \<le> now
    \<Longrightarrow> catch_up_locked parse flt sha pts cio now force_rehydrate (p, j) = ((p', j'), ok)
    \<Longrightarrow> proj_reach parse flt sha pts limit h now p' j' (missed \<and> \<not> (ok \<and> reread force_rehydrate p j))"
| server_query: "proj_reach parse flt sha pts limit h clk p j missed \<Longrightarrow> clk \<le> now
    \<Longrightarrow> catch_up_for_query parse flt sha pts busy cio now (p, j) = ((p', j'), ok)
    \<Longrightarrow> proj_reach parse flt sha pts limit h now p' j' (missed \<and> \<not> (ok \<and> \<not> busy \<and> reread False p j))"
| server_other: "proj_reach parse flt sha pts limit h clk p j missed
    \<Longrightarrow> load_or_recover_progress_checkpoint parse flt sha locked rio p = (p', ck)
    \<Longrightarrow> proj_reach parse flt sha pts limit h clk p' j missed"
| server_repair: "proj_reach parse flt sha pts limit h clk p j missed
    \<Longrightarrow> repair_progress_journal_locked parse sha pio t p = (p', backups, result) \<Longrightarrow> repair_lands sha t p p'
    \<Longrightarrow> proj_reach parse flt sha pts limit h clk p' j (missed \<or> st_loaded (pj_state j) \<and> p' \<noteq> p)"

text \<open>Whatever the projection holds, a catch-up changes the files only by recovering the checkpoint.\<close>

lemma catch_files:
  assumes "catch_up_locked parse flt sha pts io now force_rehydrate (p, j) = ((p', j'), ok)"
  shows "p' = p \<or> (\<exists>ck. load_or_recover_progress_checkpoint parse flt sha (ci_locked io) (ci_recover io) p = (p', ck))"
  using assms
  by (cases "load_or_recover_progress_checkpoint parse flt sha (ci_locked io) (ci_recover io) p")
    (auto simp: catch_up_locked_def Let_def split: if_splits sum.splits)

lemma query_or_catch:
  assumes "catch_up_for_query parse flt sha pts busy io now (p, j) = ((p', j'), ok)"
  shows "(p' = p \<and> j' = j \<and> (ok \<longrightarrow> \<not> busy \<longrightarrow> st_loaded (pj_state j) \<and> active_size p = st_offset (pj_state j)))
    \<or> catch_up_locked parse flt sha pts io now False (p, j) = ((p', j'), ok)"
  using assms by (auto simp: catch_up_for_query_def split: if_splits)

lemma query_files:
  assumes "catch_up_for_query parse flt sha pts busy io now (p, j) = ((p', j'), ok)"
  shows "p' = p \<or> (\<exists>ck. load_or_recover_progress_checkpoint parse flt sha (ci_locked io) (ci_recover io) p = (p', ck))"
  using query_or_catch [OF assms]
proof
  assume "catch_up_locked parse flt sha pts io now False (p, j) = ((p', j'), ok)"
  then show ?thesis by (rule catch_files)
qed simp

lemma query_spec:
  assumes "catch_up_for_query parse flt sha pts busy io now (p, j) = ((p', j'), ok)"
    "proj_ok parse flt sha pts clk p (pj_state j) \<or> reread False p j \<and> log_ok sha p \<and> ok \<and> \<not> busy" "clk \<le> now"
  shows "proj_ok parse flt sha pts now p' (pj_state j')"
    and "p' = p \<or> (\<exists>ck. load_or_recover_progress_checkpoint parse flt sha (ci_locked io) (ci_recover io) p = (p', ck))"
    and "ok \<Longrightarrow> \<not> busy \<Longrightarrow> st_loaded (pj_state j') \<and> st_offset (pj_state j') = length (complete_part (active_bytes p'))"
proof -
  have "proj_ok parse flt sha pts now p' (pj_state j')
    \<and> (p' = p \<or> (\<exists>ck. load_or_recover_progress_checkpoint parse flt sha (ci_locked io) (ci_recover io) p = (p', ck)))
    \<and> (ok \<longrightarrow> \<not> busy \<longrightarrow> st_loaded (pj_state j') \<and> st_offset (pj_state j') = length (complete_part (active_bytes p')))"
    using query_or_catch [OF assms(1)]
  proof
    assume c: "catch_up_locked parse flt sha pts io now False (p, j) = ((p', j'), ok)"
    have "proj_ok parse flt sha pts clk p (pj_state j)
        \<or> (False \<or> active_size p < st_offset (pj_state j)) \<and> log_ok sha p \<and> ok"
      using assms(2) by (auto simp: reread_def)
    note s = catch_spec [OF c this assms(3)]
    show ?thesis using s(1,3,4) by blast
  next
    assume c: "p' = p \<and> j' = j \<and> (ok \<longrightarrow> \<not> busy \<longrightarrow> st_loaded (pj_state j) \<and> active_size p = st_offset (pj_state j))"
    then have "proj_ok parse flt sha pts clk p (pj_state j)" using assms(2) by (auto simp: reread_def)
    then have m: "proj_ok parse flt sha pts now p (pj_state j)" by (rule proj_ok_mono [OF _ assms(3)])
    have "st_offset (pj_state j) = length (complete_part (active_bytes p))" if ok "\<not> busy"
      using that m c at_cursor [of parse flt pts now p "pj_state j"] by (simp add: proj_ok_def)
    then show ?thesis using c m by blast
  qed
  then show "proj_ok parse flt sha pts now p' (pj_state j')"
    "p' = p \<or> (\<exists>ck. load_or_recover_progress_checkpoint parse flt sha (ci_locked io) (ci_recover io) p = (p', ck))"
    "ok \<Longrightarrow> \<not> busy \<Longrightarrow> st_loaded (pj_state j') \<and> st_offset (pj_state j') = length (complete_part (active_bytes p'))"
    by blast+
qed

lemma proj_reach_spec:
  assumes "proj_reach parse flt sha pts limit h clk p j missed"
  shows "log_reach parse flt sha limit h p \<and> (missed \<or> proj_ok parse flt sha pts clk p (pj_state j))"
  using assms
proof (induction rule: proj_reach.induct)
  case (server_boot h p clk)
  then show ?case
    using log_reach_spec [of parse flt sha limit h p] by (auto simp: proj_ok_def new_projection_def default_slug_def)
next
  case (server_append h clk p j missed raw io p' res)
  then have l: "log_reach parse flt sha limit (h @ [(raw @ [10], reported res)]) p'"
    by (blast intro: log_append)
  then have "log_ok sha p'" using log_reach_spec by blast
  moreover have "caught parse flt pts clk p' (pj_state j)" "covered sha p'"
    if "st_loaded (pj_state j)" "\<not> missed" "\<not> replaced j p res p'"
  proof -
    have "res \<noteq> Inr True" "p' = p \<or> pg_active p' \<noteq> None" using that by (auto simp: replaced_def)
    then show "caught parse flt pts clk p' (pj_state j)" "covered sha p'"
      using server_append(4) append_grows [OF server_append(3)] caught_grow that by (auto simp: proj_ok_def)
  qed
  ultimately show ?case using l server_append(4) by (auto simp: proj_ok_def)
next
  case (server_catch h clk p j missed now cio force_rehydrate p' j' ok)
  then have "log_reach parse flt sha limit h p'" using catch_files [OF server_catch(3)] log_recover by blast
  moreover have "proj_ok parse flt sha pts now p' (pj_state j')" if m: "\<not> (missed \<and> \<not> (ok \<and> reread force_rehydrate p j))"
  proof -
    have "True \<and> log_ok sha p" using server_catch(4) log_reach_spec by blast
    then have "proj_ok parse flt sha pts clk p (pj_state j)
        \<or> (force_rehydrate \<or> active_size p < st_offset (pj_state j)) \<and> log_ok sha p \<and> ok"
      using server_catch(4) m by (auto simp: reread_def)
    then show ?thesis by (rule catch_spec(1) [OF server_catch(3) _ server_catch(2)])
  qed
  ultimately show ?case by blast
next
  case (server_query h clk p j missed now busy cio p' j' ok)
  then have "log_reach parse flt sha limit h p'"
    using query_files [OF server_query(3)] log_recover by blast
  moreover have "proj_ok parse flt sha pts now p' (pj_state j')" if m: "\<not> (missed \<and> \<not> (ok \<and> \<not> busy \<and> reread False p j))"
  proof -
    have "True \<and> log_ok sha p" using server_query(4) log_reach_spec by blast
    then have "proj_ok parse flt sha pts clk p (pj_state j) \<or> reread False p j \<and> log_ok sha p \<and> ok \<and> \<not> busy"
      using server_query(4) m by auto
    then show ?thesis by (rule query_spec(1) [OF server_query(3) _ server_query(2)])
  qed
  ultimately show ?case by blast
next
  case (server_other h clk p j missed locked rio p' ck)
  then have l: "log_reach parse flt sha limit h p'" by (blast intro: log_recover)
  then have "log_ok sha p'" using log_reach_spec by blast
  moreover have "p' = p" if "st_loaded (pj_state j)" "\<not> missed"
    using server_other(2,3) that load_is_noop by (auto simp: proj_ok_def)
  ultimately show ?case using l server_other(3) by (auto simp: proj_ok_def)
next
  case (server_repair h clk p j missed pio t p' backups result)
  then have l: "log_reach parse flt sha limit h p'" by (blast intro: log_repair)
  then have "log_ok sha p'" using log_reach_spec by blast
  then show ?case using l server_repair(4) by (auto simp: proj_ok_def)
qed

section \<open>What a query tells\<close>

lemma good_load:
  assumes "log_ok sha p"
  shows "\<exists>p' ck. load_or_recover_progress_checkpoint parse flt sha True recover_good p = (p', Inr ck)"
proof (cases "pg_archive p = None")
  case True
  then show ?thesis
    using assms by (auto simp: load_or_recover_progress_checkpoint_def recover_progress_checkpoint_locked_def
        read_progress_checkpoint_def recover_good_def log_ok_def split: checkpoint_file.split)
next
  case False
  then show ?thesis using load_good [of p parse flt sha] assms by (auto simp: log_ok_def)
qed

text \<open>With no failing call a query succeeds, and is right unless the file was replaced unnoticed and has
  grown to the cursor again.\<close>

lemma good_query:
  assumes log: "log_ok sha p"
    and "catch_up_for_query parse flt sha pts False catch_good now (p, j) = ((p', j'), ok)"
  shows ok
proof (rule ccontr)
  assume fail: "\<not> ok"
  obtain p1 ck where l: "load_or_recover_progress_checkpoint parse flt sha True recover_good p = (p1, Inr ck)"
    using good_load [OF log] by blast
  have "pg_active p1 = pg_active p" using load_spec [OF l log] by simp
  then have "active_view True p1 = (case pg_active p of None \<Rightarrow> Missing | Some bs \<Rightarrow> Content bs)"
    by (simp add: active_view_def split: option.split)
  moreover have "active_size p = (case pg_active p of None \<Rightarrow> 0 | Some bs \<Rightarrow> length bs)" by (rule active_size_def)
  moreover have "active_size p < st_offset (pj_state j) \<or> active_size p = st_offset (pj_state j) \<or> st_offset (pj_state j) < active_size p"
    by arith
  ultimately show False
    using assms(2) fail l
    by (auto simp: catch_up_for_query_def catch_up_locked_def catch_good_def read_delta_Content active_view_def Let_def
        split: if_splits option.splits)
qed

lemma query_good:
  assumes "proj_reach parse flt sha pts limit h clk p j missed" "clk \<le> now" "missed \<longrightarrow> active_size p < st_offset (pj_state j)"
    "catch_up_for_query parse flt sha pts False catch_good now (p, j) = ((p', j'), ok)"
  shows "ok" "st_loaded (pj_state j')" "st_offset (pj_state j') = length (complete_part (active_bytes p'))"
    "covered sha p'" "caught parse flt pts now p' (pj_state j')" "log_reach parse flt sha limit h p'"
proof -
  have r: "log_reach parse flt sha limit h p" "missed \<or> proj_ok parse flt sha pts clk p (pj_state j)"
    using proj_reach_spec [OF assms(1)] by simp_all
  have "True \<and> log_ok sha p" using log_reach_spec [OF r(1)] by blast
  then have log: "log_ok sha p" by simp
  show ok: ok by (rule good_query [OF log assms(4)])
  have "proj_ok parse flt sha pts clk p (pj_state j) \<or> reread False p j \<and> log_ok sha p \<and> ok \<and> \<not> False"
    using r(2) log ok assms(3) by (auto simp: reread_def)
  note q = query_spec [OF assms(4) this assms(2)]
  show st: "st_loaded (pj_state j')" "st_offset (pj_state j') = length (complete_part (active_bytes p'))"
    using q(3) ok by simp_all
  show "covered sha p'" "caught parse flt pts now p' (pj_state j')" using q(1) st(1) by (simp_all add: proj_ok_def)
  show "log_reach parse flt sha limit h p'" using q(2) r(1) log_recover by blast
qed

lemma snapshot_fields:
  "sn_tail (snapshot s now) = st_tail s" "sn_sessions (snapshot s now) = st_sessions s"
  "sn_last_unscoped (snapshot s now) = st_last_unscoped s"
  by (simp_all add: snapshot_def Let_def)

lemma find_holds: "find P xs = Some x \<Longrightarrow> P x"
  by (auto simp: find_Some_iff)

lemma caught_facts:
  assumes "caught parse flt pts clk p s" "st_offset s = length (complete_part (active_bytes p))"
  obtains tes where "map snd tes = events_of parse (complete_part (active_bytes p))" "list_all (\<lambda>te. fst te \<le> clk) tes"
    "s = (replay flt pts tes (start_state (checkpoint_of (pg_checkpoint p))))
        \<lparr> st_offset := st_offset s, st_corrupt := corrupt_rows (picks parse) (complete_part (active_bytes p)) \<rparr>"
proof -
  obtain tes pre rest where c: "active_bytes p = pre @ rest" "ends_line pre" "map snd tes = events_of parse pre"
    "list_all (\<lambda>te. fst te \<le> clk) tes"
    "s = (replay flt pts tes (start_state (checkpoint_of (pg_checkpoint p))))
          \<lparr> st_offset := length pre, st_corrupt := corrupt_rows (picks parse) pre \<rparr>"
    using assms(1) unfolding caught_def by blast
  have "complete_part rest = []" using assms(2) c(2) by (simp add: c(1,5) complete_join)
  then have pre: "complete_part (active_bytes p) = pre" using c(2) by (simp add: c(1) complete_join)
  show thesis by (rule that [of tes]) (use c(3-5) pre in auto)
qed

lemma start_fields:
  "st_cost (start_state ck) = (case ck of None \<Rightarrow> 0 | Some c \<Rightarrow> ck_cost c)"
  "money_of (st_vendor (start_state ck)) v = (case ck of None \<Rightarrow> 0 | Some c \<Rightarrow> money_of (ck_vendor c) v)"
  "st_tail (start_state ck) = []" "st_last_unscoped (start_state ck) = None" "st_sessions (start_state ck) k = None"
  "st_minute_cost (start_state ck) = []"
  by (simp_all add: start_state_def default_slug_def apply_checkpoint_def money_of_def Let_def split: option.split)

lemma unfinished_amounts:
  "amounts parse flt q bs = amounts parse flt q (complete_part bs) + amounts parse flt q (drop (length (complete_part bs)) bs)"
proof -
  obtain t where t: "bs = complete_part bs @ t" using complete_split by blast
  then have "drop (length (complete_part bs)) bs = t" by (metis append_eq_conv_conj)
  then show ?thesis using amounts_join [of "complete_part bs" parse flt q t] t by simp
qed

text \<open>C4. The projection never loses or doubles money: whatever rows were appended by whom, whatever
  rotated, failed, was recovered, repaired or queried, and across server restarts, a query without failing
  calls succeeds and its lifetime totals, with what an unfinished last line holds, are the sums over the
  lines written, in all and per vendor; its cursor is at the end of the last whole line. Two things are
  excluded: that the active file was replaced (by another process' rotation, a rotation whose forced
  catch-up failed or that itself failed, or a repair) and, before any catch-up noticed, grew to the
  cursor again, which the projection cannot tell from new rows (\<^verbatim>\<open>regrown_file_goes_unnoticed\<close>); and, as
  for the files themselves, repairs that do not land and an archive with its predecessor's marker.\<close>

theorem projection_tells_lifetime:
  assumes "proj_reach parse flt sha pts limit h clk p j missed" "clk \<le> now"
    "missed \<longrightarrow> active_size p < st_offset (pj_state j)"
    "catch_up_for_query parse flt sha pts False catch_good now (p, j) = ((p', j'), ok)"
  shows "ok \<and> st_offset (pj_state j') = length (complete_part (active_bytes p'))
    \<and> (\<exists>frags. list_all2 (\<lambda>(line, ok) frag. prefix frag line \<and> (ok \<longrightarrow> frag = line)) h frags
        \<and> (\<forall>q. total_share q (cost_summary (pj_state j') now)
              + amounts parse flt q (drop (st_offset (pj_state j')) (active_bytes p'))
            = sum_list (map (amounts parse flt q) frags)))"
proof -
  note g = query_good [OF assms]
  have ok: ok by (rule g(1))
  note st = g(2,3)
  note c = g(4,5)
  note l = g(6)
  obtain tes where tes: "map snd tes = events_of parse (complete_part (active_bytes p'))"
    "pj_state j' = (replay flt pts tes (start_state (checkpoint_of (pg_checkpoint p'))))
        \<lparr> st_offset := st_offset (pj_state j'), st_corrupt := corrupt_rows (picks parse) (complete_part (active_bytes p')) \<rparr>"
    using caught_facts [OF c(2) st(2)] by blast
  obtain frags where fr: "list_all2 (\<lambda>(line, ok) frag. prefix frag line \<and> (ok \<longrightarrow> frag = line)) h frags"
    "\<forall>q. spent parse flt sha q p' = sum_list (map (amounts parse flt q) frags)"
    using log_reach_spec [OF l] by blast
  have total: "total_share w (cost_summary (pj_state j') now)
      = file_amount w (pg_checkpoint p') + amounts parse flt w (complete_part (active_bytes p'))" for w
    unfolding summary_total
    by (subst (1 2) tes(2)) (simp add: replay_cost start_fields tes(1) amounts_def file_amount_def checkpoint_amount_def
        checkpoint_of_def split: option.split checkpoint_file.split)
  have "spent parse flt sha w p' = file_amount w (pg_checkpoint p') + amounts parse flt w (active_bytes p')" for w
    using c(1) by (simp add: spent_def active_bytes_def split: option.split)
  then have "total_share w (cost_summary (pj_state j') now) + amounts parse flt w (drop (st_offset (pj_state j')) (active_bytes p'))
      = sum_list (map (amounts parse flt w) frags)" for w
    using fr(2) unfinished_amounts [of parse flt w "active_bytes p'"] by (simp add: total st(2))
  then show ?thesis using ok st(2) fr(1) by blast
qed

text \<open>A server that has read a row; another process then rotates the file with a second row; the query
  finds the file shorter than its cursor and tells both.\<close>

lemma ex_projected:
  obtains p j where "proj_reach ex_bill ex_flt ex_sha (\<lambda>_. None) 3 [([7, 10], True), ([8, 10], True)] 0 p j True"
    "active_size p < st_offset (pj_state j)" "pg_archive p \<noteq> None"
proof -
  let ?reach = "proj_reach ex_bill ex_flt ex_sha (\<lambda>_. None) 3"
  obtain p1 r1 where a1: "append_serialized ex_bill ex_flt ex_sha 3 append_good ([7] @ [10]) no_files = (p1, r1)"
    by fastforce
  note evals = append_serialized_def append_good_def no_files_def open_for_append_def rotate_progress_locked_def
    recover_progress_checkpoint_locked_def read_progress_checkpoint_def recover_good_def scan_stream_Content
    write_progress_checkpoint_def Let_def checkpoint_covers_archive_def archive_coverage_of_def ex_sha_def
  have p1: "p1 = no_files \<lparr> pg_active := Some [7, 10] \<rparr>" "r1 = Inr False" using a1 by (auto simp: evals)
  have "marks_differ ex_sha ([7] @ [10]) no_files" by (simp add: marks_differ_def no_files_def)
  from server_append [OF _ this a1, where j = new_projection and clk = 0 and missed = False and h = "[]"]
    server_boot [OF log_start, of ex_bill ex_flt ex_sha "\<lambda>_. None" 3 0]
  have 1: "?reach [([7, 10], True)] 0 p1 new_projection False"
    by (simp add: p1 reported_def replaced_def new_projection_def default_slug_def)
  obtain p2 j2 ok where c: "catch_up_for_query ex_bill ex_flt ex_sha (\<lambda>_. None) False catch_good 0 (p1, new_projection) = ((p2, j2), ok)"
    by (metis prod.collapse)
  from server_query [OF 1 order_refl c] have 2: "?reach [([7, 10], True)] 0 p2 j2 False" by simp
  note g = query_good [OF 1 order_refl _ c]
  have "p2 = p1"
    using query_files [OF c] load_is_noop [of ex_sha p1] by (auto simp: p1 covered_def no_files_def)
  then have j2: "st_loaded (pj_state j2)" "st_offset (pj_state j2) = 2"
    using g(2,3) p1 complete_of_ends [of "[7, 10]"] by (simp_all add: active_bytes_def ends_line_def)
  obtain p3 r3 where a3: "append_serialized ex_bill ex_flt ex_sha 3 append_good ([8] @ [10]) p2 = (p3, r3)"
    by fastforce
  have p3: "r3 = Inr True" "pg_active p3 = Some []" "pg_archive p3 \<noteq> None"
    using a3 \<open>p2 = p1\<close> p1 by (auto simp: evals)
  have "marks_differ ex_sha ([8] @ [10]) p2"
    using \<open>p2 = p1\<close> p1 by (simp add: marks_differ_def no_files_def)
  from server_append [OF 2 this a3]
  have "?reach [([7, 10], True), ([8, 10], True)] 0 p3 j2 True"
    using p3(1) j2(1) by (simp add: reported_def replaced_def)
  then show thesis using that [of p3 j2] p3 j2 by (simp add: active_size_def)
qed

theorem projection_tells_lifetime_witness:
  "\<exists>p j p' j' ok. proj_reach ex_bill ex_flt ex_sha (\<lambda>_. None) 3 [([7, 10], True), ([8, 10], True)] 0 p j True
     \<and> catch_up_for_query ex_bill ex_flt ex_sha (\<lambda>_. None) False catch_good 0 (p, j) = ((p', j'), ok) \<and> ok
     \<and> total_share None (cost_summary (pj_state j') 0)
       + amounts ex_bill ex_flt None (drop (st_offset (pj_state j')) (active_bytes p')) = 15"
proof -
  obtain p j where p: "proj_reach ex_bill ex_flt ex_sha (\<lambda>_. None) 3 [([7, 10], True), ([8, 10], True)] 0 p j True"
    "active_size p < st_offset (pj_state j)" by (rule ex_projected)
  obtain p' j' ok where q: "catch_up_for_query ex_bill ex_flt ex_sha (\<lambda>_. None) False catch_good 0 (p, j) = ((p', j'), ok)"
    by (metis prod.collapse)
  from projection_tells_lifetime [OF p(1) order_refl _ q] p(2)
  have "ok \<and> total_share None (cost_summary (pj_state j') 0)
       + amounts ex_bill ex_flt None (drop (st_offset (pj_state j')) (active_bytes p')) = 15"
    by (auto simp: list_all2_Cons1 ex_amounts is_ascii_whitespace_def)
  then show ?thesis using p(1) q by blast
qed

text \<open>A file that was replaced and has grown to the very size of the cursor is taken for unchanged: the
  query reports success and the projection still tells the rows of the file before, whatever the new one
  holds.\<close>

theorem regrown_file_goes_unnoticed:
  assumes "st_loaded (pj_state j)" "length bs = st_offset (pj_state j)"
  shows "catch_up_for_query parse flt sha pts busy catch_good now (p \<lparr> pg_active := Some bs \<rparr>, j)
    = ((p \<lparr> pg_active := Some bs \<rparr>, j), True)"
  using assms by (simp add: catch_up_for_query_def catch_good_def active_size_def)

text \<open>C32. Between rotations the projection answers for the rows as the file does: after a query without failing
  calls the tail is the last 200 rows of the file, and what a session is doing is what the resolver
  says over the whole file, for every session that has a row of its own and, when the last row belongs
  to no session, for every other one. Excluded, as for C4, is a file that was replaced and has grown to the
  cursor again before any catch-up noticed.\<close>

theorem projection_agrees_with_file:
  assumes "proj_reach parse flt sha pts limit h clk p j missed" "clk \<le> now"
    "missed \<longrightarrow> active_size p < st_offset (pj_state j)"
    "catch_up_for_query parse flt sha pts False catch_good now (p, j) = ((p', j'), ok)"
    "es = events_of parse (complete_part (active_bytes p'))" "k \<noteq> []"
    "find (\<lambda>e. event_sid e = Some k) es \<noteq> None \<or> es = [] \<or> event_sid (last es) = None"
  shows "ok \<and> sn_tail (snapshot (pj_state j') now) = drop (length es - 200) es
    \<and> session_activity pts (snapshot (pj_state j') now) k fallback live now
        = classify_session_activity pts es k fallback live now"
proof -
  note g = query_good [OF assms(1-4)]
  have ok: ok by (rule g(1))
  note st = g(2,3)
  note c = g(5)
  obtain tes where tes: "map snd tes = es"
    "pj_state j' = (replay flt pts tes (start_state (checkpoint_of (pg_checkpoint p'))))
        \<lparr> st_offset := st_offset (pj_state j'), st_corrupt := corrupt_rows (picks parse) (complete_part (active_bytes p')) \<rparr>"
    using caught_facts [OF c st(2)] assms(5) by blast
  let ?s = "replay flt pts tes (start_state (checkpoint_of (pg_checkpoint p')))"
  have same: "st_tail (pj_state j') = st_tail ?s" "st_sessions (pj_state j') = st_sessions ?s"
    "st_last_unscoped (pj_state j') = st_last_unscoped ?s"
    by (subst tes(2), simp)+
  have tail: "st_tail ?s = drop (length es - 200) es"
    using replay_tail [of "start_state (checkpoint_of (pg_checkpoint p'))" "[]" flt pts tes] tes(1)
    by (simp add: start_fields TAIL_CAPACITY_def)
  have own: "Option.bind (st_sessions ?s k) sp_last_event = find (\<lambda>e. event_sid e = Some k) (rev es)"
    by (simp add: replay_session tes(1) start_fields split: option.split)
  have unscoped: "st_last_unscoped ?s = find (\<lambda>e. event_sid e = None) (rev es)"
    by (simp add: replay_unscoped tes(1) start_fields split: option.split)
  let ?sel = "case find (\<lambda>e. event_sid e = Some k) (rev es) of Some e \<Rightarrow> Some e | None \<Rightarrow> find (\<lambda>e. event_sid e = None) (rev es)"
  have sel: "select_event es k = ?sel"
  proof (cases "find (\<lambda>e. event_sid e = Some k) (rev es)")
    case None
    then have "find (\<lambda>e. event_sid e = Some k) es = None" by (simp add: find_None_iff)
    then have "es = [] \<or> event_sid (last es) = None" using assms(7) by simp
    then show ?thesis using None assms(6) by (cases es rule: rev_cases) (simp_all add: select_event_def Let_def)
  qed (simp add: select_event_def Let_def assms(6))
  have one: "select_event (case ?sel of None \<Rightarrow> [] | Some e \<Rightarrow> [e]) k = ?sel"
  proof (cases "find (\<lambda>e. event_sid e = Some k) (rev es)")
    case (Some e)
    then show ?thesis using assms(6) find_holds [OF Some] by (simp add: select_event_def Let_def)
  next
    case None
    show ?thesis
    proof (cases "find (\<lambda>e. event_sid e = None) (rev es)")
      case (Some e)
      then show ?thesis using assms(6) None find_holds [OF Some] by (simp add: select_event_def Let_def)
    qed (simp add: None select_event_def Let_def)
  qed
  have "session_activity pts (snapshot (pj_state j') now) k fallback live now
      = classify_session_activity pts (case ?sel of None \<Rightarrow> [] | Some e \<Rightarrow> [e]) k fallback live now"
    unfolding session_activity_def Let_def snapshot_fields same own unscoped ..
  then have "session_activity pts (snapshot (pj_state j') now) k fallback live now
      = classify_session_activity pts es k fallback live now"
    by (simp add: classify_session_activity_def classify_progress_activity_for_sid_def one sel)
  then show ?thesis by (simp add: snapshot_fields same tail ok)
qed

lemma event_parsed:
  assumes "e \<in> set (events_of parse bs)"
  shows "\<exists>line. parse line = Some e"
proof -
  obtain l n where "row_of (picks parse) l = Some (n, e)"
    using assms by (auto simp: events_of_def kept_rows_def mem_map_filter)
  then have "picks parse (trim_ascii (snd l)) = Keep e"
    by (auto simp: row_of_def Let_def split: if_splits pick.splits)
  then show ?thesis by (auto simp: parse_or_corrupt_def split: option.splits)
qed

lemma ex_unscoped: "e \<in> set (events_of ex_bill bs) \<Longrightarrow> event_sid e = None"
proof -
  assume e: "e \<in> set (events_of ex_bill bs)"
  obtain line where l: "ex_bill line = Some e" using event_parsed [OF e] ..
  then obtain n where "line = [n]"
  proof (cases line)
    case (Cons a r)
    then show thesis using l that by (cases r) (simp_all add: ex_bill_def)
  qed (simp add: ex_bill_def)
  then show "event_sid e = None" using l by (auto simp: ex_bill_def event_sid_def json_str_def json_get_def)
qed

theorem projection_agrees_with_file_witness:
  "\<exists>p j p' j' ok. proj_reach ex_bill ex_flt ex_sha (\<lambda>_. None) 3 [([7, 10], True), ([8, 10], True)] 0 p j True
     \<and> catch_up_for_query ex_bill ex_flt ex_sha (\<lambda>_. None) False catch_good 0 (p, j) = ((p', j'), ok) \<and> ok
     \<and> session_activity (\<lambda>_. None) (snapshot (pj_state j') 0) [1] 7 None 0
       = classify_session_activity (\<lambda>_. None) (events_of ex_bill (complete_part (active_bytes p'))) [1] 7 None 0"
proof -
  obtain p j where p: "proj_reach ex_bill ex_flt ex_sha (\<lambda>_. None) 3 [([7, 10], True), ([8, 10], True)] 0 p j True"
    "active_size p < st_offset (pj_state j)" by (rule ex_projected)
  obtain p' j' ok where q: "catch_up_for_query ex_bill ex_flt ex_sha (\<lambda>_. None) False catch_good 0 (p, j) = ((p', j'), ok)"
    by (metis prod.collapse)
  let ?es = "events_of ex_bill (complete_part (active_bytes p'))"
  note a = projection_agrees_with_file [OF p(1) order_refl _ q refl, of "[1]" 7 None]
  have "?es = [] \<or> event_sid (last ?es) = None" using ex_unscoped by (metis last_in_set)
  then show ?thesis using a p q by blast
qed

section \<open>The reference summary\<close>

lemma zle_div: "0 < (c::int) \<Longrightarrow> (a \<le> b div c) = (a * c \<le> b)"
proof
  assume c: "0 < c" and "a \<le> b div c"
  then have "a * c \<le> (b div c) * c" by (intro mult_right_mono) simp_all
  also have "\<dots> \<le> b" using c pos_mod_sign [of c b] div_mult_mod_eq [of b c] by linarith
  finally show "a * c \<le> b" .
next
  assume "0 < c" "a * c \<le> b"
  then show "a \<le> b div c" using zdiv_mono1 [of "a * c" b c] by simp
qed

lemma minute_le: "(m \<le> minute t) = (m * (60 * 10 ^ 9) \<le> t)"
proof -
  have "minute t = t div (10 ^ 9 * 60)" unfolding minute_def by (rule zdiv_zmult2_eq [symmetric]) simp
  also have "(10 ^ 9 * 60 :: int) = 60 * 10 ^ 9" by simp
  finally show ?thesis by (simp add: zle_div)
qed

text \<open>What the reference counts of a row: nothing unless the row says its kind in the newer field.\<close>

definition kinded :: "json \<Rightarrow> bool" where
  "kinded e \<longleftrightarrow> json_str ''event'' e \<noteq> None"

lemma done_amount:
  "day_share q (count_done flt pts now e t) = day_share q t + (if kinded e \<and> in_window pts now e then amount flt q e else 0)"
  "total_share q (count_done flt pts now e t) = total_share q t + (if kinded e then amount flt q e else 0)"
  by (cases q; auto simp: kinded_def count_done_def amount_def progress_cost_contribution_def event_kind_name_def cost_of_done_def
      day_share_def total_share_def money_add Let_def split: option.splits)+

lemma done_amounts:
  "day_share q (fold (count_done flt pts now) es t)
      = day_share q t + sum_list (map (\<lambda>e. if kinded e \<and> in_window pts now e then amount flt q e else 0) es)"
  "total_share q (fold (count_done flt pts now) es t)
      = total_share q t + sum_list (map (\<lambda>e. if kinded e then amount flt q e else 0) es)"
  by (induction es arbitrary: t) (simp_all add: done_amount)

text \<open>The numbers of counted rows, up to the largest 32-bit number.\<close>

definition finishes :: "json \<Rightarrow> bool" where
  "finishes e \<longleftrightarrow> event_kind_name e = Some (lit ''agent_done'')"

definition counted :: "int \<Rightarrow> (int \<times> cost_bucket) list \<Rightarrow> nat" where
  "counted oldest bs = sum_list (map (\<lambda>b. cb_count (snd b)) (filter (\<lambda>b. oldest \<le> fst b) bs))"

definition up_to_u32 :: "nat \<Rightarrow> nat" where
  "up_to_u32 n = min n (2 ^ 32 - 1)"

lemma saturating: "u32_saturating_add a b = up_to_u32 (a + b)"
  by (simp add: u32_saturating_add_def up_to_u32_def min_def)

lemma up_to_add [simp]: "up_to_u32 (up_to_u32 a + b) = up_to_u32 (a + b)" "up_to_u32 (a + up_to_u32 b) = up_to_u32 (a + b)"
  "up_to_u32 (up_to_u32 a) = up_to_u32 a" "up_to_u32 (Suc (up_to_u32 a)) = up_to_u32 (Suc a)"
  by (simp_all add: up_to_u32_def)

lemma up_to_cong: "up_to_u32 a = up_to_u32 b \<Longrightarrow> up_to_u32 (a + c) = up_to_u32 (b + c)"
  by (metis up_to_add(1))

lemma bump_counted:
  assumes "cb_count d = 0" "\<And>b. cb_count (f b) = u32_saturating_add (cb_count b) 1"
  shows "up_to_u32 (counted oldest (bump k d f bs)) = up_to_u32 (counted oldest bs + (if oldest \<le> k then 1 else 0))"
proof (induction bs)
  case Nil
  then show ?case by (simp add: counted_def bump_def assms saturating)
next
  case (Cons b bs)
  have c: "counted oldest (x # xs) = (if oldest \<le> fst x then cb_count (snd x) else 0) + counted oldest xs" for x xs
    by (simp add: counted_def)
  show ?case
  proof (cases "fst b = k")
    case True
    have "up_to_u32 (up_to_u32 (cb_count (snd b) + 1) + counted oldest bs) = up_to_u32 (cb_count (snd b) + 1 + counted oldest bs)" by simp
    then show ?thesis using True by (cases b) (simp add: bump_def c assms saturating)
  next
    case False
    then have "bump k d f (b # bs) = b # bump k d f bs" by (cases b) (simp add: bump_def)
    then show ?thesis using up_to_cong [OF Cons.IH, of "if oldest \<le> fst b then cb_count (snd b) else 0"]
      by (simp add: c add.commute add.left_commute)
  qed
qed

lemma counted_prune: "o1 \<le> oldest \<Longrightarrow> counted oldest (filter (\<lambda>b. o1 \<le> fst b) bs) = counted oldest bs"
  by (induction bs) (auto simp: counted_def)

lemma session_turn_minutes:
  "st_minute_cost (fold_event flt pts now e s) = st_minute_cost (case progress_cost_contribution flt e of
      None \<Rightarrow> s | Some k \<Rightarrow> fold_cost pts k e now s)"
  by (auto simp: fold_event_def fold_cost_def Let_def split: option.split)

lemma fold_event_counted:
  assumes "now \<le> later"
  shows "up_to_u32 (counted (minute later - MINUTES_24H) (st_minute_cost (fold_event flt pts now e s)))
    = up_to_u32 (counted (minute later - MINUTES_24H) (st_minute_cost s)
      + (if finishes e \<and> minute later - MINUTES_24H \<le> row_minute pts (now, e) then 1 else 0))"
proof -
  have le: "minute now - MINUTES_24H \<le> minute later - MINUTES_24H" using minute_mono [OF assms] by simp
  let ?f = "\<lambda>k b. \<lparr> cb_total = cb_total b + cc_cost k, cb_count = u32_saturating_add (cb_count b) 1,
                 cb_vendor = add_money_opt (cc_vendor k) (cc_cost k) (cb_vendor b) \<rparr>"
  have d: "cb_count empty_bucket = 0" by (simp add: empty_bucket_def)
  have "up_to_u32 (counted (minute later - MINUTES_24H) (st_minute_cost (fold_cost pts k e now t)))
      = up_to_u32 (counted (minute later - MINUTES_24H) (st_minute_cost t)
        + (if minute later - MINUTES_24H \<le> row_minute pts (now, e) then 1 else 0))" for k t
    using le bump_counted [where f = "?f k" and d = empty_bucket, OF d]
    by (auto simp: fold_cost_def Let_def counted_prune [OF le] row_minute_def)
  then show ?thesis
    by (auto simp: session_turn_minutes finishes_def progress_cost_contribution_def)
qed

lemma replay_counted:
  assumes "list_all (\<lambda>te. fst te \<le> later) tes"
  shows "up_to_u32 (counted (minute later - MINUTES_24H) (st_minute_cost (replay flt pts tes s)))
    = up_to_u32 (counted (minute later - MINUTES_24H) (st_minute_cost s)
      + length (filter (\<lambda>te. finishes (snd te) \<and> minute later - MINUTES_24H \<le> row_minute pts te) tes))"
  using assms
proof (induction tes arbitrary: s)
  case (Cons te tes)
  obtain now e where te: "te = (now, e)" by (cases te) auto
  have "now \<le> later" using Cons.prems by (simp add: te)
  from up_to_cong [OF fold_event_counted [OF this, of flt pts e s],
      of "length (filter (\<lambda>te. finishes (snd te) \<and> minute later - MINUTES_24H \<le> row_minute pts te) tes)"] Cons
  show ?case by (simp add: te add.assoc)
qed simp

lemma summary_counted: "ct_count_24h (cost_summary s now) = up_to_u32 (counted (minute now - MINUTES_24H) (st_minute_cost s))"
proof -
  have "ct_count_24h (fold (\<lambda>b t. t \<lparr> ct_24h := ct_24h t + cb_total b,
                      ct_count_24h := u32_saturating_add (ct_count_24h t) (cb_count b),
                      ct_vendor_24h := add_all_money (cb_vendor b) (ct_vendor_24h t) \<rparr>) bs t)
      = up_to_u32 (ct_count_24h t + sum_list (map cb_count bs))" if "up_to_u32 (ct_count_24h t) = ct_count_24h t" for bs t
    using that by (induction bs arbitrary: t) (auto simp: saturating add.assoc)
  note keep = this
  have "up_to_u32 0 = 0" by (simp add: up_to_u32_def)
  then show ?thesis by (simp add: cost_summary_def counted_def Let_def comp_def keep)
qed

lemma done_counted:
  assumes "ct_count_24h t = up_to_u32 n"
  shows "ct_count_24h (fold (count_done flt pts now) es t)
    = up_to_u32 (n + length (filter (\<lambda>e. kinded e \<and> finishes e \<and> in_window pts now e) es))"
  using assms
proof (induction es arbitrary: t n)
  case (Cons e es)
  have k: "(json_str ''event'' e = Some (lit ''agent_done'')) = (kinded e \<and> finishes e)"
    by (auto simp: kinded_def finishes_def event_kind_name_def)
  have "ct_count_24h (count_done flt pts now e t) = up_to_u32 (n + (if kinded e \<and> finishes e \<and> in_window pts now e then 1 else 0))"
    using Cons.prems by (auto simp: count_done_def saturating Let_def k)
  from Cons.IH [OF this] show ?case by simp
qed simp

text \<open>A row that was read a day or more before the window's minute.\<close>

definition read_before :: "int \<Rightarrow> int \<times> json \<Rightarrow> bool" where
  "read_before now te \<longleftrightarrow> fst te < minute now * (60 * 10 ^ 9) - day"

lemma window_minute:
  "(minute now - MINUTES_24H \<le> row_minute pts te)
     = (in_window pts (minute now * (60 * 10 ^ 9)) (snd te) \<and> \<not> read_before now te)"
proof -
  have "(minute now - MINUTES_24H) * (60 * 10 ^ 9) = minute now * (60 * 10 ^ 9) - day"
    by (simp add: MINUTES_24H_def day_def hours_def algebra_simps)
  then have m: "(minute now - MINUTES_24H \<le> minute t) = (minute now * (60 * 10 ^ 9) - day \<le> t)" for t
    by (simp only: minute_le)
  show ?thesis
    by (cases "event_timestamp pts (snd te)")
      (auto simp: row_minute_def bucket_minute_def in_window_def read_before_def m)
qed

text \<open>C33. The rolling day kept in minute buckets against the whole-file summary at the start of the same minute,
  for any rows, read at any times up to now: in all and per vendor, the projection's 24-hour figure and the
  reference's are the same but for two sorts of rows. Rows the reference still counts though they were read more
  than a day before (rows without a time, which it counts for ever, or dated later than they were read) have left
  the projection; rows that say their kind only in the older field are counted by the projection and not by the
  reference. The numbers of counted rows are those of the same rows, up to the largest 32-bit number. The
  projection's totals are the checkpoint's, the reference's and those of the older field's rows together.\<close>

theorem rolling_day_matches_reference:
  fixes now :: int
  defines "start \<equiv> minute now * (60 * 10 ^ 9)"
  assumes "list_all (\<lambda>te. fst te \<le> now) tes"
  shows "day_share q (cost_summary (replay flt pts tes (start_state ck)) now)
        + sum_list (map (\<lambda>te. amount flt q (snd te))
            (filter (\<lambda>te. kinded (snd te) \<and> in_window pts start (snd te) \<and> read_before now te) tes))
      = day_share q (compute_cost_summary flt pts probe job_cost (map snd tes) start)
        + sum_list (map (\<lambda>te. amount flt q (snd te))
            (filter (\<lambda>te. \<not> kinded (snd te) \<and> in_window pts start (snd te) \<and> \<not> read_before now te) tes))
    \<and> ct_count_24h (cost_summary (replay flt pts tes (start_state ck)) now)
      = up_to_u32 (length (filter (\<lambda>te. finishes (snd te) \<and> in_window pts start (snd te) \<and> \<not> read_before now te) tes))
    \<and> ct_count_24h (compute_cost_summary flt pts probe job_cost (map snd tes) start)
      = up_to_u32 (length (filter (\<lambda>te. finishes (snd te) \<and> in_window pts start (snd te) \<and> kinded (snd te)) tes))
    \<and> total_share q (cost_summary (replay flt pts tes (start_state ck)) now)
      = (case ck of None \<Rightarrow> 0 | Some c \<Rightarrow> checkpoint_amount q c)
        + total_share q (compute_cost_summary flt pts probe job_cost (map snd tes) start)
        + sum_list (map (\<lambda>te. amount flt q (snd te)) (filter (\<lambda>te. \<not> kinded (snd te)) tes))"
proof -
  have day1: "day_share q (cost_summary (replay flt pts tes (start_state ck)) now)
      = sum_list (map (\<lambda>te. if in_window pts start (snd te) \<and> \<not> read_before now te then amount flt q (snd te) else 0) tes)"
    by (simp add: summary_day replay_window [OF assms(2)] window_minute start_def) (simp add: start_fields window_sum_def)
  have day2: "day_share q (compute_cost_summary flt pts probe job_cost (map snd tes) start)
      = sum_list (map (\<lambda>te. if kinded (snd te) \<and> in_window pts start (snd te) then amount flt q (snd te) else 0) tes)"
    using done_amounts(1) [of q flt pts start]
    by (cases q) (simp_all add: compute_cost_summary_def day_share_def money_of_def Let_def comp_def)
  have days: "sum_list (map (\<lambda>te. if W te \<and> \<not> R te then f te else 0) xs) + sum_list (map f (filter (\<lambda>te. K te \<and> W te \<and> R te) xs))
      = sum_list (map (\<lambda>te. if K te \<and> W te then f te else 0) xs) + sum_list (map f (filter (\<lambda>te. \<not> K te \<and> W te \<and> \<not> R te) xs))"
    for W R K :: "int \<times> json \<Rightarrow> bool" and f :: "int \<times> json \<Rightarrow> rat" and xs
    by (induction xs) auto
  have count1: "ct_count_24h (cost_summary (replay flt pts tes (start_state ck)) now)
      = up_to_u32 (length (filter (\<lambda>te. finishes (snd te) \<and> in_window pts start (snd te) \<and> \<not> read_before now te) tes))"
    by (simp add: summary_counted replay_counted [OF assms(2)] window_minute start_def) (simp add: start_fields counted_def)
  have "ct_count_24h (fold (count_done flt pts start) (map snd tes)
            \<lparr> ct_24h = 0, ct_active = 0, ct_total = 0, ct_count_24h = 0, ct_count_active = 0,
              ct_vendor_24h = (\<lambda>_. None), ct_vendor_total = (\<lambda>_. None) \<rparr>)
      = up_to_u32 (0 + length (filter (\<lambda>e. kinded e \<and> finishes e \<and> in_window pts start e) (map snd tes)))"
    by (rule done_counted) (simp add: up_to_u32_def)
  then have count2: "ct_count_24h (compute_cost_summary flt pts probe job_cost (map snd tes) start)
      = up_to_u32 (length (filter (\<lambda>te. finishes (snd te) \<and> in_window pts start (snd te) \<and> kinded (snd te)) tes))"
    by (simp add: compute_cost_summary_def Let_def filter_map comp_def conj_commute conj_left_commute)
  have tot1: "total_share q (cost_summary (replay flt pts tes (start_state ck)) now)
      = (case ck of None \<Rightarrow> 0 | Some c \<Rightarrow> checkpoint_amount q c) + sum_list (map (\<lambda>te. amount flt q (snd te)) tes)"
    unfolding summary_total by (simp add: replay_cost start_fields checkpoint_amount_def comp_def split: option.split)
  have tot2: "total_share q (compute_cost_summary flt pts probe job_cost (map snd tes) start)
      = sum_list (map (\<lambda>te. if kinded (snd te) then amount flt q (snd te) else 0) tes)"
    using done_amounts(2) [of q flt pts start]
    by (cases q) (simp_all add: compute_cost_summary_def total_share_def money_of_def Let_def comp_def)
  have tots: "sum_list (map f xs) = sum_list (map (\<lambda>te. if K te then f te else 0) xs) + sum_list (map f (filter (\<lambda>te. \<not> K te) xs))"
    for K :: "int \<times> json \<Rightarrow> bool" and f :: "int \<times> json \<Rightarrow> rat" and xs
    by (induction xs) auto
  show ?thesis
    using days [where W = "\<lambda>te. in_window pts start (snd te)" and R = "read_before now" and K = "\<lambda>te. kinded (snd te)"
        and f = "\<lambda>te. amount flt q (snd te)" and xs = tes]
      tots [where K = "\<lambda>te. kinded (snd te)" and f = "\<lambda>te. amount flt q (snd te)" and xs = tes]
    by (simp add: day1 day2 count1 count2 tot1 tot2)
qed

text \<open>At a concrete pair of rows, one dated and one not, both read at time 9 and both counted by the two summaries.\<close>

theorem rolling_day_matches_reference_witness:
  "\<exists>e d. day_share None (cost_summary (replay ex_flt (\<lambda>_. Some 5) [(9, e), (9, d)] (start_state None)) 100)
     = day_share None (compute_cost_summary ex_flt (\<lambda>_. Some 5) (\<lambda>_. JobRunning) ex_flt [e, d] (minute 100 * (60 * 10 ^ 9)))
     \<and> ct_count_24h (cost_summary (replay ex_flt (\<lambda>_. Some 5) [(9, e), (9, d)] (start_state None)) 100) = 2
     \<and> amount ex_flt None e = 3 \<and> event_timestamp (\<lambda>_. Some 5) d = None"
proof -
  let ?e = "JObj [(lit ''event'', JStr (lit ''agent_done'')), (lit ''cost_usd'', JInt 3), (lit ''ts'', JStr (lit ''t''))]"
  let ?d = "JObj [(lit ''event'', JStr (lit ''agent_done'')), (lit ''cost_usd'', JInt 3)]"
  have h: "list_all (\<lambda>te. fst te \<le> 100) [(9::int, ?e), (9, ?d)]" by simp
  have "amount ex_flt None ?e = 3" "kinded ?e" "kinded ?d" "finishes ?e" "finishes ?d"
    "event_timestamp (\<lambda>_. Some 5) ?e = Some 5" "event_timestamp (\<lambda>_. Some 5) ?d = None"
    "\<not> read_before 100 (9, ?e)" "\<not> read_before 100 (9, ?d)"
    by (simp_all add: amount_def progress_cost_contribution_def event_kind_name_def json_str_def json_get_def as_f64_def
        kinded_def finishes_def event_timestamp_def read_before_def minute_def day_def hours_def)
  moreover from this have "in_window (\<lambda>_. Some 5) (minute 100 * (60 * 10 ^ 9)) ?e" "in_window (\<lambda>_. Some 5) (minute 100 * (60 * 10 ^ 9)) ?d"
    by (simp_all add: in_window_def minute_def day_def hours_def)
  ultimately show ?thesis
    using rolling_day_matches_reference [OF h, of None ex_flt "\<lambda>_. Some 5" None "\<lambda>_. JobRunning" ex_flt]
    by (intro exI [of _ ?e] exI [of _ ?d]) (simp add: up_to_u32_def)
qed

section \<open>Where the summaries part\<close>

text \<open>The summary of the command line forgets what was rotated away: right after an append that rotates the file
  its lifetime total is zero, whatever has been spent, while checkpoint and archive still hold all of it.\<close>

theorem file_summary_forgets_rotated_rows:
  assumes "append_serialized parse flt sha limit io (raw @ [10]) p = (p', Inr True)" "log_ok sha p" "marks_differ sha (raw @ [10]) p"
  shows "ct_total (file_cost_summary parse flt pts probe job_cost True p' now) = 0
    \<and> spent parse flt sha None p' = spent parse flt sha None p + amounts parse flt None (raw @ [10])"
proof -
  have act: "pg_active p' = Some []"
    using assms(1) by (auto simp: append_serialized_def rotate_progress_locked_def Let_def
        split: if_splits option.splits prod.splits sum.splits bool.splits)
  have "ct_total (file_cost_summary parse flt pts probe job_cost True p' now) = 0"
    by (simp add: file_cost_summary_def active_view_def act scan_stream_Content kept_rows_def List.map_filter_simps
        compute_cost_summary_def Let_def)
  moreover have "spent parse flt sha None p' = spent parse flt sha None p + amounts parse flt None (raw @ [10])"
    using append_serialized_spec [OF assms] by auto
  ultimately show ?thesis by simp
qed

theorem file_summary_forgets_rotated_rows_witness:
  "\<exists>p. ct_total (file_cost_summary ex_bill ex_flt (\<lambda>_. None) (\<lambda>_. JobRunning) ex_flt True p 0) = 0
     \<and> spent ex_bill ex_flt ex_sha None p = 7"
proof -
  obtain p r where a: "append_serialized ex_bill ex_flt ex_sha 0 append_good ([7] @ [10]) no_files = (p, r)" by fastforce
  have "r = Inr True"
    using a by (auto simp: append_serialized_def append_good_def no_files_def open_for_append_def rotate_progress_locked_def
      recover_progress_checkpoint_locked_def read_progress_checkpoint_def recover_good_def scan_stream_Content
      write_progress_checkpoint_def Let_def)
  then have a: "append_serialized ex_bill ex_flt ex_sha 0 append_good ([7] @ [10]) no_files = (p, Inr True)" using a by simp
  have l: "log_ok ex_sha no_files" "marks_differ ex_sha ([7] @ [10]) no_files" "spent ex_bill ex_flt ex_sha None no_files = 0"
    by (simp_all add: log_ok_def no_files_def marks_differ_def spent_def covered_def file_amount_def)
  show ?thesis
    using file_summary_forgets_rotated_rows [OF a l(1,2), of "\<lambda>_. None" "\<lambda>_. JobRunning" ex_flt 0] l(3)
    by (intro exI [of _ p]) (simp add: ex_amounts is_ascii_whitespace_def)
qed

text \<open>The two resolvers of a session's activity can disagree: for a session without rows, the projection
  judges by the newest row that belongs to no session, however old, where the file's resolver looks at
  the last row alone and, finding another session's, judges by nothing.\<close>

theorem resolvers_disagree:
  assumes "map snd tes = xs @ e # ys" "event_sid e = None" "ys \<noteq> []" "k \<noteq> []"
    "list_all (\<lambda>y. event_sid y \<notin> {None, Some k}) ys" "list_all (\<lambda>x. event_sid x \<noteq> Some k) xs"
  shows "session_activity pts (snapshot (replay flt pts tes (start_state ck)) now) k fallback None now
      = classify_progress_activity pts (Some e) fallback now
    \<and> classify_session_activity pts (map snd tes) k fallback None now = classify_progress_activity pts None fallback now"
proof -
  have own: "find (\<lambda>x. event_sid x = Some k) (rev (xs @ e # ys)) = None"
    using assms(2,5,6) by (auto simp: find_None_iff list_all_iff)
  have "find (\<lambda>x. event_sid x = None) (rev ys) = None" using assms(5) by (auto simp: find_None_iff list_all_iff)
  then have un: "find (\<lambda>x. event_sid x = None) (rev (xs @ e # ys)) = Some e" using assms(2) by (simp add: find_append)
  let ?s = "replay flt pts tes (start_state ck)"
  have "Option.bind (st_sessions ?s k) sp_last_event = None" "st_last_unscoped ?s = Some e"
    by (simp_all only: replay_session replay_unscoped assms(1) own un option.case start_fields bind.simps)
  then have "session_activity pts (snapshot ?s now) k fallback None now = classify_session_activity pts [e] k fallback None now"
    by (simp add: session_activity_def snapshot_fields)
  moreover have "select_event [e] k = Some e" using assms(2,4) by (simp add: select_event_def)
  moreover have "select_event (xs @ e # ys) k = None"
  proof -
    have "event_sid (last ys) \<noteq> None" using assms(3,5) by (auto simp: list_all_iff)
    then show ?thesis using own assms(3,4) by (cases ys rule: rev_cases) (simp_all add: select_event_def Let_def)
  qed
  ultimately show ?thesis
    by (simp add: classify_session_activity_def classify_progress_activity_for_sid_def assms(1))
qed

theorem resolvers_disagree_witness:
  "\<exists>tes. ps_activity (pa_status (session_activity (\<lambda>_. None) (snapshot (replay ex_flt (\<lambda>_. None) tes (start_state None)) 0) [1] 0 None 0))
      = ''working''
    \<and> ps_activity (pa_status (classify_session_activity (\<lambda>_. None) (map snd tes) [1] 0 None 0)) = ''idle''"
proof -
  let ?e = "JObj [(lit ''event'', JStr (lit ''PreToolUse''))]"
  let ?y = "JObj [(lit ''event'', JStr (lit ''Stop'')), (lit ''sid'', JStr [2])]"
  have h: "map snd [(0, ?e), (0, ?y)] = [] @ ?e # [?y]" "event_sid ?e = None" "[?y] \<noteq> []" "[1::nat] \<noteq> []"
    "list_all (\<lambda>y. event_sid y \<notin> {None, Some [1]}) [?y]" "list_all (\<lambda>x. event_sid x \<noteq> Some [1]) []"
    by (simp_all add: event_sid_def json_str_def json_get_def)
  have act: "ps_activity (pa_status (classify_progress_activity (\<lambda>_. None) (Some ?e) 0 0)) = ''working''"
    "ps_activity (pa_status (classify_progress_activity (\<lambda>_. None) None 0 0)) = ''idle''"
    by code_simp+
  show ?thesis
    using resolvers_disagree [OF h, of "\<lambda>_. None" ex_flt None 0 0] act by (intro exI [of _ "[(0, ?e), (0, ?y)]"]) simp
qed

end
