(* ===== verification/Turn_Gating.thy ===== *)
theory Turn_Gating
  imports Jsonl_Journal Scheduled_Gateway
begin

text \<open>
  The two folds the daemon keeps in a \<^verbatim>\<open>FoldCache\<close>: what a transcript says about the gating of a session's turns
  (\<^verbatim>\<open>ccteam-harness/src/execution/claude_stream_json/turn_gating.rs\<close>), whose query prunes what can count no
  more and whose first read is bounded, and the digest of a session's turns
  (\<^verbatim>\<open>ccteam-harness/src/execution/turns_mirror.rs\<close>). Both keep the contract of \<^verbatim>\<open>tracked_fold\<close>, so what the cache answers is
  what the file says.
\<close>

section \<open>The gating of turns\<close>

text \<open>\<^verbatim>\<open>str::contains\<close>.\<close>

fun has_text :: "utext \<Rightarrow> utext \<Rightarrow> bool" where
  "has_text p [] \<longleftrightarrow> p = []"
| "has_text p (c # cs) \<longleftrightarrow> take (length p) (c # cs) = p \<or> has_text p cs"

definition STOP_HOOK_RECENT_WINDOW :: int where
  "STOP_HOOK_RECENT_WINDOW = one_hour"

definition STOP_HOOK_MARKER :: utext where
  "STOP_HOOK_MARKER = lit ''Stop hook feedback''"

definition FIRST_READ_MAX_BYTES :: nat where
  "FIRST_READ_MAX_BYTES = 8 * 1024 * 1024"

definition MAX_CACHED_TRANSCRIPTS :: nat where
  "MAX_CACHED_TRANSCRIPTS = 256"

record goal_status =
  gl_condition :: utext
  gl_met :: bool
  gl_state :: "utext option"

record turn_gating =
  tn_goal :: "goal_status option"
  tn_blocks :: nat

record gating_scan =
  tg_goal :: "goal_status option option"
  tg_refusals :: "int option list"

definition no_gating :: gating_scan where
  "no_gating = \<lparr> tg_goal = None, tg_refusals = [] \<rparr>"

text \<open>The goal a record sets, if it is one: none for an empty condition.\<close>

definition goal_of_record :: "json \<Rightarrow> goal_status option option" where
  "goal_of_record v = (case json_get ''attachment'' v of
       None \<Rightarrow> None
     | Some att \<Rightarrow>
         (if json_str ''type'' att = Some (lit ''goal_status'')
          then (let condition = (case json_str ''condition'' att of Some c \<Rightarrow> c | None \<Rightarrow> []);
                    met = (case json_bool ''met'' att of Some b \<Rightarrow> b | None \<Rightarrow> False) in
                Some (if trim condition = [] then None
                      else Some \<lparr> gl_condition = condition, gl_met = met, gl_state = None \<rparr>))
          else None))"

text \<open>The refusal a record is, with its time if it can be read.\<close>

definition refusal_of_record :: "(utext \<Rightarrow> int option) \<Rightarrow> json \<Rightarrow> int option option" where
  "refusal_of_record pts v =
     (let content = (case Option.bind (json_get ''message'' v) (json_str ''content'') of Some t \<Rightarrow> t | None \<Rightarrow> []) in
      if strip_prefix STOP_HOOK_MARKER (trim_start content) \<noteq> None
      then Some (Option.bind (json_str ''timestamp'' v) pts) else None)"

text \<open>\<^verbatim>\<open>ingest\<close> and \<^verbatim>\<open>ingest_line\<close>; \<open>lossy\<close> is \<^verbatim>\<open>from_utf8_lossy\<close>, \<open>parse\<close> the JSON parser, \<open>pts\<close> the one of times.\<close>

definition ingest_gating ::
  "(bytes \<Rightarrow> utext) \<Rightarrow> (utext \<Rightarrow> json option) \<Rightarrow> (utext \<Rightarrow> int option) \<Rightarrow> bytes \<Rightarrow> gating_scan \<Rightarrow> gating_scan" where
  "ingest_gating lossy parse pts raw f =
     (let line = lossy raw; is_goal = has_text (lit ''goal_status'') line; is_refusal = has_text STOP_HOOK_MARKER line in
      if \<not> is_goal \<and> \<not> is_refusal then f
      else (case parse line of
          None \<Rightarrow> f
        | Some v \<Rightarrow>
            (let f1 = (if is_goal then (case goal_of_record v of Some g \<Rightarrow> f \<lparr> tg_goal := Some g \<rparr> | None \<Rightarrow> f) else f) in
             if is_refusal
             then (case refusal_of_record pts v of Some at \<Rightarrow> f1 \<lparr> tg_refusals := tg_refusals f1 @ [at] \<rparr> | None \<Rightarrow> f1)
             else f1)))"

definition gating_goal :: "gating_scan \<Rightarrow> goal_status option" where
  "gating_goal f = (case tg_goal f of Some g \<Rightarrow> g | None \<Rightarrow> None)"

text \<open>The refusals after the last one dated before the floor.\<close>

definition recent_from :: "int \<Rightarrow> int option list \<Rightarrow> int option list" where
  "recent_from limit ats = rev (takeWhile (\<lambda>at. case at of Some t \<Rightarrow> limit \<le> t | None \<Rightarrow> True) (rev ats))"

definition recent_blocks :: "int \<Rightarrow> gating_scan \<Rightarrow> gating_scan \<times> nat" where
  "recent_blocks now f =
     (let kept = recent_from (now - STOP_HOOK_RECENT_WINDOW) (tg_refusals f) in
      (f \<lparr> tg_refusals := kept \<rparr>, min (length kept) (2 ^ 32 - 1)))"

definition gating_query :: "int \<Rightarrow> gating_scan \<Rightarrow> gating_scan \<times> turn_gating" where
  "gating_query now f =
     (let goal = gating_goal f; (f', n) = recent_blocks now f in (f', \<lparr> tn_goal = goal, tn_blocks = n \<rparr>))"

text \<open>\<^verbatim>\<open>read_path\<close>, for a transcript as \<^verbatim>\<open>fold_read\<close> sees a file.\<close>

definition read_gating ::
  "(bytes \<Rightarrow> utext) \<Rightarrow> (utext \<Rightarrow> json option) \<Rightarrow> (utext \<Rightarrow> int option) \<Rightarrow> int \<Rightarrow> 'p \<Rightarrow> fold_view \<Rightarrow> nat
    \<Rightarrow> ('p \<times> gating_scan fold_entry) list \<Rightarrow> ('p \<times> gating_scan fold_entry) list \<times> turn_gating option" where
  "read_gating lossy parse pts now path file inst es =
     fold_read (ingest_gating lossy parse pts) no_gating (gating_query now) (Some FIRST_READ_MAX_BYTES)
       MAX_CACHED_TRANSCRIPTS path file inst es"

text \<open>Refusals that a query drops can count no more.\<close>

definition gating_tracks :: "int \<Rightarrow> gating_scan \<Rightarrow> gating_scan \<Rightarrow> bool" where
  "gating_tracks t f g \<longleftrightarrow> tg_goal f = tg_goal g
     \<and> recent_from (t - STOP_HOOK_RECENT_WINDOW) (tg_refusals f) = recent_from (t - STOP_HOOK_RECENT_WINDOW) (tg_refusals g)"

lemma takeWhile_weaker: "(\<And>x. P x \<Longrightarrow> Q x) \<Longrightarrow> takeWhile P (takeWhile Q xs) = takeWhile P xs"
  by (induction xs) auto

lemma recent_again: "a \<le> b \<Longrightarrow> recent_from b (recent_from a ats) = recent_from b ats"
  unfolding recent_from_def rev_rev_ident by (subst takeWhile_weaker) (auto split: option.splits)

lemma recent_snoc:
  "recent_from limit (ats @ [x]) = (if (case x of Some t \<Rightarrow> limit \<le> t | None \<Rightarrow> True) then recent_from limit ats @ [x] else [])"
  by (simp add: recent_from_def)

interpretation gating: tracked_fold "ingest_gating lossy parse pts" gating_query gating_tracks for lossy parse pts
proof
  show "gating_tracks t f f" for t f by (simp add: gating_tracks_def)
  show "gating_tracks now f g" if "gating_tracks t f g" "t \<le> now" for t now f g
    using that recent_again [of "t - STOP_HOOK_RECENT_WINDOW" "now - STOP_HOOK_RECENT_WINDOW"]
    unfolding gating_tracks_def by (metis diff_right_mono)
  show "gating_tracks t (ingest_gating lossy parse pts l f) (ingest_gating lossy parse pts l g)" if "gating_tracks t f g" for t l f g
    using that by (auto simp: gating_tracks_def ingest_gating_def recent_snoc Let_def split: option.splits)
  show "gating_tracks t (fst (gating_query t f)) g \<and> snd (gating_query t f) = snd (gating_query t g)" if "gating_tracks t f g" for t f g
    using that by (simp add: gating_tracks_def gating_query_def recent_blocks_def gating_goal_def recent_again Let_def)
qed

text \<open>What the daemon is told about a transcript, after any appends to transcripts and any questions asked of them,
  at times that do not go back: what its complete lines say, from a point no later than eight mebibytes before
  its end.\<close>

lemma gating_of_transcript:
  assumes "sorted (ask_times ss @ [now])"
    "fold_steps (ingest_gating lossy parse pts) (\<lambda>_. no_gating) gating_query (Some FIRST_READ_MAX_BYTES)
       MAX_CACHED_TRANSCRIPTS ids ss (\<lambda>_. [], []) = (files, es)"
  shows "\<exists>n \<le> length (files p) - FIRST_READ_MAX_BYTES.
     snd (read_gating lossy parse pts now p (FoldFile (ids p) (files p) True) inst es)
       = Some (snd (gating_query now (fold (ingest_gating lossy parse pts)
           (events_of Some (complete_part (drop n (files p)))) no_gating)))"
  using gating.cached_answer [OF assms, of p inst] by (auto simp: begins_at_def read_gating_def)

text \<open>A cleared goal stays cleared: the last record of a goal decides, whatever was recorded before.\<close>

lemma last_goal_decides:
  assumes "parse (lossy raw) = Some v" "has_text (lit ''goal_status'') (lossy raw)" "goal_of_record v = Some g"
  shows "gating_goal (ingest_gating lossy parse pts raw f) = g"
  using assms by (simp add: ingest_gating_def gating_goal_def Let_def split: option.split)

section \<open>The digest of a session's turns\<close>

text \<open>The fields of a row of \<^verbatim>\<open>turns.jsonl\<close> that the digest reads.\<close>

record digest_row =
  dg_turn_id :: utext
  dg_user :: utext
  dg_has_status :: bool

record turns_digest =
  td_user_turns :: nat
  td_status_turns :: nat
  td_max_answer_seq :: nat
  td_last_turn_id :: "utext option"

definition no_turns :: turns_digest where
  "no_turns = \<lparr> td_user_turns = 0, td_status_turns = 0, td_max_answer_seq = 0, td_last_turn_id = None \<rparr>"

record digest_fold =
  df_prefix :: utext
  df_digest :: turns_digest

definition MAX_CACHED_DIGESTS :: nat where
  "MAX_CACHED_DIGESTS = 512"

definition digest_start :: "sid \<Rightarrow> digest_fold" where
  "digest_start s = \<lparr> df_prefix = s @ lit ''-'', df_digest = no_turns \<rparr>"

definition ingest_digest :: "(bytes \<Rightarrow> digest_row option) \<Rightarrow> bytes \<Rightarrow> digest_fold \<Rightarrow> digest_fold" where
  "ingest_digest parse raw f = (case parse raw of
       None \<Rightarrow> f
     | Some turn \<Rightarrow>
         (let d = df_digest f;
              d1 = (if dg_user turn \<noteq> [] then d \<lparr> td_user_turns := td_user_turns d + 1 \<rparr> else d);
              d2 = (if dg_has_status turn then d1 \<lparr> td_status_turns := td_status_turns d1 + 1 \<rparr> else d1);
              d3 = (case Option.bind (strip_prefix (df_prefix f) (dg_turn_id turn)) parse_u64 of
                  Some n \<Rightarrow> d2 \<lparr> td_max_answer_seq := max (td_max_answer_seq d2) n \<rparr>
                | None \<Rightarrow> d2) in
          f \<lparr> df_digest := d3 \<lparr> td_last_turn_id := Some (dg_turn_id turn) \<rparr> \<rparr>))"

definition digest_query :: "int \<Rightarrow> digest_fold \<Rightarrow> digest_fold \<times> turns_digest" where
  "digest_query now f = (f, df_digest f)"

text \<open>\<^verbatim>\<open>digest\<close>: a session without the file has had no turns; one whose file cannot be read is unknown.\<close>

definition read_digest ::
  "(bytes \<Rightarrow> digest_row option) \<Rightarrow> sid \<Rightarrow> fold_view \<Rightarrow> nat
    \<Rightarrow> (sid \<times> digest_fold fold_entry) list \<Rightarrow> (sid \<times> digest_fold fold_entry) list \<times> turns_digest option" where
  "read_digest parse s file inst es =
     (let (es', answer) = fold_read (ingest_digest parse) (digest_start s) (digest_query 0) None MAX_CACHED_DIGESTS s file inst es in
      (es', case answer of Some d \<Rightarrow> Some d | None \<Rightarrow> if file = FoldGone then Some no_turns else None))"

interpretation digest: tracked_fold "ingest_digest parse" digest_query "\<lambda>_ f g. f = g" for parse
  by unfold_locales (simp_all add: digest_query_def)

text \<open>The digest the daemon is told is that of all complete rows of the session's file.\<close>

lemma digest_of_turns:
  assumes "fold_steps (ingest_digest parse) digest_start digest_query None MAX_CACHED_DIGESTS ids ss (\<lambda>_. [], []) = (files, es)"
    "sorted (ask_times ss @ [0])"
  shows "snd (read_digest parse s (FoldFile (ids s) (files s) True) inst es)
    = Some (df_digest (fold (ingest_digest parse) (events_of Some (complete_part (files s))) (digest_start s)))"
proof -
  have "snd (fold_read (ingest_digest parse) (digest_start s) (digest_query 0) None MAX_CACHED_DIGESTS s
      (FoldFile (ids s) (files s) True) inst es)
    = Some (df_digest (fold (ingest_digest parse) (events_of Some (complete_part (files s))) (digest_start s)))"
    using digest.cached_answer [OF assms(2,1), of s inst] by (auto simp: begins_at_def digest_query_def)
  then show ?thesis
    by (cases "fold_read (ingest_digest parse) (digest_start s) (digest_query 0) None MAX_CACHED_DIGESTS s
          (FoldFile (ids s) (files s) True) inst es") (simp add: read_digest_def)
qed

text \<open>The number a new pump resumes from is at least every answer's: no recorded answer of the session is
  numbered above it.\<close>

lemma digest_prefix: "df_prefix (fold (ingest_digest parse) rows f) = df_prefix f"
  by (induction rows arbitrary: f) (auto simp: ingest_digest_def Let_def split: option.split)

lemma digest_grows: "td_max_answer_seq (df_digest f) \<le> td_max_answer_seq (df_digest (fold (ingest_digest parse) rows f))"
proof (induction rows arbitrary: f)
  case (Cons r rows)
  have "td_max_answer_seq (df_digest f) \<le> td_max_answer_seq (df_digest (ingest_digest parse r f))"
    by (auto simp: ingest_digest_def Let_def split: option.split)
  then show ?case using Cons [of "ingest_digest parse r f"] by simp
qed simp

lemma answers_below_digest:
  assumes "raw \<in> set rows" "parse raw = Some turn" "dg_turn_id turn = df_prefix f @ dec n" "n < 2 ^ 64"
  shows "n \<le> td_max_answer_seq (df_digest (fold (ingest_digest parse) rows f))"
proof -
  obtain us vs where rows: "rows = us @ raw # vs" using split_list [OF assms(1)] by blast
  let ?f = "fold (ingest_digest parse) us f"
  have "strip_prefix (df_prefix ?f) (dg_turn_id turn) = Some (dec n)"
    by (simp add: digest_prefix assms(3) strip_prefix_def)
  then have "n \<le> td_max_answer_seq (df_digest (ingest_digest parse raw ?f))"
    using assms(2) parse_u64_dec [OF assms(4)] by (simp add: ingest_digest_def Let_def)
  also have "\<dots> \<le> td_max_answer_seq (df_digest (fold (ingest_digest parse) vs (ingest_digest parse raw ?f)))"
    by (rule digest_grows)
  finally show ?thesis by (simp add: rows)
qed

end
