(* ===== verification/Spec2Isabelle.thy ===== *)
theory Spec2Isabelle
  imports Lost_Updates Hitl_Claims Scheduled_Claims Delegation_Guard Idem_Cache Flow_Scheduler Flow_Journal
    Pending_Queue Channel_Text Event_Ring Projection_Claims Turn_Gating
begin

text \<open>
  A model of the core logic of \<^verbatim>\<open>ccteam\<close>, the daemon that runs sessions of coding agents for chat
  users, the web and the command line. Each theory follows the source files it names, with the
  names of the source where they are free. Theorems whose text carries an id C1, C2, \<dots> are the
  properties; each that has hypotheses is followed by a witness that applies it to a concrete input.

  Parts and how they interact. A session (an agent process) may delegate tasks to child sessions. The
  gateway checks a spawn against its guardrails (\<^verbatim>\<open>Delegation_Guard\<close>), answers retries from a replay
  cache (\<^verbatim>\<open>Idem_Cache\<close>), records the request in the child's record (\<^verbatim>\<open>Delegation_Store\<close>, on disk
  \<^verbatim>\<open>Delegation_File\<close>) through an in-memory mirror (\<^verbatim>\<open>Delegation_Gateway\<close>), and at the end of the
  child's turn plans, claims, delivers and commits one notification per parent
  (\<^verbatim>\<open>Delegation_Delivery\<close>), whose text \<^verbatim>\<open>Answer_Excerpt\<close> makes. After a crash, or when a session is
  released, \<^verbatim>\<open>Delegation_Restart\<close> finds what was left untold. Turns for a busy session wait in
  \<^verbatim>\<open>Pending_Queue\<close>. Everything that happens is appended to a project's progress journal, whose rows
  pass an admission gate (\<^verbatim>\<open>Progress_Events\<close>) and whose files rotate (\<^verbatim>\<open>Progress_Log\<close>); the
  server's summaries are a fold over it (\<^verbatim>\<open>Progress_Projection\<close>, priced by \<^verbatim>\<open>Pricing\<close>), and what a
  session is doing is read from it (\<^verbatim>\<open>Session_Activity\<close>). All journals are read by
  \<^verbatim>\<open>Jsonl_Journal\<close>; what is asked of a session's turns and transcript at every turn is a fold kept in a
  cache (\<^verbatim>\<open>Turn_Gating\<close>). Workflows run agents under a scheduler (\<^verbatim>\<open>Flow_Scheduler\<close>) and resume from a
  journal of their own (\<^verbatim>\<open>Flow_Journal\<close>). Messages put off to a later time wait in a box of their own
  (\<^verbatim>\<open>Scheduled\<close>, \<^verbatim>\<open>Scheduled_Gateway\<close>). A tool call that needs a person's consent is shown with its
  risk, waits in a registry and ends with the answer, at its deadline or with its session (\<^verbatim>\<open>Hitl\<close>,
  \<^verbatim>\<open>Hitl_Gateway\<close>). \<^verbatim>\<open>Channel_Text\<close> cuts replies for a chat channel and \<^verbatim>\<open>Event_Ring\<close> replays
  events to web clients.

  Delegation. \<^verbatim>\<open>Delegation_Store\<close>: \<^verbatim>\<open>DelegationRequests\<close> of
  \<^verbatim>\<open>ccteam-harness/src/execution/delegation.rs\<close>. \<^verbatim>\<open>Delegation_File\<close>: its JSON, reading, and
  \<^verbatim>\<open>atomic_write_durable\<close> of \<^verbatim>\<open>fs_atomic.rs\<close>. \<^verbatim>\<open>Answer_Excerpt\<close>: \<^verbatim>\<open>ccteam-im/src/delegation.rs\<close>,
  \<^verbatim>\<open>turns_mirror.rs\<close>. \<^verbatim>\<open>Delegation_Gateway\<close>, \<^verbatim>\<open>_Delivery\<close>, \<^verbatim>\<open>_Restart\<close>: the handlers of
  \<^verbatim>\<open>ccteam-im/src/gateway.rs\<close>. \<^verbatim>\<open>Delegation_System\<close> composes them into a step relation over memory,
  disk and deliveries in flight, with crashes and failing file-system calls as steps; its invariant
  \<^verbatim>\<open>sys_ok\<close> carries the properties of \<^verbatim>\<open>Record_Claims\<close>, \<^verbatim>\<open>Restart_Claims\<close> and \<^verbatim>\<open>Lost_Updates\<close>.
  \<^verbatim>\<open>Deferred_Stops\<close> adds the stops that write their settlement in the background, at any later moment:
  its relation \<^verbatim>\<open>occurs\<close> of all histories, with the invariant \<^verbatim>\<open>hist_ok\<close>, carries \<^verbatim>\<open>Delegation_Claims\<close>. \<^verbatim>\<open>Delegation_Guard\<close>: the guards and the lineage walks of \<^verbatim>\<open>gateway.rs\<close>, with
  reservations of concurrent spawns. \<^verbatim>\<open>Idem_Cache\<close>: \<^verbatim>\<open>AgentIdemCache\<close> and the calls around it.

  Progress. \<^verbatim>\<open>Jsonl_Journal\<close>: \<^verbatim>\<open>ccteam-harness/src/execution/journal.rs\<close> (backwards tail, forward scan,
  deltas by a byte cursor, the cache of folds). \<^verbatim>\<open>Progress_Events\<close> and \<^verbatim>\<open>Progress_Log\<close>:
  \<^verbatim>\<open>progress_bridge.rs\<close> (\<^verbatim>\<open>EventKind\<close>, \<^verbatim>\<open>append_event_at\<close>, \<^verbatim>\<open>append_serialized\<close>, rotation, the
  checkpoint, repair). \<^verbatim>\<open>Progress_Projection\<close>: \<^verbatim>\<open>ccteam-im/src/progress_projection.rs\<close>, and its
  reference \<^verbatim>\<open>compute_cost_summary\<close> of \<^verbatim>\<open>ccteam-core/src/queries.rs\<close>. \<^verbatim>\<open>Progress_Claims\<close>: an inductive
  relation (\<^verbatim>\<open>log_reach\<close>) of the histories of the files in which every repair lands, the calls otherwise
  failing at will, and that costs survive every one of them; what a repair that does not land does is
  proved beside it. \<^verbatim>\<open>Projection_Claims\<close>: the histories of a server over such files (\<^verbatim>\<open>proj_reach\<close>), with
  rotations by other processes and failing catch-ups, and that its projection refines the sum over the
  lines written unless the file was replaced and grew to the cursor unseen. \<^verbatim>\<open>Session_Activity\<close>: \<^verbatim>\<open>stall.rs\<close>, \<^verbatim>\<open>silence_classifier.rs\<close>, parts of
  \<^verbatim>\<open>progress.rs\<close>, \<^verbatim>\<open>live_turn\<close> of the gateway. \<^verbatim>\<open>Turn_Gating\<close>: \<^verbatim>\<open>turn_gating.rs\<close> and the digest of
  \<^verbatim>\<open>turns_mirror.rs\<close>, the two folds of the cache, as interpretations of the locale \<^verbatim>\<open>tracked_fold\<close> that
  states what the cache needs of a fold. \<^verbatim>\<open>Pricing\<close>: the crate \<^verbatim>\<open>ccteam-cost\<close> with its tables.

  Scheduled messages. \<^verbatim>\<open>Scheduled\<close>: rows, files and times of \<^verbatim>\<open>ccteam-im/src/scheduled.rs\<close>.
  \<^verbatim>\<open>Scheduled_Gateway\<close>: the operations of the gateway on them (schedule, cancel, fire, retry, repair).
  \<^verbatim>\<open>Scheduled_Spec\<close>: a machine of abstract boxes; \<^verbatim>\<open>Scheduled_Refinement\<close>: the gateway simulates it,
  with the locale \<^verbatim>\<open>pass\<close> for a pass over the box, interpreted on the collection and the firing pass.
  \<^verbatim>\<open>Scheduled_Claims\<close>: the histories with failing writes and restarts, also such that cannot read some
  sessions, and what holds in all of them.

  Approvals. \<^verbatim>\<open>Pending_Interactions\<close>: the registry of \<^verbatim>\<open>ccteam-im/src/pending.rs\<close>. \<^verbatim>\<open>Hitl\<close>: previews,
  risk, prompts and replies (\<^verbatim>\<open>hitl.rs\<close>, \<^verbatim>\<open>pi_rpc\<close>, \<^verbatim>\<open>claude_stream_json\<close>). \<^verbatim>\<open>Hitl_Gateway\<close>: asking,
  rendering, polling, the routes an answer takes and cancellation (\<^verbatim>\<open>gateway.rs\<close>, \<^verbatim>\<open>mcp/dispatch.rs\<close>).
  \<^verbatim>\<open>Hitl_System\<close>: their histories, with the locale \<^verbatim>\<open>taker\<close> for whatever may take an entry of the
  registry, interpreted on taking by key and taking by match. \<^verbatim>\<open>Hitl_Claims\<close>: that a call is allowed
  only by its own user's choice, and that an ask ends by its deadline or with its session.

  Others. \<^verbatim>\<open>Flow_Scheduler\<close>, \<^verbatim>\<open>Flow_Journal\<close>: \<^verbatim>\<open>ccteam-flow/src/scheduler.rs\<close> and \<^verbatim>\<open>journal.rs\<close>.
  \<^verbatim>\<open>Pending_Queue\<close>: \<^verbatim>\<open>pending_turns.rs\<close>. \<^verbatim>\<open>Channel_Text\<close>: \<^verbatim>\<open>sanitize.rs\<close>, \<^verbatim>\<open>router.rs\<close>.
  \<^verbatim>\<open>Event_Ring\<close>: \<^verbatim>\<open>ccteam-web/src/ring.rs\<close>. \<^verbatim>\<open>Prelude\<close>: texts, decimal numbers, JSON and the list
  lemmas shared by all.

  Conventions. Texts are lists of code points (\<^verbatim>\<open>utext\<close>) and files lists of bytes; records mirror the
  structs, \<^verbatim>\<open>u32\<close> and \<^verbatim>\<open>u64\<close> values are naturals with saturation or the modulus written out; errors
  are \<^verbatim>\<open>Inl\<close> of a sum or \<^verbatim>\<open>None\<close>. The outcome of each file-system call is an argument, so that an
  early return leaves memory and disk as that failure, or a crash there, would. What a lock protects is one
  step. Code outside the repository (SHA-256, \<^verbatim>\<open>serde_json\<close>, RFC 3339 parsing, clocks) is a
  parameter. Amounts of money are exact rationals where the code adds floating-point numbers.

  Bounds and recursion. The marker of an excerpt is a fixed point sought for 16 rounds; chains of
  continuations end by a measure on the rows left; the replay cache holds 256 keys for 3600 seconds, a
  ring 64 events of each of 128 sessions; a journal is read backwards in blocks of 8 KiB by a
  \<^verbatim>\<open>partial_function\<close> that is proved to return; the tail of a projection holds 200 rows.

  Not modelled. The drivers of the vendors' processes (codex, claude, ACP and others), terminal and
  process back ends, chat transports, the HTTP routes and the command line are input and output around
  the parts above. The workflow script interpreter is a library. Registries and startup hydration of
  projections, broadcast taps and metrics are left out.
\<close>

end
